(* ===== verification/Rezzy_Prelude.thy ===== *)
theory Rezzy_Prelude
  imports Main "HOL-Library.Char_ord" "HOL-Library.List_Lexorder" "HOL-Library.Product_Lexorder"
    "HOL-Library.Multiset"
begin

text \<open>
  Shared vocabulary of the development: the model of Rust's \<open>Result\<close> (a sum whose left side is the
  error), of the string operations of \<open>str\<close> that the crate uses (a string is the list of its UTF-8
  bytes, so \<open>length\<close> is \<open>str::len\<close> and the lexicographic order of the list is the order of \<open>str\<close>),
  of decimal printing and parsing, and of the two map types of the standard library: \<open>BTreeMap\<close>, a
  list of pairs in strictly increasing key order, and \<open>HashMap\<close>, a list of pairs with distinct keys
  whose order is the arbitrary iteration order of the hash table. The two are instances of one
  interface, the locale \<open>finite_map\<close>.
\<close>

section \<open>Results\<close>

type_synonym ('e, 'a) result = "'e + 'a"

definition ok_then :: "('e, unit) result \<Rightarrow> ('e, 'a) result \<Rightarrow> ('e, 'a) result" where
  "ok_then m k = (case m of Inl e \<Rightarrow> Inl e | Inr _ \<Rightarrow> k)"

definition rbind :: "('e, 'a) result \<Rightarrow> ('a \<Rightarrow> ('e, 'b) result) \<Rightarrow> ('e, 'b) result" where
  "rbind m k = (case m of Inl e \<Rightarrow> Inl e | Inr x \<Rightarrow> k x)"

definition ok_or :: "'e \<Rightarrow> 'a option \<Rightarrow> ('e, 'a) result" where
  "ok_or e x = (case x of None \<Rightarrow> Inl e | Some y \<Rightarrow> Inr y)"

definition map_err :: "('e \<Rightarrow> 'f) \<Rightarrow> ('e, 'a) result \<Rightarrow> ('f, 'a) result" where
  "map_err f m = (case m of Inl e \<Rightarrow> Inl (f e) | Inr x \<Rightarrow> Inr x)"

definition require :: "bool \<Rightarrow> 'e \<Rightarrow> ('e, unit) result" where
  "require b e = (if b then Inr () else Inl e)"

fun each_ok :: "('a \<Rightarrow> ('e, unit) result) \<Rightarrow> 'a list \<Rightarrow> ('e, unit) result" where
  "each_ok f [] = Inr ()"
| "each_ok f (x # xs) = ok_then (f x) (each_ok f xs)"

definition is_ok :: "('e, 'a) result \<Rightarrow> bool" where
  "is_ok m = (case m of Inl _ \<Rightarrow> False | Inr _ \<Rightarrow> True)"

lemma ok_then_simps [simp]:
  "ok_then (Inl e) k = Inl e"
  "ok_then (Inr u) k = k"
  by (simp_all add: ok_then_def)

lemma ok_then_eq_Inr [simp]:
  "ok_then m k = Inr x \<longleftrightarrow> m = Inr () \<and> k = Inr x"
  by (cases m) auto

lemma ok_then_eq_Inl:
  "ok_then m k = Inl e \<longleftrightarrow> m = Inl e \<or> m = Inr () \<and> k = Inl e"
  by (cases m) auto

lemma rbind_simps [simp]:
  "rbind (Inl e) k = Inl e"
  "rbind (Inr x) k = k x"
  by (simp_all add: rbind_def)

lemma rbind_eq_Inr [simp]:
  "rbind m k = Inr y \<longleftrightarrow> (\<exists>x. m = Inr x \<and> k x = Inr y)"
  by (cases m) auto

lemma ok_or_eq_Inr [simp]: "ok_or e x = Inr y \<longleftrightarrow> x = Some y"
  by (cases x) (auto simp: ok_or_def)

lemma ok_or_simps [simp]: "ok_or e None = Inl e" "ok_or e (Some y) = Inr y"
  by (simp_all add: ok_or_def)

lemma map_err_eq_Inr [simp]: "map_err f m = Inr x \<longleftrightarrow> m = Inr x"
  by (cases m) (auto simp: map_err_def)

lemma map_err_simps [simp]: "map_err f (Inl e) = Inl (f e)" "map_err f (Inr x) = Inr x"
  by (simp_all add: map_err_def)

lemma require_eq_Inr [simp]: "require b e = Inr u \<longleftrightarrow> b"
  by (simp add: require_def)

lemma require_eq_Inl [simp]: "require b e = Inl e' \<longleftrightarrow> \<not> b \<and> e' = e"
  by (auto simp: require_def)

lemma require_simps [simp]: "require True e = Inr ()" "require False e = Inl e"
  by (simp_all add: require_def)

lemma each_ok_eq_Inr [simp]: "each_ok f xs = Inr u \<longleftrightarrow> (\<forall>x \<in> set xs. f x = Inr ())"
  by (induction xs) auto

lemma is_ok_simps [simp]: "is_ok (Inl e) = False" "is_ok (Inr x) = True"
  by (simp_all add: is_ok_def)

lemma is_ok_unit: "is_ok m \<longleftrightarrow> m = Inr ()"
  by (cases m) auto

section \<open>Strings\<close>

definition starts_with :: "char \<Rightarrow> string \<Rightarrow> bool" where
  "starts_with c s = (case s of [] \<Rightarrow> False | x # _ \<Rightarrow> x = c)"

definition strip_prefix :: "char \<Rightarrow> string \<Rightarrow> string option" where
  "strip_prefix c s = (case s of [] \<Rightarrow> None | x # xs \<Rightarrow> if x = c then Some xs else None)"

fun split_once :: "char \<Rightarrow> string \<Rightarrow> (string \<times> string) option" where
  "split_once c [] = None"
| "split_once c (x # xs) =
     (if x = c then Some ([], xs) else map_option (\<lambda>(a, b). (x # a, b)) (split_once c xs))"

definition rsplit_once :: "char \<Rightarrow> string \<Rightarrow> (string \<times> string) option" where
  "rsplit_once c s = map_option (\<lambda>(a, b). (rev b, rev a)) (split_once c (rev s))"

definition to_ascii_lowercase :: "char \<Rightarrow> char" where
  "to_ascii_lowercase c =
     (let n = of_char c :: nat in if 65 \<le> n \<and> n \<le> 90 then char_of (n + 32) else c)"

definition eq_ignore_ascii_case :: "string \<Rightarrow> string \<Rightarrow> bool" where
  "eq_ignore_ascii_case a b \<longleftrightarrow> map to_ascii_lowercase a = map to_ascii_lowercase b"

text \<open>Text between single quotes, as in the messages of the errors.\<close>

definition quoted :: "string \<Rightarrow> string" where
  "quoted s = CHR 0x27 # s @ [CHR 0x27]"

lemma split_once_Some:
  "split_once c s = Some (a, b) \<longleftrightarrow> s = a @ c # b \<and> c \<notin> set a"
proof (induction s arbitrary: a)
  case (Cons x xs)
  then show ?case
    by (cases a) (auto split: prod.splits)
qed simp

lemma split_once_None: "split_once c s = None \<longleftrightarrow> c \<notin> set s"
  by (induction s) auto

lemma rsplit_once_Some:
  "rsplit_once c s = Some (a, b) \<longleftrightarrow> s = a @ c # b \<and> c \<notin> set b"
proof -
  have "rsplit_once c s = Some (a, b) \<longleftrightarrow> split_once c (rev s) = Some (rev b, rev a)"
    by (auto simp: rsplit_once_def)
  also have "\<dots> \<longleftrightarrow> rev s = rev b @ c # rev a \<and> c \<notin> set b"
    by (simp add: split_once_Some)
  also have "rev s = rev b @ c # rev a \<longleftrightarrow> s = a @ c # b"
    by (metis append.assoc append_Cons append_Nil rev.simps(2) rev_append rev_rev_ident)
  finally show ?thesis .
qed

lemma rsplit_once_None: "rsplit_once c s = None \<longleftrightarrow> c \<notin> set s"
  by (simp add: rsplit_once_def split_once_None)

section \<open>Decimal numbers\<close>

text \<open>Machine integers are integers with their ranges written out, so that they compute.\<close>

definition digit_char :: "int \<Rightarrow> char" where
  "digit_char d = char_of (48 + d)"

function show_digits :: "int \<Rightarrow> string" where
  "show_digits n =
     (if n < 10 then [digit_char n] else show_digits (n div 10) @ [digit_char (n mod 10)])"
  by pat_completeness auto
termination
  by (relation "measure nat") auto

declare show_digits.simps [simp del]

definition show_int :: "int \<Rightarrow> string" where
  "show_int i = (if i < 0 then CHR ''-'' # show_digits (- i) else show_digits i)"

definition digit_of :: "char \<Rightarrow> int option" where
  "digit_of c =
     (let n = of_char c :: int in if 48 \<le> n \<and> n \<le> 57 then Some (n - 48) else None)"

fun parse_digits :: "int \<Rightarrow> string \<Rightarrow> int option" where
  "parse_digits acc [] = Some acc"
| "parse_digits acc (c # cs) =
     (case digit_of c of None \<Rightarrow> None | Some d \<Rightarrow> parse_digits (acc * 10 + d) cs)"

text \<open>\<open>str::parse\<close> for the integer types: at least one digit, an optional sign (a minus sign only
  for the signed types), and a value in the range of the type.\<close>

definition parse_nat :: "string \<Rightarrow> int option" where
  "parse_nat s = (if s = [] then None else parse_digits 0 s)"

definition I64_MAX :: int where
  "I64_MAX = 9223372036854775807"

definition I64_MIN :: int where
  "I64_MIN = - 9223372036854775808"

definition U64_MAX :: int where
  "U64_MAX = 18446744073709551615"

definition U32_MAX :: int where
  "U32_MAX = 4294967295"

definition in_i64 :: "int \<Rightarrow> bool" where
  "in_i64 i \<longleftrightarrow> I64_MIN \<le> i \<and> i \<le> I64_MAX"

definition parse_signed :: "string \<Rightarrow> int option" where
  "parse_signed s = (case s of
       [] \<Rightarrow> None
     | c # cs \<Rightarrow>
         if c = CHR ''-'' then map_option uminus (parse_nat cs)
         else if c = CHR ''+'' then parse_nat cs
         else parse_nat s)"

definition parse_i64 :: "string \<Rightarrow> int option" where
  "parse_i64 s = (case parse_signed s of
       None \<Rightarrow> None
     | Some i \<Rightarrow> if in_i64 i then Some i else None)"

definition parse_unsigned :: "int \<Rightarrow> string \<Rightarrow> int option" where
  "parse_unsigned bound s =
     (case (case s of
              [] \<Rightarrow> None
            | c # cs \<Rightarrow> if c = CHR ''+'' then parse_nat cs else parse_nat s) of
        None \<Rightarrow> None
      | Some n \<Rightarrow> if n \<le> bound then Some n else None)"

definition parse_u64 :: "string \<Rightarrow> int option" where
  "parse_u64 = parse_unsigned U64_MAX"

definition parse_u32 :: "string \<Rightarrow> int option" where
  "parse_u32 = parse_unsigned U32_MAX"

text \<open>\<open>i64::saturating_add\<close>.\<close>

definition saturating_add_i64 :: "int \<Rightarrow> int \<Rightarrow> int" where
  "saturating_add_i64 a b = max I64_MIN (min I64_MAX (a + b))"

lemma digit_of_digit_char [simp]: "0 \<le> d \<Longrightarrow> d < 10 \<Longrightarrow> digit_of (digit_char d) = Some d"
  by (simp add: digit_of_def digit_char_def)

lemma digit_of_bounds: "digit_of c = Some d \<Longrightarrow> 0 \<le> d \<and> d < 10"
  by (auto simp: digit_of_def Let_def split: if_splits)

lemma parse_digits_append:
  "parse_digits acc (xs @ ys) =
     (case parse_digits acc xs of None \<Rightarrow> None | Some a \<Rightarrow> parse_digits a ys)"
  by (induction xs arbitrary: acc) (auto split: option.splits)

lemma parse_digits_ge: "parse_digits acc s = Some n \<Longrightarrow> 0 \<le> acc \<Longrightarrow> acc \<le> n"
proof (induction s arbitrary: acc)
  case (Cons c s)
  then obtain d where d: "digit_of c = Some d" and n: "parse_digits (acc * 10 + d) s = Some n"
    by (auto split: option.splits)
  from digit_of_bounds [OF d] Cons.prems(2) have "acc \<le> acc * 10 + d" "0 \<le> acc * 10 + d" by auto
  with Cons.IH [OF n] show ?case by simp
qed simp

lemma parse_nat_nonneg: "parse_nat s = Some n \<Longrightarrow> 0 \<le> n"
  by (auto simp: parse_nat_def dest: parse_digits_ge split: if_splits)

lemma show_digits_nonempty [simp]: "show_digits n \<noteq> []"
  by (subst show_digits.simps) simp

lemma parse_digits_show_digits: "0 \<le> n \<Longrightarrow> parse_digits 0 (show_digits n) = Some n"
proof (induction n rule: show_digits.induct)
  case (1 n)
  show ?case
  proof (cases "n < 10")
    case True
    with 1 show ?thesis by (simp add: show_digits.simps [of n])
  next
    case False
    with 1 have "parse_digits 0 (show_digits (n div 10)) = Some (n div 10)" by simp
    with False show ?thesis
      by (simp add: show_digits.simps [of n] parse_digits_append)
  qed
qed

lemma parse_i64_range: "parse_i64 s = Some i \<Longrightarrow> I64_MIN \<le> i \<and> i \<le> I64_MAX"
  by (auto simp: parse_i64_def in_i64_def split: option.splits if_splits)

section \<open>Finite maps\<close>

text \<open>
  The interface the components use of a standard library map: a lookup after an insertion, and the
  entries of the map in its iteration order. The facts proved here hold for both map types.
\<close>

locale finite_map =
  fixes insert_entry :: "'k \<Rightarrow> 'v \<Rightarrow> ('k \<times> 'v) list \<Rightarrow> ('k \<times> 'v) list"
    and invar :: "('k \<times> 'v) list \<Rightarrow> bool"
  assumes lookup_insert: "map_of (insert_entry k v m) = (map_of m)(k \<mapsto> v)"
    and invar_empty: "invar []"
    and invar_insert: "invar m \<Longrightarrow> invar (insert_entry k v m)"
    and invar_distinct: "invar m \<Longrightarrow> distinct (map fst m)"
begin

definition insert_all :: "('k \<times> 'v) list \<Rightarrow> ('k \<times> 'v) list \<Rightarrow> ('k \<times> 'v) list" where
  "insert_all kvs m = fold (\<lambda>(k, v). insert_entry k v) kvs m"

lemma lookup_insert_all: "map_of (insert_all kvs m) = map_of m ++ map_of (rev kvs)"
proof (induction kvs arbitrary: m)
  case Nil
  then show ?case by (simp add: insert_all_def)
next
  case (Cons kv kvs)
  obtain k v where kv: "kv = (k, v)" by (cases kv)
  have "map_of (insert_all (kv # kvs) m) = map_of (insert_entry k v m) ++ map_of (rev kvs)"
    using Cons.IH [of "insert_entry k v m"] by (simp add: insert_all_def kv)
  then show ?case
    by (rule trans) (auto simp: lookup_insert kv map_add_def fun_eq_iff split: option.splits)
qed

lemma invar_insert_all: "invar m \<Longrightarrow> invar (insert_all kvs m)"
  by (induction kvs arbitrary: m) (auto simp: insert_all_def invar_insert)

lemma entry_lookup: "invar m \<Longrightarrow> (k, v) \<in> set m \<longleftrightarrow> map_of m k = Some v"
  by (auto dest: invar_distinct intro: map_of_is_SomeI map_of_SomeD)

lemma keys_insert: "fst ` set (insert_entry k v m) = insert k (fst ` set m)"
proof -
  have "dom (map_of (insert_entry k v m)) = insert k (dom (map_of m))"
    by (simp add: lookup_insert)
  then show ?thesis by (simp add: dom_map_of_conv_image_fst)
qed

end

fun bm_insert :: "'k::linorder \<Rightarrow> 'v \<Rightarrow> ('k \<times> 'v) list \<Rightarrow> ('k \<times> 'v) list" where
  "bm_insert k v [] = [(k, v)]"
| "bm_insert k v ((l, w) # m) =
     (if k = l then (k, v) # m
      else if k < l then (k, v) # (l, w) # m
      else (l, w) # bm_insert k v m)"

definition bm_inv :: "('k::linorder \<times> 'v) list \<Rightarrow> bool" where
  "bm_inv m \<longleftrightarrow> sorted_wrt (<) (map fst m)"

fun hm_insert :: "'k \<Rightarrow> 'v \<Rightarrow> ('k \<times> 'v) list \<Rightarrow> ('k \<times> 'v) list" where
  "hm_insert k v [] = [(k, v)]"
| "hm_insert k v ((l, w) # m) = (if k = l then (l, v) # m else (l, w) # hm_insert k v m)"

definition hm_inv :: "('k \<times> 'v) list \<Rightarrow> bool" where
  "hm_inv m \<longleftrightarrow> distinct (map fst m)"

definition hm_remove :: "'k \<Rightarrow> ('k \<times> 'v) list \<Rightarrow> ('k \<times> 'v) list" where
  "hm_remove k m = filter (\<lambda>(l, _). l \<noteq> k) m"

lemma map_of_bm_insert: "map_of (bm_insert k v m) = (map_of m)(k \<mapsto> v)"
  by (induction k v m rule: bm_insert.induct) (auto simp: fun_eq_iff)

lemma keys_bm_insert: "set (map fst (bm_insert k v m)) = insert k (set (map fst m))"
  by (induction k v m rule: bm_insert.induct) auto

lemma bm_inv_insert: "bm_inv m \<Longrightarrow> bm_inv (bm_insert k v m)"
proof (induction k v m rule: bm_insert.induct)
  case (2 k v l w m)
  then show ?case
    using keys_bm_insert [of k v m] by (auto simp: bm_inv_def)
qed (simp add: bm_inv_def)

lemma bm_inv_Nil [simp]: "bm_inv []"
  by (simp add: bm_inv_def)

lemma bm_inv_distinct: "bm_inv m \<Longrightarrow> distinct (map fst m)"
  unfolding bm_inv_def by (induction m) auto

interpretation bm: finite_map bm_insert bm_inv
  by unfold_locales (simp_all add: map_of_bm_insert bm_inv_insert bm_inv_distinct bm_inv_Nil)

lemma map_of_hm_insert: "map_of (hm_insert k v m) = (map_of m)(k \<mapsto> v)"
  by (induction k v m rule: hm_insert.induct) (auto simp: fun_eq_iff)

lemma hm_inv_Nil [simp]: "hm_inv []"
  by (simp add: hm_inv_def)

lemma hm_inv_insert: "hm_inv m \<Longrightarrow> hm_inv (hm_insert k v m)"
proof (induction k v m rule: hm_insert.induct)
  case (2 k v l w m)
  have "fst ` set (hm_insert k v m) = insert k (fst ` set m)"
    using arg_cong [OF map_of_hm_insert [of k v m], of dom]
    by (simp add: dom_map_of_conv_image_fst)
  with 2 show ?case by (auto simp: hm_inv_def)
qed (simp add: hm_inv_def)

interpretation hm: finite_map hm_insert hm_inv
  by unfold_locales (simp_all add: map_of_hm_insert hm_inv_insert hm_inv_Nil, simp add: hm_inv_def)

lemma map_of_hm_remove: "map_of (hm_remove k m) = (map_of m)(k := None)"
  by (induction m) (auto simp: hm_remove_def fun_eq_iff)

lemma hm_inv_remove: "hm_inv m \<Longrightarrow> hm_inv (hm_remove k m)"
  unfolding hm_inv_def hm_remove_def by (induction m) auto

lemmas map_lookups = map_of_bm_insert map_of_hm_insert map_of_hm_remove

lemma entries_of_keys:
  assumes "distinct (map fst m)"
  shows "m = map (\<lambda>k. (k, the (map_of m k))) (map fst m)"
proof -
  have "map (\<lambda>e. (fst e, the (map_of m (fst e)))) m = map id m"
    using assms by (intro map_cong) (auto simp: map_of_is_SomeI)
  then show ?thesis by (simp add: o_def)
qed

text \<open>A sorted association list is determined by the map it represents.\<close>

lemma bm_inv_unique:
  assumes "bm_inv m" "bm_inv n" "map_of m = map_of n"
  shows "m = n"
proof -
  have keys: "set (map fst m) = set (map fst n)"
    using arg_cong [OF assms(3), of dom] by (simp add: dom_map_of_conv_image_fst)
  have "sorted (map fst m)" "distinct (map fst m)" "sorted (map fst n)" "distinct (map fst n)"
    using assms(1,2) by (auto simp: bm_inv_def bm_inv_distinct strict_sorted_imp_sorted)
  with keys have "map fst m = map fst n" by (simp add: sorted_distinct_set_unique)
  then show ?thesis
    using entries_of_keys [of m] entries_of_keys [of n] assms
    by (simp add: bm_inv_distinct)
qed

lemma bm_inv_Cons: "bm_inv ((k, v) # m) \<longleftrightarrow> (\<forall>l \<in> fst ` set m. k < l) \<and> bm_inv m"
  by (auto simp: bm_inv_def)

lemma bm_inv_filter: "bm_inv m \<Longrightarrow> bm_inv (filter P m)"
  unfolding bm_inv_def by (induction m) auto

lemma map_of_filter_key: "map_of (filter (\<lambda>e. P (fst e)) m) k = (if P k then map_of m k else None)"
  by (induction m) auto

lemma bm_insert_filter:
  assumes "bm_inv m" "map_of m r = Some v"
  shows "bm_insert r v (filter (\<lambda>e. P (fst e)) m) = filter (\<lambda>e. P (fst e) \<or> fst e = r) m"
proof (rule bm_inv_unique)
  show "map_of (bm_insert r v (filter (\<lambda>e. P (fst e)) m)) =
      map_of (filter (\<lambda>e. P (fst e) \<or> fst e = r) m)"
    using assms(2) map_of_filter_key [of "\<lambda>k. P k \<or> k = r" m]
    by (auto simp: map_lookups map_of_filter_key fun_eq_iff)
qed (use assms in \<open>auto intro: bm_inv_filter bm_inv_insert\<close>)

text \<open>Building a map from the entries of another, and merging entries into a map.\<close>

definition insert_mapped ::
  "('k::linorder \<Rightarrow> 'v \<Rightarrow> 'w option) \<Rightarrow> 'k \<times> 'v \<Rightarrow> ('k \<times> 'w) list \<Rightarrow> ('k \<times> 'w) list" where
  "insert_mapped f = (\<lambda>(k, v) out. case f k v of None \<Rightarrow> out | Some w \<Rightarrow> bm_insert k w out)"

definition update_with ::
  "('w option \<Rightarrow> 'v \<Rightarrow> 'w) \<Rightarrow> 'k::linorder \<times> 'v \<Rightarrow> ('k \<times> 'w) list \<Rightarrow> ('k \<times> 'w) list" where
  "update_with g = (\<lambda>(k, v) out. bm_insert k (g (map_of out k) v) out)"

lemma fold_insert_mapped:
  assumes "distinct (map fst m)" "bm_inv out"
  shows "bm_inv (fold (insert_mapped f) m out)"
    and "map_of (fold (insert_mapped f) m out) k =
      (case Option.bind (map_of m k) (f k) of None \<Rightarrow> map_of out k | Some w \<Rightarrow> Some w)"
proof -
  show "bm_inv (fold (insert_mapped f) m out)"
    using assms(2) by (induction m arbitrary: out) (auto simp: insert_mapped_def bm_inv_insert split: option.splits)
  show "map_of (fold (insert_mapped f) m out) k =
      (case Option.bind (map_of m k) (f k) of None \<Rightarrow> map_of out k | Some w \<Rightarrow> Some w)"
    using assms(1)
  proof (induction m arbitrary: out)
    case (Cons e m)
    obtain l v where e: "e = (l, v)" by (cases e)
    show ?case
    proof (cases "k = l")
      case True
      then have "map_of m k = None" using Cons.prems e by (simp add: map_of_eq_None_iff)
      with True Cons e show ?thesis by (auto simp: insert_mapped_def map_lookups split: option.splits)
    next
      case False
      with Cons e show ?thesis by (auto simp: insert_mapped_def map_lookups split: option.splits)
    qed
  qed simp
qed

lemma insert_mapped_all:
  assumes "bm_inv m"
  shows "bm_inv (fold (insert_mapped f) m [])"
    and "map_of (fold (insert_mapped f) m []) k = Option.bind (map_of m k) (f k)"
  using fold_insert_mapped(1) [OF bm_inv_distinct [OF assms] bm_inv_Nil, of f]
    fold_insert_mapped(2) [OF bm_inv_distinct [OF assms] bm_inv_Nil, of f k]
  by (auto split: option.splits)

lemma fold_update_with:
  assumes "distinct (map fst m)" "bm_inv out"
  shows "bm_inv (fold (update_with g) m out)"
    and "map_of (fold (update_with g) m out) k =
      (case map_of m k of None \<Rightarrow> map_of out k | Some v \<Rightarrow> Some (g (map_of out k) v))"
proof -
  show "bm_inv (fold (update_with g) m out)"
    using assms(2) by (induction m arbitrary: out) (auto simp: update_with_def bm_inv_insert)
  show "map_of (fold (update_with g) m out) k =
      (case map_of m k of None \<Rightarrow> map_of out k | Some v \<Rightarrow> Some (g (map_of out k) v))"
    using assms(1)
  proof (induction m arbitrary: out)
    case (Cons e m)
    obtain l v where e: "e = (l, v)" by (cases e)
    show ?case
    proof (cases "k = l")
      case True
      then have "map_of m k = None" using Cons.prems e by (simp add: map_of_eq_None_iff)
      with True Cons e show ?thesis by (simp add: update_with_def map_lookups)
    next
      case False
      with Cons e show ?thesis by (simp add: update_with_def map_lookups split: option.split)
    qed
  qed simp
qed

end
