(* ===== verification/Json_Value.thy ===== *)
theory Json_Value
  imports Rezzy_Prelude
begin

text \<open>
  The JSON value of the crate \<open>rezzy-json\<close> (\<open>Value\<close>, \<open>Number\<close> and the accessors the event model
  uses) and its two canonical writers: \<open>write_value_into\<close> of \<open>rezzy-json\<close> and \<open>write_json_value\<close> of
  \<open>basespec::rezzy_types\<close>, with the strict number validation of room versions 6 and later. A number
  keeps its validated spelling, as in the source. An object is the \<open>BTreeMap\<close> of its members.
\<close>

section \<open>Values and accessors\<close>

datatype json =
    Null
  | Bool bool
  | Number string
  | String string
  | Array "json list"
  | Object "(string \<times> json) list"

fun json_wf :: "json \<Rightarrow> bool" where
  "json_wf (Array xs) = (\<forall>x \<in> set xs. json_wf x)"
| "json_wf (Object m) = (bm_inv m \<and> (\<forall>e \<in> set m. json_wf (snd e)))"
| "json_wf _ = True"

definition get :: "string \<Rightarrow> json \<Rightarrow> json option" where
  "get key v = (case v of Object m \<Rightarrow> map_of m key | _ \<Rightarrow> None)"

definition as_object :: "json \<Rightarrow> (string \<times> json) list option" where
  "as_object v = (case v of Object m \<Rightarrow> Some m | _ \<Rightarrow> None)"

definition as_array :: "json \<Rightarrow> json list option" where
  "as_array v = (case v of Array xs \<Rightarrow> Some xs | _ \<Rightarrow> None)"

definition as_bool :: "json \<Rightarrow> bool option" where
  "as_bool v = (case v of Bool b \<Rightarrow> Some b | _ \<Rightarrow> None)"

definition as_str :: "json \<Rightarrow> string option" where
  "as_str v = (case v of String s \<Rightarrow> Some s | _ \<Rightarrow> None)"

definition as_i64 :: "json \<Rightarrow> int option" where
  "as_i64 v = (case v of Number n \<Rightarrow> parse_i64 n | _ \<Rightarrow> None)"

definition as_u64 :: "json \<Rightarrow> int option" where
  "as_u64 v = (case v of Number n \<Rightarrow> parse_u64 n | _ \<Rightarrow> None)"

definition is_i64 :: "json \<Rightarrow> bool" where
  "is_i64 v \<longleftrightarrow> as_i64 v \<noteq> None"

definition is_u64 :: "json \<Rightarrow> bool" where
  "is_u64 v \<longleftrightarrow> as_u64 v \<noteq> None"

lemmas json_access = get_def as_object_def as_array_def as_bool_def as_str_def as_i64_def as_u64_def

lemma json_wf_get: "json_wf c \<Longrightarrow> get k c = Some v \<Longrightarrow> json_wf v"
  by (cases c) (fastforce simp: get_def dest: map_of_SomeD)+

lemma json_wf_member: "json_wf (Object m) \<Longrightarrow> map_of m k = Some v \<Longrightarrow> json_wf v"
  by (fastforce dest: map_of_SomeD)

section \<open>Floating point numbers\<close>

text \<open>
  \<open>str::parse::<f64>\<close> rounds the decimal value to the nearest binary64, ties to even. A finite
  \<open>f64\<close> is the pair of an integer mantissa and a binary exponent; overflow to infinity and
  spellings that are not decimal numbers give no finite value, which is what \<open>Number::as_f64\<close>
  returns \<open>None\<close> for.
\<close>

type_synonym f64 = "int \<times> int"

definition is_digit :: "char \<Rightarrow> bool" where
  "is_digit c \<longleftrightarrow> digit_of c \<noteq> None"

definition digits_value :: "string \<Rightarrow> int" where
  "digits_value s = (case parse_digits 0 s of None \<Rightarrow> 0 | Some n \<Rightarrow> n)"

definition strip_sign :: "string \<Rightarrow> bool \<times> string" where
  "strip_sign s = (case s of
       [] \<Rightarrow> (False, s)
     | c # cs \<Rightarrow> if c = CHR ''-'' then (True, cs) else if c = CHR ''+'' then (False, cs) else (False, s))"

definition parse_exponent :: "string \<Rightarrow> int option" where
  "parse_exponent s = (case s of
       [] \<Rightarrow> Some 0
     | c # cs \<Rightarrow>
         if c = CHR ''e'' \<or> c = CHR ''E'' then
           (case strip_sign cs of (neg, ds) \<Rightarrow>
              map_option (\<lambda>n. if neg then - n else n) (parse_nat ds))
         else None)"

definition parse_decimal :: "string \<Rightarrow> (bool \<times> int \<times> int) option" where
  "parse_decimal s =
     (let (neg, r) = strip_sign s;
          ip = takeWhile is_digit r;
          r1 = dropWhile is_digit r;
          (fp, r2) = (case r1 of
              [] \<Rightarrow> ([], [])
            | c # t \<Rightarrow> if c = CHR ''.'' then (takeWhile is_digit t, dropWhile is_digit t) else ([], r1))
      in if ip = [] \<and> fp = [] then None
         else map_option (\<lambda>x. (neg, digits_value (ip @ fp), x - int (length fp))) (parse_exponent r2))"

function bit_length :: "int \<Rightarrow> nat" where
  "bit_length n = (if n \<le> 0 then 0 else Suc (bit_length (n div 2)))"
  by pat_completeness auto
termination
  by (relation "measure nat") auto

declare bit_length.simps [simp del]

definition round_half_even :: "int \<Rightarrow> int \<Rightarrow> int" where
  "round_half_even n d =
     (let q = n div d; r = n mod d in if 2 * r > d \<or> 2 * r = d \<and> odd q then q + 1 else q)"

definition f64_of_ratio :: "int \<Rightarrow> int \<Rightarrow> f64 option" where
  "f64_of_ratio n d =
     (let l0 = int (bit_length n) - int (bit_length d);
          l = (if n * 2 ^ nat (- l0) < d * 2 ^ nat l0 then l0 - 1 else l0);
          e = max (l - 52) (- 1074);
          m = round_half_even (n * 2 ^ nat (- e)) (d * 2 ^ nat e)
      in if m * 2 ^ nat e \<ge> 2 ^ 1024 then None else Some (m, e))"

definition parse_f64 :: "string \<Rightarrow> f64 option" where
  "parse_f64 s = (case parse_decimal s of
       None \<Rightarrow> None
     | Some (neg, d, x) \<Rightarrow>
         if d = 0 then Some (0, 0)
         else map_option (\<lambda>(m, e). (if neg then - m else m, e))
                (f64_of_ratio (d * 10 ^ nat x) (10 ^ nat (- x))))"

definition as_f64 :: "json \<Rightarrow> f64 option" where
  "as_f64 v = (case v of Number n \<Rightarrow> parse_f64 n | _ \<Rightarrow> None)"

definition f64_trunc :: "f64 \<Rightarrow> int" where
  "f64_trunc f = (case f of (m, e) \<Rightarrow>
     if 0 \<le> e then m * 2 ^ nat e else sgn m * (\<bar>m\<bar> div 2 ^ nat (- e)))"

section \<open>Integer coercion of power levels\<close>

definition MAX_POWER_LEVEL_JSON :: int where
  "MAX_POWER_LEVEL_JSON = 9007199254740991"

definition clamp_json :: "int \<Rightarrow> int" where
  "clamp_json v = max (- MAX_POWER_LEVEL_JSON) (min MAX_POWER_LEVEL_JSON v)"

definition coerce_json_integer_parts ::
  "int option \<Rightarrow> int option \<Rightarrow> f64 option \<Rightarrow> string option \<Rightarrow> int option" where
  "coerce_json_integer_parts signed unsigned float str =
     (let val = (case signed of
            Some i \<Rightarrow> Some i
          | None \<Rightarrow> (case unsigned of
              Some u \<Rightarrow> Some (if u \<le> I64_MAX then u else I64_MAX)
            | None \<Rightarrow> (case (case float of
                  None \<Rightarrow> None
                | Some f \<Rightarrow>
                    let t = f64_trunc f
                    in if I64_MIN \<le> t \<and> t \<le> I64_MAX + 1 then Some (min t I64_MAX) else None) of
                Some i \<Rightarrow> Some i
              | None \<Rightarrow> (case str of None \<Rightarrow> None | Some s \<Rightarrow> parse_i64 s))))
      in map_option clamp_json val)"

definition coerce_json_to_i64 :: "json \<Rightarrow> int option" where
  "coerce_json_to_i64 pl = coerce_json_integer_parts (as_i64 pl) (as_u64 pl) (as_f64 pl) (as_str pl)"

lemma clamp_json_bounds:
  "- MAX_POWER_LEVEL_JSON \<le> clamp_json v \<and> clamp_json v \<le> MAX_POWER_LEVEL_JSON"
  by (simp add: clamp_json_def MAX_POWER_LEVEL_JSON_def)

lemma coerce_json_to_i64_bounds:
  "coerce_json_to_i64 pl = Some i \<Longrightarrow> - MAX_POWER_LEVEL_JSON \<le> i \<and> i \<le> MAX_POWER_LEVEL_JSON"
  using clamp_json_bounds
  by (auto simp: coerce_json_to_i64_def coerce_json_integer_parts_def Let_def)

end
