(* ===== verification/Canonical_Json.thy ===== *)
theory Canonical_Json
  imports Json_Value
begin

text \<open>
  The canonical JSON writers. \<open>write_json_value\<close> is the fallible writer of \<open>basespec::rezzy_types\<close>
  into a string sink, whose bytes the content hash, the reference hash and the signatures cover;
  \<open>write_value_into\<close> is the infallible writer of \<open>rezzy-json\<close>. Both batch runs of unescaped bytes;
  the byte-wise definition \<open>escaped\<close> is the reference they are proved equal to.
\<close>

section \<open>Number validation\<close>

datatype canonicalization_error = FractionalOrExponentNumber | OutOfRangeNumber

definition display_canonicalization_error :: "canonicalization_error \<Rightarrow> string" where
  "display_canonicalization_error e = (case e of
       FractionalOrExponentNumber \<Rightarrow> ''fractional or exponent-form number in canonical JSON''
     | OutOfRangeNumber \<Rightarrow> ''out-of-range number in canonical JSON'')"

definition MAX_SAFE_INTEGER :: int where
  "MAX_SAFE_INTEGER = 9007199254740991"

definition validate_canonical_number :: "string \<Rightarrow> (canonicalization_error, unit) result" where
  "validate_canonical_number s =
     (if CHR ''.'' \<in> set s \<or> CHR ''e'' \<in> set s \<or> CHR ''E'' \<in> set s
      then Inl FractionalOrExponentNumber
      else (case parse_i64 s of
          Some v \<Rightarrow> require (\<bar>v\<bar> \<le> MAX_SAFE_INTEGER) OutOfRangeNumber
        | None \<Rightarrow> (case parse_u64 s of
            Some v \<Rightarrow> require (v \<le> MAX_SAFE_INTEGER) OutOfRangeNumber
          | None \<Rightarrow> Inr ())))"

definition is_canonical_integer_str :: "string \<Rightarrow> bool" where
  "is_canonical_integer_str value =
     (let digits = (case strip_prefix CHR ''-'' value of None \<Rightarrow> value | Some d \<Rightarrow> d)
      in if digits = [] \<or> digits \<noteq> ''0'' \<and> starts_with CHR ''0'' digits \<or> value = ''-0''
            \<or> CHR ''.'' \<in> set value \<or> CHR ''e'' \<in> set value \<or> CHR ''E'' \<in> set value
         then False
         else (case parse_i64 value of
                 Some n \<Rightarrow> - MAX_SAFE_INTEGER \<le> n \<and> n \<le> MAX_SAFE_INTEGER
               | None \<Rightarrow> False)
            \<or> (case parse_u64 value of Some n \<Rightarrow> n \<le> MAX_SAFE_INTEGER | None \<Rightarrow> False))"

section \<open>Strings\<close>

definition hex_digit :: "nat \<Rightarrow> char" where
  "hex_digit d = ''0123456789abcdef'' ! d"

definition push_escape :: "char \<Rightarrow> string" where
  "push_escape b =
     (let n = of_char b :: nat
      in if n = 34 then [CHR 0x5C, CHR 0x22]
         else if n = 92 then [CHR 0x5C, CHR 0x5C]
         else if n = 8 then [CHR 0x5C, CHR ''b'']
         else if n = 9 then [CHR 0x5C, CHR ''t'']
         else if n = 10 then [CHR 0x5C, CHR ''n'']
         else if n = 12 then [CHR 0x5C, CHR ''f'']
         else if n = 13 then [CHR 0x5C, CHR ''r'']
         else [CHR 0x5C, CHR ''u'', CHR ''0'', CHR ''0'', hex_digit (n div 16), hex_digit (n mod 16)])"

definition must_escape :: "char \<Rightarrow> bool" where
  "must_escape b \<longleftrightarrow> (let n = of_char b :: nat in n = 34 \<or> n = 92 \<or> n \<le> 31)"

definition slice :: "'a list \<Rightarrow> nat \<Rightarrow> nat \<Rightarrow> 'a list" where
  "slice xs a b = take (b - a) (drop a xs)"

function write_json_string_loop :: "string \<Rightarrow> nat \<Rightarrow> nat \<Rightarrow> string \<Rightarrow> string" where
  "write_json_string_loop s start i out =
     (if i < length s then
        let b = s ! i
        in if \<not> must_escape b then write_json_string_loop s start (i + 1) out
           else let out1 = (if i > start then out @ slice s start i else out)
                in write_json_string_loop s (i + 1) (i + 1) (out1 @ push_escape b)
      else if start < length s then out @ drop start s else out)"
  by pat_completeness auto
termination
  by (relation "measure (\<lambda>(s, start, i, out). length s - i)") auto

declare write_json_string_loop.simps [simp del]

definition write_json_string :: "string \<Rightarrow> string" where
  "write_json_string s = write_json_string_loop s 0 0 [CHR 0x22] @ [CHR 0x22]"

function write_string_into_loop :: "string \<Rightarrow> nat \<Rightarrow> nat \<Rightarrow> string \<Rightarrow> string" where
  "write_string_into_loop s run index out =
     (if index < length s then
        let byte = s ! index
        in if 32 \<le> (of_char byte :: nat) \<and> byte \<noteq> CHR 0x22 \<and> byte \<noteq> CHR 0x5C
           then write_string_into_loop s run (index + 1) out
           else write_string_into_loop s (index + 1) (index + 1)
                  (out @ slice s run index @ push_escape byte)
      else out @ drop run s)"
  by pat_completeness auto
termination
  by (relation "measure (\<lambda>(s, run, index, out). length s - index)") auto

declare write_string_into_loop.simps [simp del]

definition write_string_into :: "string \<Rightarrow> string" where
  "write_string_into s = write_string_into_loop s 0 0 [CHR 0x22] @ [CHR 0x22]"

section \<open>Values\<close>

fun write_json_value :: "bool \<Rightarrow> json \<Rightarrow> (canonicalization_error, string) result"
and write_items :: "bool \<Rightarrow> bool \<Rightarrow> json list \<Rightarrow> (canonicalization_error, string) result"
and write_members :: "bool \<Rightarrow> bool \<Rightarrow> (string \<times> json) list \<Rightarrow> (canonicalization_error, string) result"
where
  "write_json_value strict Null = Inr ''null''"
| "write_json_value strict (Bool b) = Inr (if b then ''true'' else ''false'')"
| "write_json_value strict (Number n) =
     (if strict then ok_then (validate_canonical_number n) (Inr n) else Inr n)"
| "write_json_value strict (String s) = Inr (write_json_string s)"
| "write_json_value strict (Array xs) =
     rbind (write_items strict True xs) (\<lambda>s. Inr (''['' @ s @ '']''))"
| "write_json_value strict (Object m) =
     rbind (write_members strict True m) (\<lambda>s. Inr (''{'' @ s @ ''}''))"
| "write_items strict first [] = Inr []"
| "write_items strict first (x # xs) =
     rbind (write_json_value strict x) (\<lambda>s.
     rbind (write_items strict False xs) (\<lambda>t.
       Inr ((if first then [] else '','') @ s @ t)))"
| "write_members strict first [] = Inr []"
| "write_members strict first ((k, v) # m) =
     rbind (write_json_value strict v) (\<lambda>s.
     rbind (write_members strict False m) (\<lambda>t.
       Inr ((if first then [] else '','') @ write_json_string k @ '':'' @ s @ t)))"

fun write_value_into :: "json \<Rightarrow> string"
and write_items_into :: "nat \<Rightarrow> json list \<Rightarrow> string"
and write_members_into :: "nat \<Rightarrow> (string \<times> json) list \<Rightarrow> string"
where
  "write_value_into Null = ''null''"
| "write_value_into (Bool b) = (if b then ''true'' else ''false'')"
| "write_value_into (Number n) = n"
| "write_value_into (String s) = write_string_into s"
| "write_value_into (Array xs) = ''['' @ write_items_into 0 xs @ '']''"
| "write_value_into (Object m) = ''{'' @ write_members_into 0 m @ ''}''"
| "write_items_into i [] = []"
| "write_items_into i (x # xs) =
     (if i \<noteq> 0 then '','' else []) @ write_value_into x @ write_items_into (i + 1) xs"
| "write_members_into i [] = []"
| "write_members_into i ((k, v) # m) =
     (if i \<noteq> 0 then '','' else []) @ write_string_into k @ '':'' @ write_value_into v
       @ write_members_into (i + 1) m"

section \<open>Batched writing is byte-wise writing\<close>

definition escape_byte :: "char \<Rightarrow> string" where
  "escape_byte b = (if must_escape b then push_escape b else [b])"

definition escaped :: "string \<Rightarrow> string" where
  "escaped s = concat (map escape_byte s)"

lemma escaped_append: "escaped (a @ b) = escaped a @ escaped b"
  by (simp add: escaped_def)

lemma escaped_plain: "\<forall>b \<in> set s. \<not> must_escape b \<Longrightarrow> escaped s = s"
  by (induction s) (auto simp: escaped_def escape_byte_def)

lemma must_escape_alt:
  "\<not> must_escape b \<longleftrightarrow> 32 \<le> (of_char b :: nat) \<and> b \<noteq> CHR 0x22 \<and> b \<noteq> CHR 0x5C"
proof -
  have "(of_char b :: nat) = 34 \<longleftrightarrow> b = CHR 0x22" "(of_char b :: nat) = 92 \<longleftrightarrow> b = CHR 0x5C"
    using of_char_eq_iff [of b "CHR 0x22", where 'a = nat]
      of_char_eq_iff [of b "CHR 0x5C", where 'a = nat] by simp_all
  then show ?thesis by (auto simp: must_escape_def Let_def)
qed

lemma slice_Suc:
  assumes "a \<le> i" "i < length s"
  shows "slice s a (Suc i) = slice s a i @ [s ! i]"
proof -
  have "drop a s ! (i - a) = s ! i" using assms by simp
  moreover have "Suc i - a = Suc (i - a)" using assms by simp
  ultimately show ?thesis
    using assms take_Suc_conv_app_nth [of "i - a" "drop a s"] by (simp add: slice_def)
qed

lemma drop_slice:
  assumes "a \<le> i" "i \<le> length s"
  shows "drop a s = slice s a i @ drop i s"
  using assms by (metis append_take_drop_id drop_drop le_add_diff_inverse2 slice_def)

lemma escaped_step:
  assumes "start \<le> i" "i < length s"
  shows "\<not> must_escape (s ! i) \<Longrightarrow>
      slice s start (Suc i) @ escaped (drop (Suc i) s) = slice s start i @ escaped (drop i s)"
    and "must_escape (s ! i) \<Longrightarrow> escaped (drop i s) = push_escape (s ! i) @ escaped (drop (Suc i) s)"
proof -
  have "escaped (drop i s) = escape_byte (s ! i) @ escaped (drop (Suc i) s)"
    using assms(2) by (simp add: escaped_def flip: Cons_nth_drop_Suc)
  then show "\<not> must_escape (s ! i) \<Longrightarrow>
      slice s start (Suc i) @ escaped (drop (Suc i) s) = slice s start i @ escaped (drop i s)"
    and "must_escape (s ! i) \<Longrightarrow> escaped (drop i s) = push_escape (s ! i) @ escaped (drop (Suc i) s)"
    using assms by (simp_all add: slice_Suc escape_byte_def)
qed

lemma slice_same [simp]: "slice s i i = []"
  by (simp add: slice_def)

lemma write_json_string_loop_eq:
  "start \<le> i \<Longrightarrow> i \<le> length s \<Longrightarrow>
     write_json_string_loop s start i out = out @ slice s start i @ escaped (drop i s)"
proof (induction s start i out rule: write_json_string_loop.induct)
  case (1 s start i out)
  note unfold = write_json_string_loop.simps [of s start i out]
  consider (plain) "i < length s" "\<not> must_escape (s ! i)" | (esc) "i < length s" "must_escape (s ! i)"
    | (fin) "i = length s" using "1.prems" by linarith
  then show ?case
  proof cases
    case plain
    with 1 have "write_json_string_loop s start (Suc i) out
        = out @ slice s start (Suc i) @ escaped (drop (Suc i) s)" by simp
    with plain "1.prems" show ?thesis by (simp add: unfold escaped_step(1))
  next
    case esc
    let ?out = "(if i > start then out @ slice s start i else out)"
    have out: "?out = out @ slice s start i" using "1.prems" by auto
    from esc 1 have "write_json_string_loop s (Suc i) (Suc i) (?out @ push_escape (s ! i))
        = (?out @ push_escape (s ! i)) @ escaped (drop (Suc i) s)" by simp
    with esc "1.prems" show ?thesis by (simp add: unfold Let_def out escaped_step(2))
  next
    case fin
    then show ?thesis
      using "1.prems" by (subst write_json_string_loop.simps) (auto simp: escaped_def slice_def)
  qed
qed

lemma write_string_into_loop_eq:
  "run \<le> i \<Longrightarrow> i \<le> length s \<Longrightarrow>
     write_string_into_loop s run i out = out @ slice s run i @ escaped (drop i s)"
proof (induction s run i out rule: write_string_into_loop.induct)
  case (1 s run i out)
  note unfold = write_string_into_loop.simps [of s run i out] must_escape_alt [symmetric]
  consider (plain) "i < length s" "\<not> must_escape (s ! i)" | (esc) "i < length s" "must_escape (s ! i)"
    | (fin) "i = length s" using "1.prems" by linarith
  then show ?case
  proof cases
    case plain
    with 1 have "write_string_into_loop s run (Suc i) out
        = out @ slice s run (Suc i) @ escaped (drop (Suc i) s)" by (simp add: must_escape_alt)
    with plain "1.prems" show ?thesis by (simp add: unfold escaped_step(1))
  next
    case esc
    with 1 have "write_string_into_loop s (Suc i) (Suc i) (out @ slice s run i @ push_escape (s ! i))
        = (out @ slice s run i @ push_escape (s ! i)) @ escaped (drop (Suc i) s)"
      by (simp add: must_escape_alt [symmetric])
    with esc "1.prems" show ?thesis by (simp add: unfold Let_def escaped_step(2))
  next
    case fin
    then show ?thesis
      using "1.prems" by (subst write_string_into_loop.simps) (auto simp: escaped_def slice_def)
  qed
qed

lemma write_json_string_eq: "write_json_string s = CHR 0x22 # escaped s @ [CHR 0x22]"
  by (simp add: write_json_string_def write_json_string_loop_eq)

lemma write_string_into_eq: "write_string_into s = CHR 0x22 # escaped s @ [CHR 0x22]"
  by (simp add: write_string_into_def write_string_into_loop_eq)

section \<open>Agreement of the two writers\<close>

lemma writers_agree:
  "write_json_value False v = Inr (write_value_into v)"
  "write_items False (i = 0) xs = Inr (write_items_into i xs)"
  "write_members False (j = 0) m = Inr (write_members_into j m)"
  by (induction v and i xs and j m
      rule: write_value_into_write_items_into_write_members_into.induct)
    (auto simp: write_json_string_eq write_string_into_eq)

section \<open>Strict writing\<close>

fun json_numbers :: "json \<Rightarrow> string list" where
  "json_numbers Null = []"
| "json_numbers (Bool b) = []"
| "json_numbers (Number n) = [n]"
| "json_numbers (String s) = []"
| "json_numbers (Array xs) = concat (map json_numbers xs)"
| "json_numbers (Object m) = concat (map (\<lambda>(k, v). json_numbers v) m)"

definition canonical_number :: "string \<Rightarrow> bool" where
  "canonical_number n \<longleftrightarrow> validate_canonical_number n = Inr ()"

lemma write_strict:
  "write_json_value True v = Inr s \<longleftrightarrow>
     list_all canonical_number (json_numbers v) \<and> write_json_value False v = Inr s"
  "write_items True f xs = Inr s \<longleftrightarrow>
     list_all canonical_number (concat (map json_numbers xs)) \<and> write_items False f xs = Inr s"
  "write_members True f m = Inr s \<longleftrightarrow>
     list_all canonical_number (concat (map (\<lambda>(k, v). json_numbers v) m)) \<and> write_members False f m = Inr s"
proof (induction True v and True f xs and True f m arbitrary: s and s and s
    rule: write_json_value_write_items_write_members.induct)
qed (auto simp: canonical_number_def ok_then_def split: sum.splits)

text \<open>the canonical writers are one function. The writer of the hashing path and the writer of the
  JSON crate give byte-identical text for every value, and the strict mode of the former, used from room
  version 6 on, either gives that same text or fails, and it fails exactly when some number anywhere in
  the value is not a canonical integer.\<close>

lemma canonical_writers:
  "write_json_value False v = Inr (write_value_into v) \<and>
   (write_json_value True v = Inr s \<longleftrightarrow>
      list_all (\<lambda>n. validate_canonical_number n = Inr ()) (json_numbers v) \<and> s = write_value_into v)"
  using write_strict(1) [of v s] writers_agree(1) [of v] by (auto simp: canonical_number_def [abs_def])

lemma parse_nat_minus: "parse_nat (CHR ''-'' # cs) = None"
  by (simp add: parse_nat_def digit_of_def)

text \<open>which integers the strict mode accepts. An integer literal is accepted exactly when its magnitude
  is at most \<open>2^53 - 1\<close> or when it lies outside the range of both 64-bit types, in which case the range
  check is skipped.\<close>

lemma validate_canonical_integer:
  assumes "parse_signed n = Some v" "list_all (\<lambda>c. c \<notin> {CHR ''.'', CHR ''e'', CHR ''E''}) n"
  shows "validate_canonical_number n = Inr () \<longleftrightarrow>
    \<bar>v\<bar> \<le> MAX_SAFE_INTEGER \<or> v < I64_MIN \<or> U64_MAX < v"
proof -
  have plain: "\<not> (CHR ''.'' \<in> set n \<or> CHR ''e'' \<in> set n \<or> CHR ''E'' \<in> set n)"
    using assms(2) by (auto simp: list_all_iff)
  have u: "parse_u64 n = Some v" if "I64_MAX < v" "v \<le> U64_MAX"
    using assms(1) that
    by (auto simp: parse_signed_def parse_u64_def parse_unsigned_def I64_MAX_def dest: parse_nat_nonneg
        split: list.splits if_splits)
  have nu: "parse_u64 n = None" if "v < I64_MIN \<or> U64_MAX < v"
    using assms(1) that
    by (auto simp: parse_signed_def parse_u64_def parse_unsigned_def I64_MIN_def U64_MAX_def parse_nat_minus
        dest: parse_nat_nonneg split: list.splits if_splits)
  consider "in_i64 v" | "I64_MAX < v" "v \<le> U64_MAX" | "v < I64_MIN \<or> U64_MAX < v"
    unfolding in_i64_def by linarith
  then show ?thesis
  proof cases
    case 1
    then show ?thesis using plain assms(1)
      by (simp add: validate_canonical_number_def parse_i64_def require_def in_i64_def I64_MIN_def I64_MAX_def U64_MAX_def)
  next
    case 2
    then show ?thesis using plain assms(1) u
      by (simp add: validate_canonical_number_def parse_i64_def require_def in_i64_def I64_MIN_def I64_MAX_def
          U64_MAX_def MAX_SAFE_INTEGER_def)
  next
    case 3
    then have "\<not> in_i64 v" by (auto simp: in_i64_def I64_MIN_def I64_MAX_def U64_MAX_def)
    with 3 show ?thesis using plain assms(1) nu
      by (simp add: validate_canonical_number_def parse_i64_def)
  qed
qed

lemma validate_canonical_integer_witness:
  "validate_canonical_number ''9007199254740992'' \<noteq> Inr () \<and>
   validate_canonical_number ''9007199254740991'' = Inr () \<and>
   validate_canonical_number ''18446744073709551616'' = Inr ()"
proof -
  have "parse_signed ''9007199254740992'' = Some 9007199254740992"
    "parse_signed ''9007199254740991'' = Some 9007199254740991"
    "parse_signed ''18446744073709551616'' = Some 18446744073709551616" by code_simp+
  from this [THEN validate_canonical_integer] show ?thesis
    by (simp add: MAX_SAFE_INTEGER_def I64_MIN_def U64_MAX_def)
qed

end
