(* ===== verification/Event_Type.thy ===== *)
theory Event_Type
  imports Rezzy_Prelude
begin

text \<open>
  The event type constants, membership and join rule strings and default power levels of
  \<open>basespec::event_types\<close>, and the interned \<open>EventType\<close>: its conversions from and to the wire string
  and the equality and order it defines through that string. State maps are keyed by
  \<open>(EventType, state_key)\<close>; since \<open>Eq\<close>, \<open>Ord\<close> and \<open>Hash\<close> of \<open>EventType\<close> go through \<open>as_str\<close>, the
  development keys them by the wire string (\<open>state_slot\<close>).
\<close>

section \<open>Constants\<close>

definition M_ROOM_MEMBER :: string where "M_ROOM_MEMBER = ''m.room.member''"
definition M_ROOM_POWER_LEVELS :: string where "M_ROOM_POWER_LEVELS = ''m.room.power_levels''"
definition M_ROOM_JOIN_RULES :: string where "M_ROOM_JOIN_RULES = ''m.room.join_rules''"
definition M_ROOM_CREATE :: string where "M_ROOM_CREATE = ''m.room.create''"
definition M_ROOM_THIRD_PARTY_INVITE :: string where
  "M_ROOM_THIRD_PARTY_INVITE = ''m.room.third_party_invite''"
definition M_ROOM_NAME :: string where "M_ROOM_NAME = ''m.room.name''"
definition M_ROOM_TOPIC :: string where "M_ROOM_TOPIC = ''m.room.topic''"
definition M_ROOM_AVATAR :: string where "M_ROOM_AVATAR = ''m.room.avatar''"
definition M_ROOM_CANONICAL_ALIAS :: string where
  "M_ROOM_CANONICAL_ALIAS = ''m.room.canonical_alias''"
definition M_ROOM_HISTORY_VISIBILITY :: string where
  "M_ROOM_HISTORY_VISIBILITY = ''m.room.history_visibility''"
definition M_ROOM_GUEST_ACCESS :: string where "M_ROOM_GUEST_ACCESS = ''m.room.guest_access''"
definition M_ROOM_SERVER_ACL :: string where "M_ROOM_SERVER_ACL = ''m.room.server_acl''"
definition M_ROOM_TOMBSTONE :: string where "M_ROOM_TOMBSTONE = ''m.room.tombstone''"
definition M_ROOM_ENCRYPTION :: string where "M_ROOM_ENCRYPTION = ''m.room.encryption''"
definition M_ROOM_PINNED_EVENTS :: string where "M_ROOM_PINNED_EVENTS = ''m.room.pinned_events''"
definition M_ROOM_MESSAGE :: string where "M_ROOM_MESSAGE = ''m.room.message''"
definition M_ROOM_REDACTION :: string where "M_ROOM_REDACTION = ''m.room.redaction''"
definition M_SPACE_CHILD :: string where "M_SPACE_CHILD = ''m.space.child''"
definition M_SPACE_PARENT :: string where "M_SPACE_PARENT = ''m.space.parent''"
definition M_ROOM_ALIASES :: string where "M_ROOM_ALIASES = ''m.room.aliases''"

definition MEM_JOIN :: string where "MEM_JOIN = ''join''"
definition MEM_LEAVE :: string where "MEM_LEAVE = ''leave''"
definition MEM_INVITE :: string where "MEM_INVITE = ''invite''"
definition MEM_BAN :: string where "MEM_BAN = ''ban''"
definition MEM_KNOCK :: string where "MEM_KNOCK = ''knock''"
definition RULE_PUBLIC :: string where "RULE_PUBLIC = ''public''"
definition RULE_INVITE :: string where "RULE_INVITE = ''invite''"
definition RULE_KNOCK :: string where "RULE_KNOCK = ''knock''"
definition RULE_RESTRICTED :: string where "RULE_RESTRICTED = ''restricted''"
definition RULE_KNOCK_RESTRICTED :: string where "RULE_KNOCK_RESTRICTED = ''knock_restricted''"

definition DEFAULT_PL_INVITE :: int where "DEFAULT_PL_INVITE = 0"
definition DEFAULT_PL_KICK :: int where "DEFAULT_PL_KICK = 50"
definition DEFAULT_PL_BAN :: int where "DEFAULT_PL_BAN = 50"
definition DEFAULT_PL_REDACT :: int where "DEFAULT_PL_REDACT = 50"
definition DEFAULT_PL_USER :: int where "DEFAULT_PL_USER = 0"
definition MAX_POWER_LEVEL_RUST :: int where "MAX_POWER_LEVEL_RUST = I64_MAX"
definition MAX_PREV_STATE_EVENTS :: nat where "MAX_PREV_STATE_EVENTS = 20"

lemmas event_type_consts =
  M_ROOM_MEMBER_def M_ROOM_POWER_LEVELS_def M_ROOM_JOIN_RULES_def M_ROOM_CREATE_def
  M_ROOM_THIRD_PARTY_INVITE_def M_ROOM_NAME_def M_ROOM_TOPIC_def M_ROOM_AVATAR_def
  M_ROOM_CANONICAL_ALIAS_def M_ROOM_HISTORY_VISIBILITY_def M_ROOM_GUEST_ACCESS_def
  M_ROOM_SERVER_ACL_def M_ROOM_TOMBSTONE_def M_ROOM_ENCRYPTION_def M_ROOM_PINNED_EVENTS_def
  M_ROOM_MESSAGE_def M_ROOM_REDACTION_def M_SPACE_CHILD_def M_SPACE_PARENT_def M_ROOM_ALIASES_def

lemmas membership_consts = MEM_JOIN_def MEM_LEAVE_def MEM_INVITE_def MEM_BAN_def MEM_KNOCK_def

lemmas join_rule_consts =
  RULE_PUBLIC_def RULE_INVITE_def RULE_KNOCK_def RULE_RESTRICTED_def RULE_KNOCK_RESTRICTED_def

text \<open>The strings are pairwise distinct where the code tells them apart.\<close>

lemma auth_types_distinct [simp]:
  "distinct [M_ROOM_MEMBER, M_ROOM_POWER_LEVELS, M_ROOM_JOIN_RULES, M_ROOM_CREATE,
     M_ROOM_THIRD_PARTY_INVITE, M_ROOM_REDACTION, M_ROOM_ALIASES, M_ROOM_HISTORY_VISIBILITY]"
  by (simp add: event_type_consts)

lemma auth_types_neq [simp]:
  "M_ROOM_MEMBER \<noteq> M_ROOM_CREATE" "M_ROOM_CREATE \<noteq> M_ROOM_MEMBER"
  "M_ROOM_MEMBER \<noteq> M_ROOM_POWER_LEVELS" "M_ROOM_POWER_LEVELS \<noteq> M_ROOM_MEMBER"
  "M_ROOM_MEMBER \<noteq> M_ROOM_JOIN_RULES" "M_ROOM_JOIN_RULES \<noteq> M_ROOM_MEMBER"
  "M_ROOM_MEMBER \<noteq> M_ROOM_REDACTION" "M_ROOM_REDACTION \<noteq> M_ROOM_MEMBER"
  "M_ROOM_POWER_LEVELS \<noteq> M_ROOM_CREATE" "M_ROOM_CREATE \<noteq> M_ROOM_POWER_LEVELS"
  "M_ROOM_JOIN_RULES \<noteq> M_ROOM_CREATE" "M_ROOM_CREATE \<noteq> M_ROOM_JOIN_RULES"
  "M_ROOM_POWER_LEVELS \<noteq> M_ROOM_JOIN_RULES" "M_ROOM_JOIN_RULES \<noteq> M_ROOM_POWER_LEVELS"
  by (simp_all add: event_type_consts)

lemma memberships_neq [simp]:
  "MEM_JOIN \<noteq> MEM_LEAVE" "MEM_LEAVE \<noteq> MEM_JOIN" "MEM_JOIN \<noteq> MEM_BAN" "MEM_BAN \<noteq> MEM_JOIN"
  "MEM_JOIN \<noteq> MEM_INVITE" "MEM_INVITE \<noteq> MEM_JOIN" "MEM_JOIN \<noteq> MEM_KNOCK" "MEM_KNOCK \<noteq> MEM_JOIN"
  "MEM_LEAVE \<noteq> MEM_BAN" "MEM_BAN \<noteq> MEM_LEAVE" "MEM_LEAVE \<noteq> MEM_INVITE" "MEM_INVITE \<noteq> MEM_LEAVE"
  "MEM_LEAVE \<noteq> MEM_KNOCK" "MEM_KNOCK \<noteq> MEM_LEAVE" "MEM_BAN \<noteq> MEM_INVITE" "MEM_INVITE \<noteq> MEM_BAN"
  "MEM_BAN \<noteq> MEM_KNOCK" "MEM_KNOCK \<noteq> MEM_BAN" "MEM_INVITE \<noteq> MEM_KNOCK" "MEM_KNOCK \<noteq> MEM_INVITE"
  "MEM_JOIN \<noteq> []" "MEM_LEAVE \<noteq> []" "MEM_BAN \<noteq> []" "MEM_INVITE \<noteq> []" "MEM_KNOCK \<noteq> []"
  by (simp_all add: membership_consts)

section \<open>Field names\<close>

abbreviation FIELD_MEMBERSHIP :: string where "FIELD_MEMBERSHIP \<equiv> ''membership''"
abbreviation FIELD_USERS :: string where "FIELD_USERS \<equiv> ''users''"
abbreviation FIELD_USERS_DEFAULT :: string where "FIELD_USERS_DEFAULT \<equiv> ''users_default''"
abbreviation FIELD_EVENTS :: string where "FIELD_EVENTS \<equiv> ''events''"
abbreviation FIELD_EVENTS_DEFAULT :: string where "FIELD_EVENTS_DEFAULT \<equiv> ''events_default''"
abbreviation FIELD_STATE_DEFAULT :: string where "FIELD_STATE_DEFAULT \<equiv> ''state_default''"
abbreviation FIELD_BAN :: string where "FIELD_BAN \<equiv> ''ban''"
abbreviation FIELD_KICK :: string where "FIELD_KICK \<equiv> ''kick''"
abbreviation FIELD_INVITE :: string where "FIELD_INVITE \<equiv> ''invite''"
abbreviation FIELD_REDACT :: string where "FIELD_REDACT \<equiv> ''redact''"
abbreviation FIELD_JOIN_RULE :: string where "FIELD_JOIN_RULE \<equiv> ''join_rule''"
abbreviation FIELD_CREATOR :: string where "FIELD_CREATOR \<equiv> ''creator''"
abbreviation FIELD_ROOM_VERSION :: string where "FIELD_ROOM_VERSION \<equiv> ''room_version''"
abbreviation FIELD_REDACTS :: string where "FIELD_REDACTS \<equiv> ''redacts''"
abbreviation FIELD_ADDITIONAL_CREATORS :: string where "FIELD_ADDITIONAL_CREATORS \<equiv> ''additional_creators''"
abbreviation FIELD_THIRD_PARTY_INVITE :: string where "FIELD_THIRD_PARTY_INVITE \<equiv> ''third_party_invite''"
abbreviation FIELD_SIGNED :: string where "FIELD_SIGNED \<equiv> ''signed''"
abbreviation FIELD_TOKEN :: string where "FIELD_TOKEN \<equiv> ''token''"
abbreviation FIELD_DISPLAY_NAME :: string where "FIELD_DISPLAY_NAME \<equiv> ''display_name''"
abbreviation FIELD_JOIN_AUTHORISED_VIA_USERS_SERVER :: string where "FIELD_JOIN_AUTHORISED_VIA_USERS_SERVER \<equiv> ''join_authorised_via_users_server''"
abbreviation FIELD_MXID :: string where "FIELD_MXID \<equiv> ''mxid''"
abbreviation FIELD_SIGNATURES :: string where "FIELD_SIGNATURES \<equiv> ''signatures''"
abbreviation FIELD_HASHES :: string where "FIELD_HASHES \<equiv> ''hashes''"
abbreviation FIELD_NOTIFICATIONS :: string where "FIELD_NOTIFICATIONS \<equiv> ''notifications''"
abbreviation FIELD_EVENT_ID :: string where "FIELD_EVENT_ID \<equiv> ''event_id''"
abbreviation FIELD_TYPE :: string where "FIELD_TYPE \<equiv> ''type''"
abbreviation FIELD_STATE_KEY :: string where "FIELD_STATE_KEY \<equiv> ''state_key''"
abbreviation FIELD_POWER_LEVEL :: string where "FIELD_POWER_LEVEL \<equiv> ''power_level''"
abbreviation FIELD_ORIGIN_SERVER_TS :: string where "FIELD_ORIGIN_SERVER_TS \<equiv> ''origin_server_ts''"
abbreviation FIELD_SENDER :: string where "FIELD_SENDER \<equiv> ''sender''"
abbreviation FIELD_CONTENT :: string where "FIELD_CONTENT \<equiv> ''content''"
abbreviation FIELD_PREV_EVENTS :: string where "FIELD_PREV_EVENTS \<equiv> ''prev_events''"
abbreviation FIELD_AUTH_EVENTS :: string where "FIELD_AUTH_EVENTS \<equiv> ''auth_events''"
abbreviation FIELD_PREV_STATE_EVENTS :: string where "FIELD_PREV_STATE_EVENTS \<equiv> ''prev_state_events''"
abbreviation FIELD_DEPTH :: string where "FIELD_DEPTH \<equiv> ''depth''"
abbreviation FIELD_REJECTED :: string where "FIELD_REJECTED \<equiv> ''__rejected''"
abbreviation FIELD_SOFT_FAIL :: string where "FIELD_SOFT_FAIL \<equiv> ''__soft_fail''"
abbreviation FIELD_UNSIGNED :: string where "FIELD_UNSIGNED \<equiv> ''unsigned''"

section \<open>The interned event type\<close>

datatype event_type =
    RoomCreate | RoomMember | RoomPowerLevels | RoomJoinRules | RoomThirdPartyInvite | RoomName
  | RoomTopic | RoomAvatar | RoomCanonicalAlias | RoomHistoryVisibility | RoomGuestAccess
  | RoomServerAcl | RoomTombstone | RoomEncryption | RoomPinnedEvents | RoomMessage | RoomRedaction
  | RoomAliases | SpaceChild | SpaceParent | Custom string

fun event_type_as_str :: "event_type \<Rightarrow> string" where
  "event_type_as_str RoomCreate = M_ROOM_CREATE"
| "event_type_as_str RoomMember = M_ROOM_MEMBER"
| "event_type_as_str RoomPowerLevels = M_ROOM_POWER_LEVELS"
| "event_type_as_str RoomJoinRules = M_ROOM_JOIN_RULES"
| "event_type_as_str RoomThirdPartyInvite = M_ROOM_THIRD_PARTY_INVITE"
| "event_type_as_str RoomName = M_ROOM_NAME"
| "event_type_as_str RoomTopic = M_ROOM_TOPIC"
| "event_type_as_str RoomAvatar = M_ROOM_AVATAR"
| "event_type_as_str RoomCanonicalAlias = M_ROOM_CANONICAL_ALIAS"
| "event_type_as_str RoomHistoryVisibility = M_ROOM_HISTORY_VISIBILITY"
| "event_type_as_str RoomGuestAccess = M_ROOM_GUEST_ACCESS"
| "event_type_as_str RoomServerAcl = M_ROOM_SERVER_ACL"
| "event_type_as_str RoomTombstone = M_ROOM_TOMBSTONE"
| "event_type_as_str RoomEncryption = M_ROOM_ENCRYPTION"
| "event_type_as_str RoomPinnedEvents = M_ROOM_PINNED_EVENTS"
| "event_type_as_str RoomMessage = M_ROOM_MESSAGE"
| "event_type_as_str RoomRedaction = M_ROOM_REDACTION"
| "event_type_as_str RoomAliases = M_ROOM_ALIASES"
| "event_type_as_str SpaceChild = M_SPACE_CHILD"
| "event_type_as_str SpaceParent = M_SPACE_PARENT"
| "event_type_as_str (Custom s) = s"

definition known_event_types :: "(string \<times> event_type) list" where
  "known_event_types =
     [(M_ROOM_CREATE, RoomCreate), (M_ROOM_MEMBER, RoomMember),
      (M_ROOM_POWER_LEVELS, RoomPowerLevels), (M_ROOM_JOIN_RULES, RoomJoinRules),
      (M_ROOM_THIRD_PARTY_INVITE, RoomThirdPartyInvite), (M_ROOM_NAME, RoomName),
      (M_ROOM_TOPIC, RoomTopic), (M_ROOM_AVATAR, RoomAvatar),
      (M_ROOM_CANONICAL_ALIAS, RoomCanonicalAlias),
      (M_ROOM_HISTORY_VISIBILITY, RoomHistoryVisibility), (M_ROOM_GUEST_ACCESS, RoomGuestAccess),
      (M_ROOM_SERVER_ACL, RoomServerAcl), (M_ROOM_TOMBSTONE, RoomTombstone),
      (M_ROOM_ENCRYPTION, RoomEncryption), (M_ROOM_PINNED_EVENTS, RoomPinnedEvents),
      (M_ROOM_MESSAGE, RoomMessage), (M_ROOM_REDACTION, RoomRedaction),
      (M_ROOM_ALIASES, RoomAliases), (M_SPACE_CHILD, SpaceChild), (M_SPACE_PARENT, SpaceParent)]"

definition from_known_str :: "string \<Rightarrow> event_type option" where
  "from_known_str s = map_of known_event_types s"

definition event_type_from :: "string \<Rightarrow> event_type" where
  "event_type_from s = (case from_known_str s of Some t \<Rightarrow> t | None \<Rightarrow> Custom s)"

definition event_type_eq :: "event_type \<Rightarrow> event_type \<Rightarrow> bool" where
  "event_type_eq a b \<longleftrightarrow> event_type_as_str a = event_type_as_str b"

definition event_type_less :: "event_type \<Rightarrow> event_type \<Rightarrow> bool" where
  "event_type_less a b \<longleftrightarrow> event_type_as_str a < event_type_as_str b"

definition state_slot :: "string \<Rightarrow> string \<Rightarrow> string \<times> string" where
  "state_slot t k = (event_type_as_str (event_type_from t), k)"

lemma known_event_types_as_str:
  "(s, t) \<in> set known_event_types \<Longrightarrow> event_type_as_str t = s"
  by (auto simp: known_event_types_def)

lemma event_type_as_str_from [simp]: "event_type_as_str (event_type_from s) = s"
  by (auto simp: event_type_from_def from_known_str_def known_event_types_as_str
      dest: map_of_SomeD split: option.splits)

lemma state_slot_eq [simp]: "state_slot t k = (t, k)"
  by (simp add: state_slot_def)

lemma from_known_str_as_str:
  "\<forall>s. t \<noteq> Custom s \<Longrightarrow> from_known_str (event_type_as_str t) = Some t"
  by (cases t) (simp_all add: from_known_str_def known_event_types_def event_type_consts)

text \<open>Interning is canonical: two event types interned from wire strings are equal as values exactly
  when their strings are, so comparing discriminants agrees with the string equality the map keys
  rely on, and \<open>Custom\<close> never shadows a well-known type.\<close>

lemma event_type_from_inject: "event_type_from a = event_type_from b \<longleftrightarrow> a = b"
  by (metis event_type_as_str_from)

end
