(* ===== verification/Room_Version.thy ===== *)
theory Room_Version
  imports Rezzy_Prelude
begin

text \<open>
  Room versions: \<open>RoomVersionFormat\<close> with its capability predicates and \<open>StateResVersion\<close>, the state
  resolution algorithm a room version selects. The derived order of \<open>StateResVersion\<close> is the order
  of its variants.
\<close>

datatype state_res_version = V1 | V2 | V2_1 | V2_1_1 | V2_2 | V3

definition version_index :: "state_res_version \<Rightarrow> nat" where
  "version_index v =
     (case v of V1 \<Rightarrow> 0 | V2 \<Rightarrow> 1 | V2_1 \<Rightarrow> 2 | V2_1_1 \<Rightarrow> 3 | V2_2 \<Rightarrow> 4 | V3 \<Rightarrow> 5)"

instantiation state_res_version :: linorder
begin

definition less_eq_state_res_version :: "state_res_version \<Rightarrow> state_res_version \<Rightarrow> bool" where
  "less_eq_state_res_version a b \<longleftrightarrow> version_index a \<le> version_index b"

definition less_state_res_version :: "state_res_version \<Rightarrow> state_res_version \<Rightarrow> bool" where
  "less_state_res_version a b \<longleftrightarrow> version_index a < version_index b"

instance
proof
  fix x y :: state_res_version
  assume "x \<le> y" "y \<le> x"
  then show "x = y"
    by (cases x; cases y) (simp_all add: less_eq_state_res_version_def version_index_def)
qed (auto simp: less_eq_state_res_version_def less_state_res_version_def)

end

datatype room_version_format = Numeric nat | Msc4242 | Msc3389 | NutraCdo

definition supported_room_versions :: "(string \<times> room_version_format) list" where
  "supported_room_versions =
     [(''1'', Numeric 1), (''2'', Numeric 2), (''3'', Numeric 3), (''4'', Numeric 4),
      (''5'', Numeric 5), (''6'', Numeric 6), (''7'', Numeric 7), (''8'', Numeric 8),
      (''9'', Numeric 9), (''10'', Numeric 10), (''11'', Numeric 11), (''12'', Numeric 12),
      (''12.1'', Numeric 12), (''org.matrix.msc4242.12'', Msc4242),
      (''org.matrix.msc3389.10'', Msc3389), (''tk.nutra.cdo.12'', NutraCdo)]"

definition parse_format :: "string \<Rightarrow> room_version_format option" where
  "parse_format room_version = map_of supported_room_versions room_version"

fun requires_strict_canonical_numbers :: "room_version_format \<Rightarrow> bool" where
  "requires_strict_canonical_numbers (Numeric v) = (v \<ge> 6)"
| "requires_strict_canonical_numbers Msc4242 = True"
| "requires_strict_canonical_numbers Msc3389 = True"
| "requires_strict_canonical_numbers NutraCdo = True"

fun uses_v11_redaction_rules :: "room_version_format \<Rightarrow> bool" where
  "uses_v11_redaction_rules (Numeric v) = (v \<ge> 11)"
| "uses_v11_redaction_rules Msc4242 = True"
| "uses_v11_redaction_rules Msc3389 = False"
| "uses_v11_redaction_rules NutraCdo = True"

fun uses_v12_create_rules :: "room_version_format \<Rightarrow> bool" where
  "uses_v12_create_rules (Numeric v) = (v \<ge> 12)"
| "uses_v12_create_rules Msc4242 = True"
| "uses_v12_create_rules Msc3389 = False"
| "uses_v12_create_rules NutraCdo = True"

fun uses_reference_hash_event_ids :: "room_version_format \<Rightarrow> bool" where
  "uses_reference_hash_event_ids (Numeric v) = (v \<noteq> 1 \<and> v \<noteq> 2)"
| "uses_reference_hash_event_ids _ = True"

text \<open>The match on the format has an \<open>unreachable!\<close> arm; it is the value \<open>Inl Unreachable\<close>.\<close>

datatype panic = Unreachable

definition format_version :: "string \<Rightarrow> room_version_format \<Rightarrow> (panic, state_res_version) result" where
  "format_version ver fmt = (case fmt of
       Numeric n \<Rightarrow>
         if n = 1 then Inr V1
         else if 2 \<le> n \<and> n \<le> 11 then Inr V2
         else if n = 12 \<and> ver = ''12.1'' then Inr V2_1_1
         else if n = 12 then Inr V2_1
         else Inl Unreachable
     | Msc3389 \<Rightarrow> Inr V2
     | Msc4242 \<Rightarrow> Inr V2_2
     | NutraCdo \<Rightarrow> Inr V3)"

definition from_room_version :: "string \<Rightarrow> state_res_version option" where
  "from_room_version ver = (case parse_format ver of
       None \<Rightarrow> None
     | Some fmt \<Rightarrow> (case format_version ver fmt of Inl _ \<Rightarrow> None | Inr v \<Rightarrow> Some v))"

definition is_v2_1_plus :: "state_res_version \<Rightarrow> bool" where
  "is_v2_1_plus v \<longleftrightarrow> v \<in> {V2_1, V2_1_1, V2_2, V3}"

definition has_ban_evasion_hardening :: "state_res_version \<Rightarrow> bool" where
  "has_ban_evasion_hardening v \<longleftrightarrow> v \<in> {V2_1_1, V2_2, V3}"

definition has_join_authorised_via_users_server :: "state_res_version \<Rightarrow> bool" where
  "has_join_authorised_via_users_server v \<longleftrightarrow> v \<noteq> V1"

definition room_version_is_v11_or_later :: "string \<Rightarrow> bool" where
  "room_version_is_v11_or_later rv =
     (case parse_format rv of None \<Rightarrow> False | Some f \<Rightarrow> uses_v11_redaction_rules f)"

definition room_version_is_v6_or_later :: "string \<Rightarrow> bool" where
  "room_version_is_v6_or_later rv =
     (case parse_format rv of None \<Rightarrow> False | Some f \<Rightarrow> requires_strict_canonical_numbers f)"

definition is_msc4242_room_version :: "string \<Rightarrow> bool" where
  "is_msc4242_room_version rv \<longleftrightarrow> parse_format rv = Some Msc4242"

definition room_version_is_v12_or_later :: "string \<Rightarrow> bool" where
  "room_version_is_v12_or_later rv =
     (case parse_format rv of None \<Rightarrow> False | Some f \<Rightarrow> uses_v12_create_rules f)"

definition is_supported_room_version :: "string \<Rightarrow> bool" where
  "is_supported_room_version rv \<longleftrightarrow> parse_format rv \<noteq> None"

definition major_version :: "string \<Rightarrow> int option" where
  "major_version rv = parse_u32 (takeWhile (\<lambda>c. c \<noteq> CHR ''.'') rv)"

definition has_opaque_event_ids :: "string \<Rightarrow> bool" where
  "has_opaque_event_ids rv = (case major_version rv of None \<Rightarrow> False | Some m \<Rightarrow> m \<le> 2)"

lemma parse_format_cases:
  assumes "parse_format rv = Some f"
  shows "(rv, f) \<in> set supported_room_versions"
  using assms by (auto simp: parse_format_def dest: map_of_SomeD)

lemma format_version_total:
  assumes "parse_format rv = Some f"
  obtains v where "format_version rv f = Inr v" "from_room_version rv = Some v"
  using parse_format_cases [OF assms] assms
  by (auto simp: supported_room_versions_def format_version_def from_room_version_def)

lemma from_room_version_None [simp]: "from_room_version rv = None \<longleftrightarrow> parse_format rv = None"
  by (metis format_version_total from_room_version_def option.case(1) option.exhaust option.simps(3))

end
