(* ===== verification/Ord_Sort.thy ===== *)
theory Ord_Sort
  imports Rezzy_Prelude
begin

text \<open>
  What the crate uses of \<open>core::cmp::Ordering\<close>, \<open>slice::sort_by\<close> and \<open>BinaryHeap\<close>. A comparison
  function that meets the contract of \<open>Ord\<close> is an instance of the locale \<open>ord_contract\<close>, in which the
  sort and the heap are specified once for every comparator of the crate. \<open>sort_by\<close> is stable; a heap
  is the list of its elements and \<open>heap_pop\<close> removes a greatest one.
\<close>

datatype ordering = Less | Equal | Greater

definition cmp :: "'a::linorder \<Rightarrow> 'a \<Rightarrow> ordering" where
  "cmp a b = (if a < b then Less else if a = b then Equal else Greater)"

definition ordering_then :: "ordering \<Rightarrow> ordering \<Rightarrow> ordering" where
  "ordering_then o1 o2 = (case o1 of Equal \<Rightarrow> o2 | _ \<Rightarrow> o1)"

fun insert_by :: "('a \<Rightarrow> 'a \<Rightarrow> ordering) \<Rightarrow> 'a \<Rightarrow> 'a list \<Rightarrow> 'a list" where
  "insert_by c x [] = [x]"
| "insert_by c x (y # ys) = (if c x y = Greater then y # insert_by c x ys else x # y # ys)"

definition sort_by :: "('a \<Rightarrow> 'a \<Rightarrow> ordering) \<Rightarrow> 'a list \<Rightarrow> 'a list" where
  "sort_by c xs = foldr (insert_by c) xs []"

fun heap_pop :: "('a \<Rightarrow> 'a \<Rightarrow> ordering) \<Rightarrow> 'a list \<Rightarrow> ('a \<times> 'a list) option" where
  "heap_pop c [] = None"
| "heap_pop c (x # xs) = (case heap_pop c xs of
       None \<Rightarrow> Some (x, [])
     | Some (y, ys) \<Rightarrow> if c x y = Less then Some (y, x # ys) else Some (x, xs))"

lemma cmp_simps [simp]:
  "cmp a b = Less \<longleftrightarrow> a < b"
  "cmp a b = Equal \<longleftrightarrow> a = b"
  "cmp a b = Greater \<longleftrightarrow> b < a"
  by (auto simp: cmp_def)

lemma cmp_refl [simp]: "cmp a a = Equal"
  by simp

lemma cmp_neq_Greater: "cmp a b \<noteq> Greater \<longleftrightarrow> a \<le> b"
  by auto

lemma ordering_then_simps [simp]:
  "ordering_then Less r = Less" "ordering_then Equal r = r" "ordering_then Greater r = Greater"
  "ordering_then r Equal = r"
  by (simp_all add: ordering_then_def split: ordering.splits)

lemma ordering_then_case:
  "(case c of Equal \<Rightarrow> r | Less \<Rightarrow> Less | Greater \<Rightarrow> Greater) = ordering_then c r"
  by (cases c) simp_all

lemma ordering_then_decided: "c \<noteq> Equal \<Longrightarrow> ordering_then c r = c"
  by (cases c) simp_all

lemma ordering_then_iff:
  "ordering_then a b = Less \<longleftrightarrow> a = Less \<or> a = Equal \<and> b = Less"
  "ordering_then a b = Equal \<longleftrightarrow> a = Equal \<and> b = Equal"
  "ordering_then a b = Greater \<longleftrightarrow> a = Greater \<or> a = Equal \<and> b = Greater"
  by (cases a; simp)+

lemma mset_insert_by: "mset (insert_by c x ys) = add_mset x (mset ys)"
  by (induction ys) auto

lemma mset_sort_by [simp]: "mset (sort_by c xs) = mset xs"
  by (induction xs) (auto simp: sort_by_def mset_insert_by)

lemma set_sort_by [simp]: "set (sort_by c xs) = set xs"
  using mset_eq_setD [OF mset_sort_by] .

lemma length_sort_by [simp]: "length (sort_by c xs) = length xs"
  using mset_eq_length [OF mset_sort_by] .

lemma heap_pop_None [simp]: "heap_pop c q = None \<longleftrightarrow> q = []"
  by (cases q) (auto split: option.splits)

lemma heap_pop_mset: "heap_pop c q = Some (x, r) \<Longrightarrow> mset q = add_mset x (mset r)"
proof (induction q arbitrary: x r)
  case (Cons y q)
  then show ?case by (auto split: option.splits if_splits)
qed simp

section \<open>The contract of Ord\<close>

locale ord_contract =
  fixes c :: "'a \<Rightarrow> 'a \<Rightarrow> ordering"
  assumes swap: "c a b = Less \<longleftrightarrow> c b a = Greater"
    and trans: "c a b \<noteq> Greater \<Longrightarrow> c b d \<noteq> Greater \<Longrightarrow> c a d \<noteq> Greater"
begin

definition le :: "'a \<Rightarrow> 'a \<Rightarrow> bool" where
  "le a b \<longleftrightarrow> c a b \<noteq> Greater"

lemma refl: "le a a"
  using swap [of a a] by (auto simp: le_def)

lemma total: "le a b \<or> le b a"
  using swap [of a b] swap [of b a] by (auto simp: le_def)

lemma le_trans: "le a b \<Longrightarrow> le b d \<Longrightarrow> le a d"
  by (simp add: le_def trans)

lemma equal_iff: "c a b = Equal \<longleftrightarrow> le a b \<and> le b a"
  using swap [of a b] swap [of b a] by (cases "c a b") (auto simp: le_def)

lemma sorted_insert_by: "sorted_wrt le ys \<Longrightarrow> sorted_wrt le (insert_by c x ys)"
proof (induction ys)
  case (Cons y ys)
  show ?case
  proof (cases "c x y = Greater")
    case True
    then have "le y x" using swap [of y x] by (auto simp: le_def)
    with Cons True show ?thesis
      using mset_eq_setD [OF mset_insert_by [of c x ys, symmetric, unfolded mset.simps(2) [symmetric]]]
      by auto
  next
    case False
    then have "le x y" by (simp add: le_def)
    with Cons False show ?thesis by (auto intro: le_trans)
  qed
qed simp

lemma sorted_sort_by: "sorted_wrt le (sort_by c xs)"
  by (induction xs) (auto simp: sort_by_def sorted_insert_by)

lemma heap_pop_greatest: "heap_pop c q = Some (x, r) \<Longrightarrow> y \<in> set q \<Longrightarrow> le y x"
proof (induction q arbitrary: x r y)
  case (Cons z q)
  show ?case
  proof (cases "heap_pop c q")
    case None
    with Cons.prems show ?thesis by (auto simp: refl)
  next
    case (Some p)
    obtain w ws where p: "p = (w, ws)" by (cases p)
    note IH = Cons.IH [of w ws]
    show ?thesis
    proof (cases "c z w = Less")
      case True
      then have "le z w" by (simp add: le_def)
      with Cons.prems Some p True IH show ?thesis by auto
    next
      case False
      then have "le w z" using swap [of z w] swap [of w z] by (auto simp: le_def)
      with Cons.prems Some p False IH show ?thesis by (auto intro: le_trans refl)
    qed
  qed
qed simp

text \<open>When the comparator tells the elements apart, the sorted list depends on the elements only and
  not on the order they come in.\<close>

lemma sorted_unique:
  assumes "sorted_wrt le xs" "sorted_wrt le ys" "mset xs = mset ys"
    and strict: "\<And>a b. a \<in> set xs \<Longrightarrow> b \<in> set xs \<Longrightarrow> c a b = Equal \<Longrightarrow> a = b"
  shows "xs = ys"
  using assms
proof (induction xs arbitrary: ys)
  case (Cons x xs)
  then obtain y ys' where ys: "ys = y # ys'" by (cases ys) auto
  have "x = y"
  proof -
    have "y \<in> set (x # xs)" "x \<in> set (y # ys')"
      using Cons.prems(3) ys mset_eq_setD by fastforce+
    then have "le x y" "le y x"
      using Cons.prems(1,2) ys by (auto simp: refl)
    with Cons.prems(4) \<open>y \<in> set (x # xs)\<close> show ?thesis by (simp add: equal_iff)
  qed
  with Cons ys show ?case by simp
qed simp

lemma sort_by_cong:
  assumes "mset xs = mset ys"
    and "\<And>a b. a \<in> set xs \<Longrightarrow> b \<in> set xs \<Longrightarrow> c a b = Equal \<Longrightarrow> a = b"
  shows "sort_by c xs = sort_by c ys"
  by (rule sorted_unique) (use assms sorted_sort_by in auto)

end

interpretation cmp_ord: ord_contract cmp
  by unfold_locales auto

text \<open>Comparing by one key and then by another meets the contract, and so does the reversed
  comparison.\<close>

lemma ord_contract_then:
  assumes "ord_contract c1" "ord_contract c2"
  shows "ord_contract (\<lambda>a b. ordering_then (c1 a b) (c2 a b))"
proof -
  have l: "ordering_then x y \<noteq> Greater \<longleftrightarrow> x = Less \<or> x = Equal \<and> y \<noteq> Greater" for x y
    by (cases x) simp_all
  show ?thesis
  proof
    fix a b d
    show "ordering_then (c1 a b) (c2 a b) = Less \<longleftrightarrow> ordering_then (c1 b a) (c2 b a) = Greater"
      using ord_contract.swap [OF assms(1)] ord_contract.swap [OF assms(2)]
        ord_contract.equal_iff [OF assms(1)]
      by (auto simp: ordering_then_iff)
    assume ab: "ordering_then (c1 a b) (c2 a b) \<noteq> Greater"
      and bd: "ordering_then (c1 b d) (c2 b d) \<noteq> Greater"
    note t1 = ord_contract.trans [OF assms(1)] and t2 = ord_contract.trans [OF assms(2)]
    note s1 = ord_contract.swap [OF assms(1)]
    have le: "c1 a b \<noteq> Greater" "c1 b d \<noteq> Greater" "c1 a d \<noteq> Greater"
      using ab bd t1 [of a b d] by (auto simp: l)
    show "ordering_then (c1 a d) (c2 a d) \<noteq> Greater"
    proof (cases "c1 a d")
      case Equal
      then have "c1 d a \<noteq> Greater" using s1 [of a d] by auto
      then have "c1 b a \<noteq> Greater" "c1 d b \<noteq> Greater"
        using t1 [of b d a] t1 [of d a b] le by auto
      then have "c1 a b = Equal" "c1 b d = Equal"
        using le s1 [of a b] s1 [of b d] by (metis ordering.exhaust)+
      with ab bd t2 [of a b d] Equal show ?thesis by simp
    qed (use le in auto)
  qed
qed

lemma ord_contract_key:
  assumes "ord_contract c" shows "ord_contract (\<lambda>a b. c (f a) (f b))"
  using assms unfolding ord_contract_def by blast

lemma ord_contract_rev:
  assumes "ord_contract c" shows "ord_contract (\<lambda>a b. c b a)"
  using assms unfolding ord_contract_def by blast

lemmas ord_contract_intros = ord_contract_then ord_contract_key [OF cmp_ord.ord_contract_axioms]
  ord_contract_rev [OF ord_contract_key [OF cmp_ord.ord_contract_axioms]]

end
