(* ===== verification/Lean_Event.thy ===== *)
theory Lean_Event
  imports Json_Value Event_Type Room_Version Ord_Sort
begin

text \<open>
  The event model of \<open>basespec::rezzy_types\<close>: the struct \<open>LeanEvent\<close>, the typed content accessors
  (\<open>EventContent\<close> for \<open>Value\<close>), the grammar of Matrix identifiers, syntactic validation with its
  warnings, the classification of power events, the edges of the event graph and the two orders
  (\<open>cmp_by_depth\<close> and \<open>SortPriority\<close>). The type parameters of the source are at their defaults:
  event ids and state keys are strings and the content is a JSON value. Timestamps and depths are
  integers: the code compares them and never computes with them.
\<close>

section \<open>Events\<close>

record lean_event =
  ev_id :: string
  ev_type :: string
  ev_state_key :: "string option"
  ev_power_level :: int
  ev_origin_server_ts :: int
  ev_sender :: string
  ev_content :: json
  ev_prev_events :: "string list"
  ev_auth_events :: "string list"
  ev_depth :: int
  ev_rejected :: bool
  ev_soft_fail :: bool
  ev_room_id :: "string option"

definition accepted_state_key :: "lean_event \<Rightarrow> string option" where
  "accepted_state_key ev = (if ev_rejected ev then None else ev_state_key ev)"

section \<open>Content accessors\<close>

definition get_str :: "string \<Rightarrow> json \<Rightarrow> string option" where
  "get_str field c = Option.bind (get field c) as_str"

definition get_object :: "string \<Rightarrow> json \<Rightarrow> (string \<times> json) list option" where
  "get_object field c = Option.bind (get field c) as_object"

definition get_pl :: "string \<Rightarrow> json \<Rightarrow> int option" where
  "get_pl field c =
     map_option (\<lambda>i. min i MAX_POWER_LEVEL_JSON) (Option.bind (get field c) coerce_json_to_i64)"

definition get_membership :: "json \<Rightarrow> string option" where
  "get_membership c = get_str FIELD_MEMBERSHIP c"

definition get_join_rule :: "json \<Rightarrow> string option" where
  "get_join_rule c = get_str FIELD_JOIN_RULE c"

definition get_user_power_level :: "json \<Rightarrow> string \<Rightarrow> int option" where
  "get_user_power_level c user =
     Option.bind (get_object FIELD_USERS c) (\<lambda>users.
     Option.bind (map_of users user) (\<lambda>v.
       map_option (\<lambda>i. min i MAX_POWER_LEVEL_JSON) (coerce_json_to_i64 v)))"

definition get_event_power_level :: "json \<Rightarrow> string \<Rightarrow> int option" where
  "get_event_power_level c event_type =
     Option.bind (get_object FIELD_EVENTS c) (\<lambda>events.
     Option.bind (map_of events event_type) (\<lambda>v.
       map_option (\<lambda>i. min i MAX_POWER_LEVEL_JSON) (coerce_json_to_i64 v)))"

definition get_users_default :: "json \<Rightarrow> int option" where
  "get_users_default c = get_pl FIELD_USERS_DEFAULT c"

definition get_events_default :: "json \<Rightarrow> int option" where
  "get_events_default c = get_pl FIELD_EVENTS_DEFAULT c"

definition get_state_default :: "json \<Rightarrow> int option" where
  "get_state_default c = get_pl FIELD_STATE_DEFAULT c"

definition get_ban :: "json \<Rightarrow> int option" where
  "get_ban c = get_pl FIELD_BAN c"

definition get_kick :: "json \<Rightarrow> int option" where
  "get_kick c = get_pl FIELD_KICK c"

definition get_invite :: "json \<Rightarrow> int option" where
  "get_invite c = get_pl FIELD_INVITE c"

definition get_redact :: "json \<Rightarrow> int option" where
  "get_redact c = Option.bind (get FIELD_REDACT c) coerce_json_to_i64"

definition get_creator :: "json \<Rightarrow> string option" where
  "get_creator c = get_str FIELD_CREATOR c"

definition get_room_version :: "json \<Rightarrow> string option" where
  "get_room_version c = get_str FIELD_ROOM_VERSION c"

definition has_malformed_room_version :: "json \<Rightarrow> bool" where
  "has_malformed_room_version c =
     (case get FIELD_ROOM_VERSION c of None \<Rightarrow> False | Some v \<Rightarrow> as_str v = None)"

definition get_m_federate :: "json \<Rightarrow> bool option" where
  "get_m_federate c = Option.bind (get ''m.federate'' c) as_bool"

definition get_redacts :: "json \<Rightarrow> string option" where
  "get_redacts c = get_str FIELD_REDACTS c"

definition has_additional_creator :: "json \<Rightarrow> string \<Rightarrow> bool" where
  "has_additional_creator c sender =
     (case Option.bind (get FIELD_ADDITIONAL_CREATORS c) as_array of
        None \<Rightarrow> False
      | Some arr \<Rightarrow> list_ex (\<lambda>v. as_str v = Some sender) arr)"

definition get_join_authorised_via_users_server :: "json \<Rightarrow> string option" where
  "get_join_authorised_via_users_server c = get_str FIELD_JOIN_AUTHORISED_VIA_USERS_SERVER c"

definition has_third_party_invite :: "json \<Rightarrow> bool" where
  "has_third_party_invite c \<longleftrightarrow> get FIELD_THIRD_PARTY_INVITE c \<noteq> None"

definition third_party_signed :: "json \<Rightarrow> json option" where
  "third_party_signed c = Option.bind (get FIELD_THIRD_PARTY_INVITE c) (get FIELD_SIGNED)"

definition get_third_party_invite_token :: "json \<Rightarrow> string option" where
  "get_third_party_invite_token c = Option.bind (third_party_signed c) (get_str FIELD_TOKEN)"

definition get_third_party_invite_mxid :: "json \<Rightarrow> string option" where
  "get_third_party_invite_mxid c = Option.bind (third_party_signed c) (get_str FIELD_MXID)"

definition has_third_party_invite_signatures :: "json \<Rightarrow> bool" where
  "has_third_party_invite_signatures c =
     (case Option.bind (third_party_signed c) (get_object FIELD_SIGNATURES) of
        None \<Rightarrow> False
      | Some m \<Rightarrow> m \<noteq> [])"

text \<open>The visitors are the lists of what they visit, in order.\<close>

fun visit_power_level_object :: "(string \<times> json) list \<Rightarrow> (string \<times> int) list" where
  "visit_power_level_object [] = []"
| "visit_power_level_object ((k, v) # m) =
     (case coerce_json_to_i64 v of
        None \<Rightarrow> visit_power_level_object m
      | Some pl \<Rightarrow> (k, min pl MAX_POWER_LEVEL_JSON) # visit_power_level_object m)"

definition visit_power_levels :: "string \<Rightarrow> json \<Rightarrow> (string \<times> int) list" where
  "visit_power_levels field c =
     (case get_object field c of None \<Rightarrow> [] | Some m \<Rightarrow> visit_power_level_object m)"

definition visit_event_power_levels :: "json \<Rightarrow> (string \<times> int) list" where
  "visit_event_power_levels c = visit_power_levels FIELD_EVENTS c"

definition visit_user_power_levels :: "json \<Rightarrow> (string \<times> int) list" where
  "visit_user_power_levels c = visit_power_levels FIELD_USERS c"

definition visit_notification_power_levels :: "json \<Rightarrow> (string \<times> int) list" where
  "visit_notification_power_levels c = visit_power_levels FIELD_NOTIFICATIONS c"

definition is_integer_json :: "json \<Rightarrow> bool" where
  "is_integer_json v \<longleftrightarrow> is_i64 v \<or> is_u64 v"

fun first_non_integer :: "json \<Rightarrow> string list \<Rightarrow> string option" where
  "first_non_integer c [] = None"
| "first_non_integer c (field # fs) =
     (case get field c of
        Some val \<Rightarrow> if \<not> is_integer_json val then Some field else first_non_integer c fs
      | None \<Rightarrow> first_non_integer c fs)"

definition find_non_integer_scalar_pl :: "json \<Rightarrow> string option" where
  "find_non_integer_scalar_pl c =
     first_non_integer c
       [FIELD_USERS_DEFAULT, FIELD_EVENTS_DEFAULT, FIELD_STATE_DEFAULT, FIELD_BAN, FIELD_REDACT,
        FIELD_KICK, FIELD_INVITE]"

fun first_non_integer_map :: "json \<Rightarrow> string list \<Rightarrow> string option" where
  "first_non_integer_map c [] = None"
| "first_non_integer_map c (field # fs) =
     (case get field c of
        None \<Rightarrow> first_non_integer_map c fs
      | Some val \<Rightarrow> (case as_object val of
            None \<Rightarrow> Some field
          | Some obj \<Rightarrow>
              if list_ex (\<lambda>e. \<not> is_integer_json (snd e)) obj then Some field
              else first_non_integer_map c fs))"

definition find_non_integer_map_pl :: "json \<Rightarrow> string option" where
  "find_non_integer_map_pl c = first_non_integer_map c [FIELD_EVENTS, FIELD_NOTIFICATIONS]"

definition has_non_integer_users_pl :: "json \<Rightarrow> bool \<Rightarrow> bool" where
  "has_non_integer_users_pl c strict =
     (case get FIELD_USERS c of
        None \<Rightarrow> False
      | Some val \<Rightarrow> (case as_object val of
            None \<Rightarrow> True
          | Some obj \<Rightarrow>
              list_ex (\<lambda>e. if strict then \<not> is_integer_json (snd e)
                           else coerce_json_to_i64 (snd e) = None) obj))"

definition visit_user_keys :: "json \<Rightarrow> string list" where
  "visit_user_keys c = (case get_object FIELD_USERS c of None \<Rightarrow> [] | Some obj \<Rightarrow> map fst obj)"

definition has_user_in_users :: "json \<Rightarrow> string \<Rightarrow> bool" where
  "has_user_in_users c user_id =
     (case get_object FIELD_USERS c of None \<Rightarrow> False | Some obj \<Rightarrow> map_of obj user_id \<noteq> None)"

section \<open>Matrix identifiers\<close>

definition is_localpart_byte :: "char \<Rightarrow> bool" where
  "is_localpart_byte b \<longleftrightarrow>
     (let n = of_char b :: int in 97 \<le> n \<and> n \<le> 122 \<or> 48 \<le> n \<and> n \<le> 57) \<or>
     b \<in> set ''._=-/+''"

definition split_mxid :: "string \<Rightarrow> (string \<times> string) option" where
  "split_mxid uid = Option.bind (strip_prefix CHR 0x40 uid) (split_once CHR '':'')"

definition is_valid_mxid :: "string \<Rightarrow> bool" where
  "is_valid_mxid uid = (case split_mxid uid of
       None \<Rightarrow> False
     | Some (localpart, domain) \<Rightarrow>
         localpart \<noteq> [] \<and> domain \<noteq> [] \<and> list_all is_localpart_byte localpart)"

definition is_acceptable_historical_mxid :: "string \<Rightarrow> bool" where
  "is_acceptable_historical_mxid uid = (case split_mxid uid of
       None \<Rightarrow> False
     | Some (localpart, domain) \<Rightarrow> domain \<noteq> [] \<and> CHR 0x00 \<notin> set localpart)"

definition extract_domain :: "string \<Rightarrow> string option" where
  "extract_domain uid = map_option snd (split_once CHR '':'' uid)"

definition domain_matches :: "string \<Rightarrow> string \<Rightarrow> bool" where
  "domain_matches id1 id2 =
     (let d1 = (case extract_domain id1 of Some d \<Rightarrow> d | None \<Rightarrow> id1);
          d2 = (case extract_domain id2 of Some d \<Rightarrow> d | None \<Rightarrow> id2)
      in d1 \<noteq> [] \<and> d2 \<noteq> [] \<and> eq_ignore_ascii_case d1 d2)"

definition additional_creators_are_valid :: "json \<Rightarrow> bool" where
  "additional_creators_are_valid c = (case get FIELD_ADDITIONAL_CREATORS c of
       None \<Rightarrow> True
     | Some v \<Rightarrow> (case as_array v of
           None \<Rightarrow> False
         | Some arr \<Rightarrow> list_all (\<lambda>entry. case as_str entry of
               None \<Rightarrow> False
             | Some s \<Rightarrow> is_acceptable_historical_mxid s) arr))"

section \<open>Syntactic validation\<close>

datatype warning =
    UnknownPrevEvent string "string list"
  | OversizedFieldPreV11 string string nat nat
  | CompatibilityMxid string string string

definition warning_code :: "warning \<Rightarrow> string" where
  "warning_code w = (case w of
       UnknownPrevEvent _ _ \<Rightarrow> ''W001_UNKNOWN_PREV_EVENT''
     | OversizedFieldPreV11 _ _ _ _ \<Rightarrow> ''W002_OVERSIZED_FIELD_PRE_V11''
     | CompatibilityMxid _ _ _ \<Rightarrow> ''W003_COMPATIBILITY_MXID'')"

datatype mxid_field = Sender | Creator

definition mxid_field_as_str :: "mxid_field \<Rightarrow> string" where
  "mxid_field_as_str f = (case f of Sender \<Rightarrow> ''sender'' | Creator \<Rightarrow> ''creator'')"

definition MAX_SAFE_JSON_INTEGER :: int where
  "MAX_SAFE_JSON_INTEGER = 9007199254740991"

definition validate_structure :: "lean_event \<Rightarrow> string \<Rightarrow> (string, unit) result" where
  "validate_structure ev room_version = (case from_room_version room_version of
       None \<Rightarrow> Inl ''unsupported room_version''
     | Some version \<Rightarrow>
         if length (ev_prev_events ev) > 20
         then Inl ''prev_events exceeds maximum allowed length of 20''
         else if version \<noteq> V2_2 \<and> length (ev_auth_events ev) > 10
         then Inl ''auth_events exceeds maximum allowed length of 10''
         else if version = V2_2 \<and> length (ev_auth_events ev) > MAX_PREV_STATE_EVENTS
         then Inl ''prev_state_events exceeds maximum allowed length of 20''
         else if ev_type ev = []
         then Inl ''event_type cannot be empty''
         else if ev_type ev = M_ROOM_CREATE
              \<and> (case get_room_version (ev_content ev) of
                    None \<Rightarrow> False
                  | Some v \<Rightarrow> from_room_version v = None)
         then Inl ''m.room.create content.room_version is not a recognised room version''
         else Inr ())"

definition sender_mxid_error :: string where
  "sender_mxid_error =
     ''sender must be a valid MXID: '' @ quoted [CHR 0x40] @ '' prefix, '' @ quoted '':'' @
     '' separator, non-empty domain, and a localpart of only a-z, 0-9, '' @ quoted ''.'' @ '', '' @
     quoted ''_'' @ '', '' @ quoted ''='' @ '', '' @ quoted ''-'' @ '', '' @ quoted ''/'' @ '', '' @
     quoted ''+''"

definition validate_mxid ::
  "lean_event \<Rightarrow> string \<Rightarrow> mxid_field \<Rightarrow> warning list \<Rightarrow> (string, warning list) result" where
  "validate_mxid ev mxid field warnings =
     (if is_valid_mxid mxid then Inr warnings
      else if is_acceptable_historical_mxid mxid
      then Inr (warnings @ [CompatibilityMxid (ev_id ev) (mxid_field_as_str field) mxid])
      else (case field of
          Sender \<Rightarrow> Inl sender_mxid_error
        | Creator \<Rightarrow> Inl ''m.room.create content.creator must be a valid MXID string''))"

definition validate_create_identifiers ::
  "lean_event \<Rightarrow> string \<Rightarrow> warning list \<Rightarrow> (string, warning list) result" where
  "validate_create_identifiers ev room_version warnings =
     (if ev_type ev \<noteq> M_ROOM_CREATE then Inr warnings
      else if (case from_room_version room_version of None \<Rightarrow> False | Some v \<Rightarrow> is_v2_1_plus v)
      then (if additional_creators_are_valid (ev_content ev) then Inr warnings
            else Inl (''m.room.create content.additional_creators must be an array of valid MXID '' @
                      ''strings''))
      else (case get_creator (ev_content ev) of
          None \<Rightarrow> Inl (''m.room.create content must have a '' @ quoted ''creator'' @ '' property'')
        | Some creator \<Rightarrow> validate_mxid ev creator Creator warnings))"

definition validate_identifiers ::
  "lean_event \<Rightarrow> string \<Rightarrow> warning list \<Rightarrow> (string, warning list) result" where
  "validate_identifiers ev room_version warnings =
     (if ev_id ev = [] \<or> \<not> starts_with CHR ''$'' (ev_id ev)
      then Inl (''event_id must start with '' @ quoted ''$'')
      else rbind (validate_mxid ev (ev_sender ev) Sender warnings)
             (validate_create_identifiers ev room_version))"

text \<open>The last arm of the match on the field name is \<open>unreachable!\<close>; its panic is an error value.\<close>

definition validate_field_length ::
  "lean_event \<Rightarrow> string \<Rightarrow> string \<Rightarrow> bool \<Rightarrow> warning list \<Rightarrow> (string, warning list) result" where
  "validate_field_length ev value field strict warnings =
     (if length value \<le> 255 then Inr warnings
      else if strict
      then (if field \<in> {''event_id'', ''sender'', ''event_type'', ''state_key''}
            then Inl (field @ '' exceeds maximum allowed length of 255 bytes'')
            else Inl ''only fixed PDU fields are length-checked'')
      else Inr (warnings @ [OversizedFieldPreV11 (ev_id ev) field (length value) 255]))"

fun validate_each_length ::
  "lean_event \<Rightarrow> bool \<Rightarrow> (string \<times> string) list \<Rightarrow> warning list \<Rightarrow> (string, warning list) result"
where
  "validate_each_length ev strict [] warnings = Inr warnings"
| "validate_each_length ev strict ((value, field) # fs) warnings =
     rbind (validate_field_length ev value field strict warnings)
       (validate_each_length ev strict fs)"

definition length_checked_fields :: "lean_event \<Rightarrow> (string \<times> string) list" where
  "length_checked_fields ev =
     [(ev_id ev, ''event_id''), (ev_sender ev, ''sender''), (ev_type ev, ''event_type'')] @
     (case ev_state_key ev of None \<Rightarrow> [] | Some k \<Rightarrow> [(k, ''state_key'')])"

definition validate_field_lengths ::
  "lean_event \<Rightarrow> string \<Rightarrow> warning list \<Rightarrow> (string, warning list) result" where
  "validate_field_lengths ev room_version warnings =
     validate_each_length ev (room_version_is_v11_or_later room_version)
       (length_checked_fields ev) warnings"

definition validate_syntactic :: "lean_event \<Rightarrow> string \<Rightarrow> (string, warning list) result" where
  "validate_syntactic ev room_version =
     ok_then (validate_structure ev room_version)
       (rbind (validate_identifiers ev room_version []) (\<lambda>warnings.
          if ev_depth ev > MAX_SAFE_JSON_INTEGER then Inl ''depth exceeds maximum allowed value''
          else validate_field_lengths ev room_version warnings))"

section \<open>Classification of events\<close>

definition is_redaction :: "lean_event \<Rightarrow> bool" where
  "is_redaction ev \<longleftrightarrow> ev_type ev = M_ROOM_REDACTION \<and> get_redacts (ev_content ev) \<noteq> None"

definition is_ban_or_kick :: "lean_event \<Rightarrow> bool" where
  "is_ban_or_kick ev =
     (ev_type ev = M_ROOM_MEMBER \<and>
      (case get_membership (ev_content ev) of
         None \<Rightarrow> False
       | Some membership \<Rightarrow>
           (membership = MEM_BAN \<or> membership = MEM_LEAVE) \<and>
           (case ev_state_key ev of None \<Rightarrow> False | Some k \<Rightarrow> k \<noteq> ev_sender ev)))"

definition is_power_event :: "lean_event \<Rightarrow> state_res_version \<Rightarrow> bool" where
  "is_power_event ev version \<longleftrightarrow>
     ev_type ev = M_ROOM_CREATE \<or> ev_type ev = M_ROOM_POWER_LEVELS \<or>
     ev_type ev = M_ROOM_JOIN_RULES \<or>
     ev_type ev = M_ROOM_MEMBER \<and> (version = V1 \<or> is_ban_or_kick ev)"

definition is_demotion :: "lean_event \<Rightarrow> bool" where
  "is_demotion ev \<longleftrightarrow> ev_type ev = M_ROOM_POWER_LEVELS"

definition is_lockdown :: "lean_event \<Rightarrow> bool" where
  "is_lockdown ev \<longleftrightarrow>
     ev_type ev = M_ROOM_JOIN_RULES \<and> get_join_rule (ev_content ev) = Some RULE_INVITE"

definition restricts_sender :: "lean_event \<Rightarrow> string \<Rightarrow> bool" where
  "restricts_sender ev sender =
     (if is_ban_or_kick ev then ev_state_key ev = Some sender
      else if is_demotion ev then get_user_power_level (ev_content ev) sender = Some 0
      else False)"

definition restricts_event :: "lean_event \<Rightarrow> lean_event \<Rightarrow> bool" where
  "restricts_event ev other =
     (if is_ban_or_kick ev \<or> is_demotion ev then restricts_sender ev (ev_sender other)
      else is_lockdown ev \<and> ev_type other = M_ROOM_MEMBER \<and>
           get_membership (ev_content other) = Some MEM_JOIN)"

section \<open>Edges of the event graph\<close>

definition prev_state_events :: "lean_event \<Rightarrow> string list" where
  "prev_state_events ev = ev_auth_events ev"

definition state_predecessors :: "lean_event \<Rightarrow> state_res_version \<Rightarrow> string list" where
  "state_predecessors ev version =
     (if version = V2_2 then prev_state_events ev else ev_prev_events ev)"

definition auth_chain_events :: "lean_event \<Rightarrow> state_res_version \<Rightarrow> string list" where
  "auth_chain_events ev version = (if version = V2_2 then [] else ev_auth_events ev)"

definition dag_edges :: "lean_event \<Rightarrow> state_res_version \<Rightarrow> string list" where
  "dag_edges ev version = (if version = V2_2 then prev_state_events ev else ev_auth_events ev)"

section \<open>Orders\<close>

definition cmp_by_depth :: "lean_event \<Rightarrow> lean_event \<Rightarrow> ordering" where
  "cmp_by_depth a b = ordering_then (cmp (ev_depth a) (ev_depth b)) (cmp (ev_id a) (ev_id b))"

record sort_priority =
  sp_event :: lean_event
  sp_power_level :: int
  sp_version :: state_res_version

definition sort_priority_cmp :: "sort_priority \<Rightarrow> sort_priority \<Rightarrow> ordering" where
  "sort_priority_cmp a b =
     (if sp_version a \<noteq> sp_version b then cmp (sp_version a) (sp_version b)
      else (case sp_version a of
          V1 \<Rightarrow> (case cmp (ev_depth (sp_event a)) (ev_depth (sp_event b)) of
              Equal \<Rightarrow> cmp (ev_id (sp_event a)) (ev_id (sp_event b))
            | ord \<Rightarrow> ord)
        | _ \<Rightarrow> (case cmp (sp_power_level a) (sp_power_level b) of
              Equal \<Rightarrow>
                (case cmp (ev_origin_server_ts (sp_event b)) (ev_origin_server_ts (sp_event a)) of
                   Equal \<Rightarrow> cmp (ev_id (sp_event b)) (ev_id (sp_event a))
                 | ord \<Rightarrow> ord)
            | ord \<Rightarrow> ord)))"

interpretation depth_ord: ord_contract cmp_by_depth
  unfolding cmp_by_depth_def by (intro ord_contract_intros)

text \<open>The order of \<open>SortPriority\<close> is a cascade of key comparisons, some of them reversed, so it meets
  the contract of \<open>Ord\<close> although the two strategies order ids in opposite directions.\<close>

lemma sort_priority_cmp_cascade:
  "sort_priority_cmp = (\<lambda>a b.
     ordering_then (cmp (sp_version a) (sp_version b))
     (ordering_then
        (cmp (if sp_version a = V1 then ev_depth (sp_event a) else sp_power_level a)
             (if sp_version b = V1 then ev_depth (sp_event b) else sp_power_level b))
     (ordering_then
        (cmp (if sp_version b = V1 then 0 else ev_origin_server_ts (sp_event b))
             (if sp_version a = V1 then 0 else ev_origin_server_ts (sp_event a)))
     (ordering_then
        (cmp (if sp_version a = V1 then ev_id (sp_event a) else [])
             (if sp_version b = V1 then ev_id (sp_event b) else []))
        (cmp (if sp_version b = V1 then [] else ev_id (sp_event b))
             (if sp_version a = V1 then [] else ev_id (sp_event a)))))))"
  (is "_ = ?c")
proof (intro ext)
  fix a b :: sort_priority
  show "sort_priority_cmp a b = ?c a b"
  proof (cases "sp_version a = sp_version b")
    case False
    then have "cmp (sp_version a) (sp_version b) \<noteq> Equal" by simp
    then have "?c a b = cmp (sp_version a) (sp_version b)" by (rule ordering_then_decided)
    with False show ?thesis by (simp add: sort_priority_cmp_def)
  next
    case True
    then show ?thesis
      by (cases "sp_version b")
        (simp_all add: sort_priority_cmp_def ordering_then_case)
  qed
qed

interpretation priority_ord: ord_contract sort_priority_cmp
  unfolding sort_priority_cmp_cascade by (intro ord_contract_intros)

lemma sort_priority_cmp_Equal:
  "sort_priority_cmp a b = Equal \<Longrightarrow> ev_id (sp_event a) = ev_id (sp_event b)"
  unfolding sort_priority_cmp_cascade by (auto simp: ordering_then_iff split: if_splits)

end
