(* ===== verification/Redaction.thy ===== *)
theory Redaction
  imports Canonical_Json Lean_Event
begin

text \<open>
  The redaction algorithm of \<open>basespec::rezzy_types\<close>: the per-version rules, the content and top-level
  halves on JSON values, the MSC4511 split of a content, the streaming canonical writer of a redacted
  event and the hashes computed from it. SHA-256 and base64 are code outside the repository: they are
  the fields of \<open>hash_env\<close>, a parameter of the functions that hash.
\<close>

section \<open>Rules\<close>

datatype redaction_rule = RuleNone | RuleAll | RuleKeys "string list"

definition RELATION_KEYS :: "string list" where
  "RELATION_KEYS = [''m.relates_to.rel_type'', ''m.relates_to.event_id'']"

definition msc3389_redaction_rule :: "string \<Rightarrow> redaction_rule" where
  "msc3389_redaction_rule event_type =
     (if event_type = M_ROOM_CREATE then RuleKeys (''creator'' # RELATION_KEYS)
      else if event_type = M_ROOM_MEMBER
      then RuleKeys ([''membership'', ''join_authorised_via_users_server''] @ RELATION_KEYS)
      else if event_type = M_ROOM_POWER_LEVELS
      then RuleKeys ([''ban'', ''events'', ''events_default'', ''kick'', ''redact'',
                      ''state_default'', ''users'', ''users_default''] @ RELATION_KEYS)
      else if event_type = M_ROOM_JOIN_RULES
      then RuleKeys ([''join_rule'', ''allow''] @ RELATION_KEYS)
      else if event_type = M_ROOM_HISTORY_VISIBILITY
      then RuleKeys (''history_visibility'' # RELATION_KEYS)
      else RuleKeys RELATION_KEYS)"

definition numeric_redaction_rule :: "string \<Rightarrow> nat \<Rightarrow> redaction_rule" where
  "numeric_redaction_rule event_type ver_num =
     (if event_type = M_ROOM_CREATE
      then (if ver_num \<ge> 11 then RuleAll else RuleKeys [''creator''])
      else if event_type = M_ROOM_MEMBER
      then (if ver_num \<ge> 11
            then RuleKeys [''membership'', ''join_authorised_via_users_server'',
                           ''third_party_invite.signed'']
            else if ver_num \<ge> 9
            then RuleKeys [''membership'', ''join_authorised_via_users_server'']
            else RuleKeys [''membership''])
      else if event_type = M_ROOM_POWER_LEVELS
      then (if ver_num \<ge> 11
            then RuleKeys [''ban'', ''events'', ''events_default'', ''invite'', ''kick'', ''redact'',
                           ''state_default'', ''users'', ''users_default'']
            else RuleKeys [''ban'', ''events'', ''events_default'', ''kick'', ''redact'',
                           ''state_default'', ''users'', ''users_default''])
      else if event_type = M_ROOM_JOIN_RULES
      then (if ver_num \<ge> 9 then RuleKeys [''join_rule'', ''allow''] else RuleKeys [''join_rule''])
      else if event_type = M_ROOM_HISTORY_VISIBILITY then RuleKeys [''history_visibility'']
      else if event_type = M_ROOM_ALIASES
      then (if ver_num \<le> 5 then RuleKeys [''aliases''] else RuleNone)
      else if event_type = M_ROOM_REDACTION
      then (if ver_num \<ge> 11 then RuleKeys [''redacts''] else RuleNone)
      else RuleNone)"

definition redaction_preserved_keys :: "string \<Rightarrow> string \<Rightarrow> redaction_rule" where
  "redaction_preserved_keys event_type room_version = (case parse_format room_version of
       None \<Rightarrow> RuleNone
     | Some Msc3389 \<Rightarrow> msc3389_redaction_rule event_type
     | Some (Numeric n) \<Rightarrow> numeric_redaction_rule event_type n
     | Some Msc4242 \<Rightarrow> numeric_redaction_rule event_type 11
     | Some NutraCdo \<Rightarrow> numeric_redaction_rule event_type 11)"

section \<open>Content\<close>

definition redact_path ::
  "json \<Rightarrow> string \<Rightarrow> (string \<times> json) list \<Rightarrow> (string \<times> json) list" where
  "redact_path content path out = (case rsplit_once CHR ''.'' path of
       Some (top_key, rest) \<Rightarrow> (case get top_key content of
           Some (Object inner) \<Rightarrow> (case map_of inner rest of
               Some v \<Rightarrow> (case map_of out top_key of
                   Some (Object parent) \<Rightarrow> bm_insert top_key (Object (bm_insert rest v parent)) out
                 | _ \<Rightarrow> bm_insert top_key (Object (bm_insert rest v [])) out)
             | None \<Rightarrow> out)
         | _ \<Rightarrow> out)
     | None \<Rightarrow> (case get path content of
           Some v \<Rightarrow> bm_insert path v out
         | None \<Rightarrow> out))"

definition redact_content :: "json \<Rightarrow> redaction_rule \<Rightarrow> json" where
  "redact_content content rule = (case rule of
       RuleNone \<Rightarrow> Object []
     | RuleAll \<Rightarrow> content
     | RuleKeys paths \<Rightarrow> Object (fold (redact_path content) paths []))"

definition inner_remainder ::
  "(string \<times> json) list \<Rightarrow> (string \<times> json) list \<Rightarrow> (string \<times> json) list" where
  "inner_remainder preserved_inner full_inner =
     fold (\<lambda>(k, v) remainder.
             if map_of preserved_inner k \<noteq> Some v then bm_insert k v remainder else remainder)
       full_inner []"

definition remainder_step ::
  "(string \<times> json) list \<Rightarrow> string \<times> json \<Rightarrow> (string \<times> json) list \<Rightarrow> (string \<times> json) list" where
  "remainder_step redacted_obj e out = (case e of (key, value) \<Rightarrow>
     (case map_of redacted_obj key of
        None \<Rightarrow> bm_insert key value out
      | Some preserved \<Rightarrow>
          if preserved = value then out
          else (case (preserved, value) of
              (Object preserved_inner, Object full_inner) \<Rightarrow>
                let remainder = inner_remainder preserved_inner full_inner
                in if remainder \<noteq> [] then bm_insert key (Object remainder) out else out
            | _ \<Rightarrow> bm_insert key value out)))"

definition redactable_content_remainder :: "json \<Rightarrow> json \<Rightarrow> json" where
  "redactable_content_remainder content redacted = (case content of
       Object content_obj \<Rightarrow>
         let redacted_obj = (case redacted of Object m \<Rightarrow> m | _ \<Rightarrow> [])
         in Object (fold (remainder_step redacted_obj) content_obj [])
     | _ \<Rightarrow> Object [])"

definition split_redaction_content :: "json \<Rightarrow> string \<Rightarrow> string \<Rightarrow> json \<times> json" where
  "split_redaction_content content event_type room_version =
     (let rule = redaction_preserved_keys event_type room_version;
          redacted = redact_content content rule;
          redactable = redactable_content_remainder content redacted
      in (redacted, redactable))"

section \<open>Top level\<close>

definition take_key ::
  "(string \<times> json) list \<Rightarrow> string \<Rightarrow> (string \<times> json) list \<Rightarrow> (string \<times> json) list" where
  "take_key obj key out = (case map_of obj key of Some v \<Rightarrow> bm_insert key v out | None \<Rightarrow> out)"

definition is_v12_create :: "(string \<times> json) list \<Rightarrow> string \<Rightarrow> bool" where
  "is_v12_create obj room_version \<longleftrightarrow>
     Option.bind (map_of obj FIELD_TYPE) as_str = Some M_ROOM_CREATE \<and>
     room_version_is_v12_or_later room_version"

definition top_level_keys :: "(string \<times> json) list \<Rightarrow> string \<Rightarrow> string list" where
  "top_level_keys obj room_version =
     [FIELD_EVENT_ID, FIELD_TYPE] @
     (if \<not> is_v12_create obj room_version then [''room_id''] else []) @
     [FIELD_SENDER, FIELD_STATE_KEY, FIELD_CONTENT, FIELD_HASHES, FIELD_SIGNATURES,
      FIELD_DEPTH, FIELD_PREV_EVENTS, FIELD_AUTH_EVENTS, FIELD_ORIGIN_SERVER_TS] @
     (if is_msc4242_room_version room_version then [''prev_state_events''] else []) @
     (if \<not> room_version_is_v11_or_later room_version
      then [''origin'', ''membership'', ''prev_state''] else [])"

definition redact_top_level :: "json \<Rightarrow> string \<Rightarrow> (string \<times> json) list" where
  "redact_top_level value room_version = (case value of
       Object obj \<Rightarrow> fold (take_key obj) (top_level_keys obj room_version) []
     | _ \<Rightarrow> [])"

definition type_of_value :: "json \<Rightarrow> string" where
  "type_of_value value = (case get_str FIELD_TYPE value of Some t \<Rightarrow> t | None \<Rightarrow> [])"

definition redact_json :: "json \<Rightarrow> string \<Rightarrow> json" where
  "redact_json value room_version =
     (let rule = redaction_preserved_keys (type_of_value value) room_version;
          out = redact_top_level value room_version;
          content = (case map_of out FIELD_CONTENT of
              None \<Rightarrow> Object []
            | Some c \<Rightarrow> redact_content c rule)
      in Object (bm_insert FIELD_CONTENT content out))"

section \<open>Canonical writers and hashes\<close>

fun content_hash_members ::
  "bool \<Rightarrow> bool \<Rightarrow> (string \<times> json) list \<Rightarrow> (canonicalization_error, string) result" where
  "content_hash_members strict first [] = Inr []"
| "content_hash_members strict first ((key, v) # obj) =
     (if key \<in> {''unsigned'', ''signatures'', ''hashes''} then content_hash_members strict first obj
      else rbind (write_json_value strict v) (\<lambda>s.
           rbind (content_hash_members strict False obj) (\<lambda>t.
             Inr ((if first then [] else '','') @ write_json_string key @ '':'' @ s @ t))))"

definition write_content_hash_canonical ::
  "json \<Rightarrow> bool \<Rightarrow> (canonicalization_error, string) result" where
  "write_content_hash_canonical value strict = (case value of
       Object obj \<Rightarrow> rbind (content_hash_members strict True obj) (\<lambda>s. Inr (''{'' @ s @ ''}''))
     | _ \<Rightarrow> Inr ''{}'')"

definition keep_top_level :: "(string \<times> json) list \<Rightarrow> string \<Rightarrow> string \<Rightarrow> bool" where
  "keep_top_level obj room_version key =
     (if key \<in> {FIELD_EVENT_ID, FIELD_TYPE, FIELD_SENDER, FIELD_STATE_KEY, FIELD_HASHES, FIELD_DEPTH,
                FIELD_PREV_EVENTS, FIELD_AUTH_EVENTS, FIELD_ORIGIN_SERVER_TS, FIELD_CONTENT}
      then True
      else if key = ''room_id'' then \<not> is_v12_create obj room_version
      else if key = ''prev_state_events'' then is_msc4242_room_version room_version
      else if key \<in> {''origin'', ''membership'', ''prev_state''}
      then \<not> room_version_is_v11_or_later room_version
      else False)"

definition empty_content_field :: "bool \<Rightarrow> string" where
  "empty_content_field first =
     (if first then [] else '','') @ write_json_string FIELD_CONTENT @ '':{}''"

fun write_redacted_members ::
  "(string \<Rightarrow> bool) \<Rightarrow> redaction_rule \<Rightarrow> bool \<Rightarrow> bool \<Rightarrow> bool \<Rightarrow> (string \<times> json) list \<Rightarrow>
   (canonicalization_error, string) result" where
  "write_redacted_members keep rule strict first content_written [] =
     Inr (if content_written then [] else empty_content_field first)"
| "write_redacted_members keep rule strict first content_written ((key, v) # obj) =
     (let missing = \<not> content_written \<and> FIELD_CONTENT < key;
          pre = (if missing then empty_content_field first else []);
          first1 = (if missing then False else first);
          cw1 = (content_written \<or> missing)
      in if \<not> keep key
         then rbind (write_redacted_members keep rule strict first1 cw1 obj) (\<lambda>t. Inr (pre @ t))
         else rbind (write_json_value strict (if key = FIELD_CONTENT then redact_content v rule else v))
                (\<lambda>s.
              rbind (write_redacted_members keep rule strict False (cw1 \<or> key = FIELD_CONTENT) obj)
                (\<lambda>t.
                Inr (pre @ (if first1 then [] else '','') @ write_json_string key @ '':'' @ s @ t))))"

definition write_redacted_canonical ::
  "json \<Rightarrow> string \<Rightarrow> (canonicalization_error, string) result" where
  "write_redacted_canonical value room_version = (case value of
       Object obj \<Rightarrow>
         rbind (write_redacted_members (keep_top_level obj room_version)
                  (redaction_preserved_keys (type_of_value value) room_version)
                  (room_version_is_v6_or_later room_version) True False obj)
           (\<lambda>s. Inr (''{'' @ s @ ''}''))
     | _ \<Rightarrow> Inr ''{}'')"

definition try_canonical_redacted_json :: "json \<Rightarrow> string \<Rightarrow> (string, string) result" where
  "try_canonical_redacted_json value room_version =
     (if \<not> is_supported_room_version room_version
      then Inl (''no canonical redacted JSON for unsupported room version '' @ room_version)
      else map_err (\<lambda>e. ''failed to write canonical JSON: '' @ display_canonicalization_error e)
             (write_redacted_canonical value room_version))"

record hash_env =
  sha256 :: "string \<Rightarrow> string"
  base64_standard :: "string \<Rightarrow> string"
  base64_url_safe :: "string \<Rightarrow> string"

definition hash_base64_engine :: "hash_env \<Rightarrow> string \<Rightarrow> string \<Rightarrow> string" where
  "hash_base64_engine h room_version =
     (if major_version room_version = Some 3 then base64_standard h else base64_url_safe h)"

definition reference_hash_digest ::
  "hash_env \<Rightarrow> json \<Rightarrow> string \<Rightarrow> (string, string) result" where
  "reference_hash_digest h value room_version =
     (if has_opaque_event_ids room_version
      then Inl (''no reference hash for room version '' @ room_version @
                '': v1/v2 event IDs are opaque server-assigned strings, not hashes'')
      else if from_room_version room_version = None
      then Inl (''no reference hash for unsupported room version '' @ room_version @
                '': its event ID hash rules are undefined'')
      else rbind
             (map_err (\<lambda>e. ''failed to write canonical JSON: '' @ display_canonicalization_error e)
               (write_redacted_canonical value room_version))
             (\<lambda>bytes. Inr (sha256 h bytes)))"

text \<open>The digest has 32 bytes, whose unpadded base64 has 43 characters: the 43 byte buffer the source
  encodes into is exactly full, and base64 text is UTF-8.\<close>

definition reference_hash :: "hash_env \<Rightarrow> json \<Rightarrow> string \<Rightarrow> (string, string) result" where
  "reference_hash h value room_version =
     rbind (reference_hash_digest h value room_version)
       (\<lambda>digest. Inr (hash_base64_engine h room_version digest))"

definition compute_content_hash :: "hash_env \<Rightarrow> json \<Rightarrow> string \<Rightarrow> (string, string) result" where
  "compute_content_hash h value room_version =
     (if \<not> is_supported_room_version room_version
      then Inl (''no content hash for unsupported room version '' @ room_version @
                '': its canonical JSON rules are undefined'')
      else rbind
             (map_err (\<lambda>e. ''failed to write canonical JSON: '' @ display_canonicalization_error e)
               (write_content_hash_canonical value (room_version_is_v6_or_later room_version)))
             (\<lambda>bytes. Inr (base64_standard h (sha256 h bytes))))"

definition verify_content_hash :: "hash_env \<Rightarrow> json \<Rightarrow> string \<Rightarrow> (string, unit) result" where
  "verify_content_hash h value room_version =
     (case Option.bind (get FIELD_HASHES value) (get_str ''sha256'') of
        None \<Rightarrow> Inl ''hashes.sha256 is missing or not a string''
      | Some expected \<Rightarrow>
          rbind (compute_content_hash h value room_version) (\<lambda>computed.
            require (computed = expected)
              (''content hash mismatch: hashes.sha256='' @ expected @ '', computed='' @ computed)))"

section \<open>Redacting events\<close>

definition redacted :: "lean_event \<Rightarrow> string \<Rightarrow> lean_event" where
  "redacted ev room_version =
     ev\<lparr>ev_content := redact_content (ev_content ev)
                        (redaction_preserved_keys (ev_type ev) room_version)\<rparr>"

definition apply_redaction :: "lean_event \<Rightarrow> lean_event \<Rightarrow> string \<Rightarrow> lean_event option" where
  "apply_redaction target redaction room_version =
     (if get_redacts (ev_content redaction) \<noteq> Some (ev_id target) then None
      else Some (redacted target room_version))"

end
