(* ===== verification/Redaction_Correct.thy ===== *)
theory Redaction_Correct
  imports Redaction
begin

text \<open>
  Correctness of redaction. Content redaction is characterised as a map (\<open>preserved_value\<close>), from
  which follow that it is idempotent, that the two halves of the MSC4511 split determine the content,
  that the streaming writer emits the canonical JSON of the redacted event, and that redacting an
  event does not change its reference hash.
\<close>

section \<open>Content redaction as a map\<close>

text \<open>The keys a list of paths preserves: whole members, and for the dotted paths the inner members by
  their parent.\<close>

definition plain_path :: "string list \<Rightarrow> string \<Rightarrow> bool" where
  "plain_path ps k \<longleftrightarrow> k \<in> set ps \<and> rsplit_once CHR ''.'' k = None"

definition inner_path :: "string list \<Rightarrow> string \<Rightarrow> string \<Rightarrow> bool" where
  "inner_path ps k r \<longleftrightarrow> (\<exists>p \<in> set ps. rsplit_once CHR ''.'' p = Some (k, r))"

definition paths_ok :: "string list \<Rightarrow> bool" where
  "paths_ok ps \<longleftrightarrow> (\<forall>k r. plain_path ps k \<longrightarrow> \<not> inner_path ps k r)"

definition preserved_value :: "json \<Rightarrow> string list \<Rightarrow> string \<Rightarrow> json option" where
  "preserved_value content ps k =
     (if plain_path ps k then get k content
      else (case get k content of
          Some (Object inner) \<Rightarrow>
            let m = filter (\<lambda>e. inner_path ps k (fst e)) inner
            in if m = [] then None else Some (Object m)
        | _ \<Rightarrow> None))"

lemma preserved_value_cong:
  assumes "plain_path ps k = plain_path qs k" "\<And>r. inner_path ps k r = inner_path qs k r"
  shows "preserved_value content ps k = preserved_value content qs k"
proof -
  have "inner_path ps k = inner_path qs k" using assms(2) by blast
  then show ?thesis unfolding preserved_value_def assms(1) by (rule ssubst) (rule refl)
qed

lemma plain_path_snoc:
  "plain_path (ps @ [p]) k \<longleftrightarrow> plain_path ps k \<or> k = p \<and> rsplit_once CHR ''.'' p = None"
  by (auto simp: plain_path_def)

lemma inner_path_snoc:
  "inner_path (ps @ [p]) k r \<longleftrightarrow> inner_path ps k r \<or> rsplit_once CHR ''.'' p = Some (k, r)"
  by (auto simp: inner_path_def)

lemma redact_path_preserved:
  assumes "json_wf content" "paths_ok (ps @ [p])" "bm_inv out"
    and out: "map_of out = preserved_value content ps"
  shows "bm_inv (redact_path content p out)"
    and "map_of (redact_path content p out) = preserved_value content (ps @ [p])"
proof -
  show "bm_inv (redact_path content p out)"
    using assms(3) by (auto simp: redact_path_def bm_inv_insert split: option.splits json.splits)
  show "map_of (redact_path content p out) = preserved_value content (ps @ [p])"
  proof (cases "rsplit_once CHR ''.'' p")
    case None
    then have pp: "plain_path (ps @ [p]) k \<longleftrightarrow> plain_path ps k \<or> k = p"
      and ip: "inner_path (ps @ [p]) k = inner_path ps k" for k
      by (auto simp: plain_path_snoc inner_path_snoc fun_eq_iff)
    have "\<not> inner_path ps p r" for r
      using assms(2) pp ip unfolding paths_ok_def by auto
    then have "get p content = None \<Longrightarrow> preserved_value content ps p = None"
      by (simp add: preserved_value_def)
    then have "map_of (redact_path content p out) = (preserved_value content ps)(p := get p content)"
      using None out by (auto simp: redact_path_def map_lookups fun_eq_iff split: option.split)
    also have "\<dots> = preserved_value content (ps @ [p])"
      unfolding preserved_value_def ip by (simp add: pp fun_eq_iff)
    finally show ?thesis .
  next
    case (Some tr)
    obtain t r where tr: "tr = (t, r)" by (cases tr)
    have np: "\<not> plain_path ps t"
      using assms(2) Some tr unfolding paths_ok_def by (meson inner_path_snoc plain_path_snoc)
    have same: "preserved_value content (ps @ [p]) k = preserved_value content ps k" if "k \<noteq> t" for k
      using that Some tr by (intro preserved_value_cong) (auto simp: plain_path_snoc inner_path_snoc)
    show ?thesis
    proof (cases "\<exists>inner v. get t content = Some (Object inner) \<and> map_of inner r = Some v")
      case True
      then obtain inner v where i: "get t content = Some (Object inner)" "map_of inner r = Some v" by blast
      with assms(1) have bi: "bm_inv inner" using json_wf_get by fastforce
      have new: "preserved_value content (ps @ [p]) t
          = Some (Object (bm_insert r v (filter (\<lambda>e. inner_path ps t (fst e)) inner)))"
      proof -
        have eq: "filter (\<lambda>e. inner_path (ps @ [p]) t (fst e)) inner
            = bm_insert r v (filter (\<lambda>e. inner_path ps t (fst e)) inner)"
          unfolding bm_insert_filter [OF bi i(2)] using Some tr
          by (auto simp: inner_path_snoc intro: filter_cong)
        moreover have "bm_insert r v (filter (\<lambda>e. inner_path ps t (fst e)) inner) \<noteq> []"
          by (metis (no_types) map_of_bm_insert fun_upd_same map_of.simps(1) option.distinct(1))
        ultimately show ?thesis
          using i np Some tr by (simp add: preserved_value_def plain_path_snoc)
      qed
      have old: "preserved_value content ps t = 
         (let m = filter (\<lambda>e. inner_path ps t (fst e)) inner in if m = [] then None else Some (Object m))"
        using i np by (simp add: preserved_value_def)
      have "redact_path content p out =
          bm_insert t (Object (bm_insert r v (filter (\<lambda>e. inner_path ps t (fst e)) inner))) out"
        using Some tr i out old by (auto simp: redact_path_def Let_def split: if_splits)
      then show ?thesis
        using new same out by (auto simp: map_lookups fun_eq_iff)
    next
      case False
      then have "redact_path content p out = out"
        using Some tr by (auto simp: redact_path_def split: option.splits json.splits)
      moreover have "filter (\<lambda>e. inner_path (ps @ [p]) t (fst e)) inner
          = filter (\<lambda>e. inner_path ps t (fst e)) inner" if "get t content = Some (Object inner)" for inner
      proof (rule filter_cong [OF refl])
        fix e assume "e \<in> set inner"
        moreover have "map_of inner r = None" using False that by auto
        ultimately have "fst e \<noteq> r" by (auto simp: map_of_eq_None_iff)
        then show "inner_path (ps @ [p]) t (fst e) = inner_path ps t (fst e)"
          using Some tr by (auto simp: inner_path_snoc)
      qed
      then have "preserved_value content (ps @ [p]) t = preserved_value content ps t"
        using np Some tr by (auto simp: preserved_value_def plain_path_snoc split: option.splits json.splits)
      ultimately show ?thesis
        using same out by (metis ext)
    qed
  qed
qed


lemma redact_content_keys:
  assumes "json_wf content" "paths_ok ps"
  obtains m where "redact_content content (RuleKeys ps) = Object m" "bm_inv m"
    "map_of m = preserved_value content ps"
proof -
  have "bm_inv (fold (redact_path content) ps []) \<and>
      map_of (fold (redact_path content) ps []) = preserved_value content ps"
    using assms(2)
  proof (induction ps rule: rev_induct)
    case Nil
    then show ?case
      by (auto simp: preserved_value_def plain_path_def inner_path_def fun_eq_iff
          split: option.splits json.splits)
  next
    case (snoc p ps)
    moreover have "paths_ok ps"
      using snoc.prems unfolding paths_ok_def by (meson inner_path_snoc plain_path_snoc)
    ultimately show ?case
      using redact_path_preserved [OF assms(1) snoc.prems] by simp
  qed
  then show ?thesis by (intro that) (auto simp: redact_content_def)
qed

lemma get_redact_content_keys:
  assumes "json_wf content" "paths_ok ps"
  shows "get k (redact_content content (RuleKeys ps)) = preserved_value content ps k"
proof -
  obtain m where "redact_content content (RuleKeys ps) = Object m" "map_of m = preserved_value content ps"
    using redact_content_keys [OF assms] by metis
  then show ?thesis by (simp add: get_def)
qed

definition rule_ok :: "redaction_rule \<Rightarrow> bool" where
  "rule_ok rule = (case rule of RuleKeys ps \<Rightarrow> paths_ok ps | _ \<Rightarrow> True)"

lemma paths_okI:
  assumes "list_all (\<lambda>p. case rsplit_once CHR ''.'' p of
      None \<Rightarrow> True
    | Some (t, r) \<Rightarrow> \<not> (List.member ps t \<and> rsplit_once CHR ''.'' t = None)) ps"
  shows "paths_ok ps"
  using assms unfolding paths_ok_def plain_path_def inner_path_def
  by (fastforce simp: list_all_iff split: option.splits)

definition all_preserved_paths :: "string list" where
  "all_preserved_paths =
     [''creator'', ''membership'', ''join_authorised_via_users_server'', ''third_party_invite.signed'',
      ''ban'', ''events'', ''events_default'', ''invite'', ''kick'', ''redact'', ''state_default'',
      ''users'', ''users_default'', ''join_rule'', ''allow'', ''history_visibility'', ''aliases'',
      ''redacts'', ''m.relates_to.rel_type'', ''m.relates_to.event_id'']"

lemma paths_ok_subset: "paths_ok qs \<Longrightarrow> set ps \<subseteq> set qs \<Longrightarrow> paths_ok ps"
  unfolding paths_ok_def plain_path_def inner_path_def by blast

lemma paths_ok_all: "paths_ok all_preserved_paths"
  by (rule paths_okI) code_simp

definition rule_within :: "redaction_rule \<Rightarrow> bool" where
  "rule_within rule =
     (case rule of RuleKeys ps \<Rightarrow> list_all (List.member all_preserved_paths) ps | _ \<Rightarrow> True)"

lemma rule_within_ok: "rule_within rule \<Longrightarrow> rule_ok rule"
  using paths_ok_subset [OF paths_ok_all]
  by (auto simp: rule_within_def rule_ok_def list_all_iff split: redaction_rule.splits)

lemma rule_within_literals:
  "rule_within (RuleKeys (''creator'' # RELATION_KEYS))"
  "rule_within (RuleKeys ([''membership'', ''join_authorised_via_users_server''] @ RELATION_KEYS))"
  "rule_within (RuleKeys ([''ban'', ''events'', ''events_default'', ''kick'', ''redact'',
                      ''state_default'', ''users'', ''users_default''] @ RELATION_KEYS))"
  "rule_within (RuleKeys ([''join_rule'', ''allow''] @ RELATION_KEYS))"
  "rule_within (RuleKeys (''history_visibility'' # RELATION_KEYS))"
  "rule_within (RuleKeys RELATION_KEYS)"
  "rule_within (RuleKeys [''creator''])"
  "rule_within (RuleKeys [''membership'', ''join_authorised_via_users_server'',
                           ''third_party_invite.signed''])"
  "rule_within (RuleKeys [''membership'', ''join_authorised_via_users_server''])"
  "rule_within (RuleKeys [''membership''])"
  "rule_within (RuleKeys [''ban'', ''events'', ''events_default'', ''invite'', ''kick'', ''redact'',
                           ''state_default'', ''users'', ''users_default''])"
  "rule_within (RuleKeys [''ban'', ''events'', ''events_default'', ''kick'', ''redact'',
                           ''state_default'', ''users'', ''users_default''])"
  "rule_within (RuleKeys [''join_rule'', ''allow''])" "rule_within (RuleKeys [''join_rule''])"
  "rule_within (RuleKeys [''history_visibility''])" "rule_within (RuleKeys [''aliases''])"
  "rule_within (RuleKeys [''redacts''])" "rule_within RuleNone" "rule_within RuleAll"
  by code_simp+

lemma rule_ok_preserved_keys: "rule_ok (redaction_preserved_keys event_type room_version)"
proof -
  have "rule_within (msc3389_redaction_rule event_type)"
    unfolding msc3389_redaction_rule_def by (simp only: rule_within_literals split: if_split) simp
  moreover have "rule_within (numeric_redaction_rule event_type n)" for n
    unfolding numeric_redaction_rule_def by (simp only: rule_within_literals split: if_split) simp
  ultimately show ?thesis
    using rule_within_ok rule_within_literals(18)
    by (simp add: redaction_preserved_keys_def split: option.split room_version_format.split)
qed

lemma json_wf_redact_content:
  assumes "json_wf content" "rule_ok rule"
  shows "json_wf (redact_content content rule)"
proof (cases rule)
  case (RuleKeys ps)
  with assms have ok: "paths_ok ps" by (simp add: rule_ok_def)
  obtain m where m: "redact_content content (RuleKeys ps) = Object m" "bm_inv m"
    "map_of m = preserved_value content ps"
    by (rule redact_content_keys [OF assms(1) ok])
  have "json_wf v" if "preserved_value content ps k = Some v" for k v
  proof (cases "plain_path ps k")
    case True
    with that assms(1) show ?thesis by (simp add: preserved_value_def json_wf_get)
  next
    case False
    with that obtain inner where i: "get k content = Some (Object inner)"
      and v: "v = Object (filter (\<lambda>e. inner_path ps k (fst e)) inner)"
      by (auto simp: preserved_value_def Let_def split: option.splits json.splits if_splits)
    from i assms(1) have "json_wf (Object inner)" by (rule json_wf_get [rotated])
    with v show ?thesis by (auto simp: bm_inv_filter)
  qed
  then have "json_wf v" if "(k, v) \<in> set m" for k v
    using that m bm.entry_lookup [of m k v] by metis
  with m RuleKeys show ?thesis by auto
qed (use assms in \<open>auto simp: redact_content_def\<close>)

lemma preserved_value_idem:
  assumes "\<And>k. get k c' = preserved_value c ps k"
  shows "preserved_value c' ps k = preserved_value c ps k"
proof (cases "plain_path ps k")
  case False
  then show ?thesis
    unfolding preserved_value_def [of c'] assms
    by (auto simp: preserved_value_def Let_def split: option.splits json.splits)
qed (use assms in \<open>simp add: preserved_value_def\<close>)

lemma redact_content_idem:
  assumes "json_wf content" "rule_ok rule"
  shows "redact_content (redact_content content rule) rule = redact_content content rule"
proof (cases rule)
  case (RuleKeys ps)
  with assms have ok: "paths_ok ps" by (simp add: rule_ok_def)
  let ?c = "redact_content content (RuleKeys ps)"
  have wf: "json_wf ?c" using assms RuleKeys json_wf_redact_content by blast
  obtain m where "redact_content ?c (RuleKeys ps) = Object m" "bm_inv m"
    "map_of m = preserved_value ?c ps" by (rule redact_content_keys [OF wf ok])
  moreover obtain n where "?c = Object n" "bm_inv n" "map_of n = preserved_value content ps"
    by (rule redact_content_keys [OF assms(1) ok])
  moreover have "preserved_value ?c ps = preserved_value content ps"
    using preserved_value_idem [OF get_redact_content_keys [OF assms(1) ok]] by blast
  ultimately show ?thesis
    using RuleKeys bm_inv_unique [of m n] by simp
qed (auto simp: redact_content_def)

section \<open>Recovering the content from the split\<close>

definition inner_merge :: "json option \<Rightarrow> json \<Rightarrow> json" where
  "inner_merge old v = (case (old, v) of
       (Some (Object a), Object b) \<Rightarrow> Object (fold (update_with (\<lambda>_ w. w)) b a)
     | _ \<Rightarrow> v)"

definition recover_content :: "json \<times> json \<Rightarrow> json" where
  "recover_content p = (case p of
       (Object r, Object q) \<Rightarrow> Object (fold (update_with inner_merge) q r)
     | (r, _) \<Rightarrow> r)"

definition remainder_value :: "json option \<Rightarrow> json \<Rightarrow> json option" where
  "remainder_value old value = (case old of
       None \<Rightarrow> Some value
     | Some preserved \<Rightarrow>
         if preserved = value then None
         else (case (preserved, value) of
             (Object a, Object b) \<Rightarrow>
               (let r = inner_remainder a b in if r \<noteq> [] then Some (Object r) else None)
           | _ \<Rightarrow> Some value))"

lemma inner_remainder_fold:
  "inner_remainder a b = fold (insert_mapped (\<lambda>k v. if map_of a k = Some v then None else Some v)) b []"
  unfolding inner_remainder_def insert_mapped_def
  by (rule arg_cong [where f = "\<lambda>f. fold f b []"]) (auto simp: fun_eq_iff)

lemma remainder_step_eq:
  "remainder_step red = insert_mapped (\<lambda>k. remainder_value (map_of red k))"
  unfolding remainder_step_def insert_mapped_def remainder_value_def
  by (auto simp: fun_eq_iff Let_def split: option.splits json.splits)

lemma recover_member:
  assumes "json_wf (Object b)" "json_wf (Object a)"
    and sub: "\<And>k v. map_of a k = Some v \<Longrightarrow> map_of b k = Some v"
  shows "fold (update_with (\<lambda>_ w. w)) (inner_remainder a b) a = b"
proof (rule bm_inv_unique)
  let ?r = "inner_remainder a b"
  have b: "bm_inv b" and a: "bm_inv a" using assms by auto
  have r: "bm_inv ?r" and mr: "map_of ?r k =
      Option.bind (map_of b k) (\<lambda>v. if map_of a k = Some v then None else Some v)" for k
    unfolding inner_remainder_fold by (rule insert_mapped_all [OF b])+
  show "bm_inv (fold (update_with (\<lambda>_ w. w)) ?r a)"
    by (rule fold_update_with) (use a r bm_inv_distinct in auto)
  have "map_of (fold (update_with (\<lambda>_ w. w)) ?r a) k = map_of b k" for k
    using fold_update_with(2) [OF bm_inv_distinct [OF r] a, of "\<lambda>_ w. w" k] sub [of k] mr [of k]
    by (cases "map_of b k"; cases "map_of a k") auto
  then show "map_of (fold (update_with (\<lambda>_ w. w)) ?r a) = map_of b" by blast
qed (use assms in auto)

lemma recover_remainder:
  assumes wf: "json_wf (Object m)" and r: "json_wf (Object r)"
    and sub: "\<And>k v. map_of r k = Some v \<Longrightarrow> \<exists>w. map_of m k = Some w \<and>
       (v = w \<or> (\<exists>a b. v = Object a \<and> w = Object b \<and> (\<forall>l x. map_of a l = Some x \<longrightarrow> map_of b l = Some x)))"
  shows "recover_content (Object r, redactable_content_remainder (Object m) (Object r)) = Object m"
proof -
  have im: "bm_inv m" and ir: "bm_inv r" using wf r by auto
  let ?q = "fold (insert_mapped (\<lambda>k. remainder_value (map_of r k))) m []"
  have q: "redactable_content_remainder (Object m) (Object r) = Object ?q"
    by (simp add: redactable_content_remainder_def remainder_step_eq)
  have iq: "bm_inv ?q" and mq: "map_of ?q k = Option.bind (map_of m k) (remainder_value (map_of r k))" for k
    by (rule insert_mapped_all [OF im])+
  let ?res = "fold (update_with inner_merge) ?q r"
  have "map_of ?res k = map_of m k" for k
  proof -
    have res: "map_of ?res k = (case map_of ?q k of None \<Rightarrow> map_of r k
        | Some v \<Rightarrow> Some (inner_merge (map_of r k) v))"
      by (rule fold_update_with(2)) (use iq ir bm_inv_distinct in auto)
    show ?thesis
    proof (cases "map_of r k")
      case None
      then show ?thesis
        using res mq [of k] by (cases "map_of m k") (simp_all add: remainder_value_def inner_merge_def)
    next
      case (Some v)
      then obtain w where w: "map_of m k = Some w" and
        vw: "v = w \<or> (\<exists>a b. v = Object a \<and> w = Object b \<and> (\<forall>l x. map_of a l = Some x \<longrightarrow> map_of b l = Some x))"
        using sub by blast
      show ?thesis
      proof (cases "v = w")
        case True
        then show ?thesis using Some w res mq [of k] by (simp add: remainder_value_def)
      next
        case False
        then obtain a b where ab: "v = Object a" "w = Object b"
          "\<And>l x. map_of a l = Some x \<Longrightarrow> map_of b l = Some x" using vw by blast
        have "json_wf (Object b)" "json_wf (Object a)"
          using w Some ab json_wf_member [OF wf w] json_wf_member [OF r Some] by simp_all
        then have rec: "fold (update_with (\<lambda>_ w. w)) (inner_remainder a b) a = b"
          using recover_member ab(3) by blast
        then have ne: "inner_remainder a b \<noteq> []" using False ab by auto
        have "map_of ?q k = Some (Object (inner_remainder a b))"
          using w Some ab False ne mq [of k] by (simp add: remainder_value_def Let_def)
        then show ?thesis using res Some w ab rec by (simp add: inner_merge_def)
      qed
    qed
  qed
  moreover have "bm_inv ?res" by (rule fold_update_with) (use iq ir bm_inv_distinct in auto)
  ultimately have "?res = m" using im by (intro bm_inv_unique) auto
  then show ?thesis by (simp add: q recover_content_def)
qed

lemma redact_content_sub:
  assumes "json_wf content" "rule_ok rule" "get k (redact_content content rule) = Some v"
  shows "\<exists>w. get k content = Some w \<and>
       (v = w \<or> (\<exists>a b. v = Object a \<and> w = Object b \<and> (\<forall>l x. map_of a l = Some x \<longrightarrow> map_of b l = Some x)))"
proof (cases rule)
  case (RuleKeys ps)
  with assms have "preserved_value content ps k = Some v"
    using get_redact_content_keys [of content ps k] by (simp add: rule_ok_def)
  then show ?thesis
    by (auto simp: preserved_value_def Let_def map_of_filter_key
        split: option.splits json.splits if_splits)
next
  case RuleNone
  with assms show ?thesis by (simp add: redact_content_def get_def)
next
  case RuleAll
  with assms show ?thesis by (simp add: redact_content_def)
qed

lemma split_redaction_content_recover:
  assumes "json_wf (Object m)"
  shows "recover_content (split_redaction_content (Object m) event_type room_version) = Object m"
proof -
  let ?rule = "redaction_preserved_keys event_type room_version"
  note ok = rule_ok_preserved_keys [of event_type room_version]
  have "\<exists>r. redact_content (Object m) ?rule = Object r"
    by (cases ?rule) (simp_all add: redact_content_def)
  then obtain r where r: "redact_content (Object m) ?rule = Object r" by blast
  have "recover_content (Object r, redactable_content_remainder (Object m) (Object r)) = Object m"
  proof (rule recover_remainder [OF assms])
    show "json_wf (Object r)" using json_wf_redact_content [OF assms ok] r by simp
  qed (use redact_content_sub [OF assms ok] r in \<open>simp add: get_def\<close>)
  then show ?thesis by (simp add: split_redaction_content_def r Let_def)
qed

section \<open>The streaming writer writes the redacted event\<close>

definition unsigned_members :: "(string \<times> json) list \<Rightarrow> (string \<times> json) list" where
  "unsigned_members m = filter (\<lambda>e. fst e \<noteq> FIELD_SIGNATURES) m"

fun streamed :: "(string \<Rightarrow> bool) \<Rightarrow> redaction_rule \<Rightarrow> bool \<Rightarrow> (string \<times> json) list \<Rightarrow> (string \<times> json) list" where
  "streamed keep rule cw [] = (if cw then [] else [(FIELD_CONTENT, Object [])])"
| "streamed keep rule cw ((key, v) # obj) =
     (let missing = \<not> cw \<and> FIELD_CONTENT < key; cw1 = (cw \<or> missing)
      in (if missing then [(FIELD_CONTENT, Object [])] else []) @
         (if keep key then [(key, if key = FIELD_CONTENT then redact_content v rule else v)] else []) @
         streamed keep rule (cw1 \<or> keep key \<and> key = FIELD_CONTENT) obj)"

lemma write_redacted_members_eq:
  "write_redacted_members keep rule strict first cw obj =
     write_members strict first (streamed keep rule cw obj)"
proof (induction obj arbitrary: first cw)
  case (Cons e obj)
  obtain key v where e: "e = (key, v)" by (cases e)
  let ?v = "if key = FIELD_CONTENT then redact_content v rule else v"
  show ?case
    unfolding e write_redacted_members.simps streamed.simps Let_def Cons.IH
    by (cases "write_json_value strict ?v"; cases "\<not> cw \<and> FIELD_CONTENT < key"; cases "keep key")
      (auto simp: empty_content_field_def rbind_def split: sum.split)
qed (simp add: empty_content_field_def)

lemma streamed_keys:
  "k \<in> fst ` set (streamed keep rule cw obj) \<Longrightarrow> k \<in> fst ` set obj \<or> k = FIELD_CONTENT \<and> \<not> cw"
  by (induction keep rule cw obj rule: streamed.induct) (auto simp: Let_def split: if_splits)

lemma streamed_sorted:
  assumes "bm_inv obj" "cw \<Longrightarrow> \<forall>k \<in> fst ` set obj. FIELD_CONTENT < k" "keep FIELD_CONTENT"
  shows "bm_inv (streamed keep rule cw obj) \<and> map_of (streamed keep rule cw obj) k =
      (if k = FIELD_CONTENT then
         (if cw then None else Some (case map_of obj k of None \<Rightarrow> Object [] | Some v \<Rightarrow> redact_content v rule))
       else if keep k then map_of obj k else None)"
  using assms(1,2)
proof (induction obj arbitrary: cw)
  case Nil
  then show ?case by (simp add: bm_inv_def)
next
  case (Cons e obj)
  obtain key v where e: "e = (key, v)" by (cases e)
  have key: "\<forall>l \<in> fst ` set obj. key < l" and inv: "bm_inv obj"
    using Cons.prems(1) by (auto simp: e bm_inv_Cons)
  have notin: "map_of obj key = None" using key by (force simp: map_of_eq_None_iff)
  note keys = streamed_keys [of _ keep rule _ obj]
  consider (written) "cw" "FIELD_CONTENT < key" | (before) "\<not> cw" "key < FIELD_CONTENT"
    | (at) "\<not> cw" "key = FIELD_CONTENT" | (after) "\<not> cw" "FIELD_CONTENT < key"
    using Cons.prems(2) less_linear [of key FIELD_CONTENT] by (cases cw) (auto simp: e)
  then show ?case
  proof cases
    case written
    with key have "\<forall>l \<in> fst ` set obj. FIELD_CONTENT < l" by fastforce
    note IH = Cons.IH [OF inv this, of True]
    have "\<forall>l \<in> fst ` set (streamed keep rule True obj). key < l" using keys key by blast
    with written IH notin show ?thesis by (auto simp: e Let_def bm_inv_Cons)
  next
    case before
    note IH = Cons.IH [OF inv, of False]
    have "\<forall>l \<in> fst ` set (streamed keep rule False obj). key < l"
    proof
      fix l assume "l \<in> fst ` set (streamed keep rule False obj)"
      then have "l \<in> fst ` set obj \<or> l = FIELD_CONTENT" using keys by fast
      with key before show "key < l" by fast
    qed
    with before IH notin show ?thesis by (auto simp: e Let_def bm_inv_Cons)
  next
    case at
    note IH = Cons.IH [OF inv, of True]
    have "\<forall>l \<in> fst ` set (streamed keep rule True obj). FIELD_CONTENT < l"
      using key at keys by blast
    with at IH key notin assms(3) show ?thesis
      by (auto simp: e Let_def bm_inv_Cons)
  next
    case after
    then have gt: "\<forall>l \<in> fst ` set obj. FIELD_CONTENT < l" using key by fastforce
    note IH = Cons.IH [OF inv gt, of True]
    have "map_of obj FIELD_CONTENT = None" using gt by (force simp: map_of_eq_None_iff)
    moreover have "\<forall>l \<in> fst ` set (streamed keep rule True obj). key < l" using keys key by blast
    ultimately show ?thesis
      using after gt IH key notin by (auto simp: e Let_def bm_inv_Cons)
  qed
qed

lemma take_keys:
  "bm_inv out \<Longrightarrow> bm_inv (fold (take_key obj) ks out) \<and>
   map_of (fold (take_key obj) ks out) k = (if k \<in> set ks \<and> map_of obj k \<noteq> None then map_of obj k else map_of out k)"
  by (induction ks arbitrary: out) (auto simp: take_key_def map_lookups bm_inv_insert split: option.split)

lemma redact_top_level_lookup:
  "bm_inv (redact_top_level (Object obj) rv)"
  "map_of (redact_top_level (Object obj) rv) k =
     (if keep_top_level obj rv k \<or> k = FIELD_SIGNATURES then map_of obj k else None)"
proof -
  show "bm_inv (redact_top_level (Object obj) rv)"
    by (simp add: redact_top_level_def take_keys)
  have "k \<in> set (top_level_keys obj rv) \<longleftrightarrow> keep_top_level obj rv k \<or> k = FIELD_SIGNATURES"
    by (auto simp: top_level_keys_def keep_top_level_def)
  then show "map_of (redact_top_level (Object obj) rv) k =
     (if keep_top_level obj rv k \<or> k = FIELD_SIGNATURES then map_of obj k else None)"
    by (auto simp: redact_top_level_def take_keys)
qed

lemma redact_json_lookup:
  "\<exists>m. redact_json (Object obj) rv = Object m \<and> bm_inv m \<and>
     (\<forall>k. map_of m k =
       (if k = FIELD_CONTENT then Some (case map_of obj k of
            None \<Rightarrow> Object []
          | Some v \<Rightarrow> redact_content v (redaction_preserved_keys (type_of_value (Object obj)) rv))
        else if keep_top_level obj rv k \<or> k = FIELD_SIGNATURES then map_of obj k else None))"
  by (simp add: redact_json_def Let_def map_lookups redact_top_level_lookup bm_inv_insert
      keep_top_level_def)

definition without_signatures :: "json \<Rightarrow> json" where
  "without_signatures v = (case v of Object m \<Rightarrow> Object (unsigned_members m) | _ \<Rightarrow> v)"

lemma write_redacted_canonical_eq:
  assumes "bm_inv obj"
  shows "write_redacted_canonical (Object obj) rv =
    write_json_value (room_version_is_v6_or_later rv) (without_signatures (redact_json (Object obj) rv))"
proof -
  let ?rule = "redaction_preserved_keys (type_of_value (Object obj)) rv"
  let ?s = "streamed (keep_top_level obj rv) ?rule False obj"
  have keep: "keep_top_level obj rv FIELD_CONTENT" by (simp add: keep_top_level_def)
  have s: "bm_inv ?s" "map_of ?s k = (if k = FIELD_CONTENT
      then Some (case map_of obj k of None \<Rightarrow> Object [] | Some v \<Rightarrow> redact_content v ?rule)
      else if keep_top_level obj rv k then map_of obj k else None)" for k
    using streamed_sorted [of obj False "keep_top_level obj rv" ?rule k] assms keep by simp_all
  obtain m where m: "redact_json (Object obj) rv = Object m" "bm_inv m"
    "map_of m k = (if k = FIELD_CONTENT
      then Some (case map_of obj k of None \<Rightarrow> Object [] | Some v \<Rightarrow> redact_content v ?rule)
      else if keep_top_level obj rv k \<or> k = FIELD_SIGNATURES then map_of obj k else None)" for k
    using redact_json_lookup [of obj rv] by blast
  have "unsigned_members m = ?s"
  proof (rule bm_inv_unique)
    show "bm_inv (unsigned_members m)" using m(2) by (simp add: unsigned_members_def bm_inv_filter)
    have "\<not> keep_top_level obj rv FIELD_SIGNATURES" by (simp add: keep_top_level_def)
    then show "map_of (unsigned_members m) = map_of ?s"
      using m(3) s(2) map_of_filter_key [of "\<lambda>k. k \<noteq> FIELD_SIGNATURES" m]
      by (auto simp: unsigned_members_def fun_eq_iff)
  qed (rule s(1))
  then show ?thesis
    by (simp add: write_redacted_canonical_def write_redacted_members_eq m(1) without_signatures_def)
qed

lemma redact_content_empty [simp]: "redact_content (Object []) rule = Object []"
proof (cases rule)
  case (RuleKeys ps)
  have "fold (redact_path (Object [])) ps [] = []"
    by (induction ps) (auto simp: redact_path_def get_def split: option.split)
  with RuleKeys show ?thesis by (simp add: redact_content_def)
qed (simp_all add: redact_content_def)

lemma redact_json_idem:
  assumes "json_wf v"
  shows "redact_json (redact_json v rv) rv = redact_json v rv"
proof (cases "\<exists>obj. v = Object obj")
  case True
  then obtain obj where v: "v = Object obj" by blast
  let ?rule = "redaction_preserved_keys (type_of_value (Object obj)) rv"
  obtain m where m: "redact_json (Object obj) rv = Object m" "bm_inv m"
    "map_of m k = (if k = FIELD_CONTENT
      then Some (case map_of obj k of None \<Rightarrow> Object [] | Some v \<Rightarrow> redact_content v ?rule)
      else if keep_top_level obj rv k \<or> k = FIELD_SIGNATURES then map_of obj k else None)" for k
    using redact_json_lookup [of obj rv] by blast
  have ty: "map_of m FIELD_TYPE = map_of obj FIELD_TYPE"
    using m(3) [of FIELD_TYPE] by (simp add: keep_top_level_def)
  then have rule: "type_of_value (Object m) = type_of_value (Object obj)"
    and keep: "keep_top_level m rv k = keep_top_level obj rv k" for k
    by (simp_all add: type_of_value_def get_str_def get_def keep_top_level_def is_v12_create_def)
  obtain n where n: "redact_json (Object m) rv = Object n" "bm_inv n"
    "map_of n k = (if k = FIELD_CONTENT
      then Some (case map_of m k of None \<Rightarrow> Object [] | Some v \<Rightarrow> redact_content v ?rule)
      else if keep_top_level obj rv k \<or> k = FIELD_SIGNATURES then map_of m k else None)" for k
    using redact_json_lookup [of m rv] unfolding rule keep by blast
  have idem: "redact_content (redact_content w ?rule) ?rule = redact_content w ?rule"
    if "map_of obj k = Some w" for k w
    using that assms v json_wf_member by (blast intro: redact_content_idem rule_ok_preserved_keys)
  have "map_of n k = map_of m k" for k
    using m(3) [of k] n(3) [of k] idem [of k] by (auto split: option.splits)
  then have "n = m" using m(2) n(2) by (intro bm_inv_unique) blast+
  then show ?thesis using v m(1) n(1) by simp
next
  case False
  then have "redact_json v rv = Object [(FIELD_CONTENT, Object [])]" "type_of_value v = []"
    by (cases v; simp add: redact_json_def redact_top_level_def type_of_value_def get_str_def get_def Let_def)+
  moreover have "redact_json (Object [(FIELD_CONTENT, Object [])]) rv = Object [(FIELD_CONTENT, Object [])]"
  proof -
    let ?m = "[(FIELD_CONTENT, Object [])]"
    obtain n where n: "redact_json (Object ?m) rv = Object n" "bm_inv n"
      and l: "map_of n k = (if k = FIELD_CONTENT then Some (Object []) else None)" for k
      using redact_json_lookup [of ?m rv] by auto
    have "map_of n = map_of ?m" using l by (intro ext) simp
    moreover have "bm_inv ?m" by (simp add: bm_inv_def)
    ultimately show ?thesis using n bm_inv_unique [of n ?m] by simp
  qed
  ultimately show ?thesis by simp
qed

lemma write_redacted_canonical_redacted:
  assumes "json_wf (Object obj)"
  shows "write_redacted_canonical (redact_json (Object obj) rv) rv = write_redacted_canonical (Object obj) rv"
proof -
  obtain m where m: "redact_json (Object obj) rv = Object m" "bm_inv m"
    using redact_json_lookup [of obj rv] by blast
  have "bm_inv obj" using assms by simp
  then show ?thesis
    using write_redacted_canonical_eq [of m rv] write_redacted_canonical_eq [of obj rv] m
      redact_json_idem [OF assms, of rv] by simp
qed

section \<open>What redaction keeps for the authorization rules\<close>

lemma get_redact_plain:
  assumes "json_wf c" "paths_ok ps" "k \<in> set ps" "CHR ''.'' \<notin> set k"
  shows "get k (redact_content c (RuleKeys ps)) = get k c"
  using assms get_redact_content_keys [OF assms(1,2), of k]
  by (simp add: preserved_value_def plain_path_def rsplit_once_None)

definition protected_keys :: "string \<Rightarrow> string list" where
  "protected_keys event_type =
     (if event_type = M_ROOM_POWER_LEVELS
      then [FIELD_BAN, FIELD_EVENTS, FIELD_EVENTS_DEFAULT, FIELD_KICK, FIELD_REDACT,
            FIELD_STATE_DEFAULT, FIELD_USERS, FIELD_USERS_DEFAULT]
      else if event_type = M_ROOM_MEMBER then [FIELD_MEMBERSHIP]
      else if event_type = M_ROOM_JOIN_RULES then [FIELD_JOIN_RULE]
      else if event_type = M_ROOM_CREATE then [FIELD_CREATOR]
      else [])"

lemma protected_keys_kept:
  assumes "parse_format rv = Some f"
  shows "redaction_preserved_keys t rv = RuleAll \<or>
    (\<exists>ps. redaction_preserved_keys t rv = RuleKeys ps \<and> set (protected_keys t) \<subseteq> set ps) \<or>
    protected_keys t = []"
  using assms
  by (cases f) (auto simp: redaction_preserved_keys_def numeric_redaction_rule_def
      msc3389_redaction_rule_def protected_keys_def)

lemma protected_keys_plain: "k \<in> set (protected_keys t) \<Longrightarrow> CHR ''.'' \<notin> set k"
  by (auto simp: protected_keys_def split: if_splits)

lemma redacted_simps [simp]:
  "ev_id (redacted ev rv) = ev_id ev" "ev_sender (redacted ev rv) = ev_sender ev"
  "ev_type (redacted ev rv) = ev_type ev" "ev_rejected (redacted ev rv) = ev_rejected ev"
  by (simp_all add: redacted_def)

lemma redacted_keeps_protected:
  assumes "json_wf (ev_content ev)" "is_supported_room_version rv" "k \<in> set (protected_keys (ev_type ev))"
  shows "get k (ev_content (redacted ev rv)) = get k (ev_content ev)"
proof -
  let ?rule = "redaction_preserved_keys (ev_type ev) rv"
  obtain f where "parse_format rv = Some f" using assms(2) by (auto simp: is_supported_room_version_def)
  from protected_keys_kept [OF this, of "ev_type ev"] assms(3)
  consider "?rule = RuleAll" | ps where "?rule = RuleKeys ps" "k \<in> set ps" by auto
  then show ?thesis
  proof cases
    case 2
    then have "paths_ok ps" using rule_ok_preserved_keys [of "ev_type ev" rv] by (simp add: rule_ok_def)
    with 2 assms(1,3) show ?thesis
      by (simp add: redacted_def get_redact_plain protected_keys_plain)
  qed (simp add: redacted_def redact_content_def)
qed

section \<open>Properties\<close>

text \<open>C6: redacting an event never changes its event id. The reference hash, from which the id of an
  event is derived in room versions 3 and later, is the same for a PDU and for its redaction, in
  every room version and for every hash function, errors included.\<close>

theorem reference_hash_redact_invariant:
  assumes "json_wf (Object obj)"
  shows "reference_hash h (redact_json (Object obj) rv) rv = reference_hash h (Object obj) rv"
  by (simp add: reference_hash_def reference_hash_digest_def write_redacted_canonical_redacted [OF assms])

definition sample_pdu :: "(string \<times> json) list" where
  "sample_pdu =
     [(''content'', Object [(''body'', String ''hi''), (''membership'', String ''join'')]),
      (''depth'', Number ''3''), (''sender'', String ''a''), (''type'', String ''m.room.member''),
      (''unsigned'', Object [])]"

definition sample_hashes :: hash_env where
  "sample_hashes = \<lparr>sha256 = rev, base64_standard = id, base64_url_safe = id\<rparr>"

theorem reference_hash_redact_invariant_witness:
  "json_wf (Object sample_pdu) \<and>
   redact_json (Object sample_pdu) ''10'' \<noteq> Object sample_pdu \<and>
   reference_hash sample_hashes (redact_json (Object sample_pdu) ''10'') ''10''
     = reference_hash sample_hashes (Object sample_pdu) ''10''"
proof -
  have wf: "json_wf (Object sample_pdu)" by (simp add: sample_pdu_def bm_inv_def)
  have "get ''unsigned'' (redact_json (Object sample_pdu) ''10'') \<noteq> get ''unsigned'' (Object sample_pdu)"
    by code_simp
  then show ?thesis
    using wf reference_hash_redact_invariant [OF wf, of sample_hashes "''10''"] by auto
qed

text \<open>C40: the streaming writer of redacted events, which filters keys and inserts an absent content
  while it walks the members once, writes exactly the bytes, and fails with exactly the error, of
  the canonical writer on the redaction of the event with its signatures removed.\<close>

theorem write_redacted_canonical_streams:
  assumes "bm_inv obj"
  shows "write_redacted_canonical (Object obj) rv =
    write_json_value (room_version_is_v6_or_later rv)
      (without_signatures (redact_json (Object obj) rv))"
  using assms by (rule write_redacted_canonical_eq)

theorem write_redacted_canonical_streams_witness:
  "bm_inv sample_pdu \<and> write_redacted_canonical (Object sample_pdu) ''10'' =
    write_json_value (room_version_is_v6_or_later ''10'')
      (without_signatures (redact_json (Object sample_pdu) ''10''))"
  using write_redacted_canonical_streams [of sample_pdu "''10''"]
  by (simp add: sample_pdu_def bm_inv_def)

text \<open>nothing is lost by the MSC4511 split. Overlaying the redactable half of a content object on
  its redacted half, member by member, gives back the content, for every event type and room
  version.\<close>

lemma split_redaction_content_recovers:
  assumes "json_wf (Object m)"
  shows "recover_content (split_redaction_content (Object m) event_type room_version) = Object m"
  using assms by (rule split_redaction_content_recover)

lemma split_redaction_content_recovers_witness:
  "json_wf (Object [(''third_party_invite'', Object [(''display_name'', Null), (''signed'', Null)])]) \<and>
   recover_content (split_redaction_content
     (Object [(''third_party_invite'', Object [(''display_name'', Null), (''signed'', Null)])])
     M_ROOM_MEMBER ''11'')
   = Object [(''third_party_invite'', Object [(''display_name'', Null), (''signed'', Null)])]"
  using split_redaction_content_recovers
    [of "[(''third_party_invite'', Object [(''display_name'', Null), (''signed'', Null)])]"
      M_ROOM_MEMBER "''11''"]
  by (simp add: bm_inv_def)

end
