(* ===== verification/Event_Pdu.thy ===== *)
theory Event_Pdu
  imports Redaction_Correct
begin

text \<open>
  From raw PDUs to events: \<open>LeanEvent::from_value\<close>, which parses a PDU and derives a missing event id
  from the reference hash, and the ingest path \<open>ingest_events\<close> with its shape check, syntactic
  validation and content hash verification. Parsing errors are strings, as in the source.
\<close>

section \<open>Parsing a PDU\<close>

definition value_event_id :: "hash_env \<Rightarrow> json \<Rightarrow> string option \<Rightarrow> (string, string) result" where
  "value_event_id h value room_version = (case get_str FIELD_EVENT_ID value of
       Some i \<Rightarrow> Inr i
     | None \<Rightarrow> (case room_version of
         Some ver \<Rightarrow> rbind (reference_hash h value ver) (\<lambda>hash. Inr (CHR ''$'' # hash))
       | None \<Rightarrow> Inl (''event_id is required; pass `room_version` to `from_value` to derive it via '' @
                      ''the reference hash'')))"

definition value_power_level :: "json \<Rightarrow> (string, int) result" where
  "value_power_level value = (case get FIELD_POWER_LEVEL value of
       None \<Rightarrow> Inr 0
     | Some pl \<Rightarrow> (case as_i64 pl of
         Some i \<Rightarrow> Inr (min i MAX_POWER_LEVEL_JSON)
       | None \<Rightarrow> (case as_u64 pl of
           Some u \<Rightarrow> Inr (min (if u \<le> I64_MAX then u else MAX_POWER_LEVEL_JSON) MAX_POWER_LEVEL_JSON)
         | None \<Rightarrow> (case as_str pl of
             Some s \<Rightarrow> (case parse_i64 s of
                 Some i \<Rightarrow> Inr (min i MAX_POWER_LEVEL_JSON)
               | None \<Rightarrow> Inr 0)
           | None \<Rightarrow> Inl ''invalid power_level type''))))"

definition value_top_level_redacts :: "json \<Rightarrow> (string, string option) result" where
  "value_top_level_redacts value = (case get FIELD_REDACTS value of
       None \<Rightarrow> Inr None
     | Some redacts \<Rightarrow>
         rbind (ok_or ''m.room.redaction redacts must be a string'' (as_str redacts))
           (\<lambda>s. Inr (Some s)))"

definition merge_redacts :: "json \<Rightarrow> string option \<Rightarrow> (string, json) result" where
  "merge_redacts content top_level_redacts = (case content of
       Object obj \<Rightarrow> (case map_of obj FIELD_REDACTS of
           Some existing \<Rightarrow>
             rbind (ok_or ''m.room.redaction content.redacts must be a string'' (as_str existing))
               (\<lambda>existing_redacts. case top_level_redacts of
                    Some r \<Rightarrow>
                      if existing_redacts \<noteq> r
                      then Inl (''m.room.redaction redacts mismatch between top-level field and '' @
                                ''content'')
                      else Inr content
                  | None \<Rightarrow> Inr content)
         | None \<Rightarrow> (case top_level_redacts of
               Some r \<Rightarrow> Inr (Object (bm_insert FIELD_REDACTS (String r) obj))
             | None \<Rightarrow> Inr content))
     | Null \<Rightarrow> (case top_level_redacts of
           Some r \<Rightarrow> Inr (Object (bm_insert FIELD_REDACTS (String r) []))
         | None \<Rightarrow> Inr content)
     | _ \<Rightarrow> Inl ''m.room.redaction content must be an object or null'')"

definition value_content :: "json \<Rightarrow> string \<Rightarrow> (string, json) result" where
  "value_content value event_type =
     (let content = (case get FIELD_CONTENT value of Some c \<Rightarrow> c | None \<Rightarrow> Null)
      in if event_type = M_ROOM_REDACTION
         then rbind (value_top_level_redacts value) (merge_redacts content)
         else Inr content)"

definition parse_string_array :: "json \<Rightarrow> string \<Rightarrow> string list" where
  "parse_string_array value key = (case Option.bind (get key value) as_array of
       Some arr \<Rightarrow> List.map_filter as_str arr
     | None \<Rightarrow> [])"

definition value_depth :: "json \<Rightarrow> (string, int) result" where
  "value_depth value = (case get FIELD_DEPTH value of
       Some depth \<Rightarrow> ok_or ''invalid depth value'' (as_u64 depth)
     | None \<Rightarrow> Inr 0)"

definition value_flag :: "json \<Rightarrow> string \<Rightarrow> string \<Rightarrow> bool" where
  "value_flag value field fallback =
     (case Option.bind (case get field value of Some v \<Rightarrow> Some v | None \<Rightarrow> get fallback value) as_bool of
        Some b \<Rightarrow> b
      | None \<Rightarrow> False)"

definition from_value :: "hash_env \<Rightarrow> json \<Rightarrow> string option \<Rightarrow> (string, lean_event) result" where
  "from_value h value room_version =
     (let is_msc4242 = (case room_version of Some rv \<Rightarrow> is_msc4242_room_version rv | None \<Rightarrow> False)
      in if is_msc4242 \<and> get FIELD_AUTH_EVENTS value \<noteq> None
         then Inl ''auth_events is not permitted in MSC4242 events; use prev_state_events''
         else
           rbind (value_event_id h value room_version) (\<lambda>event_id.
           let event_type = type_of_value value
           in if event_type = [] then Inl ''event_type cannot be missing or empty''
              else
                rbind (value_power_level value) (\<lambda>power_level.
                rbind (value_content value event_type) (\<lambda>content.
                rbind (value_depth value) (\<lambda>depth.
                  Inr \<lparr>ev_id = event_id, ev_type = event_type,
                       ev_state_key = get_str FIELD_STATE_KEY value,
                       ev_power_level = power_level,
                       ev_origin_server_ts =
                         (case Option.bind (get FIELD_ORIGIN_SERVER_TS value) as_u64 of
                            Some ts \<Rightarrow> ts | None \<Rightarrow> 0),
                       ev_sender = (case get_str FIELD_SENDER value of Some s \<Rightarrow> s | None \<Rightarrow> []),
                       ev_content = content,
                       ev_prev_events = parse_string_array value FIELD_PREV_EVENTS,
                       ev_auth_events =
                         (if is_msc4242 then parse_string_array value FIELD_PREV_STATE_EVENTS
                          else parse_string_array value FIELD_AUTH_EVENTS),
                       ev_depth = depth,
                       ev_rejected = value_flag value FIELD_REJECTED ''rejected'',
                       ev_soft_fail = value_flag value FIELD_SOFT_FAIL ''soft_fail'',
                       ev_room_id = None\<rparr>)))))"

section \<open>Ingest\<close>

fun missing_field :: "json \<Rightarrow> string list \<Rightarrow> string option" where
  "missing_field value [] = None"
| "missing_field value (field # fs) =
     (if get field value = None then Some field else missing_field value fs)"

definition validate_raw_pdu_shape :: "json \<Rightarrow> (string, unit) result" where
  "validate_raw_pdu_shape value =
     (case missing_field value [''type'', ''sender'', ''content'', ''origin_server_ts''] of
        Some field \<Rightarrow> Inl (''missing required PDU field: '' @ field)
      | None \<Rightarrow>
          if get_str ''type'' value = None \<or> get_str ''sender'' value = None
          then Inl ''PDU type and sender must be strings''
          else Inr ())"

definition derives_event_ids :: "string \<Rightarrow> bool" where
  "derives_event_ids room_version = (case parse_format room_version of
       None \<Rightarrow> False
     | Some f \<Rightarrow> uses_reference_hash_event_ids f)"

definition ingest_event ::
  "hash_env \<Rightarrow> string \<Rightarrow> string option \<Rightarrow> json \<Rightarrow> (string, lean_event) result" where
  "ingest_event h room_version room_id pdu =
     ok_then (map_err (\<lambda>e. ''invalid PDU: '' @ e) (validate_raw_pdu_shape pdu))
       (if derives_event_ids room_version \<and> get FIELD_EVENT_ID pdu \<noteq> None
        then Inl ''event_id must be omitted from federation PDUs in room versions v3 and later''
        else rbind (from_value h pdu (Some room_version)) (\<lambda>event.
             rbind (map_err (\<lambda>e. ''invalid PDU: '' @ e) (validate_syntactic event room_version)) (\<lambda>_.
             ok_then (if get FIELD_HASHES pdu \<noteq> None then verify_content_hash h pdu room_version
                      else Inr ())
               (Inr (event\<lparr>ev_room_id := room_id\<rparr>)))))"

fun ingest_events ::
  "hash_env \<Rightarrow> json list \<Rightarrow> string \<Rightarrow> string option \<Rightarrow> (string, lean_event list) result" where
  "ingest_events h [] room_version room_id = Inr []"
| "ingest_events h (pdu # pdus) room_version room_id =
     rbind (ingest_event h room_version room_id pdu) (\<lambda>event.
     rbind (ingest_events h pdus room_version room_id) (\<lambda>events. Inr (event # events)))"

section \<open>Syntactic validation\<close>

lemma is_valid_mxid_acceptable: "is_valid_mxid uid \<Longrightarrow> is_acceptable_historical_mxid uid"
proof -
  have "\<not> is_localpart_byte CHR 0x00" by code_simp
  then show "is_valid_mxid uid \<Longrightarrow> is_acceptable_historical_mxid uid"
    by (auto simp: is_valid_mxid_def is_acceptable_historical_mxid_def list_all_iff
        split: option.splits)
qed

definition oversized :: "warning list \<Rightarrow> warning list" where
  "oversized ws = filter (\<lambda>w. case w of OversizedFieldPreV11 _ _ _ _ \<Rightarrow> True | _ \<Rightarrow> False) ws"

definition oversized_fields :: "lean_event \<Rightarrow> (string \<times> string) list \<Rightarrow> warning list" where
  "oversized_fields ev fs =
     map (\<lambda>(v, f). OversizedFieldPreV11 (ev_id ev) f (length v) 255)
       (filter (\<lambda>(v, f). length v > 255) fs)"

lemma validate_mxid_Inr:
  "validate_mxid ev mxid field ws = Inr ws' \<Longrightarrow>
     is_acceptable_historical_mxid mxid \<and> oversized ws' = oversized ws"
  by (auto simp: validate_mxid_def is_valid_mxid_acceptable oversized_def
      split: if_splits mxid_field.splits)

lemma validate_create_identifiers_Inr:
  "validate_create_identifiers ev rv ws = Inr ws' \<Longrightarrow> oversized ws' = oversized ws"
  by (auto simp: validate_create_identifiers_def dest: validate_mxid_Inr
      split: if_splits option.splits)

lemma validate_each_length_Inr:
  "validate_each_length ev strict fs ws = Inr ws' \<Longrightarrow>
     oversized ws' = oversized ws @ oversized_fields ev fs \<and>
     (strict \<longrightarrow> (\<forall>(v, f) \<in> set fs. length v \<le> 255))"
proof (induction ev strict fs ws rule: validate_each_length.induct)
  case (2 ev strict v f fs ws)
  then show ?case
    by (auto simp: validate_field_length_def oversized_fields_def oversized_def split: if_splits)
qed (simp add: oversized_fields_def)

lemma validate_syntactic_Inr:
  assumes "validate_syntactic ev rv = Inr ws"
  shows "validate_structure ev rv = Inr ()" "starts_with CHR ''$'' (ev_id ev)"
    "is_acceptable_historical_mxid (ev_sender ev)" "ev_depth ev \<le> MAX_SAFE_JSON_INTEGER"
    "oversized ws = oversized_fields ev (length_checked_fields ev)"
    "room_version_is_v11_or_later rv \<Longrightarrow> \<forall>(v, f) \<in> set (length_checked_fields ev). length v \<le> 255"
proof -
  from assms obtain w1 where st: "validate_structure ev rv = Inr ()"
    and w1: "validate_identifiers ev rv [] = Inr w1" and d: "ev_depth ev \<le> MAX_SAFE_JSON_INTEGER"
    and w: "validate_field_lengths ev rv w1 = Inr ws"
    by (auto simp: validate_syntactic_def split: if_splits)
  from w1 obtain w0 where s: "starts_with CHR ''$'' (ev_id ev)"
    and w0: "validate_mxid ev (ev_sender ev) Sender [] = Inr w0"
    and wc: "validate_create_identifiers ev rv w0 = Inr w1"
    by (auto simp: validate_identifiers_def split: if_splits)
  note len = validate_each_length_Inr [OF w [unfolded validate_field_lengths_def]]
  show "validate_structure ev rv = Inr ()" "starts_with CHR ''$'' (ev_id ev)"
    "is_acceptable_historical_mxid (ev_sender ev)" "ev_depth ev \<le> MAX_SAFE_JSON_INTEGER"
    "oversized ws = oversized_fields ev (length_checked_fields ev)"
    "room_version_is_v11_or_later rv \<Longrightarrow> \<forall>(v, f) \<in> set (length_checked_fields ev). length v \<le> 255"
    using st s d validate_mxid_Inr [OF w0] validate_create_identifiers_Inr [OF wc] len
    by (auto simp: oversized_def)
qed

text \<open>an event that passes syntactic validation is within the limits of its room version: it has at
  most 20 previous events and at most 10 authorization events (20 where they carry the state graph),
  an id with the event sigil, a sender with a user id grammar, a depth that survives JSON, and from
  room version 11 on no field over 255 bytes. Before that version the oversized fields are reported,
  each exactly once and in order, and nothing else is reported as oversized.\<close>

lemma validate_syntactic_accepts:
  assumes "validate_syntactic ev rv = Inr ws"
  shows "is_supported_room_version rv \<and> length (ev_prev_events ev) \<le> 20 \<and>
    length (ev_auth_events ev) \<le> (if from_room_version rv = Some V2_2 then 20 else 10) \<and>
    ev_type ev \<noteq> [] \<and> starts_with CHR ''$'' (ev_id ev) \<and>
    is_acceptable_historical_mxid (ev_sender ev) \<and> ev_depth ev \<le> MAX_SAFE_JSON_INTEGER \<and>
    (room_version_is_v11_or_later rv \<longrightarrow>
      (\<forall>(v, f) \<in> set (length_checked_fields ev). length v \<le> 255)) \<and>
    oversized ws = oversized_fields ev (length_checked_fields ev)"
proof -
  have "is_supported_room_version rv \<and> length (ev_prev_events ev) \<le> 20 \<and>
    length (ev_auth_events ev) \<le> (if from_room_version rv = Some V2_2 then 20 else 10) \<and> ev_type ev \<noteq> []"
    using validate_syntactic_Inr(1) [OF assms]
    by (auto simp: validate_structure_def is_supported_room_version_def MAX_PREV_STATE_EVENTS_def
        simp flip: from_room_version_None split: option.splits if_splits)
  with validate_syntactic_Inr [OF assms] show ?thesis by blast
qed

definition sample_power_levels :: lean_event where
  "sample_power_levels =
     \<lparr>ev_id = ''$pl'', ev_type = M_ROOM_POWER_LEVELS, ev_state_key = Some [], ev_power_level = 0,
      ev_origin_server_ts = 1, ev_sender = ''a'',
      ev_content = Object [(''invite'', Number ''70''), (''users'', Object [(''a'', Number ''100'')])],
      ev_prev_events = [], ev_auth_events = [], ev_depth = 1, ev_rejected = False,
      ev_soft_fail = False, ev_room_id = None\<rparr>"

lemma validate_syntactic_accepts_witness:
  "validate_syntactic (sample_power_levels\<lparr>ev_sender := replicate 300 CHR ''@'' @ '':h''\<rparr>) ''10''
     = Inr [CompatibilityMxid ''$pl'' ''sender'' (replicate 300 CHR ''@'' @ '':h''),
            OversizedFieldPreV11 ''$pl'' ''sender'' 302 255] \<and>
   oversized [CompatibilityMxid ''$pl'' ''sender'' (replicate 300 CHR ''@'' @ '':h''),
            OversizedFieldPreV11 ''$pl'' ''sender'' 302 255]
     = oversized_fields (sample_power_levels\<lparr>ev_sender := replicate 300 CHR ''@'' @ '':h''\<rparr>)
         (length_checked_fields (sample_power_levels\<lparr>ev_sender := replicate 300 CHR ''@'' @ '':h''\<rparr>))"
proof -
  have v: "validate_syntactic (sample_power_levels\<lparr>ev_sender := replicate 300 CHR ''@'' @ '':h''\<rparr>) ''10''
     = Inr [CompatibilityMxid ''$pl'' ''sender'' (replicate 300 CHR ''@'' @ '':h''),
            OversizedFieldPreV11 ''$pl'' ''sender'' 302 255]"
    by code_simp
  show ?thesis using v validate_syntactic_accepts [OF v] by simp
qed

section \<open>Ingested events\<close>

definition sample_create_pdu :: json where
  "sample_create_pdu =
     Object [(''content'', Object []), (''origin_server_ts'', Number ''5''),
             (''sender'', String (CHR 0x40 # ''a:h'')), (''state_key'', String []), (''type'', String ''m.room.name'')]"

definition ingested :: "hash_env \<Rightarrow> string \<Rightarrow> string option \<Rightarrow> json \<Rightarrow> lean_event \<Rightarrow> bool" where
  "ingested h rv room_id pdu ev \<longleftrightarrow>
     ev_room_id ev = room_id \<and>
     (derives_event_ids rv \<longrightarrow>
       (\<exists>hash. reference_hash h pdu rv = Inr hash \<and> ev_id ev = CHR ''$'' # hash)) \<and>
     is_ok (validate_syntactic (ev\<lparr>ev_room_id := None\<rparr>) rv) \<and>
     (get FIELD_HASHES pdu \<noteq> None \<longrightarrow>
       (\<exists>hash. compute_content_hash h pdu rv = Inr hash \<and>
         Option.bind (get FIELD_HASHES pdu) (get_str ''sha256'') = Some hash))"

lemma ingest_event_ingested:
  assumes "ingest_event h rv room_id pdu = Inr ev"
  shows "ingested h rv room_id pdu ev"
proof -
  from assms obtain e ws where e: "from_value h pdu (Some rv) = Inr e"
    and ws: "validate_syntactic e rv = Inr ws" and ev: "ev = e\<lparr>ev_room_id := room_id\<rparr>"
    and nid: "derives_event_ids rv \<Longrightarrow> get FIELD_EVENT_ID pdu = None"
    and vh: "get FIELD_HASHES pdu \<noteq> None \<Longrightarrow> verify_content_hash h pdu rv = Inr ()"
    by (auto simp: ingest_event_def split: if_splits)
  have rid: "ev_room_id e = None" and eid: "value_event_id h pdu (Some rv) = Inr (ev_id e)"
    using e by (auto simp: from_value_def Let_def split: if_splits)
  have "e\<lparr>ev_room_id := None\<rparr> = e" using rid by simp
  moreover have "\<exists>hash. reference_hash h pdu rv = Inr hash \<and> ev_id e = CHR ''$'' # hash"
    if "derives_event_ids rv"
    using eid nid [OF that] by (auto simp: value_event_id_def get_str_def)
  moreover have "\<exists>hash. compute_content_hash h pdu rv = Inr hash \<and>
         Option.bind (get FIELD_HASHES pdu) (get_str ''sha256'') = Some hash"
    if "get FIELD_HASHES pdu \<noteq> None"
    using vh [OF that] by (auto simp: verify_content_hash_def split: option.splits)
  ultimately show ?thesis using ws ev by (simp add: ingested_def)
qed

text \<open>ingesting a batch either fails or gives one event per PDU, in order. Each event carries the
  room id of the caller and never one claimed by the PDU, its id is the sigil followed by the
  reference hash in the versions that derive ids, it passed syntactic validation, and a PDU with a
  hashes field was accepted only if the recomputed content hash is the one it claims.\<close>

lemma ingest_events_checked:
  assumes "ingest_events h pdus rv room_id = Inr evs"
  shows "list_all2 (ingested h rv room_id) pdus evs"
  using assms
  by (induction pdus arbitrary: evs) (auto dest: ingest_event_ingested)

lemma ingest_events_checked_witness:
  "\<exists>ev. ingest_events sample_hashes [sample_create_pdu] ''11'' (Some ''!r'') = Inr [ev] \<and>
     list_all2 (ingested sample_hashes ''11'' (Some ''!r'')) [sample_create_pdu] [ev]"
proof -
  have "is_ok (ingest_events sample_hashes [sample_create_pdu] ''11'' (Some ''!r''))"
    by code_simp
  then obtain evs where evs: "ingest_events sample_hashes [sample_create_pdu] ''11'' (Some ''!r'') = Inr evs"
    by (cases "ingest_events sample_hashes [sample_create_pdu] ''11'' (Some ''!r'')") auto
  from ingest_events_checked [OF evs] evs show ?thesis
    by (auto simp: list_all2_Cons1)
qed

end
