(* ===== verification/Power_Level.thy ===== *)
theory Power_Level
  imports Lean_Event
begin

text \<open>
  The power level queries of \<open>auth::user\<close> and \<open>auth\<close>: the effective level of a user in a room state,
  the thresholds of the room and the level an event type requires. A \<open>StateProvider\<close> is the function
  that looks a state event up by type and state key.
\<close>

type_synonym state_provider = "string \<Rightarrow> string \<Rightarrow> lean_event option"

section \<open>Levels\<close>

definition is_room_creator :: "lean_event \<Rightarrow> string \<Rightarrow> bool" where
  "is_room_creator create_event sender \<longleftrightarrow>
     ev_sender create_event = sender \<or> has_additional_creator (ev_content create_event) sender"

definition get_sender_power_level :: "string \<Rightarrow> state_provider \<Rightarrow> state_res_version \<Rightarrow> int" where
  "get_sender_power_level sender state version =
     (if version \<in> {V2_1, V2_1_1, V2_2, V3} \<and>
         (case state M_ROOM_CREATE [] of None \<Rightarrow> False | Some c \<Rightarrow> is_room_creator c sender)
      then MAX_POWER_LEVEL_RUST
      else (case state M_ROOM_POWER_LEVELS [] of
          Some pl_event \<Rightarrow> (case get_user_power_level (ev_content pl_event) sender of
              Some pl \<Rightarrow> pl
            | None \<Rightarrow> (case get_users_default (ev_content pl_event) of
                Some default_pl \<Rightarrow> default_pl
              | None \<Rightarrow> DEFAULT_PL_USER))
        | None \<Rightarrow> (case state M_ROOM_CREATE [] of
            Some create_event \<Rightarrow>
              if (case get_creator (ev_content create_event) of
                    Some c \<Rightarrow> c
                  | None \<Rightarrow> ev_sender create_event) = sender
              then 100 else DEFAULT_PL_USER
          | None \<Rightarrow> DEFAULT_PL_USER)))"

definition pl_field_or_default :: "state_provider \<Rightarrow> (json \<Rightarrow> int option) \<Rightarrow> int \<Rightarrow> int" where
  "pl_field_or_default state select dflt =
     (case Option.bind (state M_ROOM_POWER_LEVELS []) (\<lambda>e. select (ev_content e)) of
        Some pl \<Rightarrow> pl
      | None \<Rightarrow> dflt)"

definition get_redact_power_level :: "state_provider \<Rightarrow> int" where
  "get_redact_power_level state = pl_field_or_default state get_redact DEFAULT_PL_REDACT"

definition get_kick_power_level :: "state_provider \<Rightarrow> int" where
  "get_kick_power_level state = pl_field_or_default state get_kick DEFAULT_PL_KICK"

definition get_invite_power_level :: "state_provider \<Rightarrow> int" where
  "get_invite_power_level state = pl_field_or_default state get_invite DEFAULT_PL_INVITE"

definition get_ban_power_level :: "state_provider \<Rightarrow> int" where
  "get_ban_power_level state = pl_field_or_default state get_ban DEFAULT_PL_BAN"

definition pl_threshold_for_event :: "lean_event \<Rightarrow> string \<Rightarrow> string option \<Rightarrow> int" where
  "pl_threshold_for_event pl_event event_type state_key =
     (if event_type = M_ROOM_THIRD_PARTY_INVITE
      then (case get_invite (ev_content pl_event) of Some pl \<Rightarrow> pl | None \<Rightarrow> 0)
      else (case get_event_power_level (ev_content pl_event) event_type of
          Some pl \<Rightarrow> pl
        | None \<Rightarrow>
            if state_key \<noteq> None
            then (case get_state_default (ev_content pl_event) of Some pl \<Rightarrow> pl | None \<Rightarrow> 50)
            else (case get_events_default (ev_content pl_event) of Some pl \<Rightarrow> pl | None \<Rightarrow> 0)))"

definition get_required_power_level :: "string \<Rightarrow> string option \<Rightarrow> state_provider \<Rightarrow> int" where
  "get_required_power_level event_type state_key state =
     (case state M_ROOM_POWER_LEVELS [] of
        Some pl_event \<Rightarrow> pl_threshold_for_event pl_event event_type state_key
      | None \<Rightarrow>
          if event_type = M_ROOM_THIRD_PARTY_INVITE then 0
          else if state_key \<noteq> None then 50
          else 0)"

definition meets_threshold :: "string \<Rightarrow> state_provider \<Rightarrow> state_res_version \<Rightarrow> int \<Rightarrow> bool" where
  "meets_threshold user state version threshold \<longleftrightarrow>
     get_sender_power_level user state version \<ge> threshold"

definition user_can_invite :: "string \<Rightarrow> state_provider \<Rightarrow> state_res_version \<Rightarrow> bool" where
  "user_can_invite user state version =
     meets_threshold user state version (get_invite_power_level state)"

definition user_can_ban :: "string \<Rightarrow> state_provider \<Rightarrow> state_res_version \<Rightarrow> bool" where
  "user_can_ban user state version = meets_threshold user state version (get_ban_power_level state)"

definition user_can_kick :: "string \<Rightarrow> state_provider \<Rightarrow> state_res_version \<Rightarrow> bool" where
  "user_can_kick user state version = meets_threshold user state version (get_kick_power_level state)"

definition user_can_redact :: "string \<Rightarrow> state_provider \<Rightarrow> state_res_version \<Rightarrow> bool" where
  "user_can_redact user state version =
     meets_threshold user state version (get_redact_power_level state)"

section \<open>Bounds\<close>

text \<open>Every level that comes from an event is within the JSON-safe range; only a creator of a room of
  version 12 or later is above it.\<close>

lemma get_user_power_level_bounds:
  "get_user_power_level c user = Some i \<Longrightarrow> - MAX_POWER_LEVEL_JSON \<le> i \<and> i \<le> MAX_POWER_LEVEL_JSON"
  by (auto simp: get_user_power_level_def bind_eq_Some_conv MAX_POWER_LEVEL_JSON_def
      dest: coerce_json_to_i64_bounds)

lemma get_pl_bounds:
  "get_pl field c = Some i \<Longrightarrow> - MAX_POWER_LEVEL_JSON \<le> i \<and> i \<le> MAX_POWER_LEVEL_JSON"
  by (auto simp: get_pl_def bind_eq_Some_conv MAX_POWER_LEVEL_JSON_def
      dest: coerce_json_to_i64_bounds)

lemma get_sender_power_level_creator:
  assumes "is_v2_1_plus version" "state M_ROOM_CREATE [] = Some c" "is_room_creator c user"
  shows "get_sender_power_level user state version = MAX_POWER_LEVEL_RUST"
  using assms by (auto simp: get_sender_power_level_def is_v2_1_plus_def)

lemma get_sender_power_level_json:
  assumes "\<not> (is_v2_1_plus version \<and>
    (case state M_ROOM_CREATE [] of None \<Rightarrow> False | Some c \<Rightarrow> is_room_creator c user))"
  shows "- MAX_POWER_LEVEL_JSON \<le> get_sender_power_level user state version \<and>
    get_sender_power_level user state version \<le> MAX_POWER_LEVEL_JSON"
  using assms
  by (auto simp: get_sender_power_level_def is_v2_1_plus_def DEFAULT_PL_USER_def
      MAX_POWER_LEVEL_JSON_def get_users_default_def
      dest: get_user_power_level_bounds [unfolded MAX_POWER_LEVEL_JSON_def]
        get_pl_bounds [unfolded MAX_POWER_LEVEL_JSON_def]
      split: option.splits)

text \<open>C28: from room version 12 on the creators outrank everyone. A user who created the room, or is
  listed as an additional creator, has the greatest 64 bit level, and the level of every other user,
  whatever the power levels event says, stays within 2^53 - 1 and so is strictly smaller.\<close>

theorem creator_outranks_others:
  assumes "is_v2_1_plus version" "state M_ROOM_CREATE [] = Some create"
    and "is_room_creator create creator" "\<not> is_room_creator create user"
  shows "get_sender_power_level creator state version = I64_MAX \<and>
    \<bar>get_sender_power_level user state version\<bar> \<le> MAX_POWER_LEVEL_JSON \<and>
    get_sender_power_level user state version < get_sender_power_level creator state version"
proof -
  have "get_sender_power_level creator state version = I64_MAX"
    using get_sender_power_level_creator [where state = state, OF assms(1-3)]
    by (simp add: MAX_POWER_LEVEL_RUST_def)
  moreover have "\<bar>get_sender_power_level user state version\<bar> \<le> MAX_POWER_LEVEL_JSON"
    using get_sender_power_level_json [where version = version and state = state and user = user] assms
    by (simp add: abs_le_iff)
  moreover have "MAX_POWER_LEVEL_JSON < I64_MAX"
    by (simp add: MAX_POWER_LEVEL_JSON_def I64_MAX_def)
  ultimately show ?thesis by simp
qed

definition sample_event :: "string \<Rightarrow> string \<Rightarrow> string option \<Rightarrow> string \<Rightarrow> json \<Rightarrow> lean_event" where
  "sample_event i t k s c =
     \<lparr>ev_id = i, ev_type = t, ev_state_key = k, ev_power_level = 0, ev_origin_server_ts = 1,
      ev_sender = s, ev_content = c, ev_prev_events = [], ev_auth_events = [], ev_depth = 1,
      ev_rejected = False, ev_soft_fail = False, ev_room_id = None\<rparr>"

definition provider_of :: "lean_event list \<Rightarrow> state_provider" where
  "provider_of evs t k =
     map_of (map (\<lambda>e. ((ev_type e, the (ev_state_key e)), e)) evs) (t, k)"

definition sample_creator_state :: state_provider where
  "sample_creator_state = provider_of
     [sample_event ''$c'' M_ROOM_CREATE (Some []) ''a'' (Object []),
      sample_event ''$p'' M_ROOM_POWER_LEVELS (Some []) ''a''
        (Object [(''users'', Object [(''b'', Number ''18446744073709551615'')])])]"

theorem creator_outranks_others_witness:
  "get_sender_power_level ''b'' sample_creator_state V2_1 = 9007199254740991 \<and>
   get_sender_power_level ''b'' sample_creator_state V2_1
     < get_sender_power_level ''a'' sample_creator_state V2_1"
proof -
  let ?c = "sample_event ''$c'' M_ROOM_CREATE (Some []) ''a'' (Object [])"
  have "sample_creator_state M_ROOM_CREATE [] = Some ?c"
    by (simp add: sample_creator_state_def provider_of_def sample_event_def)
  moreover have "is_room_creator ?c ''a''" "\<not> is_room_creator ?c ''b''"
    by (simp_all add: is_room_creator_def sample_event_def has_additional_creator_def get_def)
  moreover have "get_sender_power_level ''b'' sample_creator_state V2_1 = 9007199254740991"
    by code_simp
  ultimately show ?thesis
    using creator_outranks_others [of V2_1 sample_creator_state ?c "''a''" "''b''"]
    by (simp add: is_v2_1_plus_def)
qed

end
