(* ===== verification/Auth_Rules.thy ===== *)
theory Auth_Rules
  imports Power_Level
begin

text \<open>
  The authorization rules of \<open>auth::mod\<close>. \<open>check_auth_with_context\<close> is one long function in the source;
  here it is the composition, in the same order, of one definition per rule, each named after the rule
  it translates. \<open>EventVerifier\<close> is a trait the host implements: a record of functions, passed as an
  option as in the source. An \<open>EventProvider\<close> is the function that looks an event up by id.
\<close>

section \<open>Errors and interfaces\<close>

datatype auth_error =
    NotMember string string
  | InsufficientPowerLevel int int string
  | BannedUser string string
  | InvalidStateKey string string
  | CreateWithPrevEvents
  | MissingAuthEvent string
  | MissingCreate
  | InvalidSyntax string
  | IncompleteAuthEvents string string
  | ForeignRoomEvent string string string "string option"
  | RejectedAuthEvent string string

definition not_member :: "string \<Rightarrow> string \<Rightarrow> auth_error" where
  "not_member sender event_id = NotMember sender event_id"

definition banned_user :: "string \<Rightarrow> string \<Rightarrow> auth_error" where
  "banned_user sender event_id = BannedUser sender event_id"

type_synonym event_provider = "string \<Rightarrow> lean_event option"

type_synonym auth_result = "(auth_error, unit) result"

record event_verifier =
  verify_event_id_hash :: "string \<Rightarrow> (string, unit) result"
  verify_signatures :: "string \<Rightarrow> (string, unit) result"
  verify_event_content_hash :: "string \<Rightarrow> (string, unit) result"
  verify_third_party_invite :: "string \<Rightarrow> string \<Rightarrow> (string, unit) result"
  verify_join_authorised :: "string \<Rightarrow> string \<Rightarrow> (string, unit) result"

definition member_of :: "state_provider \<Rightarrow> string \<Rightarrow> string option" where
  "member_of state user = Option.bind (state M_ROOM_MEMBER user) (\<lambda>e. get_membership (ev_content e))"

definition current_membership :: "state_provider \<Rightarrow> string \<Rightarrow> string" where
  "current_membership state user = (case member_of state user of Some m \<Rightarrow> m | None \<Rightarrow> [])"

section \<open>Room version of a state\<close>

definition bad_room_version :: auth_error where
  "bad_room_version =
     InvalidSyntax ''m.room.create content.room_version is not a recognised room version''"

definition get_room_version_num :: "state_provider \<Rightarrow> (auth_error, int) result" where
  "get_room_version_num state = (case state M_ROOM_CREATE [] of
       None \<Rightarrow> Inl MissingCreate
     | Some create \<Rightarrow> (case get_room_version (ev_content create) of
         None \<Rightarrow> Inr 1
       | Some v \<Rightarrow>
           if from_room_version v = None then Inl bad_room_version
           else (case parse_u32 v of
               Some num \<Rightarrow> Inr num
             | None \<Rightarrow>
                 if (case from_room_version v of None \<Rightarrow> False | Some r \<Rightarrow> is_v2_1_plus r)
                 then Inr 12 else Inr 1)))"

definition room_version_at_least :: "state_provider \<Rightarrow> int \<Rightarrow> (auth_error, bool) result" where
  "room_version_at_least state minimum_version =
     rbind (get_room_version_num state) (\<lambda>n. Inr (n \<ge> minimum_version))"

definition validated_room_version_or_v1 ::
  "state_provider \<Rightarrow> (auth_error, string option) result" where
  "validated_room_version_or_v1 state = (case state M_ROOM_CREATE [] of
       None \<Rightarrow> Inr None
     | Some create \<Rightarrow> (case get_room_version (ev_content create) of
         None \<Rightarrow>
           if has_malformed_room_version (ev_content create) then Inl bad_room_version else Inr None
       | Some version \<Rightarrow>
           if from_room_version version = None then Inl bad_room_version else Inr (Some version)))"

definition room_version_str_or_v1 :: "state_provider \<Rightarrow> (auth_error, string) result" where
  "room_version_str_or_v1 state =
     rbind (validated_room_version_or_v1 state)
       (\<lambda>v. Inr (case v of Some s \<Rightarrow> s | None \<Rightarrow> ''1''))"

section \<open>Flagged auth state\<close>

definition reject_if_flagged_auth_state :: "state_provider \<Rightarrow> string \<Rightarrow> string \<Rightarrow> auth_result" where
  "reject_if_flagged_auth_state state event_type state_key =
     require (\<not> (case state event_type state_key of None \<Rightarrow> False | Some e \<Rightarrow> ev_rejected e))
       (InvalidSyntax (''rejected auth state event '' @ event_type @ ''/'' @ state_key @
                       '' must not be used''))"

definition reject_flagged_auth_state :: "lean_event \<Rightarrow> state_provider \<Rightarrow> auth_result" where
  "reject_flagged_auth_state event state =
     (let flagged = reject_if_flagged_auth_state state;
          is_member = (ev_type event = M_ROOM_MEMBER);
          membership = get_membership (ev_content event)
      in ok_then (flagged M_ROOM_CREATE [])
        (ok_then (flagged M_ROOM_POWER_LEVELS [])
        (ok_then (flagged M_ROOM_MEMBER (ev_sender event))
        (ok_then (case ev_state_key event of
             Some target_user \<Rightarrow> if is_member then flagged M_ROOM_MEMBER target_user else Inr ()
           | None \<Rightarrow> Inr ())
        (ok_then (if is_member \<and> membership \<in> {Some MEM_JOIN, Some MEM_INVITE, Some MEM_KNOCK}
                  then flagged M_ROOM_JOIN_RULES [] else Inr ())
        (ok_then (if is_member \<and> membership = Some MEM_JOIN
                  then (case get_join_authorised_via_users_server (ev_content event) of
                      Some authorising_user \<Rightarrow> flagged M_ROOM_MEMBER authorising_user
                    | None \<Rightarrow> Inr ())
                  else Inr ())
        (if is_member \<and> membership = Some MEM_INVITE
         then (case get_third_party_invite_token (ev_content event) of
             Some token \<Rightarrow> flagged M_ROOM_THIRD_PARTY_INVITE token
           | None \<Rightarrow> Inr ())
         else Inr ())))))))"

section \<open>Selection of auth events\<close>

definition supports_authorising_member :: "string \<Rightarrow> bool" where
  "supports_authorising_member room_version \<longleftrightarrow>
     (case major_version room_version of Some major \<Rightarrow> major \<ge> 8 | None \<Rightarrow> False) \<or>
     (case from_room_version room_version of Some v \<Rightarrow> is_v2_1_plus v | None \<Rightarrow> False)"

definition auth_types_for_event_core ::
  "string \<Rightarrow> string \<Rightarrow> string option \<Rightarrow> string option \<Rightarrow> string option \<Rightarrow> string option \<Rightarrow>
   state_res_version \<Rightarrow> string \<Rightarrow> (string \<times> string) list" where
  "auth_types_for_event_core event_type sender state_key membership third_party_invite_token
     join_authorised_via_users_server version room_version =
     (if event_type = M_ROOM_CREATE then []
      else
        (if \<not> is_v2_1_plus version then [(M_ROOM_CREATE, [])] else []) @
        [(M_ROOM_MEMBER, sender), (M_ROOM_POWER_LEVELS, [])] @
        (if event_type = M_ROOM_MEMBER then
           (case state_key of
              Some sk \<Rightarrow> if sk \<noteq> sender then [(M_ROOM_MEMBER, sk)] else []
            | None \<Rightarrow> []) @
           (if membership \<in> {Some MEM_JOIN, Some MEM_INVITE, Some MEM_KNOCK}
            then [(M_ROOM_JOIN_RULES, [])] else []) @
           (if membership = Some MEM_INVITE
            then (case third_party_invite_token of
                Some token \<Rightarrow> [(M_ROOM_THIRD_PARTY_INVITE, token)]
              | None \<Rightarrow> [])
            else []) @
           (if membership = Some MEM_JOIN \<and> supports_authorising_member room_version
            then (case join_authorised_via_users_server of
                Some authorising_user \<Rightarrow> [(M_ROOM_MEMBER, authorising_user)]
              | None \<Rightarrow> [])
            else [])
         else []))"

definition required_auth_types_for ::
  "lean_event \<Rightarrow> string \<Rightarrow> state_res_version \<Rightarrow> string \<Rightarrow> (string \<times> string) list" where
  "required_auth_types_for event event_type version room_version =
     auth_types_for_event_core event_type (ev_sender event) (ev_state_key event)
       (get_membership (ev_content event)) (get_third_party_invite_token (ev_content event))
       (get_join_authorised_via_users_server (ev_content event)) version room_version"

definition auth_types_for_event ::
  "string \<Rightarrow> string \<Rightarrow> string option \<Rightarrow> json \<Rightarrow> state_res_version \<Rightarrow> string \<Rightarrow> (string \<times> string) list"
where
  "auth_types_for_event event_type sender state_key content version room_version =
     (let membership = Option.bind (get FIELD_MEMBERSHIP content) as_str;
          third_party_invite_token =
            Option.bind (Option.bind (get FIELD_THIRD_PARTY_INVITE content) as_object) (\<lambda>tpi.
            Option.bind (Option.bind (map_of tpi FIELD_SIGNED) as_object) (\<lambda>s.
            Option.bind (map_of s FIELD_TOKEN) as_str));
          join_authorised_via_users_server =
            Option.bind (get FIELD_JOIN_AUTHORISED_VIA_USERS_SERVER content) as_str
      in auth_types_for_event_core event_type sender state_key membership third_party_invite_token
           join_authorised_via_users_server version room_version)"

definition VALID_AUTH_TYPES :: "string list" where
  "VALID_AUTH_TYPES =
     [M_ROOM_CREATE, M_ROOM_MEMBER, M_ROOM_POWER_LEVELS, M_ROOM_JOIN_RULES, M_ROOM_THIRD_PARTY_INVITE]"

fun collect_auth_events ::
  "lean_event \<Rightarrow> state_res_version \<Rightarrow> event_provider \<Rightarrow> string list \<Rightarrow>
   ((string \<times> string) \<times> string) list \<Rightarrow>
   (auth_error, ((string \<times> string) \<times> string) list) result" where
  "collect_auth_events event version provider [] seen = Inr seen"
| "collect_auth_events event version provider (auth_id # auth_ids) seen =
     (case provider auth_id of
        None \<Rightarrow> Inl (MissingAuthEvent auth_id)
      | Some auth_ev \<Rightarrow>
          if ev_rejected auth_ev then Inl (RejectedAuthEvent (ev_id event) auth_id)
          else if is_v2_1_plus version \<and> ev_type auth_ev = M_ROOM_CREATE
          then Inl (InvalidSyntax
                 ''referencing m.room.create in auth_events is forbidden in room v12+'')
          else if ev_type auth_ev \<notin> set VALID_AUTH_TYPES
          then Inl (InvalidSyntax (''unexpected event type in auth_events: '' @ ev_type auth_ev))
          else
            let key = (ev_type auth_ev, case ev_state_key auth_ev of Some k \<Rightarrow> k | None \<Rightarrow> [])
            in if map_of seen key \<noteq> None
               then Inl (InvalidSyntax ''auth_events contains duplicate (type, state_key) pair'')
               else collect_auth_events event version provider auth_ids (hm_insert key auth_id seen))"

definition check_create_cited :: "lean_event \<Rightarrow> state_provider \<Rightarrow> state_res_version \<Rightarrow> auth_result" where
  "check_create_cited event state version =
     (if is_v2_1_plus version then Inr ()
      else (case state M_ROOM_CREATE [] of
          None \<Rightarrow> Inl (InvalidSyntax
              (''missing m.room.create in room state '' @
               ''(cannot validate auth_events for v1-v11)''))
        | Some create_ev \<Rightarrow>
            require (ev_id create_ev \<in> set (ev_auth_events event))
              (InvalidSyntax ''auth_events must contain m.room.create in room versions 1-11'')))"

definition check_citation ::
  "state_provider \<Rightarrow> ((string \<times> string) \<times> string) list \<Rightarrow> string \<times> string \<Rightarrow> auth_result" where
  "check_citation state seen req = (case req of (req_type, req_key) \<Rightarrow>
     (case state req_type req_key of
        None \<Rightarrow> Inr ()
      | Some state_ev \<Rightarrow>
          require (map_of seen (req_type, req_key) = Some (ev_id state_ev))
            (IncompleteAuthEvents req_type req_key)))"

definition check_auth_selection ::
  "lean_event \<Rightarrow> state_provider \<Rightarrow> state_res_version \<Rightarrow> event_provider option \<Rightarrow> auth_result" where
  "check_auth_selection event state version auth_context = (case auth_context of
       None \<Rightarrow> Inr ()
     | Some provider \<Rightarrow>
         if version = V2_2 then Inr ()
         else
           ok_then (check_create_cited event state version)
             (rbind (collect_auth_events event version provider (ev_auth_events event) []) (\<lambda>seen.
              rbind (room_version_str_or_v1 state) (\<lambda>room_version.
                each_ok (check_citation state seen)
                  (required_auth_types_for event (ev_type event) version room_version)))))"

section \<open>Power levels event\<close>

definition check_scalar_pl :: "string \<Rightarrow> int option \<Rightarrow> int option \<Rightarrow> int \<Rightarrow> auth_result" where
  "check_scalar_pl field old new sender_pl =
     (if old = new then Inr ()
      else ok_then
        (case old of
           Some old_val \<Rightarrow>
             require (old_val \<le> sender_pl)
               (InvalidSyntax (''cannot change '' @ field @ '': current value '' @ show_int old_val @
                               '' > sender PL '' @ show_int sender_pl))
         | None \<Rightarrow> Inr ())
        (case new of
           Some new_val \<Rightarrow>
             require (new_val \<le> sender_pl)
               (InvalidSyntax (''cannot set '' @ field @ '' to '' @ show_int new_val @
                               '': exceeds sender PL '' @ show_int sender_pl))
         | None \<Rightarrow> Inr ()))"

definition collect_levels :: "(string \<times> int) list \<Rightarrow> (string \<times> int) list" where
  "collect_levels visited = fold (\<lambda>(k, v). bm_insert k v) visited []"

definition check_level_map ::
  "string \<Rightarrow> (string \<times> int) list \<Rightarrow> (string \<times> int) list \<Rightarrow> int \<Rightarrow> auth_result" where
  "check_level_map name old new sender_pl =
     ok_then
       (each_ok (\<lambda>(key, old_val).
          require (\<not> (map_of new key \<noteq> Some old_val \<and> old_val > sender_pl))
            (InvalidSyntax (''cannot change '' @ name @ ''['' @ key @ '']: current value '' @
                            show_int old_val @ '' > sender PL '' @ show_int sender_pl))) old)
       (each_ok (\<lambda>(key, new_val).
          require (\<not> (map_of old key \<noteq> Some new_val \<and> new_val > sender_pl))
            (InvalidSyntax (''cannot set '' @ name @ ''['' @ key @ ''] to '' @ show_int new_val @
                            '': exceeds sender PL '' @ show_int sender_pl))) new)"

definition check_user_levels ::
  "string \<Rightarrow> (string \<times> int) list \<Rightarrow> (string \<times> int) list \<Rightarrow> int \<Rightarrow> auth_result" where
  "check_user_levels sender old new sender_pl =
     ok_then
       (each_ok (\<lambda>(key, old_val).
          if key = sender then Inr ()
          else require (\<not> (map_of new key \<noteq> Some old_val \<and> old_val \<ge> sender_pl))
            (InvalidSyntax (''cannot change users['' @ key @ '']: current PL '' @ show_int old_val @
                            '' >= sender PL '' @ show_int sender_pl))) old)
       (each_ok (\<lambda>(key, new_val).
          require (\<not> (map_of old key \<noteq> Some new_val \<and> new_val > sender_pl))
            (InvalidSyntax (''cannot set users['' @ key @ ''] to '' @ show_int new_val @
                            '': exceeds sender PL '' @ show_int sender_pl))) new)"

definition check_scalar_levels :: "json \<Rightarrow> json \<Rightarrow> int \<Rightarrow> auth_result" where
  "check_scalar_levels new_content prev_pl sender_pl =
     ok_then (check_scalar_pl ''users_default'' (get_users_default prev_pl)
                (get_users_default new_content) sender_pl)
    (ok_then (check_scalar_pl ''events_default'' (get_events_default prev_pl)
                (get_events_default new_content) sender_pl)
    (ok_then (check_scalar_pl ''state_default'' (get_state_default prev_pl)
                (get_state_default new_content) sender_pl)
    (ok_then (check_scalar_pl ''ban'' (get_ban prev_pl) (get_ban new_content) sender_pl)
    (ok_then (check_scalar_pl ''redact'' (get_redact prev_pl) (get_redact new_content) sender_pl)
    (ok_then (check_scalar_pl ''kick'' (get_kick prev_pl) (get_kick new_content) sender_pl)
             (check_scalar_pl ''invite'' (get_invite prev_pl) (get_invite new_content) sender_pl))))))"

definition check_power_levels_rules :: "string \<Rightarrow> json \<Rightarrow> json \<Rightarrow> int \<Rightarrow> auth_result" where
  "check_power_levels_rules sender new_content prev_pl sender_pl =
     ok_then (check_scalar_levels new_content prev_pl sender_pl)
    (ok_then (check_level_map ''events'' (collect_levels (visit_event_power_levels prev_pl))
                (collect_levels (visit_event_power_levels new_content)) sender_pl)
    (ok_then (check_level_map ''notifications''
                (collect_levels (visit_notification_power_levels prev_pl))
                (collect_levels (visit_notification_power_levels new_content)) sender_pl)
             (check_user_levels sender (collect_levels (visit_user_power_levels prev_pl))
                (collect_levels (visit_user_power_levels new_content)) sender_pl)))"

definition reject_last :: "(string \<Rightarrow> bool) \<Rightarrow> string \<Rightarrow> string list \<Rightarrow> auth_result" where
  "reject_last bad message keys = (case filter bad keys of
       [] \<Rightarrow> Inr ()
     | ks \<Rightarrow> Inl (InvalidSyntax (message @ last ks)))"

definition check_no_creator_levels :: "state_provider \<Rightarrow> json \<Rightarrow> auth_result" where
  "check_no_creator_levels state new_content = (case state M_ROOM_CREATE [] of
       None \<Rightarrow> Inr ()
     | Some create_event \<Rightarrow>
         ok_then (case get_creator (ev_content create_event) of
             Some creator \<Rightarrow>
               require (\<not> has_user_in_users new_content creator)
                 (InvalidSyntax (''m.room.power_levels users contains creator '' @ creator))
           | None \<Rightarrow> Inr ())
           (reject_last (has_additional_creator (ev_content create_event))
              ''m.room.power_levels users contains additional_creator ''
              (visit_user_keys new_content)))"

definition check_integer_levels :: "json \<Rightarrow> auth_result" where
  "check_integer_levels new_content = (case find_non_integer_scalar_pl new_content of
       Some field \<Rightarrow>
         Inl (InvalidSyntax (''m.room.power_levels '' @ field @ '' is not an integer''))
     | None \<Rightarrow> (case find_non_integer_map_pl new_content of
         Some field \<Rightarrow>
           Inl (InvalidSyntax (''m.room.power_levels '' @ field @
                               '' is not an object with integer values''))
       | None \<Rightarrow> Inr ()))"

definition check_power_levels_event ::
  "lean_event \<Rightarrow> state_provider \<Rightarrow> state_res_version \<Rightarrow> auth_result" where
  "check_power_levels_event event state version =
     (if ev_type event \<noteq> M_ROOM_POWER_LEVELS then Inr ()
      else
        let new_content = ev_content event
        in rbind (get_room_version_num state) (\<lambda>n.
           let is_room_v10_plus = (n \<ge> 10)
           in ok_then (if is_room_v10_plus then check_integer_levels new_content else Inr ())
             (ok_then (if version \<in> {V2_1, V2_1_1, V2_2, V3}
                       then check_no_creator_levels state new_content else Inr ())
             (ok_then (require (\<not> has_non_integer_users_pl new_content is_room_v10_plus)
                 (InvalidSyntax (''m.room.power_levels users contains non-integer value or is not '' @
                                 ''an object'')))
             (ok_then (reject_last (\<lambda>u. \<not> starts_with CHR 0x40 u \<or> CHR '':'' \<notin> set u)
                         ''users key is not a valid user ID: '' (visit_user_keys new_content))
             (case state M_ROOM_POWER_LEVELS [] of
                Some prev_pl_event \<Rightarrow>
                  check_power_levels_rules (ev_sender event) new_content (ev_content prev_pl_event)
                    (get_sender_power_level (ev_sender event) state version)
              | None \<Rightarrow> Inr ()))))))"

end
