(* ===== verification/Check_Auth.thy ===== *)
theory Check_Auth
  imports Auth_Rules
begin

text \<open>
  The membership transition rules and \<open>check_auth_with_context\<close>, the composition of all rules in the
  order of the source, with \<open>check_auth\<close> and the two-pass validation of a new forward extremity.
\<close>

section \<open>Membership transitions\<close>

definition check_leave_rules ::
  "lean_event \<Rightarrow> state_provider \<Rightarrow> string \<Rightarrow> string \<Rightarrow> state_res_version \<Rightarrow> auth_result" where
  "check_leave_rules event state target_user cur version =
     (if target_user = ev_sender event
      then require (cur \<in> {MEM_INVITE, MEM_JOIN, MEM_KNOCK}) (not_member (ev_sender event) (ev_id event))
      else
        let sender_pl = get_sender_power_level (ev_sender event) state version;
            (required, label) = (if cur = MEM_BAN then (get_ban_power_level state, ''unban'')
                                 else (get_kick_power_level state, ''kick''))
        in require (\<not> sender_pl < required) (InsufficientPowerLevel required sender_pl label))"

definition check_ban_rules ::
  "lean_event \<Rightarrow> state_provider \<Rightarrow> state_res_version \<Rightarrow> auth_result" where
  "check_ban_rules event state version =
     (let sender_pl = get_sender_power_level (ev_sender event) state version;
          ban_pl = get_ban_power_level state
      in require (\<not> sender_pl < ban_pl) (InsufficientPowerLevel ban_pl sender_pl ''ban''))"

definition check_third_party_invite ::
  "lean_event \<Rightarrow> state_provider \<Rightarrow> string \<Rightarrow> string \<Rightarrow> state_res_version \<Rightarrow> event_verifier option \<Rightarrow>
   auth_result" where
  "check_third_party_invite event state target_user cur version verifier =
     ok_then (require (cur \<noteq> MEM_BAN) (banned_user target_user (ev_id event)))
    (rbind (ok_or (InvalidSyntax ''invalid third_party_invite: missing signed.token'')
              (get_third_party_invite_token (ev_content event))) (\<lambda>token.
     rbind (ok_or (InvalidSyntax ''invalid third_party_invite: missing signed.mxid'')
              (get_third_party_invite_mxid (ev_content event))) (\<lambda>mxid.
     ok_then (require (has_third_party_invite_signatures (ev_content event))
                (InvalidSyntax ''invalid third_party_invite: missing or empty signed.signatures''))
    (ok_then (case verifier of
         Some v \<Rightarrow> map_err InvalidSyntax (verify_third_party_invite v (ev_id event) token)
       | None \<Rightarrow> Inr ())
    (ok_then (require (mxid = target_user) (InvalidStateKey (''mxid == '' @ target_user) mxid))
    (rbind (ok_or (InvalidStateKey ''m.room.third_party_invite event exists'' ''missing'')
              (state M_ROOM_THIRD_PARTY_INVITE token)) (\<lambda>tpi_event.
     ok_then (require (ev_sender tpi_event = ev_sender event)
                (InvalidStateKey (''sender == '' @ ev_sender tpi_event) (ev_sender event)))
       (let issuer_pl = get_sender_power_level (ev_sender tpi_event) state version;
            invite_pl = get_invite_power_level state
        in require (\<not> issuer_pl < invite_pl)
             (InsufficientPowerLevel invite_pl issuer_pl ''invite'')))))))))"

definition check_invite_rules ::
  "lean_event \<Rightarrow> state_provider \<Rightarrow> string \<Rightarrow> string \<Rightarrow> state_res_version \<Rightarrow> event_verifier option \<Rightarrow>
   auth_result" where
  "check_invite_rules event state target_user cur version verifier =
     (if target_user = ev_sender event
      then Inl (InvalidStateKey (''!= '' @ ev_sender event) target_user)
      else if has_third_party_invite (ev_content event)
      then check_third_party_invite event state target_user cur version verifier
      else
        let invite_pl = get_invite_power_level state;
            sender_pl = get_sender_power_level (ev_sender event) state version
        in if sender_pl < invite_pl then Inl (InsufficientPowerLevel invite_pl sender_pl ''invite'')
           else if cur = MEM_JOIN then Inl (not_member target_user (ev_id event))
           else if cur = MEM_BAN then Inl (banned_user target_user (ev_id event))
           else Inr ())"

definition check_membership_pl_hierarchies ::
  "lean_event \<Rightarrow> state_provider \<Rightarrow> string \<Rightarrow> string \<Rightarrow> state_res_version \<Rightarrow> auth_result" where
  "check_membership_pl_hierarchies event state target_user new_membership version =
     (if target_user \<noteq> ev_sender event \<and> (new_membership = MEM_LEAVE \<or> new_membership = MEM_BAN)
      then
        let sender_pl = get_sender_power_level (ev_sender event) state version;
            target_pl = get_sender_power_level target_user state version
        in require (\<not> sender_pl \<le> target_pl)
             (InsufficientPowerLevel (saturating_add_i64 target_pl 1) sender_pl
                ''m.rezzy.member_pl_greater_than_target'')
      else Inr ())"

definition check_authorising_user ::
  "lean_event \<Rightarrow> state_provider \<Rightarrow> string \<Rightarrow> state_res_version \<Rightarrow> event_verifier option \<Rightarrow> auth_result"
where
  "check_authorising_user event state authorising_user version verifier =
     (if current_membership state authorising_user \<noteq> MEM_JOIN
      then Inl (not_member (ev_sender event) (ev_id event))
      else if get_sender_power_level authorising_user state version < get_invite_power_level state
      then Inl (not_member (ev_sender event) (ev_id event))
      else (case verifier of
          Some v \<Rightarrow> map_err InvalidSyntax (verify_join_authorised v (ev_id event) authorising_user)
        | None \<Rightarrow> Inr ()))"

definition room_join_rule :: "state_provider \<Rightarrow> string" where
  "room_join_rule state =
     (case Option.bind (state M_ROOM_JOIN_RULES []) (\<lambda>e. get_join_rule (ev_content e)) of
        Some r \<Rightarrow> r
      | None \<Rightarrow> RULE_INVITE)"

definition check_join_rules ::
  "lean_event \<Rightarrow> state_provider \<Rightarrow> string \<Rightarrow> state_res_version \<Rightarrow> event_verifier option \<Rightarrow> auth_result"
where
  "check_join_rules event state target_user version verifier =
     (if target_user \<noteq> ev_sender event then Inl (InvalidStateKey (ev_sender event) target_user)
      else
        let cur = current_membership state target_user;
            join_rule = room_join_rule state
        in if cur = MEM_BAN then Inl (banned_user (ev_sender event) (ev_id event))
           else
             rbind (room_version_at_least state 8) (\<lambda>supports_restricted.
             rbind (room_version_at_least state 10) (\<lambda>supports_knock_restricted.
               let is_creator = (case state M_ROOM_CREATE [] of
                       Some e \<Rightarrow> ev_sender e = ev_sender event
                     | None \<Rightarrow> False)
               in if is_creator then Inr ()
                  else if join_rule = RULE_INVITE \<or> join_rule = RULE_KNOCK
                  then require (cur = MEM_INVITE \<or> cur = MEM_JOIN)
                         (not_member (ev_sender event) (ev_id event))
                  else if join_rule = RULE_RESTRICTED \<and> supports_restricted
                          \<or> join_rule = RULE_KNOCK_RESTRICTED \<and> supports_knock_restricted
                  then (if cur = MEM_INVITE \<or> cur = MEM_JOIN then Inr ()
                        else (case get_join_authorised_via_users_server (ev_content event) of
                            Some authorising_user \<Rightarrow>
                              check_authorising_user event state authorising_user version verifier
                          | None \<Rightarrow> Inl (not_member (ev_sender event) (ev_id event))))
                  else require (join_rule = RULE_PUBLIC)
                         (not_member (ev_sender event) (ev_id event)))))"

definition check_knock_rules :: "lean_event \<Rightarrow> state_provider \<Rightarrow> string \<Rightarrow> auth_result" where
  "check_knock_rules event state target_user =
     (if target_user \<noteq> ev_sender event then Inl (InvalidStateKey (ev_sender event) target_user)
      else
        let cur = current_membership state target_user;
            join_rule = room_join_rule state
        in if cur = MEM_BAN then Inl (banned_user (ev_sender event) (ev_id event))
           else if cur = MEM_INVITE \<or> cur = MEM_JOIN
           then Inl (not_member (ev_sender event) (ev_id event))
           else
             rbind (room_version_at_least state 10) (\<lambda>supports_knock_restricted.
               require (join_rule = RULE_KNOCK
                        \<or> join_rule = RULE_KNOCK_RESTRICTED \<and> supports_knock_restricted)
                 (not_member (ev_sender event) (ev_id event))))"

definition check_transition ::
  "lean_event \<Rightarrow> state_provider \<Rightarrow> string \<Rightarrow> string \<Rightarrow> state_res_version \<Rightarrow> event_verifier option \<Rightarrow>
   auth_result" where
  "check_transition event state target_user new_membership version verifier =
     (let cur = current_membership state target_user
      in if new_membership = MEM_JOIN then check_join_rules event state target_user version verifier
         else if new_membership = MEM_LEAVE
         then check_leave_rules event state target_user cur version
         else if new_membership = MEM_BAN then check_ban_rules event state version
         else if new_membership = MEM_INVITE
         then check_invite_rules event state target_user cur version verifier
         else if new_membership = MEM_KNOCK then check_knock_rules event state target_user
         else Inl (InvalidSyntax (''unknown membership: '' @ new_membership)))"

definition check_member_event ::
  "lean_event \<Rightarrow> state_provider \<Rightarrow> state_res_version \<Rightarrow> event_verifier option \<Rightarrow> auth_result" where
  "check_member_event event state version verifier =
     (if ev_type event \<noteq> M_ROOM_MEMBER then Inr ()
      else (case ev_state_key event of
          None \<Rightarrow> Inl (InvalidSyntax ''m.room.member event missing state_key'')
        | Some target_user \<Rightarrow> (case get_membership (ev_content event) of
            None \<Rightarrow> Inl (InvalidSyntax ''m.room.member event missing membership field'')
          | Some new_membership \<Rightarrow>
              if new_membership = MEM_BAN \<and> target_user = ev_sender event
              then Inl (InvalidStateKey (''!= '' @ ev_sender event) target_user)
              else
                ok_then (check_transition event state target_user new_membership version verifier)
                  (check_membership_pl_hierarchies event state target_user new_membership version))))"

section \<open>The remaining rules\<close>

definition check_limits :: "lean_event \<Rightarrow> state_res_version \<Rightarrow> auth_result" where
  "check_limits event version =
     (if length (ev_prev_events event) > 20
      then Inl (InvalidSyntax ''prev_events exceeds maximum allowed length of 20'')
      else if version \<noteq> V2_2 \<and> length (ev_auth_events event) > 10
      then Inl (InvalidSyntax ''auth_events exceeds maximum allowed length of 10'')
      else if version = V2_2 \<and> length (prev_state_events event) > MAX_PREV_STATE_EVENTS
      then Inl (InvalidSyntax (''prev_state_events exceeds maximum allowed length of '' @
                               show_int (int MAX_PREV_STATE_EVENTS)))
      else if ev_type event = [] then Inl (InvalidSyntax ''event_type cannot be empty'')
      else if ev_rejected event
      then Inl (InvalidSyntax ''rejected events must not be auth-checked'')
      else Inr ())"

definition run_verifier :: "lean_event \<Rightarrow> event_verifier option \<Rightarrow> auth_result" where
  "run_verifier event verifier = (case verifier of
       None \<Rightarrow> Inr ()
     | Some v \<Rightarrow>
         ok_then (map_err InvalidSyntax (verify_event_id_hash v (ev_id event)))
        (ok_then (map_err InvalidSyntax (verify_signatures v (ev_id event)))
                 (map_err InvalidSyntax (verify_event_content_hash v (ev_id event)))))"

definition check_create_event :: "lean_event \<Rightarrow> auth_result" where
  "check_create_event event =
     (if ev_prev_events event \<noteq> [] then Inl CreateWithPrevEvents
      else if \<not> is_valid_mxid (ev_sender event)
      then Inl (InvalidSyntax ''m.room.create sender must be a valid MXID'')
      else if has_malformed_room_version (ev_content event) \<or>
              (case get_room_version (ev_content event) of
                 Some rv \<Rightarrow> from_room_version rv = None
               | None \<Rightarrow> False)
      then Inl bad_room_version
      else Inr ())"

definition check_federate :: "lean_event \<Rightarrow> state_provider \<Rightarrow> auth_result" where
  "check_federate event state = (case state M_ROOM_CREATE [] of
       None \<Rightarrow> Inr ()
     | Some create_ev \<Rightarrow>
         require (\<not> (get_m_federate (ev_content create_ev) = Some False \<and>
                     \<not> domain_matches (ev_sender event) (ev_sender create_ev)))
           (InvalidSyntax (''cross-domain event from sender '' @ ev_sender event @
                           '' rejected: room has m.federate=false'')))"

definition check_aliases :: "lean_event \<Rightarrow> state_provider \<Rightarrow> auth_result" where
  "check_aliases event state =
     (if ev_type event \<noteq> M_ROOM_ALIASES then Inr ()
      else rbind (room_version_str_or_v1 state) (\<lambda>room_version.
        if room_version \<in> {''1'', ''2'', ''3'', ''4'', ''5''}
        then (case ev_state_key event of
            None \<Rightarrow> Inl (InvalidSyntax ''m.room.aliases event must have a state_key'')
          | Some state_key \<Rightarrow>
              require (domain_matches state_key (ev_sender event))
                (InvalidSyntax ''m.room.aliases state_key domain must match sender domain''))
        else Inr ()))"

definition check_redaction_event ::
  "lean_event \<Rightarrow> state_provider \<Rightarrow> state_res_version \<Rightarrow> auth_result" where
  "check_redaction_event event state version =
     (if ev_type event \<noteq> M_ROOM_REDACTION then Inr ()
      else rbind (room_version_str_or_v1 state) (\<lambda>room_version.
        if room_version \<in> {''1'', ''2''}
        then
          let sender_pl = get_sender_power_level (ev_sender event) state version;
              redact_pl = get_redact_power_level state;
              same_domain = (case get_redacts (ev_content event) of
                  Some target \<Rightarrow> domain_matches target (ev_id event)
                | None \<Rightarrow> False)
          in require (\<not> (sender_pl < redact_pl \<and> \<not> same_domain))
               (InvalidSyntax (''m.room.redaction requires sender PL >= redact level, or same '' @
                               ''domain as the redacted event''))
        else Inr ()))"

definition check_sender_membership :: "lean_event \<Rightarrow> state_provider \<Rightarrow> auth_result" where
  "check_sender_membership event state =
     (let membership = (case member_of state (ev_sender event) of Some m \<Rightarrow> m | None \<Rightarrow> MEM_LEAVE)
      in if membership = MEM_BAN then Inl (banned_user (ev_sender event) (ev_id event))
         else if membership \<noteq> MEM_JOIN \<and>
                 \<not> (ev_type event = M_ROOM_MEMBER \<and> ev_state_key event = Some (ev_sender event) \<and>
                    get_membership (ev_content event) \<noteq> Some MEM_BAN)
         then Inl (not_member (ev_sender event) (ev_id event))
         else Inr ())"

definition check_required_power ::
  "lean_event \<Rightarrow> state_provider \<Rightarrow> state_res_version \<Rightarrow> auth_result" where
  "check_required_power event state version =
     (if ev_type event = M_ROOM_MEMBER then Inr ()
      else if state M_ROOM_POWER_LEVELS [] = None \<and> ev_type event = M_ROOM_POWER_LEVELS then Inr ()
      else
        let sender_pl = get_sender_power_level (ev_sender event) state version;
            required_pl = get_required_power_level (ev_type event) (ev_state_key event) state
        in require (\<not> sender_pl < required_pl)
             (InsufficientPowerLevel required_pl sender_pl (ev_type event)))"

definition check_state_key_owner :: "lean_event \<Rightarrow> auth_result" where
  "check_state_key_owner event =
     (if ev_type event = M_ROOM_MEMBER then Inr ()
      else (case ev_state_key event of
          Some sk \<Rightarrow>
            require (\<not> (starts_with CHR 0x40 sk \<and> sk \<noteq> ev_sender event))
              (InvalidStateKey (ev_sender event) sk)
        | None \<Rightarrow> Inr ()))"

section \<open>Authorization\<close>

definition check_auth_with_context ::
  "lean_event \<Rightarrow> state_provider \<Rightarrow> state_res_version \<Rightarrow> event_verifier option \<Rightarrow>
   event_provider option \<Rightarrow> auth_result" where
  "check_auth_with_context event state version verifier auth_context =
     ok_then (check_limits event version)
    (ok_then (reject_flagged_auth_state event state)
    (ok_then (run_verifier event verifier)
    (if ev_type event = M_ROOM_CREATE then check_create_event event
     else
       rbind (validated_room_version_or_v1 state) (\<lambda>_.
       ok_then (check_federate event state)
      (ok_then (check_aliases event state)
      (ok_then (check_redaction_event event state version)
      (ok_then (check_auth_selection event state version auth_context)
      (ok_then (check_sender_membership event state)
      (ok_then (check_required_power event state version)
      (ok_then (check_state_key_owner event)
      (ok_then (check_power_levels_event event state version)
               (check_member_event event state version verifier)))))))))))) "

definition check_auth ::
  "lean_event \<Rightarrow> state_provider \<Rightarrow> state_res_version \<Rightarrow> event_verifier option \<Rightarrow> auth_result" where
  "check_auth event state version verifier =
     check_auth_with_context event state version verifier None"

datatype forward_extremity_result = Valid | SoftFailed auth_error | Rejected auth_error

definition validate_forward_extremity ::
  "lean_event \<Rightarrow> state_provider \<Rightarrow> state_provider \<Rightarrow> state_res_version \<Rightarrow> event_verifier option \<Rightarrow>
   forward_extremity_result" where
  "validate_forward_extremity event auth_events_state current_room_state version verifier =
     (case check_auth event auth_events_state version verifier of
        Inl e \<Rightarrow> Rejected e
      | Inr _ \<Rightarrow> (case check_auth event current_room_state version None of
          Inl e \<Rightarrow> SoftFailed e
        | Inr _ \<Rightarrow> Valid))"

end
