(* ===== verification/Auth_Correct.thy ===== *)
theory Auth_Correct
  imports Check_Auth
begin

text \<open>
  Correctness of the authorization rules: what an accepted event implies about its sender, about the
  levels a power levels event may change, about removals, joins and cited auth events, and that the
  verdict depends on no slots but the auth event selection and the few it leaves out (\<open>slots_read\<close>).
\<close>

section \<open>What acceptance means\<close>

lemma check_auth_accepts:
  "check_auth_with_context event state version verifier ctx = Inr () \<longleftrightarrow>
     check_limits event version = Inr () \<and> reject_flagged_auth_state event state = Inr () \<and>
     run_verifier event verifier = Inr () \<and>
     (if ev_type event = M_ROOM_CREATE then check_create_event event = Inr ()
      else (\<exists>v. validated_room_version_or_v1 state = Inr v) \<and>
        check_federate event state = Inr () \<and> check_aliases event state = Inr () \<and>
        check_redaction_event event state version = Inr () \<and>
        check_auth_selection event state version ctx = Inr () \<and>
        check_sender_membership event state = Inr () \<and>
        check_required_power event state version = Inr () \<and>
        check_state_key_owner event = Inr () \<and>
        check_power_levels_event event state version = Inr () \<and>
        check_member_event event state version verifier = Inr ())"
  by (simp add: check_auth_with_context_def)

lemma check_sender_membership_ok:
  "check_sender_membership event state = Inr () \<longleftrightarrow>
     member_of state (ev_sender event) \<noteq> Some MEM_BAN \<and>
     (member_of state (ev_sender event) = Some MEM_JOIN \<or>
      ev_type event = M_ROOM_MEMBER \<and> ev_state_key event = Some (ev_sender event) \<and>
      get_membership (ev_content event) \<noteq> Some MEM_BAN)"
  by (auto simp: check_sender_membership_def Let_def split: option.splits)

lemma check_member_event_ok:
  assumes "check_member_event event state version verifier = Inr ()" "ev_type event = M_ROOM_MEMBER"
  obtains target m where "ev_state_key event = Some target" "get_membership (ev_content event) = Some m"
    "m = MEM_BAN \<Longrightarrow> target \<noteq> ev_sender event"
    "check_transition event state target m version verifier = Inr ()"
    "check_membership_pl_hierarchies event state target m version = Inr ()"
  using assms by (auto simp: check_member_event_def split: option.splits if_splits)

section \<open>Power levels events\<close>

lemma visit_power_level_object_sub: "fst ` set (visit_power_level_object m) \<subseteq> fst ` set m"
  by (induction m rule: visit_power_level_object.induct) (auto split: option.splits)

lemma visit_power_level_object_lookup:
  "distinct (map fst m) \<Longrightarrow> map_of (visit_power_level_object m) k =
     Option.bind (map_of m k) (\<lambda>v. map_option (\<lambda>i. min i MAX_POWER_LEVEL_JSON) (coerce_json_to_i64 v))"
proof (induction m)
  case (Cons e m)
  obtain l v where e: "e = (l, v)" by (cases e)
  have "map_of (visit_power_level_object m) l = None"
    using Cons.prems visit_power_level_object_sub [of m] by (auto simp: e map_of_eq_None_iff)
  with Cons e show ?case by (auto split: option.splits)
qed simp

lemma visit_power_level_object_keys:
  "distinct (map fst m) \<Longrightarrow> distinct (map fst (visit_power_level_object m))"
proof (induction m)
  case (Cons e m)
  obtain l v where e: "e = (l, v)" by (cases e)
  have "l \<notin> fst ` set (visit_power_level_object m)"
    using Cons.prems visit_power_level_object_sub [of m] by (auto simp: e)
  with Cons e show ?case by (auto split: option.splits)
qed simp

lemma collect_levels_lookup:
  assumes "distinct (map fst xs)"
  shows "map_of (collect_levels xs) = map_of xs"
proof -
  have "map_of (collect_levels xs) = map_of (rev xs)"
    using bm.lookup_insert_all [of xs "[]"]
    by (simp add: collect_levels_def bm.insert_all_def)
  moreover have "map_of (rev xs) = map_of xs"
    using assms by (intro map_of_inject_set [THEN iffD2]) (simp_all add: rev_map [symmetric])
  ultimately show ?thesis by simp
qed

lemma collect_levels_entries:
  "(k, v) \<in> set (collect_levels xs) \<longleftrightarrow> map_of (collect_levels xs) k = Some v"
  by (rule bm.entry_lookup) (use bm.invar_insert_all [of "[]" xs] in \<open>simp add: collect_levels_def bm.insert_all_def\<close>)


lemma get_object_Some: "get_object field c = Some m \<longleftrightarrow> get field c = Some (Object m)"
  by (cases "get field c"; cases "the (get field c)") (simp_all add: get_object_def as_object_def)

lemma visited_levels:
  assumes "json_wf c"
  shows "map_of (collect_levels (visit_user_power_levels c)) k = get_user_power_level c k"
    and "map_of (collect_levels (visit_event_power_levels c)) k = get_event_power_level c k"
proof -
  have d: "distinct (map fst m)" if "get_object field c = Some m" for field m
    using that json_wf_get [OF assms, of field "Object m"]
    by (simp add: get_object_Some bm_inv_distinct)
  show "map_of (collect_levels (visit_user_power_levels c)) k = get_user_power_level c k"
    and "map_of (collect_levels (visit_event_power_levels c)) k = get_event_power_level c k"
    using d visit_power_level_object_keys
    by (auto simp: visit_user_power_levels_def visit_event_power_levels_def visit_power_levels_def
        get_user_power_level_def get_event_power_level_def collect_levels_lookup
        visit_power_level_object_lookup collect_levels_def [of "[]"] split: option.splits)
qed

lemma check_scalar_pl_ok:
  "check_scalar_pl field old new p = Inr () \<longleftrightarrow>
     old = new \<or> (\<forall>v. old = Some v \<longrightarrow> v \<le> p) \<and> (\<forall>v. new = Some v \<longrightarrow> v \<le> p)"
  by (auto simp: check_scalar_pl_def split: option.splits)

lemma check_level_map_ok:
  assumes "check_level_map name (collect_levels xs) (collect_levels ys) p = Inr ()"
  shows "map_of (collect_levels xs) k = Some v \<Longrightarrow> v > p \<Longrightarrow> map_of (collect_levels ys) k = Some v"
    and "map_of (collect_levels ys) k = Some v \<Longrightarrow> v > p \<Longrightarrow> map_of (collect_levels xs) k = Some v"
  using assms by (fastforce simp: check_level_map_def collect_levels_entries [symmetric])+

lemma check_user_levels_ok:
  assumes "check_user_levels sender (collect_levels xs) (collect_levels ys) p = Inr ()"
  shows "map_of (collect_levels xs) k = Some v \<Longrightarrow> k \<noteq> sender \<Longrightarrow> v \<ge> p \<Longrightarrow>
      map_of (collect_levels ys) k = Some v"
    and "map_of (collect_levels ys) k = Some v \<Longrightarrow> v > p \<Longrightarrow> map_of (collect_levels xs) k = Some v"
  using assms by (fastforce simp: check_user_levels_def collect_levels_entries [symmetric])+


section \<open>Levels\<close>

lemma get_sender_power_level_max: "get_sender_power_level user state version \<le> I64_MAX"
proof (cases "is_v2_1_plus version \<and>
    (case state M_ROOM_CREATE [] of None \<Rightarrow> False | Some c \<Rightarrow> is_room_creator c user)")
  case True
  then show ?thesis
    by (auto simp: get_sender_power_level_creator MAX_POWER_LEVEL_RUST_def split: option.splits)
next
  case False
  then have "get_sender_power_level user state version \<le> MAX_POWER_LEVEL_JSON"
    using get_sender_power_level_json by blast
  then show ?thesis by (simp add: MAX_POWER_LEVEL_JSON_def I64_MAX_def)
qed

lemma removal_needs_power_aux:
  assumes acc: "check_auth_with_context event state version verifier ctx = Inr ()"
    and ty: "ev_type event = M_ROOM_MEMBER" and sk: "ev_state_key event = Some target"
    and other: "target \<noteq> ev_sender event"
    and m: "get_membership (ev_content event) = Some m" "m \<in> {MEM_LEAVE, MEM_BAN}"
  shows "get_sender_power_level target state version
      < get_sender_power_level (ev_sender event) state version \<and>
    (if m = MEM_BAN \<or> current_membership state target = MEM_BAN then get_ban_power_level state
     else get_kick_power_level state) \<le> get_sender_power_level (ev_sender event) state version"
proof -
  have me: "check_member_event event state version verifier = Inr ()"
    using acc ty by (simp add: check_auth_accepts)
  have t: "check_transition event state target m version verifier = Inr ()"
    and h: "check_membership_pl_hierarchies event state target m version = Inr ()"
    using check_member_event_ok [OF me ty] sk m(1) by (metis option.inject)+
  from h other m(2) have "get_sender_power_level target state version
      < get_sender_power_level (ev_sender event) state version"
    by (auto simp: check_membership_pl_hierarchies_def Let_def)
  moreover from t other m(2) have "(if m = MEM_BAN \<or> current_membership state target = MEM_BAN
      then get_ban_power_level state else get_kick_power_level state)
      \<le> get_sender_power_level (ev_sender event) state version"
    by (auto simp: check_transition_def check_leave_rules_def check_ban_rules_def Let_def)
  ultimately show ?thesis by blast
qed

section \<open>Properties\<close>

text \<open>C1: nobody gains a level above that of the sender. When a power levels event is accepted over an
  existing one, every user level and every event level that is above the sender's level after the
  change was the same before it, no level above the sender's is lowered or removed, the level of
  another user at or above the sender's is untouched, and every scalar threshold that changed is
  within the sender's level before and after.\<close>

theorem power_levels_no_escalation:
  fixes state :: state_provider
  assumes acc: "check_auth_with_context event state version verifier ctx = Inr ()"
    and ty: "ev_type event = M_ROOM_POWER_LEVELS"
    and prev: "state M_ROOM_POWER_LEVELS [] = Some prev_pl"
    and wf: "json_wf (ev_content event)" "json_wf (ev_content prev_pl)"
    and p: "p = get_sender_power_level (ev_sender event) state version"
  shows
    "(\<forall>u v. get_user_power_level (ev_content event) u = Some v \<longrightarrow> v > p \<longrightarrow>
        get_user_power_level (ev_content prev_pl) u = Some v) \<and>
     (\<forall>u v. get_user_power_level (ev_content prev_pl) u = Some v \<longrightarrow> v \<ge> p \<longrightarrow> u \<noteq> ev_sender event \<longrightarrow>
        get_user_power_level (ev_content event) u = Some v) \<and>
     (\<forall>t v. v > p \<longrightarrow> (get_event_power_level (ev_content event) t = Some v) =
        (get_event_power_level (ev_content prev_pl) t = Some v)) \<and>
     (\<forall>f \<in> {get_users_default, get_events_default, get_state_default, get_ban, get_redact, get_kick,
            get_invite}.
        f (ev_content prev_pl) \<noteq> f (ev_content event) \<longrightarrow>
        (\<forall>v. f (ev_content prev_pl) = Some v \<or> f (ev_content event) = Some v \<longrightarrow> v \<le> p))"
proof -
  have "check_power_levels_event event state version = Inr ()"
    using acc ty by (simp add: check_auth_accepts)
  then have rules: "check_power_levels_rules (ev_sender event) (ev_content event) (ev_content prev_pl) p
      = Inr ()"
    using ty prev p by (auto simp: check_power_levels_event_def Let_def)
  note vis = visited_levels [OF wf(1)] visited_levels [OF wf(2)]
  have u: "get_user_power_level (ev_content prev_pl) u = Some v \<Longrightarrow> u \<noteq> ev_sender event \<Longrightarrow> v \<ge> p \<Longrightarrow>
      get_user_power_level (ev_content event) u = Some v"
    "get_user_power_level (ev_content event) u = Some v \<Longrightarrow> v > p \<Longrightarrow>
      get_user_power_level (ev_content prev_pl) u = Some v" for u v
    using rules check_user_levels_ok [where sender = "ev_sender event" and k = u and v = v and p = p
        and xs = "visit_user_power_levels (ev_content prev_pl)"
        and ys = "visit_user_power_levels (ev_content event)"]
    by (simp_all add: check_power_levels_rules_def vis)
  have e: "get_event_power_level (ev_content prev_pl) t = Some v \<Longrightarrow> v > p \<Longrightarrow>
      get_event_power_level (ev_content event) t = Some v"
    "get_event_power_level (ev_content event) t = Some v \<Longrightarrow> v > p \<Longrightarrow>
      get_event_power_level (ev_content prev_pl) t = Some v" for t v
    using rules check_level_map_ok [where name = "''events''" and k = t and v = v and p = p
        and xs = "visit_event_power_levels (ev_content prev_pl)"
        and ys = "visit_event_power_levels (ev_content event)"]
    by (simp_all add: check_power_levels_rules_def vis)
  have sc: "\<forall>f \<in> {get_users_default, get_events_default, get_state_default, get_ban, get_redact,
      get_kick, get_invite}. f (ev_content prev_pl) \<noteq> f (ev_content event) \<longrightarrow>
        (\<forall>v. f (ev_content prev_pl) = Some v \<or> f (ev_content event) = Some v \<longrightarrow> v \<le> p)"
  proof -
    have g: "check_scalar_pl n old new p = Inr () \<Longrightarrow>
        old \<noteq> new \<longrightarrow> (\<forall>v. old = Some v \<or> new = Some v \<longrightarrow> v \<le> p)" for n old new
      by (auto simp: check_scalar_pl_ok)
    have "check_scalar_levels (ev_content event) (ev_content prev_pl) p = Inr ()"
      using rules by (simp add: check_power_levels_rules_def)
    then have "\<forall>f \<in> {get_users_default, get_events_default, get_state_default, get_ban, get_redact,
      get_kick, get_invite}. \<exists>n. check_scalar_pl n (f (ev_content prev_pl)) (f (ev_content event)) p
        = Inr ()"
      by (auto simp: check_scalar_levels_def)
    with g show ?thesis by meson
  qed
  show ?thesis using u e sc by blast
qed

section \<open>Samples\<close>

definition user_a :: string where "user_a = CHR 0x40 # ''a:h''"
definition user_b :: string where "user_b = CHR 0x40 # ''b:h''"
definition user_c :: string where "user_c = CHR 0x40 # ''c:h''"

definition sample_member :: "string \<Rightarrow> string \<Rightarrow> string \<Rightarrow> lean_event" where
  "sample_member sender target membership =
     sample_event (''$m'' @ target) M_ROOM_MEMBER (Some target) sender
       (Object [(FIELD_MEMBERSHIP, String membership)])"

definition sample_room :: "lean_event list" where
  "sample_room =
     [sample_event ''$create'' M_ROOM_CREATE (Some []) user_a
        (Object [(''creator'', String user_a), (''room_version'', String ''10'')]),
      sample_event ''$pl'' M_ROOM_POWER_LEVELS (Some []) user_a
        (Object [(''users'', Object [(user_a, Number ''100''), (user_b, Number ''50'')])]),
      sample_event ''$jr'' M_ROOM_JOIN_RULES (Some []) user_a
        (Object [(''join_rule'', String ''public'')]),
      sample_member user_a user_a MEM_JOIN, sample_member user_b user_b MEM_JOIN]"

definition sample_levels_change :: lean_event where
  "sample_levels_change = sample_event ''$pl2'' M_ROOM_POWER_LEVELS (Some []) user_b
     (Object [(''ban'', Number ''50''),
              (''users'', Object [(user_a, Number ''100''), (user_b, Number ''50''),
                                  (user_c, Number ''50'')])])"

theorem power_levels_no_escalation_witness:
  "check_auth_with_context sample_levels_change (provider_of sample_room) V2 None None = Inr () \<and>
   get_user_power_level (ev_content sample_levels_change) user_a = Some 100"
proof -
  let ?prev = "sample_event ''$pl'' M_ROOM_POWER_LEVELS (Some []) user_a
        (Object [(''users'', Object [(user_a, Number ''100''), (user_b, Number ''50'')])])"
  have acc: "check_auth_with_context sample_levels_change (provider_of sample_room) V2 None None = Inr ()"
    by code_simp
  have prev: "provider_of sample_room M_ROOM_POWER_LEVELS [] = Some ?prev"
    by (simp add: provider_of_def sample_room_def sample_event_def)
  have ty: "ev_type sample_levels_change = M_ROOM_POWER_LEVELS"
    by (simp add: sample_levels_change_def sample_event_def)
  have wf: "json_wf (ev_content sample_levels_change)" "json_wf (ev_content ?prev)"
    by (simp_all add: sample_levels_change_def sample_event_def bm_inv_def user_a_def user_b_def user_c_def)
  have old: "get_user_power_level (ev_content ?prev) user_a = Some 100" by code_simp
  have lvl: "(100::int) \<ge> get_sender_power_level (ev_sender sample_levels_change)
      (provider_of sample_room) V2"
    by code_simp
  have ne: "user_a \<noteq> ev_sender sample_levels_change"
    by (simp add: sample_levels_change_def sample_event_def user_a_def user_b_def)
  note kept = power_levels_no_escalation [OF acc ty prev wf refl, THEN conjunct2, THEN conjunct1]
  from kept [rule_format, OF old lvl ne] acc show ?thesis by (rule conjI [rotated])
qed

text \<open>C21: a banned user can do nothing. No event other than the creation of a room is accepted from a
  sender whose membership in the state is a ban, whatever its type, the room version and the
  verifier.\<close>

theorem banned_sender_rejected:
  assumes "member_of state (ev_sender event) = Some MEM_BAN" "ev_type event \<noteq> M_ROOM_CREATE"
  shows "check_auth_with_context event state version verifier ctx \<noteq> Inr ()"
  using assms by (simp add: check_auth_accepts check_sender_membership_ok)

theorem banned_sender_rejected_witness:
  "check_auth_with_context (sample_member user_c user_c MEM_JOIN)
     (provider_of (sample_member user_a user_c MEM_BAN # sample_room)) V2 None None \<noteq> Inr ()"
proof (rule banned_sender_rejected)
  show "member_of (provider_of (sample_member user_a user_c MEM_BAN # sample_room))
      (ev_sender (sample_member user_c user_c MEM_JOIN)) = Some MEM_BAN"
    by code_simp
qed (simp add: sample_member_def sample_event_def)

text \<open>C22: only members act in a room. An accepted event that does not create the room comes from a
  joined user, or it is that user's own membership event, and then it is a join by someone not
  banned, a knock by someone neither joined nor invited, or the refusal of an invite or the
  withdrawal of a knock.\<close>

theorem accepted_sender_is_member:
  assumes acc: "check_auth_with_context event state version verifier ctx = Inr ()"
    and ty: "ev_type event \<noteq> M_ROOM_CREATE"
  shows "member_of state (ev_sender event) = Some MEM_JOIN \<or>
    (ev_type event = M_ROOM_MEMBER \<and> ev_state_key event = Some (ev_sender event) \<and>
     (let cur = current_membership state (ev_sender event)
      in get_membership (ev_content event) = Some MEM_JOIN \<and> cur \<noteq> MEM_BAN \<or>
         get_membership (ev_content event) = Some MEM_LEAVE \<and> cur \<in> {MEM_INVITE, MEM_KNOCK} \<or>
         get_membership (ev_content event) = Some MEM_KNOCK \<and>
           cur \<notin> {MEM_JOIN, MEM_INVITE, MEM_BAN}))"
proof (rule disjCI)
  assume nm: "\<not> (ev_type event = M_ROOM_MEMBER \<and> ev_state_key event = Some (ev_sender event) \<and>
     (let cur = current_membership state (ev_sender event)
      in get_membership (ev_content event) = Some MEM_JOIN \<and> cur \<noteq> MEM_BAN \<or>
         get_membership (ev_content event) = Some MEM_LEAVE \<and> cur \<in> {MEM_INVITE, MEM_KNOCK} \<or>
         get_membership (ev_content event) = Some MEM_KNOCK \<and>
           cur \<notin> {MEM_JOIN, MEM_INVITE, MEM_BAN}))"
  from acc ty have sm: "check_sender_membership event state = Inr ()"
    and me: "check_member_event event state version verifier = Inr ()"
    by (simp_all add: check_auth_accepts)
  show "member_of state (ev_sender event) = Some MEM_JOIN"
  proof (rule ccontr)
    assume nj: "member_of state (ev_sender event) \<noteq> Some MEM_JOIN"
    with sm have self: "ev_type event = M_ROOM_MEMBER" "ev_state_key event = Some (ev_sender event)"
      and nb: "member_of state (ev_sender event) \<noteq> Some MEM_BAN"
      and nban: "get_membership (ev_content event) \<noteq> Some MEM_BAN"
      by (auto simp: check_sender_membership_ok)
    from nb nj have cur: "current_membership state (ev_sender event) \<noteq> MEM_BAN"
      "current_membership state (ev_sender event) \<noteq> MEM_JOIN"
      by (auto simp: current_membership_def memberships_neq [symmetric] split: option.splits)
    obtain m where m: "get_membership (ev_content event) = Some m"
      "check_transition event state (ev_sender event) m version verifier = Inr ()"
      using check_member_event_ok [OF me self(1)] self(2) by (metis option.inject)
    then show False
      using nm self cur nban
      by (auto simp: check_transition_def Let_def check_leave_rules_def check_invite_rules_def
          check_knock_rules_def split: if_splits)
  qed
qed

theorem accepted_sender_is_member_witness:
  "check_auth_with_context (sample_member user_c user_c MEM_JOIN) (provider_of sample_room) V2 None None
     = Inr () \<and>
   member_of (provider_of sample_room) user_c \<noteq> Some MEM_JOIN \<and>
   current_membership (provider_of sample_room) user_c \<noteq> MEM_BAN"
proof -
  have acc: "check_auth_with_context (sample_member user_c user_c MEM_JOIN) (provider_of sample_room)
      V2 None None = Inr ()"
    by code_simp
  have nm: "member_of (provider_of sample_room) user_c \<noteq> Some MEM_JOIN" by code_simp
  have f: "ev_type (sample_member user_c user_c MEM_JOIN) \<noteq> M_ROOM_CREATE"
    "ev_sender (sample_member user_c user_c MEM_JOIN) = user_c"
    "get_membership (ev_content (sample_member user_c user_c MEM_JOIN)) = Some MEM_JOIN"
    by (simp_all add: sample_member_def sample_event_def get_membership_def get_str_def get_def as_str_def)
  from accepted_sender_is_member [OF acc f(1)] f(2,3) nm acc show ?thesis
    by (auto simp: Let_def)
qed

text \<open>C5: removing somebody takes more power than they have. An accepted kick, ban or unban of another
  user comes from a sender whose level is strictly above the target's and reaches the kick level of
  the room, or the ban level when it bans or lifts a ban.\<close>

theorem removal_needs_power:
  assumes acc: "check_auth_with_context event state version verifier ctx = Inr ()"
    and ty: "ev_type event = M_ROOM_MEMBER" and sk: "ev_state_key event = Some target"
    and other: "target \<noteq> ev_sender event"
    and m: "get_membership (ev_content event) = Some m" "m \<in> {MEM_LEAVE, MEM_BAN}"
  shows "get_sender_power_level target state version
      < get_sender_power_level (ev_sender event) state version \<and>
    (if m = MEM_BAN \<or> current_membership state target = MEM_BAN then get_ban_power_level state
     else get_kick_power_level state) \<le> get_sender_power_level (ev_sender event) state version"
  using assms by (rule removal_needs_power_aux)

theorem removal_needs_power_witness:
  "check_auth_with_context (sample_member user_a user_b MEM_LEAVE) (provider_of sample_room) V2 None None
     = Inr () \<and>
   get_sender_power_level user_b (provider_of sample_room) V2
     < get_sender_power_level user_a (provider_of sample_room) V2"
proof -
  have acc: "check_auth_with_context (sample_member user_a user_b MEM_LEAVE) (provider_of sample_room)
      V2 None None = Inr ()"
    by code_simp
  have f: "ev_type (sample_member user_a user_b MEM_LEAVE) = M_ROOM_MEMBER"
    "ev_state_key (sample_member user_a user_b MEM_LEAVE) = Some user_b"
    "ev_sender (sample_member user_a user_b MEM_LEAVE) = user_a" "user_b \<noteq> user_a"
    "get_membership (ev_content (sample_member user_a user_b MEM_LEAVE)) = Some MEM_LEAVE"
    by (simp_all add: sample_member_def sample_event_def get_membership_def get_str_def get_def
        as_str_def user_a_def user_b_def)
  from removal_needs_power [OF acc f(1,2) _ f(5)] f(3,4) acc show ?thesis by simp
qed

text \<open>C24: from room version 12 on a creator of the room cannot be removed from it by anybody else: no
  kick or ban of a creator is accepted.\<close>

theorem creator_cannot_be_removed:
  fixes state :: state_provider
  assumes "is_v2_1_plus version" "state M_ROOM_CREATE [] = Some create"
    and "is_room_creator create target"
    and "ev_type event = M_ROOM_MEMBER" "ev_state_key event = Some target" "target \<noteq> ev_sender event"
    and "get_membership (ev_content event) = Some m" "m \<in> {MEM_LEAVE, MEM_BAN}"
  shows "check_auth_with_context event state version verifier ctx \<noteq> Inr ()"
proof
  assume acc: "check_auth_with_context event state version verifier ctx = Inr ()"
  have "get_sender_power_level target state version = I64_MAX"
    using get_sender_power_level_creator [where state = state, OF assms(1-3)]
    by (simp add: MAX_POWER_LEVEL_RUST_def)
  moreover have "get_sender_power_level target state version
      < get_sender_power_level (ev_sender event) state version"
    using removal_needs_power_aux [OF acc assms(4-8)] by blast
  moreover have "get_sender_power_level u state version \<le> I64_MAX" for u
    by (rule get_sender_power_level_max)
  ultimately show False by (metis linorder_not_le)
qed

text \<open>C23: a join is always justified. An accepted join event is sent by the joining user, who is not
  banned, and either the user created the room, or the room is public, or the user was invited or
  joined already, or, where the room version has restricted joins, an authorising user who is joined
  and may invite vouches for it and its server's signature was verified.\<close>

theorem accepted_join_justified:
  fixes state :: state_provider
  assumes acc: "check_auth_with_context event state version verifier ctx = Inr ()"
    and ty: "ev_type event = M_ROOM_MEMBER" and m: "get_membership (ev_content event) = Some MEM_JOIN"
  shows "ev_state_key event = Some (ev_sender event) \<and>
    (let cur = current_membership state (ev_sender event); rule = room_join_rule state
     in cur \<noteq> MEM_BAN \<and>
       ((\<exists>create. state M_ROOM_CREATE [] = Some create \<and> ev_sender create = ev_sender event) \<or>
        rule = RULE_PUBLIC \<or> cur = MEM_INVITE \<or> cur = MEM_JOIN \<or>
        (\<exists>n u. get_room_version_num state = Inr n \<and>
           (rule = RULE_RESTRICTED \<and> n \<ge> 8 \<or> rule = RULE_KNOCK_RESTRICTED \<and> n \<ge> 10) \<and>
           get_join_authorised_via_users_server (ev_content event) = Some u \<and>
           member_of state u = Some MEM_JOIN \<and> user_can_invite u state version \<and>
           (\<forall>v. verifier = Some v \<longrightarrow> verify_join_authorised v (ev_id event) u = Inr ()))))"
proof -
  have me: "check_member_event event state version verifier = Inr ()"
    using acc ty by (simp add: check_auth_accepts)
  obtain target where sk: "ev_state_key event = Some target"
    and t: "check_transition event state target MEM_JOIN version verifier = Inr ()"
    using check_member_event_ok [OF me ty] m by (metis option.inject)
  from t have j: "check_join_rules event state target version verifier = Inr ()"
    by (simp add: check_transition_def Let_def)
  then have tg: "target = ev_sender event" by (auto simp: check_join_rules_def split: if_splits)
  have auth: "check_authorising_user event state u version verifier = Inr () \<Longrightarrow>
      member_of state u = Some MEM_JOIN \<and> user_can_invite u state version \<and>
      (\<forall>v. verifier = Some v \<longrightarrow> verify_join_authorised v (ev_id event) u = Inr ())" for u
    by (auto simp: check_authorising_user_def current_membership_def user_can_invite_def
        meets_threshold_def memberships_neq [symmetric] split: if_splits option.splits)
  show ?thesis
    using j unfolding sk tg
    by (auto simp: check_join_rules_def room_version_at_least_def Let_def
        split: if_splits option.splits dest!: auth)
qed

theorem accepted_join_justified_witness:
  "check_auth_with_context (sample_member user_c user_c MEM_JOIN) (provider_of sample_room) V2 None None
     = Inr () \<and>
   current_membership (provider_of sample_room) user_c \<noteq> MEM_BAN"
proof -
  have acc: "check_auth_with_context (sample_member user_c user_c MEM_JOIN) (provider_of sample_room)
      V2 None None = Inr ()"
    by code_simp
  have f: "ev_type (sample_member user_c user_c MEM_JOIN) = M_ROOM_MEMBER"
    "ev_sender (sample_member user_c user_c MEM_JOIN) = user_c"
    "get_membership (ev_content (sample_member user_c user_c MEM_JOIN)) = Some MEM_JOIN"
    by (simp_all add: sample_member_def sample_event_def get_membership_def get_str_def get_def as_str_def)
  show ?thesis
    using accepted_join_justified [OF acc f(1,3)] f(2) acc by (simp add: Let_def)
qed

text \<open>a new event is rejected exactly when the state of its own auth events does not authorize it,
  soft-failed exactly when only the current room state does not, and valid otherwise.\<close>

lemma forward_extremity_cases:
  "(validate_forward_extremity event auth_state cur version verifier = Rejected e \<longleftrightarrow>
      check_auth event auth_state version verifier = Inl e) \<and>
   (validate_forward_extremity event auth_state cur version verifier = SoftFailed e \<longleftrightarrow>
      check_auth event auth_state version verifier = Inr () \<and>
      check_auth event cur version None = Inl e) \<and>
   (validate_forward_extremity event auth_state cur version verifier = Valid \<longleftrightarrow>
      check_auth event auth_state version verifier = Inr () \<and>
      check_auth event cur version None = Inr ())"
  by (auto simp: validate_forward_extremity_def split: sum.splits)

text \<open>the JSON-facing selection of auth events used when an event is built agrees with the selection
  the authorization check demands of it, so an event built with one cites what the other requires.\<close>

lemma auth_types_agree:
  "auth_types_for_event (ev_type event) (ev_sender event) (ev_state_key event) (ev_content event)
     version room_version
   = required_auth_types_for event (ev_type event) version room_version"
proof -
  have obj: "Option.bind (as_object v) (\<lambda>m. f (map_of m k)) = f (get k v)"
    if "f None = None" for v k and f :: "json option \<Rightarrow> string option"
    using that by (cases v) (simp_all add: as_object_def get_def)
  have "Option.bind (Option.bind (get FIELD_THIRD_PARTY_INVITE c) as_object) (\<lambda>tpi.
            Option.bind (Option.bind (map_of tpi FIELD_SIGNED) as_object) (\<lambda>s.
            Option.bind (map_of s FIELD_TOKEN) as_str))
        = get_third_party_invite_token c" for c
    unfolding get_third_party_invite_token_def third_party_signed_def get_str_def
    by (cases "get FIELD_THIRD_PARTY_INVITE c")
      (auto simp: as_object_def get_def bind_eq_None_conv split: json.splits Option.bind_split)
  then show ?thesis
    by (simp add: auth_types_for_event_def required_auth_types_for_def get_membership_def
        get_join_authorised_via_users_server_def get_str_def)
qed

theorem creator_cannot_be_removed_witness:
  "check_auth_with_context (sample_member user_b user_a MEM_BAN) (provider_of sample_room) V2_1 None None
     \<noteq> Inr ()"
proof -
  let ?create = "sample_event ''$create'' M_ROOM_CREATE (Some []) user_a
        (Object [(''creator'', String user_a), (''room_version'', String ''10'')])"
  have "provider_of sample_room M_ROOM_CREATE [] = Some ?create"
    by (simp add: provider_of_def sample_room_def sample_event_def)
  moreover have "is_room_creator ?create user_a" by (simp add: is_room_creator_def sample_event_def)
  moreover have "ev_type (sample_member user_b user_a MEM_BAN) = M_ROOM_MEMBER"
    "ev_state_key (sample_member user_b user_a MEM_BAN) = Some user_a"
    "user_a \<noteq> ev_sender (sample_member user_b user_a MEM_BAN)"
    "get_membership (ev_content (sample_member user_b user_a MEM_BAN)) = Some MEM_BAN"
    by (simp_all add: sample_member_def sample_event_def get_membership_def get_str_def get_def
        as_str_def user_a_def user_b_def)
  ultimately show ?thesis
    by (intro creator_cannot_be_removed [where state = "provider_of sample_room"
          and create = ?create and m = MEM_BAN]) (auto simp: is_v2_1_plus_def)
qed

section \<open>Cited auth events\<close>

lemma collect_auth_events_ok:
  assumes "collect_auth_events event version provider ids seen = Inr seen'"
  shows "\<forall>i \<in> set ids. \<exists>a. provider i = Some a \<and> \<not> ev_rejected a \<and> ev_type a \<in> set VALID_AUTH_TYPES \<and>
      (is_v2_1_plus version \<longrightarrow> ev_type a \<noteq> M_ROOM_CREATE)"
    and "map_of seen' k = Some i \<Longrightarrow> map_of seen k = Some i \<or>
      i \<in> set ids \<and> (\<exists>a. provider i = Some a \<and> k = (ev_type a, case ev_state_key a of Some s \<Rightarrow> s | None \<Rightarrow> []))"
proof -
  show "\<forall>i \<in> set ids. \<exists>a. provider i = Some a \<and> \<not> ev_rejected a \<and> ev_type a \<in> set VALID_AUTH_TYPES \<and>
      (is_v2_1_plus version \<longrightarrow> ev_type a \<noteq> M_ROOM_CREATE)"
    using assms
    by (induction ids arbitrary: seen) (auto simp: Let_def split: option.splits if_splits)
  show "map_of seen' k = Some i \<Longrightarrow> map_of seen k = Some i \<or>
      i \<in> set ids \<and> (\<exists>a. provider i = Some a \<and> k = (ev_type a, case ev_state_key a of Some s \<Rightarrow> s | None \<Rightarrow> []))"
    using assms
  proof (induction ids arbitrary: seen)
    case (Cons j ids)
    then obtain a where a: "provider j = Some a"
      and rec: "collect_auth_events event version provider ids
        (hm_insert (ev_type a, case ev_state_key a of Some s \<Rightarrow> s | None \<Rightarrow> []) j seen) = Inr seen'"
      by (auto simp: Let_def split: option.splits if_splits)
    from Cons.IH [OF Cons.prems(1) rec] a show ?case
      by (auto simp: map_lookups split: if_splits)
  qed simp
qed

text \<open>C25: citations are complete and current. When an event other than the creation event is accepted with its
  auth events at hand, in every version but the state graph one (V2.2), which does not select auth events, the
  room has a recognised version; every auth event the event cites is known, was not rejected and
  has a type that authorizes, with no creation event from room version 12 on and one before it; and
  for every slot the selection algorithm requires and the state fills, the event cites exactly the
  event the state holds there.\<close>

theorem accepted_citations:
  fixes state :: state_provider
  assumes acc: "check_auth_with_context event state version verifier (Some provider) = Inr ()"
    and ty: "ev_type event \<noteq> M_ROOM_CREATE" and ver: "version \<noteq> V2_2"
  shows "\<exists>rv. room_version_str_or_v1 state = Inr rv \<and>
    (\<forall>i \<in> set (ev_auth_events event). \<exists>a. provider i = Some a \<and> \<not> ev_rejected a \<and>
      ev_type a \<in> set VALID_AUTH_TYPES \<and> (is_v2_1_plus version \<longrightarrow> ev_type a \<noteq> M_ROOM_CREATE)) \<and>
    (\<not> is_v2_1_plus version \<longrightarrow> (\<exists>create. state M_ROOM_CREATE [] = Some create \<and>
      ev_id create \<in> set (ev_auth_events event))) \<and>
    (\<forall>(t, k) \<in> set (required_auth_types_for event (ev_type event) version rv).
      \<forall>e. state t k = Some e \<longrightarrow> ev_id e \<in> set (ev_auth_events event) \<and>
        (\<exists>a. provider (ev_id e) = Some a \<and> ev_type a = t \<and> (case ev_state_key a of Some s \<Rightarrow> s | None \<Rightarrow> []) = k))"
proof -
  have sel: "check_auth_selection event state version (Some provider) = Inr ()"
    using acc ty by (simp add: check_auth_accepts)
  then obtain seen rv where create: "check_create_cited event state version = Inr ()"
    and seen: "collect_auth_events event version provider (ev_auth_events event) [] = Inr seen"
    and rv: "room_version_str_or_v1 state = Inr rv"
    and cite: "\<forall>r \<in> set (required_auth_types_for event (ev_type event) version rv).
      check_citation state seen r = Inr ()"
    using ver by (auto simp: check_auth_selection_def)
  have c1: "\<not> is_v2_1_plus version \<Longrightarrow> \<exists>create. state M_ROOM_CREATE [] = Some create \<and>
      ev_id create \<in> set (ev_auth_events event)"
    using create by (auto simp: check_create_cited_def split: option.splits)
  have c2: "ev_id e \<in> set (ev_auth_events event) \<and>
        (\<exists>a. provider (ev_id e) = Some a \<and> ev_type a = t \<and> (case ev_state_key a of Some s \<Rightarrow> s | None \<Rightarrow> []) = k)"
    if "(t, k) \<in> set (required_auth_types_for event (ev_type event) version rv)" "state t k = Some e" for t k e
  proof -
    have "map_of seen (t, k) = Some (ev_id e)"
      using cite that by (fastforce simp: check_citation_def)
    from collect_auth_events_ok(2) [OF seen this] show ?thesis by auto
  qed
  show ?thesis using rv collect_auth_events_ok(1) [OF seen] c1 c2 by blast
qed

section \<open>Locality\<close>

lemma core_slots:
  assumes "t \<noteq> M_ROOM_CREATE"
  shows "(M_ROOM_MEMBER, s) \<in> set (auth_types_for_event_core t s k m a b v rv)"
    and "(M_ROOM_POWER_LEVELS, []) \<in> set (auth_types_for_event_core t s k m a b v rv)"
    and "t = M_ROOM_MEMBER \<Longrightarrow> k = Some u \<Longrightarrow> u \<noteq> s \<Longrightarrow>
      (M_ROOM_MEMBER, u) \<in> set (auth_types_for_event_core t s k m a b v rv)"
    and "t = M_ROOM_MEMBER \<Longrightarrow> m \<in> {Some MEM_JOIN, Some MEM_INVITE, Some MEM_KNOCK} \<Longrightarrow>
      (M_ROOM_JOIN_RULES, []) \<in> set (auth_types_for_event_core t s k m a b v rv)"
    and "t = M_ROOM_MEMBER \<Longrightarrow> m = Some MEM_INVITE \<Longrightarrow> a = Some u \<Longrightarrow>
      (M_ROOM_THIRD_PARTY_INVITE, u) \<in> set (auth_types_for_event_core t s k m a b v rv)"
proof -
  note core = auth_types_for_event_core_def if_not_P [OF assms]
  show "(M_ROOM_MEMBER, s) \<in> set (auth_types_for_event_core t s k m a b v rv)"
    "(M_ROOM_POWER_LEVELS, []) \<in> set (auth_types_for_event_core t s k m a b v rv)"
    unfolding core set_append by (simp_all only: list.set insert_iff Un_iff simp_thms)
  show "t = M_ROOM_MEMBER \<Longrightarrow> k = Some u \<Longrightarrow> u \<noteq> s \<Longrightarrow>
      (M_ROOM_MEMBER, u) \<in> set (auth_types_for_event_core t s k m a b v rv)"
    "t = M_ROOM_MEMBER \<Longrightarrow> m \<in> {Some MEM_JOIN, Some MEM_INVITE, Some MEM_KNOCK} \<Longrightarrow>
      (M_ROOM_JOIN_RULES, []) \<in> set (auth_types_for_event_core t s k m a b v rv)"
    "t = M_ROOM_MEMBER \<Longrightarrow> m = Some MEM_INVITE \<Longrightarrow> a = Some u \<Longrightarrow>
      (M_ROOM_THIRD_PARTY_INVITE, u) \<in> set (auth_types_for_event_core t s k m a b v rv)"
    unfolding core set_append
    by (simp_all only: if_True option.case set_append list.set insert_iff Un_iff simp_thms not_False_eq_True)
qed

text \<open>The slots that authorization reads: the selection of the code for the event, the creation event, which the
  selection leaves out from room version 12 on, and the authorising member that a join names, which the
  selection leaves out before room version 8. For a creation event, whose selection is empty, these are the
  creation event, the power levels and the membership of the sender.\<close>

definition slots_read :: "lean_event \<Rightarrow> state_res_version \<Rightarrow> string \<Rightarrow> (string \<times> string) list" where
  "slots_read event version room_version =
     (M_ROOM_CREATE, []) #
     required_auth_types_for event (ev_type event) version room_version @
     (if ev_type event = M_ROOM_CREATE then [(M_ROOM_POWER_LEVELS, []), (M_ROOM_MEMBER, ev_sender event)] else []) @
     (if ev_type event = M_ROOM_MEMBER \<and> get_membership (ev_content event) = Some MEM_JOIN
      then (case get_join_authorised_via_users_server (ev_content event) of
          Some authorising_user \<Rightarrow> [(M_ROOM_MEMBER, authorising_user)]
        | None \<Rightarrow> [])
      else [])"

definition agree_on :: "(string \<times> string) list \<Rightarrow> state_provider \<Rightarrow> state_provider \<Rightarrow> bool" where
  "agree_on slots s s' \<longleftrightarrow> list_all (\<lambda>(t, k). s t k = s' t k) slots"

lemma agree_slots:
  fixes s s' :: state_provider
  assumes "agree_on (slots_read event version rv) s s'"
  shows "s M_ROOM_CREATE [] = s' M_ROOM_CREATE []"
    and "s M_ROOM_POWER_LEVELS [] = s' M_ROOM_POWER_LEVELS []"
    and "s M_ROOM_MEMBER (ev_sender event) = s' M_ROOM_MEMBER (ev_sender event)"
    and "ev_type event = M_ROOM_MEMBER \<Longrightarrow> ev_state_key event = Some u \<Longrightarrow>
      s M_ROOM_MEMBER u = s' M_ROOM_MEMBER u"
    and "ev_type event = M_ROOM_MEMBER \<Longrightarrow>
      get_membership (ev_content event) \<in> {Some MEM_JOIN, Some MEM_INVITE, Some MEM_KNOCK} \<Longrightarrow>
      s M_ROOM_JOIN_RULES [] = s' M_ROOM_JOIN_RULES []"
    and "ev_type event = M_ROOM_MEMBER \<Longrightarrow> get_membership (ev_content event) = Some MEM_INVITE \<Longrightarrow>
      get_third_party_invite_token (ev_content event) = Some u \<Longrightarrow>
      s M_ROOM_THIRD_PARTY_INVITE u = s' M_ROOM_THIRD_PARTY_INVITE u"
    and "ev_type event = M_ROOM_MEMBER \<Longrightarrow> get_membership (ev_content event) = Some MEM_JOIN \<Longrightarrow>
      get_join_authorised_via_users_server (ev_content event) = Some u \<Longrightarrow>
      s M_ROOM_MEMBER u = s' M_ROOM_MEMBER u"
proof -
  have agree: "s t k = s' t k" if "(t, k) \<in> set (slots_read event version rv)" for t k
    using that assms unfolding agree_on_def list_all_iff by blast
  have core: "s t k = s' t k"
    if "(t, k) \<in> set (auth_types_for_event_core (ev_type event) (ev_sender event) (ev_state_key event)
       (get_membership (ev_content event)) (get_third_party_invite_token (ev_content event))
       (get_join_authorised_via_users_server (ev_content event)) version rv)" for t k
  proof (rule agree)
    show "(t, k) \<in> set (slots_read event version rv)"
      using that unfolding slots_read_def required_auth_types_for_def set_append list.set by blast
  qed
  note slots = core_slots [THEN core]
  show "s M_ROOM_CREATE [] = s' M_ROOM_CREATE []"
    by (rule agree, unfold slots_read_def, rule list.set_intros)
  show "s M_ROOM_POWER_LEVELS [] = s' M_ROOM_POWER_LEVELS []"
  proof (cases "ev_type event = M_ROOM_CREATE")
    case True
    then show ?thesis by (intro agree) (simp add: slots_read_def)
  qed (rule slots(2))
  show me: "s M_ROOM_MEMBER (ev_sender event) = s' M_ROOM_MEMBER (ev_sender event)"
  proof (cases "ev_type event = M_ROOM_CREATE")
    case True
    then show ?thesis by (intro agree) (simp add: slots_read_def)
  qed (rule slots(1))
  have member: "ev_type event \<noteq> M_ROOM_CREATE" if "ev_type event = M_ROOM_MEMBER" using that by simp
  show "ev_type event = M_ROOM_MEMBER \<Longrightarrow> ev_state_key event = Some u \<Longrightarrow>
      s M_ROOM_MEMBER u = s' M_ROOM_MEMBER u"
    using slots(3) [OF member] me by (cases "u = ev_sender event") simp_all
  show "ev_type event = M_ROOM_MEMBER \<Longrightarrow>
      get_membership (ev_content event) \<in> {Some MEM_JOIN, Some MEM_INVITE, Some MEM_KNOCK} \<Longrightarrow>
      s M_ROOM_JOIN_RULES [] = s' M_ROOM_JOIN_RULES []" by (rule slots(4) [OF member])
  show "ev_type event = M_ROOM_MEMBER \<Longrightarrow> get_membership (ev_content event) = Some MEM_INVITE \<Longrightarrow>
      get_third_party_invite_token (ev_content event) = Some u \<Longrightarrow>
      s M_ROOM_THIRD_PARTY_INVITE u = s' M_ROOM_THIRD_PARTY_INVITE u" by (rule slots(5) [OF member])
  show "ev_type event = M_ROOM_MEMBER \<Longrightarrow> get_membership (ev_content event) = Some MEM_JOIN \<Longrightarrow>
      get_join_authorised_via_users_server (ev_content event) = Some u \<Longrightarrow>
      s M_ROOM_MEMBER u = s' M_ROOM_MEMBER u" by (rule agree) (simp add: slots_read_def)
qed

lemma agree_levels:
  fixes s s' :: state_provider
  assumes "agree_on (slots_read event v rv) s s'"
  shows "get_sender_power_level u s version = get_sender_power_level u s' version"
    and "pl_field_or_default s sel d = pl_field_or_default s' sel d"
    and "get_room_version_num s = get_room_version_num s'"
    and "validated_room_version_or_v1 s = validated_room_version_or_v1 s'"
    and "room_version_at_least s n = room_version_at_least s' n"
  unfolding pl_field_or_default_def room_version_at_least_def get_room_version_num_def
    validated_room_version_or_v1_def get_sender_power_level_def agree_slots(1-2) [OF assms]
  by (rule refl)+

lemma agree_transition:
  fixes s s' :: state_provider
  assumes ag: "agree_on (slots_read event v rv) s s'" and mt: "ev_type event = M_ROOM_MEMBER"
    and sk: "ev_state_key event = Some k" and m: "get_membership (ev_content event) = Some m"
  shows "check_transition event s k m version verifier = check_transition event s' k m version verifier"
proof -
  note lvl = agree_levels [OF ag]
  note levels = get_ban_power_level_def get_kick_power_level_def get_invite_power_level_def
  have cm: "current_membership s k = current_membership s' k"
    by (simp add: current_membership_def member_of_def agree_slots(4) [OF ag mt sk])
  have rule: "room_join_rule s = room_join_rule s'" if "m \<in> {MEM_JOIN, MEM_KNOCK}"
    using agree_slots(5) [OF ag mt] that m by (auto simp: room_join_rule_def)
  have vouch: "check_authorising_user event s u version verifier
      = check_authorising_user event s' u version verifier"
    if "m = MEM_JOIN" "get_join_authorised_via_users_server (ev_content event) = Some u" for u
    using agree_slots(7) [OF ag mt _ that(2)] that(1) m
    by (simp add: check_authorising_user_def current_membership_def member_of_def levels lvl)
  have join: "check_join_rules event s k version verifier = check_join_rules event s' k version verifier"
    if "m = MEM_JOIN"
  proof (cases "get_join_authorised_via_users_server (ev_content event)")
    case None
    from that rule have "room_join_rule s = room_join_rule s'" by simp
    then show ?thesis
      unfolding check_join_rules_def cm lvl agree_slots(1) [OF ag] None option.case by (rule ssubst) (rule refl)
  next
    case (Some u)
    from that rule have "room_join_rule s = room_join_rule s'" by simp
    then show ?thesis
      unfolding check_join_rules_def cm lvl agree_slots(1) [OF ag] Some option.case vouch [OF that Some]
      by (rule ssubst) (rule refl)
  qed
  have knock: "check_knock_rules event s k = check_knock_rules event s' k" if "m = MEM_KNOCK"
    using that rule unfolding check_knock_rules_def cm lvl by simp
  have tpi: "check_third_party_invite event s k c version verifier
      = check_third_party_invite event s' k c version verifier" if "m = MEM_INVITE" for c
    using agree_slots(6) [OF ag mt] that m
    by (cases "get_third_party_invite_token (ev_content event)")
      (simp_all add: check_third_party_invite_def levels lvl Let_def)
  show ?thesis
    using join knock tpi
    by (auto simp: check_transition_def Let_def cm check_leave_rules_def check_ban_rules_def
        check_invite_rules_def levels lvl)
qed

lemma agree_member_event:
  assumes "agree_on (slots_read event v rv) s s'"
  shows "check_member_event event s version verifier = check_member_event event s' version verifier"
  using agree_transition [OF assms] agree_levels(1) [OF assms]
  by (auto simp: check_member_event_def check_membership_pl_hierarchies_def split: option.split)

lemma agree_rules:
  assumes "agree_on (slots_read event v rv) s s'"
  shows "check_federate event s = check_federate event s'"
    and "check_aliases event s = check_aliases event s'"
    and "check_redaction_event event s version = check_redaction_event event s' version"
    and "check_auth_selection event s version None = check_auth_selection event s' version None"
    and "check_sender_membership event s = check_sender_membership event s'"
    and "check_required_power event s version = check_required_power event s' version"
    and "check_power_levels_event event s version = check_power_levels_event event s' version"
  unfolding check_federate_def check_aliases_def check_redaction_event_def check_auth_selection_def
    check_sender_membership_def check_required_power_def get_required_power_level_def
    check_power_levels_event_def check_no_creator_levels_def room_version_str_or_v1_def
    member_of_def get_redact_power_level_def option.case agree_levels [OF assms]
    agree_slots(1-3) [OF assms]
  by (rule refl)+

lemma agree_flagged:
  assumes "agree_on (slots_read event v rv) s s'"
  shows "reject_flagged_auth_state event s = reject_flagged_auth_state event s'"
  unfolding reject_flagged_auth_state_def reject_if_flagged_auth_state_def Let_def
  using agree_slots [OF assms] by (auto split: option.split)

text \<open>C26: authorization reads nothing of the state but the slots of the auth event selection, the creation event and
  the authorising member a join names; a creation event is checked against the creation event, the
  power levels and the membership of its sender alone. Two states that agree on these slots, as
  the selection gives them for any version, give an event the same verdict with the same error.\<close>

theorem check_auth_local:
  assumes "agree_on (slots_read event v rv) s s'"
  shows "check_auth event s version verifier = check_auth event s' version verifier"
  unfolding check_auth_def check_auth_with_context_def agree_flagged [OF assms]
    agree_member_event [OF assms] agree_levels(4) [OF assms] agree_rules [OF assms]
  by (rule refl)

theorem check_auth_local_witness:
  "check_auth (sample_member user_c user_c MEM_JOIN) (provider_of sample_room) V2 None
   = check_auth (sample_member user_c user_c MEM_JOIN)
       (provider_of (sample_room @ [sample_member user_a user_b MEM_BAN])) V2 None"
proof (rule check_auth_local)
  have slots: "slots_read (sample_member user_c user_c MEM_JOIN) V2 ''10''
    = [(M_ROOM_CREATE, []), (M_ROOM_CREATE, []), (M_ROOM_MEMBER, user_c), (M_ROOM_POWER_LEVELS, []), (M_ROOM_JOIN_RULES, [])]"
    by code_simp
  show "agree_on (slots_read (sample_member user_c user_c MEM_JOIN) V2 ''10'') (provider_of sample_room)
      (provider_of (sample_room @ [sample_member user_a user_b MEM_BAN]))"
    unfolding agree_on_def slots
    by (simp add: provider_of_def sample_room_def sample_member_def sample_event_def
        user_a_def user_b_def user_c_def)
qed

definition cited_join :: lean_event where
  "cited_join = (sample_member user_c user_c MEM_JOIN)
     \<lparr>ev_auth_events := [''$create'', ''$pl'', ''$jr'']\<rparr>"

definition sample_provider :: event_provider where
  "sample_provider = map_of (map (\<lambda>e. (ev_id e, e)) sample_room)"

theorem accepted_citations_witness:
  "check_auth_with_context cited_join (provider_of sample_room) V2 None (Some sample_provider) = Inr () \<and>
   (\<exists>a. sample_provider ''$pl'' = Some a \<and> \<not> ev_rejected a \<and> ev_type a \<in> set VALID_AUTH_TYPES)"
proof -
  have acc: "check_auth_with_context cited_join (provider_of sample_room) V2 None (Some sample_provider)
      = Inr ()"
    by code_simp
  have ty: "ev_type cited_join \<noteq> M_ROOM_CREATE"
    by (simp add: cited_join_def sample_member_def sample_event_def)
  have "V2 \<noteq> V2_2" by simp
  moreover have "''$pl'' \<in> set (ev_auth_events cited_join)" by (simp add: cited_join_def)
  ultimately show ?thesis using accepted_citations [OF acc ty] acc by blast
qed

end
