(* ===== verification/Auth_Chain.thy ===== *)
theory Auth_Chain
  imports Auth_Correct
begin

text \<open>
  \<open>check_auth_chain\<close>: events in topological order are authorized one by one against the state that the
  events accepted so far have built, after four checks on room ids and on citations of rejected or
  foreign events. The local variables of the loop are the record \<open>chain\<close>. A room state is the \<open>BTreeMap\<close>
  from \<open>(type, state_key)\<close> to events.
\<close>

section \<open>Model\<close>

type_synonym room_state = "((string \<times> string) \<times> lean_event) list"

definition room_provider :: "room_state \<Rightarrow> state_provider" where
  "room_provider st t k = map_of st (t, k)"

definition check_create_room_id :: "lean_event \<Rightarrow> bool \<Rightarrow> auth_result" where
  "check_create_room_id event is_v12_plus =
     (if ev_type event \<noteq> M_ROOM_CREATE then Inr ()
      else if is_v12_plus
      then require (ev_room_id event = None)
             (InvalidSyntax (''m.room.create must not declare room_id -- the room'' @ [CHR 0x27] @
                ''s ID is derived from this event'' @ [CHR 0x27] @
                ''s own hash and isn'' @ [CHR 0x27] @ ''t knowable until this event exists''))
      else (case ev_room_id event of
          Some declared \<Rightarrow>
            require (domain_matches declared (ev_sender event))
              (InvalidSyntax (''m.room.create room_id '' @ declared @
                 '' domain does not match sender '' @ ev_sender event @ '' domain''))
        | None \<Rightarrow> Inr ()))"

definition check_room_id_matches_accepted_create ::
  "lean_event \<Rightarrow> bool \<Rightarrow> room_state \<Rightarrow> string list \<Rightarrow> auth_result" where
  "check_room_id_matches_accepted_create event is_v12_plus st rejected_ids =
     (if \<not> is_v12_plus \<or> ev_type event = M_ROOM_CREATE then Inr ()
      else (case ev_room_id event of
          None \<Rightarrow> Inr ()
        | Some declared \<Rightarrow>
            require
              (case room_provider st M_ROOM_CREATE [] of
                 None \<Rightarrow> False
               | Some create_ev \<Rightarrow>
                   ev_id create_ev \<notin> set rejected_ids \<and>
                   (case strip_prefix CHR ''$'' (ev_id create_ev) of
                      None \<Rightarrow> False
                    | Some hash_part \<Rightarrow> declared = CHR ''!'' # hash_part))
              (InvalidSyntax (''room_id '' @ declared @
                 '' is not the event ID of an accepted m.room.create event''))))"

definition check_not_citing_rejected_auth_event :: "lean_event \<Rightarrow> string list \<Rightarrow> auth_result" where
  "check_not_citing_rejected_auth_event event rejected_ids =
     (case List.find (\<lambda>auth_id. auth_id \<in> set rejected_ids) (ev_auth_events event) of
        Some auth_event_id \<Rightarrow> Inl (RejectedAuthEvent (ev_id event) auth_event_id)
      | None \<Rightarrow> Inr ())"

fun find_foreign ::
  "string \<Rightarrow> (string \<times> lean_event) list \<Rightarrow> string list \<Rightarrow> (string \<times> string option) option" where
  "find_foreign expected event_map [] = None"
| "find_foreign expected event_map (auth_id # ids) =
     (case map_of event_map auth_id of
        None \<Rightarrow> find_foreign expected event_map ids
      | Some auth_event \<Rightarrow>
          if ev_room_id auth_event = Some expected then find_foreign expected event_map ids
          else Some (auth_id, ev_room_id auth_event))"

definition check_foreign_room_citation ::
  "lean_event \<Rightarrow> (string \<times> lean_event) list \<Rightarrow> auth_result" where
  "check_foreign_room_citation event event_map = (case ev_room_id event of
       None \<Rightarrow> Inr ()
     | Some expected \<Rightarrow> (case find_foreign expected event_map (ev_auth_events event) of
         Some (auth_event_id, actual) \<Rightarrow>
           Inl (ForeignRoomEvent (ev_id event) auth_event_id expected actual)
       | None \<Rightarrow> Inr ()))"

definition chain_event_map :: "lean_event list \<Rightarrow> room_state \<Rightarrow> (string \<times> lean_event) list" where
  "chain_event_map sorted_events initial_state =
     fold (\<lambda>(_, ev) m. if map_of m (ev_id ev) = None then hm_insert (ev_id ev) ev m else m)
       initial_state
       (fold (\<lambda>ev. hm_insert (ev_id ev) ev) sorted_events [])"

record chain =
  ch_state :: room_state
  ch_accepted :: "string list"
  ch_rejected :: "(string \<times> auth_error) list"
  ch_rejected_ids :: "string list"

definition chain_reject :: "lean_event \<Rightarrow> auth_error \<Rightarrow> chain \<Rightarrow> chain" where
  "chain_reject event err c =
     c\<lparr>ch_rejected := ch_rejected c @ [(ev_id event, err)],
       ch_rejected_ids := ev_id event # ch_rejected_ids c\<rparr>"

definition chain_accept :: "lean_event \<Rightarrow> chain \<Rightarrow> chain" where
  "chain_accept event c =
     c\<lparr>ch_state := (case ev_state_key event of
           Some state_key \<Rightarrow> bm_insert (ev_type event, state_key) event (ch_state c)
         | None \<Rightarrow>
             if ev_type event = M_ROOM_CREATE
             then bm_insert (ev_type event, []) event (ch_state c)
             else ch_state c),
       ch_accepted := ch_accepted c @ [ev_id event]\<rparr>"

definition chain_pre_check ::
  "bool \<Rightarrow> (string \<times> lean_event) list \<Rightarrow> lean_event \<Rightarrow> chain \<Rightarrow> auth_result" where
  "chain_pre_check is_v12_plus event_map event c =
     ok_then (check_create_room_id event is_v12_plus)
    (ok_then (check_room_id_matches_accepted_create event is_v12_plus (ch_state c) (ch_rejected_ids c))
    (ok_then (check_not_citing_rejected_auth_event event (ch_rejected_ids c))
             (check_foreign_room_citation event event_map)))"

definition chain_step ::
  "state_res_version \<Rightarrow> (string \<times> lean_event) list \<Rightarrow> lean_event \<Rightarrow> chain \<Rightarrow> chain" where
  "chain_step version event_map event c =
     (case chain_pre_check (version \<in> {V2_1, V2_1_1, V2_2, V3}) event_map event c of
        Inl err \<Rightarrow> chain_reject event err c
      | Inr _ \<Rightarrow>
          (case check_auth_with_context event (room_provider (ch_state c)) version None
                  (Some (map_of event_map)) of
             Inr _ \<Rightarrow> chain_accept event c
           | Inl e \<Rightarrow> chain_reject event e c))"

definition chain_init :: "room_state \<Rightarrow> chain" where
  "chain_init initial_state =
     \<lparr>ch_state = initial_state, ch_accepted = [], ch_rejected = [], ch_rejected_ids = []\<rparr>"

definition run_chain ::
  "state_res_version \<Rightarrow> (string \<times> lean_event) list \<Rightarrow> room_state \<Rightarrow> lean_event list \<Rightarrow> chain" where
  "run_chain version event_map initial_state evs =
     fold (chain_step version event_map) evs (chain_init initial_state)"

definition check_auth_chain ::
  "lean_event list \<Rightarrow> room_state \<Rightarrow> state_res_version \<Rightarrow> string list \<times> (string \<times> auth_error) list" where
  "check_auth_chain sorted_events initial_state version =
     (let c = run_chain version (chain_event_map sorted_events initial_state) initial_state sorted_events
      in (ch_accepted c, ch_rejected c))"

section \<open>Verdicts\<close>

text \<open>The verdict on an event in a chain state, and the steps it decides.\<close>

definition chain_verdict ::
  "state_res_version \<Rightarrow> (string \<times> lean_event) list \<Rightarrow> lean_event \<Rightarrow> chain \<Rightarrow> auth_result" where
  "chain_verdict version event_map event c =
     ok_then (chain_pre_check (version \<in> {V2_1, V2_1_1, V2_2, V3}) event_map event c)
       (check_auth_with_context event (room_provider (ch_state c)) version None (Some (map_of event_map)))"

lemma chain_step_verdict:
  "chain_step version event_map event c =
     (case chain_verdict version event_map event c of
        Inr _ \<Rightarrow> chain_accept event c
      | Inl e \<Rightarrow> chain_reject event e c)"
  by (simp add: chain_step_def chain_verdict_def split: sum.split)

lemma run_chain_snoc:
  "run_chain version m st (evs @ [e]) = chain_step version m e (run_chain version m st evs)"
  by (simp add: run_chain_def)

lemma chain_fields [simp]:
  "ch_accepted (chain_accept e c) = ch_accepted c @ [ev_id e]"
  "ch_rejected (chain_accept e c) = ch_rejected c"
  "ch_rejected_ids (chain_accept e c) = ch_rejected_ids c"
  "ch_accepted (chain_reject e err c) = ch_accepted c"
  "ch_rejected (chain_reject e err c) = ch_rejected c @ [(ev_id e, err)]"
  "ch_rejected_ids (chain_reject e err c) = ev_id e # ch_rejected_ids c"
  "ch_state (chain_reject e err c) = ch_state c"
  by (simp_all add: chain_accept_def chain_reject_def)

lemma rejected_ids_are_reported:
  "set (ch_rejected_ids (run_chain version m st evs)) = fst ` set (ch_rejected (run_chain version m st evs))"
proof (induction evs rule: rev_induct)
  case Nil
  then show ?case by (simp add: run_chain_def chain_init_def)
next
  case (snoc e evs)
  then show ?case by (auto simp: run_chain_snoc chain_step_verdict split: sum.splits)
qed

lemma chain_partition:
  "\<exists>ok. length ok = length evs \<and>
     ch_accepted (run_chain version m st evs) = map (\<lambda>p. ev_id (fst p)) (filter snd (zip evs ok)) \<and>
     map fst (ch_rejected (run_chain version m st evs)) = map (\<lambda>p. ev_id (fst p)) (filter (\<lambda>p. \<not> snd p) (zip evs ok))"
proof (induction evs rule: rev_induct)
  case Nil
  then show ?case by (simp add: run_chain_def chain_init_def)
next
  case (snoc e evs)
  then obtain ok where ok: "length ok = length evs"
    "ch_accepted (run_chain version m st evs) = map (\<lambda>p. ev_id (fst p)) (filter snd (zip evs ok))"
    "map fst (ch_rejected (run_chain version m st evs)) = map (\<lambda>p. ev_id (fst p)) (filter (\<lambda>p. \<not> snd p) (zip evs ok))"
    by blast
  let ?v = "chain_verdict version m e (run_chain version m st evs)"
  show ?case
    by (rule exI [of _ "ok @ [is_ok ?v]"], cases ?v)
      (use ok in \<open>simp_all add: run_chain_snoc chain_step_verdict\<close>)
qed

lemma chain_state_accepted:
  assumes "map_of (ch_state (run_chain version m st evs)) k = Some x"
  shows "map_of st k = Some x \<or>
    (\<exists>pre post. evs = pre @ x # post \<and> k = (ev_type x, case ev_state_key x of Some s \<Rightarrow> s | None \<Rightarrow> []) \<and>
       chain_verdict version m x (run_chain version m st pre) = Inr ())"
  using assms
proof (induction evs rule: rev_induct)
  case Nil
  then show ?case by (simp add: run_chain_def chain_init_def)
next
  case (snoc e evs)
  let ?c = "run_chain version m st evs" and ?v = "chain_verdict version m e (run_chain version m st evs)"
  have old: ?case if "map_of (ch_state ?c) k = Some x"
    using snoc.IH [OF that] by (metis append.assoc append_Cons)
  show ?case
  proof (cases ?v)
    case (Inl a)
    with snoc.prems old show ?thesis by (simp add: run_chain_snoc chain_step_verdict)
  next
    case (Inr u)
    show ?thesis
    proof (cases "map_of (ch_state ?c) k = Some x")
      case False
      with snoc.prems Inr have "x = e \<and> k = (ev_type e, case ev_state_key e of Some s \<Rightarrow> s | None \<Rightarrow> [])"
        by (auto simp: run_chain_snoc chain_step_verdict chain_accept_def map_lookups
            split: option.splits if_splits)
      with Inr show ?thesis
        by (intro disjI2 exI [of _ evs] exI [of _ "[]"]) simp
    qed (rule old)
  qed
qed

section \<open>Properties\<close>

text \<open>every event gets exactly one verdict. The accepted and the rejected ids of a chain are the ids
  of its events, each reported once per event on one side, in the order of the input.\<close>

lemma check_auth_chain_partition:
  "\<exists>ok. length ok = length evs \<and>
     fst (check_auth_chain evs st version) = map (\<lambda>p. ev_id (fst p)) (filter snd (zip evs ok)) \<and>
     map fst (snd (check_auth_chain evs st version))
       = map (\<lambda>p. ev_id (fst p)) (filter (\<lambda>p. \<not> snd p) (zip evs ok))"
  using chain_partition by (simp add: check_auth_chain_def Let_def)

text \<open>rejection is contagious. An event that cites, among its auth events, an id rejected earlier in
  the chain is itself rejected, and so is everything built on it.\<close>

lemma citing_rejected_is_rejected:
  assumes "a \<in> set (ev_auth_events e)"
    and "a \<in> fst ` set (ch_rejected (run_chain version m st pre))"
  shows "\<exists>err. ch_rejected (run_chain version m st (pre @ [e]))
    = ch_rejected (run_chain version m st pre) @ [(ev_id e, err)]"
proof -
  let ?c = "run_chain version m st pre"
  have "a \<in> set (ch_rejected_ids ?c)" using assms(2) by (simp add: rejected_ids_are_reported)
  then have "List.find (\<lambda>i. i \<in> set (ch_rejected_ids ?c)) (ev_auth_events e) \<noteq> None"
    using assms(1) by (auto simp: find_None_iff)
  then have "check_not_citing_rejected_auth_event e (ch_rejected_ids ?c) \<noteq> Inr ()"
    by (auto simp: check_not_citing_rejected_auth_event_def)
  then have "chain_verdict version m e ?c \<noteq> Inr ()"
    by (auto simp: chain_verdict_def chain_pre_check_def)
  then show ?thesis
    by (cases "chain_verdict version m e ?c") (auto simp: run_chain_snoc chain_step_verdict)
qed

text \<open>C27: the state a chain builds holds only authorized events. Every entry of the state after a chain
  is an entry of the initial state, or an event of the chain stored under its own type and state key
  that passed the full authorization check against the state and the rejections of the events before
  it.\<close>

theorem chain_state_authorized:
  assumes "map_of (ch_state (run_chain version m st evs)) k = Some x"
  shows "map_of st k = Some x \<or>
    (\<exists>pre post. evs = pre @ x # post \<and> k = (ev_type x, case ev_state_key x of Some s \<Rightarrow> s | None \<Rightarrow> []) \<and>
       check_auth_with_context x (room_provider (ch_state (run_chain version m st pre))) version None
         (Some (map_of m)) = Inr () \<and>
       (\<forall>a \<in> set (ev_auth_events x). a \<notin> fst ` set (ch_rejected (run_chain version m st pre))))"
proof -
  have v: "check_auth_with_context x (room_provider (ch_state c)) version None (Some (map_of m)) = Inr ()
      \<and> (\<forall>a \<in> set (ev_auth_events x). a \<notin> set (ch_rejected_ids c))"
    if "chain_verdict version m x c = Inr ()" for c
    using that by (auto simp: chain_verdict_def chain_pre_check_def
        check_not_citing_rejected_auth_event_def find_None_iff split: option.splits)
  from chain_state_accepted [OF assms] show ?thesis
    using v by (metis rejected_ids_are_reported)
qed

section \<open>Witnesses\<close>

definition chain_create :: lean_event where
  "chain_create = sample_event ''$create'' M_ROOM_CREATE (Some []) user_a
     (Object [(''creator'', String user_a), (''room_version'', String ''10'')])"

definition chain_join :: lean_event where
  "chain_join = (sample_member user_a user_a MEM_JOIN)
     \<lparr>ev_prev_events := [''$create''], ev_auth_events := [''$create'']\<rparr>"

definition chain_intruder :: lean_event where
  "chain_intruder = (sample_event ''$bad'' M_ROOM_JOIN_RULES (Some []) user_b (Object []))
     \<lparr>ev_auth_events := [''$create'']\<rparr>"

definition chain_follower :: lean_event where
  "chain_follower = (sample_event ''$follow'' M_ROOM_TOPIC (Some []) user_a (Object []))
     \<lparr>ev_auth_events := [''$create'', ''$m'' @ user_a, ''$bad'']\<rparr>"

definition sample_chain :: "lean_event list" where
  "sample_chain = [chain_create, chain_join, chain_intruder]"

lemma citing_rejected_is_rejected_witness:
  "''$bad'' \<in> fst ` set (ch_rejected (run_chain V2 (chain_event_map sample_chain []) [] sample_chain)) \<and>
   (\<exists>err. ch_rejected (run_chain V2 (chain_event_map sample_chain []) [] (sample_chain @ [chain_follower]))
     = ch_rejected (run_chain V2 (chain_event_map sample_chain []) [] sample_chain) @ [(''$follow'', err)])"
proof -
  have bad: "''$bad'' \<in> fst ` set (ch_rejected (run_chain V2 (chain_event_map sample_chain []) [] sample_chain))"
    by code_simp
  have "''$bad'' \<in> set (ev_auth_events chain_follower)" by (simp add: chain_follower_def)
  from citing_rejected_is_rejected [OF this bad] bad show ?thesis
    by (simp add: chain_follower_def sample_event_def)
qed

theorem chain_state_authorized_witness:
  "map_of (ch_state (run_chain V2 (chain_event_map sample_chain []) [] sample_chain)) (M_ROOM_MEMBER, user_a)
     = Some chain_join \<and>
   (\<exists>pre post. sample_chain = pre @ chain_join # post \<and>
     check_auth_with_context chain_join
       (room_provider (ch_state (run_chain V2 (chain_event_map sample_chain []) [] pre))) V2 None
       (Some (map_of (chain_event_map sample_chain []))) = Inr ())"
proof -
  have s: "map_of (ch_state (run_chain V2 (chain_event_map sample_chain []) [] sample_chain))
      (M_ROOM_MEMBER, user_a) = Some chain_join"
    by code_simp
  from chain_state_authorized [OF s] s show ?thesis by auto
qed

end
