(* ===== verification/Mainline.thy ===== *)
theory Mainline
  imports Kahn_Sort
begin

text \<open>
  The mainline ordering of \<open>resolve::sorting\<close>: the chain of power levels events behind the resolved one,
  the position of every event relative to it, and the sort of the non-power events. The event provider is
  a finite map, as every implementation of \<open>EventProvider\<close> is, which makes the three searches total
  functions. A hash set is the list of its elements. Positions are \<open>usize\<close> values, with the two largest
  ones used as marks, as in the code.
\<close>

section \<open>Model\<close>

type_synonym shared_state = "string \<times> string \<Rightarrow> string option"
type_synonym parent_cache = "(string \<times> string option) list"

definition USIZE_MAX :: int where
  "USIZE_MAX = 18446744073709551615"

definition unseen :: "event_map \<Rightarrow> string set \<Rightarrow> nat" where
  "unseen ctx seen = card (fst ` set ctx - seen)"

lemma unseen_less:
  assumes "map_of ctx x = Some ev" "x \<notin> seen"
  shows "unseen ctx (insert x seen) < unseen ctx seen"
proof -
  have "x \<in> fst ` set ctx" using assms(1) by (metis map_of_eq_None_iff option.distinct(1))
  with assms(2) show ?thesis unfolding unseen_def by (intro psubset_card_mono) auto
qed

lemma unseen_mono: "s \<subseteq> t \<Longrightarrow> unseen ctx t \<le> unseen ctx s"
  unfolding unseen_def by (intro card_mono) auto

lemma unseen_outside: "map_of ctx x = None \<Longrightarrow> unseen ctx (insert x seen) = unseen ctx seen"
  unfolding unseen_def by (rule arg_cong [of _ _ card]) (auto simp: map_of_eq_None_iff)

text \<open>The breadth first search for the nearest power levels event.\<close>

function pl_search ::
  "event_map \<Rightarrow> state_res_version \<Rightarrow> string list \<Rightarrow> string list \<Rightarrow> string option" where
  "pl_search ctx version [] visited = None"
| "pl_search ctx version (q_id # queue) visited =
     (if q_id \<in> set visited then pl_search ctx version queue visited
      else (case map_of ctx q_id of
              None \<Rightarrow> pl_search ctx version queue (q_id # visited)
            | Some auth_ev \<Rightarrow>
                if ev_type auth_ev = M_ROOM_POWER_LEVELS then Some q_id
                else pl_search ctx version (queue @ dag_edges auth_ev version) (q_id # visited)))"
  by pat_completeness auto
termination
proof (relation "measures [\<lambda>(ctx, version, queue, visited). unseen ctx (set visited),
    \<lambda>(ctx, version, queue, visited). length queue]", goal_cases)
  case (4 ctx version q_id queue visited auth_ev)
  then show ?case using unseen_less [of ctx q_id auth_ev "set visited"] by simp
next
  case (3 ctx version q_id queue visited)
  then show ?case by (simp add: unseen_outside)
qed auto

definition pl_parent :: "event_map \<Rightarrow> state_res_version \<Rightarrow> string \<Rightarrow> string option" where
  "pl_parent ctx version eid = (case map_of ctx eid of
       None \<Rightarrow> None
     | Some ev \<Rightarrow> pl_search ctx version (dag_edges ev version) [])"

text \<open>The walk along the mainline. It returns the cache it leaves behind together with the mainline.\<close>

function mainline_walk ::
  "event_map \<Rightarrow> state_res_version \<Rightarrow> string option \<Rightarrow> string list \<Rightarrow> parent_cache \<Rightarrow>
   string list \<times> parent_cache" where
  "mainline_walk ctx version None mainline cache = (mainline, cache)"
| "mainline_walk ctx version (Some eid) mainline cache =
     (if eid \<in> set mainline then (mainline, cache)
      else (case map_of cache eid of
              Some cached \<Rightarrow> mainline_walk ctx version cached (mainline @ [eid]) cache
            | None \<Rightarrow>
                let found = pl_parent ctx version eid
                in mainline_walk ctx version found (mainline @ [eid]) (hm_insert eid found cache)))"
  by pat_completeness auto
termination
proof (relation "measure (\<lambda>(ctx, version, current, mainline, cache).
    if current = None then 0
    else Suc (card ((fst ` set ctx \<union> dom (map_of cache)) - set mainline)))", goal_cases)
  case (2 ctx version eid mainline cache found)
  show ?case
  proof (cases "map_of ctx eid")
    case None
    then have "found = None" using 2(3) by (simp add: pl_parent_def)
    then show ?thesis by simp
  next
    case (Some ev)
    then have "eid \<in> fst ` set ctx" by (metis map_of_eq_None_iff option.distinct(1))
    with 2(1) have "card ((fst ` set ctx \<union> dom (map_of (hm_insert eid found cache))) - set (mainline @ [eid]))
        < card ((fst ` set ctx \<union> dom (map_of cache)) - set mainline)"
      by (intro psubset_card_mono) (auto simp: finite_dom_map_of map_lookups)
    then show ?thesis by simp
  qed
next
  case (3 ctx version eid mainline cache cached)
  then have "eid \<in> dom (map_of cache)" by auto
  with 3(1) have "card ((fst ` set ctx \<union> dom (map_of cache)) - set (mainline @ [eid]))
      < card ((fst ` set ctx \<union> dom (map_of cache)) - set mainline)"
    by (intro psubset_card_mono) (auto simp: finite_dom_map_of)
  then show ?case by simp
qed auto

definition build_mainline_with_cache ::
  "shared_state \<Rightarrow> event_map \<Rightarrow> parent_cache \<Rightarrow> string \<Rightarrow> state_res_version \<Rightarrow>
   string list \<times> parent_cache" where
  "build_mainline_with_cache resolved auth_context pl_parent_cache empty_key version =
     mainline_walk auth_context version (resolved (state_slot M_ROOM_POWER_LEVELS empty_key)) []
       pl_parent_cache"

definition build_mainline ::
  "shared_state \<Rightarrow> event_map \<Rightarrow> string \<Rightarrow> state_res_version \<Rightarrow> string list" where
  "build_mainline resolved auth_context empty_key version =
     fst (build_mainline_with_cache resolved auth_context [] empty_key version)"

text \<open>The positions. The stack has its last element first.\<close>

definition PENDING :: int where
  "PENDING = USIZE_MAX - 1"

definition pl_edge :: "event_map \<Rightarrow> state_res_version \<Rightarrow> string \<Rightarrow> string option" where
  "pl_edge ctx version top_id = (case map_of ctx top_id of
       None \<Rightarrow> None
     | Some node \<Rightarrow>
         List.find (\<lambda>aid. case map_of ctx aid of
             Some a \<Rightarrow> ev_type a = M_ROOM_POWER_LEVELS
           | None \<Rightarrow> False) (dag_edges node version))"

lemma pl_edge_known: "pl_edge ctx version x = Some y \<Longrightarrow> \<exists>ev ev'. map_of ctx x = Some ev \<and> map_of ctx y = Some ev'"
  by (auto simp: pl_edge_def find_Some_iff split: option.splits)

function positions_loop ::
  "event_map \<Rightarrow> state_res_version \<Rightarrow> int \<Rightarrow> (string \<times> int) list \<Rightarrow> string list \<Rightarrow> (string \<times> int) list" where
  "positions_loop ctx version len memo [] = memo"
| "positions_loop ctx version len memo (top_id # stack) =
     (if (case map_of memo top_id of Some val \<Rightarrow> val \<noteq> PENDING | None \<Rightarrow> False)
      then positions_loop ctx version len memo stack
      else
        let memo1 = (if map_of memo top_id = None then hm_insert top_id PENDING memo else memo);
            edge = pl_edge ctx version top_id
        in if edge \<noteq> None \<and> map_of memo1 (the edge) = None
           then positions_loop ctx version len memo1 (the edge # top_id # stack)
           else
             let min_pos = (case edge of
                    None \<Rightarrow> USIZE_MAX
                  | Some aid \<Rightarrow> (case map_of memo1 aid of
                      Some child_pos \<Rightarrow> if child_pos \<noteq> PENDING then child_pos else USIZE_MAX
                    | None \<Rightarrow> USIZE_MAX));
                 resolved_pos = (if min_pos = USIZE_MAX then len else min_pos)
             in positions_loop ctx version len (hm_insert top_id resolved_pos memo1) stack)"
  by pat_completeness auto
termination
proof (relation "measures [\<lambda>(ctx, version, len, memo, stack). unseen ctx (dom (map_of memo)),
    \<lambda>(ctx, version, len, memo, stack).
       case stack of [] \<Rightarrow> 0
       | x # _ \<Rightarrow> if map_of memo x = None \<and> map_of ctx x \<noteq> None then 0 else length stack]",
    goal_cases)
  case (2 ctx version len memo top_id stack)
  show ?case
  proof (cases stack)
    case (Cons x xs)
    with 2 show ?thesis by (auto split: option.splits)
  qed (use 2 in \<open>auto split: option.splits\<close>)
next
  case (3 ctx version len memo top_id stack memo1 edge)
  then obtain y where y: "edge = Some y" by auto
  then have k: "map_of ctx top_id \<noteq> None" "map_of ctx y \<noteq> None"
    using pl_edge_known [of ctx version top_id y] 3(3) by auto
  show ?case
  proof (cases "map_of memo top_id")
    case None
    then have "unseen ctx (dom (map_of memo1)) < unseen ctx (dom (map_of memo))"
      using 3(2) k(1) unseen_less [of ctx top_id _ "dom (map_of memo)"] by (auto simp: map_lookups)
    then show ?thesis by simp
  next
    case (Some v)
    then have "memo1 = memo" using 3(2) by simp
    with Some 3(4) y k show ?thesis by auto
  qed
next
  case (4 ctx version len memo top_id stack memo1 edge min_pos resolved_pos)
  have dm: "dom (map_of (hm_insert top_id resolved_pos memo1)) = insert top_id (dom (map_of memo))"
    using 4(2) by (auto simp: map_lookups split: if_splits)
  show ?case
  proof (cases "map_of memo top_id = None \<and> map_of ctx top_id \<noteq> None")
    case True
    then show ?thesis using dm unseen_less [of ctx top_id _ "dom (map_of memo)"] by auto
  next
    case False
    then have "unseen ctx (dom (map_of (hm_insert top_id resolved_pos memo1))) = unseen ctx (dom (map_of memo))"
      unfolding dm using unseen_outside [of ctx top_id] by (auto simp: insert_absorb domI)
    with False show ?thesis by (auto split: list.splits)
  qed
qed simp

fun mainline_memo :: "nat \<Rightarrow> string list \<Rightarrow> (string \<times> int) list \<Rightarrow> (string \<times> int) list" where
  "mainline_memo pos [] memo = memo"
| "mainline_memo pos (i # mainline) memo = mainline_memo (Suc pos) mainline (hm_insert i (int pos) memo)"

definition compute_closest_mainline_positions ::
  "lean_event list \<Rightarrow> string list \<Rightarrow> event_map \<Rightarrow> state_res_version \<Rightarrow> (string \<times> int) list" where
  "compute_closest_mainline_positions events mainline auth_context version =
     fold (\<lambda>ev memo. positions_loop auth_context version (int (length mainline)) memo [ev_id ev])
       events (mainline_memo 0 mainline [])"

definition decorated_cmp :: "lean_event \<times> int \<Rightarrow> lean_event \<times> int \<Rightarrow> ordering" where
  "decorated_cmp x y = (case x of (a, pos_a) \<Rightarrow> case y of (b, pos_b) \<Rightarrow>
     (case cmp pos_b pos_a of
        Equal \<Rightarrow> (case cmp (ev_origin_server_ts a) (ev_origin_server_ts b) of
            Equal \<Rightarrow> cmp (ev_id a) (ev_id b)
          | ord \<Rightarrow> ord)
      | ord \<Rightarrow> ord))"

definition mainline_sort ::
  "lean_event list \<Rightarrow> string list \<Rightarrow> event_map \<Rightarrow> state_res_version \<Rightarrow> lean_event list" where
  "mainline_sort events mainline auth_context version =
     (let dist = compute_closest_mainline_positions events mainline auth_context version;
          decorated = map (\<lambda>ev. (ev, case map_of dist (ev_id ev) of
              Some p \<Rightarrow> p | None \<Rightarrow> int (length mainline))) events
      in map fst (sort_by decorated_cmp decorated))"

end
