(* ===== verification/Local_Auth.thy ===== *)
theory Local_Auth
  imports Mainline Check_Auth
begin

text \<open>
  The authorization of one event during resolution (\<open>state::at\<close>): the local auth context collected from
  the auth events of the event, with its memo table, the overlay of the resolved state and that context
  that the authorization rules read, and \<open>iterative_auth_ok\<close>. Ordered and hashed maps are association
  lists; the resolved state is a partial function from slots to event ids.
\<close>

section \<open>Model\<close>

type_synonym slot = "string \<times> string"
type_synonym local_auth_map = "(slot \<times> (lean_event \<times> int)) list"

record local_auth_cache =
  lac_version :: state_res_version
  lac_map :: "(string \<times> local_auth_map) list"

definition new_local_auth_cache :: "state_res_version \<Rightarrow> local_auth_cache" where
  "new_local_auth_cache version = \<lparr>lac_version = version, lac_map = []\<rparr>"

definition saturating_add_usize :: "int \<Rightarrow> int \<Rightarrow> int" where
  "saturating_add_usize a b = min USIZE_MAX (a + b)"

definition find_event :: "event_map \<Rightarrow> event_map \<Rightarrow> string \<Rightarrow> lean_event option" where
  "find_event first second eid = (case map_of first eid of
       Some ev \<Rightarrow> Some ev
     | None \<Rightarrow> map_of second eid)"

definition event_slot :: "lean_event \<Rightarrow> string \<Rightarrow> slot" where
  "event_slot ev sk = state_slot (ev_type ev) sk"

definition insert_shallower :: "slot \<Rightarrow> lean_event \<Rightarrow> int \<Rightarrow> local_auth_map \<Rightarrow> local_auth_map" where
  "insert_shallower key ev depth local_auth = (case map_of local_auth key of
       None \<Rightarrow> hm_insert key (ev, depth) local_auth
     | Some (_, auth_depth) \<Rightarrow>
         if depth < auth_depth then hm_insert key (ev, depth) local_auth else local_auth)"

definition update_local_auth :: "local_auth_map \<Rightarrow> lean_event \<Rightarrow> int \<Rightarrow> local_auth_map" where
  "update_local_auth local_auth aev depth = (case ev_state_key aev of
       None \<Rightarrow> local_auth
     | Some sk \<Rightarrow> insert_shallower (event_slot aev sk) aev depth local_auth)"

definition transitive_auth :: "state_res_version \<Rightarrow> bool" where
  "transitive_auth version \<longleftrightarrow> version \<in> {V2_1_1, V2_2}"

definition merge_cached :: "local_auth_map \<Rightarrow> int \<Rightarrow> local_auth_map \<Rightarrow> local_auth_map" where
  "merge_cached cached_ancestor current_depth local_auth =
     fold (\<lambda>(key, (ev, auth_depth)).
         insert_shallower key ev (saturating_add_usize current_depth auth_depth))
       cached_ancestor local_auth"

function local_auth_loop ::
  "event_map \<Rightarrow> event_map \<Rightarrow> (string \<times> local_auth_map) list \<Rightarrow> state_res_version \<Rightarrow>
   (string \<times> int) list \<Rightarrow> string list \<Rightarrow> local_auth_map \<Rightarrow> local_auth_map" where
  "local_auth_loop auth_context conflicted cache version [] visited local_auth = local_auth"
| "local_auth_loop auth_context conflicted cache version ((aid, current_depth) # queue) visited local_auth =
     (if aid \<in> set visited
      then local_auth_loop auth_context conflicted cache version queue visited local_auth
      else
        let found = find_event auth_context conflicted aid;
            local_auth1 = (case found of
                Some aev \<Rightarrow> update_local_auth local_auth aev current_depth
              | None \<Rightarrow> local_auth)
        in (case map_of cache aid of
              Some cached_ancestor \<Rightarrow>
                local_auth_loop auth_context conflicted cache version queue (aid # visited)
                  (if transitive_auth version then merge_cached cached_ancestor current_depth local_auth1
                   else local_auth1)
            | None \<Rightarrow>
                local_auth_loop auth_context conflicted cache version
                  (queue @ (if found \<noteq> None \<and> transitive_auth version
                     then map (\<lambda>parent_id. (parent_id, saturating_add_usize current_depth 1))
                            (ev_auth_events (the found))
                     else [])) (aid # visited) local_auth1))"
  by pat_completeness auto

lemma find_event_map_of: "find_event a b x = map_of (a @ b) x"
  by (simp add: find_event_def map_add_def)

lemma unseen_visit: "unseen ctx (insert x seen) \<le> unseen ctx seen"
  by (rule unseen_mono) blast

termination local_auth_loop
proof (relation "measures
    [\<lambda>(a, b, cache, version, queue, visited, local_auth). unseen (a @ b) (set visited),
     \<lambda>(a, b, cache, version, queue, visited, local_auth). length queue]", goal_cases)
  case (4 a b cache version aid depth queue visited local_auth found local1 cached)
  then show ?case using unseen_visit [of "a @ b" aid "set visited"] by simp linarith
next
  case (3 a b cache version aid depth queue visited local_auth found local1)
  show ?case
  proof (cases found)
    case None
    then show ?thesis using unseen_visit [of "a @ b" aid "set visited"] by simp linarith
  next
    case (Some ev)
    then have "unseen (a @ b) (insert aid (set visited)) < unseen (a @ b) (set visited)"
      using 3(1,2) unseen_less [of "a @ b" aid ev "set visited"] by (simp add: find_event_map_of)
    then show ?thesis by simp
  qed
qed auto

definition compute_local_auth ::
  "lean_event \<Rightarrow> event_map \<Rightarrow> event_map \<Rightarrow> local_auth_cache \<Rightarrow> state_res_version \<Rightarrow>
   (slot \<times> lean_event) list \<times> local_auth_cache" where
  "compute_local_auth event auth_context conflicted cache version =
     (case map_of (lac_map cache) (ev_id event) of
        Some cached \<Rightarrow> (map (\<lambda>(k, (ev, _)). (k, ev)) cached, cache)
      | None \<Rightarrow>
          let local_auth = local_auth_loop auth_context conflicted (lac_map cache) version
                (map (\<lambda>aid. (aid, 1)) (ev_auth_events event)) [] []
          in (map (\<lambda>(k, (ev, _)). (k, ev)) local_auth,
              cache\<lparr>lac_map := hm_insert (ev_id event) local_auth (lac_map cache)\<rparr>))"

record overlay_state =
  ov_resolved :: shared_state
  ov_auth_context :: event_map
  ov_sort_set :: event_map
  ov_local_auth :: "(slot \<times> lean_event) list"
  ov_create_ev :: "lean_event option"
  ov_version :: state_res_version
  ov_is_power_phase :: bool
  ov_candidate_event_type :: string

definition overlay_get_event :: "overlay_state \<Rightarrow> state_provider" where
  "overlay_get_event ov event_type state_key =
     (let query = (event_type, state_key)
      in case Option.bind (ov_resolved ov query) (find_event (ov_auth_context ov) (ov_sort_set ov)) of
           Some ev \<Rightarrow> Some ev
         | None \<Rightarrow> (case map_of (ov_local_auth ov) query of
             Some ev \<Rightarrow>
               let is_required_type = (event_type = M_ROOM_POWER_LEVELS \<or> event_type = M_ROOM_JOIN_RULES)
               in if ov_is_power_phase ov \<and> has_ban_evasion_hardening (ov_version ov) \<and> is_required_type
                  then (if ov_resolved ov query \<noteq> None then None
                        else if ov_candidate_event_type ov = M_ROOM_POWER_LEVELS
                             \<or> ov_candidate_event_type ov = M_ROOM_JOIN_RULES
                             \<or> ov_candidate_event_type ov = M_ROOM_MEMBER
                        then Some ev else None)
                  else Some ev
           | None \<Rightarrow> if event_type = M_ROOM_CREATE \<and> state_key = [] then ov_create_ev ov else None))"

definition iterative_auth_ok ::
  "lean_event \<Rightarrow> shared_state \<Rightarrow> event_map \<Rightarrow> event_map \<Rightarrow> (slot \<times> lean_event) list \<Rightarrow>
   lean_event option \<Rightarrow> state_res_version \<Rightarrow> bool \<Rightarrow> bool" where
  "iterative_auth_ok ev resolved auth_context sort_set local_auth cached_create version is_power_phase =
     (if ev_rejected ev then False
      else is_ok (check_auth ev (overlay_get_event
             \<lparr>ov_resolved = resolved, ov_auth_context = auth_context, ov_sort_set = sort_set,
              ov_local_auth = local_auth, ov_create_ev = cached_create, ov_version = version,
              ov_is_power_phase = is_power_phase, ov_candidate_event_type = ev_type ev\<rparr>)
             version None))"

end
