(* ===== verification/Resolve_Iterative.thy ===== *)
theory Resolve_Iterative
  imports Local_Auth
begin

text \<open>
  The iterative state resolver of \<open>resolve::iterative\<close>. The conflicted events are split into power events
  and the rest, the power events are put in Kahn order and checked one by one against the state built so
  far, the mainline is built from the result, and the remaining events are checked in mainline order; the
  agreed entries are restored at the end. The caches that callers may share between runs are passed in and
  returned. The power level cache is not: the sort clears it before it uses it.
\<close>

section \<open>Power and non-power events\<close>

definition route_power_events ::
  "event_map \<Rightarrow> event_map \<Rightarrow> event_map \<Rightarrow> state_res_version \<Rightarrow> event_map \<times> event_map" where
  "route_power_events sort_set power_events non_power_events version =
     fold (\<lambda>(eid, ev) (pwr, non_power).
         if is_power_event ev version then (hm_insert eid ev pwr, non_power)
         else (pwr, hm_insert eid ev non_power))
       sort_set (power_events, non_power_events)"

definition expand_edge ::
  "event_map \<Rightarrow> string \<Rightarrow> event_map \<times> event_map \<times> string list \<Rightarrow> event_map \<times> event_map \<times> string list"
where
  "expand_edge sort_set aid s = (case s of (pwr, non_power, queue) \<Rightarrow>
     if map_of pwr aid \<noteq> None then s
     else (case map_of non_power aid of
         Some owned \<Rightarrow> (hm_insert aid owned pwr, hm_remove aid non_power, queue @ [aid])
       | None \<Rightarrow> (case map_of sort_set aid of
           Some aev \<Rightarrow> (hm_insert aid aev pwr, non_power, queue @ [aid])
         | None \<Rightarrow> s)))"

definition unpromoted :: "event_map \<Rightarrow> event_map \<Rightarrow> event_map \<Rightarrow> nat" where
  "unpromoted sort_set pwr non_power =
     card ((dom (map_of non_power) \<union> dom (map_of sort_set)) - dom (map_of pwr))"

lemma dom_hm_remove: "dom (map_of (hm_remove k m)) = dom (map_of m) - {k}"
  by (auto simp: map_lookups)

lemma expand_edge_measure:
  assumes "expand_edge sort_set aid (pwr, non_power, queue) = (pwr', non_power', queue')"
  shows "(unpromoted sort_set pwr' non_power', queue') = (unpromoted sort_set pwr non_power, queue) \<or>
    unpromoted sort_set pwr' non_power' < unpromoted sort_set pwr non_power"
proof (cases "pwr' = pwr \<and> non_power' = non_power \<and> queue' = queue")
  case False
  have fin: "finite ((dom (map_of non_power) \<union> dom (map_of sort_set)) - dom (map_of pwr))"
    by (simp add: finite_dom_map_of)
  from assms False have new: "map_of pwr aid = None"
    "aid \<in> dom (map_of non_power) \<union> dom (map_of sort_set)"
    "dom (map_of pwr') = insert aid (dom (map_of pwr))"
    "dom (map_of non_power') \<subseteq> dom (map_of non_power)"
    by (auto simp: expand_edge_def map_lookups dom_hm_remove domIff split: if_splits option.splits)
  then have "unpromoted sort_set pwr' non_power' < unpromoted sort_set pwr non_power"
    unfolding unpromoted_def by (intro psubset_card_mono [OF fin]) (auto simp: domIff)
  then show ?thesis ..
qed simp

lemma expand_edges_measure:
  assumes "fold (expand_edge sort_set) aids (pwr, non_power, queue) = (pwr', non_power', queue')"
  shows "(unpromoted sort_set pwr' non_power', queue') = (unpromoted sort_set pwr non_power, queue) \<or>
    unpromoted sort_set pwr' non_power' < unpromoted sort_set pwr non_power"
  using assms
proof (induction aids arbitrary: pwr non_power queue)
  case (Cons a aids)
  obtain p1 n1 q1 where s: "expand_edge sort_set a (pwr, non_power, queue) = (p1, n1, q1)"
    by (metis prod_cases3)
  with Cons.prems have "fold (expand_edge sort_set) aids (p1, n1, q1) = (pwr', non_power', queue')" by simp
  from Cons.IH [OF this] expand_edge_measure [OF s] show ?case by auto
qed simp

function expand_loop ::
  "event_map \<Rightarrow> event_map \<Rightarrow> event_map \<Rightarrow> string list \<Rightarrow> event_map \<times> event_map" where
  "expand_loop sort_set pwr non_power [] = (pwr, non_power)"
| "expand_loop sort_set pwr non_power (eid # queue) =
     (let s = (case map_of sort_set eid of
            Some ev \<Rightarrow> fold (expand_edge sort_set) (ev_auth_events ev) (pwr, non_power, queue)
          | None \<Rightarrow> (pwr, non_power, queue))
      in expand_loop sort_set (fst s) (fst (snd s)) (snd (snd s)))"
  by pat_completeness auto
termination
proof (relation "measures
    [\<lambda>(sort_set, pwr, non_power, queue). unpromoted sort_set pwr non_power,
     \<lambda>(sort_set, pwr, non_power, queue). length queue]", goal_cases)
  case (2 sort_set pwr non_power eid queue s)
  show ?case
  proof (cases "map_of sort_set eid")
    case (Some ev)
    then have "fold (expand_edge sort_set) (ev_auth_events ev) (pwr, non_power, queue) =
        (fst s, fst (snd s), snd (snd s))" using 2 by simp
    from expand_edges_measure [OF this] show ?thesis by (cases s) auto
  qed (use 2 in simp)
qed simp

definition expand_v2_power_events_auth_chains ::
  "event_map \<Rightarrow> event_map \<Rightarrow> event_map \<Rightarrow> event_map \<times> event_map" where
  "expand_v2_power_events_auth_chains power_events non_power_events sort_set =
     expand_loop sort_set power_events non_power_events (map fst power_events)"

function ancestry_loop :: "event_map \<Rightarrow> string list \<Rightarrow> string list \<Rightarrow> string list" where
  "ancestry_loop auth_context [] ancestry = ancestry"
| "ancestry_loop auth_context (aid # queue) ancestry =
     (if aid \<in> set ancestry then ancestry_loop auth_context queue ancestry
      else (case map_of auth_context aid of
          Some aev \<Rightarrow> ancestry_loop auth_context (queue @ ev_auth_events aev) (aid # ancestry)
        | None \<Rightarrow> ancestry_loop auth_context queue (aid # ancestry)))"
  by pat_completeness auto
termination
proof (relation "measures [\<lambda>(ctx, queue, ancestry). unseen ctx (set ancestry),
    \<lambda>(ctx, queue, ancestry). length queue]", goal_cases)
  case (4 ctx aid queue ancestry aev)
  then show ?case using unseen_less [of ctx aid aev "set ancestry"] by simp
next
  case (3 ctx aid queue ancestry)
  then show ?case by (simp add: unseen_outside)
qed auto

definition route_ancestor ::
  "event_map \<Rightarrow> string list \<Rightarrow> state_res_version \<Rightarrow> string \<Rightarrow> event_map \<Rightarrow> event_map" where
  "route_ancestor auth_context original_conflicted_keys version eid power_events =
     (if eid \<in> set original_conflicted_keys then power_events
      else (case map_of auth_context eid of
          None \<Rightarrow> power_events
        | Some ev \<Rightarrow>
            let is_join_rules_allowed = (ev_type ev = M_ROOM_JOIN_RULES \<and> version = V2_1)
            in if ev_type ev = M_ROOM_POWER_LEVELS \<or> ev_type ev = M_ROOM_CREATE \<or> is_join_rules_allowed
               then hm_insert eid ev power_events
               else power_events))"

definition route_msc4297_ancestral_power_events ::
  "event_map \<Rightarrow> event_map \<Rightarrow> string list \<Rightarrow> state_res_version \<Rightarrow> event_map" where
  "route_msc4297_ancestral_power_events power_events auth_context original_conflicted_keys version =
     (if version \<in> {V2_1, V2_1_1, V2_2}
      then fold (route_ancestor auth_context original_conflicted_keys version)
             (ancestry_loop auth_context (concat (map (\<lambda>(_, ev). ev_auth_events ev) power_events)) [])
             power_events
      else power_events)"

section \<open>The steps of the resolver\<close>

definition require_legacy_iterative_version :: "state_res_version \<Rightarrow> (fault, unit) result" where
  "require_legacy_iterative_version version = require (version \<noteq> V3) UnsupportedVersion"

definition select_local_auth_cache ::
  "local_auth_cache option \<Rightarrow> state_res_version \<Rightarrow> local_auth_cache" where
  "select_local_auth_cache external_auth_cache version =
     (let cache = (case external_auth_cache of Some c \<Rightarrow> c | None \<Rightarrow> new_local_auth_cache version)
      in if lac_version cache \<noteq> version then cache\<lparr>lac_map := [], lac_version := version\<rparr> else cache)"

definition prepare_conflicted_and_keys :: "event_map \<Rightarrow> string list" where
  "prepare_conflicted_and_keys conflicted_events = map fst conflicted_events"

definition derive_all_conflicted_keys :: "event_map \<Rightarrow> string \<Rightarrow> slot list" where
  "derive_all_conflicted_keys conflicted_events empty_key =
     map (\<lambda>(_, ev). event_slot ev (case ev_state_key ev of Some sk \<Rightarrow> sk | None \<Rightarrow> empty_key))
       conflicted_events"

definition get_initial_resolved_state :: "shared_state \<Rightarrow> state_res_version \<Rightarrow> shared_state" where
  "get_initial_resolved_state unconflicted version =
     (if is_v2_1_plus version then Map.empty else unconflicted)"

definition merge_unconflicted_power_events ::
  "state_res_version \<Rightarrow> shared_state \<Rightarrow> shared_state \<Rightarrow> string \<Rightarrow> shared_state" where
  "merge_unconflicted_power_events version unconflicted resolved empty_key =
     (if is_v2_1_plus version
      then fold (\<lambda>event_type r.
             let key = state_slot event_type empty_key
             in case unconflicted key of
                  Some v \<Rightarrow> if r key = None then r(key \<mapsto> v) else r
                | None \<Rightarrow> r)
           [M_ROOM_POWER_LEVELS, M_ROOM_JOIN_RULES, M_ROOM_CREATE] resolved
      else resolved)"

fun min_by_event_id :: "lean_event list \<Rightarrow> lean_event option" where
  "min_by_event_id [] = None"
| "min_by_event_id (ev # evs) = (case min_by_event_id evs of
       None \<Rightarrow> Some ev
     | Some m \<Rightarrow> if ev_id ev \<le> ev_id m then Some ev else Some m)"

definition find_create_event ::
  "shared_state \<Rightarrow> event_map \<Rightarrow> event_map \<Rightarrow> string \<Rightarrow> lean_event option" where
  "find_create_event unconflicted conflicted auth_context empty_key =
     (case Option.bind (unconflicted (state_slot M_ROOM_CREATE empty_key))
             (find_event auth_context conflicted) of
        Some ev \<Rightarrow> Some ev
      | None \<Rightarrow> min_by_event_id (filter (\<lambda>ev. ev_type ev = M_ROOM_CREATE) (map snd conflicted)))"

text \<open>The sort context looks an event up in the conflicted set first and in the auth context second.\<close>

definition sort_context :: "event_map \<Rightarrow> event_map \<Rightarrow> event_map" where
  "sort_context conflicted auth_context = conflicted @ auth_context"

definition execute_power_phase ::
  "event_map \<Rightarrow> event_map \<Rightarrow> string list \<Rightarrow> state_res_version \<Rightarrow> event_map \<times> event_map" where
  "execute_power_phase conflicted auth_context original_conflicted_keys version =
     (let (pwr, non_power) = route_power_events conflicted [] [] version;
          (pwr1, non_power1) =
            (if version \<noteq> V1 then expand_v2_power_events_auth_chains pwr non_power conflicted
             else (pwr, non_power))
      in (route_msc4297_ancestral_power_events pwr1 auth_context original_conflicted_keys version,
          non_power1))"

definition is_sender_banned ::
  "lean_event \<Rightarrow> shared_state \<Rightarrow> shared_state \<Rightarrow> event_map \<Rightarrow> bool" where
  "is_sender_banned ev resolved unconflicted events =
     (let query = (M_ROOM_MEMBER, ev_sender ev)
      in case (case resolved query of Some i \<Rightarrow> Some i | None \<Rightarrow> unconflicted query) of
           None \<Rightarrow> False
         | Some member_id \<Rightarrow> (case map_of events member_id of
             None \<Rightarrow> False
           | Some m \<Rightarrow> get_membership (ev_content m) = Some MEM_BAN))"

definition decides_key :: "state_res_version \<Rightarrow> slot list \<Rightarrow> slot \<Rightarrow> bool" where
  "decides_key version conflicted_keys key \<longleftrightarrow> version \<noteq> V1 \<or> key \<in> set conflicted_keys"

definition merge_final_resolved :: "shared_state \<Rightarrow> shared_state \<Rightarrow> shared_state" where
  "merge_final_resolved unconflicted resolved = resolved ++ unconflicted"

record iterative_auth_check =
  ck_auth_context :: event_map
  ck_conflicted :: event_map
  ck_create_ev :: "lean_event option"
  ck_version :: state_res_version

definition event_auth_ok ::
  "iterative_auth_check \<Rightarrow> local_auth_cache \<Rightarrow> lean_event \<Rightarrow> shared_state \<Rightarrow> bool \<Rightarrow>
   bool \<times> local_auth_cache" where
  "event_auth_ok ck cache event resolved is_power =
     (let (local_auth, cache1) = compute_local_auth event (ck_auth_context ck) (ck_conflicted ck) cache
            (ck_version ck)
      in (iterative_auth_ok event resolved (ck_auth_context ck) (ck_conflicted ck) local_auth
            (ck_create_ev ck) (ck_version ck) is_power, cache1))"

text \<open>The body both phases share: check the event and, if it passes, is a state event and may decide its
  key, store it.\<close>

definition admit ::
  "iterative_auth_check \<Rightarrow> slot list \<Rightarrow> bool \<Rightarrow> lean_event \<Rightarrow> shared_state \<times> local_auth_cache \<Rightarrow>
   shared_state \<times> local_auth_cache" where
  "admit ck conflicted_keys is_power event s = (case s of (resolved, cache) \<Rightarrow>
     let (ok, cache1) = event_auth_ok ck cache event resolved is_power
     in if ok
        then (case ev_state_key event of
            None \<Rightarrow> (resolved, cache1)
          | Some sk \<Rightarrow>
              let key = event_slot event sk
              in if decides_key (ck_version ck) conflicted_keys key
                 then (resolved(key \<mapsto> ev_id event), cache1)
                 else (resolved, cache1))
        else (resolved, cache1))"

definition admit_power ::
  "iterative_auth_check \<Rightarrow> slot list \<Rightarrow> string \<Rightarrow> shared_state \<times> local_auth_cache \<Rightarrow>
   shared_state \<times> local_auth_cache" where
  "admit_power ck conflicted_keys eid s =
     (case find_event (ck_conflicted ck) (ck_auth_context ck) eid of
        None \<Rightarrow> s
      | Some event \<Rightarrow> admit ck conflicted_keys True event s)"

definition power_sort_inputs ::
  "event_map \<Rightarrow> event_map \<Rightarrow> lean_event option \<Rightarrow> state_res_version \<Rightarrow> kahn_inputs" where
  "power_sort_inputs power_events context create_ev version =
     \<lparr>ki_events = power_events, ki_sort_context = map_of context, ki_create_ev = create_ev,
      ki_version = version\<rparr>"

definition run_power_phase_iterative_checks ::
  "iterative_auth_check \<Rightarrow> event_map \<Rightarrow> event_map \<Rightarrow> slot list \<Rightarrow> shared_state \<times> local_auth_cache \<Rightarrow>
   (fault, shared_state \<times> local_auth_cache) result" where
  "run_power_phase_iterative_checks ck power_events context conflicted_keys s =
     rbind (kahn_sort (power_sort_inputs power_events context (ck_create_ev ck) (ck_version ck)))
       (\<lambda>sorted_power_ids. Inr (fold (admit_power ck conflicted_keys) sorted_power_ids s))"

section \<open>Entry points\<close>

record iterative_inputs =
  ii_unconflicted :: shared_state
  ii_conflicted :: event_map
  ii_auth_context :: event_map
  ii_version :: state_res_version
  ii_empty_key :: string

record resolve_caches =
  rc_external :: "local_auth_cache option"
  rc_mainline :: parent_cache

definition check_of :: "iterative_inputs \<Rightarrow> iterative_auth_check" where
  "check_of inp =
     \<lparr>ck_auth_context = ii_auth_context inp, ck_conflicted = ii_conflicted inp,
      ck_create_ev = find_create_event (ii_unconflicted inp) (ii_conflicted inp) (ii_auth_context inp)
        (ii_empty_key inp),
      ck_version = ii_version inp\<rparr>"

definition screen_non_power ::
  "iterative_inputs \<Rightarrow> shared_state \<Rightarrow> event_map \<Rightarrow> event_map \<Rightarrow> lean_event list" where
  "screen_non_power inp resolved context non_power =
     (if has_ban_evasion_hardening (ii_version inp)
      then map snd (filter (\<lambda>(_, ev). \<not> is_sender_banned ev resolved (ii_unconflicted inp) context) non_power)
      else map snd non_power)"

definition resolve_iterative_sort_with_all_caches ::
  "iterative_inputs \<Rightarrow> resolve_caches \<Rightarrow> slot list \<Rightarrow>
   (fault, shared_state \<times> local_auth_cache \<times> parent_cache) result" where
  "resolve_iterative_sort_with_all_caches inp caches conflicted_keys =
     ok_then (require_legacy_iterative_version (ii_version inp))
       (let original = prepare_conflicted_and_keys (ii_conflicted inp);
            context = sort_context (ii_conflicted inp) (ii_auth_context inp);
            (pwr, non_power) =
              execute_power_phase (ii_conflicted inp) (ii_auth_context inp) original (ii_version inp);
            ck = check_of inp
        in rbind (run_power_phase_iterative_checks ck pwr context conflicted_keys
               (get_initial_resolved_state (ii_unconflicted inp) (ii_version inp),
                select_local_auth_cache (rc_external caches) (ii_version inp)))
             (\<lambda>(resolved, cache).
                let resolved1 = merge_unconflicted_power_events (ii_version inp) (ii_unconflicted inp)
                      resolved (ii_empty_key inp);
                    (mainline, mainline_cache) = build_mainline_with_cache resolved1 context
                      (rc_mainline caches) (ii_empty_key inp) (ii_version inp);
                    non_power_list = mainline_sort (screen_non_power inp resolved1 context non_power)
                      mainline context (ii_version inp);
                    (resolved2, cache2) = fold (admit ck conflicted_keys False) non_power_list
                      (resolved1, cache)
                in Inr (merge_final_resolved (ii_unconflicted inp) resolved2, cache2, mainline_cache)))"

definition resolve_iterative_sort_with_cache ::
  "iterative_inputs \<Rightarrow> local_auth_cache option \<Rightarrow> slot list option \<Rightarrow> (fault, shared_state) result" where
  "resolve_iterative_sort_with_cache inp external_auth_cache conflicted_keys_override =
     (let conflicted_keys = (case conflicted_keys_override of
            Some ck \<Rightarrow> ck
          | None \<Rightarrow> derive_all_conflicted_keys (ii_conflicted inp) (ii_empty_key inp))
      in rbind (resolve_iterative_sort_with_all_caches inp
             \<lparr>rc_external = external_auth_cache, rc_mainline = []\<rparr> conflicted_keys)
           (\<lambda>(resolved, _, _). Inr resolved))"

definition resolve_iterative_sort :: "iterative_inputs \<Rightarrow> (fault, shared_state) result" where
  "resolve_iterative_sort inp = resolve_iterative_sort_with_cache inp None None"

end
