(* ===== verification/Kahn_Correct.thy ===== *)
theory Kahn_Correct
  imports Kahn_Sort Power_Level
begin

text \<open>
  The reverse topological power ordering meets its specification. \<open>greedy\<close> specifies the order: at each
  step an event of greatest priority among the \<open>ready\<close> ones. \<open>kahn_graph\<close> shows that the in-degrees and
  the adjacency lists built by the code describe the edges of the set, \<open>kahn_inv\<close> is the invariant of the
  main loop and \<open>kahn_step\<close> its preservation; \<open>greedy_maximal_unique\<close> makes the order unique.
\<close>

section \<open>The event graph\<close>

definition events_ok :: "event_map \<Rightarrow> bool" where
  "events_ok events \<longleftrightarrow> hm_inv events \<and> (\<forall>(n, ev) \<in> set events. ev_id ev = n)"

definition keys_of :: "event_map \<Rightarrow> string set" where
  "keys_of events = fst ` set events"

text \<open>The edges of an event into the set, with their multiplicity.\<close>

definition preds :: "event_map \<Rightarrow> state_res_version \<Rightarrow> string \<Rightarrow> string list" where
  "preds events version n = (case map_of events n of
       None \<Rightarrow> []
     | Some ev \<Rightarrow> filter (\<lambda>a. map_of events a \<noteq> None) (dag_edges ev version))"

lemma degree_of_insert [simp]:
  "degree_of (hm_insert k d m) n = (if n = k then d else degree_of m n)"
  by (simp add: degree_of_def map_lookups)

lemma adjacent_of_insert [simp]:
  "adjacent_of (hm_insert k l m) n = (if n = k then l else adjacent_of m n)"
  by (simp add: adjacent_of_def map_lookups)

lemma dom_hm_insert: "dom (map_of (hm_insert k v m)) = insert k (dom (map_of m))"
  by (simp add: map_lookups)

lemma or_insert_lookup:
  "map_of (or_insert k v m) n =
     (case map_of m n of Some x \<Rightarrow> Some x | None \<Rightarrow> if n = k then Some v else None)"
  by (auto simp: or_insert_def map_lookups split: option.splits)

lemma kahn_edges:
  assumes "fold (kahn_edge events n) as (deg, adj) = (deg', adj')"
  shows "degree_of deg' k = degree_of deg k +
      (if k = n then length (filter (\<lambda>a. map_of events a \<noteq> None) as) else 0)"
    and "adjacent_of adj' a = adjacent_of adj a @
      replicate (count_list (filter (\<lambda>a. map_of events a \<noteq> None) as) a) n"
    and "map_of deg n \<noteq> None \<Longrightarrow> dom (map_of deg') = dom (map_of deg)"
    and "hm_inv deg \<Longrightarrow> hm_inv deg'"
proof -
  have "degree_of deg' k = degree_of deg k +
      (if k = n then length (filter (\<lambda>a. map_of events a \<noteq> None) as) else 0) \<and>
    adjacent_of adj' a = adjacent_of adj a @
      replicate (count_list (filter (\<lambda>a. map_of events a \<noteq> None) as) a) n \<and>
    (map_of deg n \<noteq> None \<longrightarrow> dom (map_of deg') = dom (map_of deg)) \<and> (hm_inv deg \<longrightarrow> hm_inv deg')"
    using assms
  proof (induction as arbitrary: deg adj)
    case (Cons b as)
    show ?case
    proof (cases "map_of events b = None")
      case True
      with Cons show ?thesis by (simp add: kahn_edge_def)
    next
      case False
      have ih: "fold (kahn_edge events n) as
          (hm_insert n (degree_of deg n + 1) deg, hm_insert b (adjacent_of adj b @ [n]) adj) = (deg', adj')"
        using Cons.prems False by (simp add: kahn_edge_def [of _ _ b])
      have "replicate m n @ [n] = n # replicate m n" for m by (metis replicate_append_same)
      moreover have "map_of (hm_insert n (degree_of deg n + 1) deg) n \<noteq> None" by (simp add: map_lookups)
      moreover have "map_of deg n \<noteq> None \<Longrightarrow> insert n (dom (map_of deg)) = dom (map_of deg)" by blast
      ultimately show ?thesis
        using Cons.IH [OF ih] False by (simp add: dom_hm_insert hm_inv_insert)
    qed
  qed simp
  then show "degree_of deg' k = degree_of deg k +
      (if k = n then length (filter (\<lambda>a. map_of events a \<noteq> None) as) else 0)"
    and "adjacent_of adj' a = adjacent_of adj a @
      replicate (count_list (filter (\<lambda>a. map_of events a \<noteq> None) as) a) n"
    and "map_of deg n \<noteq> None \<Longrightarrow> dom (map_of deg') = dom (map_of deg)"
    and "hm_inv deg \<Longrightarrow> hm_inv deg'"
    by simp_all
qed

definition edges_in :: "event_map \<Rightarrow> state_res_version \<Rightarrow> lean_event \<Rightarrow> string list" where
  "edges_in events version ev = filter (\<lambda>a. map_of events a \<noteq> None) (dag_edges ev version)"

lemma kahn_nodes:
  assumes "fold (kahn_node events version) es (deg, adj) = (deg', adj')"
    and "distinct (map fst es)" "fst ` set es \<inter> dom (map_of deg) = {}" "hm_inv deg"
  shows "hm_inv deg' \<and> dom (map_of deg') = dom (map_of deg) \<union> fst ` set es \<and>
    degree_of deg' k = (case map_of es k of None \<Rightarrow> degree_of deg k
      | Some ev \<Rightarrow> length (edges_in events version ev)) \<and>
    adjacent_of adj' a = adjacent_of adj a @
      concat (map (\<lambda>(n, ev). replicate (count_list (edges_in events version ev) a) n) es)"
  using assms
proof (induction es arbitrary: deg adj)
  case (Cons e es)
  obtain n ev where e: "e = (n, ev)" by (cases e)
  have new: "map_of deg n = None" using Cons.prems(3) e by auto
  obtain d1 a1 where g: "fold (kahn_edge events n) (dag_edges ev version) (hm_insert n 0 deg, adj) = (d1, a1)"
    by (metis surj_pair)
  then have step: "kahn_node events version e (deg, adj) = (d1, a1)"
    by (simp add: kahn_node_def e or_insert_def new)
  note edges = kahn_edges [OF g]
  have d0: "degree_of deg n = 0" using new by (simp add: degree_of_def)
  have dom1: "dom (map_of d1) = insert n (dom (map_of deg))"
    using edges(3) by (simp add: dom_hm_insert map_lookups)
  have inv1: "hm_inv d1" using edges(4) Cons.prems(4) by (simp add: hm_inv_insert)
  have rest: "fold (kahn_node events version) es (d1, a1) = (deg', adj')"
    using Cons.prems(1) step by simp
  have "fst ` set es \<inter> dom (map_of d1) = {}" "distinct (map fst es)"
    using Cons.prems(2,3) dom1 e by auto
  note ih = Cons.IH [OF rest this(2,1) inv1]
  have "map_of es n = None" using Cons.prems(2) e by (simp add: map_of_eq_None_iff)
  with ih edges(1,2) e dom1 d0 show ?case by (auto simp: edges_in_def split: option.splits)
qed simp

lemma count_concat: "count_list (concat xss) x = sum_list (map (\<lambda>xs. count_list xs x) xss)"
  by (induction xss) auto

lemma count_replicate: "count_list (replicate m n) x = (if x = n then m else 0)"
  by (induction m) auto

lemma kahn_graph:
  assumes "events_ok events" "fold (kahn_node events version) events ([], []) = (deg, adj)"
  shows "hm_inv deg" "dom (map_of deg) = keys_of events"
    and "degree_of deg n = length (preds events version n)"
    and "n \<in> keys_of events \<Longrightarrow> count_list (adjacent_of adj a) n = count_list (preds events version n) a"
    and "set (adjacent_of adj a) \<subseteq> keys_of events"
proof -
  have d: "distinct (map fst events)" using assms(1) by (simp add: events_ok_def hm_inv_def)
  note g = kahn_nodes [OF assms(2) d]
  show "hm_inv deg" "dom (map_of deg) = keys_of events" using g by (auto simp: keys_of_def)
  show "degree_of deg n = length (preds events version n)"
    using g by (auto simp: preds_def edges_in_def degree_of_def split: option.splits)
  have adj: "adjacent_of adj a =
      concat (map (\<lambda>(n, ev). replicate (count_list (edges_in events version ev) a) n) events)" for a
    using g by (auto simp: adjacent_of_def)
  show "set (adjacent_of adj a) \<subseteq> keys_of events"
    by (force simp: adj keys_of_def)
  have "count_list (concat (map (\<lambda>(n, ev). replicate (count_list (edges_in events version ev) a) n) es)) n =
      (case map_of es n of None \<Rightarrow> 0 | Some ev \<Rightarrow> count_list (edges_in events version ev) a)"
    if "distinct (map fst es)" for es n
    using that
  proof (induction es)
    case (Cons e es)
    obtain l ev where e: "e = (l, ev)" by (cases e)
    have "map_of es l = None" using Cons.prems e by (simp add: map_of_eq_None_iff)
    with Cons e show ?case by (simp add: count_replicate)
  qed simp
  from this [OF d] show "n \<in> keys_of events \<Longrightarrow>
      count_list (adjacent_of adj a) n = count_list (preds events version n) a"
    by (auto simp: adj preds_def edges_in_def split: option.splits)
qed

lemma kahn_levels_lookup:
  assumes "events_ok (ki_events k)" "map_of (ki_events k) n = Some ev"
  shows "map_of (kahn_levels k) n =
    Some (get_power_level_from_auth_chain ev (ki_sort_context k) (ki_create_ev k) (ki_version k))"
proof -
  let ?pl = "\<lambda>ev. get_power_level_from_auth_chain ev (ki_sort_context k) (ki_create_ev k) (ki_version k)"
  have "map_of (fold (\<lambda>(n, ev). or_insert n (?pl ev)) es cache) n =
      (case map_of cache n of Some v \<Rightarrow> Some v | None \<Rightarrow> map_option ?pl (map_of es n))" for es cache
    by (induction es arbitrary: cache) (auto simp: or_insert_lookup split: option.splits)
  from this [of "ki_events k" "[]"] assms(2) show ?thesis by (simp add: kahn_levels_def)
qed

section \<open>Greedy topological orders\<close>

text \<open>The specification of the sort: repeatedly take, among the events all of whose edges into the set
  have been taken, one of greatest priority.\<close>

definition priority :: "kahn_inputs \<Rightarrow> string \<Rightarrow> sort_priority" where
  "priority k n = priority_of k (kahn_levels k) n (the (map_of (ki_events k) n))"

definition ready :: "kahn_inputs \<Rightarrow> string list \<Rightarrow> string \<Rightarrow> bool" where
  "ready k xs n \<longleftrightarrow>
     n \<in> keys_of (ki_events k) \<and> n \<notin> set xs \<and> set (preds (ki_events k) (ki_version k) n) \<subseteq> set xs"

inductive greedy :: "kahn_inputs \<Rightarrow> string list \<Rightarrow> bool" for k where
  greedy_Nil: "greedy k []"
| greedy_snoc: "greedy k xs \<Longrightarrow> ready k xs x \<Longrightarrow>
     (\<And>y. ready k xs y \<Longrightarrow> sort_priority_cmp (priority k y) (priority k x) \<noteq> Greater) \<Longrightarrow>
     greedy k (xs @ [x])"

lemma greedy_snoc_iff:
  "greedy k (xs @ [x]) \<longleftrightarrow> greedy k xs \<and> ready k xs x \<and>
     (\<forall>y. ready k xs y \<longrightarrow> sort_priority_cmp (priority k y) (priority k x) \<noteq> Greater)"
  by (subst greedy.simps) auto

definition queue_id :: "sort_priority \<Rightarrow> string" where
  "queue_id p = ev_id (sp_event p)"

lemma priority_id:
  assumes "events_ok (ki_events k)" "n \<in> keys_of (ki_events k)"
  shows "queue_id (priority k n) = n"
proof -
  obtain ev where ev: "map_of (ki_events k) n = Some ev"
    using assms(2) by (metis keys_of_def map_of_eq_None_iff option.exhaust)
  with assms(1) show ?thesis
    by (auto simp: priority_def priority_of_def queue_id_def events_ok_def dest!: map_of_SomeD)
qed

lemma priority_strict:
  assumes "events_ok (ki_events k)" "a \<in> keys_of (ki_events k)" "b \<in> keys_of (ki_events k)"
    and "sort_priority_cmp (priority k a) (priority k b) = Equal"
  shows "a = b"
  using sort_priority_cmp_Equal [OF assms(4)] priority_id [OF assms(1)] assms(2,3)
  by (metis queue_id_def)

lemma greedy_props:
  assumes "greedy k xs"
  shows "distinct xs \<and> set xs \<subseteq> keys_of (ki_events k) \<and>
    (\<forall>i < length xs. set (preds (ki_events k) (ki_version k) (xs ! i)) \<subseteq> set (take i xs))"
  using assms by induction (auto simp: ready_def nth_append less_Suc_eq)

lemma greedy_unique:
  assumes ok: "events_ok (ki_events k)" and "greedy k xs" "greedy k ys" "length xs = length ys"
  shows "xs = ys"
  using assms(2-4)
proof (induction xs arbitrary: ys rule: rev_induct)
  case (snoc x xs)
  then obtain y ys' where ys: "ys = ys' @ [y]" by (cases ys rule: rev_cases) auto
  note gx = snoc.prems(1) [unfolded greedy_snoc_iff] and gy = snoc.prems(2) [unfolded ys greedy_snoc_iff]
  have "length xs = length ys'" using snoc.prems(3) ys by simp
  from snoc.IH [OF conjunct1 [OF gx] conjunct1 [OF gy] this] have eq: "xs = ys'" .
  from gx have x: "ready k xs x"
    and mx: "\<And>z. ready k xs z \<Longrightarrow> sort_priority_cmp (priority k z) (priority k x) \<noteq> Greater"
    by blast+
  from gy have y: "ready k xs y"
    and my: "\<And>z. ready k xs z \<Longrightarrow> sort_priority_cmp (priority k z) (priority k y) \<noteq> Greater"
    unfolding eq by blast+
  have "sort_priority_cmp (priority k x) (priority k y) = Equal"
    using mx [OF y] my [OF x] by (simp add: priority_ord.equal_iff priority_ord.le_def)
  with x y have "x = y" unfolding ready_def by (blast intro: priority_strict [OF ok])
  with eq ys show ?case by simp
qed simp

section \<open>The loop\<close>

lemma kahn_relax_ok:
  assumes "dom (map_of deg) = keys_of (ki_events k)" "set ns \<subseteq> keys_of (ki_events k)"
    and "\<And>n. count_list ns n \<le> degree_of deg n"
  shows "\<exists>deg' ps. kahn_relax k (kahn_levels k) ns deg q = Inr (deg', q @ map (priority k) ps) \<and>
    dom (map_of deg') = dom (map_of deg) \<and>
    (\<forall>n. degree_of deg' n = degree_of deg n - count_list ns n) \<and>
    distinct ps \<and> set ps = {n \<in> set ns. degree_of deg n = count_list ns n}"
  using assms
proof (induction ns arbitrary: deg q)
  case (Cons m ns)
  define d where "d = degree_of deg m"
  have m: "map_of deg m = Some d"
    using Cons.prems(1,2) by (auto simp: d_def degree_of_def split: option.splits)
  have cd: "Suc (count_list ns m) \<le> d" using Cons.prems(3) [of m] by (simp add: d_def)
  obtain ev where ev: "map_of (ki_events k) m = Some ev"
    using Cons.prems(2) by (auto simp: keys_of_def) (metis map_of_eq_None_iff option.exhaust rev_image_eqI fst_conv)
  let ?deg = "hm_insert m (d - 1) deg"
  let ?q = "if d - 1 = 0 then q @ [priority k m] else q"
  have cnt: "count_list ns n \<le> degree_of ?deg n" for n
    using Cons.prems(3) [of n] cd by (auto split: if_splits)
  have "dom (map_of ?deg) = keys_of (ki_events k)"
    using Cons.prems(1) m by (auto simp: dom_hm_insert)
  from Cons.IH [OF this _ cnt, of ?q] Cons.prems(2) obtain deg' ps where
    r: "kahn_relax k (kahn_levels k) ns ?deg ?q = Inr (deg', ?q @ map (priority k) ps)"
    and dom': "dom (map_of deg') = dom (map_of ?deg)"
    and dg: "\<forall>n. degree_of deg' n = degree_of ?deg n - count_list ns n"
    and ps: "distinct ps" "set ps = {n \<in> set ns. degree_of ?deg n = count_list ns n}"
    by auto
  let ?ps = "if d - 1 = 0 then m # ps else ps"
  have run: "kahn_relax k (kahn_levels k) (m # ns) deg q = Inr (deg', q @ map (priority k) ?ps)"
    using r m ev by (auto simp: priority_def Let_def split: if_splits)
  have "distinct ?ps \<and> set ?ps = {n \<in> set (m # ns). degree_of deg n = count_list (m # ns) n}"
  proof (cases "d - 1 = 0")
    case True
    with cd have "d = 1" "count_list ns m = 0" by simp_all
    then have fresh: "m \<notin> set ns" by (simp add: count_list_0_iff)
    have mem: "n \<in> set (m # ps) \<longleftrightarrow> n \<in> set (m # ns) \<and> degree_of deg n = count_list (m # ns) n" for n
    proof (cases "n = m")
      case True
      with \<open>d = 1\<close> \<open>count_list ns m = 0\<close> show ?thesis using d_def by simp
    next
      case False
      then show ?thesis by (simp add: ps(2))
    qed
    have "distinct (m # ps)" using fresh ps(1) unfolding distinct.simps ps(2) by blast
    moreover have "set (m # ps) = {n \<in> set (m # ns). degree_of deg n = count_list (m # ns) n}"
      using mem by blast
    ultimately show ?thesis unfolding if_P [OF True] by blast
  next
    case False
    then have nz: "m \<notin> set ns \<Longrightarrow> d \<noteq> Suc (count_list ns m)" by (simp add: count_list_0_iff)
    have "n \<in> set ps \<longleftrightarrow> n \<in> set (m # ns) \<and> degree_of deg n = count_list (m # ns) n" for n
    proof (cases "n = m")
      case True
      have "m \<in> set ps \<longleftrightarrow> m \<in> set ns \<and> d - 1 = count_list ns m" unfolding ps(2) by simp
      also have "\<dots> \<longleftrightarrow> d = Suc (count_list ns m)" using nz cd by linarith
      finally show ?thesis using True d_def by simp
    next
      case False
      then show ?thesis unfolding ps(2) by simp
    qed
    then have "set ps = {n \<in> set (m # ns). degree_of deg n = count_list (m # ns) n}" by blast
    with ps(1) show ?thesis unfolding if_not_P [OF False] by blast
  qed
  moreover have "dom (map_of deg') = dom (map_of deg)"
    using dom' m by (auto simp: dom_hm_insert)
  moreover have "\<forall>n. degree_of deg' n = degree_of deg n - count_list (m # ns) n"
    using dg cd by (simp add: d_def)
  ultimately show ?case using run by blast
qed simp


definition kahn_inv ::
  "kahn_inputs \<Rightarrow> (string \<times> nat) list \<Rightarrow> sort_priority list \<Rightarrow> string list \<Rightarrow> bool" where
  "kahn_inv k deg q res \<longleftrightarrow>
     dom (map_of deg) = keys_of (ki_events k) \<and>
     (\<forall>n. degree_of deg n = length (filter (\<lambda>a. a \<notin> set res) (preds (ki_events k) (ki_version k) n))) \<and>
     distinct (map queue_id q) \<and> set q = priority k ` {n. ready k res n} \<and> greedy k res"

lemma ready_iff_degree:
  assumes "kahn_inv k deg q res"
  shows "ready k res n \<longleftrightarrow> n \<in> keys_of (ki_events k) \<and> n \<notin> set res \<and> degree_of deg n = 0"
  using assms by (auto simp: kahn_inv_def ready_def filter_empty_conv)

lemma length_filter_insert:
  assumes "x \<notin> A"
  shows "length (filter (\<lambda>a. a \<notin> insert x A) xs) = length (filter (\<lambda>a. a \<notin> A) xs) - count_list xs x"
proof -
  have "length (filter (\<lambda>a. a \<notin> A) xs) = length (filter (\<lambda>a. a \<notin> insert x A) xs) + count_list xs x"
    using assms by (induction xs) auto
  then show ?thesis by simp
qed

lemma count_le_filter: "x \<notin> A \<Longrightarrow> count_list xs x \<le> length (filter (\<lambda>a. a \<notin> A) xs)"
  by (induction xs) auto

definition adjacency_ok :: "kahn_inputs \<Rightarrow> (string \<times> string list) list \<Rightarrow> bool" where
  "adjacency_ok k adj \<longleftrightarrow> (\<forall>a. set (adjacent_of adj a) \<subseteq> keys_of (ki_events k) \<and>
     (\<forall>n \<in> keys_of (ki_events k).
        count_list (adjacent_of adj a) n = count_list (preds (ki_events k) (ki_version k) n) a))"

lemma preds_outside: "n \<notin> keys_of events \<Longrightarrow> preds events version n = []"
  by (metis keys_of_def map_of_eq_None_iff option.simps(4) preds_def)

lemma adjacency_count:
  assumes "adjacency_ok k adj"
  shows "count_list (adjacent_of adj a) n = count_list (preds (ki_events k) (ki_version k) n) a"
proof (cases "n \<in> keys_of (ki_events k)")
  case False
  with assms have "n \<notin> set (adjacent_of adj a)" by (auto simp: adjacency_ok_def)
  with False show ?thesis by (simp add: preds_outside count_list_0_iff)
qed (use assms in \<open>simp add: adjacency_ok_def\<close>)

lemma kahn_inv_done:
  assumes "kahn_inv k deg q res" "n \<in> set res"
  shows "degree_of deg n = 0"
proof -
  from assms(1) have g: "greedy k res"
    and d: "degree_of deg n = length (filter (\<lambda>a. a \<notin> set res) (preds (ki_events k) (ki_version k) n))"
    by (simp_all add: kahn_inv_def)
  from assms(2) obtain i where i: "i < length res" "res ! i = n" by (auto simp: in_set_conv_nth)
  with greedy_props [OF g] have "set (preds (ki_events k) (ki_version k) n) \<subseteq> set (take i res)" by auto
  then show ?thesis using set_take_subset [of i res] by (auto simp: d filter_empty_conv)
qed

lemma pop_ready:
  assumes ok: "events_ok (ki_events k)" and inv: "kahn_inv k deg q res"
    and pop: "heap_pop sort_priority_cmp q = Some (p, q1)"
  shows "p = priority k (queue_id p)" "ready k res (queue_id p)" "greedy k (res @ [queue_id p])"
    and "set q1 = priority k ` {n. ready k res n \<and> n \<noteq> queue_id p}"
    and "distinct (map queue_id q1)"
proof -
  let ?n = "queue_id p"
  from inv have sq: "set q = priority k ` {n. ready k res n}" and dq: "distinct (map queue_id q)"
    and g: "greedy k res" by (simp_all add: kahn_inv_def)
  have ms: "mset q = add_mset p (mset q1)" using pop by (rule heap_pop_mset)
  then have set_q: "set q = insert p (set q1)" by (metis set_mset_add_mset_insert set_mset_mset)
  have ids: "ready k res n \<Longrightarrow> queue_id (priority k n) = n" for n
    by (simp add: priority_id [OF ok] ready_def)
  from set_q sq have "p \<in> priority k ` {n. ready k res n}" by blast
  then show p: "p = priority k ?n" and r: "ready k res ?n" using ids by auto
  have "mset (map queue_id q) = mset (map queue_id (p # q1))" using ms by simp
  then have d: "distinct (map queue_id (p # q1))" using dq by (metis mset_eq_imp_distinct_iff)
  then show "distinct (map queue_id q1)" by simp
  have "priority k y \<in> set q" if "ready k res y" for y using that sq by blast
  then have "sort_priority_cmp (priority k y) (priority k ?n) \<noteq> Greater" if "ready k res y" for y
    using priority_ord.heap_pop_greatest [OF pop] that p by (metis priority_ord.le_def)
  then show "greedy k (res @ [?n])" using g r by (intro greedy_snoc)
  have notin: "?n \<notin> queue_id ` set q1" using d by simp
  show "set q1 = priority k ` {n. ready k res n \<and> n \<noteq> ?n}"
  proof (intro equalityI subsetI)
    fix x assume x: "x \<in> set q1"
    then obtain n where n: "x = priority k n" "ready k res n" using set_q sq by blast
    have "queue_id x = n" using ids [OF n(2)] n(1) by simp
    then have "n \<noteq> ?n" using imageI [OF x, of queue_id] notin by metis
    with n show "x \<in> priority k ` {n. ready k res n \<and> n \<noteq> ?n}" by blast
  next
    fix x assume "x \<in> priority k ` {n. ready k res n \<and> n \<noteq> ?n}"
    then obtain n where n: "x = priority k n" "ready k res n" "n \<noteq> ?n" by blast
    have "x \<in> set q" using n(1,2) unfolding sq by blast
    moreover have "queue_id x \<noteq> ?n" using ids [OF n(2)] n by simp
    ultimately have "x \<in> set q" "x \<noteq> p" by auto
    then show "x \<in> set q1" using set_q by blast
  qed
qed

lemma relax_step:
  assumes ok: "events_ok (ki_events k)" and adj: "adjacency_ok k adj" and inv: "kahn_inv k deg q res"
    and n: "ready k res n"
  shows "\<exists>deg' ps. kahn_relax k (kahn_levels k) (adjacent_of adj n) deg q1 =
      Inr (deg', q1 @ map (priority k) ps) \<and>
    dom (map_of deg') = keys_of (ki_events k) \<and>
    (\<forall>m. degree_of deg' m =
       length (filter (\<lambda>a. a \<notin> set (res @ [n])) (preds (ki_events k) (ki_version k) m))) \<and>
    distinct ps \<and> set ps = {m. ready k (res @ [n]) m \<and> \<not> ready k res m}"
proof -
  let ?P = "preds (ki_events k) (ki_version k)"
  from inv have dm: "dom (map_of deg) = keys_of (ki_events k)"
    and dg: "\<And>m. degree_of deg m = length (filter (\<lambda>a. a \<notin> set res) (?P m))"
    by (simp_all add: kahn_inv_def)
  have fresh: "n \<notin> set res" using n by (simp add: ready_def)
  have le: "count_list (adjacent_of adj n) m \<le> degree_of deg m" for m
    using count_le_filter [OF fresh] by (simp add: adjacency_count [OF adj] dg)
  have sub: "set (adjacent_of adj n) \<subseteq> keys_of (ki_events k)" using adj by (simp add: adjacency_ok_def)
  from kahn_relax_ok [OF dm sub le, of q1] obtain deg' ps where
    run: "kahn_relax k (kahn_levels k) (adjacent_of adj n) deg q1 = Inr (deg', q1 @ map (priority k) ps)"
    and dm': "dom (map_of deg') = dom (map_of deg)"
    and dg': "\<And>m. degree_of deg' m = degree_of deg m - count_list (adjacent_of adj n) m"
    and ps: "distinct ps"
      "set ps = {m \<in> set (adjacent_of adj n). degree_of deg m = count_list (adjacent_of adj n) m}"
    by blast
  have deg': "degree_of deg' m = length (filter (\<lambda>a. a \<notin> set (res @ [n])) (?P m))" for m
    using length_filter_insert [OF fresh] by (simp add: dg' dg adjacency_count [OF adj])
  have rd: "ready k (res @ [n]) m \<longleftrightarrow>
      m \<in> keys_of (ki_events k) \<and> m \<notin> set res \<and> m \<noteq> n \<and> degree_of deg' m = 0" for m
    by (auto simp: ready_def deg' filter_empty_conv)
  have nz: "m \<in> set (adjacent_of adj n) \<longleftrightarrow> count_list (adjacent_of adj n) m \<noteq> 0" for m
    by (simp add: count_list_0_iff)
  have "m \<in> set ps \<longleftrightarrow> ready k (res @ [n]) m \<and> \<not> ready k res m" for m
  proof
    assume m: "m \<in> set ps"
    then have eq: "degree_of deg m = count_list (adjacent_of adj n) m" and pos: "degree_of deg m \<noteq> 0"
      and mk: "m \<in> keys_of (ki_events k)"
      using nz sub unfolding ps(2) by auto
    have "m \<notin> set res" using kahn_inv_done [OF inv, of m] pos by auto
    moreover have "m \<noteq> n" using pos n by (auto simp: ready_iff_degree [OF inv])
    moreover have "degree_of deg' m = 0" using eq by (simp add: dg')
    ultimately show "ready k (res @ [n]) m \<and> \<not> ready k res m"
      using pos mk by (simp add: rd ready_iff_degree [OF inv])
  next
    assume "ready k (res @ [n]) m \<and> \<not> ready k res m"
    then have "degree_of deg' m = 0" "degree_of deg m \<noteq> 0"
      by (auto simp: rd ready_iff_degree [OF inv])
    then have "degree_of deg m = count_list (adjacent_of adj n) m" using le [of m] by (simp add: dg')
    with \<open>degree_of deg m \<noteq> 0\<close> show "m \<in> set ps" unfolding ps(2) by (simp add: nz)
  qed
  then have "set ps = {m. ready k (res @ [n]) m \<and> \<not> ready k res m}" by blast
  with run dm' dm deg' ps(1) show ?thesis by blast
qed

lemma kahn_step:
  assumes ok: "events_ok (ki_events k)" and adj: "adjacency_ok k adj" and inv: "kahn_inv k deg q res"
    and pop: "heap_pop sort_priority_cmp q = Some (p, q1)"
  shows "\<exists>deg' q'. kahn_relax k (kahn_levels k) (adjacent_of adj (queue_id p)) deg q1 = Inr (deg', q') \<and>
    kahn_inv k deg' q' (res @ [queue_id p])"
proof -
  let ?n = "queue_id p" and ?res = "res @ [queue_id p]"
  note popped = pop_ready [OF ok inv pop]
  from relax_step [OF ok adj inv popped(2), of q1] obtain deg' ps where
    run: "kahn_relax k (kahn_levels k) (adjacent_of adj ?n) deg q1 = Inr (deg', q1 @ map (priority k) ps)"
    and dm: "dom (map_of deg') = keys_of (ki_events k)"
    and dg: "\<forall>m. degree_of deg' m =
       length (filter (\<lambda>a. a \<notin> set ?res) (preds (ki_events k) (ki_version k) m))"
    and ps: "distinct ps" "set ps = {m. ready k ?res m \<and> \<not> ready k res m}"
    by blast
  have ids: "ready k xs m \<Longrightarrow> queue_id (priority k m) = m" for xs m
    by (simp add: priority_id [OF ok] ready_def)
  have "map queue_id (map (priority k) ps) = ps"
    unfolding map_map by (rule map_idI) (simp add: ps(2) ids [of ?res])
  moreover have "queue_id ` set q1 = {n. ready k res n \<and> n \<noteq> ?n}"
    unfolding popped(4) image_image using ids by force
  ultimately have dq: "distinct (map queue_id (q1 @ map (priority k) ps))"
    using popped(5) ps by auto
  have keep: "ready k res m \<and> m \<noteq> ?n \<longrightarrow> ready k ?res m" for m by (auto simp: ready_def)
  have gone: "\<not> ready k ?res ?n" by (simp add: ready_def)
  have "{m. ready k ?res m} = {m. ready k res m \<and> m \<noteq> ?n} \<union> {m. ready k ?res m \<and> \<not> ready k res m}"
    using keep gone by blast
  then have "set (q1 @ map (priority k) ps) = priority k ` {m. ready k ?res m}"
    by (simp add: popped(4) ps(2) image_Un)
  with dq dm dg popped(3) have "kahn_inv k deg' (q1 @ map (priority k) ps) ?res"
    by (simp add: kahn_inv_def)
  with run show ?thesis by blast
qed

lemma kahn_loop_ok:
  assumes ok: "events_ok (ki_events k)" and adj: "adjacency_ok k adj" and inv: "kahn_inv k deg q res"
    and fuel: "length (ki_events k) < fuel + length res"
  shows "\<exists>r. kahn_loop k (kahn_levels k) adj fuel deg q res = Inr r \<and> greedy k r \<and> (\<forall>n. \<not> ready k r n)"
  using inv fuel
proof (induction fuel arbitrary: deg q res)
  case 0
  have "distinct res" "set res \<subseteq> keys_of (ki_events k)"
    using greedy_props 0(1) by (auto simp: kahn_inv_def)
  then have "length res \<le> card (keys_of (ki_events k))"
    by (metis card_mono distinct_card finite_imageI finite_set keys_of_def)
  also have "\<dots> \<le> length (ki_events k)"
    by (metis card_length keys_of_def length_map list.set_map)
  finally show ?case using 0 by simp
next
  case (Suc fuel)
  show ?case
  proof (cases "heap_pop sort_priority_cmp q")
    case None
    then have "q = []" by simp
    with Suc.prems(1) have "\<forall>n. \<not> ready k res n" "greedy k res" by (auto simp: kahn_inv_def)
    then show ?thesis by (simp add: None)
  next
    case (Some pq)
    then obtain p q1 where pop: "heap_pop sort_priority_cmp q = Some (p, q1)" by (cases pq) simp
    from kahn_step [OF ok adj Suc.prems(1) pop] obtain deg' q' where
      run: "kahn_relax k (kahn_levels k) (adjacent_of adj (queue_id p)) deg q1 = Inr (deg', q')"
      and inv': "kahn_inv k deg' q' (res @ [queue_id p])" by blast
    have "length (ki_events k) < fuel + length (res @ [queue_id p])" using Suc.prems(2) by simp
    from Suc.IH [OF inv' this] run show ?thesis
      by (simp add: pop Let_def flip: queue_id_def)
  qed
qed

lemma kahn_initial_eq:
  "kahn_initial k (kahn_levels k) deg =
     map (priority k) (filter (\<lambda>n. map_of (ki_events k) n \<noteq> None) (map fst (filter (\<lambda>e. snd e = 0) deg)))"
proof (induction deg)
  case (Cons e deg)
  then show ?case
    by (cases e; cases "map_of (ki_events k) (fst e)") (auto simp: priority_def)
qed simp

lemma kahn_inv_initial:
  assumes ok: "events_ok (ki_events k)"
    and g: "fold (kahn_node (ki_events k) (ki_version k)) (ki_events k) ([], []) = (deg, adj)"
  shows "kahn_inv k deg (kahn_initial k (kahn_levels k) deg) []" "adjacency_ok k adj"
proof -
  note graph = kahn_graph [OF ok g]
  show "adjacency_ok k adj" using graph(4,5) by (simp add: adjacency_ok_def)
  let ?ids = "filter (\<lambda>n. map_of (ki_events k) n \<noteq> None) (map fst (filter (\<lambda>e. snd e = 0) deg))"
  have d: "distinct (map fst deg)" using graph(1) by (simp add: hm_inv_def)
  have zero: "(n, 0) \<in> set deg \<longleftrightarrow> n \<in> keys_of (ki_events k) \<and> degree_of deg n = 0" for n
  proof -
    have "(n, 0) \<in> set deg \<longleftrightarrow> map_of deg n = Some 0" using d by simp
    moreover have "n \<in> keys_of (ki_events k) \<longleftrightarrow> map_of deg n \<noteq> None"
      unfolding graph(2) [symmetric] by (simp add: domIff)
    ultimately show ?thesis by (cases "map_of deg n") (simp_all add: degree_of_def)
  qed
  have key: "map_of (ki_events k) n \<noteq> None \<longleftrightarrow> n \<in> keys_of (ki_events k)" for n
    by (simp add: keys_of_def map_of_eq_None_iff)
  have "n \<in> set ?ids \<longleftrightarrow> (n, 0) \<in> set deg \<and> n \<in> keys_of (ki_events k)" for n
    unfolding key by force
  then have ids: "set ?ids = {n. ready k [] n}"
    using zero graph(3) by (auto simp: ready_def)
  have di: "distinct ?ids" using d by (simp add: distinct_map_filter)
  have "map queue_id (map (priority k) ?ids) = ?ids"
    unfolding map_map
  proof (rule map_idI)
    fix n assume "n \<in> set ?ids"
    then show "(queue_id \<circ> priority k) n = n" unfolding ids by (simp add: ready_def priority_id [OF ok])
  qed
  then have "distinct (map queue_id (kahn_initial k (kahn_levels k) deg))"
    unfolding kahn_initial_eq using di by metis
  moreover have "set (kahn_initial k (kahn_levels k) deg) = priority k ` {n. ready k [] n}"
    unfolding kahn_initial_eq set_map ids ..
  ultimately show "kahn_inv k deg (kahn_initial k (kahn_levels k) deg) []"
    using graph(2,3) by (simp add: kahn_inv_def greedy_Nil)
qed

definition stuck_after :: "kahn_inputs \<Rightarrow> string list \<Rightarrow> string list" where
  "stuck_after k r = filter (\<lambda>n. n \<notin> set r) (map fst (ki_events k))"

lemma with_cycle_outcome:
  assumes "events_ok (ki_events k)"
  obtains r where "greedy k r" "\<And>n. \<not> ready k r n"
    and "with_cycle_diagnostics k =
      Inr (if length r \<noteq> length (ki_events k) then CycleDetected r (stuck_after k r) else KahnOk r)"
proof -
  obtain deg adj where g: "fold (kahn_node (ki_events k) (ki_version k)) (ki_events k) ([], []) = (deg, adj)"
    by (metis surj_pair)
  note init = kahn_inv_initial [OF assms g]
  from kahn_loop_ok [OF assms init(2,1), of "Suc (length (ki_events k))"] obtain r where
    "kahn_loop k (kahn_levels k) adj (Suc (length (ki_events k))) deg
       (kahn_initial k (kahn_levels k) deg) [] = Inr r" "greedy k r" "\<forall>n. \<not> ready k r n"
    by auto
  then show thesis
    by (intro that [of r]) (simp_all add: with_cycle_diagnostics_def g Let_def stuck_after_def del: kahn_loop.simps)
qed

lemma greedy_perm:
  assumes "events_ok (ki_events k)" "greedy k r"
  shows "mset (r @ stuck_after k r) = mset (map fst (ki_events k))"
proof -
  have d: "distinct (map fst (ki_events k))" using assms(1) by (simp add: events_ok_def hm_inv_def)
  from greedy_props [OF assms(2)] have r: "distinct r" "set r \<subseteq> set (map fst (ki_events k))"
    by (auto simp: keys_of_def)
  have "distinct (r @ stuck_after k r)" "set (r @ stuck_after k r) = set (map fst (ki_events k))"
    using r d by (auto simp: stuck_after_def)
  with d show ?thesis by (metis set_eq_iff_mset_eq_distinct)
qed

lemma greedy_complete:
  assumes "events_ok (ki_events k)" "greedy k r"
  shows "length r = length (ki_events k) \<longleftrightarrow> stuck_after k r = []"
  using mset_eq_length [OF greedy_perm [OF assms]] by auto

section \<open>Cycles\<close>

definition cites :: "kahn_inputs \<Rightarrow> (string \<times> string) set" where
  "cites k = {(a, n). a \<in> set (preds (ki_events k) (ki_version k) n)}"

lemma preds_keys: "set (preds events version n) \<subseteq> keys_of events"
  by (auto simp: preds_def keys_of_def map_of_eq_None_iff split: option.splits)

lemma cites_keys: "cites k \<subseteq> keys_of (ki_events k) \<times> keys_of (ki_events k)"
  using preds_keys preds_outside by (fastforce simp: cites_def)

lemma stuck_cites_stuck:
  assumes "\<And>n. \<not> ready k r n" "n \<in> set (stuck_after k r)"
  shows "\<exists>a \<in> set (stuck_after k r). (a, n) \<in> cites k"
proof -
  have "n \<in> keys_of (ki_events k)" "n \<notin> set r" using assms(2) by (auto simp: stuck_after_def keys_of_def)
  with assms(1) [of n] obtain a where "a \<in> set (preds (ki_events k) (ki_version k) n)" "a \<notin> set r"
    by (auto simp: ready_def)
  with preds_keys show ?thesis by (fastforce simp: cites_def stuck_after_def keys_of_def)
qed

lemma acyclic_no_stuck:
  assumes "\<And>n. \<not> ready k r n" "acyclic (cites k)"
  shows "stuck_after k r = []"
proof (rule ccontr)
  assume "stuck_after k r \<noteq> []"
  then obtain n where n: "n \<in> set (stuck_after k r)" by (cases "stuck_after k r") auto
  have "finite (cites k)"
    by (rule finite_subset [OF cites_keys]) (simp add: keys_of_def)
  with assms(2) have "wf (cites k)" by (simp add: finite_acyclic_wf)
  from wfE_min [OF this n] obtain z where "z \<in> set (stuck_after k r)"
    "\<And>y. (y, z) \<in> cites k \<Longrightarrow> y \<notin> set (stuck_after k r)" by blast
  with stuck_cites_stuck [OF assms(1)] show False by blast
qed

lemma greedy_acyclic:
  assumes g: "greedy k r" and all: "keys_of (ki_events k) \<subseteq> set r"
  shows "acyclic (cites k)"
proof -
  define f where "f = inv_into {..<length r} ((!) r)"
  have "inj_on ((!) r) {..<length r}" using greedy_props [OF g] by (intro inj_on_nth) auto
  then have f: "f (r ! i) = i" if "i < length r" for i using that by (simp add: f_def inv_into_f_f)
  have "cites k \<subseteq> measure f"
  proof clarsimp
    fix a n assume an: "(a, n) \<in> cites k"
    then have "n \<in> set r" using cites_keys all by blast
    then obtain i where i: "i < length r" "n = r ! i" by (auto simp: in_set_conv_nth)
    with an greedy_props [OF g] have "a \<in> set (take i r)" by (auto simp: cites_def)
    then obtain j where "j < i" "j < length r" "a = r ! j" by (auto simp: in_set_conv_nth)
    with f i show "f a < f n" by simp
  qed
  then show ?thesis by (meson wf_acyclic wf_measure wf_subset)
qed

section \<open>Independence of the iteration order\<close>

definition same_inputs :: "kahn_inputs \<Rightarrow> kahn_inputs \<Rightarrow> bool" where
  "same_inputs k l \<longleftrightarrow> map_of (ki_events k) = map_of (ki_events l) \<and> ki_sort_context k = ki_sort_context l \<and>
     ki_create_ev k = ki_create_ev l \<and> ki_version k = ki_version l"

lemma keys_of_dom: "keys_of events = dom (map_of events)"
  by (simp add: keys_of_def dom_map_of_conv_image_fst)

lemma same_ready:
  assumes "same_inputs k l"
  shows "ready k = ready l"
  using assms by (intro ext) (simp add: ready_def same_inputs_def keys_of_dom preds_def)

lemma same_priority:
  assumes "same_inputs k l" "events_ok (ki_events k)" "events_ok (ki_events l)" "n \<in> keys_of (ki_events k)"
  shows "priority k n = priority l n"
proof -
  obtain ev where k: "map_of (ki_events k) n = Some ev" using assms(4) by (auto simp: keys_of_dom)
  then have l: "map_of (ki_events l) n = Some ev" using assms(1) by (simp add: same_inputs_def)
  show ?thesis
    using assms(1) kahn_levels_lookup [OF assms(2) k] kahn_levels_lookup [OF assms(3) l]
    by (simp add: priority_def priority_of_def same_inputs_def)
qed

lemma same_greedy:
  assumes s: "same_inputs k l" and ok: "events_ok (ki_events k)" "events_ok (ki_events l)"
    and "greedy k r"
  shows "greedy l r"
  using assms(4)
proof induction
  case (greedy_snoc xs x)
  have p: "ready k xs z \<Longrightarrow> priority k z = priority l z" for z
    using same_priority [OF s ok] by (simp add: ready_def)
  show ?case
  proof (rule greedy.greedy_snoc)
    show "greedy l xs" by (rule greedy_snoc.IH)
    show "ready l xs x" using greedy_snoc.hyps(2) same_ready [OF s] by simp
    fix y assume "ready l xs y"
    then have "ready k xs y" using same_ready [OF s] by simp
    with greedy_snoc.hyps p show "sort_priority_cmp (priority l y) (priority l x) \<noteq> Greater" by metis
  qed
qed (rule greedy_Nil)

lemma greedy_prefix: "greedy k (xs @ ys) \<Longrightarrow> greedy k xs"
  by (induction ys rule: rev_induct) (auto simp: greedy_snoc_iff simp flip: append_assoc)

lemma greedy_maximal_unique:
  assumes ok: "events_ok (ki_events k)" and "greedy k r" "greedy k s"
    and "\<And>n. \<not> ready k r n" "\<And>n. \<not> ready k s n"
  shows "r = s"
proof -
  have le: "length r \<le> length s" if "greedy k r" "greedy k s" "\<And>n. \<not> ready k s n" for r s
  proof (rule ccontr)
    assume "\<not> length r \<le> length s"
    then obtain t x u where r: "r = t @ x # u" "length t = length s"
      by (metis append_take_drop_id id_take_nth_drop length_take min.absorb2 not_le order.strict_implies_order)
    then have "greedy k (t @ [x])" using greedy_prefix [of k "t @ [x]" u] that(1) by simp
    then have "greedy k t" "ready k t x" by (simp_all add: greedy_snoc_iff)
    with greedy_unique [OF ok _ that(2) r(2)] that(3) show False by blast
  qed
  show ?thesis using le assms greedy_unique [OF ok] by (metis le_antisym)
qed

lemma stuck_ord: "ord_contract (stuck_cmp events)"
  unfolding stuck_cmp_def by (intro ord_contract_intros)

lemma stuck_cmp_Equal: "stuck_cmp events a b = Equal \<Longrightarrow> a = b"
  by (simp add: stuck_cmp_def ordering_then_iff)

lemma kahn_sort_outcome:
  assumes "events_ok (ki_events k)"
  obtains r where "greedy k r" "\<And>n. \<not> ready k r n"
    and "kahn_sort k = Inr (r @ sort_by (stuck_cmp (ki_events k)) (stuck_after k r))"
proof -
  from with_cycle_outcome [OF assms] obtain r where r: "greedy k r" "\<And>n. \<not> ready k r n"
    and w: "with_cycle_diagnostics k =
      Inr (if length r \<noteq> length (ki_events k) then CycleDetected r (stuck_after k r) else KahnOk r)"
    by blast
  have "list_all (\<lambda>n. map_of (ki_events k) n \<noteq> None) (stuck_after k r)"
    by (auto simp: stuck_after_def list_all_iff map_of_eq_None_iff)
  with w greedy_complete [OF assms r(1)] have
    "kahn_sort k = Inr (r @ sort_by (stuck_cmp (ki_events k)) (stuck_after k r))"
    by (simp add: kahn_sort_def sort_by_def)
  with r show thesis by (rule that)
qed

lemma with_cycle_greedy:
  assumes "events_ok (ki_events k)"
    and "with_cycle_diagnostics k = Inr (KahnOk order) \<or>
         with_cycle_diagnostics k = Inr (CycleDetected order stuck)"
  shows "greedy k order"
proof -
  from with_cycle_outcome [OF assms(1)] obtain r where "greedy k r"
    and "with_cycle_diagnostics k =
      Inr (if length r \<noteq> length (ki_events k) then CycleDetected r (stuck_after k r) else KahnOk r)"
    by blast
  with assms(2) show ?thesis by (cases "length r = length (ki_events k)") simp_all
qed

lemma kahn_sort_same:
  assumes s: "same_inputs k l" and ok: "events_ok (ki_events k)" "events_ok (ki_events l)"
  shows "kahn_sort k = kahn_sort l"
proof -
  from kahn_sort_outcome [OF ok(1)] obtain r where r: "greedy k r" "\<And>n. \<not> ready k r n"
    and k: "kahn_sort k = Inr (r @ sort_by (stuck_cmp (ki_events k)) (stuck_after k r))" by blast
  from kahn_sort_outcome [OF ok(2)] obtain u where u: "greedy l u" "\<And>n. \<not> ready l u n"
    and l: "kahn_sort l = Inr (u @ sort_by (stuck_cmp (ki_events l)) (stuck_after l u))" by blast
  have ru: "r = u"
    by (rule greedy_maximal_unique [OF ok(2)])
      (use same_greedy [OF s ok] same_ready [OF s] r u in simp_all)
  have cmp: "stuck_cmp (ki_events k) = stuck_cmp (ki_events l)"
    using s by (intro ext) (simp add: stuck_cmp_def same_inputs_def)
  have "set (map fst (ki_events k)) = set (map fst (ki_events l))"
    using s by (metis keys_of_def keys_of_dom same_inputs_def set_map)
  then have "mset (map fst (ki_events k)) = mset (map fst (ki_events l))"
    using ok unfolding events_ok_def hm_inv_def by (simp only: set_eq_iff_mset_eq_distinct)
  then have "mset (stuck_after k r) = mset (stuck_after l u)"
    by (simp add: stuck_after_def ru del: mset_map)
  then have "sort_by (stuck_cmp (ki_events l)) (stuck_after k r) =
      sort_by (stuck_cmp (ki_events l)) (stuck_after l u)"
    by (rule ord_contract.sort_by_cong [OF stuck_ord]) (rule stuck_cmp_Equal)
  with k l ru cmp show ?thesis by simp
qed

lemma kahn_sort_returns:
  assumes "events_ok (ki_events k)"
  shows "\<exists>order. kahn_sort k = Inr order \<and> mset order = mset (map fst (ki_events k))"
proof -
  from kahn_sort_outcome [OF assms] obtain r where
    "greedy k r" "kahn_sort k = Inr (r @ sort_by (stuck_cmp (ki_events k)) (stuck_after k r))"
    by blast
  with greedy_perm [OF assms] show ?thesis by simp
qed

section \<open>Properties\<close>

definition sample_node :: "string \<Rightarrow> string list \<Rightarrow> string \<times> lean_event" where
  "sample_node i cited =
     (i, (sample_event i ''m.room.member'' (Some i) i (Object [])) \<lparr>ev_auth_events := cited\<rparr>)"

definition sample_kahn :: "event_map \<Rightarrow> kahn_inputs" where
  "sample_kahn events =
     \<lparr>ki_events = events, ki_sort_context = map_of events, ki_create_ev = None, ki_version = V2\<rparr>"

definition sample_dag :: event_map where
  "sample_dag = [sample_node ''d'' [''b'', ''c''], sample_node ''c'' [''a''], sample_node ''a'' [],
     sample_node ''b'' [''a'', ''x'']]"

definition sample_cycle :: event_map where
  "sample_cycle = [sample_node ''d'' [''b'', ''c''], sample_node ''c'' [''d''], sample_node ''a'' [],
     sample_node ''b'' [''a'']]"

lemma sample_graphs_ok: "events_ok (ki_events (sample_kahn sample_dag))"
  "events_ok (ki_events (sample_kahn (rev sample_dag)))" "events_ok (ki_events (sample_kahn sample_cycle))"
  by (code_simp)+

text \<open>C12: The power ordering returns for every set of events, cyclic or not: neither \<open>unwrap\<close> fails, the
  loop ends within one round per event, and the result is a permutation of the ids of the set.\<close>

theorem kahn_total:
  assumes "events_ok (ki_events k)"
  shows "\<exists>order. kahn_sort k = Inr order \<and> mset order = mset (map fst (ki_events k))"
  using assms by (rule kahn_sort_returns)

theorem kahn_total_witness:
  "\<exists>order. kahn_sort (sample_kahn sample_cycle) = Inr order \<and>
     mset order = mset (map fst (ki_events (sample_kahn sample_cycle)))"
  by (rule kahn_total [OF sample_graphs_ok(3)])

text \<open>C7: In a successful ordering every event comes after all the events of the set it cites.\<close>

theorem kahn_topological:
  assumes ok: "events_ok (ki_events k)" and "with_cycle_diagnostics k = Inr (KahnOk order)"
    and i: "i < length order" and ev: "map_of (ki_events k) (order ! i) = Some ev"
    and a: "a \<in> set (dag_edges ev (ki_version k))" "map_of (ki_events k) a \<noteq> None"
  shows "a \<in> set (take i order)"
proof -
  have "greedy k order" using assms(2) by (blast intro: with_cycle_greedy [OF ok])
  with i have "set (preds (ki_events k) (ki_version k) (order ! i)) \<subseteq> set (take i order)"
    using greedy_props by blast
  with ev a show ?thesis by (auto simp: preds_def)
qed

theorem kahn_topological_witness:
  "with_cycle_diagnostics (sample_kahn sample_dag) = Inr (KahnOk [''a'', ''b'', ''c'', ''d'']) \<and>
   ''b'' \<in> set (take 3 [''a'', ''b'', ''c'', ''d''])"
proof -
  have r: "with_cycle_diagnostics (sample_kahn sample_dag) = Inr (KahnOk [''a'', ''b'', ''c'', ''d''])"
    by code_simp
  have "map_of (ki_events (sample_kahn sample_dag)) ([''a'', ''b'', ''c'', ''d''] ! 3) =
      Some (snd (sample_node ''d'' [''b'', ''c'']))" by code_simp
  moreover have "''b'' \<in> set (dag_edges (snd (sample_node ''d'' [''b'', ''c'']))
      (ki_version (sample_kahn sample_dag)))" by code_simp
  moreover have "map_of (ki_events (sample_kahn sample_dag)) ''b'' \<noteq> None" by code_simp
  ultimately have "''b'' \<in> set (take 3 [''a'', ''b'', ''c'', ''d''])"
    by (intro kahn_topological [OF sample_graphs_ok(1) r]) simp_all
  with r show ?thesis by blast
qed

text \<open>The ordering succeeds exactly on acyclic sets; otherwise it reports the stuck events, a
  non-empty list of events each of which cites another stuck event.\<close>

lemma kahn_cycles:
  assumes ok: "events_ok (ki_events k)"
  shows "((\<exists>order. with_cycle_diagnostics k = Inr (KahnOk order)) \<longleftrightarrow> acyclic (cites k)) \<and>
    (with_cycle_diagnostics k = Inr (CycleDetected order stuck) \<longrightarrow>
      stuck \<noteq> [] \<and> (\<forall>n \<in> set stuck. \<exists>a \<in> set stuck. (a, n) \<in> cites k))"
proof -
  from with_cycle_outcome [OF ok] obtain r where r: "greedy k r" "\<And>n. \<not> ready k r n"
    and w: "with_cycle_diagnostics k =
      Inr (if length r \<noteq> length (ki_events k) then CycleDetected r (stuck_after k r) else KahnOk r)"
    by blast
  have "stuck_after k r = [] \<Longrightarrow> keys_of (ki_events k) \<subseteq> set r"
    by (auto simp: stuck_after_def keys_of_def filter_empty_conv)
  with r have "stuck_after k r = [] \<longleftrightarrow> acyclic (cites k)"
    using greedy_acyclic acyclic_no_stuck by blast
  then have "(\<exists>order. with_cycle_diagnostics k = Inr (KahnOk order)) \<longleftrightarrow> acyclic (cites k)"
    using w greedy_complete [OF ok r(1)] by auto
  moreover have "stuck \<noteq> [] \<and> (\<forall>n \<in> set stuck. \<exists>a \<in> set stuck. (a, n) \<in> cites k)"
    if "with_cycle_diagnostics k = Inr (CycleDetected order stuck)"
    using that w greedy_complete [OF ok r(1)] stuck_cites_stuck [OF r(2)] by (auto split: if_splits)
  ultimately show ?thesis by blast
qed

lemma kahn_cycles_witness:
  "with_cycle_diagnostics (sample_kahn sample_cycle) =
     Inr (CycleDetected [''a'', ''b''] [''d'', ''c'']) \<and>
   (\<exists>a \<in> {''d'', ''c''}. (a, ''c'') \<in> cites (sample_kahn sample_cycle)) \<and>
   \<not> acyclic (cites (sample_kahn sample_cycle))"
proof -
  have r: "with_cycle_diagnostics (sample_kahn sample_cycle) =
      Inr (CycleDetected [''a'', ''b''] [''d'', ''c''])" by code_simp
  note k = kahn_cycles [OF sample_graphs_ok(3)]
  from conjunct1 [OF k] r have "\<not> acyclic (cites (sample_kahn sample_cycle))" by simp
  moreover from conjunct2 [OF k, rule_format, OF r] have "\<exists>a \<in> {''d'', ''c''}. (a, ''c'') \<in> cites (sample_kahn sample_cycle)"
    by simp
  ultimately show ?thesis using r by blast
qed

text \<open>C8: The ordering does not depend on the iteration order of the hash map: two enumerations of the
  same events, cyclic or not, are sorted into the same list.\<close>

theorem kahn_deterministic:
  assumes "same_inputs k l" "events_ok (ki_events k)" "events_ok (ki_events l)"
  shows "kahn_sort k = kahn_sort l"
  using assms by (rule kahn_sort_same)

theorem kahn_deterministic_witness:
  "kahn_sort (sample_kahn sample_dag) = kahn_sort (sample_kahn (rev sample_dag))"
proof (rule kahn_deterministic [OF _ sample_graphs_ok(1,2)])
  have "map_of (rev sample_dag) = map_of sample_dag"
    by (rule ext) (simp add: sample_dag_def sample_node_def)
  then show "same_inputs (sample_kahn sample_dag) (sample_kahn (rev sample_dag))"
    by (simp add: same_inputs_def sample_kahn_def)
qed

text \<open>At every position of the ordering stands an event of greatest priority (power level, then
  timestamp, then id) among those whose cited events have all been placed before it.\<close>

lemma kahn_greedy_choice:
  assumes ok: "events_ok (ki_events k)"
    and "with_cycle_diagnostics k = Inr (KahnOk order) \<or>
         with_cycle_diagnostics k = Inr (CycleDetected order stuck)"
    and i: "i < length order" and y: "ready k (take i order) y"
  shows "sort_priority_cmp (priority k y) (priority k (order ! i)) \<noteq> Greater"
proof -
  have "greedy k order" using assms(2) by (blast intro: with_cycle_greedy [OF ok])
  then have "greedy k (take i order @ [order ! i])"
    using greedy_prefix [of k "take (Suc i) order" "drop (Suc i) order"] i
    unfolding append_take_drop_id by (simp add: take_Suc_conv_app_nth)
  with y show ?thesis by (simp add: greedy_snoc_iff)
qed

lemma kahn_greedy_choice_witness:
  "sort_priority_cmp (priority (sample_kahn sample_dag) ''c'') (priority (sample_kahn sample_dag) ''b'')
     \<noteq> Greater"
proof -
  have r: "with_cycle_diagnostics (sample_kahn sample_dag) = Inr (KahnOk [''a'', ''b'', ''c'', ''d''])"
    by code_simp
  have "ready (sample_kahn sample_dag) (take 1 [''a'', ''b'', ''c'', ''d'']) ''c''" by code_simp
  from kahn_greedy_choice [OF sample_graphs_ok(1) disjI1 [OF r] _ this] show ?thesis by simp
qed

end
