(* ===== verification/Mainline_Correct.thy ===== *)
theory Mainline_Correct
  imports Mainline Power_Level
begin

text \<open>
  The mainline ordering meets its specification. The breadth first search is compared with reachability
  (\<open>chain_reach\<close>), the walk with the shape of a mainline (\<open>is_mainline\<close>), the iterative computation of
  positions with the relation \<open>meets\<close>, by the invariant \<open>positions_inv\<close> of its stack and memo table, and
  the sort with the order \<open>mainline_before\<close>. The length of a mainline is assumed to be below the mark
  \<open>PENDING\<close>, the second largest \<open>usize\<close>, which no vector can reach.
\<close>

section \<open>The nearest power levels event\<close>

definition is_pl :: "event_map \<Rightarrow> string \<Rightarrow> bool" where
  "is_pl ctx x = (case map_of ctx x of None \<Rightarrow> False | Some ev \<Rightarrow> ev_type ev = M_ROOM_POWER_LEVELS)"

text \<open>Reachability along the edges of events that are known and not power levels events.\<close>

inductive chain_reach :: "event_map \<Rightarrow> state_res_version \<Rightarrow> string set \<Rightarrow> string \<Rightarrow> bool"
  for ctx version start where
  start: "x \<in> start \<Longrightarrow> chain_reach ctx version start x"
| step: "chain_reach ctx version start x \<Longrightarrow> map_of ctx x = Some ev \<Longrightarrow> \<not> is_pl ctx x \<Longrightarrow>
    y \<in> set (dag_edges ev version) \<Longrightarrow> chain_reach ctx version start y"

lemma chain_reach_mono: "chain_reach ctx version A x \<Longrightarrow> A \<subseteq> B \<Longrightarrow> chain_reach ctx version B x"
  by (induction rule: chain_reach.induct) (auto intro: chain_reach.intros)

lemma chain_reach_bind:
  assumes "chain_reach ctx version A x" "\<And>a. a \<in> A \<Longrightarrow> chain_reach ctx version B a"
  shows "chain_reach ctx version B x"
  using assms by (induction rule: chain_reach.induct) (auto intro: chain_reach.step)

lemma pl_search_sound:
  "pl_search ctx version queue visited = Some p \<Longrightarrow> is_pl ctx p \<and> chain_reach ctx version (set queue) p"
proof (induction ctx version queue visited rule: pl_search.induct)
  case (2 ctx version q_id queue visited)
  have sub: "chain_reach ctx version (set queue) p \<Longrightarrow> chain_reach ctx version (set (q_id # queue)) p"
    by (rule chain_reach_mono) auto
  show ?case
  proof (cases "q_id \<in> set visited")
    case True
    with 2 sub show ?thesis by simp
  next
    case new: False
    show ?thesis
    proof (cases "map_of ctx q_id")
      case None
      with 2 new sub show ?thesis by simp
    next
      case (Some ev)
      show ?thesis
      proof (cases "ev_type ev = M_ROOM_POWER_LEVELS")
        case True
        with 2(4) new Some show ?thesis by (auto simp: is_pl_def intro: chain_reach.start)
      next
        case False
        then have "chain_reach ctx version (set (q_id # queue)) a"
          if "a \<in> set (queue @ dag_edges ev version)" for a
          using that Some
          by (auto simp: is_pl_def intro: chain_reach.start chain_reach.step [OF chain_reach.start])
        with 2(3) [OF new Some False] 2(4) new Some False show ?thesis
          by (auto intro: chain_reach_bind)
      qed
    qed
  qed
qed simp

text \<open>What has been visited and leads to something not yet visited leads into the queue.\<close>

definition search_inv :: "event_map \<Rightarrow> state_res_version \<Rightarrow> string list \<Rightarrow> string list \<Rightarrow> bool" where
  "search_inv ctx version queue visited \<longleftrightarrow>
     (\<forall>x \<in> set visited. \<not> is_pl ctx x \<and>
        (\<forall>ev. map_of ctx x = Some ev \<longrightarrow> set (dag_edges ev version) \<subseteq> set visited \<union> set queue))"

lemma pl_search_complete:
  assumes "search_inv ctx version queue visited" "pl_search ctx version queue visited = None"
    and "chain_reach ctx version (set visited \<union> set queue) p"
  shows "\<not> is_pl ctx p"
  using assms
proof (induction ctx version queue visited rule: pl_search.induct)
  case (1 ctx version visited)
  have "x \<in> set visited" if "chain_reach ctx version (set visited) x" for x
    using that 1(1) by induction (auto simp: search_inv_def)
  with 1 show ?case by (simp add: search_inv_def)
next
  case (2 ctx version q_id queue visited)
  show ?case
  proof (cases "q_id \<in> set visited")
    case True
    then have "set visited \<union> set (q_id # queue) = set visited \<union> set queue" by auto
    with 2 True show ?thesis by (auto simp: search_inv_def)
  next
    case new: False
    show ?thesis
    proof (cases "map_of ctx q_id")
      case None
      have "set (q_id # visited) \<union> set queue = set visited \<union> set (q_id # queue)" by auto
      moreover have "search_inv ctx version queue (q_id # visited)"
        using 2(4) None by (auto simp: search_inv_def is_pl_def)
      ultimately show ?thesis using 2(2) [OF new None] 2(5,6) new None by simp
    next
      case (Some ev)
      with 2(5) new have npl: "ev_type ev \<noteq> M_ROOM_POWER_LEVELS" by auto
      have "search_inv ctx version (queue @ dag_edges ev version) (q_id # visited)"
        using 2(4) Some npl by (auto simp: search_inv_def is_pl_def)
      moreover have "chain_reach ctx version (set (q_id # visited) \<union> set (queue @ dag_edges ev version)) p"
        using chain_reach_mono [OF 2(6)] by auto
      ultimately show ?thesis using 2(3) [OF new Some npl] 2(5) new Some npl by simp
    qed
  qed
qed

lemma pl_parent_Some:
  assumes "pl_parent ctx version x = Some p"
  obtains ev where "map_of ctx x = Some ev" "is_pl ctx p" "chain_reach ctx version (set (dag_edges ev version)) p"
  using assms pl_search_sound by (fastforce simp: pl_parent_def split: option.splits)

lemma pl_parent_None:
  assumes "map_of ctx x = Some ev" "pl_parent ctx version x = None"
    and "chain_reach ctx version (set (dag_edges ev version)) p"
  shows "\<not> is_pl ctx p"
  using pl_search_complete [of ctx version "dag_edges ev version" "[]" p] assms
  by (simp add: pl_parent_def search_inv_def)

section \<open>The mainline\<close>

definition cache_ok :: "event_map \<Rightarrow> state_res_version \<Rightarrow> parent_cache \<Rightarrow> bool" where
  "cache_ok ctx version cache \<longleftrightarrow> (\<forall>x p. map_of cache x = Some p \<longrightarrow> p = pl_parent ctx version x)"

lemma cache_ok_insert:
  "cache_ok ctx version cache \<Longrightarrow> cache_ok ctx version (hm_insert x (pl_parent ctx version x) cache)"
  by (simp add: cache_ok_def map_lookups)

lemma mainline_walk_cache:
  assumes "cache_ok ctx version cache" "cache_ok ctx version cache2"
  shows "fst (mainline_walk ctx version current mainline cache) =
      fst (mainline_walk ctx version current mainline cache2) \<and>
    cache_ok ctx version (snd (mainline_walk ctx version current mainline cache))"
  using assms
proof (induction ctx version current mainline cache arbitrary: cache2 rule: mainline_walk.induct)
  case (2 ctx version eid mainline cache)
  show ?case
  proof (cases "eid \<in> set mainline")
    case new: False
    let ?p = "pl_parent ctx version eid"
    have step: "mainline_walk ctx version (Some eid) mainline c =
        mainline_walk ctx version ?p (mainline @ [eid]) (if map_of c eid = None then hm_insert eid ?p c else c)"
      if "cache_ok ctx version c" for c
      using that new by (auto simp: cache_ok_def Let_def split: option.splits)
    let ?c2 = "if map_of cache2 eid = None then hm_insert eid ?p cache2 else cache2"
    have c2: "cache_ok ctx version ?c2" using 2(4) by (simp add: cache_ok_insert)
    show ?thesis
    proof (cases "map_of cache eid")
      case None
      from 2(1) [OF new None refl cache_ok_insert [OF 2(3)] c2] None show ?thesis
        unfolding step [OF 2(3)] step [OF 2(4)] by simp
    next
      case (Some p)
      then have "p = ?p" using 2(3) by (simp add: cache_ok_def)
      with 2(2) [OF new Some 2(3) c2] Some show ?thesis
        unfolding step [OF 2(3)] step [OF 2(4)] by simp
    qed
  qed (use 2 in simp)
qed simp

text \<open>The shape of a mainline: distinct, headed by the resolved event, each event followed by its nearest
  power levels ancestor, and ending where there is none or where the chain would repeat.\<close>

definition is_mainline :: "event_map \<Rightarrow> state_res_version \<Rightarrow> string option \<Rightarrow> string list \<Rightarrow> bool" where
  "is_mainline ctx version current ms \<longleftrightarrow> distinct ms \<and>
     (case current of None \<Rightarrow> ms = [] | Some x \<Rightarrow> ms \<noteq> [] \<and> hd ms = x) \<and>
     (\<forall>i. Suc i < length ms \<longrightarrow> pl_parent ctx version (ms ! i) = Some (ms ! Suc i)) \<and>
     (ms \<noteq> [] \<longrightarrow> (case pl_parent ctx version (last ms) of None \<Rightarrow> True | Some y \<Rightarrow> y \<in> set ms))"

lemma mainline_walk_shape:
  assumes "distinct ms" "\<And>i. Suc i < length ms \<Longrightarrow> pl_parent ctx version (ms ! i) = Some (ms ! Suc i)"
    and "ms \<noteq> [] \<Longrightarrow> current = pl_parent ctx version (last ms)" "cache_ok ctx version cache"
    and "mainline_walk ctx version current ms cache = (ms', cache')"
  shows "distinct ms' \<and> (\<exists>zs. ms' = ms @ zs \<and> (current = None \<longrightarrow> zs = []) \<and>
      (\<forall>x. current = Some x \<longrightarrow> x \<notin> set ms \<longrightarrow> zs \<noteq> [] \<and> hd zs = x)) \<and>
    (\<forall>i. Suc i < length ms' \<longrightarrow> pl_parent ctx version (ms' ! i) = Some (ms' ! Suc i)) \<and>
    (ms' \<noteq> [] \<longrightarrow> (case pl_parent ctx version (last ms') of None \<Rightarrow> True | Some y \<Rightarrow> y \<in> set ms'))"
  using assms
proof (induction ctx version current ms cache rule: mainline_walk.induct)
  case (1 ctx version mainline cache)
  then show ?case by (auto split: option.splits)
next
  case (2 ctx version eid ms cache)
  show ?case
  proof (cases "eid \<in> set ms")
    case True
    with 2 show ?thesis by (auto split: option.splits)
  next
    case new: False
    let ?p = "pl_parent ctx version eid"
    let ?c = "if map_of cache eid = None then hm_insert eid ?p cache else cache"
    have run: "mainline_walk ctx version ?p (ms @ [eid]) ?c = (ms', cache')"
      using 2(6,7) new by (auto simp: cache_ok_def Let_def split: option.splits if_splits)
    have linked: "pl_parent ctx version ((ms @ [eid]) ! i) = Some ((ms @ [eid]) ! Suc i)"
      if "Suc i < length (ms @ [eid])" for i
    proof (cases "Suc i < length ms")
      case True
      then show ?thesis using 2(4) [of i] by (simp add: nth_append)
    next
      case False
      with that have i: "Suc i = length ms" by simp
      then have "ms \<noteq> []" by auto
      moreover have "length ms - Suc 0 = i" using i by simp
      ultimately show ?thesis using 2(5) i by (simp add: nth_append last_conv_nth)
    qed
    have c: "cache_ok ctx version ?c" using 2(6) by (simp add: cache_ok_insert)
    have d: "distinct (ms @ [eid])" using 2(3) new by simp
    have "distinct ms' \<and> (\<exists>zs. ms' = (ms @ [eid]) @ zs) \<and>
        (\<forall>i. Suc i < length ms' \<longrightarrow> pl_parent ctx version (ms' ! i) = Some (ms' ! Suc i)) \<and>
        (ms' \<noteq> [] \<longrightarrow> (case pl_parent ctx version (last ms') of None \<Rightarrow> True | Some y \<Rightarrow> y \<in> set ms'))"
    proof (cases "map_of cache eid")
      case None
      with 2(1) [OF new None refl d linked] c run show ?thesis by auto
    next
      case (Some p)
      then have "p = ?p" using 2(6) by (simp add: cache_ok_def)
      with 2(2) [OF new Some d linked] c run Some show ?thesis by auto
    qed
    then show ?thesis by auto
  qed
qed

section \<open>Positions\<close>

text \<open>The specification: follow the power levels edge until an event of the mainline is met.\<close>

inductive meets :: "event_map \<Rightarrow> state_res_version \<Rightarrow> string list \<Rightarrow> string \<Rightarrow> nat \<Rightarrow> bool"
  for ctx version mainline where
  here: "i < length mainline \<Longrightarrow> mainline ! i = x \<Longrightarrow> meets ctx version mainline x i"
| link: "x \<notin> set mainline \<Longrightarrow> pl_edge ctx version x = Some y \<Longrightarrow> meets ctx version mainline y p \<Longrightarrow>
    meets ctx version mainline x p"

definition closest :: "event_map \<Rightarrow> state_res_version \<Rightarrow> string list \<Rightarrow> string \<Rightarrow> int \<Rightarrow> bool" where
  "closest ctx version mainline x p \<longleftrightarrow>
     (\<exists>i. p = int i \<and> meets ctx version mainline x i) \<or>
     p = int (length mainline) \<and> (\<forall>i. \<not> meets ctx version mainline x i)"

lemma meets_bound: "meets ctx version mainline x p \<Longrightarrow> p < length mainline"
  by (induction rule: meets.induct)

lemma closest_bound: "closest ctx version mainline x p \<Longrightarrow> p \<le> int (length mainline)"
  by (auto simp: closest_def dest: meets_bound)

lemma meets_link:
  assumes "x \<notin> set mainline"
  shows "meets ctx version mainline x p \<longleftrightarrow> (\<exists>y. pl_edge ctx version x = Some y \<and> meets ctx version mainline y p)"
  using assms by (subst meets.simps) auto

lemma closest_link:
  assumes "x \<notin> set mainline" "pl_edge ctx version x = Some y"
  shows "closest ctx version mainline x p \<longleftrightarrow> closest ctx version mainline y p"
  unfolding closest_def using meets_link [OF assms(1)] assms(2) by auto

lemma closed_no_meets:
  assumes "meets ctx version mainline x p" "x \<in> C"
    and "\<And>z. z \<in> C \<Longrightarrow> z \<notin> set mainline \<and> (\<forall>y. pl_edge ctx version z = Some y \<longrightarrow> y \<in> C)"
  shows False
  using assms by (induction rule: meets.induct) (auto, metis nth_mem)

definition positions_inv ::
  "event_map \<Rightarrow> state_res_version \<Rightarrow> string list \<Rightarrow> (string \<times> int) list \<Rightarrow> string list \<Rightarrow> bool" where
  "positions_inv ctx version mainline memo stack \<longleftrightarrow>
     (\<forall>i < length mainline. map_of memo (mainline ! i) = Some (int i)) \<and>
     (\<forall>x v. map_of memo x = Some v \<longrightarrow> v = PENDING \<or> closest ctx version mainline x v) \<and>
     (\<forall>x. map_of memo x = Some PENDING \<longrightarrow> x \<in> set stack) \<and>
     (\<forall>x \<in> set (tl stack). map_of memo x = Some PENDING) \<and>
     distinct stack \<and> successively (\<lambda>y x. pl_edge ctx version x = Some y) stack"

definition small_mainline :: "string list \<Rightarrow> bool" where
  "small_mainline mainline \<longleftrightarrow> int (length mainline) < PENDING"

lemma PENDING_simps [simp]: "PENDING \<noteq> USIZE_MAX" "USIZE_MAX \<noteq> PENDING" "PENDING < USIZE_MAX"
  by (simp_all add: PENDING_def)

lemma pending_outside:
  assumes "positions_inv ctx version mainline memo stack" "small_mainline mainline"
    and "map_of memo x = None \<or> map_of memo x = Some PENDING"
  shows "x \<notin> set mainline"
proof
  assume "x \<in> set mainline"
  then obtain i where "i < length mainline" "x = mainline ! i" by (auto simp: in_set_conv_nth)
  with assms show False by (auto simp: positions_inv_def small_mainline_def)
qed

text \<open>A power levels edge back into the stack closes a cycle that avoids the mainline.\<close>

lemma cycle_no_meets:
  assumes "successively (\<lambda>y x. pl_edge ctx version x = Some y) (x # stack)"
    and "pl_edge ctx version x = Some c" "c \<in> set (x # stack)" "set (x # stack) \<inter> set mainline = {}"
  shows "\<not> meets ctx version mainline x p"
proof
  assume m: "meets ctx version mainline x p"
  obtain xs ys where split: "x # stack = xs @ c # ys" using assms(3) by (meson split_list)
  let ?C = "set (xs @ [c])"
  have linked: "pl_edge ctx version ((xs @ [c]) ! Suc i) = Some ((xs @ [c]) ! i)" if "Suc i < length (xs @ [c])" for i
  proof -
    have "successively (\<lambda>y x. pl_edge ctx version x = Some y) (xs @ [c])"
      using assms(1) unfolding split by (auto simp: successively_append_iff)
    with that show ?thesis by (simp add: successively_conv_nth)
  qed
  have hd: "(xs @ [c]) ! 0 = x" using split by (cases xs) auto
  show False
  proof (rule closed_no_meets [OF m, of ?C])
    show "x \<in> ?C" using hd nth_mem [of 0 "xs @ [c]"] by simp
    fix z assume z: "z \<in> ?C"
    then obtain j where j: "j < length (xs @ [c])" "z = (xs @ [c]) ! j" by (metis in_set_conv_nth)
    have "y \<in> ?C" if "pl_edge ctx version z = Some y" for y
    proof (cases j)
      case 0
      then have "y = c" using that j hd assms(2) by simp
      then show ?thesis by simp
    next
      case (Suc i)
      then have "y = (xs @ [c]) ! i" using linked [of i] j that by simp
      moreover have "i < length (xs @ [c])" using j(1) Suc by simp
      ultimately show ?thesis using nth_mem by metis
    qed
    moreover have "z \<notin> set mainline" using z assms(4) split by auto
    ultimately show "z \<notin> set mainline \<and> (\<forall>y. pl_edge ctx version z = Some y \<longrightarrow> y \<in> ?C)" by blast
  qed
qed

lemma positions_inv_pop:
  assumes "positions_inv ctx version mainline memo (x # stack)" "map_of memo x = Some v" "v \<noteq> PENDING"
  shows "positions_inv ctx version mainline memo stack"
  using assms by (cases stack) (auto simp: positions_inv_def)

lemma positions_inv_mark:
  assumes "positions_inv ctx version mainline memo (x # stack)" "small_mainline mainline"
    and "map_of memo x = None \<or> map_of memo x = Some PENDING"
  defines "memo1 \<equiv> if map_of memo x = None then hm_insert x PENDING memo else memo"
  shows "positions_inv ctx version mainline memo1 (x # stack)" "map_of memo1 x = Some PENDING"
    and "dom (map_of memo1) = insert x (dom (map_of memo))"
proof -
  have "x \<notin> set mainline" by (rule pending_outside [OF assms(1-3)])
  then have "mainline ! i \<noteq> x" if "i < length mainline" for i using that nth_mem by metis
  with assms(1) show "positions_inv ctx version mainline memo1 (x # stack)"
    by (auto simp: positions_inv_def memo1_def map_lookups split: if_splits)
  show "map_of memo1 x = Some PENDING" "dom (map_of memo1) = insert x (dom (map_of memo))"
    using assms(3) by (auto simp: memo1_def map_lookups)
qed

lemma positions_inv_push:
  assumes "positions_inv ctx version mainline memo (x # stack)" "map_of memo x = Some PENDING"
    and "pl_edge ctx version x = Some y" "map_of memo y = None"
  shows "positions_inv ctx version mainline memo (y # x # stack)"
  using assms by (auto simp: positions_inv_def)

lemma positions_inv_finish:
  assumes inv: "positions_inv ctx version mainline memo (x # stack)" and small: "small_mainline mainline"
    and x: "map_of memo x = Some PENDING" and v: "closest ctx version mainline x v"
  shows "positions_inv ctx version mainline (hm_insert x v memo) stack"
proof -
  have "x \<notin> set mainline" by (rule pending_outside [OF inv small disjI2 [OF x]])
  then have out: "mainline ! i \<noteq> x" if "i < length mainline" for i using that nth_mem by metis
  have "v \<noteq> PENDING" using closest_bound [OF v] small by (simp add: small_mainline_def)
  with inv out v show ?thesis
    by (cases stack) (auto simp: positions_inv_def map_lookups)
qed

lemma resolved_closest:
  assumes inv: "positions_inv ctx version mainline memo (x # stack)" and small: "small_mainline mainline"
    and x: "map_of memo x = Some PENDING"
    and edge: "\<And>y. pl_edge ctx version x = Some y \<Longrightarrow> map_of memo y \<noteq> None"
  shows "closest ctx version mainline x
    (let min_pos = (case pl_edge ctx version x of
            None \<Rightarrow> USIZE_MAX
          | Some aid \<Rightarrow> (case map_of memo aid of
              Some child_pos \<Rightarrow> if child_pos \<noteq> PENDING then child_pos else USIZE_MAX
            | None \<Rightarrow> USIZE_MAX))
     in if min_pos = USIZE_MAX then int (length mainline) else min_pos)"
proof -
  have out: "x \<notin> set mainline" by (rule pending_outside [OF inv small disjI2 [OF x]])
  show ?thesis
  proof (cases "pl_edge ctx version x")
    case None
    then show ?thesis using meets_link [OF out] by (simp add: closest_def)
  next
    case (Some y)
    then obtain v where v: "map_of memo y = Some v" using edge by auto
    show ?thesis
    proof (cases "v = PENDING")
      case False
      then have c: "closest ctx version mainline y v" using inv v by (auto simp: positions_inv_def)
      then have "v \<noteq> USIZE_MAX"
        using closest_bound [OF c] small by (auto simp: small_mainline_def PENDING_def)
      with False c v Some show ?thesis by (simp add: closest_link [OF out Some])
    next
      case True
      have "z \<notin> set mainline" if "z \<in> set (x # stack)" for z
        using that inv x by (intro pending_outside [OF inv small]) (auto simp: positions_inv_def)
      moreover have "y \<in> set (x # stack)" using v True inv by (auto simp: positions_inv_def)
      ultimately have "\<not> meets ctx version mainline x p" for p
        using inv Some by (intro cycle_no_meets) (auto simp: positions_inv_def)
      with True v Some show ?thesis by (simp add: closest_def)
    qed
  qed
qed

lemma positions_loop_ok:
  assumes "positions_inv ctx version mainline memo stack" "small_mainline mainline" "len = int (length mainline)"
  shows "positions_inv ctx version mainline (positions_loop ctx version len memo stack) [] \<and>
    dom (map_of memo) \<union> set stack \<subseteq> dom (map_of (positions_loop ctx version len memo stack))"
  using assms
proof (induction ctx version len memo stack rule: positions_loop.induct)
  case (2 ctx version len memo x stack)
  let ?memo1 = "if map_of memo x = None then hm_insert x PENDING memo else memo"
  show ?case
  proof (cases "case map_of memo x of Some val \<Rightarrow> val \<noteq> PENDING | None \<Rightarrow> False")
    case True
    then obtain v where v: "map_of memo x = Some v" "v \<noteq> PENDING" by (auto split: option.splits)
    from 2(1) [OF True positions_inv_pop [OF 2(4) v] 2(5,6)] True v show ?thesis by auto
  next
    case False
    then have open_: "map_of memo x = None \<or> map_of memo x = Some PENDING" by (auto split: option.splits)
    note mark = positions_inv_mark [OF 2(4,5) open_]
    show ?thesis
    proof (cases "pl_edge ctx version x \<noteq> None \<and> map_of ?memo1 (the (pl_edge ctx version x)) = None")
      case True
      then obtain y where y: "pl_edge ctx version x = Some y" "map_of ?memo1 y = None" by auto
      from 2(2) [OF False refl refl True] positions_inv_push [OF mark(1,2) y] 2(5,6) y
      have "positions_inv ctx version mainline (positions_loop ctx version len ?memo1 (y # x # stack)) [] \<and>
          dom (map_of ?memo1) \<union> set (y # x # stack) \<subseteq>
            dom (map_of (positions_loop ctx version len ?memo1 (y # x # stack)))" by simp
      moreover have "positions_loop ctx version len memo (x # stack) =
          positions_loop ctx version len ?memo1 (y # x # stack)"
        using False y by (simp add: Let_def)
      ultimately show ?thesis using mark(3) by simp
    next
      case leaf: False
      then have edge: "map_of ?memo1 y \<noteq> None" if "pl_edge ctx version x = Some y" for y using that by auto
      let ?min = "case pl_edge ctx version x of
            None \<Rightarrow> USIZE_MAX
          | Some aid \<Rightarrow> (case map_of ?memo1 aid of
              Some child_pos \<Rightarrow> if child_pos \<noteq> PENDING then child_pos else USIZE_MAX
            | None \<Rightarrow> USIZE_MAX)"
      let ?v = "if ?min = USIZE_MAX then len else ?min"
      have "closest ctx version mainline x ?v"
        using resolved_closest [OF mark(1) 2(5) mark(2) edge] unfolding Let_def 2(6) .
      from positions_inv_finish [OF mark(1) 2(5) mark(2) this]
      have inv: "positions_inv ctx version mainline (hm_insert x ?v ?memo1) stack" .
      have "positions_loop ctx version len memo (x # stack) =
          positions_loop ctx version len (hm_insert x ?v ?memo1) stack"
        using positions_loop.simps(2) [of ctx version len memo x stack]
        unfolding if_not_P [OF False] Let_def if_not_P [OF leaf] .
      moreover have "dom (map_of (hm_insert x ?v ?memo1)) = insert x (dom (map_of memo))"
        using mark(3) by (simp add: map_lookups)
      ultimately show ?thesis
        using 2(3) [OF False refl refl leaf refl refl inv 2(5,6)] by simp
    qed
  qed
qed simp

lemma mainline_memo_lookup:
  assumes "distinct ms"
  shows "i < length ms \<Longrightarrow> map_of (mainline_memo pos ms memo) (ms ! i) = Some (int (pos + i))"
    and "x \<notin> set ms \<Longrightarrow> map_of (mainline_memo pos ms memo) x = map_of memo x"
proof -
  have out: "map_of (mainline_memo pos ms memo) x = map_of memo x" if "x \<notin> set ms" for pos ms memo x
    using that by (induction ms arbitrary: pos memo) (simp_all add: map_lookups)
  then show "x \<notin> set ms \<Longrightarrow> map_of (mainline_memo pos ms memo) x = map_of memo x" .
  show "i < length ms \<Longrightarrow> map_of (mainline_memo pos ms memo) (ms ! i) = Some (int (pos + i))"
    using assms
  proof (induction ms arbitrary: pos memo i)
    case (Cons m ms)
    then show ?case
      by (cases i) (simp_all add: out map_lookups)
  qed simp
qed

lemma positions_inv_start:
  assumes "distinct mainline" "small_mainline mainline"
  shows "positions_inv ctx version mainline (mainline_memo 0 mainline []) []"
proof -
  note memo = mainline_memo_lookup [OF assms(1), where pos = 0 and memo = "[]", simplified]
  have "closest ctx version mainline x v \<and> v \<noteq> PENDING"
    if "map_of (mainline_memo 0 mainline []) x = Some v" for x v
  proof (cases "x \<in> set mainline")
    case True
    then obtain i where i: "i < length mainline" "x = mainline ! i" by (auto simp: in_set_conv_nth)
    with that memo(1) have "v = int i" by simp
    with i assms(2) show ?thesis by (auto simp: closest_def small_mainline_def intro: meets.here)
  qed (use that memo(2) in simp)
  with memo(1) show ?thesis by (auto simp: positions_inv_def)
qed

lemma positions_inv_target:
  "positions_inv ctx version mainline memo [] \<Longrightarrow> positions_inv ctx version mainline memo [x]"
  by (auto simp: positions_inv_def)

lemma positions_fold:
  assumes "positions_inv ctx version mainline memo []" "small_mainline mainline"
    and "r = fold (\<lambda>ev memo. positions_loop ctx version (int (length mainline)) memo [ev_id ev]) events memo"
  shows "positions_inv ctx version mainline r [] \<and> dom (map_of memo) \<union> ev_id ` set events \<subseteq> dom (map_of r)"
  unfolding assms(3) using assms(1)
proof (induction events arbitrary: memo)
  case (Cons ev events)
  let ?m = "positions_loop ctx version (int (length mainline)) memo [ev_id ev]"
  from positions_loop_ok [OF positions_inv_target [OF Cons.prems] assms(2) refl]
  have step: "positions_inv ctx version mainline ?m []" "dom (map_of memo) \<union> {ev_id ev} \<subseteq> dom (map_of ?m)"
    by auto
  from Cons.IH [OF step(1)] step(2) show ?case by (simp del: positions_loop.simps) blast
qed simp

lemma positions_closest:
  assumes "distinct mainline" "small_mainline mainline" "ev \<in> set events"
  shows "\<exists>p. map_of (compute_closest_mainline_positions events mainline ctx version) (ev_id ev) = Some p \<and>
    closest ctx version mainline (ev_id ev) p"
proof -
  let ?r = "compute_closest_mainline_positions events mainline ctx version"
  from positions_fold [OF positions_inv_start [OF assms(1,2)] assms(2) refl, of ctx version events]
  have r: "positions_inv ctx version mainline ?r []" "ev_id ` set events \<subseteq> dom (map_of ?r)"
    by (auto simp: compute_closest_mainline_positions_def)
  with assms(3) obtain p where p: "map_of ?r (ev_id ev) = Some p" by blast
  moreover have "p \<noteq> PENDING" using r(1) p by (auto simp: positions_inv_def)
  ultimately show ?thesis using r(1) by (auto simp: positions_inv_def)
qed

lemma meets_unique:
  assumes "meets ctx version mainline x p" "distinct mainline"
  shows "meets ctx version mainline x q \<Longrightarrow> p = q"
  using assms
proof (induction arbitrary: q rule: meets.induct)
  case (here i x)
  from here.prems(1) show ?case
    by (cases rule: meets.cases) (use here in \<open>auto simp: nth_eq_iff_index_eq\<close>)
next
  case (link x y p)
  with meets_link [of x mainline ctx version q] show ?case by auto
qed

lemma closest_unique:
  "closest ctx version mainline x p \<Longrightarrow> closest ctx version mainline x q \<Longrightarrow> distinct mainline \<Longrightarrow> p = q"
  by (auto simp: closest_def dest: meets_unique)

section \<open>The sort\<close>

definition mainline_key ::
  "lean_event list \<Rightarrow> string list \<Rightarrow> event_map \<Rightarrow> state_res_version \<Rightarrow> lean_event \<Rightarrow> int" where
  "mainline_key events mainline ctx version ev =
     (case map_of (compute_closest_mainline_positions events mainline ctx version) (ev_id ev) of
        Some p \<Rightarrow> p | None \<Rightarrow> int (length mainline))"

lemma mainline_sort_eq:
  "mainline_sort events mainline ctx version =
     map fst (sort_by decorated_cmp (map (\<lambda>ev. (ev, mainline_key events mainline ctx version ev)) events))"
  by (simp add: mainline_sort_def mainline_key_def Let_def)

lemma mainline_key_closest:
  assumes "distinct mainline" "small_mainline mainline" "ev \<in> set events"
  shows "closest ctx version mainline (ev_id ev) (mainline_key events mainline ctx version ev)"
  using positions_closest [OF assms, of ctx version] by (auto simp: mainline_key_def)

lemma decorated_cmp_cascade:
  "decorated_cmp = (\<lambda>x y. ordering_then (cmp (snd y) (snd x))
     (ordering_then (cmp (ev_origin_server_ts (fst x)) (ev_origin_server_ts (fst y)))
       (cmp (ev_id (fst x)) (ev_id (fst y)))))"
  by (intro ext) (simp add: decorated_cmp_def ordering_then_case split: prod.splits)

interpretation decorated_ord: ord_contract decorated_cmp
  unfolding decorated_cmp_cascade by (intro ord_contract_intros)

lemma decorated_le:
  "decorated_ord.le (a, p) (b, q) \<longleftrightarrow> q < p \<or> p = q \<and> (ev_origin_server_ts a < ev_origin_server_ts b \<or>
     ev_origin_server_ts a = ev_origin_server_ts b \<and> ev_id a \<le> ev_id b)"
  by (simp only: decorated_ord.le_def) (auto simp: decorated_cmp_cascade ordering_then_iff)

text \<open>The order of the sort in terms of the specified positions.\<close>

definition mainline_before ::
  "event_map \<Rightarrow> state_res_version \<Rightarrow> string list \<Rightarrow> lean_event \<Rightarrow> lean_event \<Rightarrow> bool" where
  "mainline_before ctx version mainline a b \<longleftrightarrow>
     (\<exists>p q. closest ctx version mainline (ev_id a) p \<and> closest ctx version mainline (ev_id b) q \<and>
        (q < p \<or> p = q \<and> (ev_origin_server_ts a < ev_origin_server_ts b \<or>
           ev_origin_server_ts a = ev_origin_server_ts b \<and> ev_id a \<le> ev_id b)))"

lemma mainline_sort_sorted:
  assumes "distinct mainline" "small_mainline mainline"
  shows "sorted_wrt (mainline_before ctx version mainline) (mainline_sort events mainline ctx version)"
proof -
  let ?k = "mainline_key events mainline ctx version"
  let ?d = "sort_by decorated_cmp (map (\<lambda>ev. (ev, ?k ev)) events)"
  have "mainline_before ctx version mainline (fst x) (fst y)"
    if "x \<in> set ?d" "y \<in> set ?d" "decorated_ord.le x y" for x y
  proof -
    from that(1,2) obtain a b where ab: "x = (a, ?k a)" "a \<in> set events" "y = (b, ?k b)" "b \<in> set events" by auto
    with that(3) have "?k b < ?k a \<or> ?k a = ?k b \<and> (ev_origin_server_ts a < ev_origin_server_ts b \<or>
        ev_origin_server_ts a = ev_origin_server_ts b \<and> ev_id a \<le> ev_id b)" by (simp add: decorated_le)
    with mainline_key_closest [OF assms ab(2)] mainline_key_closest [OF assms ab(4)]
    show ?thesis unfolding ab(1,3) fst_conv mainline_before_def by blast
  qed
  then have "sorted_wrt (\<lambda>x y. mainline_before ctx version mainline (fst x) (fst y)) ?d"
    by (intro sorted_wrt_mono_rel [OF _ decorated_ord.sorted_sort_by]) blast
  then show ?thesis by (simp add: mainline_sort_eq sorted_wrt_map)
qed

lemma mset_mainline_sort: "mset (mainline_sort events mainline ctx version) = mset events"
  by (simp add: mainline_sort_eq mset_map [symmetric] del: mset_map)
     (simp add: image_mset.compositionality comp_def)

lemma mainline_sort_perm:
  assumes "distinct mainline" "small_mainline mainline" "mset events = mset events'" "inj_on ev_id (set events)"
  shows "mainline_sort events mainline ctx version = mainline_sort events' mainline ctx version"
proof -
  have s: "set events = set events'" using assms(3) by (rule mset_eq_setD)
  have "mainline_key events mainline ctx version ev = mainline_key events' mainline ctx version ev"
    if "ev \<in> set events" for ev
    using closest_unique [OF mainline_key_closest mainline_key_closest] assms(1,2) that s by blast
  then have k: "map (\<lambda>ev. (ev, mainline_key events' mainline ctx version ev)) events =
      map (\<lambda>ev. (ev, mainline_key events mainline ctx version ev)) events" by simp
  let ?g = "\<lambda>ev. (ev, mainline_key events' mainline ctx version ev)"
  have "sort_by decorated_cmp (map ?g events) = sort_by decorated_cmp (map ?g events')"
  proof (rule decorated_ord.sort_by_cong)
    show "mset (map ?g events) = mset (map ?g events')" using assms(3) by simp
    fix x y assume "x \<in> set (map ?g events)" "y \<in> set (map ?g events)" "decorated_cmp x y = Equal"
    then show "x = y"
      using assms(4) unfolding decorated_cmp_cascade
      by (auto simp: ordering_then_iff dest: inj_onD)
  qed
  then show ?thesis unfolding mainline_sort_eq k by simp
qed

lemma build_mainline_cached:
  assumes "cache_ok ctx version cache"
  shows "fst (build_mainline_with_cache resolved ctx cache k version) = build_mainline resolved ctx k version \<and>
    cache_ok ctx version (snd (build_mainline_with_cache resolved ctx cache k version)) \<and>
    is_mainline ctx version (resolved (state_slot M_ROOM_POWER_LEVELS k)) (build_mainline resolved ctx k version)"
proof -
  let ?start = "resolved (state_slot M_ROOM_POWER_LEVELS k)"
  have nil: "cache_ok ctx version []" by (simp add: cache_ok_def)
  obtain ms c where run: "mainline_walk ctx version ?start [] [] = (ms, c)" by fastforce
  have "distinct ms \<and> (\<exists>zs. ms = [] @ zs \<and> (?start = None \<longrightarrow> zs = []) \<and>
      (\<forall>x. ?start = Some x \<longrightarrow> x \<notin> set [] \<longrightarrow> zs \<noteq> [] \<and> hd zs = x)) \<and>
    (\<forall>i. Suc i < length ms \<longrightarrow> pl_parent ctx version (ms ! i) = Some (ms ! Suc i)) \<and>
    (ms \<noteq> [] \<longrightarrow> (case pl_parent ctx version (last ms) of None \<Rightarrow> True | Some y \<Rightarrow> y \<in> set ms))"
    by (rule mainline_walk_shape [OF _ _ _ nil run]) simp_all
  then have "is_mainline ctx version ?start ms"
    unfolding is_mainline_def by (cases ?start) auto
  moreover have "build_mainline resolved ctx k version = ms"
    unfolding build_mainline_def build_mainline_with_cache_def run by simp
  ultimately show ?thesis
    using mainline_walk_cache [OF assms nil, of ?start "[]"] run
    unfolding build_mainline_with_cache_def by simp
qed

section \<open>Properties\<close>

definition pl_node :: "string \<Rightarrow> string list \<Rightarrow> string \<times> lean_event" where
  "pl_node i cited =
     (i, (sample_event i M_ROOM_POWER_LEVELS (Some []) ''u'' (Object [])) \<lparr>ev_auth_events := cited\<rparr>)"

definition topic_node :: "string \<Rightarrow> string list \<Rightarrow> string \<times> lean_event" where
  "topic_node i cited =
     (i, (sample_event i M_ROOM_TOPIC (Some []) ''u'' (Object [])) \<lparr>ev_auth_events := cited\<rparr>)"

definition sample_history :: event_map where
  "sample_history = [pl_node ''p1'' [], topic_node ''t1'' [''p1''], pl_node ''p2'' [''t1''],
     topic_node ''t2'' [''x'', ''p2''], topic_node ''t3'' []]"

definition sample_resolved :: shared_state where
  "sample_resolved = (\<lambda>slot. if slot = state_slot M_ROOM_POWER_LEVELS [] then Some ''p2'' else None)"

definition sample_topics :: "lean_event list" where
  "sample_topics = map (\<lambda>i. the (map_of sample_history i)) [''t2'', ''t1'', ''t3'']"

lemma sample_small: "distinct [''p2'', ''p1'']" "small_mainline [''p2'', ''p1'']"
  by (simp_all add: small_mainline_def PENDING_def USIZE_MAX_def)

text \<open>the search for the parent on the mainline is exact. It returns a power levels event that can be
  reached from the edges of the given event through events of other types, and it returns nothing only when
  no such event exists, whatever cycles the graph has.\<close>

lemma pl_parent_exact:
  assumes "map_of ctx x = Some ev"
  shows "(case pl_parent ctx version x of
      Some p \<Rightarrow> is_pl ctx p \<and> chain_reach ctx version (set (dag_edges ev version)) p
    | None \<Rightarrow> \<forall>p. chain_reach ctx version (set (dag_edges ev version)) p \<longrightarrow> \<not> is_pl ctx p)"
proof (cases "pl_parent ctx version x")
  case None
  with pl_parent_None [OF assms None] show ?thesis by simp
next
  case (Some p)
  from pl_parent_Some [OF Some] assms have
    "is_pl ctx p" "chain_reach ctx version (set (dag_edges ev version)) p" by fastforce+
  with Some show ?thesis by simp
qed

lemma pl_parent_exact_witness:
  "pl_parent sample_history V2 ''p2'' = Some ''p1'' \<and>
   chain_reach sample_history V2 {''t1''} ''p1''"
proof -
  have m: "map_of sample_history ''p2'' = Some (snd (pl_node ''p2'' [''t1'']))" by code_simp
  have p: "pl_parent sample_history V2 ''p2'' = Some ''p1''" by code_simp
  have e: "set (dag_edges (snd (pl_node ''p2'' [''t1''])) V2) = {''t1''}" by code_simp
  from pl_parent_exact [OF m, of V2] p show ?thesis unfolding e by simp
qed

text \<open>the mainline is the chain of power levels events behind the resolved one: without repetition,
  headed by the resolved event, each event followed by its nearest power levels ancestor, and extended as
  far as there is one that is not on it yet. A cache of correct entries does not change it, and the entries
  added to the cache are correct again.\<close>

lemma mainline_cached:
  assumes "cache_ok ctx version cache"
  shows "fst (build_mainline_with_cache resolved ctx cache k version) = build_mainline resolved ctx k version \<and>
    cache_ok ctx version (snd (build_mainline_with_cache resolved ctx cache k version)) \<and>
    is_mainline ctx version (resolved (state_slot M_ROOM_POWER_LEVELS k)) (build_mainline resolved ctx k version)"
  using assms by (rule build_mainline_cached)

lemma mainline_cached_witness:
  "build_mainline sample_resolved sample_history [] V2 = [''p2'', ''p1''] \<and>
   is_mainline sample_history V2 (Some ''p2'') [''p2'', ''p1''] \<and>
   fst (build_mainline_with_cache sample_resolved sample_history [(''p2'', Some ''p1'')] [] V2) =
     [''p2'', ''p1'']"
proof -
  have c: "cache_ok sample_history V2 [(''p2'', Some ''p1'')]"
    by (simp add: cache_ok_def) code_simp
  have b: "build_mainline sample_resolved sample_history [] V2 = [''p2'', ''p1'']" by code_simp
  have "sample_resolved (state_slot M_ROOM_POWER_LEVELS []) = Some ''p2''" by (simp add: sample_resolved_def)
  with mainline_cached [OF c, of sample_resolved "[]"] b show ?thesis by simp
qed

text \<open>C17: every event is given the right mainline position. The iterative search, with its explicit stack
  and its marks for unfinished events, assigns to each target the index of the first mainline event met by
  following power levels edges, and the length of the mainline when none is met, also when the edges form a
  cycle.\<close>

theorem mainline_positions:
  assumes "distinct mainline" "small_mainline mainline" "ev \<in> set events"
  shows "\<exists>p. map_of (compute_closest_mainline_positions events mainline ctx version) (ev_id ev) = Some p \<and>
    closest ctx version mainline (ev_id ev) p"
  using positions_closest [OF assms] .

theorem mainline_positions_witness:
  "map_of (compute_closest_mainline_positions sample_topics [''p2'', ''p1''] sample_history V2) ''t1'' = Some 1 \<and>
   closest sample_history V2 [''p2'', ''p1''] ''t1'' 1"
proof -
  let ?ev = "snd (topic_node ''t1'' [''p1''])"
  have v: "map_of (compute_closest_mainline_positions sample_topics [''p2'', ''p1''] sample_history V2) ''t1'' = Some 1"
    by code_simp
  have "?ev \<in> set sample_topics" "ev_id ?ev = ''t1''"
    by (simp_all add: sample_topics_def sample_history_def topic_node_def pl_node_def sample_event_def)
  with mainline_positions [OF sample_small, of ?ev sample_topics sample_history V2] v show ?thesis by auto
qed

text \<open>C18: the mainline sort returns a permutation of its input in the specified order: farther from the
  resolved power levels first, then earlier timestamps, then smaller ids; and the result depends only on the
  set of events, not on the order they were collected in.\<close>

theorem mainline_sort_correct:
  assumes "distinct mainline" "small_mainline mainline" "inj_on ev_id (set events)" "mset events = mset events'"
  shows "mset (mainline_sort events mainline ctx version) = mset events \<and>
    sorted_wrt (mainline_before ctx version mainline) (mainline_sort events mainline ctx version) \<and>
    mainline_sort events mainline ctx version = mainline_sort events' mainline ctx version"
  using mset_mainline_sort mainline_sort_sorted [OF assms(1,2)] mainline_sort_perm [OF assms(1,2,4,3)] by blast

theorem mainline_sort_correct_witness:
  "map ev_id (mainline_sort sample_topics [''p2'', ''p1''] sample_history V2) = [''t3'', ''t1'', ''t2''] \<and>
   mainline_sort sample_topics [''p2'', ''p1''] sample_history V2 =
     mainline_sort (rev sample_topics) [''p2'', ''p1''] sample_history V2"
proof -
  have "inj_on ev_id (set sample_topics)" by code_simp
  moreover have "mset sample_topics = mset (rev sample_topics)" by simp
  moreover have "map ev_id (mainline_sort sample_topics [''p2'', ''p1''] sample_history V2) =
      [''t3'', ''t1'', ''t2'']" by code_simp
  ultimately show ?thesis
    using mainline_sort_correct [OF sample_small, of sample_topics "rev sample_topics" sample_history V2] by blast
qed

end
