(* ===== verification/Resolve_Correct.thy ===== *)
theory Resolve_Correct
  imports Resolve_Iterative Kahn_Correct Mainline_Correct Auth_Correct
begin

text \<open>
  Facts on the event maps of the iterative resolver, described by their lookups: which events are routed
  to the power phase, also through the auth chain expansion, is a matter of reachability and not of the
  order of the worklists, and what the searches, the authorization of an event and the mainline order
  read of a map is its lookup function.
\<close>

section \<open>Event maps\<close>

lemma events_ok_Nil [simp]: "events_ok []"
  by (simp add: events_ok_def)

lemma set_hm_insert: "hm_inv m \<Longrightarrow> set (hm_insert k v m) = {e \<in> set m. fst e \<noteq> k} \<union> {(k, v)}"
  by (induction k v m rule: hm_insert.induct) (auto simp: hm_inv_def)

lemma events_ok_insert: "events_ok m \<Longrightarrow> ev_id ev = i \<Longrightarrow> events_ok (hm_insert i ev m)"
  by (auto simp: events_ok_def hm_inv_insert set_hm_insert)

lemma events_ok_remove: "events_ok m \<Longrightarrow> events_ok (hm_remove i m)"
  by (auto simp: events_ok_def hm_inv_remove) (auto simp: hm_remove_def)

lemma events_ok_lookup: "events_ok m \<Longrightarrow> map_of m i = Some ev \<Longrightarrow> ev_id ev = i"
  by (auto simp: events_ok_def dest: map_of_SomeD)

lemma same_map_set:
  assumes "hm_inv m" "hm_inv m'" "map_of m = map_of m'"
  shows "set m = set m'"
proof -
  have "e \<in> set m \<longleftrightarrow> map_of m (fst e) = Some (snd e)" if "hm_inv m" for e and m :: "('a \<times> 'b) list"
    using that by (cases e) (simp add: hm_inv_def)
  with assms show ?thesis by (metis subsetI subset_antisym)
qed

lemma same_map_mset:
  assumes "hm_inv m" "hm_inv m'" "map_of m = map_of m'"
  shows "mset m = mset m'"
proof -
  have "distinct m" "distinct m'" using assms(1,2) by (auto simp: hm_inv_def distinct_map)
  with same_map_set [OF assms] show ?thesis by (simp add: set_eq_iff_mset_eq_distinct)
qed

section \<open>Routing\<close>

lemma route_fold:
  assumes "distinct (map fst ss)" "route_power_events ss p n version = (p', n')"
  shows "map_of p' i = (case map_of ss i of
        Some ev \<Rightarrow> if is_power_event ev version then Some ev else map_of p i
      | None \<Rightarrow> map_of p i) \<and>
    map_of n' i = (case map_of ss i of
        Some ev \<Rightarrow> if is_power_event ev version then map_of n i else Some ev
      | None \<Rightarrow> map_of n i) \<and>
    (events_ok p \<longrightarrow> events_ok n \<longrightarrow> (\<forall>(i, ev) \<in> set ss. ev_id ev = i) \<longrightarrow> events_ok p' \<and> events_ok n')"
  using assms unfolding route_power_events_def
proof (induction ss arbitrary: p n)
  case (Cons e ss)
  obtain j ev where e: "e = (j, ev)" by (cases e)
  have new: "map_of ss j = None" using Cons.prems e by (simp add: map_of_eq_None_iff)
  show ?case
  proof (cases "is_power_event ev version")
    case True
    with Cons.IH [of "hm_insert j ev p" n] Cons.prems e new show ?thesis
      by (cases "map_of ss i") (auto simp: map_lookups events_ok_insert)
  next
    case False
    with Cons.IH [of p "hm_insert j ev n"] Cons.prems e new show ?thesis
      by (cases "map_of ss i") (auto simp: map_lookups events_ok_insert)
  qed
qed simp

lemma route_power_events_lookup:
  assumes "events_ok ss" "route_power_events ss [] [] version = (p, n)"
  shows "map_of p i = (case map_of ss i of Some ev \<Rightarrow> if is_power_event ev version then Some ev else None
      | None \<Rightarrow> None)"
    and "map_of n i = (case map_of ss i of Some ev \<Rightarrow> if is_power_event ev version then None else Some ev
      | None \<Rightarrow> None)"
    and "events_ok p" "events_ok n"
  using route_fold [of ss "[]" "[]" version p n] assms
  by (auto simp: events_ok_def hm_inv_def split: option.splits)

section \<open>The auth chain expansion\<close>

text \<open>The events promoted to the power phase: those reachable from power events along auth events inside
  the conflicted set.\<close>

inductive promoted :: "event_map \<Rightarrow> string set \<Rightarrow> string \<Rightarrow> bool" for ss start where
  start: "i \<in> start \<Longrightarrow> promoted ss start i"
| cited: "promoted ss start i \<Longrightarrow> map_of ss i = Some ev \<Longrightarrow> a \<in> set (ev_auth_events ev) \<Longrightarrow>
    map_of ss a \<noteq> None \<Longrightarrow> promoted ss start a"

definition expand_inv :: "event_map \<Rightarrow> string set \<Rightarrow> event_map \<Rightarrow> event_map \<Rightarrow> bool" where
  "expand_inv ss start p n \<longleftrightarrow> events_ok p \<and> events_ok n \<and>
     (\<forall>i. map_of p i = None \<or> map_of p i = map_of ss i) \<and>
     (\<forall>i. map_of p i = None \<longrightarrow> map_of n i = map_of ss i) \<and> (\<forall>i. map_of p i \<noteq> None \<longrightarrow> map_of n i = None) \<and>
     start \<subseteq> dom (map_of p) \<and> (\<forall>i. map_of p i \<noteq> None \<longrightarrow> promoted ss start i)"

lemma expand_edge_inv:
  assumes "expand_inv ss start p n" "promoted ss start i" "map_of ss i = Some ev" "a \<in> set (ev_auth_events ev)"
    and "expand_edge ss a (p, n, q) = (p', n', q')"
  shows "expand_inv ss start p' n' \<and> dom (map_of p) \<subseteq> dom (map_of p') \<and>
    (map_of ss a \<noteq> None \<longrightarrow> map_of p' a \<noteq> None) \<and>
    (\<exists>new. q' = q @ new \<and> set new = dom (map_of p') - dom (map_of p))"
proof (cases "map_of p a = None \<and> map_of ss a \<noteq> None")
  case False
  then have "p' = p" "n' = n" "q' = q"
    using assms(1,5) by (auto simp: expand_edge_def expand_inv_def split: if_splits option.splits)
  with False assms(1) show ?thesis by (auto simp: expand_inv_def)
next
  case True
  then obtain aev where aev: "map_of ss a = Some aev" by auto
  from True assms(1) have na: "map_of n a = Some aev" using aev by (simp add: expand_inv_def)
  then have step: "p' = hm_insert a aev p" "n' = hm_remove a n" "q' = q @ [a]"
    using assms(5) True by (auto simp: expand_edge_def)
  have "ev_id aev = a" using assms(1) na events_ok_lookup by (auto simp: expand_inv_def)
  moreover have "promoted ss start a" using promoted.cited [OF assms(2-4)] True by simp
  ultimately have "expand_inv ss start p' n'"
    using assms(1) aev step
    by (auto simp: expand_inv_def map_lookups events_ok_insert events_ok_remove)
  then show ?thesis using step True by (auto simp: map_lookups domIff)
qed

lemma expand_edges_inv:
  assumes "expand_inv ss start p n" "promoted ss start i" "map_of ss i = Some ev" "set as \<subseteq> set (ev_auth_events ev)"
    and "fold (expand_edge ss) as (p, n, q) = (p', n', q')"
  shows "expand_inv ss start p' n' \<and> dom (map_of p) \<subseteq> dom (map_of p') \<and>
    (\<forall>a \<in> set as. map_of ss a \<noteq> None \<longrightarrow> map_of p' a \<noteq> None) \<and>
    (\<exists>new. q' = q @ new \<and> set new = dom (map_of p') - dom (map_of p))"
  using assms
proof (induction as arbitrary: p n q)
  case (Cons a as)
  obtain p1 n1 q1 where s: "expand_edge ss a (p, n, q) = (p1, n1, q1)" by (metis prod_cases3)
  from Cons.prems have "a \<in> set (ev_auth_events ev)" by simp
  note e = expand_edge_inv [OF Cons.prems(1-3) this s]
  have "fold (expand_edge ss) as (p1, n1, q1) = (p', n', q')" using Cons.prems(5) s by simp
  from Cons.IH [OF _ Cons.prems(2,3) _ this] e Cons.prems(4)
  have ih: "expand_inv ss start p' n'" "dom (map_of p1) \<subseteq> dom (map_of p')"
    "\<forall>a \<in> set as. map_of ss a \<noteq> None \<longrightarrow> map_of p' a \<noteq> None"
    "\<exists>new. q' = q1 @ new \<and> set new = dom (map_of p') - dom (map_of p1)" by auto
  from e ih(4) obtain new1 new2 where "q1 = q @ new1" "set new1 = dom (map_of p1) - dom (map_of p)"
    "q' = q1 @ new2" "set new2 = dom (map_of p') - dom (map_of p1)" by blast
  with e ih(2) have "q' = q @ (new1 @ new2) \<and> set (new1 @ new2) = dom (map_of p') - dom (map_of p)" by auto
  with e ih(1-3) show ?case by (metis (no_types, lifting) domIff order.trans set_ConsD subsetD)
qed simp

lemma expand_loop_closed:
  assumes "expand_inv ss start p n" "set q \<subseteq> dom (map_of p)"
    and "\<And>i ev a. map_of p i \<noteq> None \<Longrightarrow> i \<notin> set q \<Longrightarrow> map_of ss i = Some ev \<Longrightarrow> a \<in> set (ev_auth_events ev) \<Longrightarrow>
      map_of ss a \<noteq> None \<Longrightarrow> map_of p a \<noteq> None"
    and "expand_loop ss p n q = (p', n')"
  shows "expand_inv ss start p' n' \<and>
    (\<forall>i ev a. map_of p' i \<noteq> None \<longrightarrow> map_of ss i = Some ev \<longrightarrow> a \<in> set (ev_auth_events ev) \<longrightarrow>
      map_of ss a \<noteq> None \<longrightarrow> map_of p' a \<noteq> None)"
  using assms
proof (induction ss p n q rule: expand_loop.induct)
  case (1 ss p n)
  then show ?case by auto
next
  case (2 ss p n i q)
  define s where "s = (case map_of ss i of
            Some ev \<Rightarrow> fold (expand_edge ss) (ev_auth_events ev) (p, n, q)
          | None \<Rightarrow> (p, n, q))"
  obtain p1 n1 q1 where s1: "s = (p1, n1, q1)" by (metis prod_cases3)
  have run: "expand_loop ss p1 n1 q1 = (p', n')" 
    using 2(5) unfolding expand_loop.simps(2) Let_def s_def [symmetric] s1 by simp
  have pi: "promoted ss start i" using 2(2,3) by (auto simp: expand_inv_def)
  have step: "expand_inv ss start p1 n1" "dom (map_of p) \<subseteq> dom (map_of p1)"
    "\<And>ev a. map_of ss i = Some ev \<Longrightarrow> a \<in> set (ev_auth_events ev) \<Longrightarrow> map_of ss a \<noteq> None \<Longrightarrow> map_of p1 a \<noteq> None"
    "\<exists>new. q1 = q @ new \<and> set new = dom (map_of p1) - dom (map_of p)"
    using expand_edges_inv [OF 2(2) pi _ subset_refl, of _ q p1 n1 q1] 2(2) s_def s1
    by (cases "map_of ss i"; auto)+
  show ?case
  proof (rule 2(1) [OF s_def, unfolded s1 fst_conv snd_conv, OF step(1) _ _ run])
    have "set q \<subseteq> dom (map_of p)" using 2(3) by simp
    moreover have "set q1 = set q \<union> (dom (map_of p1) - dom (map_of p))" using step(4) by fastforce
    ultimately show "set q1 \<subseteq> dom (map_of p1)" using step(2) by blast
    fix j ev a assume j: "map_of p1 j \<noteq> None" "j \<notin> set q1" "map_of ss j = Some ev"
      "a \<in> set (ev_auth_events ev)" "map_of ss a \<noteq> None"
    show "map_of p1 a \<noteq> None"
    proof (cases "j = i")
      case True
      with step(3) j show ?thesis by auto
    next
      case False
      have "map_of p j \<noteq> None" using j(1,2) step(4) by auto
      moreover have "j \<notin> set (i # q)" using False j(2) step(4) by auto
      ultimately have "map_of p a \<noteq> None" using 2(4) j by blast
      with step(2) show ?thesis by auto
    qed
  qed
qed

lemma expand_lookup:
  assumes ok: "events_ok ss" and r: "route_power_events ss [] [] version = (p, n)"
    and x: "expand_v2_power_events_auth_chains p n ss = (p', n')"
  shows "map_of p' i = (if promoted ss (dom (map_of p)) i then map_of ss i else None)"
    and "map_of n' i = (if promoted ss (dom (map_of p)) i then None else map_of ss i)"
    and "events_ok p'" "events_ok n'"
proof -
  note route = route_power_events_lookup [OF ok r]
  let ?start = "dom (map_of p)"
  have inv: "expand_inv ss ?start p n"
    using route by (auto simp: expand_inv_def intro: promoted.start split: option.splits if_splits)
  have q: "set (map fst p) = dom (map_of p)" by (simp add: dom_map_of_conv_image_fst)
  have "expand_inv ss ?start p' n' \<and>
    (\<forall>i ev a. map_of p' i \<noteq> None \<longrightarrow> map_of ss i = Some ev \<longrightarrow> a \<in> set (ev_auth_events ev) \<longrightarrow>
      map_of ss a \<noteq> None \<longrightarrow> map_of p' a \<noteq> None)"
    by (rule expand_loop_closed [OF inv, of "map fst p"])
      (use q x in \<open>auto simp: expand_v2_power_events_auth_chains_def\<close>)
  then have inv': "expand_inv ss ?start p' n'"
    and closed: "\<And>i ev a. map_of p' i \<noteq> None \<Longrightarrow> map_of ss i = Some ev \<Longrightarrow> a \<in> set (ev_auth_events ev) \<Longrightarrow>
      map_of ss a \<noteq> None \<Longrightarrow> map_of p' a \<noteq> None" by blast+
  have "promoted ss ?start i \<Longrightarrow> map_of p' i \<noteq> None" for i
  proof (induction rule: promoted.induct)
    case (start i)
    then show ?case using inv' by (auto simp: expand_inv_def)
  next
    case (cited i ev a)
    then show ?case using closed by blast
  qed
  then have "promoted ss ?start i \<longleftrightarrow> map_of p' i \<noteq> None" for i
    using inv' by (auto simp: expand_inv_def)
  then show "map_of p' i = (if promoted ss ?start i then map_of ss i else None)"
    and "map_of n' i = (if promoted ss ?start i then None else map_of ss i)"
    using inv' unfolding expand_inv_def by metis+
  show "events_ok p'" "events_ok n'" using inv' by (simp_all add: expand_inv_def)
qed

section \<open>The power phase\<close>

inductive ancestor :: "event_map \<Rightarrow> string set \<Rightarrow> string \<Rightarrow> bool" for ctx start where
  start: "i \<in> start \<Longrightarrow> ancestor ctx start i"
| cited: "ancestor ctx start i \<Longrightarrow> map_of ctx i = Some ev \<Longrightarrow> a \<in> set (ev_auth_events ev) \<Longrightarrow>
    ancestor ctx start a"

lemma ancestry_sound:
  assumes "\<And>i. i \<in> set q \<union> set anc \<Longrightarrow> ancestor ctx start i" "x \<in> set (ancestry_loop ctx q anc)"
  shows "ancestor ctx start x"
  using assms
proof (induction ctx q anc rule: ancestry_loop.induct)
  case (2 ctx aid queue ancestry)
  show ?case
  proof (cases "aid \<in> set ancestry")
    case True
    with 2(1) [OF True] 2(4,5) show ?thesis by auto
  next
    case new: False
    show ?thesis
    proof (cases "map_of ctx aid")
      case None
      with 2(2) [OF new None] 2(4,5) new show ?thesis by auto
    next
      case (Some ev)
      have "ancestor ctx start a" if "a \<in> set (ev_auth_events ev)" for a
        using ancestor.cited [OF 2(4) Some that] by simp
      with 2(3) [OF new Some] 2(4,5) new Some show ?thesis by auto
    qed
  qed
qed simp

definition ancestry_inv :: "event_map \<Rightarrow> string list \<Rightarrow> string list \<Rightarrow> bool" where
  "ancestry_inv ctx q anc \<longleftrightarrow> (\<forall>i \<in> set anc. \<forall>ev. map_of ctx i = Some ev \<longrightarrow>
     set (ev_auth_events ev) \<subseteq> set anc \<union> set q)"

lemma ancestry_closed:
  assumes "ancestry_inv ctx q anc"
  shows "set q \<union> set anc \<subseteq> set (ancestry_loop ctx q anc) \<and> ancestry_inv ctx [] (ancestry_loop ctx q anc)"
  using assms
proof (induction ctx q anc rule: ancestry_loop.induct)
  case (2 ctx aid queue anc)
  show ?case
  proof (cases "aid \<in> set anc")
    case True
    with 2(4) have "ancestry_inv ctx queue anc" by (auto simp: ancestry_inv_def)
    with 2(1) True show ?thesis by auto
  next
    case new: False
    show ?thesis
    proof (cases "map_of ctx aid")
      case None
      with 2(4) have "ancestry_inv ctx queue (aid # anc)" by (auto simp: ancestry_inv_def)
      with 2(2) new None show ?thesis by auto
    next
      case (Some aev)
      with 2(4) have "ancestry_inv ctx (queue @ ev_auth_events aev) (aid # anc)"
        by (auto simp: ancestry_inv_def)
      with 2(3) new Some show ?thesis by auto
    qed
  qed
qed simp

lemma ancestry_iff: "x \<in> set (ancestry_loop ctx q []) \<longleftrightarrow> ancestor ctx (set q) x"
proof
  show "x \<in> set (ancestry_loop ctx q []) \<Longrightarrow> ancestor ctx (set q) x"
    by (rule ancestry_sound) (auto intro: ancestor.start)
  have c: "set q \<union> set [] \<subseteq> set (ancestry_loop ctx q []) \<and> ancestry_inv ctx [] (ancestry_loop ctx q [])"
    by (rule ancestry_closed) (simp add: ancestry_inv_def)
  show "ancestor ctx (set q) x \<Longrightarrow> x \<in> set (ancestry_loop ctx q [])"
    by (induction rule: ancestor.induct) (use c in \<open>auto simp: ancestry_inv_def\<close>)
qed

definition routes_ancestor :: "string set \<Rightarrow> state_res_version \<Rightarrow> string \<Rightarrow> lean_event \<Rightarrow> bool" where
  "routes_ancestor orig version i ev \<longleftrightarrow> i \<notin> orig \<and>
     (ev_type ev = M_ROOM_POWER_LEVELS \<or> ev_type ev = M_ROOM_CREATE \<or>
      ev_type ev = M_ROOM_JOIN_RULES \<and> version = V2_1)"

lemma route_ancestor_eq:
  "route_ancestor ctx orig version i p = (case map_of ctx i of
       Some ev \<Rightarrow> if routes_ancestor (set orig) version i ev then hm_insert i ev p else p
     | None \<Rightarrow> p)"
  by (auto simp: route_ancestor_def routes_ancestor_def split: option.splits)

lemma route_ancestors_lookup:
  "map_of (fold (route_ancestor ctx orig version) as p) i = (case map_of ctx i of
       Some ev \<Rightarrow> if i \<in> set as \<and> routes_ancestor (set orig) version i ev then Some ev else map_of p i
     | None \<Rightarrow> map_of p i)"
proof (induction as arbitrary: p)
  case Nil
  show ?case by (simp split: option.splits)
next
  case (Cons a as)
  have "map_of (route_ancestor ctx orig version a p) i = (case map_of ctx i of
       Some ev \<Rightarrow> if i = a \<and> routes_ancestor (set orig) version i ev then Some ev else map_of p i
     | None \<Rightarrow> map_of p i)"
    by (auto simp: route_ancestor_eq map_lookups split: option.splits)
  with Cons [of "route_ancestor ctx orig version a p"] show ?case by (cases "map_of ctx i") auto
qed

lemma route_ancestors_ok:
  assumes "events_ok ctx" "events_ok p"
  shows "events_ok (fold (route_ancestor ctx orig version) as p)"
  using assms(2)
proof (induction as arbitrary: p)
  case (Cons a as)
  have "events_ok (route_ancestor ctx orig version a p)"
    using Cons.prems assms(1) by (auto simp: route_ancestor_eq intro: events_ok_insert events_ok_lookup split: option.splits)
  with Cons.IH show ?case by simp
qed simp

lemma ancestor_cong: "map_of ctx = map_of ctx' \<Longrightarrow> ancestor ctx start = ancestor ctx' start"
proof -
  have "ancestor ctx' start x" if "ancestor ctx start x" "map_of ctx = map_of ctx'" for ctx ctx' x
    using that by induction (auto intro: ancestor.intros)
  then show "map_of ctx = map_of ctx' \<Longrightarrow> ?thesis" by (intro ext) metis
qed

lemma promoted_cong: "map_of ss = map_of ss' \<Longrightarrow> promoted ss start = promoted ss' start"
proof -
  have "promoted ss' start x" if "promoted ss start x" "map_of ss = map_of ss'" for ss ss' x
    using that by induction (auto intro: promoted.intros)
  then show "map_of ss = map_of ss' \<Longrightarrow> ?thesis" by (intro ext) metis
qed

lemma execute_power_phase_ok:
  assumes "events_ok conf" "events_ok auth" "execute_power_phase conf auth orig version = (p, n)"
  shows "events_ok p" "events_ok n"
proof -
  obtain p0 n0 where r: "route_power_events conf [] [] version = (p0, n0)" by fastforce
  obtain p1 n1 where x: "(if version \<noteq> V1 then expand_v2_power_events_auth_chains p0 n0 conf else (p0, n0)) = (p1, n1)"
    by fastforce
  have "events_ok p1" "events_ok n1"
    using x route_power_events_lookup(3,4) [OF assms(1) r] expand_lookup(3,4) [OF assms(1) r]
    by (auto split: if_splits)
  moreover have "p = route_msc4297_ancestral_power_events p1 auth orig version" "n = n1"
    using assms(3) r x by (simp_all add: execute_power_phase_def)
  ultimately show "events_ok p" "events_ok n"
    using route_ancestors_ok [OF assms(2)] by (simp_all add: route_msc4297_ancestral_power_events_def)
qed

lemma execute_power_phase_same:
  assumes conf: "map_of conf = map_of conf'" "events_ok conf" "events_ok conf'"
    and auth: "map_of auth = map_of auth'" and orig: "set orig = set orig'"
    and e: "execute_power_phase conf auth orig version = (p, n)"
      "execute_power_phase conf' auth' orig' version = (p', n')"
  shows "map_of p = map_of p'" "map_of n = map_of n'"
proof -
  obtain p0 n0 where r: "route_power_events conf [] [] version = (p0, n0)" by fastforce
  obtain p0' n0' where r': "route_power_events conf' [] [] version = (p0', n0')" by fastforce
  obtain p1 n1 where x: "(if version \<noteq> V1 then expand_v2_power_events_auth_chains p0 n0 conf else (p0, n0)) = (p1, n1)"
    by fastforce
  obtain p1' n1' where x': "(if version \<noteq> V1 then expand_v2_power_events_auth_chains p0' n0' conf' else (p0', n0')) = (p1', n1')"
    by fastforce
  note route = route_power_events_lookup [OF conf(2) r] and route' = route_power_events_lookup [OF conf(3) r']
  have m0: "map_of p0 = map_of p0'" "map_of n0 = map_of n0'"
    using route(1,2) route'(1,2) conf(1) by (simp_all add: fun_eq_iff)
  have m1: "map_of p1 = map_of p1'" "map_of n1 = map_of n1'" and ok: "hm_inv p1" "hm_inv p1'"
  proof -
    show "map_of p1 = map_of p1'"
    proof (cases "version = V1")
      case False
      with x x' expand_lookup(1) [OF conf(2) r] expand_lookup(1) [OF conf(3) r'] show ?thesis
        by (simp add: fun_eq_iff m0 conf(1) promoted_cong [OF conf(1)])
    qed (use x x' m0 in simp)
    show "map_of n1 = map_of n1'"
    proof (cases "version = V1")
      case False
      with x x' expand_lookup(2) [OF conf(2) r] expand_lookup(2) [OF conf(3) r'] show ?thesis
        by (simp add: fun_eq_iff m0 conf(1) promoted_cong [OF conf(1)])
    qed (use x x' m0 in simp)
    show "hm_inv p1" "hm_inv p1'"
      using x x' route(3) route'(3) expand_lookup(3) [OF conf(2) r] expand_lookup(3) [OF conf(3) r']
      by (auto simp: events_ok_def split: if_splits)
  qed
  have "set p1 = set p1'" using same_map_set [OF ok m1(1)] .
  then have start: "set (concat (map (\<lambda>(_, ev). ev_auth_events ev) p1)) =
      set (concat (map (\<lambda>(_, ev). ev_auth_events ev) p1'))" by simp
  have "n = n1" "n' = n1'" "p = route_msc4297_ancestral_power_events p1 auth orig version"
    "p' = route_msc4297_ancestral_power_events p1' auth' orig' version"
    using e r r' x x' by (simp_all add: execute_power_phase_def)
  moreover have "map_of (fold (route_ancestor auth orig version)
        (ancestry_loop auth (concat (map (\<lambda>(_, ev). ev_auth_events ev) p1)) []) p1) i =
      map_of (fold (route_ancestor auth' orig' version)
        (ancestry_loop auth' (concat (map (\<lambda>(_, ev). ev_auth_events ev) p1')) []) p1') i" for i
    unfolding route_ancestors_lookup ancestry_iff start ancestor_cong [OF auth] auth orig m1 ..
  ultimately show "map_of n = map_of n'" "map_of p = map_of p'"
    using m1 by (auto simp: route_msc4297_ancestral_power_events_def fun_eq_iff)
qed

section \<open>What the searches read\<close>

lemma local_auth_loop_cong:
  assumes "find_event a b = find_event a' b'"
  shows "local_auth_loop a b cache version q visited la = local_auth_loop a' b' cache version q visited la"
  using assms
proof (induction a b cache version q visited la rule: local_auth_loop.induct)
  case (2 a b cache version aid depth queue visited la)
  note step = local_auth_loop.simps(2) [of _ _ cache version aid depth queue visited la]
  show ?case
  proof (cases "aid \<in> set visited")
    case True
    with 2(1) [OF True 2(4)] show ?thesis by simp
  next
    case False
    show ?thesis
    proof (cases "map_of cache aid")
      case None
      from 2(2) [OF False refl refl None 2(4)] None False show ?thesis
        unfolding step Let_def 2(4) by simp
    next
      case (Some c)
      from 2(3) [OF False refl refl Some 2(4)] Some False show ?thesis
        unfolding step Let_def 2(4) by simp
    qed
  qed
qed simp

lemma compute_local_auth_cong:
  assumes "find_event a b = find_event a' b'"
  shows "compute_local_auth ev a b = compute_local_auth ev a' b'"
  by (intro ext) (unfold compute_local_auth_def local_auth_loop_cong [OF assms], rule refl)

lemma iterative_auth_ok_cong:
  assumes "find_event a b = find_event a' b'"
  shows "iterative_auth_ok ev r a b = iterative_auth_ok ev r a' b'"
proof -
  have "overlay_get_event \<lparr>ov_resolved = r, ov_auth_context = a, ov_sort_set = b, ov_local_auth = la,
        ov_create_ev = c, ov_version = v, ov_is_power_phase = ip, ov_candidate_event_type = t\<rparr> =
      overlay_get_event \<lparr>ov_resolved = r, ov_auth_context = a', ov_sort_set = b', ov_local_auth = la,
        ov_create_ev = c, ov_version = v, ov_is_power_phase = ip, ov_candidate_event_type = t\<rparr>" for la c v ip t
    by (intro ext) (unfold overlay_get_event_def overlay_state.select_convs assms, rule refl)
  then show ?thesis by (intro ext) (unfold iterative_auth_ok_def, simp only:)
qed

definition same_check :: "iterative_auth_check \<Rightarrow> iterative_auth_check \<Rightarrow> bool" where
  "same_check ck ck' \<longleftrightarrow>
     find_event (ck_auth_context ck) (ck_conflicted ck) = find_event (ck_auth_context ck') (ck_conflicted ck') \<and>
     find_event (ck_conflicted ck) (ck_auth_context ck) = find_event (ck_conflicted ck') (ck_auth_context ck') \<and>
     ck_create_ev ck = ck_create_ev ck' \<and> ck_version ck = ck_version ck'"

lemma admit_cong:
  assumes "same_check ck ck'" "set keys = set keys'"
  shows "admit ck keys = admit ck' keys'" "admit_power ck keys = admit_power ck' keys'"
proof -
  from assms(1) have c: "find_event (ck_auth_context ck) (ck_conflicted ck) =
      find_event (ck_auth_context ck') (ck_conflicted ck')"
    "find_event (ck_conflicted ck) (ck_auth_context ck) = find_event (ck_conflicted ck') (ck_auth_context ck')"
    "ck_create_ev ck = ck_create_ev ck'" "ck_version ck = ck_version ck'" by (simp_all add: same_check_def)
  have "event_auth_ok ck = event_auth_ok ck'"
    by (intro ext) (simp add: event_auth_ok_def c(3,4) compute_local_auth_cong [OF c(1)]
        iterative_auth_ok_cong [OF c(1)])
  moreover have "decides_key v keys = decides_key v keys'" for v
    by (intro ext) (simp add: decides_key_def assms(2))
  ultimately show a: "admit ck keys = admit ck' keys'"
    by (intro ext) (unfold admit_def c(4), simp only:)
  show "admit_power ck keys = admit_power ck' keys'"
    by (intro ext) (unfold admit_power_def a c(2), rule refl)
qed

lemma pl_search_cong:
  "map_of ctx = map_of ctx' \<Longrightarrow> pl_search ctx version q visited = pl_search ctx' version q visited"
proof (induction ctx version q visited rule: pl_search.induct)
  case (2 ctx version q_id queue visited)
  then show ?case by (cases "map_of ctx q_id") (auto simp: fun_eq_iff)
qed simp

lemma pl_parent_cong: "map_of ctx = map_of ctx' \<Longrightarrow> pl_parent ctx = pl_parent ctx'"
  by (intro ext) (auto simp: pl_parent_def intro: pl_search_cong split: option.split)

lemma mainline_walk_cong:
  "map_of ctx = map_of ctx' \<Longrightarrow>
   mainline_walk ctx version cur ms cache = mainline_walk ctx' version cur ms cache"
proof (induction ctx version cur ms cache rule: mainline_walk.induct)
  case (2 ctx version eid ms cache)
  note pp = pl_parent_cong [OF 2(3)]
  show ?case
  proof (cases "eid \<in> set ms")
    case False
    with 2(1) [OF False _ refl 2(3)] 2(2) [OF False _ 2(3)] show ?thesis
      by (cases "map_of cache eid") (simp_all add: pp Let_def)
  qed simp
qed simp

lemma pl_edge_cong: "map_of ctx = map_of ctx' \<Longrightarrow> pl_edge ctx = pl_edge ctx'"
  by (intro ext) (unfold pl_edge_def, simp only:)

lemma closest_cong:
  assumes "map_of ctx = map_of ctx'"
  shows "closest ctx version mainline x p \<longleftrightarrow> closest ctx' version mainline x p"
proof -
  have "meets ctx' version mainline x i" if "meets ctx version mainline x i" "pl_edge ctx = pl_edge ctx'"
    for ctx ctx' x i
    using that by induction (auto intro: meets.intros)
  then have "meets ctx version mainline x i \<longleftrightarrow> meets ctx' version mainline x i" for i
    using pl_edge_cong [OF assms] by metis
  then show ?thesis by (simp add: closest_def)
qed

lemma mainline_sort_same:
  assumes "distinct mainline" "small_mainline mainline" "mset events = mset events'" "inj_on ev_id (set events)"
    and "map_of ctx = map_of ctx'"
  shows "mainline_sort events mainline ctx version = mainline_sort events' mainline ctx' version"
proof -
  have "mainline_key events' mainline ctx version ev = mainline_key events' mainline ctx' version ev"
    if "ev \<in> set events'" for ev
    using mainline_key_closest [OF assms(1,2) that, of ctx version]
      mainline_key_closest [OF assms(1,2) that, of ctx' version] closest_cong [OF assms(5)]
      closest_unique [OF _ _ assms(1)] by metis
  then have "map (\<lambda>ev. (ev, mainline_key events' mainline ctx version ev)) events' =
      map (\<lambda>ev. (ev, mainline_key events' mainline ctx' version ev)) events'" by simp
  then have "mainline_sort events' mainline ctx version = mainline_sort events' mainline ctx' version"
    unfolding mainline_sort_eq by (simp only:)
  with mainline_sort_perm [OF assms(1-4)] show ?thesis by simp
qed

lemma build_mainline_bound:
  assumes "cache_ok ctx version cache" "build_mainline_with_cache resolved ctx cache k version = (ms, cache')"
  shows "distinct ms" "length ms \<le> Suc (length ctx)"
proof -
  have m: "is_mainline ctx version (resolved (state_slot M_ROOM_POWER_LEVELS k)) ms"
    using build_mainline_cached [OF assms(1), of resolved k] assms(2) by simp
  then show d: "distinct ms" by (simp add: is_mainline_def)
  have "set (tl ms) \<subseteq> fst ` set ctx"
  proof
    fix y assume "y \<in> set (tl ms)"
    then obtain i where "i < length (tl ms)" "y = tl ms ! i" by (auto simp: in_set_conv_nth)
    then have "Suc i < length ms" "y = ms ! Suc i" by (cases ms; simp)+
    then have "pl_parent ctx version (ms ! i) = Some y" using m by (simp add: is_mainline_def)
    then have "is_pl ctx y" by (rule pl_parent_Some)
    then show "y \<in> fst ` set ctx"
      by (metis is_pl_def map_of_eq_None_iff option.simps(4))
  qed
  moreover have "distinct (tl ms)" using d by (rule distinct_tl)
  ultimately have "length (tl ms) \<le> length ctx"
    using card_mono [of "fst ` set ctx" "set (tl ms)"] card_image_le [of "set ctx" fst] card_length [of ctx]
    by (simp add: distinct_card)
  then show "length ms \<le> Suc (length ctx)" by simp
qed

end
