(* ===== verification/Resolve_Sound.thy ===== *)
theory Resolve_Sound
  imports Resolve_Correct
begin

text \<open>
  Correctness of the iterative resolver, over the lookups of Resolve_Correct. A run is split into its
  stages and into its steps, the checks of single events. The properties are totality, the
  characterization of the result by the accepted steps, and the independence of the result from the
  iteration order of the event maps.
\<close>

section \<open>The stages of a run\<close>

definition power_order :: "iterative_inputs \<Rightarrow> event_map \<Rightarrow> (fault, string list) result" where
  "power_order inp pwr = kahn_sort (power_sort_inputs pwr (sort_context (ii_conflicted inp) (ii_auth_context inp))
     (ck_create_ev (check_of inp)) (ii_version inp))"

definition phases :: "iterative_inputs \<Rightarrow> event_map \<times> event_map" where
  "phases inp = execute_power_phase (ii_conflicted inp) (ii_auth_context inp)
     (prepare_conflicted_and_keys (ii_conflicted inp)) (ii_version inp)"

definition power_stage ::
  "iterative_inputs \<Rightarrow> slot list \<Rightarrow> local_auth_cache option \<Rightarrow> string list \<Rightarrow> shared_state \<times> local_auth_cache" where
  "power_stage inp keys external ids = fold (admit_power (check_of inp) keys) ids
     (get_initial_resolved_state (ii_unconflicted inp) (ii_version inp),
      select_local_auth_cache external (ii_version inp))"

definition agreed_stage :: "iterative_inputs \<Rightarrow> shared_state \<Rightarrow> shared_state" where
  "agreed_stage inp r = merge_unconflicted_power_events (ii_version inp) (ii_unconflicted inp) r (ii_empty_key inp)"

definition mainline_stage ::
  "iterative_inputs \<Rightarrow> parent_cache \<Rightarrow> event_map \<Rightarrow> shared_state \<Rightarrow> lean_event list \<times> parent_cache" where
  "mainline_stage inp pc np r =
     (let context = sort_context (ii_conflicted inp) (ii_auth_context inp);
          (mainline, pc1) = build_mainline_with_cache r context pc (ii_empty_key inp) (ii_version inp)
      in (mainline_sort (screen_non_power inp r context np) mainline context (ii_version inp), pc1))"

lemma resolve_stages:
  assumes "ii_version inp \<noteq> V3" "phases inp = (pwr, np)" "power_order inp pwr = Inr ids"
    and "power_stage inp keys (rc_external caches) ids = (r, c)"
    and "mainline_stage inp (rc_mainline caches) np (agreed_stage inp r) = (evs, pc)"
    and "fold (admit (check_of inp) keys False) evs (agreed_stage inp r, c) = (r', c')"
  shows "resolve_iterative_sort_with_all_caches inp caches keys =
    Inr (merge_final_resolved (ii_unconflicted inp) r', c', pc)"
proof -
  have v: "require_legacy_iterative_version (ii_version inp) = Inr ()"
    using assms(1) by (simp add: require_legacy_iterative_version_def require_def)
  have k: "kahn_sort (power_sort_inputs pwr (sort_context (ii_conflicted inp) (ii_auth_context inp))
      (ck_create_ev (check_of inp)) (ck_version (check_of inp))) = Inr ids"
    using assms(3) by (simp add: power_order_def check_of_def)
  obtain ms where m: "build_mainline_with_cache (agreed_stage inp r)
      (sort_context (ii_conflicted inp) (ii_auth_context inp)) (rc_mainline caches)
      (ii_empty_key inp) (ii_version inp) = (ms, pc)"
    and e: "evs = mainline_sort (screen_non_power inp (agreed_stage inp r)
      (sort_context (ii_conflicted inp) (ii_auth_context inp)) np) ms
      (sort_context (ii_conflicted inp) (ii_auth_context inp)) (ii_version inp)"
    using assms(5) unfolding mainline_stage_def Let_def by (auto split: prod.splits)
  have p: "execute_power_phase (ii_conflicted inp) (ii_auth_context inp)
     (prepare_conflicted_and_keys (ii_conflicted inp)) (ii_version inp) = (pwr, np)"
    using assms(2) by (simp add: phases_def)
  have f: "fold (admit_power (check_of inp) keys) ids
     (get_initial_resolved_state (ii_unconflicted inp) (ii_version inp),
      select_local_auth_cache (rc_external caches) (ii_version inp)) = (r, c)"
    using assms(4) by (simp add: power_stage_def)
  show ?thesis
    unfolding resolve_iterative_sort_with_all_caches_def v ok_then_simps Let_def p prod.case
      run_power_phase_iterative_checks_def k rbind_simps f agreed_stage_def [symmetric] m e [symmetric] assms(6) ..
qed

lemma phases_ok:
  assumes "events_ok (ii_conflicted inp)" "events_ok (ii_auth_context inp)" "phases inp = (pwr, np)"
  shows "events_ok pwr" "events_ok np"
  using execute_power_phase_ok [OF assms(1,2)] assms(3) unfolding phases_def by blast+

lemma resolve_runs:
  assumes "ii_version inp \<noteq> V3" "events_ok (ii_conflicted inp)" "events_ok (ii_auth_context inp)"
  obtains pwr np ids r c evs pc r' c' where "phases inp = (pwr, np)" "power_order inp pwr = Inr ids"
    "power_stage inp keys (rc_external caches) ids = (r, c)"
    "mainline_stage inp (rc_mainline caches) np (agreed_stage inp r) = (evs, pc)"
    "fold (admit (check_of inp) keys False) evs (agreed_stage inp r, c) = (r', c')"
    "resolve_iterative_sort_with_all_caches inp caches keys =
      Inr (merge_final_resolved (ii_unconflicted inp) r', c', pc)"
proof -
  obtain pwr np where p: "phases inp = (pwr, np)" by fastforce
  obtain ids where k: "power_order inp pwr = Inr ids"
    using kahn_sort_returns [of "power_sort_inputs pwr (sort_context (ii_conflicted inp) (ii_auth_context inp))
      (ck_create_ev (check_of inp)) (ii_version inp)"] phases_ok(1) [OF assms(2,3) p]
    by (auto simp: power_order_def power_sort_inputs_def)
  obtain r c where f: "power_stage inp keys (rc_external caches) ids = (r, c)" by fastforce
  obtain evs pc where m: "mainline_stage inp (rc_mainline caches) np (agreed_stage inp r) = (evs, pc)" by fastforce
  obtain r' c' where g: "fold (admit (check_of inp) keys False) evs (agreed_stage inp r, c) = (r', c')" by fastforce
  from that [OF p k f m g] resolve_stages [OF assms(1) p k f m g] show thesis .
qed

section \<open>Local authorization\<close>

definition cites :: "event_map \<Rightarrow> state_res_version \<Rightarrow> lean_event \<Rightarrow> string \<Rightarrow> bool" where
  "cites ctx version ev i \<longleftrightarrow> (if transitive_auth version then ancestor ctx (set (ev_auth_events ev)) i
     else i \<in> set (ev_auth_events ev))"

definition local_auth_sound :: "event_map \<Rightarrow> state_res_version \<Rightarrow> lean_event \<Rightarrow> local_auth_map \<Rightarrow> bool" where
  "local_auth_sound ctx version ev la \<longleftrightarrow> (\<forall>(k, e, d) \<in> set la. \<exists>i sk. cites ctx version ev i \<and>
     map_of ctx i = Some e \<and> ev_state_key e = Some sk \<and> k = event_slot e sk)"

definition cache_sound :: "event_map \<Rightarrow> state_res_version \<Rightarrow> (string \<times> local_auth_map) list \<Rightarrow> bool" where
  "cache_sound ctx version m \<longleftrightarrow> (\<forall>i la. map_of m i = Some la \<longrightarrow>
     (\<exists>ev. map_of ctx i = Some ev \<and> local_auth_sound ctx version ev la))"

lemma ancestor_bind:
  assumes "ancestor ctx T x" "\<And>t. t \<in> T \<Longrightarrow> ancestor ctx S t"
  shows "ancestor ctx S x"
  using assms by (induction rule: ancestor.induct) (auto intro: ancestor.intros)

lemma cites_trans:
  assumes "cites ctx version ev i" "map_of ctx i = Some e" "cites ctx version e j" "transitive_auth version"
  shows "cites ctx version ev j"
  using assms ancestor_bind [of ctx "set (ev_auth_events e)" j "set (ev_auth_events ev)"]
  by (auto simp: cites_def intro: ancestor.cited)

lemma set_hm_insert_subset: "set (hm_insert k v m) \<subseteq> insert (k, v) (set m)"
  by (induction k v m rule: hm_insert.induct) auto

lemma insert_shallower_sound:
  assumes "local_auth_sound ctx version ev la" "cites ctx version ev i" "map_of ctx i = Some e"
    "ev_state_key e = Some sk"
  shows "local_auth_sound ctx version ev (insert_shallower (event_slot e sk) e d la)"
proof -
  have "set (insert_shallower (event_slot e sk) e d la) \<subseteq> insert (event_slot e sk, e, d) (set la)"
    using set_hm_insert_subset [of "event_slot e sk" "(e, d)" la]
    by (auto simp: insert_shallower_def split: option.splits if_splits)
  with assms show ?thesis unfolding local_auth_sound_def by blast
qed

lemma merge_cached_sound:
  assumes "local_auth_sound ctx version e m" "cites ctx version ev i" "map_of ctx i = Some e"
    "transitive_auth version" "local_auth_sound ctx version ev la"
  shows "local_auth_sound ctx version ev (merge_cached m d la)"
  using assms(1,5)
proof (induction m arbitrary: la)
  case Nil
  then show ?case by (simp add: merge_cached_def)
next
  case (Cons x m)
  obtain k e' d' where x: "x = (k, e', d')" by (metis prod_cases3)
  from Cons.prems(1) x obtain j sk where j: "cites ctx version e j" "map_of ctx j = Some e'"
    "ev_state_key e' = Some sk" "k = event_slot e' sk" by (auto simp: local_auth_sound_def)
  have m: "local_auth_sound ctx version e m" using Cons.prems(1) by (simp add: local_auth_sound_def)
  have "local_auth_sound ctx version ev (insert_shallower k e' (saturating_add_usize d d') la)"
    using insert_shallower_sound [OF Cons.prems(2) cites_trans [OF assms(2,3) j(1) assms(4)] j(2,3)] j(4) by simp
  from Cons.IH [OF m this] x show ?case by (simp add: merge_cached_def)
qed

lemma local_auth_loop_sound:
  assumes "cache_sound (a @ b) version m" "local_auth_sound (a @ b) version ev la"
    and "\<forall>x \<in> fst ` set q. cites (a @ b) version ev x"
  shows "local_auth_sound (a @ b) version ev (local_auth_loop a b m version q visited la)"
  using assms
proof (induction a b m version q visited la rule: local_auth_loop.induct)
  case (2 a b m version aid depth queue visited la)
  let ?la = "case find_event a b aid of Some aev \<Rightarrow> update_local_auth la aev depth | None \<Rightarrow> la"
  have aid: "cites (a @ b) version ev aid" using 2(6) by simp
  have la: "local_auth_sound (a @ b) version ev ?la"
  proof (cases "find_event a b aid")
    case (Some aev)
    then show ?thesis
      using insert_shallower_sound [OF 2(5) aid, of aev] 2(5)
      by (auto simp: update_local_auth_def find_event_map_of split: option.split)
  qed (use 2(5) in simp)
  show ?case
  proof (cases "aid \<in> set visited")
    case True
    with 2(1) [OF True 2(4,5)] 2(6) show ?thesis by simp
  next
    case new: False
    show ?thesis
    proof (cases "map_of m aid")
      case None
      let ?next = "if find_event a b aid \<noteq> None \<and> transitive_auth version
        then map (\<lambda>parent_id. (parent_id, saturating_add_usize depth 1)) (ev_auth_events (the (find_event a b aid)))
        else []"
      have "cites (a @ b) version ev x" if "x \<in> fst ` set ?next" for x
      proof -
        from that obtain aev where "find_event a b aid = Some aev" "transitive_auth version" "x \<in> set (ev_auth_events aev)"
          by (auto split: if_splits)
        then show ?thesis using aid unfolding cites_def find_event_map_of by (metis ancestor.cited)
      qed
      then have "\<forall>x \<in> fst ` set (queue @ ?next). cites (a @ b) version ev x"
        using 2(6) by (simp add: image_Un ball_Un del: split_paired_All)
      from 2(2) [OF new refl refl None 2(4) la this] new None show ?thesis by (simp add: Let_def)
    next
      case (Some cached)
      let ?la' = "if transitive_auth version then merge_cached cached depth ?la else ?la"
      have "local_auth_sound (a @ b) version ev ?la'"
      proof (cases "transitive_auth version")
        case True
        from 2(4) Some obtain e where "map_of (a @ b) aid = Some e" "local_auth_sound (a @ b) version e cached"
          unfolding cache_sound_def by blast
        with merge_cached_sound [OF _ aid _ True la] True show ?thesis by simp
      qed (use la in simp)
      with 2(3) [OF new refl refl Some 2(4) this] 2(6) new Some show ?thesis by (simp add: Let_def)
    qed
  qed
qed simp

lemma compute_local_auth_sound:
  assumes "cache_sound (a @ b) version (lac_map cache)" "map_of (a @ b) (ev_id ev) = Some ev"
    and "compute_local_auth ev a b cache version = (la, cache')"
  obtains m where "la = map (\<lambda>(k, e, _). (k, e)) m" "local_auth_sound (a @ b) version ev m"
    "cache_sound (a @ b) version (lac_map cache')"
proof (cases "map_of (lac_map cache) (ev_id ev)")
  case (Some m)
  then have "la = map (\<lambda>(k, e, _). (k, e)) m" "cache' = cache"
    using assms(3) by (auto simp: compute_local_auth_def)
  moreover have "local_auth_sound (a @ b) version ev m" using assms(1,2) Some unfolding cache_sound_def by fastforce
  ultimately show thesis using that assms(1) by blast
next
  case None
  let ?m = "local_auth_loop a b (lac_map cache) version (map (\<lambda>aid. (aid, 1)) (ev_auth_events ev)) [] []"
  have "\<forall>x \<in> fst ` set (map (\<lambda>aid. (aid, 1)) (ev_auth_events ev)). cites (a @ b) version ev x"
    by (auto simp: cites_def intro: ancestor.start)
  then have s: "local_auth_sound (a @ b) version ev ?m"
    by (intro local_auth_loop_sound [OF assms(1)]) (simp_all add: local_auth_sound_def)
  have "la = map (\<lambda>(k, e, _). (k, e)) ?m" "lac_map cache' = hm_insert (ev_id ev) ?m (lac_map cache)"
    using assms(3) None by (auto simp: compute_local_auth_def Let_def)
  moreover from this s assms(1,2) have "cache_sound (a @ b) version (lac_map cache')"
    by (simp add: cache_sound_def map_lookups)
  ultimately show thesis using that s by blast
qed

section \<open>The steps of a run\<close>

abbreviation event_context :: "iterative_inputs \<Rightarrow> event_map" where
  "event_context inp \<equiv> ii_auth_context inp @ ii_conflicted inp"

text \<open>A step is the check of one event: the phase, the event, and the resolved state and memo table as they are
  before it. The steps of a run are the power events in their order, then the screened rest in mainline
  order.\<close>

record run_step =
  rs_is_power :: bool
  rs_event :: lean_event
  rs_state :: shared_state
  rs_cache :: local_auth_cache

fun steps_of ::
  "iterative_auth_check \<Rightarrow> slot list \<Rightarrow> bool \<Rightarrow> lean_event list \<Rightarrow> shared_state \<times> local_auth_cache \<Rightarrow> run_step list" where
  "steps_of ck keys is_power [] s = []"
| "steps_of ck keys is_power (ev # evs) s =
     \<lparr>rs_is_power = is_power, rs_event = ev, rs_state = fst s, rs_cache = snd s\<rparr> #
     steps_of ck keys is_power evs (admit ck keys is_power ev s)"

definition power_events_of :: "iterative_inputs \<Rightarrow> lean_event list" where
  "power_events_of inp = (case power_order inp (fst (phases inp)) of
       Inr ids \<Rightarrow> List.map_filter (find_event (ii_conflicted inp) (ii_auth_context inp)) ids
     | Inl _ \<Rightarrow> [])"

definition initial_of :: "iterative_inputs \<Rightarrow> shared_state" where
  "initial_of inp = get_initial_resolved_state (ii_unconflicted inp) (ii_version inp)"

definition run_steps :: "iterative_inputs \<Rightarrow> slot list \<Rightarrow> local_auth_cache option \<Rightarrow> run_step list" where
  "run_steps inp keys external =
     (let s = (initial_of inp, select_local_auth_cache external (ii_version inp));
          (r, c) = fold (admit (check_of inp) keys True) (power_events_of inp) s;
          rest = fst (mainline_stage inp [] (snd (phases inp)) (agreed_stage inp r))
      in steps_of (check_of inp) keys True (power_events_of inp) s @
         steps_of (check_of inp) keys False rest (agreed_stage inp r, c))"

text \<open>What the authorization rules see of a step: the resolved state, overlaid with the local auth context of
  the event.\<close>

definition step_local_auth :: "iterative_inputs \<Rightarrow> run_step \<Rightarrow> (slot \<times> lean_event) list" where
  "step_local_auth inp s = fst (compute_local_auth (rs_event s) (ii_auth_context inp) (ii_conflicted inp)
     (rs_cache s) (ii_version inp))"

definition seen_state :: "iterative_inputs \<Rightarrow> run_step \<Rightarrow> state_provider" where
  "seen_state inp s = overlay_get_event
     \<lparr>ov_resolved = rs_state s, ov_auth_context = ii_auth_context inp, ov_sort_set = ii_conflicted inp,
      ov_local_auth = step_local_auth inp s, ov_create_ev = ck_create_ev (check_of inp),
      ov_version = ii_version inp, ov_is_power_phase = rs_is_power s, ov_candidate_event_type = ev_type (rs_event s)\<rparr>"

text \<open>A step is accepted for a slot when its event is a state event of that slot, may decide it, is not flagged
  as rejected and passes the authorization rules.\<close>

definition step_accepted :: "iterative_inputs \<Rightarrow> slot list \<Rightarrow> slot \<Rightarrow> run_step \<Rightarrow> bool" where
  "step_accepted inp keys k s \<longleftrightarrow> map_option (event_slot (rs_event s)) (ev_state_key (rs_event s)) = Some k \<and>
     decides_key (ii_version inp) keys k \<and> \<not> ev_rejected (rs_event s) \<and>
     check_auth (rs_event s) (seen_state inp s) (ii_version inp) None = Inr ()"

fun last_accepted :: "iterative_inputs \<Rightarrow> slot list \<Rightarrow> slot \<Rightarrow> run_step list \<Rightarrow> string option" where
  "last_accepted inp keys k [] = None"
| "last_accepted inp keys k (s # steps) = (case last_accepted inp keys k steps of
       Some i \<Rightarrow> Some i
     | None \<Rightarrow> if step_accepted inp keys k s then Some (ev_id (rs_event s)) else None)"

text \<open>The state a phase starts from, as far as no event has been accepted: the second phase adds the agreed power
  levels, join rules and creation event.\<close>

definition base_state :: "iterative_inputs \<Rightarrow> bool \<Rightarrow> shared_state" where
  "base_state inp is_power = (if is_power then initial_of inp else agreed_stage inp (initial_of inp))"

definition or_else :: "'a option \<Rightarrow> 'a option \<Rightarrow> 'a option" where
  "or_else a b = (case a of Some x \<Rightarrow> Some x | None \<Rightarrow> b)"

lemma or_else_simps [simp]:
  "or_else (Some x) b = Some x" "or_else None b = b" "or_else a None = a"
  "or_else (or_else a b) c = or_else a (or_else b c)"
  by (auto simp: or_else_def split: option.split)

lemma last_accepted_Cons:
  "last_accepted inp keys k (s # steps) = or_else (last_accepted inp keys k steps)
     (if step_accepted inp keys k s then Some (ev_id (rs_event s)) else None)"
  by (simp add: or_else_def)

declare last_accepted.simps(2) [simp del]

lemma last_accepted_append:
  "last_accepted inp keys k (xs @ ys) = or_else (last_accepted inp keys k ys) (last_accepted inp keys k xs)"
  by (induction xs) (simp_all add: last_accepted_Cons)

lemma length_steps_of [simp]: "length (steps_of ck keys p evs s) = length evs"
  by (induction evs arbitrary: s) simp_all

lemma steps_of_phase: "st \<in> set (steps_of ck keys p evs s) \<Longrightarrow> rs_is_power st = p"
  by (induction ck keys p evs s rule: steps_of.induct) auto

lemma steps_of_event: "st \<in> set (steps_of ck keys p evs s) \<Longrightarrow> rs_event st \<in> set evs"
  by (induction ck keys p evs s rule: steps_of.induct) auto

lemma admit_step:
  assumes "st = \<lparr>rs_is_power = p, rs_event = ev, rs_state = r, rs_cache = c\<rparr>"
  shows "fst (admit (check_of inp) keys p ev (r, c)) k =
      or_else (if step_accepted inp keys k st then Some (ev_id ev) else None) (r k)"
    and "snd (admit (check_of inp) keys p ev (r, c)) =
      snd (compute_local_auth ev (ii_auth_context inp) (ii_conflicted inp) c (ii_version inp))"
proof -
  obtain la c' where l: "compute_local_auth ev (ii_auth_context inp) (ii_conflicted inp) c (ii_version inp) = (la, c')"
    by fastforce
  have la: "step_local_auth inp st = la" using l assms by (simp add: step_local_auth_def)
  let ?ok = "\<not> ev_rejected ev \<and> check_auth ev (seen_state inp st) (ii_version inp) None = Inr ()"
  have "event_auth_ok (check_of inp) c ev r p = (?ok, c')"
    using l la assms by (simp add: event_auth_ok_def check_of_def iterative_auth_ok_def is_ok_unit seen_state_def)
  then have a: "admit (check_of inp) keys p ev (r, c) = (if ?ok then (case ev_state_key ev of
        None \<Rightarrow> (r, c')
      | Some sk \<Rightarrow> if decides_key (ii_version inp) keys (event_slot ev sk)
          then (r(event_slot ev sk \<mapsto> ev_id ev), c') else (r, c')) else (r, c'))"
    by (simp add: admit_def check_of_def split: option.split)
  then show "snd (admit (check_of inp) keys p ev (r, c)) =
      snd (compute_local_auth ev (ii_auth_context inp) (ii_conflicted inp) c (ii_version inp))"
    using l by (simp split: option.split)
  show "fst (admit (check_of inp) keys p ev (r, c)) k =
      or_else (if step_accepted inp keys k st then Some (ev_id ev) else None) (r k)"
    unfolding a step_accepted_def using assms by (auto split: option.split)
qed

lemma steps_of_state:
  "fst (fold (admit (check_of inp) keys p) evs s) k =
     or_else (last_accepted inp keys k (steps_of (check_of inp) keys p evs s)) (fst s k)"
proof (induction evs arbitrary: s)
  case (Cons ev evs)
  obtain r c where s: "s = (r, c)" by fastforce
  show ?case using Cons admit_step(1) [OF refl, of inp keys p ev r c k] by (simp add: s last_accepted_Cons)
qed simp

lemma steps_of_before:
  assumes "n < length evs"
  shows "rs_state (steps_of (check_of inp) keys p evs s ! n) k =
    or_else (last_accepted inp keys k (take n (steps_of (check_of inp) keys p evs s))) (fst s k)"
  using assms
proof (induction evs arbitrary: s n)
  case (Cons ev evs)
  obtain r c where s: "s = (r, c)" by fastforce
  show ?case
    using Cons admit_step(1) [OF refl, of inp keys p ev r c k] by (cases n) (simp_all add: s last_accepted_Cons)
qed simp

lemma agreed_stage_lookup:
  "agreed_stage inp (\<lambda>k. or_else (a k) (b k)) k = or_else (a k) (agreed_stage inp b k)"
  by (cases "a k") (auto simp: agreed_stage_def merge_unconflicted_power_events_def or_else_def Let_def split: option.splits)

definition overlay_cited :: "iterative_inputs \<Rightarrow> run_step \<Rightarrow> bool" where
  "overlay_cited inp s \<longleftrightarrow> (\<forall>(k, e) \<in> set (step_local_auth inp s). \<exists>i sk.
     cites (event_context inp) (ii_version inp) (rs_event s) i \<and> map_of (event_context inp) i = Some e \<and>
     ev_state_key e = Some sk \<and> k = event_slot e sk)"

lemma steps_of_cited:
  assumes "cache_sound (event_context inp) (ii_version inp) (lac_map (snd s))"
    and "\<forall>ev \<in> set evs. map_of (event_context inp) (ev_id ev) = Some ev"
  shows "cache_sound (event_context inp) (ii_version inp) (lac_map (snd (fold (admit (check_of inp) keys p) evs s))) \<and>
    (\<forall>st \<in> set (steps_of (check_of inp) keys p evs s). overlay_cited inp st)"
  using assms
proof (induction evs arbitrary: s)
  case (Cons ev evs)
  obtain r c where s: "s = (r, c)" by fastforce
  let ?st = "\<lparr>rs_is_power = p, rs_event = ev, rs_state = r, rs_cache = c\<rparr>"
  obtain la c' where l: "compute_local_auth ev (ii_auth_context inp) (ii_conflicted inp) c (ii_version inp) = (la, c')"
    by fastforce
  obtain m where m: "la = map (\<lambda>(k, e, _). (k, e)) m" "local_auth_sound (event_context inp) (ii_version inp) ev m"
    "cache_sound (event_context inp) (ii_version inp) (lac_map c')"
    using compute_local_auth_sound [OF _ _ l] Cons.prems s by auto
  have "overlay_cited inp ?st"
    using m(1,2) l by (force simp: overlay_cited_def step_local_auth_def local_auth_sound_def)
  moreover have "snd (admit (check_of inp) keys p ev s) = c'" using admit_step(2) [OF refl] l s by simp
  ultimately show ?case using Cons.IH [of "admit (check_of inp) keys p ev s"] Cons.prems(2) m(3) s by simp
qed simp

text \<open>An event id names one event: the conflicted set and the auth context agree where they overlap.\<close>

definition inputs_ok :: "iterative_inputs \<Rightarrow> bool" where
  "inputs_ok inp \<longleftrightarrow> events_ok (ii_conflicted inp) \<and> events_ok (ii_auth_context inp) \<and>
     list_all (\<lambda>(i, ev). map_of (ii_auth_context inp) i \<in> {None, Some ev}) (ii_conflicted inp)"

lemma inputs_okD:
  assumes "inputs_ok inp"
  shows "events_ok (ii_conflicted inp)" "events_ok (ii_auth_context inp)"
    and "map_of (ii_conflicted inp) i = Some ev \<Longrightarrow> map_of (event_context inp) i = Some ev"
    and "map_of (event_context inp) i = Some ev \<Longrightarrow> ev_id ev = i"
proof -
  show ok: "events_ok (ii_conflicted inp)" "events_ok (ii_auth_context inp)" using assms by (simp_all add: inputs_ok_def)
  show "map_of (ii_conflicted inp) i = Some ev \<Longrightarrow> map_of (event_context inp) i = Some ev"
  proof -
    assume "map_of (ii_conflicted inp) i = Some ev"
    moreover from this have "map_of (ii_auth_context inp) i \<in> {None, Some ev}"
      using assms by (auto simp: inputs_ok_def list_all_iff dest!: map_of_SomeD)
    ultimately show ?thesis by (auto simp: map_add_def)
  qed
  show "map_of (event_context inp) i = Some ev \<Longrightarrow> ev_id ev = i"
    using ok by (auto simp: map_add_Some_iff intro: events_ok_lookup)
qed

lemma find_event_context:
  assumes "inputs_ok inp" "find_event (ii_conflicted inp) (ii_auth_context inp) i = Some ev"
  shows "map_of (event_context inp) i = Some ev"
proof (cases "map_of (ii_conflicted inp) i")
  case None
  with assms(2) show ?thesis by (simp add: find_event_def map_add_def split: option.split)
next
  case (Some e)
  with assms(2) inputs_okD(3) [OF assms(1) Some] show ?thesis by (simp add: find_event_def)
qed

lemma phases_conflicted:
  assumes "events_ok (ii_conflicted inp)" "phases inp = (pwr, np)" "map_of np i = Some ev"
  shows "map_of (ii_conflicted inp) i = Some ev"
proof -
  let ?v = "ii_version inp" and ?conf = "ii_conflicted inp"
  obtain p0 n0 where r: "route_power_events ?conf [] [] ?v = (p0, n0)" by fastforce
  obtain p1 n1 where x: "(if ?v \<noteq> V1 then expand_v2_power_events_auth_chains p0 n0 ?conf else (p0, n0)) = (p1, n1)"
    by fastforce
  have "np = n1" using assms(2) r x by (simp add: phases_def execute_power_phase_def)
  with assms(3) x route_power_events_lookup(2) [OF assms(1) r] expand_lookup(2) [OF assms(1) r]
  show ?thesis by (auto split: if_splits option.splits)
qed

lemma mainline_stage_events:
  assumes "mainline_stage inp pc np r = (evs, pc')"
  shows "set evs \<subseteq> snd ` set np"
proof -
  obtain ms ctx where "evs = mainline_sort (screen_non_power inp r ctx np) ms ctx (ii_version inp)"
    using assms by (auto simp: mainline_stage_def Let_def split: prod.splits)
  then have "set evs = set (screen_non_power inp r ctx np)" using mset_mainline_sort mset_eq_setD by metis
  then show ?thesis by (auto simp: screen_non_power_def)
qed

definition external_sound :: "iterative_inputs \<Rightarrow> local_auth_cache option \<Rightarrow> bool" where
  "external_sound inp external \<longleftrightarrow> (case external of
       None \<Rightarrow> True
     | Some c \<Rightarrow> lac_version c = ii_version inp \<longrightarrow>
         cache_sound (event_context inp) (ii_version inp) (lac_map c))"

lemma select_cache_sound:
  assumes "external_sound inp external"
  shows "cache_sound (event_context inp) (ii_version inp) (lac_map (select_local_auth_cache external (ii_version inp)))"
proof (cases "\<exists>c. external = Some c \<and> lac_version c = ii_version inp")
  case True
  with assms show ?thesis unfolding external_sound_def select_local_auth_cache_def Let_def by fastforce
next
  case False
  then have "lac_map (select_local_auth_cache external (ii_version inp)) = []"
    by (auto simp: select_local_auth_cache_def new_local_auth_cache_def Let_def split: option.split)
  then show ?thesis by (simp add: cache_sound_def)
qed

lemma resolve_v3: "ii_version inp = V3 \<Longrightarrow>
    resolve_iterative_sort_with_cache inp external keys = Inl UnsupportedVersion"
  by (simp add: resolve_iterative_sort_with_cache_def resolve_iterative_sort_with_all_caches_def
      require_legacy_iterative_version_def require_def Let_def)

definition chosen_keys :: "iterative_inputs \<Rightarrow> slot list option \<Rightarrow> slot list" where
  "chosen_keys inp override = (case override of
       Some ck \<Rightarrow> ck
     | None \<Rightarrow> derive_all_conflicted_keys (ii_conflicted inp) (ii_empty_key inp))"

lemma fold_admit_power:
  "fold (admit_power (check_of inp) keys) ids s =
     fold (admit (check_of inp) keys True) (List.map_filter (find_event (ii_conflicted inp) (ii_auth_context inp)) ids) s"
  by (induction ids arbitrary: s) (simp_all add: admit_power_def check_of_def map_filter_simps split: option.split)

text \<open>A run without a shared mainline cache, in terms of its steps.\<close>

lemma resolve_steps:
  assumes ok: "inputs_ok inp" and v: "ii_version inp \<noteq> V3"
  obtains r c rest where
    "fold (admit (check_of inp) keys True) (power_events_of inp)
       (initial_of inp, select_local_auth_cache external (ii_version inp)) = (r, c)"
    "rest = fst (mainline_stage inp [] (snd (phases inp)) (agreed_stage inp r))"
    "keys = chosen_keys inp override \<Longrightarrow> resolve_iterative_sort_with_cache inp external override =
       Inr (merge_final_resolved (ii_unconflicted inp)
         (fst (fold (admit (check_of inp) keys False) rest (agreed_stage inp r, c))))"
proof -
  let ?caches = "\<lparr>rc_external = external, rc_mainline = []\<rparr>"
  obtain pwr np ids r c evs pc r' c' where run: "phases inp = (pwr, np)" "power_order inp pwr = Inr ids"
    "power_stage inp keys (rc_external ?caches) ids = (r, c)"
    "mainline_stage inp (rc_mainline ?caches) np (agreed_stage inp r) = (evs, pc)"
    "fold (admit (check_of inp) keys False) evs (agreed_stage inp r, c) = (r', c')"
    "resolve_iterative_sort_with_all_caches inp ?caches keys = Inr (merge_final_resolved (ii_unconflicted inp) r', c', pc)"
    by (rule resolve_runs [OF v inputs_okD(1,2) [OF ok]])
  show thesis
  proof (rule that)
    show "fold (admit (check_of inp) keys True) (power_events_of inp)
       (initial_of inp, select_local_auth_cache external (ii_version inp)) = (r, c)"
      using run(1-3) by (simp add: power_stage_def fold_admit_power power_events_of_def initial_of_def)
    show "evs = fst (mainline_stage inp [] (snd (phases inp)) (agreed_stage inp r))" using run(1,4) by simp
    show "resolve_iterative_sort_with_cache inp external override = Inr (merge_final_resolved (ii_unconflicted inp)
         (fst (fold (admit (check_of inp) keys False) evs (agreed_stage inp r, c))))"
      if "keys = chosen_keys inp override"
      using run(5,6) that by (simp add: resolve_iterative_sort_with_cache_def chosen_keys_def [symmetric])
  qed
qed

lemma run_events:
  assumes ok: "inputs_ok inp"
  shows "ev \<in> set (power_events_of inp) \<Longrightarrow> map_of (event_context inp) (ev_id ev) = Some ev"
    and "ev \<in> set (fst (mainline_stage inp pc (snd (phases inp)) r)) \<Longrightarrow> map_of (event_context inp) (ev_id ev) = Some ev"
proof -
  note in_ok = inputs_okD [OF ok]
  show "map_of (event_context inp) (ev_id ev) = Some ev" if "ev \<in> set (power_events_of inp)"
  proof -
    from that obtain i where "find_event (ii_conflicted inp) (ii_auth_context inp) i = Some ev"
      by (auto simp: power_events_of_def List.map_filter_def split: sum.splits)
    from find_event_context [OF ok this] in_ok(4) show ?thesis by metis
  qed
  show "map_of (event_context inp) (ev_id ev) = Some ev" if "ev \<in> set (fst (mainline_stage inp pc (snd (phases inp)) r))"
  proof -
    obtain pwr np where p: "phases inp = (pwr, np)" by fastforce
    obtain evs pc' where m: "mainline_stage inp pc np r = (evs, pc')" by fastforce
    with that p mainline_stage_events [OF m] obtain i where "(i, ev) \<in> set np" by auto
    moreover have "hm_inv np" using phases_ok(2) [OF in_ok(1,2) p] by (simp add: events_ok_def)
    ultimately have "map_of np i = Some ev" by (simp add: hm_inv_def)
    from in_ok(3) [OF phases_conflicted [OF in_ok(1) p this]] in_ok(4) show ?thesis by metis
  qed
qed

lemma run_steps_before:
  assumes "n < length (run_steps inp keys external)"
  shows "rs_state (run_steps inp keys external ! n) k =
    or_else (last_accepted inp keys k (take n (run_steps inp keys external)))
      (base_state inp (rs_is_power (run_steps inp keys external ! n)) k)"
proof -
  let ?s = "(initial_of inp, select_local_auth_cache external (ii_version inp))"
  let ?pw = "power_events_of inp" and ?ck = "check_of inp"
  obtain r c where f: "fold (admit ?ck keys True) ?pw ?s = (r, c)" by fastforce
  let ?rest = "fst (mainline_stage inp [] (snd (phases inp)) (agreed_stage inp r))"
  let ?A = "steps_of ?ck keys True ?pw ?s" and ?B = "steps_of ?ck keys False ?rest (agreed_stage inp r, c)"
  have steps: "run_steps inp keys external = ?A @ ?B" by (simp add: run_steps_def f)
  have r: "r = (\<lambda>k. or_else (last_accepted inp keys k ?A) (initial_of inp k))"
    using steps_of_state [of inp keys True ?pw ?s] f by (intro ext) simp
  show ?thesis
  proof (cases "n < length ?pw")
    case True
    then have "?A ! n \<in> set ?A" by (intro nth_mem) simp
    from steps_of_phase [OF this] True steps_of_before [OF True, of inp keys True ?s k] show ?thesis
      unfolding steps by (simp add: nth_append base_state_def)
  next
    case False
    define m where "m = n - length ?pw"
    have n: "n = length ?pw + m" "m < length ?rest" using False assms by (simp_all add: steps m_def)
    then have "?B ! m \<in> set ?B" by (intro nth_mem) simp
    note phase = steps_of_phase [OF this]
    have "agreed_stage inp r k = or_else (last_accepted inp keys k ?A) (agreed_stage inp (initial_of inp) k)"
      unfolding r by (rule agreed_stage_lookup)
    with phase steps_of_before [OF n(2), of inp keys False "(agreed_stage inp r, c)" k] n(1) show ?thesis
      unfolding steps by (simp add: nth_append last_accepted_append base_state_def)
  qed
qed

lemma run_steps_result:
  assumes "inputs_ok inp" "ii_version inp \<noteq> V3" "keys = chosen_keys inp override"
    and "resolve_iterative_sort_with_cache inp external override = Inr st"
  shows "st k = or_else (ii_unconflicted inp k) (last_accepted inp keys k (run_steps inp keys external))"
proof -
  let ?s = "(initial_of inp, select_local_auth_cache external (ii_version inp))"
  obtain r c rest where run: "fold (admit (check_of inp) keys True) (power_events_of inp) ?s = (r, c)"
    "rest = fst (mainline_stage inp [] (snd (phases inp)) (agreed_stage inp r))"
    "resolve_iterative_sort_with_cache inp external override =
       Inr (merge_final_resolved (ii_unconflicted inp)
         (fst (fold (admit (check_of inp) keys False) rest (agreed_stage inp r, c))))"
    using resolve_steps [OF assms(1,2), of keys external override] assms(3) by metis
  let ?A = "steps_of (check_of inp) keys True (power_events_of inp) ?s"
  let ?B = "steps_of (check_of inp) keys False rest (agreed_stage inp r, c)"
  have steps: "run_steps inp keys external = ?A @ ?B" by (simp add: run_steps_def run(1,2))
  have r: "r = (\<lambda>k. or_else (last_accepted inp keys k ?A) (initial_of inp k))"
    using steps_of_state [of inp keys True "power_events_of inp" ?s] run(1) by (intro ext) simp
  have "agreed_stage inp r k = or_else (last_accepted inp keys k ?A) (agreed_stage inp (initial_of inp) k)"
    unfolding r by (rule agreed_stage_lookup)
  moreover have "agreed_stage inp (initial_of inp) k = None" if "ii_unconflicted inp k = None"
    using that by (auto simp: agreed_stage_def merge_unconflicted_power_events_def initial_of_def
        get_initial_resolved_state_def Let_def split: option.splits)
  ultimately show ?thesis
    using run(3) assms(4) steps_of_state [of inp keys False rest "(agreed_stage inp r, c)" k]
    by (cases "ii_unconflicted inp k") (auto simp: steps last_accepted_append merge_final_resolved_def map_add_def)
qed

lemma run_steps_cited:
  assumes ok: "inputs_ok inp" and s: "external_sound inp external" and st: "st \<in> set (run_steps inp keys external)"
  shows "map_of (event_context inp) (ev_id (rs_event st)) = Some (rs_event st) \<and> overlay_cited inp st"
proof -
  let ?s = "(initial_of inp, select_local_auth_cache external (ii_version inp))"
  obtain r c where f: "fold (admit (check_of inp) keys True) (power_events_of inp) ?s = (r, c)" by fastforce
  let ?rest = "fst (mainline_stage inp [] (snd (phases inp)) (agreed_stage inp r))"
  have A: "cache_sound (event_context inp) (ii_version inp) (lac_map c)"
    "\<forall>st \<in> set (steps_of (check_of inp) keys True (power_events_of inp) ?s). overlay_cited inp st"
    using steps_of_cited [of inp ?s "power_events_of inp" keys True] select_cache_sound [OF s] run_events(1) [OF ok] f
    by auto
  then have "\<forall>st \<in> set (steps_of (check_of inp) keys False ?rest (agreed_stage inp r, c)). overlay_cited inp st"
    using steps_of_cited [of inp "(agreed_stage inp r, c)" ?rest keys False] run_events(2) [OF ok] by auto
  moreover have "st \<in> set (steps_of (check_of inp) keys True (power_events_of inp) ?s) \<or>
      st \<in> set (steps_of (check_of inp) keys False ?rest (agreed_stage inp r, c))"
    using st by (simp add: run_steps_def f)
  ultimately show ?thesis using A(2) steps_of_event run_events [OF ok] by blast
qed

section \<open>Properties\<close>

definition sample_inputs :: "event_map \<Rightarrow> state_res_version \<Rightarrow> iterative_inputs" where
  "sample_inputs conflicted version =
     \<lparr>ii_unconflicted = map_of (map (\<lambda>ev. ((ev_type ev, the (ev_state_key ev)), ev_id ev)) sample_room),
      ii_conflicted = conflicted, ii_auth_context = map (\<lambda>ev. (ev_id ev, ev)) sample_room,
      ii_version = version, ii_empty_key = []\<rparr>"

definition sample_conflict :: event_map where
  "sample_conflict =
     [(''$t1'', sample_event ''$t1'' M_ROOM_TOPIC (Some []) user_a (Object [])),
      (''$t2'', sample_event ''$t2'' M_ROOM_TOPIC (Some []) user_c (Object []))]"

lemma sample_inputs_ok: "inputs_ok (sample_inputs sample_conflict V2)" "inputs_ok (sample_inputs sample_conflict V3)"
  "inputs_ok (sample_inputs (rev sample_conflict) V2)"
  by code_simp+

lemma sample_resolved: "(case resolve_iterative_sort_with_cache (sample_inputs sample_conflict V2) None None of
    Inr st \<Rightarrow> st (M_ROOM_TOPIC, []) = Some ''$t1'' | Inl _ \<Rightarrow> False)"
  by code_simp

text \<open>C4: Resolution is total: the resolver refuses room version V3, which has its own resolver, and returns
  a state for every other version and every conflicted set, whatever the events and their graph are. The
  agreed entries are kept in the result.\<close>

theorem resolve_total:
  assumes "inputs_ok inp" "external_sound inp external"
  shows "if ii_version inp = V3
    then resolve_iterative_sort_with_cache inp external keys = Inl UnsupportedVersion
    else \<exists>st. resolve_iterative_sort_with_cache inp external keys = Inr st \<and> ii_unconflicted inp \<subseteq>\<^sub>m st"
proof (cases "ii_version inp = V3")
  case False
  from resolve_steps [OF assms(1) False, of "chosen_keys inp keys" external keys] obtain r where
    "resolve_iterative_sort_with_cache inp external keys = Inr (merge_final_resolved (ii_unconflicted inp) r)" by metis
  with False show ?thesis by (simp add: merge_final_resolved_def)
qed (simp add: resolve_v3)

theorem resolve_total_witness:
  "resolve_iterative_sort_with_cache (sample_inputs sample_conflict V3) None None = Inl UnsupportedVersion \<and>
   (\<exists>st. resolve_iterative_sort_with_cache (sample_inputs sample_conflict V2) None None = Inr st \<and>
     ii_unconflicted (sample_inputs sample_conflict V2) \<subseteq>\<^sub>m st)"
  using resolve_total [OF sample_inputs_ok(1), of None None] resolve_total [OF sample_inputs_ok(2), of None None]
  by (simp add: external_sound_def) (simp add: sample_inputs_def)



section \<open>Independence of the iteration order\<close>

definition same_problem :: "iterative_inputs \<Rightarrow> iterative_inputs \<Rightarrow> bool" where
  "same_problem inp inp' \<longleftrightarrow> ii_unconflicted inp = ii_unconflicted inp' \<and>
     map_of (ii_conflicted inp) = map_of (ii_conflicted inp') \<and>
     map_of (ii_auth_context inp) = map_of (ii_auth_context inp') \<and>
     ii_version inp = ii_version inp' \<and> ii_empty_key inp = ii_empty_key inp'"

lemma min_by_event_id_least:
  "case min_by_event_id evs of None \<Rightarrow> evs = [] | Some m \<Rightarrow> m \<in> set evs \<and> (\<forall>e \<in> set evs. ev_id m \<le> ev_id e)"
  by (induction evs) (auto split: option.splits)

lemma min_by_event_id_same:
  assumes "set evs = set evs'" "inj_on ev_id (set evs)"
  shows "min_by_event_id evs = min_by_event_id evs'"
proof (cases "evs = []")
  case False
  with assms(1) have "evs' \<noteq> []" by auto
  with False obtain m m' where m: "min_by_event_id evs = Some m" "min_by_event_id evs' = Some m'"
    using min_by_event_id_least [of evs] min_by_event_id_least [of evs'] by (auto split: option.splits)
  with min_by_event_id_least [of evs] min_by_event_id_least [of evs'] assms(1)
  have "m \<in> set evs" "m' \<in> set evs" "ev_id m = ev_id m'" by (auto intro: order.antisym)
  with m assms(2) show ?thesis by (auto dest: inj_onD)
qed (use assms in simp)

lemma events_ok_value:
  assumes "events_ok m" "(i, ev) \<in> set m"
  shows "map_of m (ev_id ev) = Some ev"
proof -
  have "ev_id ev = i" using assms by (auto simp: events_ok_def)
  moreover have "map_of m i = Some ev" using assms by (simp add: events_ok_def hm_inv_def)
  ultimately show ?thesis by simp
qed

lemma events_ok_inj:
  assumes "events_ok m"
  shows "inj_on ev_id (snd ` set m)"
proof (rule inj_onI)
  have v: "map_of m (ev_id x) = Some x" if "x \<in> snd ` set m" for x
    using that events_ok_value [OF assms, of _ x] by (metis imageE prod.collapse)
  fix x y assume xy: "x \<in> snd ` set m" "y \<in> snd ` set m" and e: "ev_id x = ev_id y"
  have "Some x = map_of m (ev_id y)" using v [OF xy(1)] unfolding e ..
  also have "\<dots> = Some y" by (rule v [OF xy(2)])
  finally have "Some x = Some y" .
  then show "x = y" by (rule option.inject [THEN iffD1])
qed

definition same_run :: "iterative_inputs \<Rightarrow> iterative_inputs \<Rightarrow> bool" where
  "same_run inp inp' \<longleftrightarrow> inputs_ok inp \<and> inputs_ok inp' \<and> same_problem inp inp' \<and>
     int (length (ii_conflicted inp) + length (ii_auth_context inp)) + 2 < PENDING"

lemma same_maps:
  assumes "same_run inp inp'"
  shows "map_of (ii_conflicted inp) = map_of (ii_conflicted inp')"
    "map_of (ii_auth_context inp) = map_of (ii_auth_context inp')"
    "ii_unconflicted inp = ii_unconflicted inp'" "ii_version inp = ii_version inp'"
    "ii_empty_key inp = ii_empty_key inp'"
  using assms by (simp_all add: same_run_def same_problem_def)

lemma same_events:
  assumes "same_run inp inp'"
  shows "events_ok (ii_conflicted inp)" "events_ok (ii_conflicted inp')"
    "events_ok (ii_auth_context inp)" "events_ok (ii_auth_context inp')"
  using assms inputs_okD(1,2) unfolding same_run_def by blast+

lemma conflicted_set:
  assumes "same_run inp inp'"
  shows "set (ii_conflicted inp) = set (ii_conflicted inp')"
  using same_events [OF assms] same_maps [OF assms] by (intro same_map_set) (simp_all add: events_ok_def)

lemma find_event_same:
  "map_of a = map_of a' \<Longrightarrow> map_of b = map_of b' \<Longrightarrow> find_event a b = find_event a' b'"
  by (intro ext) (simp add: find_event_map_of)

lemma check_same:
  assumes "same_run inp inp'"
  shows "same_check (check_of inp) (check_of inp')"
proof -
  note m = same_maps [OF assms]
  note find = find_event_same [OF m(2,1)] find_event_same [OF m(1,2)]
  have least: "min_by_event_id (filter P (map snd (ii_conflicted inp))) =
      min_by_event_id (filter P (map snd (ii_conflicted inp')))" for P
    using conflicted_set [OF assms] events_ok_inj [OF same_events(1) [OF assms]]
    by (intro min_by_event_id_same) (auto intro: inj_on_subset)
  have "find_create_event (ii_unconflicted inp) (ii_conflicted inp) (ii_auth_context inp) (ii_empty_key inp) =
      find_create_event (ii_unconflicted inp') (ii_conflicted inp') (ii_auth_context inp') (ii_empty_key inp')"
    unfolding find_create_event_def find m(3,5) least ..
  then show ?thesis using find m(4) by (simp add: same_check_def check_of_def)
qed

lemma context_same:
  assumes "same_run inp inp'"
  shows "map_of (sort_context (ii_conflicted inp) (ii_auth_context inp)) =
    map_of (sort_context (ii_conflicted inp') (ii_auth_context inp'))"
  by (simp add: sort_context_def same_maps [OF assms])

lemma phases_same:
  assumes s: "same_run inp inp'" and p: "phases inp = (p, n)" "phases inp' = (p', n')"
  shows "map_of p = map_of p'" "map_of n = map_of n'" "events_ok n" "events_ok n'"
    and "power_order inp p = power_order inp' p'"
proof -
  note m = same_maps [OF s] and e = same_events [OF s]
  have k: "set (prepare_conflicted_and_keys (ii_conflicted inp)) = set (prepare_conflicted_and_keys (ii_conflicted inp'))"
    using conflicted_set [OF s] by (simp add: prepare_conflicted_and_keys_def)
  show mp: "map_of p = map_of p'" "map_of n = map_of n'"
    using execute_power_phase_same [OF m(1) e(1,2) m(2) k, of "ii_version inp'" p n p' n'] p
    by (simp_all add: phases_def m(4))
  show "events_ok n" "events_ok n'" using phases_ok(2) e p by blast+
  have "events_ok p" "events_ok p'" using phases_ok(1) e p by blast+
  then show "power_order inp p = power_order inp' p'"
    unfolding power_order_def using mp(1) context_same [OF s] check_same [OF s] m(4)
    by (intro kahn_sort_same) (simp_all add: same_inputs_def power_sort_inputs_def same_check_def)
qed

lemma screen_same:
  assumes s: "same_run inp inp'" and p: "phases inp = (p, n)" "phases inp' = (p', n')"
    and ctx: "map_of ctx = map_of ctx'"
  shows "mset (screen_non_power inp r ctx n) = mset (screen_non_power inp' r ctx' n')"
    and "inj_on ev_id (set (screen_non_power inp r ctx n))"
proof -
  note n = phases_same [OF s p]
  have "mset n = mset n'" using n by (intro same_map_mset) (simp_all add: events_ok_def)
  moreover have "is_sender_banned ev r u ctx = is_sender_banned ev r u ctx'" for ev u
    unfolding is_sender_banned_def ctx ..
  ultimately show "mset (screen_non_power inp r ctx n) = mset (screen_non_power inp' r ctx' n')"
    by (simp add: screen_non_power_def mset_map mset_filter same_maps [OF s])
  show "inj_on ev_id (set (screen_non_power inp r ctx n))"
    by (rule inj_on_subset [OF events_ok_inj [OF n(3)]]) (auto simp: screen_non_power_def)
qed

lemma mainline_stage_same:
  assumes s: "same_run inp inp'" and p: "phases inp = (p, n)" "phases inp' = (p', n')"
  shows "mainline_stage inp [] n r = mainline_stage inp' [] n' r"
proof -
  note m = same_maps [OF s]
  let ?ctx = "sort_context (ii_conflicted inp) (ii_auth_context inp)"
  let ?ctx' = "sort_context (ii_conflicted inp') (ii_auth_context inp')"
  have b: "build_mainline_with_cache r ?ctx' [] (ii_empty_key inp') (ii_version inp') =
      build_mainline_with_cache r ?ctx [] (ii_empty_key inp) (ii_version inp)"
    using mainline_walk_cong [OF context_same [OF s]] m by (simp add: build_mainline_with_cache_def)
  obtain ms pc where ml: "build_mainline_with_cache r ?ctx [] (ii_empty_key inp) (ii_version inp) = (ms, pc)" by fastforce
  have "cache_ok ?ctx (ii_version inp) []" by (simp add: cache_ok_def)
  from build_mainline_bound [OF this ml] have ms: "distinct ms" "length ms \<le> Suc (length ?ctx)" .
  then have "small_mainline ms" using s by (simp add: small_mainline_def sort_context_def same_run_def)
  from mainline_sort_same [OF ms(1) this screen_same [OF s p context_same [OF s]] context_same [OF s]]
  show ?thesis unfolding mainline_stage_def Let_def b ml prod.case by (simp add: m(4))
qed

lemma resolve_same:
  assumes s: "same_run inp inp'" and keys: "set keys = set keys'"
  shows "resolve_iterative_sort_with_all_caches inp \<lparr>rc_external = external, rc_mainline = []\<rparr> keys =
    resolve_iterative_sort_with_all_caches inp' \<lparr>rc_external = external, rc_mainline = []\<rparr> keys'"
proof (cases "ii_version inp = V3")
  case True
  then show ?thesis using same_maps(4) [OF s]
    by (simp add: resolve_iterative_sort_with_all_caches_def require_legacy_iterative_version_def require_def)
next
  case v: False
  let ?caches = "\<lparr>rc_external = external, rc_mainline = []\<rparr>"
  note m = same_maps [OF s] and admits = admit_cong [OF check_same [OF s] keys]
  obtain p n ids r c evs pc r' c' where run: "phases inp = (p, n)" "power_order inp p = Inr ids"
    "power_stage inp keys (rc_external ?caches) ids = (r, c)"
    "mainline_stage inp (rc_mainline ?caches) n (agreed_stage inp r) = (evs, pc)"
    "fold (admit (check_of inp) keys False) evs (agreed_stage inp r, c) = (r', c')"
    "resolve_iterative_sort_with_all_caches inp ?caches keys =
      Inr (merge_final_resolved (ii_unconflicted inp) r', c', pc)"
    by (rule resolve_runs [OF v same_events(1,3) [OF s]])
  obtain p' n' where p': "phases inp' = (p', n')" by fastforce
  have a: "agreed_stage inp = agreed_stage inp'" by (intro ext) (simp add: agreed_stage_def m)
  have "resolve_iterative_sort_with_all_caches inp' ?caches keys' =
      Inr (merge_final_resolved (ii_unconflicted inp') r', c', pc)"
  proof (rule resolve_stages [OF _ p'])
    show "ii_version inp' \<noteq> V3" using v m by simp
    show "power_order inp' p' = Inr ids" using run(2) phases_same(5) [OF s run(1) p'] by simp
    show "power_stage inp' keys' (rc_external ?caches) ids = (r, c)"
      using run(3) by (simp add: power_stage_def admits m)
    show "mainline_stage inp' (rc_mainline ?caches) n' (agreed_stage inp' r) = (evs, pc)"
      using run(4) mainline_stage_same [OF s run(1) p'] a by simp
    show "fold (admit (check_of inp') keys' False) evs (agreed_stage inp' r, c) = (r', c')"
      using run(5) by (simp add: admits a)
  qed
  with run(6) m(3) show ?thesis by simp
qed

text \<open>C3: Resolution is deterministic: the result, errors included, does not depend on the order in which
  the hash maps of conflicted events and of the auth context are enumerated. Two inputs with the same
  agreed state and the same events under the same ids resolve to the same state, with or without a shared
  local auth cache.\<close>

theorem resolve_deterministic:
  assumes "inputs_ok inp" "inputs_ok inp'" "same_problem inp inp'"
    and "int (length (ii_conflicted inp) + length (ii_auth_context inp)) + 2 < PENDING"
  shows "resolve_iterative_sort_with_cache inp external None = resolve_iterative_sort_with_cache inp' external None"
proof -
  from assms have s: "same_run inp inp'" by (simp add: same_run_def)
  have "set (derive_all_conflicted_keys (ii_conflicted inp) (ii_empty_key inp)) =
      set (derive_all_conflicted_keys (ii_conflicted inp') (ii_empty_key inp'))"
    by (simp add: derive_all_conflicted_keys_def conflicted_set [OF s] same_maps [OF s])
  from resolve_same [OF s this] show ?thesis by (simp add: resolve_iterative_sort_with_cache_def)
qed

theorem resolve_deterministic_witness:
  "resolve_iterative_sort_with_cache (sample_inputs sample_conflict V2) None None =
   resolve_iterative_sort_with_cache (sample_inputs (rev sample_conflict) V2) None None"
proof (rule resolve_deterministic [OF sample_inputs_ok(1,3)])
  have "map_of sample_conflict = map_of (rev sample_conflict)"
    by (simp add: sample_conflict_def fun_upd_twist)
  then show "same_problem (sample_inputs sample_conflict V2) (sample_inputs (rev sample_conflict) V2)"
    by (simp add: same_problem_def sample_inputs_def)
  show "int (length (ii_conflicted (sample_inputs sample_conflict V2)) +
      length (ii_auth_context (sample_inputs sample_conflict V2))) + 2 < PENDING"
    by code_simp
qed

section \<open>The memo table is not transparent\<close>

text \<open>Where local authorization is transitive, entries found at equal depth are kept in the order in which
  the search meets them, and a memoized ancestor is merged when it is met, ahead of the queue. Below, an
  event cites two events that each cite a power levels event. Searching without the table finds the power
  levels of the first; with the second one memoized it finds those of the second.\<close>

definition memo_node :: "string \<Rightarrow> string \<Rightarrow> string list \<Rightarrow> lean_event" where
  "memo_node i t cited = (sample_event i t (Some []) user_a (Object [])) \<lparr>ev_auth_events := cited\<rparr>"

definition memo_context :: event_map where
  "memo_context = map (\<lambda>ev. (ev_id ev, ev))
     [memo_node ''$p1'' M_ROOM_POWER_LEVELS [], memo_node ''$p2'' M_ROOM_POWER_LEVELS [],
      memo_node ''$x'' M_ROOM_TOPIC [''$p1''], memo_node ''$y'' M_ROOM_JOIN_RULES [''$p2'']]"

definition memo_event :: lean_event where
  "memo_event = memo_node ''$e'' ''org.example.note'' [''$x'', ''$y'']"

definition memo_levels :: "local_auth_cache \<Rightarrow> string option" where
  "memo_levels cache = map_option ev_id (map_of (fst (compute_local_auth memo_event memo_context [] cache V2_1_1))
     (M_ROOM_POWER_LEVELS, []))"

lemma memo_table_changes_local_auth:
  "memo_levels (new_local_auth_cache V2_1_1) = Some ''$p1''"
  "memo_levels (snd (compute_local_auth (memo_node ''$y'' M_ROOM_JOIN_RULES [''$p2'']) memo_context []
     (new_local_auth_cache V2_1_1) V2_1_1)) = Some ''$p2''"
  by code_simp+

end
