(* ===== verification/Resolve_Deltas.thy ===== *)
theory Resolve_Deltas
  imports Resolve_Sound
begin

text \<open>
  The delta-reporting resolver (\<open>resolve_iterative_sort_with_cache_and_deltas\<close>), which records for every
  conflicted event whether it was accepted and what it replaced, and how it relates to the plain resolver.
\<close>

section \<open>Model\<close>

datatype resolve_phase = Power | NonPower

record resolution_delta =
  rd_event_id :: string
  rd_accepted :: bool
  rd_key :: slot
  rd_replaced :: "string option"
  rd_phase :: resolve_phase

text \<open>The check of one state event: whether it is accepted, and the state and cache after it.\<close>

definition decide_event ::
  "iterative_auth_check \<Rightarrow> slot list \<Rightarrow> bool \<Rightarrow> lean_event \<Rightarrow> slot \<Rightarrow> shared_state \<times> local_auth_cache \<Rightarrow>
   bool \<times> shared_state \<times> local_auth_cache" where
  "decide_event ck conflicted_keys is_power event key s = (case s of (resolved, cache) \<Rightarrow>
     let (accepted, cache1) = event_auth_ok ck cache event resolved is_power
     in (accepted,
         if accepted \<and> decides_key (ck_version ck) conflicted_keys key
         then resolved(key \<mapsto> ev_id event) else resolved, cache1))"

type_synonym delta_state = "(shared_state \<times> local_auth_cache) \<times> resolution_delta list"

definition delta_power_step ::
  "iterative_auth_check \<Rightarrow> slot list \<Rightarrow> string list \<Rightarrow> string \<Rightarrow> delta_state \<Rightarrow> delta_state" where
  "delta_power_step ck conflicted_keys original eid s =
     (case find_event (ck_conflicted ck) (ck_auth_context ck) eid of
        None \<Rightarrow> s
      | Some event \<Rightarrow> (case ev_state_key event of
          None \<Rightarrow> s
        | Some sk \<Rightarrow> (case s of ((resolved, cache), deltas) \<Rightarrow>
            let key = event_slot event sk;
                (accepted, s1) = decide_event ck conflicted_keys True event key (resolved, cache);
                replaced = resolved key
            in (s1, if ev_id event \<in> set original
                    then deltas @ [\<lparr>rd_event_id = ev_id event, rd_accepted = accepted, rd_key = key,
                      rd_replaced = replaced, rd_phase = Power\<rparr>]
                    else deltas))))"

definition delta_step ::
  "iterative_inputs \<Rightarrow> iterative_auth_check \<Rightarrow> slot list \<Rightarrow> event_map \<Rightarrow> lean_event \<Rightarrow> delta_state \<Rightarrow> delta_state"
where
  "delta_step inp ck conflicted_keys context ev s = (case ev_state_key ev of
       None \<Rightarrow> s
     | Some sk \<Rightarrow> (case s of ((resolved, cache), deltas) \<Rightarrow>
         let key = event_slot ev sk;
             replaced = resolved key
         in if has_ban_evasion_hardening (ii_version inp) \<and>
               is_sender_banned ev resolved (ii_unconflicted inp) context
            then ((resolved, cache),
                  deltas @ [\<lparr>rd_event_id = ev_id ev, rd_accepted = False, rd_key = key,
                    rd_replaced = replaced, rd_phase = NonPower\<rparr>])
            else (let (accepted, s1) = decide_event ck conflicted_keys False ev key (resolved, cache)
                  in (s1, deltas @ [\<lparr>rd_event_id = ev_id ev, rd_accepted = accepted, rd_key = key,
                       rd_replaced = replaced, rd_phase = NonPower\<rparr>]))))"

definition resolve_iterative_sort_with_cache_and_deltas ::
  "iterative_inputs \<Rightarrow> local_auth_cache option \<Rightarrow> slot list option \<Rightarrow>
   (fault, shared_state \<times> resolution_delta list) result" where
  "resolve_iterative_sort_with_cache_and_deltas inp external_auth_cache conflicted_keys_override =
     ok_then (require_legacy_iterative_version (ii_version inp))
       (let conflicted_keys = (case conflicted_keys_override of
              Some ck \<Rightarrow> ck
            | None \<Rightarrow> derive_all_conflicted_keys (ii_conflicted inp) (ii_empty_key inp));
            original = prepare_conflicted_and_keys (ii_conflicted inp);
            context = sort_context (ii_conflicted inp) (ii_auth_context inp);
            (pwr, non_power) =
              execute_power_phase (ii_conflicted inp) (ii_auth_context inp) original (ii_version inp);
            ck = check_of inp
        in rbind (kahn_sort (power_sort_inputs pwr context (ck_create_ev ck) (ii_version inp)))
             (\<lambda>sorted_power_ids.
                let ((resolved, cache), deltas) =
                      fold (delta_power_step ck conflicted_keys original) sorted_power_ids
                        ((get_initial_resolved_state (ii_unconflicted inp) (ii_version inp),
                          select_local_auth_cache external_auth_cache (ii_version inp)), []);
                    resolved1 = merge_unconflicted_power_events (ii_version inp) (ii_unconflicted inp)
                      resolved (ii_empty_key inp);
                    mainline = build_mainline resolved1 context (ii_empty_key inp) (ii_version inp);
                    non_power_list = mainline_sort (map snd non_power) mainline context (ii_version inp);
                    ((resolved2, _), deltas1) =
                      fold (delta_step inp ck conflicted_keys context) non_power_list
                        ((resolved1, cache), deltas)
                in Inr (merge_final_resolved (ii_unconflicted inp) resolved2, deltas1)))"

definition resolve_iterative_sort_with_deltas ::
  "iterative_inputs \<Rightarrow> (fault, shared_state \<times> resolution_delta list) result" where
  "resolve_iterative_sort_with_deltas inp = resolve_iterative_sort_with_cache_and_deltas inp None None"

section \<open>One step of each resolver\<close>

lemma admit_decide:
  assumes "ev_state_key ev = Some sk"
  shows "admit ck keys is_power ev s = snd (decide_event ck keys is_power ev (event_slot ev sk) s)"
  using assms by (cases s) (simp add: admit_def decide_event_def Let_def split: prod.split)

lemma fold_related:
  assumes "\<And>x s t. x \<in> set xs \<Longrightarrow> R s t \<Longrightarrow> R (f x s) (g x t)" "R s t"
  shows "R (fold f xs s) (fold g xs t)"
  using assms by (induction xs arbitrary: s t) auto

text \<open>What the report says of an event: its id and slot when it is a state event, nothing otherwise.\<close>

definition reported :: "lean_event \<Rightarrow> (string \<times> slot) list" where
  "reported ev = (case ev_state_key ev of None \<Rightarrow> [] | Some sk \<Rightarrow> [(ev_id ev, event_slot ev sk)])"

abbreviation report_of :: "delta_state \<Rightarrow> (string \<times> slot) list" where
  "report_of s \<equiv> map (\<lambda>d. (rd_event_id d, rd_key d)) (snd s)"

lemma delta_power_step_report:
  assumes "find_event (ck_conflicted ck) (ck_auth_context ck) i = Some ev" "ev_id ev = i"
  shows "report_of (delta_power_step ck keys original i s) =
    report_of s @ (if i \<in> set original then reported ev else [])"
  using assms by (cases s) (auto simp: delta_power_step_def reported_def Let_def split: prod.splits option.splits)

lemma delta_step_report: "report_of (delta_step inp ck keys ctx ev s) = report_of s @ reported ev"
  by (cases s) (auto simp: delta_step_def reported_def Let_def split: prod.splits option.splits)

lemma fold_report:
  assumes "\<And>x s. x \<in> set xs \<Longrightarrow> h (f x s) = h s @ g x"
  shows "h (fold f xs s) = h s @ concat (map g xs)"
  using assms by (induction xs arbitrary: s) auto

section \<open>The memo table without transitive authorization\<close>

text \<open>The plain resolver memoizes the local auth context of events without a state key, the delta resolver skips
  them. Where local authorization is not transitive this cannot be observed: the search does not read the
  memo table, and the context of a state event is looked up under its own id only.\<close>

lemma local_auth_loop_table:
  assumes "\<not> transitive_auth version"
  shows "local_auth_loop a b m version q visited la = local_auth_loop a b m' version q visited la"
  using assms
proof (induction a b m version q visited la rule: local_auth_loop.induct)
  case (2 a b m version aid depth queue visited la)
  show ?case
  proof (cases "aid \<in> set visited")
    case True
    with 2 show ?thesis by simp
  next
    case new: False
    show ?thesis
      using new 2(2) [OF new refl refl _ 2(4)] 2(3) [OF new refl refl _ 2(4)] 2(4)
      by (cases "map_of m aid"; cases "map_of m' aid") (simp_all add: Let_def)
  qed
qed simp

definition same_table :: "event_map \<Rightarrow> local_auth_cache \<Rightarrow> local_auth_cache \<Rightarrow> bool" where
  "same_table ctx c c' \<longleftrightarrow> (\<forall>i ev. map_of ctx i = Some ev \<longrightarrow> ev_state_key ev \<noteq> None \<longrightarrow>
     map_of (lac_map c) i = map_of (lac_map c') i)"

lemma compute_local_auth_table:
  assumes "\<not> transitive_auth version" "same_table ctx c c'" "map_of ctx (ev_id ev) = Some ev" "ev_state_key ev \<noteq> None"
  shows "fst (compute_local_auth ev a b c version) = fst (compute_local_auth ev a b c' version) \<and>
    same_table ctx (snd (compute_local_auth ev a b c version)) (snd (compute_local_auth ev a b c' version))"
proof -
  have "map_of (lac_map c) (ev_id ev) = map_of (lac_map c') (ev_id ev)" using assms unfolding same_table_def by blast
  moreover have "local_auth_loop a b (lac_map c) version q [] [] = local_auth_loop a b (lac_map c') version q [] []" for q
    by (rule local_auth_loop_table [OF assms(1)])
  ultimately show ?thesis using assms(2)
    by (auto simp: compute_local_auth_def same_table_def Let_def map_lookups split: option.splits)
qed

lemma compute_local_auth_skip:
  assumes "same_table ctx c c'" "map_of ctx (ev_id ev) = Some ev" "ev_state_key ev = None"
  shows "same_table ctx c (snd (compute_local_auth ev a b c' version))"
  using assms by (auto simp: compute_local_auth_def same_table_def Let_def map_lookups split: option.splits)

definition same_progress :: "event_map \<Rightarrow> delta_state \<Rightarrow> shared_state \<times> local_auth_cache \<Rightarrow> bool" where
  "same_progress ctx s t \<longleftrightarrow> fst (fst s) = fst t \<and> same_table ctx (snd (fst s)) (snd t)"

lemma decide_progress:
  assumes "\<not> transitive_auth (ck_version ck)" "same_progress ctx s t" "map_of ctx (ev_id ev) = Some ev"
    and "ev_state_key ev = Some sk"
  shows "same_progress ctx (snd (decide_event ck keys is_power ev (event_slot ev sk) (fst s)), ds)
    (admit ck keys is_power ev t)"
proof -
  obtain r c ds' c' where s: "s = ((r, c), ds')" "t = (r, c')" "same_table ctx c c'"
    using assms(2) by (cases s; cases t) (auto simp: same_progress_def)
  obtain la c1 where l: "compute_local_auth ev (ck_auth_context ck) (ck_conflicted ck) c (ck_version ck) = (la, c1)"
    by fastforce
  with compute_local_auth_table [OF assms(1) s(3) assms(3)] assms(4) obtain c1' where
    l': "compute_local_auth ev (ck_auth_context ck) (ck_conflicted ck) c' (ck_version ck) = (la, c1')"
    "same_table ctx c1 c1'" by (metis fst_conv option.distinct(1) prod.collapse snd_conv)
  show ?thesis unfolding admit_decide [OF assms(4)] s(1,2)
    using l l' by (simp add: same_progress_def decide_event_def event_auth_ok_def)
qed

lemma admit_skip:
  assumes "same_progress ctx s t" "map_of ctx (ev_id ev) = Some ev" "ev_state_key ev = None"
  shows "same_progress ctx s (admit ck keys is_power ev t)"
proof -
  obtain r c' where t: "t = (r, c')" by fastforce
  have "admit ck keys is_power ev t = (r, snd (compute_local_auth ev (ck_auth_context ck) (ck_conflicted ck) c' (ck_version ck)))"
    using assms(3) by (simp add: t admit_def event_auth_ok_def split: prod.split)
  with assms(1) compute_local_auth_skip [OF _ assms(2,3), of "snd (fst s)" c'] show ?thesis
    by (simp add: same_progress_def t)
qed

lemma delta_power_step_progress:
  assumes "\<not> transitive_auth (ck_version ck)" "same_progress ctx s t"
    and "\<And>ev. find_event (ck_conflicted ck) (ck_auth_context ck) i = Some ev \<Longrightarrow> map_of ctx (ev_id ev) = Some ev"
  shows "same_progress ctx (delta_power_step ck keys original i s) (admit_power ck keys i t)"
proof (cases "find_event (ck_conflicted ck) (ck_auth_context ck) i")
  case None
  with assms(2) show ?thesis by (simp add: delta_power_step_def admit_power_def)
next
  case (Some ev)
  show ?thesis
  proof (cases "ev_state_key ev")
    case None
    with admit_skip [OF assms(2) assms(3) [OF Some] None] Some show ?thesis
      by (simp add: delta_power_step_def admit_power_def)
  next
    case sk: (Some sk)
    obtain r c ds where s: "s = ((r, c), ds)" by (metis prod.collapse)
    obtain acc s1 where d: "decide_event ck keys True ev (event_slot ev sk) (r, c) = (acc, s1)" by (rule prod.exhaust)
    from decide_progress [OF assms(1,2) assms(3) [OF Some] sk, of keys True] d s
    have "same_progress ctx (s1, ds') (admit ck keys True ev t)" for ds' by simp
    with Some sk d s show ?thesis by (simp add: delta_power_step_def admit_power_def Let_def)
  qed
qed

lemma delta_step_progress:
  assumes "\<not> transitive_auth (ck_version ck)" "same_progress ctx s t" "map_of ctx (ev_id ev) = Some ev"
    and "\<not> has_ban_evasion_hardening (ii_version inp)"
  shows "same_progress ctx (delta_step inp ck keys context ev s) (admit ck keys False ev t)"
proof (cases "ev_state_key ev")
  case None
  with admit_skip [OF assms(2,3) None] show ?thesis by (simp add: delta_step_def)
next
  case (Some sk)
  obtain r c ds where s: "s = ((r, c), ds)" by (metis prod.collapse)
  obtain acc s1 where d: "decide_event ck keys False ev (event_slot ev sk) (r, c) = (acc, s1)" by (rule prod.exhaust)
  from decide_progress [OF assms(1-3) Some, of keys False] d s
  have "same_progress ctx (s1, ds') (admit ck keys False ev t)" for ds' by simp
  with Some d s assms(4) show ?thesis by (simp add: delta_step_def Let_def)
qed

section \<open>A run with deltas\<close>

abbreviation run_context :: "iterative_inputs \<Rightarrow> event_map" where
  "run_context inp \<equiv> sort_context (ii_conflicted inp) (ii_auth_context inp)"

definition delta_power_stage ::
  "iterative_inputs \<Rightarrow> slot list \<Rightarrow> local_auth_cache option \<Rightarrow> string list \<Rightarrow> delta_state" where
  "delta_power_stage inp keys external ids =
     fold (delta_power_step (check_of inp) keys (prepare_conflicted_and_keys (ii_conflicted inp))) ids
       ((get_initial_resolved_state (ii_unconflicted inp) (ii_version inp),
         select_local_auth_cache external (ii_version inp)), [])"

definition delta_order :: "iterative_inputs \<Rightarrow> event_map \<Rightarrow> shared_state \<Rightarrow> lean_event list" where
  "delta_order inp np r = mainline_sort (map snd np)
     (build_mainline r (run_context inp) (ii_empty_key inp) (ii_version inp)) (run_context inp) (ii_version inp)"

lemma delta_stages:
  assumes v: "ii_version inp \<noteq> V3" and p: "phases inp = (pwr, np)" and k: "power_order inp pwr = Inr ids"
    and f: "delta_power_stage inp (chosen_keys inp override) external ids = ((r, c), ds)"
    and g: "fold (delta_step inp (check_of inp) (chosen_keys inp override) (run_context inp))
        (delta_order inp np (agreed_stage inp r)) ((agreed_stage inp r, c), ds) = ((r', c'), ds')"
  shows "resolve_iterative_sort_with_cache_and_deltas inp external override =
    Inr (merge_final_resolved (ii_unconflicted inp) r', ds')"
proof -
  have "require_legacy_iterative_version (ii_version inp) = Inr ()"
    using v by (simp add: require_legacy_iterative_version_def require_def)
  then show ?thesis
    unfolding resolve_iterative_sort_with_cache_and_deltas_def ok_then_simps Let_def
      p [unfolded phases_def] prod.case k [unfolded power_order_def] rbind_simps chosen_keys_def [symmetric]
      f [unfolded delta_power_stage_def] agreed_stage_def [symmetric] delta_order_def [symmetric] g
    by simp
qed

lemma delta_runs:
  assumes "ii_version inp \<noteq> V3" "events_ok (ii_conflicted inp)" "events_ok (ii_auth_context inp)"
  obtains pwr np ids r c ds r' c' ds' where "phases inp = (pwr, np)" "power_order inp pwr = Inr ids"
    "mset ids = mset (map fst pwr)" "delta_power_stage inp (chosen_keys inp override) external ids = ((r, c), ds)"
    "fold (delta_step inp (check_of inp) (chosen_keys inp override) (run_context inp))
        (delta_order inp np (agreed_stage inp r)) ((agreed_stage inp r, c), ds) = ((r', c'), ds')"
    "resolve_iterative_sort_with_cache_and_deltas inp external override =
      Inr (merge_final_resolved (ii_unconflicted inp) r', ds')"
proof -
  obtain pwr np where p: "phases inp = (pwr, np)" by fastforce
  obtain ids where k: "power_order inp pwr = Inr ids" "mset ids = mset (map fst pwr)"
    using kahn_sort_returns [of "power_sort_inputs pwr (run_context inp) (ck_create_ev (check_of inp)) (ii_version inp)"]
      phases_ok(1) [OF assms(2,3) p]
    by (auto simp: power_order_def power_sort_inputs_def)
  obtain r c ds where f: "delta_power_stage inp (chosen_keys inp override) external ids = ((r, c), ds)"
    by (metis prod.collapse)
  obtain r' c' ds' where g: "fold (delta_step inp (check_of inp) (chosen_keys inp override) (run_context inp))
        (delta_order inp np (agreed_stage inp r)) ((agreed_stage inp r, c), ds) = ((r', c'), ds')"
    by (metis prod.collapse)
  from that [OF p k f g] delta_stages [OF assms(1) p k(1) f g] show thesis .
qed

lemma phases_partition:
  assumes "events_ok (ii_conflicted inp)" "phases inp = (pwr, np)"
    and "i \<in> set (prepare_conflicted_and_keys (ii_conflicted inp))"
  shows "map_of pwr i = None \<longleftrightarrow> map_of np i \<noteq> None"
proof -
  let ?v = "ii_version inp" and ?conf = "ii_conflicted inp" and ?orig = "prepare_conflicted_and_keys (ii_conflicted inp)"
  obtain p0 n0 where r: "route_power_events ?conf [] [] ?v = (p0, n0)" by fastforce
  obtain p1 n1 where x: "(if ?v \<noteq> V1 then expand_v2_power_events_auth_chains p0 n0 ?conf else (p0, n0)) = (p1, n1)"
    by fastforce
  have np: "np = n1" "pwr = route_msc4297_ancestral_power_events p1 (ii_auth_context inp) ?orig ?v"
    using assms(2) r x by (simp_all add: phases_def execute_power_phase_def)
  have "map_of pwr i = map_of p1 i"
    using assms(3) unfolding np(2) route_msc4297_ancestral_power_events_def
    by (auto simp: route_ancestors_lookup routes_ancestor_def split: option.split)
  moreover have "map_of ?conf i \<noteq> None" using assms(3) by (simp add: prepare_conflicted_and_keys_def map_of_eq_None_iff)
  ultimately show ?thesis
    using x np(1) route_power_events_lookup(1,2) [OF assms(1) r, of i] expand_lookup(1,2) [OF assms(1) r, of _ _ i]
    by (auto split: if_splits option.splits)
qed

lemma delta_order_events:
  assumes "inputs_ok inp" "phases inp = (pwr, np)" "ev \<in> set (delta_order inp np r)"
  shows "map_of (event_context inp) (ev_id ev) = Some ev"
proof -
  note in_ok = inputs_okD [OF assms(1)]
  have "ev \<in> snd ` set np" using assms(3) mset_mainline_sort unfolding delta_order_def
    by (metis list.set_map set_mset_mset)
  then obtain i where i: "(i, ev) \<in> set np" by auto
  have "events_ok np" by (rule phases_ok(2) [OF in_ok(1,2) assms(2)])
  from events_ok_value [OF this i] have "map_of np (ev_id ev) = Some ev" .
  from in_ok(3) [OF phases_conflicted [OF in_ok(1) assms(2) this]] show ?thesis .
qed

lemma phases_power_found:
  assumes "events_ok (ii_conflicted inp)" "phases inp = (pwr, np)" "map_of pwr i \<noteq> None"
  shows "find_event (ii_conflicted inp) (ii_auth_context inp) i \<noteq> None"
proof -
  let ?v = "ii_version inp" and ?conf = "ii_conflicted inp" and ?orig = "prepare_conflicted_and_keys (ii_conflicted inp)"
  obtain p0 n0 where r: "route_power_events ?conf [] [] ?v = (p0, n0)" by fastforce
  obtain p1 n1 where x: "(if ?v \<noteq> V1 then expand_v2_power_events_auth_chains p0 n0 ?conf else (p0, n0)) = (p1, n1)"
    by fastforce
  have "pwr = route_msc4297_ancestral_power_events p1 (ii_auth_context inp) ?orig ?v"
    using assms(2) r x by (simp add: phases_def execute_power_phase_def)
  with assms(3) have "map_of p1 i \<noteq> None \<or> map_of (ii_auth_context inp) i \<noteq> None"
    by (auto simp: route_msc4297_ancestral_power_events_def route_ancestors_lookup split: if_splits option.splits)
  moreover have "map_of ?conf i \<noteq> None" if "map_of p1 i \<noteq> None"
    using that x route_power_events_lookup(1) [OF assms(1) r, of i] expand_lookup(1) [OF assms(1) r, of _ _ i]
    by (auto split: if_splits option.splits)
  ultimately show ?thesis by (auto simp: find_event_def split: option.split)
qed

text \<open>The report of an event by its id.\<close>

definition report_at :: "iterative_inputs \<Rightarrow> string \<Rightarrow> (string \<times> slot) list" where
  "report_at inp i = (case find_event (ii_conflicted inp) (ii_auth_context inp) i of
       None \<Rightarrow> []
     | Some ev \<Rightarrow> reported ev)"

lemma report_at_event:
  assumes "inputs_ok inp" "map_of (ii_conflicted inp) i = Some ev"
  shows "report_at inp i = reported ev"
  using assms by (simp add: report_at_def find_event_def)

lemma concat_if: "concat (map (\<lambda>i. if P i then g i else []) xs) = concat (map g (filter P xs))"
  by (induction xs) auto

lemma delta_report:
  assumes ok: "inputs_ok inp"
    and p: "phases inp = (pwr, np)" and ids: "mset ids = mset (map fst pwr)"
    and f: "delta_power_stage inp keys external ids = ((r, c), ds)"
    and g: "fold (delta_step inp (check_of inp) keys ctx) (delta_order inp np r1) ((r1, c), ds) = ((r', c'), ds')"
  shows "map (\<lambda>d. (rd_event_id d, rd_key d)) ds' =
    concat (map (report_at inp) (filter (\<lambda>i. i \<in> set (prepare_conflicted_and_keys (ii_conflicted inp))) ids)) @
    concat (map reported (delta_order inp np r1))"
proof -
  note in_ok = inputs_okD [OF ok]
  let ?orig = "prepare_conflicted_and_keys (ii_conflicted inp)" and ?ck = "check_of inp"
  have ps: "report_of (delta_power_step ?ck keys ?orig i s) =
      report_of s @ (if i \<in> set ?orig then report_at inp i else [])" if "i \<in> set ids" for i s
  proof -
    have "i \<in> set (map fst pwr)" using that ids by (metis set_mset_mset)
    then have "map_of pwr i \<noteq> None" by (simp add: map_of_eq_None_iff)
    with phases_power_found [OF in_ok(1) p] obtain ev where
      ev: "find_event (ii_conflicted inp) (ii_auth_context inp) i = Some ev" by auto
    note c = find_event_context [OF ok ev]
    from delta_power_step_report [OF _ in_ok(4) [OF c], of ?ck keys ?orig s] ev
    show ?thesis by (simp add: check_of_def report_at_def)
  qed
  have "report_of (fold (delta_power_step ?ck keys ?orig) ids s) =
      report_of s @ concat (map (\<lambda>i. if i \<in> set ?orig then report_at inp i else []) ids)" for s
    by (rule fold_report [where h = report_of]) (rule ps)
  note power = this [unfolded concat_if]
  have ds: "map (\<lambda>d. (rd_event_id d, rd_key d)) ds = concat (map (report_at inp) (filter (\<lambda>i. i \<in> set ?orig) ids))"
    using power [of "((get_initial_resolved_state (ii_unconflicted inp) (ii_version inp),
      select_local_auth_cache external (ii_version inp)), [])", folded delta_power_stage_def, unfolded f] by simp
  have "report_of (fold (delta_step inp ?ck keys ctx) (delta_order inp np r1) s) =
      report_of s @ concat (map reported (delta_order inp np r1))" for s
    by (rule fold_report [where h = report_of]) (rule delta_step_report)
  from this [of "((r1, c), ds)"] g ds show ?thesis by simp
qed

lemma delta_ids:
  assumes ok: "inputs_ok inp" and p: "phases inp = (pwr, np)" and ids: "mset ids = mset (map fst pwr)"
  shows "mset (filter (\<lambda>i. i \<in> set (prepare_conflicted_and_keys (ii_conflicted inp))) ids @
    map ev_id (delta_order inp np r)) = mset (map fst (ii_conflicted inp))"
proof -
  note in_ok = inputs_okD [OF ok]
  let ?orig = "prepare_conflicted_and_keys (ii_conflicted inp)"
  note ev = phases_ok [OF in_ok(1,2) p]
  have "map ev_id (map snd np) = map fst np" using ev(2) by (auto simp: events_ok_def)
  moreover have "mset (map ev_id (delta_order inp np r)) = mset (map ev_id (map snd np))"
    unfolding delta_order_def mset_map mset_mainline_sort ..
  ultimately have np: "mset (map ev_id (delta_order inp np r)) = mset (map fst np)" by (simp only:)
  have in_pwr: "i \<in> set (map fst m) \<longleftrightarrow> map_of m i \<noteq> None" for i and m :: event_map
    by (simp add: map_of_eq_None_iff)
  have orig: "?orig = map fst (ii_conflicted inp)" by (simp add: prepare_conflicted_and_keys_def)
  have sub: "i \<in> set ?orig" if "map_of np i \<noteq> None" for i
    using that phases_conflicted [OF in_ok(1) p] unfolding orig in_pwr by auto
  have set: "set (filter (\<lambda>i. i \<in> set ?orig) (map fst pwr) @ map fst np) = set (map fst (ii_conflicted inp))"
  proof (rule set_eqI)
    fix i
    show "i \<in> set (filter (\<lambda>i. i \<in> set ?orig) (map fst pwr) @ map fst np) \<longleftrightarrow> i \<in> set (map fst (ii_conflicted inp))"
      using phases_partition [OF in_ok(1) p, of i] sub [of i] in_pwr [of i pwr] in_pwr [of i np]
      unfolding orig [symmetric] set_append set_filter by blast
  qed
  have "distinct (map fst pwr)" "distinct (map fst np)" "distinct (map fst (ii_conflicted inp))"
    using ev in_ok(1) by (simp_all add: events_ok_def hm_inv_def)
  moreover have "set (filter (\<lambda>i. i \<in> set ?orig) (map fst pwr)) \<inter> set (map fst np) = {}"
    using phases_partition [OF in_ok(1) p] in_pwr [of _ pwr] in_pwr [of _ np] unfolding set_filter by blast
  ultimately have "mset (filter (\<lambda>i. i \<in> set ?orig) (map fst pwr) @ map fst np) = mset (map fst (ii_conflicted inp))"
    using set by (intro set_eq_iff_mset_eq_distinct [THEN iffD1]) auto
  then show ?thesis unfolding mset_append np mset_filter ids .
qed

lemma mset_concat_cong: "mset xs = mset ys \<Longrightarrow> mset (concat (map g xs)) = mset (concat (map g ys))"
  by (simp add: mset_concat) (metis mset_map sum_mset_sum_list)

lemma delta_report_complete:
  assumes ok: "inputs_ok inp" and p: "phases inp = (pwr, np)" and ids: "mset ids = mset (map fst pwr)"
  shows "mset (concat (map (report_at inp) (filter (\<lambda>i. i \<in> set (prepare_conflicted_and_keys (ii_conflicted inp))) ids)) @
      concat (map reported (delta_order inp np r))) = mset (concat (map (\<lambda>(_, ev). reported ev) (ii_conflicted inp)))"
proof -
  note in_ok = inputs_okD [OF ok]
  have "reported ev = report_at inp (ev_id ev)" if "ev \<in> set (delta_order inp np r)" for ev
  proof -
    have "ev \<in> snd ` set np" using that mset_mainline_sort unfolding delta_order_def by (metis list.set_map set_mset_mset)
    then obtain i where "(i, ev) \<in> set np" by auto
    from events_ok_value [OF phases_ok(2) [OF in_ok(1,2) p] this] have "map_of np (ev_id ev) = Some ev" .
    from report_at_event [OF ok phases_conflicted [OF in_ok(1) p this]] show ?thesis by simp
  qed
  then have order: "map reported (delta_order inp np r) = map (report_at inp) (map ev_id (delta_order inp np r))" by simp
  have "(case e of (_, ev) \<Rightarrow> reported ev) = report_at inp (fst e)" if "e \<in> set (ii_conflicted inp)" for e
    using report_at_event [OF ok, of "fst e" "snd e"] in_ok(1) that by (auto simp: events_ok_def hm_inv_def split: prod.split)
  then have conf: "map (\<lambda>(_, ev). reported ev) (ii_conflicted inp) = map (report_at inp) (map fst (ii_conflicted inp))"
    by simp
  show ?thesis
    using mset_concat_cong [OF delta_ids [OF ok p ids, of r], of "report_at inp"]
    unfolding order conf map_append concat_append .
qed

lemma delta_order_mainline_stage:
  assumes "\<not> has_ban_evasion_hardening (ii_version inp)"
  shows "fst (mainline_stage inp [] np r) = delta_order inp np r"
  using assms unfolding mainline_stage_def delta_order_def build_mainline_def screen_non_power_def Let_def
  by (simp split: prod.split)

section \<open>Properties\<close>

text \<open>C15: The report of the delta resolver is complete and exact: the resolver returns for every version but V3, and
  its deltas name every conflicted event that has a state key exactly once, with the slot of the event, whether
  the event was accepted, refused or screened. Events without a state key cannot enter the state and have no
  delta, and neither have the power events that are routed in from the auth context.\<close>

theorem deltas_complete:
  assumes "inputs_ok inp" "ii_version inp \<noteq> V3"
  shows "\<exists>st ds. resolve_iterative_sort_with_cache_and_deltas inp external keys = Inr (st, ds) \<and>
    mset (map (\<lambda>d. (rd_event_id d, rd_key d)) ds) =
      mset (concat (map (\<lambda>(i, ev). case ev_state_key ev of
        None \<Rightarrow> [] | Some sk \<Rightarrow> [(i, event_slot ev sk)]) (ii_conflicted inp)))"
proof -
  obtain pwr np ids r c ds r' c' ds' where run: "phases inp = (pwr, np)" "mset ids = mset (map fst pwr)"
    "delta_power_stage inp (chosen_keys inp keys) external ids = ((r, c), ds)"
    "fold (delta_step inp (check_of inp) (chosen_keys inp keys) (run_context inp))
        (delta_order inp np (agreed_stage inp r)) ((agreed_stage inp r, c), ds) = ((r', c'), ds')"
    "resolve_iterative_sort_with_cache_and_deltas inp external keys =
      Inr (merge_final_resolved (ii_unconflicted inp) r', ds')"
    using delta_runs [OF assms(2) inputs_okD(1,2) [OF assms(1)], of keys external] by metis
  have conf: "map (\<lambda>(i, ev). case ev_state_key ev of None \<Rightarrow> [] | Some sk \<Rightarrow> [(i, event_slot ev sk)]) (ii_conflicted inp) =
      map (\<lambda>(_, ev). reported ev) (ii_conflicted inp)"
    using inputs_okD(1) [OF assms(1)] by (auto simp: reported_def events_ok_def split: option.split)
  have "mset (map (\<lambda>d. (rd_event_id d, rd_key d)) ds') = mset (concat (map (\<lambda>(_, ev). reported ev) (ii_conflicted inp)))"
    unfolding delta_report [OF assms(1) run(1-4)] by (rule delta_report_complete [OF assms(1) run(1,2)])
  with run(5) show ?thesis unfolding conf by blast
qed

text \<open>C16: Before the ban evasion hardening the delta resolver and the plain resolver resolve to the same state, with the
  same shared memo table and the same conflicted keys, on all events, with or without a state key.\<close>

theorem deltas_agree:
  assumes "inputs_ok inp" "ii_version inp \<in> {V1, V2, V2_1}"
  shows "\<exists>st ds. resolve_iterative_sort_with_cache_and_deltas inp external keys = Inr (st, ds) \<and>
    resolve_iterative_sort_with_cache inp external keys = Inr st"
proof -
  have v: "ii_version inp \<noteq> V3" "\<not> has_ban_evasion_hardening (ii_version inp)" "\<not> transitive_auth (ii_version inp)"
    using assms(2) by (auto simp: has_ban_evasion_hardening_def transitive_auth_def)
  let ?keys = "chosen_keys inp keys" and ?ck = "check_of inp" and ?ctx = "event_context inp"
  note in_ok = inputs_okD [OF assms(1)]
  obtain pwr np ids r c ds r' c' ds' where run: "phases inp = (pwr, np)" "power_order inp pwr = Inr ids"
    "delta_power_stage inp ?keys external ids = ((r, c), ds)"
    "fold (delta_step inp ?ck ?keys (run_context inp))
        (delta_order inp np (agreed_stage inp r)) ((agreed_stage inp r, c), ds) = ((r', c'), ds')"
    "resolve_iterative_sort_with_cache_and_deltas inp external keys =
      Inr (merge_final_resolved (ii_unconflicted inp) r', ds')"
    using delta_runs [OF v(1) in_ok(1,2), of keys external] by metis
  have ver: "\<not> transitive_auth (ck_version ?ck)" using v(3) by (simp add: check_of_def)
  obtain r0 c0 where q: "power_stage inp ?keys external ids = (r0, c0)" by fastforce
  have "same_progress ?ctx (delta_power_stage inp ?keys external ids) (power_stage inp ?keys external ids)"
    unfolding delta_power_stage_def power_stage_def
  proof (rule fold_related [where R = "same_progress ?ctx"])
    fix i s t assume "same_progress ?ctx s t"
    then show "same_progress ?ctx (delta_power_step ?ck ?keys (prepare_conflicted_and_keys (ii_conflicted inp)) i s)
        (admit_power ?ck ?keys i t)"
      using find_event_context [OF assms(1), of i] in_ok(4)
      by (intro delta_power_step_progress [OF ver]) (auto simp: check_of_def)
  qed (simp add: same_progress_def same_table_def)
  with run(3) q have p: "r0 = r" "same_table ?ctx c c0" by (simp_all add: same_progress_def)
  have "same_progress ?ctx (fold (delta_step inp ?ck ?keys (run_context inp)) (delta_order inp np (agreed_stage inp r))
      ((agreed_stage inp r, c), ds)) (fold (admit ?ck ?keys False) (delta_order inp np (agreed_stage inp r)) (agreed_stage inp r, c0))"
    using p(2) delta_order_events [OF assms(1) run(1)]
    by (intro fold_related [where R = "same_progress ?ctx"] delta_step_progress [OF ver])
      (auto simp: v(2) same_progress_def)
  with run(4) obtain c1 where
    rest: "fold (admit ?ck ?keys False) (delta_order inp np (agreed_stage inp r)) (agreed_stage inp r, c0) = (r', c1)"
    by (metis fst_conv prod.collapse same_progress_def)
  obtain pc where "mainline_stage inp [] np (agreed_stage inp r) = (delta_order inp np (agreed_stage inp r), pc)"
    using delta_order_mainline_stage [OF v(2), of np "agreed_stage inp r"] by (metis prod.collapse)
  with resolve_stages [OF v(1) run(1,2), of ?keys "\<lparr>rc_external = external, rc_mainline = []\<rparr>"] q p(1) rest
  have "resolve_iterative_sort_with_all_caches inp \<lparr>rc_external = external, rc_mainline = []\<rparr> ?keys =
      Inr (merge_final_resolved (ii_unconflicted inp) r', c1, pc)" by simp
  then have "resolve_iterative_sort_with_cache inp external keys = Inr (merge_final_resolved (ii_unconflicted inp) r')"
    by (simp add: resolve_iterative_sort_with_cache_def chosen_keys_def [symmetric])
  with run(5) show ?thesis by blast
qed

text \<open>The sample conflict with an event that has no state key.\<close>

definition keyless_conflict :: event_map where
  "keyless_conflict = sample_conflict @ [(''$n'', sample_event ''$n'' ''org.example.note'' None user_a (Object []))]"

lemma keyless_inputs_ok: "inputs_ok (sample_inputs keyless_conflict V2)"
  by code_simp

theorem deltas_complete_witness:
  "\<exists>st ds. resolve_iterative_sort_with_cache_and_deltas (sample_inputs keyless_conflict V2) None None = Inr (st, ds) \<and>
    mset (map (\<lambda>d. (rd_event_id d, rd_key d)) ds) =
      {#(''$t1'', (M_ROOM_TOPIC, [])), (''$t2'', (M_ROOM_TOPIC, []))#}"
proof -
  have "mset (concat (map (\<lambda>(i, ev). case ev_state_key ev of None \<Rightarrow> [] | Some sk \<Rightarrow> [(i, event_slot ev sk)])
      (ii_conflicted (sample_inputs keyless_conflict V2)))) = {#(''$t1'', (M_ROOM_TOPIC, [])), (''$t2'', (M_ROOM_TOPIC, []))#}"
    by (simp add: sample_inputs_def keyless_conflict_def sample_conflict_def sample_event_def event_slot_def state_slot_eq)
  moreover have "ii_version (sample_inputs keyless_conflict V2) \<noteq> V3" by (simp add: sample_inputs_def)
  ultimately show ?thesis using deltas_complete [OF keyless_inputs_ok, of None None] by metis
qed

theorem deltas_agree_witness:
  "\<exists>st ds. resolve_iterative_sort_with_cache_and_deltas (sample_inputs keyless_conflict V2) None None = Inr (st, ds) \<and>
    resolve_iterative_sort_with_cache (sample_inputs keyless_conflict V2) None None = Inr st"
  using deltas_agree [OF keyless_inputs_ok, of None None]
  by (simp add: sample_inputs_def)

section \<open>Screening\<close>

text \<open>With the hardening the two resolvers can differ: the plain resolver screens the senders once, against the
  state after the power phase, while the delta resolver screens each event against the state that the
  events before it have already changed. Below, the ban of a user is agreed; an invite and a join of that
  user, which do not cite the ban, replace it in the working state of the delta resolver, so that a state
  event of the banned user is accepted there.\<close>

definition banned_member :: "string \<Rightarrow> string \<Rightarrow> string \<Rightarrow> int \<Rightarrow> string list \<Rightarrow> string \<times> lean_event" where
  "banned_member i sender membership ts cited =
     (i, (sample_event i M_ROOM_MEMBER (Some user_b) sender (Object [(FIELD_MEMBERSHIP, String membership)]))
        \<lparr>ev_origin_server_ts := ts, ev_auth_events := cited\<rparr>)"

definition screening_inputs :: iterative_inputs where
  "screening_inputs =
     \<lparr>ii_unconflicted = map_of
        [((M_ROOM_CREATE, []), ''$create''), ((M_ROOM_MEMBER, user_a), ''$ma''), ((M_ROOM_POWER_LEVELS, []), ''$pl''),
         ((M_ROOM_MEMBER, user_b), ''$ban'')],
      ii_conflicted =
        [banned_member ''$inv'' user_a ''invite'' 1 [''$create'', ''$ma''],
         banned_member ''$join'' user_b MEM_JOIN 2 [''$create'', ''$inv''],
         (''$state'', (sample_event ''$state'' ''org.example.note'' (Some []) user_b (Object []))
            \<lparr>ev_origin_server_ts := 3, ev_auth_events := [''$create'', ''$join'']\<rparr>)],
      ii_auth_context =
        [(''$create'', sample_event ''$create'' M_ROOM_CREATE (Some []) user_a (Object [(''room_version'', String ''12'')])),
         (''$ma'', (sample_event ''$ma'' M_ROOM_MEMBER (Some user_a) user_a (Object [(FIELD_MEMBERSHIP, String MEM_JOIN)]))
            \<lparr>ev_auth_events := [''$create''], ev_prev_events := [''$create'']\<rparr>),
         (''$pl'', (sample_event ''$pl'' M_ROOM_POWER_LEVELS (Some []) user_a (Object [(''state_default'', Number ''0'')]))
            \<lparr>ev_auth_events := [''$create'', ''$ma'']\<rparr>),
         banned_member ''$ban'' user_a MEM_BAN 1 [''$create'', ''$ma'']],
      ii_version = V2_1_1, ii_empty_key = []\<rparr>"

lemma screening_differs:
  "inputs_ok screening_inputs"
  "(case resolve_iterative_sort_with_cache_and_deltas screening_inputs None None of
      Inr (st, _) \<Rightarrow> st (''org.example.note'', []) = Some ''$state'' | Inl _ \<Rightarrow> False)"
  "(case resolve_iterative_sort_with_cache screening_inputs None None of
      Inr st \<Rightarrow> st (''org.example.note'', []) = None | Inl _ \<Rightarrow> False)"
  by code_simp+

end
