(* ===== verification/Json_Parse.thy ===== *)
theory Json_Parse
  imports Canonical_Json
begin

text \<open>
  The recursive descent parser of \<open>rezzy-json\<close> (\<open>Parser\<close>, \<open>Value::parse\<close>, \<open>parse_strict\<close>,
  \<open>parse_located\<close>). The cursor of the parser is the list of the bytes not yet read; an error carries the
  bytes left when it was found, from which the offset of \<open>ParseError\<close> is computed. Text is a list of
  bytes and \<open>core::str::from_utf8\<close> is its validation as UTF-8. The three mutually recursive methods take
  fuel, one unit per call; without fuel the result is \<open>None\<close>.

  The rendering of finite floats is the third-party crate \<open>ryu\<close>: a parameter of the parser, applied to
  the sign and the magnitude of the value.
\<close>

section \<open>UTF-8\<close>

abbreviation byte :: "char \<Rightarrow> nat" where
  "byte c \<equiv> of_char c"

definition is_cont :: "char \<Rightarrow> bool" where
  "is_cont c \<longleftrightarrow> 0x80 \<le> byte c \<and> byte c \<le> 0xBF"

definition second_of_three :: "nat \<Rightarrow> char \<Rightarrow> bool" where
  "second_of_three a c \<longleftrightarrow>
     (if a = 0xE0 then 0xA0 \<le> byte c \<and> byte c \<le> 0xBF
      else if a = 0xED then 0x80 \<le> byte c \<and> byte c \<le> 0x9F
      else is_cont c)"

definition second_of_four :: "nat \<Rightarrow> char \<Rightarrow> bool" where
  "second_of_four a c \<longleftrightarrow>
     (if a = 0xF0 then 0x90 \<le> byte c \<and> byte c \<le> 0xBF
      else if a = 0xF4 then 0x80 \<le> byte c \<and> byte c \<le> 0x8F
      else is_cont c)"

fun utf8_valid :: "string \<Rightarrow> bool" where
  "utf8_valid [] = True"
| "utf8_valid (a # s) =
     (if byte a < 0x80 then utf8_valid s
      else if 0xC2 \<le> byte a \<and> byte a \<le> 0xDF
      then (case s of c # t \<Rightarrow> is_cont c \<and> utf8_valid t | [] \<Rightarrow> False)
      else if 0xE0 \<le> byte a \<and> byte a \<le> 0xEF
      then (case s of c # d # t \<Rightarrow> second_of_three (byte a) c \<and> is_cont d \<and> utf8_valid t | _ \<Rightarrow> False)
      else if 0xF0 \<le> byte a \<and> byte a \<le> 0xF4
      then (case s of c # d # e # t \<Rightarrow>
               second_of_four (byte a) c \<and> is_cont d \<and> is_cont e \<and> utf8_valid t
             | _ \<Rightarrow> False)
      else False)"

definition char_from_u32 :: "nat \<Rightarrow> nat option" where
  "char_from_u32 n = (if n < 0xD800 \<or> 0xE000 \<le> n \<and> n \<le> 0x10FFFF then Some n else None)"

definition encode_utf8 :: "nat \<Rightarrow> string" where
  "encode_utf8 n =
     (if n < 0x80 then [char_of n]
      else if n < 0x800 then [char_of (0xC0 + n div 64), char_of (0x80 + n mod 64)]
      else if n < 0x10000
      then [char_of (0xE0 + n div 4096), char_of (0x80 + n div 64 mod 64), char_of (0x80 + n mod 64)]
      else [char_of (0xF0 + n div 262144), char_of (0x80 + n div 4096 mod 64),
            char_of (0x80 + n div 64 mod 64), char_of (0x80 + n mod 64)])"

section \<open>Scalars\<close>

datatype json_error =
    UnexpectedEnd | InvalidToken | InvalidNumber | InvalidString | InvalidEscape
  | TrailingCharacters | DepthLimitExceeded | DuplicateKey

type_synonym 'a parsed = "(json_error \<times> string, 'a \<times> string) result"

definition is_ascii_whitespace :: "char \<Rightarrow> bool" where
  "is_ascii_whitespace c \<longleftrightarrow> byte c \<in> {9, 10, 12, 13, 32}"

definition skip_ws :: "string \<Rightarrow> string" where
  "skip_ws rest = dropWhile is_ascii_whitespace rest"

definition word :: "string \<Rightarrow> 'a \<Rightarrow> string \<Rightarrow> 'a parsed" where
  "word expected v rest =
     (if take (length expected) rest = expected then Inr (v, drop (length expected) rest)
      else Inl (InvalidToken, rest))"

definition simple_escape :: "char \<Rightarrow> char option" where
  "simple_escape c =
     (if byte c = 34 then Some (CHR 0x22)
      else if byte c = 92 then Some (CHR 0x5C)
      else if c = CHR ''/'' then Some (CHR ''/'')
      else if c = CHR ''b'' then Some (CHR 0x08)
      else if c = CHR ''f'' then Some (CHR 0x0C)
      else if c = CHR ''n'' then Some (CHR 0x0A)
      else if c = CHR ''r'' then Some (CHR 0x0D)
      else if c = CHR ''t'' then Some (CHR 0x09)
      else None)"

definition hex_value :: "char \<Rightarrow> nat option" where
  "hex_value c =
     (let n = byte c
      in if 48 \<le> n \<and> n \<le> 57 then Some (n - 48)
         else if 97 \<le> n \<and> n \<le> 102 then Some (n - 87)
         else if 65 \<le> n \<and> n \<le> 70 then Some (n - 55)
         else None)"

fun hex_digits :: "nat \<Rightarrow> nat \<Rightarrow> string \<Rightarrow> nat parsed" where
  "hex_digits 0 n rest = Inr (n, rest)"
| "hex_digits (Suc k) n [] = Inl (UnexpectedEnd, [])"
| "hex_digits (Suc k) n (c # rest) = (case hex_value c of
       None \<Rightarrow> Inl (InvalidEscape, rest)
     | Some d \<Rightarrow> hex_digits k (n * 16 + d) rest)"

definition hex4 :: "string \<Rightarrow> nat parsed" where
  "hex4 rest = hex_digits 4 0 rest"

definition finish_escape :: "nat \<Rightarrow> string \<Rightarrow> string parsed" where
  "finish_escape scalar rest = (case char_from_u32 scalar of
       None \<Rightarrow> Inl (InvalidEscape, rest)
     | Some n \<Rightarrow> Inr (encode_utf8 n, rest))"

definition unicode_escape :: "string \<Rightarrow> string parsed" where
  "unicode_escape rest = rbind (hex4 rest) (\<lambda>(high, rest1).
     if 0xD800 \<le> high \<and> high \<le> 0xDBFF
     then (if take 2 rest1 \<noteq> [CHR 0x5C, CHR ''u''] then Inl (InvalidEscape, rest1)
           else rbind (hex4 (drop 2 rest1)) (\<lambda>(low, rest2).
             if \<not> (0xDC00 \<le> low \<and> low \<le> 0xDFFF) then Inl (InvalidEscape, rest2)
             else finish_escape (0x10000 + (high - 0xD800) * 1024 + (low - 0xDC00)) rest2))
     else finish_escape high rest1)"

lemma hex_digits_length: "hex_digits k n rest = Inr (m, rest') \<Longrightarrow> length rest = k + length rest'"
  by (induction k n rest rule: hex_digits.induct) (auto split: option.splits)

lemma unicode_escape_length: "unicode_escape rest = Inr (cs, rest') \<Longrightarrow> length rest' < length rest"
  by (auto simp: unicode_escape_def hex4_def finish_escape_def dest!: hex_digits_length split: if_splits option.splits)

definition plain_byte :: "char \<Rightarrow> bool" where
  "plain_byte c \<longleftrightarrow> c \<noteq> CHR 0x22 \<and> c \<noteq> CHR 0x5C \<and> \<not> byte c < 0x20"

text \<open>The slow path, from the first escape on: the text so far, the run since the last escape and the
  bytes left.\<close>

function string_loop :: "string \<Rightarrow> string \<Rightarrow> string \<Rightarrow> string parsed" where
  "string_loop out run [] = Inl (UnexpectedEnd, [])"
| "string_loop out run (c # rest) =
     (if c = CHR 0x22
      then (if utf8_valid run then Inr (out @ run, rest) else Inl (InvalidString, c # rest))
      else if c = CHR 0x5C
      then (if \<not> utf8_valid run then Inl (InvalidString, c # rest)
            else (case rest of
                [] \<Rightarrow> Inl (UnexpectedEnd, [])
              | esc # rest1 \<Rightarrow>
                  if esc = CHR ''u''
                  then (case unicode_escape rest1 of
                      Inl e \<Rightarrow> Inl e
                    | Inr (cs, rest2) \<Rightarrow> string_loop (out @ run @ cs) [] rest2)
                  else (case simple_escape esc of
                      None \<Rightarrow> Inl (InvalidEscape, rest1)
                    | Some ch \<Rightarrow> string_loop (out @ run @ [ch]) [] rest1)))
      else if byte c < 0x20 then Inl (InvalidString, c # rest)
      else string_loop out (run @ [c]) rest)"
  by pat_completeness auto
termination
  by (relation "measure (\<lambda>(out, run, rest). length rest)") (auto dest!: unicode_escape_length)

definition parse_string :: "string \<Rightarrow> string parsed" where
  "parse_string rest =
     (let start = tl rest;
          run = takeWhile plain_byte start;
          after = dropWhile plain_byte start
      in case after of
           [] \<Rightarrow> Inl (UnexpectedEnd, start)
         | c # t \<Rightarrow>
             if \<not> utf8_valid run then Inl (InvalidString, start)
             else if c = CHR 0x22 then Inr (run, t)
             else string_loop run [] after)"

section \<open>Numbers\<close>

definition is_number_byte :: "char \<Rightarrow> bool" where
  "is_number_byte c \<longleftrightarrow> c \<in> {CHR ''-'', CHR ''+'', CHR ''.'', CHR ''e'', CHR ''E''} \<or> is_digit c"

definition skip_digits :: "string \<Rightarrow> string" where
  "skip_digits s = dropWhile is_digit s"

definition valid_exponent :: "string \<Rightarrow> bool" where
  "valid_exponent s = (case s of
       [] \<Rightarrow> True
     | c # t \<Rightarrow>
         if c = CHR ''e'' \<or> c = CHR ''E''
         then (let u = (case t of d # t1 \<Rightarrow> if d = CHR ''+'' \<or> d = CHR ''-'' then t1 else t | [] \<Rightarrow> t)
               in skip_digits u \<noteq> u \<and> skip_digits u = [])
         else False)"

definition valid_fraction :: "string \<Rightarrow> bool" where
  "valid_fraction s = (case s of
       [] \<Rightarrow> valid_exponent s
     | c # t \<Rightarrow>
         if c = CHR ''.'' then skip_digits t \<noteq> t \<and> valid_exponent (skip_digits t)
         else valid_exponent s)"

definition valid_number :: "string \<Rightarrow> bool" where
  "valid_number s =
     (let b = (case strip_prefix CHR ''-'' s of Some t \<Rightarrow> t | None \<Rightarrow> s)
      in case b of
           [] \<Rightarrow> False
         | c # t \<Rightarrow>
             if c = CHR ''0'' then valid_fraction t
             else if is_digit c then valid_fraction (skip_digits t)
             else False)"

type_synonym float_format = "bool \<Rightarrow> f64 \<Rightarrow> string"

definition normalize_exponent :: "string \<Rightarrow> string" where
  "normalize_exponent formatted = (case split_once CHR ''e'' formatted of
       None \<Rightarrow> formatted
     | Some (hd_part, rest) \<Rightarrow>
         if starts_with CHR ''-'' rest then formatted else hd_part @ ''e+'' @ rest)"

definition number_parse :: "float_format \<Rightarrow> string \<Rightarrow> string" where
  "number_parse format_finite source =
     (if source = ''-0'' then ''-0.0''
      else if \<not> (CHR ''.'' \<in> set source \<or> CHR ''e'' \<in> set source \<or> CHR ''E'' \<in> set source) then source
      else (case parse_f64 source of
          Some value \<Rightarrow> normalize_exponent (format_finite (starts_with CHR ''-'' source) value)
        | None \<Rightarrow> source))"

definition parse_number :: "float_format \<Rightarrow> string \<Rightarrow> json parsed" where
  "parse_number fmt rest =
     (let s = takeWhile is_number_byte rest;
          after = dropWhile is_number_byte rest
      in if \<not> utf8_valid s then Inl (InvalidNumber, after)
         else if \<not> valid_number s then Inl (InvalidNumber, after)
         else Inr (Number (number_parse fmt s), after))"

section \<open>Values\<close>

definition MAX_DEPTH :: nat where
  "MAX_DEPTH = 128"

type_synonym 'a reader = "'a \<Rightarrow> string \<Rightarrow> json parsed option"

text \<open>The bodies of \<open>value\<close>, \<open>array\<close> and \<open>object\<close>, with the methods they call as arguments.\<close>

definition array_start :: "json list reader \<Rightarrow> string \<Rightarrow> json parsed option" where
  "array_start loop rest = (case skip_ws rest of
       [] \<Rightarrow> loop [] []
     | c # t \<Rightarrow> if c = CHR '']'' then Some (Inr (Array [], t)) else loop [] (c # t))"

definition object_start :: "(string \<times> json) list reader \<Rightarrow> string \<Rightarrow> json parsed option" where
  "object_start loop rest = (case skip_ws rest of
       [] \<Rightarrow> loop [] []
     | c # t \<Rightarrow> if c = CHR ''}'' then Some (Inr (Object [], t)) else loop [] (c # t))"

definition value_body ::
  "float_format \<Rightarrow> nat \<Rightarrow> (nat \<Rightarrow> json list reader) \<Rightarrow> (nat \<Rightarrow> (string \<times> json) list reader) \<Rightarrow>
   string \<Rightarrow> json parsed option" where
  "value_body fmt depth array_reader object_reader rest = (case skip_ws rest of
       [] \<Rightarrow> Some (Inl (UnexpectedEnd, []))
     | c # t \<Rightarrow>
         if c = CHR ''n'' then Some (word ''null'' Null (c # t))
         else if c = CHR ''t'' then Some (word ''true'' (Bool True) (c # t))
         else if c = CHR ''f'' then Some (word ''false'' (Bool False) (c # t))
         else if c = CHR 0x22 then Some (rbind (parse_string (c # t)) (\<lambda>(s, r). Inr (String s, r)))
         else if c = CHR ''['' then
           (if MAX_DEPTH \<le> depth then Some (Inl (DepthLimitExceeded, c # t))
            else array_start (array_reader (depth + 1)) t)
         else if c = CHR ''{'' then
           (if MAX_DEPTH \<le> depth then Some (Inl (DepthLimitExceeded, c # t))
            else object_start (object_reader (depth + 1)) t)
         else if c = CHR ''-'' \<or> is_digit c then Some (parse_number fmt (c # t))
         else Some (Inl (InvalidToken, c # t)))"

definition array_body ::
  "(string \<Rightarrow> json parsed option) \<Rightarrow> json list reader \<Rightarrow> json list \<Rightarrow> string \<Rightarrow> json parsed option" where
  "array_body value_reader loop values rest = (case value_reader rest of
       None \<Rightarrow> None
     | Some (Inl e) \<Rightarrow> Some (Inl e)
     | Some (Inr (v, rest1)) \<Rightarrow>
         (case skip_ws rest1 of
            [] \<Rightarrow> Some (Inl (InvalidToken, []))
          | c # t \<Rightarrow>
              if c = CHR '','' then loop (values @ [v]) t
              else if c = CHR '']'' then Some (Inr (Array (values @ [v]), t))
              else Some (Inl (InvalidToken, c # t))))"

definition object_body ::
  "bool \<Rightarrow> (string \<Rightarrow> json parsed option) \<Rightarrow> (string \<times> json) list reader \<Rightarrow> (string \<times> json) list \<Rightarrow> string \<Rightarrow>
   json parsed option" where
  "object_body strict value_reader loop values rest =
     (if \<not> starts_with CHR 0x22 (skip_ws rest) then Some (Inl (InvalidToken, skip_ws rest))
      else (case parse_string (skip_ws rest) of
          Inl e \<Rightarrow> Some (Inl e)
        | Inr (key, rest1) \<Rightarrow>
            if \<not> starts_with CHR '':'' (skip_ws rest1) then Some (Inl (InvalidToken, skip_ws rest1))
            else (case value_reader (tl (skip_ws rest1)) of
                None \<Rightarrow> None
              | Some (Inl e) \<Rightarrow> Some (Inl e)
              | Some (Inr (v, rest2)) \<Rightarrow>
                  if map_of values key \<noteq> None \<and> strict then Some (Inl (DuplicateKey, rest2))
                  else (case skip_ws rest2 of
                      [] \<Rightarrow> Some (Inl (InvalidToken, []))
                    | c # t \<Rightarrow>
                        if c = CHR '','' then loop (bm_insert key v values) t
                        else if c = CHR ''}'' then Some (Inr (Object (bm_insert key v values), t))
                        else Some (Inl (InvalidToken, c # t))))))"

fun parser_value :: "float_format \<Rightarrow> nat \<Rightarrow> bool \<Rightarrow> nat \<Rightarrow> string \<Rightarrow> json parsed option"
and array_loop :: "float_format \<Rightarrow> nat \<Rightarrow> bool \<Rightarrow> nat \<Rightarrow> json list reader"
and object_loop :: "float_format \<Rightarrow> nat \<Rightarrow> bool \<Rightarrow> nat \<Rightarrow> (string \<times> json) list reader"
where
  "parser_value fmt 0 strict depth rest = None"
| "parser_value fmt (Suc fuel) strict depth rest =
     value_body fmt depth (array_loop fmt fuel strict) (object_loop fmt fuel strict) rest"
| "array_loop fmt 0 strict depth values rest = None"
| "array_loop fmt (Suc fuel) strict depth values rest =
     array_body (parser_value fmt fuel strict depth) (array_loop fmt fuel strict depth) values rest"
| "object_loop fmt 0 strict depth values rest = None"
| "object_loop fmt (Suc fuel) strict depth values rest =
     object_body strict (parser_value fmt fuel strict depth) (object_loop fmt fuel strict depth) values rest"

definition parse_fuel :: "string \<Rightarrow> nat" where
  "parse_fuel rest = 2 * length rest + 1"

definition parse_scalar_with ::
  "float_format \<Rightarrow> string \<Rightarrow> bool \<Rightarrow> (json_error \<times> nat, json) result option" where
  "parse_scalar_with fmt input strict =
     map_option (\<lambda>r. case r of
         Inl (e, rest) \<Rightarrow> Inl (e, length input - length rest)
       | Inr (v, rest) \<Rightarrow>
           if skip_ws rest \<noteq> [] then Inl (TrailingCharacters, length input - length (skip_ws rest))
           else Inr v)
       (parser_value fmt (parse_fuel input) strict 0 input)"

definition parse :: "float_format \<Rightarrow> string \<Rightarrow> (json_error, json) result option" where
  "parse fmt input = map_option (map_err fst) (parse_scalar_with fmt input False)"

definition parse_strict :: "float_format \<Rightarrow> string \<Rightarrow> (json_error, json) result option" where
  "parse_strict fmt input = map_option (map_err fst) (parse_scalar_with fmt input True)"

definition parse_located :: "float_format \<Rightarrow> string \<Rightarrow> (json_error \<times> nat, json) result option" where
  "parse_located fmt input = parse_scalar_with fmt input False"

definition parse_bytes :: "float_format \<Rightarrow> string \<Rightarrow> (json_error, json) result option" where
  "parse_bytes fmt input = map_option (map_err fst) (parse_scalar_with fmt input False)"

end
