(* ===== verification/Json_Parse_Correct.thy ===== *)
theory Json_Parse_Correct
  imports Json_Parse
begin

text \<open>
  Correctness of the JSON parser: every step reads at least one byte, so that two units of fuel per byte
  are enough; what is accepted is well formed; and the canonical text of a value is read back as the value.
\<close>

section \<open>Progress\<close>

lemma skip_ws_length: "length (skip_ws rest) \<le> length rest"
  unfolding skip_ws_def by (rule length_dropWhile_le)

lemma word_shorter: "word e v rest = Inr (w, r) \<Longrightarrow> e \<noteq> [] \<Longrightarrow> length r < length rest"
  by (cases e; cases rest) (auto simp: word_def split: if_splits)

lemma string_loop_shorter: "string_loop out run rest = Inr (s, r) \<Longrightarrow> length r < length rest"
proof (induction out run rest rule: string_loop.induct)
  case (2 out run c rest)
  consider "c = CHR 0x22" | "c = CHR 0x5C" "rest = []"
    | e t where "c = CHR 0x5C" "rest = e # t" "e = CHR ''u''" | e t where "c = CHR 0x5C" "rest = e # t" "e \<noteq> CHR ''u''"
    | "c \<noteq> CHR 0x22" "c \<noteq> CHR 0x5C"
    by (metis neq_Nil_conv)
  then show ?case
  proof cases
    case 3
    with 2(4) obtain cs t2 where u: "unicode_escape t = Inr (cs, t2)"
      and l: "string_loop (out @ run @ cs) [] t2 = Inr (s, r)" and v: "utf8_valid run"
      by (auto split: if_splits sum.splits)
    have "length r < length t2" by (rule 2(1) [of e t "(cs, t2)" cs t2]) (use 3 u l v in auto)
    with unicode_escape_length [OF u] 3 show ?thesis by simp
  next
    case 4
    with 2(4) obtain ch where u: "simple_escape e = Some ch"
      and l: "string_loop (out @ run @ [ch]) [] t = Inr (s, r)" and v: "utf8_valid run"
      by (auto split: if_splits option.splits)
    have "length r < length t" by (rule 2(2) [of e t ch]) (use 4 u l v in auto)
    with 4 show ?thesis by simp
  next
    case 5
    with 2(4) have l: "string_loop out (run @ [c]) rest = Inr (s, r)" and n: "\<not> byte c < 0x20"
      by (auto split: if_splits)
    have "length r < length rest" by (rule 2(3)) (use 5 l n in auto)
    then show ?thesis by simp
  qed (use 2(4) in \<open>auto split: if_splits\<close>)
qed simp

lemma parse_string_cases:
  assumes "parse_string (c # t) = Inr (s, r)"
  obtains (plain) "t = s @ CHR 0x22 # r" "utf8_valid s"
    | (slow) run after where "t = run @ after" "utf8_valid run" "string_loop run [] after = Inr (s, r)"
proof -
  have t: "takeWhile plain_byte t @ dropWhile plain_byte t = t" by simp
  from assms obtain d u where d: "dropWhile plain_byte t = d # u" and v: "utf8_valid (takeWhile plain_byte t)"
    by (auto simp: parse_string_def Let_def split: list.splits if_splits)
  show thesis
  proof (cases "d = CHR 0x22")
    case True
    with assms d v have "s = takeWhile plain_byte t" "r = u" by (simp_all add: parse_string_def Let_def)
    with plain t d v True show thesis by simp
  next
    case False
    with assms d v have "string_loop (takeWhile plain_byte t) [] (d # u) = Inr (s, r)"
      by (simp add: parse_string_def Let_def)
    with slow t d v show thesis by metis
  qed
qed

lemma parse_string_shorter:
  assumes "parse_string (c # t) = Inr (s, r)"
  shows "length r < length (c # t)"
  using assms by (cases rule: parse_string_cases) (auto dest: string_loop_shorter)

lemma parse_number_shorter:
  assumes "parse_number fmt (c # t) = Inr (v, r)" "is_number_byte c"
  shows "length r < length (c # t)"
  using assms length_dropWhile_le [of is_number_byte t]
  by (auto simp: parse_number_def Let_def split: if_splits)

definition shortens :: "'a reader \<Rightarrow> bool" where
  "shortens m \<longleftrightarrow> (\<forall>x rest v r. m x rest = Some (Inr (v, r)) \<longrightarrow> length r < length rest)"

lemma shortensD: "shortens m \<Longrightarrow> m x rest = Some (Inr (v, r)) \<Longrightarrow> length r < length rest"
  by (simp add: shortens_def)

text \<open>The ways in which each method can succeed.\<close>

lemma array_start_cases:
  assumes "array_start m rest = Some (Inr (v, r))"
  obtains (empty) "skip_ws rest = CHR '']'' # r" "v = Array []" | (loop) "m [] (skip_ws rest) = Some (Inr (v, r))"
  using assms unfolding array_start_def by (auto split: list.splits if_splits)

lemma object_start_cases:
  assumes "object_start m rest = Some (Inr (v, r))"
  obtains (empty) "skip_ws rest = CHR ''}'' # r" "v = Object []" | (loop) "m [] (skip_ws rest) = Some (Inr (v, r))"
  using assms unfolding object_start_def by (auto split: list.splits if_splits)

lemma value_body_cases:
  assumes "value_body fmt depth am om rest = Some (Inr (v, r))"
  obtains (word) c t e where "skip_ws rest = c # t" "word e v (c # t) = Inr (v, r)" "e \<noteq> []" "v \<in> {Null, Bool True, Bool False}"
    | (string) c t s where "skip_ws rest = c # t" "parse_string (c # t) = Inr (s, r)" "v = String s"
    | (array) c t where "skip_ws rest = c # t" "depth < MAX_DEPTH" "array_start (am (depth + 1)) t = Some (Inr (v, r))"
    | (object) c t where "skip_ws rest = c # t" "depth < MAX_DEPTH" "object_start (om (depth + 1)) t = Some (Inr (v, r))"
    | (number) c t where "skip_ws rest = c # t" "is_number_byte c" "parse_number fmt (c # t) = Inr (v, r)"
proof -
  from assms obtain c t where s: "skip_ws rest = c # t" by (auto simp: value_body_def split: list.splits)
  have w: "x = v" if "word e x (c # t) = Inr (v, r)" for e x using that by (auto simp: word_def split: if_splits)
  note b = assms [unfolded value_body_def s list.case]
  consider "c = CHR ''n''" | "c = CHR ''t''" | "c = CHR ''f''" | "c = CHR 0x22" | "c = CHR ''[''" | "c = CHR ''{''"
    | "c \<notin> {CHR ''n'', CHR ''t'', CHR ''f'', CHR 0x22, CHR ''['', CHR ''{''}" by blast
  then show thesis
  proof cases
    case 1
    with b have x: "word ''null'' Null (c # t) = Inr (v, r)" by simp
    with w [OF x] show thesis by (intro word [OF s, of "''null''"]) auto
  next
    case 2
    with b have x: "word ''true'' (Bool True) (c # t) = Inr (v, r)" by simp
    with w [OF x] show thesis by (intro word [OF s, of "''true''"]) auto
  next
    case 3
    with b have x: "word ''false'' (Bool False) (c # t) = Inr (v, r)" by simp
    with w [OF x] show thesis by (intro word [OF s, of "''false''"]) auto
  next
    case 4
    with b show thesis by (auto intro: string [OF s])
  next
    case 5
    with b show thesis by (auto intro: array [OF s] split: if_splits)
  next
    case 6
    with b show thesis by (auto intro: object [OF s] split: if_splits)
  next
    case 7
    then have "(if c = CHR ''-'' \<or> is_digit c then Some (parse_number fmt (c # t)) else Some (Inl (InvalidToken, c # t)))
        = Some (Inr (v, r))" using b by simp
    then show thesis by (intro number [OF s]) (auto simp: is_number_byte_def split: if_splits)
  qed
qed

lemma array_body_cases:
  assumes "array_body vm m values rest = Some (Inr (v, r))"
  obtains (more) w r1 t where "vm rest = Some (Inr (w, r1))" "skip_ws r1 = CHR '','' # t"
      "m (values @ [w]) t = Some (Inr (v, r))"
    | (last) w r1 where "vm rest = Some (Inr (w, r1))" "skip_ws r1 = CHR '']'' # r" "v = Array (values @ [w])"
  using assms unfolding array_body_def by (auto split: option.splits sum.splits list.splits if_splits)

lemma object_body_cases:
  assumes "object_body strict vm m values rest = Some (Inr (v, r))"
  obtains (more) ks key r1 ts w r2 t where "skip_ws rest = CHR 0x22 # ks" "parse_string (CHR 0x22 # ks) = Inr (key, r1)"
      "skip_ws r1 = CHR '':'' # ts" "vm ts = Some (Inr (w, r2))" "strict \<Longrightarrow> map_of values key = None"
      "skip_ws r2 = CHR '','' # t" "m (bm_insert key w values) t = Some (Inr (v, r))"
    | (last) ks key r1 ts w r2 where "skip_ws rest = CHR 0x22 # ks" "parse_string (CHR 0x22 # ks) = Inr (key, r1)"
      "skip_ws r1 = CHR '':'' # ts" "vm ts = Some (Inr (w, r2))" "strict \<Longrightarrow> map_of values key = None"
      "skip_ws r2 = CHR ''}'' # r" "v = Object (bm_insert key w values)"
proof -
  from assms obtain ks where ks: "skip_ws rest = CHR 0x22 # ks"
    by (auto simp: object_body_def starts_with_def split: list.splits if_splits)
  note b = assms [unfolded object_body_def ks]
  from b obtain key r1 where k: "parse_string (CHR 0x22 # ks) = Inr (key, r1)"
    by (auto simp: starts_with_def split: sum.splits)
  from b k obtain ts where ts: "skip_ws r1 = CHR '':'' # ts"
    by (auto simp: starts_with_def split: list.splits if_splits)
  from b k ts obtain w r2 where w: "vm ts = Some (Inr (w, r2))"
    by (auto simp: starts_with_def split: option.splits sum.splits)
  from b k ts w have dup: "strict \<Longrightarrow> map_of values key = None"
    by (auto simp: starts_with_def split: if_splits)
  from b k ts w have "(case skip_ws r2 of [] \<Rightarrow> Some (Inl (InvalidToken, []))
      | c # t \<Rightarrow> if c = CHR '','' then m (bm_insert key w values) t
                 else if c = CHR ''}'' then Some (Inr (Object (bm_insert key w values), t))
                 else Some (Inl (InvalidToken, c # t))) = Some (Inr (v, r))"
    by (auto simp: starts_with_def split: if_splits)
  then show thesis
    by (auto split: list.splits if_splits intro: more [OF ks k ts w dup] last [OF ks k ts w dup])
qed

lemma array_start_shorter:
  assumes "shortens m" "array_start m rest = Some (Inr (v, r))"
  shows "length r < Suc (length rest)"
  using assms(2)
proof (cases rule: array_start_cases)
  case empty
  then show ?thesis using skip_ws_length [of rest] by simp
next
  case loop
  from shortensD [OF assms(1) loop] skip_ws_length [of rest] show ?thesis by linarith
qed

lemma object_start_shorter:
  assumes "shortens m" "object_start m rest = Some (Inr (v, r))"
  shows "length r < Suc (length rest)"
  using assms(2)
proof (cases rule: object_start_cases)
  case empty
  then show ?thesis using skip_ws_length [of rest] by simp
next
  case loop
  from shortensD [OF assms(1) loop] skip_ws_length [of rest] show ?thesis by linarith
qed

lemma value_body_shorter:
  assumes am: "\<And>d. shortens (am d)" and om: "\<And>d. shortens (om d)"
    and "value_body fmt depth am om rest = Some (Inr (v, r))"
  shows "length r < length rest"
  using assms(3)
proof (cases rule: value_body_cases)
  case (word c t e)
  from word_shorter [OF word(2,3)] word(1) skip_ws_length [of rest] show ?thesis by simp
next
  case (string c t s)
  from parse_string_shorter [OF string(2)] string(1) skip_ws_length [of rest] show ?thesis by simp
next
  case (array c t)
  from array_start_shorter [OF am array(3)] array(1) skip_ws_length [of rest] show ?thesis by simp
next
  case (object c t)
  from object_start_shorter [OF om object(3)] object(1) skip_ws_length [of rest] show ?thesis by simp
next
  case (number c t)
  from parse_number_shorter [OF number(3,2)] number(1) skip_ws_length [of rest] show ?thesis by simp
qed

lemma array_body_shorter:
  assumes vm: "\<And>rest v r. vm rest = Some (Inr (v, r)) \<Longrightarrow> length r < length rest" and m: "shortens m"
    and "array_body vm m values rest = Some (Inr (v, r))"
  shows "length r < length rest"
  using assms(3)
proof (cases rule: array_body_cases)
  case (more w r1 t)
  from vm [OF more(1)] shortensD [OF m more(3)] skip_ws_length [of r1] more(2) show ?thesis by simp
next
  case (last w r1)
  from vm [OF last(1)] skip_ws_length [of r1] last(2) show ?thesis by simp
qed

lemma object_body_shorter:
  assumes vm: "\<And>rest v r. vm rest = Some (Inr (v, r)) \<Longrightarrow> length r < length rest" and m: "shortens m"
    and "object_body strict vm m values rest = Some (Inr (v, r))"
  shows "length r < length rest"
  using assms(3)
proof (cases rule: object_body_cases)
  case (more ks key r1 ts w r2 t)
  from vm [OF more(4)] shortensD [OF m more(7)] parse_string_shorter [OF more(2)] more(1,3,6)
    skip_ws_length [of r1] skip_ws_length [of r2] skip_ws_length [of rest] show ?thesis by simp
next
  case (last ks key r1 ts w r2)
  from vm [OF last(4)] parse_string_shorter [OF last(2)] last(1,3,6)
    skip_ws_length [of r1] skip_ws_length [of r2] skip_ws_length [of rest] show ?thesis by simp
qed

lemma parser_shorter:
  "(parser_value fmt fuel strict depth rest = Some (Inr (v, r)) \<longrightarrow> length r < length rest) \<and>
   shortens (array_loop fmt fuel strict depth) \<and> shortens (object_loop fmt fuel strict depth)"
proof (induction fuel arbitrary: strict depth rest v r)
  case 0
  show ?case by (simp add: shortens_def)
next
  case (Suc fuel)
  then have vm: "\<And>d rest v r. parser_value fmt fuel strict d rest = Some (Inr (v, r)) \<Longrightarrow> length r < length rest"
    and a: "\<And>d. shortens (array_loop fmt fuel strict d)" and o: "\<And>d. shortens (object_loop fmt fuel strict d)"
    by blast+
  show ?case
    using value_body_shorter [OF a o] array_body_shorter [OF vm a] object_body_shorter [OF vm o]
    unfolding shortens_def by simp
qed

section \<open>Termination\<close>

lemma array_body_returns:
  assumes "vm rest \<noteq> None" "\<And>w r1 vs t. vm rest = Some (Inr (w, r1)) \<Longrightarrow> length t < length r1 \<Longrightarrow> m vs t \<noteq> None"
  shows "array_body vm m values rest \<noteq> None"
proof (cases "vm rest")
  case (Some res)
  show ?thesis
  proof (cases res)
    case (Inr p)
    obtain w r1 where p: "p = (w, r1)" by (cases p)
    have "m vs t \<noteq> None" if "skip_ws r1 = c # t" for vs c t
      using assms(2) [of w r1 t vs] Some Inr p that skip_ws_length [of r1] by simp
    then show ?thesis using Some Inr p by (auto simp: array_body_def split: list.split)
  qed (use Some in \<open>simp add: array_body_def\<close>)
qed (use assms(1) in simp)

lemma object_body_returns:
  assumes "\<And>ts. length ts < length rest \<Longrightarrow> vm ts \<noteq> None"
    and "\<And>ts w r2 vs t. vm ts = Some (Inr (w, r2)) \<Longrightarrow> length ts < length rest \<Longrightarrow> length t < length r2 \<Longrightarrow> m vs t \<noteq> None"
  shows "object_body strict vm m values rest \<noteq> None"
proof (cases "starts_with CHR 0x22 (skip_ws rest)")
  case q: True
  then obtain ks where ks: "skip_ws rest = CHR 0x22 # ks" by (auto simp: starts_with_def split: list.splits)
  show ?thesis
  proof (cases "parse_string (skip_ws rest)")
    case (Inr p)
    obtain key r1 where p: "p = (key, r1)" by (cases p)
    show ?thesis
    proof (cases "starts_with CHR '':'' (skip_ws r1)")
      case True
      then obtain ts where ts: "skip_ws r1 = CHR '':'' # ts" by (auto simp: starts_with_def split: list.splits)
      have len: "length ts < length rest"
        using parse_string_shorter [of "CHR 0x22" ks key r1] Inr p ks ts skip_ws_length [of rest] skip_ws_length [of r1]
        by simp
      from assms(1) [OF len] obtain res where res: "vm ts = Some res" by auto
      show ?thesis
      proof (cases res)
        case (Inr q)
        obtain w r2 where "q = (w, r2)" by (cases q)
        with Inr res have w: "vm ts = Some (Inr (w, r2))" by simp
        have "m vs t \<noteq> None" if "skip_ws r2 = c # t" for vs c t
          using assms(2) [OF w len, of t vs] that skip_ws_length [of r2] by simp
        then show ?thesis using q \<open>parse_string (skip_ws rest) = Inr p\<close> p True ts w
          by (auto simp: object_body_def split: list.split)
      qed (use q Inr p True ts res in \<open>simp add: object_body_def\<close>)
    qed (use q Inr p in \<open>simp add: object_body_def\<close>)
  qed (use q in \<open>simp add: object_body_def\<close>)
qed (simp add: object_body_def)

lemma value_body_returns:
  assumes "\<And>d vs t. length t < length rest \<Longrightarrow> am d vs t \<noteq> None" "\<And>d vs t. length t < length rest \<Longrightarrow> om d vs t \<noteq> None"
  shows "value_body fmt depth am om rest \<noteq> None"
proof (cases "skip_ws rest")
  case (Cons c t)
  have "length (skip_ws t) < length rest" using Cons skip_ws_length [of rest] skip_ws_length [of t] by simp
  then have "array_start (am d) t \<noteq> None" "object_start (om d) t \<noteq> None" for d
    using assms(1) [of "skip_ws t" d "[]"] assms(2) [of "skip_ws t" d "[]"]
    by (auto simp: array_start_def object_start_def split: list.split)
  with Cons show ?thesis by (simp add: value_body_def)
qed (simp add: value_body_def)

lemma parser_returns:
  "(2 * length rest + 1 \<le> fuel \<longrightarrow> parser_value fmt fuel strict depth rest \<noteq> None) \<and>
   (2 * length rest + 2 \<le> fuel \<longrightarrow>
      array_loop fmt fuel strict depth vs rest \<noteq> None \<and> object_loop fmt fuel strict depth ms rest \<noteq> None)"
proof (induction fuel arbitrary: depth rest vs ms)
  case (Suc fuel)
  note v = Suc [THEN conjunct1, THEN mp] and l = Suc [THEN conjunct2, THEN mp]
  have sh: "parser_value fmt fuel strict d ts = Some (Inr (w, r)) \<Longrightarrow> length r < length ts" for d ts w r
    using parser_shorter [of fmt fuel strict d ts w r] by blast
  have "parser_value fmt (Suc fuel) strict depth rest \<noteq> None" if "2 * length rest + 1 \<le> Suc fuel"
    unfolding parser_value.simps by (rule value_body_returns) (use l that in auto)
  moreover have "array_loop fmt (Suc fuel) strict depth vs rest \<noteq> None" if f: "2 * length rest + 2 \<le> Suc fuel"
    unfolding array_loop.simps
  proof (rule array_body_returns)
    show "parser_value fmt fuel strict depth rest \<noteq> None" using v f by simp
    fix w r1 ws and t :: string assume "parser_value fmt fuel strict depth rest = Some (Inr (w, r1))" "length t < length r1"
    with sh have "length t < length rest" by (meson less_trans)
    then show "array_loop fmt fuel strict depth ws t \<noteq> None" using l f by simp
  qed
  moreover have "object_loop fmt (Suc fuel) strict depth ms rest \<noteq> None" if f: "2 * length rest + 2 \<le> Suc fuel"
    unfolding object_loop.simps
  proof (rule object_body_returns)
    fix ts :: string assume "length ts < length rest"
    then show "parser_value fmt fuel strict depth ts \<noteq> None" using v f by simp
  next
    fix ts w r2 ws and t :: string assume "parser_value fmt fuel strict depth ts = Some (Inr (w, r2))"
      "length ts < length rest" "length t < length r2"
    with sh have "length t < length rest" by (meson less_trans)
    then show "object_loop fmt fuel strict depth ws t \<noteq> None" using l f by simp
  qed
  ultimately show ?case by blast
qed simp

section \<open>UTF-8 text\<close>

lemma not_cont_ascii: "byte c < 0x80 \<Longrightarrow> \<not> is_cont c \<and> \<not> second_of_three a c \<and> \<not> second_of_four a c"
  by (auto simp: is_cont_def second_of_three_def second_of_four_def)

declare utf8_valid.simps(2) [simp del]

lemma utf8_valid_one [simp]: "byte a < 0x80 \<Longrightarrow> utf8_valid (a # s) = utf8_valid s"
  by (simp add: utf8_valid.simps(2))

lemma utf8_valid_two:
  "0xC2 \<le> byte a \<Longrightarrow> byte a \<le> 0xDF \<Longrightarrow>
   utf8_valid (a # s) \<longleftrightarrow> 1 \<le> length s \<and> is_cont (s ! 0) \<and> utf8_valid (drop 1 s)"
  by (cases s) (simp_all add: utf8_valid.simps(2) [of a])

lemma utf8_valid_three:
  "0xE0 \<le> byte a \<Longrightarrow> byte a \<le> 0xEF \<Longrightarrow>
   utf8_valid (a # s) \<longleftrightarrow>
     2 \<le> length s \<and> second_of_three (byte a) (s ! 0) \<and> is_cont (s ! 1) \<and> utf8_valid (drop 2 s)"
  by (cases s; cases "tl s") (simp_all add: utf8_valid.simps(2) [of a])

lemma utf8_valid_four:
  "0xF0 \<le> byte a \<Longrightarrow> byte a \<le> 0xF4 \<Longrightarrow>
   utf8_valid (a # s) \<longleftrightarrow>
     3 \<le> length s \<and> second_of_four (byte a) (s ! 0) \<and> is_cont (s ! 1) \<and> is_cont (s ! 2) \<and> utf8_valid (drop 3 s)"
  by (cases s; cases "tl s"; cases "tl (tl s)") (simp_all add: utf8_valid.simps(2) [of a] numeral_3_eq_3 numeral_2_eq_2)

lemma utf8_lead_cases:
  obtains (one) "byte a < 0x80" | (two) "0xC2 \<le> byte a" "byte a \<le> 0xDF" | (three) "0xE0 \<le> byte a" "byte a \<le> 0xEF"
    | (four) "0xF0 \<le> byte a" "byte a \<le> 0xF4" | (bad) "\<And>s. \<not> utf8_valid (a # s)"
proof (cases "byte a < 0x80 \<or> 0xC2 \<le> byte a \<and> byte a \<le> 0xDF \<or> 0xE0 \<le> byte a \<and> byte a \<le> 0xEF \<or>
    0xF0 \<le> byte a \<and> byte a \<le> 0xF4")
  case False
  then have "\<not> utf8_valid (a # s)" for s by (auto simp: utf8_valid.simps(2) [of a])
  with bad show thesis .
qed (use one two three four in blast)

lemma utf8_valid_split:
  assumes c: "byte c < 0x80"
  shows "utf8_valid (s @ c # t) \<longleftrightarrow> utf8_valid s \<and> utf8_valid t"
proof (induction s rule: length_induct)
  case (1 s)
  note n = not_cont_ascii [OF c]
  show ?case
  proof (cases s)
    case Nil
    then show ?thesis using c by simp
  next
    case (Cons a u)
    have IH: "utf8_valid (drop k u @ c # t) \<longleftrightarrow> utf8_valid (drop k u) \<and> utf8_valid t" for k using 1 Cons by simp
    have d: "drop k (u @ c # t) = drop k u @ c # t" if "k \<le> length u" for k using that by simp
    show ?thesis
    proof (cases a rule: utf8_lead_cases)
      case one
      with IH [of 0] Cons show ?thesis by simp
    next
      case two
      show ?thesis
      proof (cases "1 \<le> length u")
        case True
        with IH [of 1] d [OF True] Cons show ?thesis by (auto simp: utf8_valid_two [OF two] nth_append)
      next
        case False
        then have "u = []" by (cases u) auto
        with n Cons show ?thesis by (simp add: utf8_valid_two [OF two])
      qed
    next
      case three
      consider "2 \<le> length u" | "length u = 1" | "length u = 0" by linarith
      then show ?thesis
        using IH [of 2] d [of 2] n Cons by cases (auto simp: utf8_valid_three [OF three] nth_append)
    next
      case four
      consider "3 \<le> length u" | "length u = 2" | "length u = 1" | "length u = 0" by linarith
      then show ?thesis
        using IH [of 3] d [of 3] n Cons by cases (auto simp: utf8_valid_four [OF four] nth_append)
    qed (use Cons in simp)
  qed
qed

lemma utf8_valid_append:
  assumes "utf8_valid s" "utf8_valid t"
  shows "utf8_valid (s @ t)"
  using assms(1)
proof (induction s rule: length_induct)
  case (1 s)
  show ?case
  proof (cases s)
    case Nil
    then show ?thesis using assms(2) by simp
  next
    case (Cons a u)
    have IH: "utf8_valid (drop k u) \<Longrightarrow> utf8_valid (drop k u @ t)" for k using 1(1) Cons by simp
    show ?thesis
    proof (cases a rule: utf8_lead_cases)
      case one
      with IH [of 0] 1(2) Cons show ?thesis by simp
    next
      case two
      with IH [of 1] 1(2) Cons show ?thesis by (auto simp: utf8_valid_two nth_append)
    next
      case three
      with IH [of 2] 1(2) Cons show ?thesis by (auto simp: utf8_valid_three nth_append)
    next
      case four
      with IH [of 3] 1(2) Cons show ?thesis by (auto simp: utf8_valid_four nth_append)
    qed (use 1(2) Cons in simp)
  qed
qed

lemma utf8_valid_ascii: "list_all (\<lambda>c. byte c < 0x80) s \<Longrightarrow> utf8_valid s"
  by (induction s) auto

lemma utf8_valid_encode:
  assumes "char_from_u32 m = Some n"
  shows "utf8_valid (encode_utf8 n)"
proof -
  from assms have n: "n < 0xD800 \<or> 0xE000 \<le> n \<and> n \<le> 0x10FFFF" by (auto simp: char_from_u32_def split: if_splits)
  consider "n < 0x80" | "0x80 \<le> n" "n < 0x800" | "0x800 \<le> n" "n < 0x10000" | "0x10000 \<le> n" by linarith
  then show ?thesis
  proof cases
    case 2
    then have "n div 64 < 32" "2 \<le> n div 64" by auto
    with 2 show ?thesis by (simp add: encode_utf8_def is_cont_def utf8_valid_two)
  next
    case 3
    define a where "a = n div 4096"
    have a: "n div 64 div 64 = a" "a < 16" using 3 by (simp_all add: a_def div_mult2_eq [symmetric])
    have r: "n div 64 mod 64 = n div 64 - 64 * a" using a(1) by (metis minus_mult_div_eq_mod)
    have "0xA0 \<le> 0x80 + n div 64 mod 64" if "a = 0" using that r 3 by auto
    moreover have "0x80 + n div 64 mod 64 \<le> 0x9F" if "a = 13" using that r n 3 by (auto simp: a_def)
    ultimately show ?thesis using 3 a(2)
      by (auto simp: encode_utf8_def is_cont_def second_of_three_def utf8_valid_three a_def [symmetric])
  next
    case 4
    define a where "a = n div 262144"
    have b: "n div 4096 div 64 = a" by (simp add: a_def div_mult2_eq [symmetric])
    have a: "a \<le> 4" using n 4 by (simp add: a_def)
    have r: "n div 4096 mod 64 = n div 4096 - 64 * a" using b by (metis minus_mult_div_eq_mod)
    have "0x90 \<le> 0x80 + n div 4096 mod 64" if "a = 0" using that r 4 by auto
    moreover have "0x80 + n div 4096 mod 64 \<le> 0x8F" if "a = 4" using that r n 4 by (auto simp: a_def)
    ultimately show ?thesis using 4 a
      by (auto simp: encode_utf8_def is_cont_def second_of_four_def utf8_valid_four a_def [symmetric])
  qed (simp add: encode_utf8_def)
qed

lemma unicode_escape_valid: "unicode_escape rest = Inr (cs, r) \<Longrightarrow> utf8_valid cs"
  by (auto simp: unicode_escape_def finish_escape_def split: if_splits option.splits intro: utf8_valid_encode)

lemma simple_escape_ascii: "simple_escape e = Some ch \<Longrightarrow> byte ch < 0x80"
  by (auto simp: simple_escape_def split: if_splits)

lemma string_loop_valid:
  "string_loop out run rest = Inr (s, r) \<Longrightarrow> utf8_valid out \<Longrightarrow> utf8_valid s"
proof (induction out run rest rule: string_loop.induct)
  case (2 out run c rest)
  consider "c = CHR 0x22" | "c = CHR 0x5C" "rest = []"
    | e t where "c = CHR 0x5C" "rest = e # t" "e = CHR ''u''" | e t where "c = CHR 0x5C" "rest = e # t" "e \<noteq> CHR ''u''"
    | "c \<noteq> CHR 0x22" "c \<noteq> CHR 0x5C"
    by (metis neq_Nil_conv)
  then show ?case
  proof cases
    case 1
    with 2(4,5) show ?thesis by (auto split: if_splits intro: utf8_valid_append)
  next
    case 3
    with 2(4) obtain cs t2 where u: "unicode_escape t = Inr (cs, t2)"
      and l: "string_loop (out @ run @ cs) [] t2 = Inr (s, r)" and v: "utf8_valid run"
      by (auto split: if_splits sum.splits)
    have o: "utf8_valid (out @ run @ cs)"
      using 2(5) v unicode_escape_valid [OF u] by (auto intro: utf8_valid_append)
    show ?thesis by (rule 2(1) [of e t "(cs, t2)" cs t2]) (use 3 u l v o in auto)
  next
    case 4
    with 2(4) obtain ch where u: "simple_escape e = Some ch"
      and l: "string_loop (out @ run @ [ch]) [] t = Inr (s, r)" and v: "utf8_valid run"
      by (auto split: if_splits option.splits)
    have o: "utf8_valid (out @ run @ [ch])"
      using 2(5) v simple_escape_ascii [OF u] by (intro utf8_valid_append) auto
    show ?thesis by (rule 2(2) [of e t ch]) (use 4 u l v o in auto)
  next
    case 5
    with 2(4) have l: "string_loop out (run @ [c]) rest = Inr (s, r)" and n: "\<not> byte c < 0x20"
      by (auto split: if_splits)
    show ?thesis by (rule 2(3)) (use 5 l n 2(5) in auto)
  qed (use 2(4) in \<open>auto split: if_splits\<close>)
qed simp

lemma parse_string_valid: "parse_string (c # t) = Inr (s, r) \<Longrightarrow> utf8_valid s"
  by (cases rule: parse_string_cases) (auto dest: string_loop_valid)

section \<open>What the parser returns\<close>

text \<open>The values of the parser: objects are sorted maps, text is UTF-8, numbers are spelled as \<open>Number\<close>
  keeps them, and containers nest at most as deep as the bound.\<close>

fun value_ok :: "float_format \<Rightarrow> nat \<Rightarrow> json \<Rightarrow> bool" where
  "value_ok fmt d (Number n) = (\<exists>s. valid_number s \<and> n = number_parse fmt s)"
| "value_ok fmt d (String s) = utf8_valid s"
| "value_ok fmt d (Array xs) = (0 < d \<and> (\<forall>x \<in> set xs. value_ok fmt (d - 1) x))"
| "value_ok fmt d (Object m) = (0 < d \<and> bm_inv m \<and> (\<forall>e \<in> set m. utf8_valid (fst e) \<and> value_ok fmt (d - 1) (snd e)))"
| "value_ok fmt d _ = True"

definition entries_fine :: "float_format \<Rightarrow> nat \<Rightarrow> (string \<times> json) list \<Rightarrow> bool" where
  "entries_fine fmt d m \<longleftrightarrow> bm_inv m \<and> (\<forall>e \<in> set m. utf8_valid (fst e) \<and> value_ok fmt d (snd e))"

lemma set_bm_insert: "set (bm_insert k v m) \<subseteq> insert (k, v) (set m)"
  by (induction k v m rule: bm_insert.induct) auto

lemma entries_fine_insert:
  assumes "entries_fine fmt d m" "utf8_valid k" "value_ok fmt d v"
  shows "entries_fine fmt d (bm_insert k v m)"
  using assms set_bm_insert [of k v m] unfolding entries_fine_def
  by (auto intro: bm_inv_insert)

lemma parser_value_ok:
  "(parser_value fmt fuel strict depth rest = Some (Inr (v, r)) \<longrightarrow> value_ok fmt (MAX_DEPTH - depth) v) \<and>
   (array_loop fmt fuel strict (Suc depth) vs rest = Some (Inr (v, r)) \<longrightarrow> depth < MAX_DEPTH \<longrightarrow>
      (\<forall>x \<in> set vs. value_ok fmt (MAX_DEPTH - Suc depth) x) \<longrightarrow> value_ok fmt (MAX_DEPTH - depth) v) \<and>
   (object_loop fmt fuel strict (Suc depth) ms rest = Some (Inr (v, r)) \<longrightarrow> depth < MAX_DEPTH \<longrightarrow>
      entries_fine fmt (MAX_DEPTH - Suc depth) ms \<longrightarrow> value_ok fmt (MAX_DEPTH - depth) v)"
proof (induction fuel arbitrary: depth rest v r vs ms)
  case (Suc fuel)
  note V = Suc [THEN conjunct1, THEN mp] and A = Suc [THEN conjunct2, THEN conjunct1, THEN mp, THEN mp, THEN mp]
    and O = Suc [THEN conjunct2, THEN conjunct2, THEN mp, THEN mp, THEN mp]
  have "value_ok fmt (MAX_DEPTH - depth) v" if "parser_value fmt (Suc fuel) strict depth rest = Some (Inr (v, r))"
    using that unfolding parser_value.simps
  proof (cases rule: value_body_cases)
    case (array c t)
    from array(3) show ?thesis
    proof (cases rule: array_start_cases)
      case loop
      then show ?thesis by (auto intro: A simp: array(2))
    qed (use array(2) in simp)
  next
    case (object c t)
    from object(3) show ?thesis
    proof (cases rule: object_start_cases)
      case loop
      then show ?thesis by (auto intro: O simp: object(2) entries_fine_def)
    qed (use object(2) in simp)
  next
    case (number c t)
    then show ?thesis by (auto simp: parse_number_def Let_def split: if_splits)
  qed (auto dest: parse_string_valid)
  moreover have "value_ok fmt (MAX_DEPTH - depth) v"
    if a: "array_loop fmt (Suc fuel) strict (Suc depth) vs rest = Some (Inr (v, r))" "depth < MAX_DEPTH"
      "\<forall>x \<in> set vs. value_ok fmt (MAX_DEPTH - Suc depth) x"
    using a(1) unfolding array_loop.simps
  proof (cases rule: array_body_cases)
    case (more w r1 t)
    from A [OF more(3)] V [OF more(1)] a show ?thesis by auto
  next
    case (last w r1)
    with V [OF last(1)] a show ?thesis by auto
  qed
  moreover have "value_ok fmt (MAX_DEPTH - depth) v"
    if a: "object_loop fmt (Suc fuel) strict (Suc depth) ms rest = Some (Inr (v, r))" "depth < MAX_DEPTH"
      "entries_fine fmt (MAX_DEPTH - Suc depth) ms"
    using a(1) unfolding object_loop.simps
  proof (cases rule: object_body_cases)
    case (more ks key r1 ts w r2 t)
    from O [OF more(7)] entries_fine_insert [OF a(3) parse_string_valid [OF more(2)] V [OF more(4)]] a(2)
    show ?thesis by simp
  next
    case (last ks key r1 ts w r2)
    with entries_fine_insert [OF a(3) parse_string_valid [OF last(2)] V [OF last(4)]] a(2)
    show ?thesis by (simp add: entries_fine_def)
  qed
  ultimately show ?case by blast
qed simp

section \<open>Reading back what was written\<close>

lemma plain_byte_escape: "plain_byte b \<longleftrightarrow> \<not> must_escape b"
  unfolding must_escape_alt plain_byte_def by auto

lemma must_escape_bytes: "must_escape b \<longleftrightarrow> byte b = 34 \<or> byte b = 92 \<or> byte b \<le> 31"
  by (simp add: must_escape_def Let_def)

lemma hex_value_digit:
  assumes "d < 16"
  shows "hex_value (hex_digit d) = Some d"
proof -
  have "list_all (\<lambda>d. hex_value (hex_digit d) = Some d) [0..<16]" by code_simp
  with assms show ?thesis by (simp add: list_all_iff)
qed

lemma hex4_digits:
  assumes "hex_value a = Some x" "hex_value b = Some y" "hex_value c = Some z" "hex_value d = Some w"
  shows "hex4 (a # b # c # d # t) = Inr (((x * 16 + y) * 16 + z) * 16 + w, t)"
proof -
  have four: "(4 :: nat) = Suc (Suc (Suc (Suc 0)))" by simp
  show ?thesis unfolding hex4_def four using assms by simp
qed

lemma unicode_escape_control:
  assumes "n \<le> 31"
  shows "unicode_escape (CHR ''0'' # CHR ''0'' # hex_digit (n div 16) # hex_digit (n mod 16) # t) = Inr ([char_of n], t)"
proof -
  have z: "hex_value CHR ''0'' = Some 0" by (simp add: hex_value_def)
  have "hex_value (hex_digit (n div 16)) = Some (n div 16)" "hex_value (hex_digit (n mod 16)) = Some (n mod 16)"
    using assms by (simp_all add: hex_value_digit)
  from hex4_digits [OF z z this, of t]
  have "hex4 (CHR ''0'' # CHR ''0'' # hex_digit (n div 16) # hex_digit (n mod 16) # t) = Inr (n, t)" by simp
  with assms show ?thesis
    by (simp add: unicode_escape_def finish_escape_def char_from_u32_def encode_utf8_def)
qed

lemma byte_cases:
  "byte b = 34 \<longleftrightarrow> b = CHR 0x22" "byte b = 92 \<longleftrightarrow> b = CHR 0x5C" "byte b = 8 \<longleftrightarrow> b = CHR 0x08"
  "byte b = 9 \<longleftrightarrow> b = CHR 0x09" "byte b = 10 \<longleftrightarrow> b = CHR 0x0A" "byte b = 12 \<longleftrightarrow> b = CHR 0x0C"
  "byte b = 13 \<longleftrightarrow> b = CHR 0x0D"
  using of_char_eq_iff [of b "CHR 0x22", where 'a = nat] of_char_eq_iff [of b "CHR 0x5C", where 'a = nat]
    of_char_eq_iff [of b "CHR 0x08", where 'a = nat] of_char_eq_iff [of b "CHR 0x09", where 'a = nat]
    of_char_eq_iff [of b "CHR 0x0A", where 'a = nat] of_char_eq_iff [of b "CHR 0x0C", where 'a = nat]
    of_char_eq_iff [of b "CHR 0x0D", where 'a = nat]
  by simp_all

lemma string_loop_escape:
  assumes "must_escape b" "utf8_valid run"
  shows "string_loop out run (push_escape b @ t) = string_loop (out @ run @ [b]) [] t"
proof (cases "byte b \<in> {34, 92, 8, 9, 10, 12, 13}")
  case True
  then have "b \<in> {CHR 0x22, CHR 0x5C, CHR 0x08, CHR 0x09, CHR 0x0A, CHR 0x0C, CHR 0x0D}"
    by (auto simp: byte_cases)
  then show ?thesis using assms(2) by (auto simp: push_escape_def simple_escape_def)
next
  case False
  then have n: "byte b \<le> 31" using assms(1) by (auto simp: must_escape_bytes)
  from False have "push_escape b = [CHR 0x5C, CHR ''u'', CHR ''0'', CHR ''0'', hex_digit (byte b div 16), hex_digit (byte b mod 16)]"
    by (simp add: push_escape_def Let_def)
  with unicode_escape_control [OF n, of t] assms(2) show ?thesis by simp
qed

lemma string_loop_escaped:
  "utf8_valid (run @ s) \<Longrightarrow> string_loop out run (escaped s @ CHR 0x22 # rest) = Inr (out @ run @ s, rest)"
proof (induction s arbitrary: out run)
  case Nil
  then show ?case by (simp add: escaped_def)
next
  case (Cons b s)
  have e: "escaped (b # s) = escape_byte b @ escaped s" by (simp add: escaped_def)
  show ?case
  proof (cases "must_escape b")
    case True
    then have "byte b < 0x80" by (auto simp: must_escape_bytes)
    with Cons.prems have "utf8_valid run" "utf8_valid s" using utf8_valid_split by blast+
    with Cons.IH [of "[]"] True string_loop_escape show ?thesis by (simp add: e escape_byte_def)
  next
    case False
    then have "b \<noteq> CHR 0x22" "b \<noteq> CHR 0x5C" "\<not> byte b < 0x20" by (auto simp: must_escape_alt)
    with Cons.IH [of "run @ [b]"] Cons.prems False show ?thesis by (simp add: e escape_byte_def)
  qed
qed

lemma escape_byte_stops: "must_escape b \<Longrightarrow> \<exists>t. push_escape b = CHR 0x5C # t"
  by (simp add: push_escape_def Let_def)

lemma plain_prefix:
  "takeWhile plain_byte (escaped s @ CHR 0x22 # rest) = takeWhile plain_byte s \<and>
   dropWhile plain_byte (escaped s @ CHR 0x22 # rest) = escaped (dropWhile plain_byte s) @ CHR 0x22 # rest"
proof (induction s)
  case Nil
  show ?case by (simp add: escaped_def plain_byte_def)
next
  case (Cons b s)
  have e: "escaped (b # s) = escape_byte b @ escaped s" by (simp add: escaped_def)
  show ?case
  proof (cases "plain_byte b")
    case True
    with Cons show ?thesis by (simp add: e escape_byte_def plain_byte_escape)
  next
    case False
    then obtain t where "escape_byte b = CHR 0x5C # t"
      using escape_byte_stops by (auto simp: plain_byte_escape escape_byte_def)
    moreover have "\<not> plain_byte (CHR 0x5C)" by (simp add: plain_byte_def)
    ultimately show ?thesis using False by (simp add: e)
  qed
qed

lemma parse_string_written:
  assumes "utf8_valid s"
  shows "parse_string (write_string_into s @ rest) = Inr (s, rest)"
proof -
  let ?p = "takeWhile plain_byte s" and ?q = "dropWhile plain_byte s"
  have w: "tl (write_string_into s @ rest) = escaped s @ CHR 0x22 # rest" by (simp add: write_string_into_eq)
  have s: "s = ?p @ ?q" by simp
  show ?thesis
  proof (cases ?q)
    case Nil
    with plain_prefix [of s rest] s assms show ?thesis
      by (simp add: parse_string_def w escaped_def)
  next
    case (Cons b u)
    then have b: "must_escape b" by (metis dropWhile_eq_Cons_conv plain_byte_escape)
    then have "byte b < 0x80" by (auto simp: must_escape_bytes)
    with s Cons assms have v: "utf8_valid ?p" "utf8_valid ?q" by (metis utf8_valid_split utf8_valid_one)+
    obtain t where "escaped ?q = CHR 0x5C # t"
      using b escape_byte_stops [OF b] Cons by (auto simp: escaped_def escape_byte_def)
    with plain_prefix [of s rest] v(1) string_loop_escaped [of "[]" ?q ?p rest] v(2) s show ?thesis
      by (simp add: parse_string_def w)
  qed
qed

lemma is_digit_byte: "is_digit c \<longleftrightarrow> 48 \<le> byte c \<and> byte c \<le> 57"
proof -
  have "(of_char c :: int) = int (byte c)" by (rule of_nat_of_char [symmetric])
  then show ?thesis by (auto simp: is_digit_def digit_of_def Let_def)
qed

lemma number_byte_ascii: "is_number_byte c \<Longrightarrow> byte c < 0x80"
  by (auto simp: is_number_byte_def is_digit_byte)

lemma starts_with_Cons [simp]: "starts_with c (d # t) \<longleftrightarrow> d = c"
  by (simp add: starts_with_def)

lemma dropWhile_digits: "skip_digits s = [] \<Longrightarrow> list_all is_number_byte s"
  by (induction s) (auto simp: skip_digits_def is_number_byte_def split: if_splits)

lemma skip_digits_split:
  "list_all is_number_byte (skip_digits s) \<Longrightarrow> list_all is_number_byte s"
  by (induction s) (auto simp: skip_digits_def is_number_byte_def split: if_splits)

lemma valid_exponent_bytes: "valid_exponent s \<Longrightarrow> list_all is_number_byte s"
  by (auto simp: valid_exponent_def Let_def is_number_byte_def split: list.splits if_splits dest!: dropWhile_digits)

lemma valid_fraction_bytes: "valid_fraction s \<Longrightarrow> list_all is_number_byte s"
  by (auto simp: valid_fraction_def is_number_byte_def split: list.splits if_splits
      dest!: valid_exponent_bytes intro: skip_digits_split)

lemma valid_number_bytes:
  assumes "valid_number n"
  shows "list_all is_number_byte n" "\<exists>c t. n = c # t \<and> (c = CHR ''-'' \<or> is_digit c)"
proof -
  have z: "is_digit CHR ''0''" by (simp add: is_digit_def digit_of_def)
  from assms show "list_all is_number_byte n"
    by (auto simp: valid_number_def Let_def strip_prefix_def is_number_byte_def z
        split: list.splits if_splits option.splits dest!: valid_fraction_bytes intro: skip_digits_split)
  from assms show "\<exists>c t. n = c # t \<and> (c = CHR ''-'' \<or> is_digit c)"
    by (auto simp: valid_number_def Let_def strip_prefix_def z split: list.splits if_splits option.splits)
qed

definition number_ends :: "string \<Rightarrow> bool" where
  "number_ends rest \<longleftrightarrow> (case rest of [] \<Rightarrow> True | c # _ \<Rightarrow> \<not> is_number_byte c)"

lemma parse_number_written:
  assumes "valid_number n" "number_parse fmt n = n" "number_ends rest"
  shows "parse_number fmt (n @ rest) = Inr (Number n, rest)"
proof -
  have all: "\<forall>c \<in> set n. is_number_byte c" using valid_number_bytes(1) [OF assms(1)] by (simp add: list_all_iff)
  have "takeWhile is_number_byte (n @ rest) = n" "dropWhile is_number_byte (n @ rest) = rest"
    using all assms(3) by (simp_all add: number_ends_def split: list.splits)
  moreover have "utf8_valid n"
    using all number_byte_ascii by (intro utf8_valid_ascii) (simp add: list_all_iff)
  ultimately show ?thesis using assms(1,2) by (simp add: parse_number_def)
qed

text \<open>The values that are read back: as \<open>value_ok\<close>, with numbers spelled the way the parser spells them.\<close>

fun writable :: "float_format \<Rightarrow> nat \<Rightarrow> json \<Rightarrow> bool" where
  "writable fmt d (Number n) = (valid_number n \<and> number_parse fmt n = n)"
| "writable fmt d (String s) = utf8_valid s"
| "writable fmt d (Array xs) = (0 < d \<and> (\<forall>x \<in> set xs. writable fmt (d - 1) x))"
| "writable fmt d (Object m) = (0 < d \<and> bm_inv m \<and> (\<forall>e \<in> set m. utf8_valid (fst e) \<and> writable fmt (d - 1) (snd e)))"
| "writable fmt d _ = True"

definition reads_back :: "float_format \<Rightarrow> bool \<Rightarrow> nat \<Rightarrow> json \<Rightarrow> bool" where
  "reads_back fmt strict depth v \<longleftrightarrow> (\<forall>rest fuel. number_ends rest \<longrightarrow>
     2 * length (write_value_into v @ rest) + 1 \<le> fuel \<longrightarrow>
     parser_value fmt fuel strict depth (write_value_into v @ rest) = Some (Inr (v, rest)))"

lemma reads_backD:
  assumes "reads_back fmt strict depth v" "number_ends rest" "2 * length (write_value_into v @ rest) + 1 \<le> fuel"
  shows "parser_value fmt fuel strict depth (write_value_into v @ rest) = Some (Inr (v, rest))"
  using assms unfolding reads_back_def by blast

lemma skip_ws_id: "\<not> is_ascii_whitespace c \<Longrightarrow> skip_ws (c # t) = c # t"
  by (simp add: skip_ws_def)

lemma punctuation:
  "\<not> is_ascii_whitespace (CHR '','')" "\<not> is_ascii_whitespace (CHR '']'')" "\<not> is_ascii_whitespace (CHR ''}'')"
  "\<not> is_ascii_whitespace (CHR '':'')" "\<not> is_ascii_whitespace (CHR 0x22)" "\<not> is_ascii_whitespace (CHR ''['')"
  "\<not> is_ascii_whitespace (CHR ''{'')"
  "\<not> is_number_byte (CHR '','')" "\<not> is_number_byte (CHR '']'')" "\<not> is_number_byte (CHR ''}'')"
  by (simp_all add: is_ascii_whitespace_def is_number_byte_def is_digit_def digit_of_def)

lemmas skip_punctuation = skip_ws_id [OF punctuation(1)] skip_ws_id [OF punctuation(2)] skip_ws_id [OF punctuation(3)]
  skip_ws_id [OF punctuation(4)] skip_ws_id [OF punctuation(5)] skip_ws_id [OF punctuation(6)] skip_ws_id [OF punctuation(7)]

lemma written_first:
  assumes "writable fmt d v"
  shows "\<exists>c t. write_value_into v = c # t \<and> \<not> is_ascii_whitespace c \<and> c \<noteq> CHR '']'' \<and> c \<noteq> CHR ''}''"
proof (cases v)
  case (Number n)
  with assms valid_number_bytes [of n] obtain c t where n: "n = c # t" "c = CHR ''-'' \<or> is_digit c" by auto
  then have "\<not> is_ascii_whitespace c \<and> c \<noteq> CHR '']'' \<and> c \<noteq> CHR ''}''"
    by (auto simp: is_ascii_whitespace_def is_digit_byte)
  with Number n show ?thesis by simp
qed (auto simp: write_string_into_eq is_ascii_whitespace_def)

lemma array_loop_written:
  assumes "\<forall>y \<in> set (x # xs). writable fmt d y \<and> reads_back fmt strict depth y"
    and "2 * length (write_value_into x @ write_items_into (Suc j) xs @ CHR '']'' # rest) + 2 \<le> fuel"
  shows "array_loop fmt fuel strict depth vs (write_value_into x @ write_items_into (Suc j) xs @ CHR '']'' # rest) =
    Some (Inr (Array (vs @ x # xs), rest))"
  using assms
proof (induction xs arbitrary: x vs fuel j)
  case Nil
  from Nil.prems obtain f where f: "fuel = Suc f" by (cases fuel) auto
  have "parser_value fmt f strict depth (write_value_into x @ CHR '']'' # rest) = Some (Inr (x, CHR '']'' # rest))"
    by (rule reads_backD) (use Nil.prems f punctuation(9) in \<open>auto simp: number_ends_def\<close>)
  then show ?case by (simp add: f array_body_def skip_punctuation)
next
  case (Cons y ys)
  from Cons.prems obtain f where f: "fuel = Suc f" by (cases fuel) auto
  let ?r = "write_value_into y @ write_items_into (Suc (Suc j)) ys @ CHR '']'' # rest"
  have "parser_value fmt f strict depth (write_value_into x @ CHR '','' # ?r) = Some (Inr (x, CHR '','' # ?r))"
    by (rule reads_backD) (use Cons.prems f punctuation(8) in \<open>auto simp: number_ends_def\<close>)
  moreover have "array_loop fmt f strict depth (vs @ [x]) ?r = Some (Inr (Array ((vs @ [x]) @ y # ys), rest))"
    by (rule Cons.IH) (use Cons.prems f in auto)
  ultimately show ?case by (simp add: f array_body_def skip_punctuation)
qed

lemma bm_insert_last: "\<forall>l \<in> fst ` set m. l < k \<Longrightarrow> bm_insert k v m = m @ [(k, v)]"
proof (induction m)
  case (Cons e m)
  obtain l w where "e = (l, w)" by (cases e)
  with Cons show ?case by (auto dest: less_asym)
qed simp

lemma object_loop_written:
  assumes "\<forall>e \<in> set ((k, v) # m). utf8_valid (fst e) \<and> writable fmt d (snd e) \<and> reads_back fmt strict depth (snd e)"
    and "bm_inv (vs @ (k, v) # m)"
    and "2 * length (write_string_into k @ '':'' @ write_value_into v @ write_members_into (Suc j) m @ CHR ''}'' # rest) + 2 \<le> fuel"
  shows "object_loop fmt fuel strict depth vs
      (write_string_into k @ '':'' @ write_value_into v @ write_members_into (Suc j) m @ CHR ''}'' # rest) =
    Some (Inr (Object (vs @ (k, v) # m), rest))"
  using assms
proof (induction m arbitrary: k v vs fuel j)
  case Nil
  from Nil.prems obtain f where f: "fuel = Suc f" by (cases fuel) auto
  have lt: "\<forall>l \<in> fst ` set vs. l < k" using Nil.prems(2) by (auto simp: bm_inv_def sorted_wrt_append)
  then have new: "map_of vs k = None" by (auto simp: map_of_eq_None_iff)
  have q: "skip_ws (write_string_into k @ s) = write_string_into k @ s" "starts_with CHR 0x22 (write_string_into k @ s)" for s
    by (simp_all add: write_string_into_eq skip_punctuation starts_with_def)
  have "parser_value fmt f strict depth (write_value_into v @ CHR ''}'' # rest) = Some (Inr (v, CHR ''}'' # rest))"
    by (rule reads_backD) (use Nil.prems f punctuation(10) in \<open>auto simp: number_ends_def\<close>)
  with Nil.prems(1) show ?case
    by (simp add: f object_body_def q parse_string_written skip_punctuation new bm_insert_last [OF lt])
next
  case (Cons e m)
  obtain l w where e: "e = (l, w)" by (cases e)
  from Cons.prems obtain f where f: "fuel = Suc f" by (cases fuel) auto
  have lt: "\<forall>l \<in> fst ` set vs. l < k" using Cons.prems(2) by (auto simp: bm_inv_def sorted_wrt_append)
  then have new: "map_of vs k = None" by (auto simp: map_of_eq_None_iff)
  have q: "skip_ws (write_string_into k @ s) = write_string_into k @ s" "starts_with CHR 0x22 (write_string_into k @ s)" for s
    by (simp_all add: write_string_into_eq skip_punctuation starts_with_def)
  let ?r = "write_string_into l @ '':'' @ write_value_into w @ write_members_into (Suc (Suc j)) m @ CHR ''}'' # rest"
  have "parser_value fmt f strict depth (write_value_into v @ CHR '','' # ?r) = Some (Inr (v, CHR '','' # ?r))"
    by (rule reads_backD) (use Cons.prems f e punctuation(8) in \<open>auto simp: number_ends_def\<close>)
  moreover have "object_loop fmt f strict depth (vs @ [(k, v)]) ?r = Some (Inr (Object ((vs @ [(k, v)]) @ (l, w) # m), rest))"
    by (rule Cons.IH) (use Cons.prems f e in auto)
  ultimately show ?case using Cons.prems(1)
    by (simp add: f e object_body_def q parse_string_written skip_punctuation new bm_insert_last [OF lt])
qed

lemma value_reads_back:
  assumes "writable fmt d v" "depth + d \<le> MAX_DEPTH"
  shows "reads_back fmt strict depth v"
  using assms
proof (induction v arbitrary: d depth)
  case (Number n)
  then have n: "valid_number n" "number_parse fmt n = n" by simp_all
  from valid_number_bytes(2) [OF n(1)] obtain c t where c: "n = c # t" "c = CHR ''-'' \<or> is_digit c" by blast
  then have ne: "c \<noteq> CHR ''n''" "c \<noteq> CHR ''t''" "c \<noteq> CHR ''f''" "c \<noteq> CHR 0x22" "c \<noteq> CHR ''[''" "c \<noteq> CHR ''{''"
    "\<not> is_ascii_whitespace c"
    by (auto simp: is_digit_byte is_ascii_whitespace_def)
  show ?case
    unfolding reads_back_def
  proof (intro allI impI)
    fix rest fuel assume "number_ends rest" and f: "2 * length (write_value_into (Number n) @ rest) + 1 \<le> fuel"
    from parse_number_written [OF n this(1)] c ne f
    show "parser_value fmt fuel strict depth (write_value_into (Number n) @ rest) = Some (Inr (Number n, rest))"
      by (cases fuel) (auto simp: value_body_def skip_ws_id)
  qed
next
  case (String s)
  have "parser_value fmt fuel strict depth (write_string_into s @ rest) = Some (Inr (String s, rest))"
    if "1 \<le> fuel" for rest fuel
    using that parse_string_written [of s rest] String.prems
    by (cases fuel) (auto simp: value_body_def write_string_into_eq skip_punctuation)
  then show ?case by (auto simp: reads_back_def)
next
  case (Array xs)
  then have d: "depth < MAX_DEPTH" "0 < d" "\<forall>x \<in> set xs. writable fmt (d - 1) x" by auto
  have IH: "\<forall>x \<in> set xs. writable fmt (d - 1) x \<and> reads_back fmt strict (Suc depth) x"
    using Array.IH [of _ "d - 1" "Suc depth"] Array.prems d by auto
  show ?case
    unfolding reads_back_def
  proof (intro allI impI)
    fix rest fuel assume f: "2 * length (write_value_into (Array xs) @ rest) + 1 \<le> fuel"
    then obtain g where g: "fuel = Suc g" by (cases fuel) auto
    show "parser_value fmt fuel strict depth (write_value_into (Array xs) @ rest) = Some (Inr (Array xs, rest))"
    proof (cases xs)
      case Nil
      with d g show ?thesis by (simp add: value_body_def skip_punctuation array_start_def)
    next
      case (Cons y ys)
      let ?r = "write_value_into y @ write_items_into (Suc 0) ys @ CHR '']'' # rest"
      from written_first IH Cons obtain c t where c: "write_value_into y = c # t" "\<not> is_ascii_whitespace c" "c \<noteq> CHR '']''"
        by (metis list.set_intros(1))
      have "array_loop fmt g strict (Suc depth) [] ?r = Some (Inr (Array ([] @ y # ys), rest))"
        by (rule array_loop_written [where d = "d - 1"]) (use IH Cons f g in auto)
      with d g Cons c show ?thesis
        by (simp add: value_body_def skip_punctuation array_start_def skip_ws_id)
    qed
  qed
next
  case (Object m)
  then have d: "depth < MAX_DEPTH" "0 < d" "bm_inv m"
    "\<forall>e \<in> set m. utf8_valid (fst e) \<and> writable fmt (d - 1) (snd e)" by auto
  have IH: "\<forall>e \<in> set m. utf8_valid (fst e) \<and> writable fmt (d - 1) (snd e) \<and> reads_back fmt strict (Suc depth) (snd e)"
  proof
    fix e assume "e \<in> set m"
    with Object.IH [of e "snd e" "d - 1" "Suc depth"] Object.prems(2) d
    show "utf8_valid (fst e) \<and> writable fmt (d - 1) (snd e) \<and> reads_back fmt strict (Suc depth) (snd e)"
      by (cases e) auto
  qed
  show ?case
    unfolding reads_back_def
  proof (intro allI impI)
    fix rest fuel assume f: "2 * length (write_value_into (Object m) @ rest) + 1 \<le> fuel"
    then obtain g where g: "fuel = Suc g" by (cases fuel) auto
    show "parser_value fmt fuel strict depth (write_value_into (Object m) @ rest) = Some (Inr (Object m, rest))"
    proof (cases m)
      case Nil
      with d g show ?thesis by (simp add: value_body_def skip_punctuation object_start_def)
    next
      case (Cons e ms)
      obtain k v where e: "e = (k, v)" by (cases e)
      let ?r = "write_string_into k @ '':'' @ write_value_into v @ write_members_into (Suc 0) ms @ CHR ''}'' # rest"
      have q: "\<exists>t. write_string_into k = CHR 0x22 # t" by (simp add: write_string_into_eq)
      have "object_loop fmt g strict (Suc depth) [] ?r = Some (Inr (Object ([] @ (k, v) # ms), rest))"
        by (rule object_loop_written [where d = "d - 1"]) (use IH d Cons e f g in auto)
      with d g Cons e q show ?thesis
        by (auto simp: value_body_def skip_punctuation object_start_def)
    qed
  qed
next
  case (Bool b)
  have "parser_value fmt fuel strict depth (write_value_into (Bool b) @ rest) = Some (Inr (Bool b, rest))"
    if "1 \<le> fuel" for rest fuel
    using that by (cases fuel) (auto simp: value_body_def skip_ws_def is_ascii_whitespace_def word_def)
  then show ?case by (auto simp: reads_back_def)
next
  case Null
  have "parser_value fmt fuel strict depth (write_value_into Null @ rest) = Some (Inr (Null, rest))"
    if "1 \<le> fuel" for rest fuel
    using that by (cases fuel) (auto simp: value_body_def skip_ws_def is_ascii_whitespace_def word_def)
  then show ?case by (auto simp: reads_back_def)
qed

section \<open>Strict parsing\<close>

definition strict_of :: "json parsed option \<Rightarrow> json parsed option \<Rightarrow> bool" where
  "strict_of r lax \<longleftrightarrow> r = lax \<or> (\<exists>rest. r = Some (Inl (DuplicateKey, rest)))"

lemma strict_of_array_start:
  assumes "\<And>vs t. strict_of (m vs t) (m' vs t)"
  shows "strict_of (array_start m rest) (array_start m' rest)"
  using assms unfolding array_start_def by (auto simp: strict_of_def split: list.split)

lemma strict_of_object_start:
  assumes "\<And>vs t. strict_of (m vs t) (m' vs t)"
  shows "strict_of (object_start m rest) (object_start m' rest)"
  using assms unfolding object_start_def by (auto simp: strict_of_def split: list.split)

lemma strict_of_value_body:
  assumes "\<And>d vs t. strict_of (am d vs t) (am' d vs t)" "\<And>d vs t. strict_of (om d vs t) (om' d vs t)"
  shows "strict_of (value_body fmt depth am om rest) (value_body fmt depth am' om' rest)"
proof (cases "skip_ws rest")
  case (Cons c t)
  have "strict_of (array_start (am (depth + 1)) t) (array_start (am' (depth + 1)) t)"
    "strict_of (object_start (om (depth + 1)) t) (object_start (om' (depth + 1)) t)"
    using assms by (intro strict_of_array_start strict_of_object_start; simp)+
  with Cons show ?thesis by (simp add: value_body_def strict_of_def)
qed (simp add: value_body_def strict_of_def)

lemma strict_of_array_body:
  assumes "strict_of (vm rest) (vm' rest)" "\<And>vs t. strict_of (m vs t) (m' vs t)"
  shows "strict_of (array_body vm m vs rest) (array_body vm' m' vs rest)"
  using assms(1) unfolding strict_of_def [of "vm rest"]
proof
  assume "vm rest = vm' rest"
  then show ?thesis using assms(2) unfolding array_body_def
    by (auto simp: strict_of_def split: option.split sum.split list.split)
next
  assume "\<exists>r. vm rest = Some (Inl (DuplicateKey, r))"
  then show ?thesis by (auto simp: array_body_def strict_of_def)
qed

lemma strict_of_object_body:
  assumes "\<And>t. strict_of (vm t) (vm' t)" "\<And>vs t. strict_of (m vs t) (m' vs t)"
  shows "strict_of (object_body True vm m vs rest) (object_body False vm' m' vs rest)"
proof (cases "starts_with CHR 0x22 (skip_ws rest)")
  case q: True
  show ?thesis
  proof (cases "parse_string (skip_ws rest)")
    case (Inr p)
    obtain key r1 where p: "p = (key, r1)" by (cases p)
    let ?t = "tl (skip_ws r1)"
    from assms(1) [of ?t] consider "vm ?t = vm' ?t" | r where "vm ?t = Some (Inl (DuplicateKey, r))"
      unfolding strict_of_def by blast
    then show ?thesis
    proof cases
      case 1
      then show ?thesis using assms(2) q Inr p unfolding object_body_def
        by (auto simp: strict_of_def split: option.split sum.split list.split)
    next
      case 2
      then show ?thesis using q Inr p by (auto simp: object_body_def strict_of_def)
    qed
  qed (use q in \<open>simp add: object_body_def strict_of_def\<close>)
qed (simp add: object_body_def strict_of_def)

lemma parser_strict:
  "strict_of (parser_value fmt fuel True depth rest) (parser_value fmt fuel False depth rest) \<and>
   strict_of (array_loop fmt fuel True depth vs rest) (array_loop fmt fuel False depth vs rest) \<and>
   strict_of (object_loop fmt fuel True depth ms rest) (object_loop fmt fuel False depth ms rest)"
proof (induction fuel arbitrary: depth rest vs ms)
  case (Suc fuel)
  then show ?case
    by (auto intro!: strict_of_value_body strict_of_array_body strict_of_object_body)
qed (simp add: strict_of_def)

section \<open>Properties\<close>

lemma value_ok_wf: "value_ok fmt d v \<Longrightarrow> json_wf v"
  by (induction fmt d v rule: value_ok.induct) auto

definition sample_format :: float_format where
  "sample_format neg value = (if neg then ''-0.0'' else ''0.0'')"

definition sample_document :: json where
  "sample_document = Object
     [(''a'', Array [Number ''-12'', String [CHR 0xC3, CHR 0xA9, CHR 0x0A, CHR 0x22, CHR 0x01], Object []]),
      (''b'', Bool True), (''c'', Number ''0.0'')]"

text \<open>A form feed between tokens is skipped, although it is not JSON whitespace.\<close>

lemma form_feed_accepted: "parse sample_format [CHR 0x0C, CHR ''1''] = Some (Inr (Number ''1''))"
  by code_simp

text \<open>C9: Parsing inverts writing. A value whose objects are sorted, whose text is UTF-8, whose numbers are
  spelled as the parser keeps them and that nests at most 128 deep is read back from its canonical text
  exactly as it was, by the permissive and by the strict parser.\<close>

theorem parse_write:
  assumes "writable fmt MAX_DEPTH v"
  shows "parse fmt (write_value_into v) = Some (Inr v) \<and> parse_strict fmt (write_value_into v) = Some (Inr v)"
proof -
  have "parser_value fmt (parse_fuel (write_value_into v)) strict 0 (write_value_into v) = Some (Inr (v, []))" for strict
    using reads_backD [OF value_reads_back [OF assms, of 0 strict], of "[]" "parse_fuel (write_value_into v)"]
    by (simp add: parse_fuel_def number_ends_def del: parser_value.simps)
  then show ?thesis by (simp add: parse_def parse_strict_def parse_scalar_with_def skip_ws_def map_err_def)
qed

theorem parse_write_witness:
  "parse sample_format (write_value_into sample_document) = Some (Inr sample_document) \<and>
   parse_strict sample_format (write_value_into sample_document) = Some (Inr sample_document)"
proof -
  have "writable sample_format MAX_DEPTH sample_document" by code_simp
  then show ?thesis by (rule parse_write)
qed

text \<open>C10: What the parser accepts is well formed: every object is a sorted map without duplicate keys, every
  string and key is valid UTF-8, every number comes from a literal of the JSON grammar, and containers nest
  at most 128 deep.\<close>

theorem parse_well_formed:
  assumes "parse_located fmt input = Some (Inr v)"
  shows "json_wf v \<and> value_ok fmt MAX_DEPTH v"
proof -
  from assms obtain p where p: "parser_value fmt (parse_fuel input) False 0 input = Some p"
    by (auto simp: parse_located_def parse_scalar_with_def)
  with assms obtain r where "p = Inr (v, r)"
    by (cases p) (auto simp: parse_located_def parse_scalar_with_def split: if_splits)
  with p have "parser_value fmt (parse_fuel input) False 0 input = Some (Inr (v, r))" by simp
  then have "value_ok fmt MAX_DEPTH v"
    using parser_value_ok [of fmt "parse_fuel input" False 0 input v r] by simp
  with value_ok_wf show ?thesis by blast
qed

theorem parse_well_formed_witness:
  "parse_located sample_format ''[1e2, {}]'' = Some (Inr (Array [Number ''0.0'', Object []])) \<and>
   value_ok sample_format MAX_DEPTH (Array [Number ''0.0'', Object []])"
proof -
  have "parse_located sample_format ''[1e2, {}]'' = Some (Inr (Array [Number ''0.0'', Object []]))" by code_simp
  with parse_well_formed [OF this] show ?thesis by blast
qed

text \<open>C11: Parsing terminates on every input, with a value or with an error: the recursion of the parser uses
  at most two calls per byte. Strict parsing gives the result of permissive parsing, offset included, unless
  it stops at a duplicate key.\<close>

theorem parse_returns:
  "(\<exists>r. parse_scalar_with fmt input strict = Some r) \<and>
   (parse_scalar_with fmt input True = parse_scalar_with fmt input False \<or>
    (\<exists>k. parse_scalar_with fmt input True = Some (Inl (DuplicateKey, k))))"
proof -
  have "parser_value fmt (parse_fuel input) strict 0 input \<noteq> None"
    using parser_returns [of input "parse_fuel input" fmt strict 0 "[]" "[]"] by (simp add: parse_fuel_def)
  then have "\<exists>r. parse_scalar_with fmt input strict = Some r" by (auto simp: parse_scalar_with_def)
  moreover have "strict_of (parser_value fmt (parse_fuel input) True 0 input) (parser_value fmt (parse_fuel input) False 0 input)"
    using parser_strict by blast
  then have "parse_scalar_with fmt input True = parse_scalar_with fmt input False \<or>
    (\<exists>k. parse_scalar_with fmt input True = Some (Inl (DuplicateKey, k)))"
    by (auto simp: strict_of_def parse_scalar_with_def)
  ultimately show ?thesis by blast
qed

end
