(* ===== verification/Ord_Map.thy ===== *)
theory Ord_Map
  imports Ord_Sort
begin

text \<open>
  The persistent ordered map behind the shared room state, \<open>src/src/state/persistent_ord_map.rs\<close>: a
  path-copying B+tree. A node is the value an \<open>Arc\<close> points to; cloning a map copies a pointer, so
  \<open>Arc::make_mut\<close> and the explicit copies give the value that the model returns. Where the code asks
  whether two pointers are the same (\<open>Arc::ptr_eq\<close>) or whether a node is not shared
  (\<open>Arc::get_mut\<close>), the answer is a parameter. An index out of bounds and a failed \<open>expect\<close> are the
  left results of the operations. The cursor and iterator indices and the expansion counter never
  exceed the number of items in memory and are natural numbers without a bound.
\<close>

section \<open>Vectors and checked integers\<close>

datatype panic = Index_out_of_bounds | Expect_failed string

definition checked_add :: "nat \<Rightarrow> nat \<Rightarrow> nat \<Rightarrow> string \<Rightarrow> (panic, nat) result" where
  "checked_add bound a b msg = (if a + b \<le> bound then Inr (a + b) else Inl (Expect_failed msg))"

definition checked_sub :: "nat \<Rightarrow> nat \<Rightarrow> string \<Rightarrow> (panic, nat) result" where
  "checked_sub a b msg = (if b \<le> a then Inr (a - b) else Inl (Expect_failed msg))"

definition U8_MAX :: nat where
  "U8_MAX = 255"

definition USIZE_MAX :: nat where
  "USIZE_MAX = 18446744073709551615"

definition vec_get :: "'a list \<Rightarrow> nat \<Rightarrow> 'a option" where
  "vec_get xs i = (if i < length xs then Some (xs ! i) else None)"

definition vec_insert :: "nat \<Rightarrow> 'a \<Rightarrow> 'a list \<Rightarrow> 'a list" where
  "vec_insert i x xs = take i xs @ x # drop i xs"

definition vec_remove :: "nat \<Rightarrow> 'a list \<Rightarrow> 'a list" where
  "vec_remove i xs = take i xs @ drop (Suc i) xs"

text \<open>\<open>binary_search_by\<close> on entries in key order: \<open>Inr i\<close> is \<open>Ok(i)\<close>, the index of the key, and
  \<open>Inl i\<close> is \<open>Err(i)\<close>, the index at which it would be inserted.\<close>

definition binary_search :: "'k::linorder \<Rightarrow> ('k \<times> 'v) list \<Rightarrow> nat + nat" where
  "binary_search key es =
     (let i = length (takeWhile (\<lambda>(k, _). k < key) es)
      in if i < length es \<and> fst (es ! i) = key then Inr i else Inl i)"

section \<open>Nodes\<close>

definition MAX_FANOUT :: nat where
  "MAX_FANOUT = 24"

definition BULK_FILL :: nat where
  "BULK_FILL = MAX_FANOUT - MAX_FANOUT div 4"

datatype ('k, 'v) node =
    Leaf "('k \<times> 'v) list"
  | Internal "'k list" "('k, 'v) node list"

record ('k, 'v) ord_map =
  om_root :: "('k, 'v) node"
  om_height :: nat
  om_len :: nat

lemma child_size [termination_simp]:
  "i < length cs \<Longrightarrow> size (cs ! i) < Suc (m + size_list size cs)"
  using size_list_estimation' [of "cs ! i" cs "size (cs ! i)" size] by simp

definition node_is_empty :: "('k, 'v) node \<Rightarrow> bool" where
  "node_is_empty n = (case n of Leaf es \<Rightarrow> es = [] | Internal _ cs \<Rightarrow> cs = [])"

definition child_index :: "'k::linorder list \<Rightarrow> 'k \<Rightarrow> nat" where
  "child_index ks key = length (takeWhile (\<lambda>k. cmp k key \<noteq> Greater) ks)"

text \<open>\<open>drop_if_empty\<close> on the separators and the children of an internal node.\<close>

definition drop_if_empty ::
  "nat \<Rightarrow> 'k list \<Rightarrow> ('k, 'v) node list \<Rightarrow> (panic, 'k list \<times> ('k, 'v) node list) result" where
  "drop_if_empty idx ks cs =
     (if length cs \<le> idx then Inl Index_out_of_bounds
      else if node_is_empty (cs ! idx) then
        (if ks = [] then Inr (ks, vec_remove idx cs)
         else if length ks \<le> idx - 1 then Inl Index_out_of_bounds
         else Inr (vec_remove (idx - 1) ks, vec_remove idx cs))
      else Inr (ks, cs))"

fun first_key :: "('k, 'v) node \<Rightarrow> 'k option" where
  "first_key (Leaf es) = (case es of [] \<Rightarrow> None | e # _ \<Rightarrow> Some (fst e))"
| "first_key (Internal ks []) = None"
| "first_key (Internal ks (c # _)) = first_key c"

definition om_new :: "('k, 'v) ord_map" where
  "om_new = \<lparr> om_root = Leaf [], om_height = 0, om_len = 0 \<rparr>"

definition om_is_empty :: "('k, 'v) ord_map \<Rightarrow> bool" where
  "om_is_empty m \<longleftrightarrow> om_len m = 0"

section \<open>Lookup\<close>

fun get_node :: "'k::linorder \<Rightarrow> ('k, 'v) node \<Rightarrow> 'v option" where
  "get_node key (Leaf es) =
     (case binary_search key es of Inl _ \<Rightarrow> None | Inr i \<Rightarrow> Some (snd (es ! i)))"
| "get_node key (Internal ks cs) =
     (if child_index ks key < length cs then get_node key (cs ! child_index ks key) else None)"

definition om_get :: "'k::linorder \<Rightarrow> ('k, 'v) ord_map \<Rightarrow> 'v option" where
  "om_get key m = get_node key (om_root m)"

definition om_contains_key :: "'k::linorder \<Rightarrow> ('k, 'v) ord_map \<Rightarrow> bool" where
  "om_contains_key key m \<longleftrightarrow> om_get key m \<noteq> None"

definition om_index :: "'k::linorder \<Rightarrow> ('k, 'v) ord_map \<Rightarrow> (panic, 'v) result" where
  "om_index key m =
     ok_or (Expect_failed ''persistent ordered map index out of bounds'') (om_get key m)"

section \<open>Insertion\<close>

type_synonym ('k, 'v) split = "('k \<times> ('k, 'v) node) option"
type_synonym ('k, 'v) inserted = "('k, 'v) node \<times> 'v option \<times> ('k, 'v) split"

definition insert_leaf ::
  "'k::linorder \<Rightarrow> 'v \<Rightarrow> ('k \<times> 'v) list \<Rightarrow> (panic, ('k, 'v) inserted) result" where
  "insert_leaf key value es = (case binary_search key es of
       Inr i \<Rightarrow> Inr (Leaf (es[i := (fst (es ! i), value)]), Some (snd (es ! i)), None)
     | Inl i \<Rightarrow>
         let entries = vec_insert i (key, value) es in
         if length entries > MAX_FANOUT then
           let split_at = length entries div 2; right = drop split_at entries in
           (case right of
              [] \<Rightarrow> Inl Index_out_of_bounds
            | e # _ \<Rightarrow> Inr (Leaf (take split_at entries), None, Some (fst e, Leaf right)))
         else Inr (Leaf entries, None, None))"

text \<open>What \<open>insert_rec\<close> does with an internal node once the child has been written back.\<close>

definition insert_internal ::
  "nat \<Rightarrow> 'k list \<Rightarrow> ('k, 'v) node list \<Rightarrow> ('k, 'v) inserted \<Rightarrow> (panic, ('k, 'v) inserted) result" where
  "insert_internal idx ks cs r = (case r of (c, old, split) \<Rightarrow>
     (case split of
        None \<Rightarrow> Inr (Internal ks (cs[idx := c]), old, None)
      | Some (separator, right) \<Rightarrow>
          let keys = vec_insert idx separator ks;
              children = vec_insert (idx + 1) right (cs[idx := c])
          in if length children \<le> MAX_FANOUT then Inr (Internal keys children, old, None)
             else
               let mid = length children div 2 in
               rbind (checked_sub mid 1 ''split midpoint must be non-zero'') (\<lambda>at.
                 (case drop at keys of
                    [] \<Rightarrow> Inl Index_out_of_bounds
                  | promoted # right_keys \<Rightarrow>
                      Inr (Internal (take at keys) (take mid children), old,
                           Some (promoted, Internal right_keys (drop mid children)))))))"

fun insert_rec ::
  "'k::linorder \<Rightarrow> 'v \<Rightarrow> ('k, 'v) node \<Rightarrow> (panic, ('k, 'v) inserted) result" where
  "insert_rec key value (Leaf es) = insert_leaf key value es"
| "insert_rec key value (Internal ks cs) =
     (if child_index ks key < length cs
      then rbind (insert_rec key value (cs ! child_index ks key))
             (insert_internal (child_index ks key) ks cs)
      else Inl Index_out_of_bounds)"

definition om_insert ::
  "'k::linorder \<Rightarrow> 'v \<Rightarrow> ('k, 'v) ord_map \<Rightarrow> (panic, ('k, 'v) ord_map \<times> 'v option) result" where
  "om_insert key value m = rbind (insert_rec key value (om_root m)) (\<lambda>(root, old, split).
     rbind (case split of
              None \<Rightarrow> Inr (root, om_height m)
            | Some (separator, right) \<Rightarrow>
                rbind (checked_add U8_MAX (om_height m) 1 ''tree height overflow'')
                  (\<lambda>h. Inr (Internal [separator] [root, right], h)))
       (\<lambda>(root', height).
          rbind (if old = None then checked_add USIZE_MAX (om_len m) 1 ''map length overflow''
                 else Inr (om_len m))
            (\<lambda>len. Inr (\<lparr> om_root = root', om_height = height, om_len = len \<rparr>, old))))"

section \<open>Removal\<close>

type_synonym ('k, 'v) removed = "(('k, 'v) node \<times> 'v) option"

definition remove_leaf :: "'k::linorder \<Rightarrow> ('k \<times> 'v) list \<Rightarrow> ('k, 'v) removed" where
  "remove_leaf key es = (case binary_search key es of
       Inl _ \<Rightarrow> None
     | Inr i \<Rightarrow> Some (Leaf (vec_remove i es), snd (es ! i)))"

definition remove_leaf_copied :: "'k::linorder \<Rightarrow> ('k \<times> 'v) list \<Rightarrow> ('k, 'v) removed" where
  "remove_leaf_copied key es = (case binary_search key es of
       Inl _ \<Rightarrow> None
     | Inr i \<Rightarrow> Some (Leaf (take i es @ drop (i + 1) es), snd (es ! i)))"

text \<open>The child \<open>idx\<close> is written back (in place or into the copy) and dropped when it is empty.\<close>

definition remove_internal ::
  "nat \<Rightarrow> 'k list \<Rightarrow> ('k, 'v) node list \<Rightarrow> ('k, 'v) removed \<Rightarrow> (panic, ('k, 'v) removed) result" where
  "remove_internal idx ks cs r = (case r of
       None \<Rightarrow> Inr None
     | Some (c, removed) \<Rightarrow>
         rbind (drop_if_empty idx ks (cs[idx := c]))
           (\<lambda>(keys, children). Inr (Some (Internal keys children, removed))))"

fun remove_copied :: "'k::linorder \<Rightarrow> ('k, 'v) node \<Rightarrow> (panic, ('k, 'v) removed) result" where
  "remove_copied key (Leaf es) = Inr (remove_leaf_copied key es)"
| "remove_copied key (Internal ks cs) =
     (if child_index ks key < length cs
      then rbind (remove_copied key (cs ! child_index ks key))
             (remove_internal (child_index ks key) ks cs)
      else Inl Index_out_of_bounds)"

text \<open>\<open>unique path\<close> says whether \<open>Arc::get_mut\<close> succeeds for the node that is reached from the root
  by the child indices of \<open>path\<close>, the last one first.\<close>

fun remove_rec ::
  "(nat list \<Rightarrow> bool) \<Rightarrow> nat list \<Rightarrow> 'k::linorder \<Rightarrow> ('k, 'v) node
    \<Rightarrow> (panic, ('k, 'v) removed) result" where
  "remove_rec unique path key (Leaf es) =
     (if unique path then Inr (remove_leaf key es) else remove_copied key (Leaf es))"
| "remove_rec unique path key (Internal ks cs) =
     (if \<not> unique path then remove_copied key (Internal ks cs)
      else if child_index ks key < length cs
      then rbind (remove_rec unique (child_index ks key # path) key (cs ! child_index ks key))
             (remove_internal (child_index ks key) ks cs)
      else Inl Index_out_of_bounds)"

text \<open>The loop that replaces a root with a single child by that child.\<close>

fun collapse :: "('k, 'v) node \<Rightarrow> nat \<Rightarrow> (panic, ('k, 'v) node \<times> nat) result" where
  "collapse (Internal ks [c]) height =
     rbind (checked_sub height 1 ''tree height underflow'') (collapse c)"
| "collapse n height = Inr (n, height)"

definition om_remove ::
  "(nat list \<Rightarrow> bool) \<Rightarrow> 'k::linorder \<Rightarrow> ('k, 'v) ord_map
    \<Rightarrow> (panic, ('k, 'v) ord_map \<times> 'v option) result" where
  "om_remove unique key m = rbind (remove_rec unique [] key (om_root m)) (\<lambda>r. case r of
       None \<Rightarrow> Inr (m, None)
     | Some (root, removed) \<Rightarrow>
         rbind (checked_sub (om_len m) 1 ''map length underflow'') (\<lambda>len.
           rbind (collapse root (om_height m)) (\<lambda>(root', height).
             Inr (if len = 0 then om_new
                  else \<lparr> om_root = root', om_height = height, om_len = len \<rparr>, Some removed))))"

section \<open>Bulk construction\<close>

definition even_chunks :: "nat \<Rightarrow> nat list" where
  "even_chunks n =
     (let groups = max ((n + BULK_FILL - 1) div BULK_FILL) 1;
          base = n div groups; extra = n mod groups
      in map (\<lambda>i. base + (if i < extra then 1 else 0)) [0..<groups])"

fun take_chunks :: "nat list \<Rightarrow> 'a list \<Rightarrow> 'a list list" where
  "take_chunks [] xs = []"
| "take_chunks (n # ns) xs = take n xs # take_chunks ns (drop n xs)"

type_synonym ('k, 'v) level = "('k \<times> ('k, 'v) node) list"

definition leaf_of_chunk :: "('k \<times> 'v) list \<Rightarrow> (panic, 'k \<times> ('k, 'v) node) result" where
  "leaf_of_chunk chunk = (case chunk of
       [] \<Rightarrow> Inl Index_out_of_bounds
     | (k, _) # _ \<Rightarrow> Inr (k, Leaf chunk))"

definition internal_of_group :: "('k, 'v) level \<Rightarrow> (panic, 'k \<times> ('k, 'v) node) result" where
  "internal_of_group members = (case members of
       [] \<Rightarrow> Inl Index_out_of_bounds
     | (k, c) # rest \<Rightarrow> Inr (k, Internal (map fst rest) (c # map snd rest)))"

fun each_node :: "('a \<Rightarrow> (panic, 'b) result) \<Rightarrow> 'a list \<Rightarrow> (panic, 'b list) result" where
  "each_node f [] = Inr []"
| "each_node f (x # xs) = rbind (f x) (\<lambda>y. rbind (each_node f xs) (\<lambda>ys. Inr (y # ys)))"

definition first_level :: "('k \<times> 'v) list \<Rightarrow> (panic, ('k, 'v) level) result" where
  "first_level entries = each_node leaf_of_chunk (take_chunks (even_chunks (length entries)) entries)"

definition next_level :: "('k, 'v) level \<Rightarrow> (panic, ('k, 'v) level) result" where
  "next_level level = each_node internal_of_group (take_chunks (even_chunks (length level)) level)"

lemma length_take_chunks: "length (take_chunks ns xs) = length ns"
  by (induction ns arbitrary: xs) auto

lemma length_each_node: "each_node f xs = Inr ys \<Longrightarrow> length ys = length xs"
  by (induction xs arbitrary: ys) auto

lemma length_even_chunks: "length (even_chunks n) = max ((n + 17) div 18) 1"
  by (simp add: even_chunks_def Let_def BULK_FILL_def MAX_FANOUT_def)

lemma next_level_length:
  "next_level level = Inr level' \<Longrightarrow> length level' = max ((length level + 17) div 18) 1"
  unfolding next_level_def
  by (drule length_each_node) (simp add: length_take_chunks length_even_chunks)

function build_up :: "('k, 'v) level \<Rightarrow> nat \<Rightarrow> (panic, ('k, 'v) level \<times> nat) result" where
  "build_up level height =
     (if length level > 1 then
        (case next_level level of
           Inl e \<Rightarrow> Inl e
         | Inr level' \<Rightarrow>
             (case checked_add U8_MAX height 1 ''tree height overflow'' of
                Inl e \<Rightarrow> Inl e
              | Inr height' \<Rightarrow> build_up level' height'))
      else Inr (level, height))"
  by pat_completeness auto
termination
  by (relation "measure (\<lambda>(level, _). length level)") (auto dest: next_level_length)

declare build_up.simps [simp del]

definition from_sorted :: "('k \<times> 'v) list \<Rightarrow> (panic, ('k, 'v) ord_map) result" where
  "from_sorted entries =
     (if entries = [] then Inr om_new
      else rbind (first_level entries) (\<lambda>level.
             rbind (build_up level 0) (\<lambda>(level', height).
               (case rev level' of
                  [] \<Rightarrow> Inl (Expect_failed ''non-empty level'')
                | (_, root) # _ \<Rightarrow>
                    Inr \<lparr> om_root = root, om_height = height, om_len = length entries \<rparr>))))"

definition keep_last :: "('k \<times> 'v) \<Rightarrow> ('k \<times> 'v) list \<Rightarrow> ('k \<times> 'v) list" where
  "keep_last entry deduped =
     (if deduped \<noteq> [] \<and> fst (last deduped) = fst entry then butlast deduped @ [entry]
      else deduped @ [entry])"

definition om_from_iter :: "('k::linorder \<times> 'v) list \<Rightarrow> (panic, ('k, 'v) ord_map) result" where
  "om_from_iter items =
     from_sorted (fold keep_last (sort_by (\<lambda>a b. cmp (fst a) (fst b)) items) [])"

section \<open>Iteration\<close>

text \<open>The innermost ancestor is the head of the stack.\<close>

record ('k, 'v) iter_state =
  it_stack :: "(('k, 'v) node list \<times> nat) list"
  it_leaf :: "('k \<times> 'v) list"
  it_pos :: nat

definition iter_empty :: "('k, 'v) iter_state" where
  "iter_empty = \<lparr> it_stack = [], it_leaf = [], it_pos = 0 \<rparr>"

fun descend_leftmost ::
  "('k, 'v) node \<Rightarrow> (('k, 'v) node list \<times> nat) list \<Rightarrow> ('k, 'v) iter_state" where
  "descend_leftmost (Leaf es) st = \<lparr> it_stack = st, it_leaf = es, it_pos = 0 \<rparr>"
| "descend_leftmost (Internal ks []) st = \<lparr> it_stack = st, it_leaf = [], it_pos = 0 \<rparr>"
| "descend_leftmost (Internal ks (c # cs)) st = descend_leftmost c ((c # cs, 1) # st)"

fun seek_node ::
  "'k::linorder \<Rightarrow> bool \<Rightarrow> ('k, 'v) node \<Rightarrow> (('k, 'v) node list \<times> nat) list
    \<Rightarrow> (panic, ('k, 'v) iter_state) result" where
  "seek_node key inclusive (Leaf es) st =
     Inr \<lparr> it_stack = st, it_leaf = es,
           it_pos = length (takeWhile (\<lambda>(k, _). if inclusive then k < key else k \<le> key) es) \<rparr>"
| "seek_node key inclusive (Internal ks cs) st =
     (if cs = [] then Inr \<lparr> it_stack = st, it_leaf = [], it_pos = 0 \<rparr>
      else if child_index ks key < length cs
      then seek_node key inclusive (cs ! child_index ks key) ((cs, child_index ks key + 1) # st)
      else Inl Index_out_of_bounds)"

text \<open>The inner loop of \<open>Iter::next\<close>: exhausted ancestors are popped, and the next unvisited child is
  entered.\<close>

fun next_child :: "(('k, 'v) node list \<times> nat) list \<Rightarrow> ('k, 'v) iter_state option" where
  "next_child [] = None"
| "next_child ((cs, i) # st) =
     (if i < length cs then Some (descend_leftmost (cs ! i) ((cs, i + 1) # st)) else next_child st)"

fun node_weight :: "('k, 'v) node \<Rightarrow> nat" where
  "node_weight (Leaf es) = Suc (length es)"
| "node_weight (Internal ks cs) = Suc (sum_list (map node_weight cs))"

definition stack_weight :: "(('k, 'v) node list \<times> nat) list \<Rightarrow> nat" where
  "stack_weight st = sum_list (map (\<lambda>(cs, i). sum_list (map node_weight (drop i cs))) st)"

lemma stack_weight_simps [simp]:
  "stack_weight [] = 0"
  "stack_weight ((cs, i) # st) = sum_list (map node_weight (drop i cs)) + stack_weight st"
  by (simp_all add: stack_weight_def)

lemma descend_leftmost_weight:
  "stack_weight (it_stack (descend_leftmost n st)) < node_weight n + stack_weight st"
  by (induction n st rule: descend_leftmost.induct) auto

lemma next_child_weight:
  "next_child st = Some it \<Longrightarrow> stack_weight (it_stack it) < stack_weight st"
proof (induction st rule: next_child.induct)
  case (2 cs i st)
  show ?case
  proof (cases "i < length cs")
    case True
    with 2 show ?thesis
      using descend_leftmost_weight [of "cs ! i" "(cs, i + 1) # st"]
      by (auto simp: Cons_nth_drop_Suc [symmetric])
  qed (use 2 in auto)
qed simp

function iter_next :: "('k, 'v) iter_state \<Rightarrow> ('k \<times> 'v) option \<times> ('k, 'v) iter_state" where
  "iter_next it =
     (if it_pos it < length (it_leaf it)
      then (Some (it_leaf it ! it_pos it), it\<lparr>it_pos := it_pos it + 1\<rparr>)
      else (case next_child (it_stack it) of
              None \<Rightarrow> (None, it\<lparr>it_stack := []\<rparr>)
            | Some it' \<Rightarrow> iter_next it'))"
  by pat_completeness auto
termination
  by (relation "measure (\<lambda>it. stack_weight (it_stack it))") (auto dest: next_child_weight)

declare iter_next.simps [simp del]

definition om_iter :: "('k, 'v) ord_map \<Rightarrow> ('k, 'v) iter_state" where
  "om_iter m = descend_leftmost (om_root m) []"

text \<open>The items of the first \<open>n\<close> calls of an iterator, up to the first \<open>None\<close>.\<close>

fun pull :: "('s \<Rightarrow> 'a option \<times> 's) \<Rightarrow> nat \<Rightarrow> 's \<Rightarrow> 'a list" where
  "pull f 0 s = []"
| "pull f (Suc n) s = (case f s of
       (None, _) \<Rightarrow> []
     | (Some x, s') \<Rightarrow> x # pull f n s')"

datatype 'k bound = Included 'k | Excluded 'k | Unbounded

definition om_range_start ::
  "'k::linorder bound \<Rightarrow> ('k, 'v) ord_map \<Rightarrow> (panic, ('k, 'v) iter_state) result" where
  "om_range_start start m = (case start of
       Unbounded \<Rightarrow> Inr (om_iter m)
     | Included key \<Rightarrow> seek_node key True (om_root m) []
     | Excluded key \<Rightarrow> seek_node key False (om_root m) [])"

definition within_end :: "'k::linorder bound \<Rightarrow> 'k \<Rightarrow> bool" where
  "within_end b key = (case b of
       Included e \<Rightarrow> key \<le> e
     | Excluded e \<Rightarrow> key < e
     | Unbounded \<Rightarrow> True)"

definition range_next ::
  "'k::linorder bound \<Rightarrow> ('k, 'v) iter_state \<Rightarrow> ('k \<times> 'v) option \<times> ('k, 'v) iter_state" where
  "range_next end_bound it = (case iter_next it of
       (None, it') \<Rightarrow> (None, it')
     | (Some (key, value), it') \<Rightarrow>
         if within_end end_bound key then (Some (key, value), it') else (None, iter_empty))"

section \<open>Differences\<close>

datatype ('k, 'v) diff_item =
    Add 'k 'v
  | Update "'k \<times> 'v" "'k \<times> 'v"
  | Remove 'k 'v

datatype ('k, 'v) head_item = Head_Node "('k, 'v) node" | Head_Entry 'k 'v

datatype ('k, 'v) frame =
    Nodes "('k, 'v) node list" nat nat
  | Entries "('k \<times> 'v) list" nat

type_synonym ('k, 'v) cursor = "('k, 'v) frame list"

record ('k, 'v) diff_walker =
  dw_left :: "('k, 'v) cursor"
  dw_right :: "('k, 'v) cursor"
  dw_expansions :: nat

definition cursor_new :: "('k, 'v) node \<Rightarrow> nat \<Rightarrow> ('k, 'v) cursor" where
  "cursor_new root height = [Nodes [root] 0 height]"

definition frame_head :: "('k, 'v) frame \<Rightarrow> ('k, 'v) head_item option" where
  "frame_head f = (case f of
       Nodes items idx _ \<Rightarrow> map_option Head_Node (vec_get items idx)
     | Entries items idx \<Rightarrow> map_option (\<lambda>(k, v). Head_Entry k v) (vec_get items idx))"

fun cursor_head :: "('k, 'v) cursor \<Rightarrow> ('k, 'v) head_item option \<times> ('k, 'v) cursor" where
  "cursor_head [] = (None, [])"
| "cursor_head (f # st) = (case frame_head f of
       None \<Rightarrow> cursor_head st
     | Some h \<Rightarrow> (Some h, f # st))"

fun cursor_skip :: "('k, 'v) cursor \<Rightarrow> ('k, 'v) cursor" where
  "cursor_skip [] = []"
| "cursor_skip (Nodes items idx height # st) = Nodes items (idx + 1) height # st"
| "cursor_skip (Entries items idx # st) = Entries items (idx + 1) # st"

fun cursor_expand :: "('k, 'v) cursor \<Rightarrow> ('k, 'v) cursor" where
  "cursor_expand (Nodes items idx height # st) = (case vec_get items idx of
       None \<Rightarrow> Nodes items idx height # st
     | Some (Leaf es) \<Rightarrow> Entries es 0 # Nodes items (idx + 1) height # st
     | Some (Internal _ cs) \<Rightarrow> Nodes cs 0 (height - 1) # Nodes items (idx + 1) height # st)"
| "cursor_expand st = st"

fun frame_height :: "('k, 'v) cursor \<Rightarrow> nat" where
  "frame_height (Nodes _ _ height # _) = height"
| "frame_height _ = 0"

text \<open>\<open>same l r ln rn\<close> is the answer of \<open>Arc::ptr_eq\<close> for the nodes at the heads of the cursors.\<close>

type_synonym ('k, 'v) ptr_eq =
  "('k, 'v) cursor \<Rightarrow> ('k, 'v) cursor \<Rightarrow> ('k, 'v) node \<Rightarrow> ('k, 'v) node \<Rightarrow> bool"

definition advance_nodes ::
  "('k::linorder, 'v) ptr_eq \<Rightarrow> ('k, 'v) cursor \<Rightarrow> ('k, 'v) cursor \<Rightarrow> ('k, 'v) node \<Rightarrow> ('k, 'v) node
    \<Rightarrow> ('k, 'v) cursor \<times> ('k, 'v) cursor \<times> nat" where
  "advance_nodes same l r ln rn =
     (if same l r ln rn then (cursor_skip l, cursor_skip r, 0)
      else (case (first_key ln, first_key rn) of
              (Some lk, Some rk) \<Rightarrow>
                (case cmp lk rk of
                   Less \<Rightarrow> (cursor_expand l, r, 1)
                 | Greater \<Rightarrow> (l, cursor_expand r, 1)
                 | Equal \<Rightarrow>
                     (if frame_height l \<ge> frame_height r then cursor_expand l else l,
                      if frame_height r \<ge> frame_height l then cursor_expand r else r,
                      (if frame_height l \<ge> frame_height r then 1 else 0) +
                      (if frame_height r \<ge> frame_height l then 1 else 0)))
            | (lk, _) \<Rightarrow> if lk = None then (cursor_skip l, r, 0) else (l, cursor_skip r, 0)))"

definition walker_new :: "('k, 'v) ord_map \<Rightarrow> ('k, 'v) ord_map \<Rightarrow> ('k, 'v) diff_walker" where
  "walker_new old new =
     \<lparr> dw_left = cursor_new (om_root old) (om_height old),
       dw_right = cursor_new (om_root new) (om_height new), dw_expansions = 0 \<rparr>"

definition diff_entries ::
  "'k::linorder \<Rightarrow> 'v \<Rightarrow> 'k \<Rightarrow> 'v \<Rightarrow> ('k, 'v) cursor \<Rightarrow> ('k, 'v) cursor
    \<Rightarrow> ('k, 'v) diff_item option \<times> ('k, 'v) cursor \<times> ('k, 'v) cursor \<times> nat" where
  "diff_entries lk lv rk rv l r = (case cmp lk rk of
       Less \<Rightarrow> (Some (Remove lk lv), cursor_skip l, r, 0)
     | Greater \<Rightarrow> (Some (Add rk rv), l, cursor_skip r, 0)
     | Equal \<Rightarrow>
         (if lv \<noteq> rv then Some (Update (lk, lv) (rk, rv)) else None, cursor_skip l, cursor_skip r, 0))"

text \<open>The body of the loop of \<open>next_item\<close> on the heads of the cursors, which are not both exhausted:
  the item to return (\<open>None\<close> to go on), the cursors, and the number of nodes opened.\<close>

fun diff_body ::
  "('k::linorder, 'v) ptr_eq \<Rightarrow> ('k, 'v) head_item option \<Rightarrow> ('k, 'v) head_item option
    \<Rightarrow> ('k, 'v) cursor \<Rightarrow> ('k, 'v) cursor
    \<Rightarrow> ('k, 'v) diff_item option \<times> ('k, 'v) cursor \<times> ('k, 'v) cursor \<times> nat" where
  "diff_body same None None l r = (None, l, r, 0)"
| "diff_body same (Some (Head_Entry k v)) None l r = (Some (Remove k v), cursor_skip l, r, 0)"
| "diff_body same None (Some (Head_Entry k v)) l r = (Some (Add k v), l, cursor_skip r, 0)"
| "diff_body same (Some (Head_Node _)) None l r = (None, cursor_expand l, r, 1)"
| "diff_body same None (Some (Head_Node _)) l r = (None, l, cursor_expand r, 1)"
| "diff_body same (Some (Head_Entry lk lv)) (Some (Head_Entry rk rv)) l r =
     diff_entries lk lv rk rv l r"
| "diff_body same (Some (Head_Node ln)) (Some (Head_Node rn)) l r =
     (None, advance_nodes same l r ln rn)"
| "diff_body same (Some (Head_Node ln)) (Some (Head_Entry rk rv)) l r = (case first_key ln of
       None \<Rightarrow> (None, cursor_skip l, r, 0)
     | Some lk \<Rightarrow>
         if lk > rk then (Some (Add rk rv), l, cursor_skip r, 0) else (None, cursor_expand l, r, 1))"
| "diff_body same (Some (Head_Entry lk lv)) (Some (Head_Node rn)) l r = (case first_key rn of
       None \<Rightarrow> (None, l, cursor_skip r, 0)
     | Some rk \<Rightarrow>
         if rk > lk then (Some (Remove lk lv), cursor_skip l, r, 0) else (None, l, cursor_expand r, 1))"

text \<open>What a cursor still has to visit, which every turn of the loop reduces.\<close>

definition frame_weight :: "('k, 'v) frame \<Rightarrow> nat" where
  "frame_weight f = (case f of
       Nodes items idx _ \<Rightarrow> sum_list (map node_weight (drop idx items))
     | Entries items idx \<Rightarrow> length items - idx)"

definition cursor_weight :: "('k, 'v) cursor \<Rightarrow> nat" where
  "cursor_weight st = sum_list (map frame_weight st)"

lemma cursor_weight_simps [simp]:
  "cursor_weight [] = 0"
  "cursor_weight (f # st) = frame_weight f + cursor_weight st"
  "frame_weight (Nodes items idx h) = sum_list (map node_weight (drop idx items))"
  "frame_weight (Entries es idx) = length es - idx"
  by (simp_all add: cursor_weight_def frame_weight_def)

lemma cursor_head_weight: "cursor_weight (snd (cursor_head st)) \<le> cursor_weight st"
  by (induction st rule: cursor_head.induct) (auto split: option.splits)

text \<open>The shapes of a cursor whose head is a node, and of one whose head is an entry.\<close>

lemma cursor_head_node:
  assumes "cursor_head st = (Some (Head_Node n), st')"
  obtains items idx h rest where "st' = Nodes items idx h # rest" "idx < length items"
    "items ! idx = n"
  using assms
proof (induction st)
  case (Cons f st)
  then show ?case
    by (cases f) (auto simp: frame_head_def vec_get_def split: if_splits option.splits prod.splits)
qed simp

lemma cursor_head_entry:
  assumes "cursor_head st = (Some (Head_Entry k v), st')"
  obtains items idx rest where "st' = Entries items idx # rest" "idx < length items"
    "items ! idx = (k, v)"
  using assms
proof (induction st)
  case (Cons f st)
  then show ?case
    by (cases f) (auto simp: frame_head_def vec_get_def split: if_splits option.splits prod.splits)
qed simp

lemma cursor_head_none: "cursor_head st = (None, st') \<Longrightarrow> st' = []"
  by (induction st) (auto split: option.splits)

lemma sum_list_drop:
  "i < length xs \<Longrightarrow> sum_list (map f (drop i xs)) = f (xs ! i) + sum_list (map f (drop (Suc i) xs))"
  for f :: "'a \<Rightarrow> nat"
  by (metis Cons_nth_drop_Suc list.simps(9) sum_list.Cons)

lemma cursor_node_weight:
  assumes "cursor_head st = (Some (Head_Node n), st')"
  shows "cursor_weight (cursor_skip st') < cursor_weight st'"
    and "cursor_weight (cursor_expand st') < cursor_weight st'"
proof -
  obtain items idx h rest where st': "st' = Nodes items idx h # rest"
    and idx: "idx < length items" and n: "items ! idx = n"
    using assms by (rule cursor_head_node)
  note w = sum_list_drop [OF idx, of node_weight, unfolded n]
  show "cursor_weight (cursor_skip st') < cursor_weight st'"
    by (cases n) (simp_all add: st' w)
  show "cursor_weight (cursor_expand st') < cursor_weight st'"
    by (cases n) (simp_all add: st' w idx n vec_get_def)
qed

lemma cursor_entry_weight:
  assumes "cursor_head st = (Some (Head_Entry k v), st')"
  shows "cursor_weight (cursor_skip st') < cursor_weight st'"
  using assms by (auto elim!: cursor_head_entry)

lemmas cursor_weights = cursor_node_weight cursor_entry_weight

lemma advance_nodes_weight:
  assumes "cursor_head l0 = (Some (Head_Node ln), l)" "cursor_head r0 = (Some (Head_Node rn), r)"
    and "advance_nodes same l r ln rn = (l', r', n)"
  shows "cursor_weight l' + cursor_weight r' < cursor_weight l + cursor_weight r"
  using cursor_node_weight [OF assms(1)] cursor_node_weight [OF assms(2)] assms(3)
  unfolding advance_nodes_def by (auto split: if_splits option.splits ordering.splits)

lemma diff_body_weight:
  assumes "cursor_head l0 = (hl, l)" "cursor_head r0 = (hr, r)" "\<not> (hl = None \<and> hr = None)"
    and "diff_body same hl hr l r = (item, l', r', n)"
  shows "cursor_weight l' + cursor_weight r' < cursor_weight l + cursor_weight r"
  using assms
proof (induction same hl hr l r rule: diff_body.induct)
  case (6 same lk lv rk rv l r)
  then show ?case
    using cursor_entry_weight [OF 6(1)] cursor_entry_weight [OF 6(2)]
    by (auto simp: diff_entries_def split: ordering.splits)
next
  case (7 same ln rn l r)
  then show ?case by (auto dest: advance_nodes_weight)
next
  case (8 same ln rk rv l r)
  then show ?case
    using cursor_node_weight [OF 8(1)] cursor_entry_weight [OF 8(2)]
    by (auto split: option.splits if_splits)
next
  case (9 same lk lv rn l r)
  then show ?case
    using cursor_node_weight [OF 9(2)] cursor_entry_weight [OF 9(1)]
    by (auto split: option.splits if_splits)
qed (auto dest: cursor_weights)

definition walker_weight :: "('k, 'v) diff_walker \<Rightarrow> nat" where
  "walker_weight w = cursor_weight (dw_left w) + cursor_weight (dw_right w)"

definition diff_turn ::
  "('k::linorder, 'v) ptr_eq \<Rightarrow> ('k, 'v) diff_walker
    \<Rightarrow> (('k, 'v) diff_item option \<times> ('k, 'v) diff_walker) option" where
  "diff_turn same w =
     (case (cursor_head (dw_left w), cursor_head (dw_right w)) of
        ((hl, l), (hr, r)) \<Rightarrow>
          if hl = None \<and> hr = None then None
          else (case diff_body same hl hr l r of
                  (item, l', r', opened) \<Rightarrow>
                    Some (item, \<lparr> dw_left = l', dw_right = r',
                                  dw_expansions = dw_expansions w + opened \<rparr>)))"

lemma diff_turn_weight:
  assumes "diff_turn same w = Some (item, w')"
  shows "walker_weight w' < walker_weight w"
proof -
  obtain hl l hr r where h: "cursor_head (dw_left w) = (hl, l)" "cursor_head (dw_right w) = (hr, r)"
    by fastforce
  obtain item' l' r' n where b: "diff_body same hl hr l r = (item', l', r', n)"
    using prod_cases4 by blast
  from assms h b have "\<not> (hl = None \<and> hr = None)" "dw_left w' = l'" "dw_right w' = r'"
    by (auto simp: diff_turn_def split: if_splits)
  with diff_body_weight [OF h this(1) b] cursor_head_weight [of "dw_left w"]
    cursor_head_weight [of "dw_right w"] h
  show ?thesis by (simp add: walker_weight_def)
qed

text \<open>\<open>next_item\<close>: the loop ends with \<open>None\<close> when both cursors are exhausted, which leaves their
  stacks empty.\<close>

function next_item ::
  "('k::linorder, 'v) ptr_eq \<Rightarrow> ('k, 'v) diff_walker
    \<Rightarrow> ('k, 'v) diff_item option \<times> ('k, 'v) diff_walker" where
  "next_item same w = (case diff_turn same w of
       None \<Rightarrow> (None, w\<lparr>dw_left := [], dw_right := []\<rparr>)
     | Some (None, w') \<Rightarrow> next_item same w'
     | Some (Some item, w') \<Rightarrow> (Some item, w'))"
  by pat_completeness auto
termination
  by (relation "measure (\<lambda>(_, w). walker_weight w)") (auto dest: diff_turn_weight)

declare next_item.simps [simp del]

text \<open>\<open>PartialEq\<close>: the same root pointer, or the same length and no difference.\<close>

definition om_eq ::
  "bool \<Rightarrow> ('k::linorder, 'v) ptr_eq \<Rightarrow> ('k, 'v) ord_map \<Rightarrow> ('k, 'v) ord_map \<Rightarrow> bool" where
  "om_eq same_root same a b \<longleftrightarrow>
     same_root \<or> om_len a = om_len b \<and> fst (next_item same (walker_new a b)) = None"

end
