(* ===== verification/Ord_Map_Correct.thy ===== *)
theory Ord_Map_Correct
  imports Ord_Map
begin

text \<open>
  The persistent ordered map refines a sorted association list: the abstraction \<open>om_entries\<close> reads the
  entries off the leaves, the invariant \<open>om_ok\<close> is the list of invariants in the header of
  \<open>persistent_ord_map.rs\<close>, and every operation is shown to keep the invariant, not to panic, and to be
  the operation on the list.
\<close>

section \<open>Abstraction and invariant\<close>

fun node_entries :: "('k, 'v) node \<Rightarrow> ('k \<times> 'v) list" where
  "node_entries (Leaf es) = es"
| "node_entries (Internal ks cs) = concat (map node_entries cs)"

definition om_entries :: "('k, 'v) ord_map \<Rightarrow> ('k \<times> 'v) list" where
  "om_entries m = node_entries (om_root m)"

text \<open>A subtree lies in a range with an inclusive lower and an exclusive upper bound. Separators lie
  strictly between the bounds.\<close>

definition in_range :: "'k::linorder option \<Rightarrow> 'k option \<Rightarrow> 'k \<Rightarrow> bool" where
  "in_range lo hi k \<longleftrightarrow>
     (case lo of None \<Rightarrow> True | Some l \<Rightarrow> l \<le> k) \<and> (case hi of None \<Rightarrow> True | Some u \<Rightarrow> k < u)"

definition between :: "'k::linorder option \<Rightarrow> 'k option \<Rightarrow> 'k \<Rightarrow> bool" where
  "between lo hi k \<longleftrightarrow>
     (case lo of None \<Rightarrow> True | Some l \<Rightarrow> l < k) \<and> (case hi of None \<Rightarrow> True | Some u \<Rightarrow> k < u)"

fun kids ::
  "('k::linorder option \<Rightarrow> 'k option \<Rightarrow> 'n \<Rightarrow> bool) \<Rightarrow> 'k option \<Rightarrow> 'k option \<Rightarrow> 'k list \<Rightarrow> 'n list
    \<Rightarrow> bool" where
  "kids P lo hi [] [c] \<longleftrightarrow> P lo hi c"
| "kids P lo hi (k # ks) (c # cs) \<longleftrightarrow>
     between lo hi k \<and> P lo (Some k) c \<and> kids P (Some k) hi ks cs"
| "kids P lo hi _ _ \<longleftrightarrow> False"

definition leaf_ok :: "'k::linorder option \<Rightarrow> 'k option \<Rightarrow> ('k \<times> 'v) list \<Rightarrow> bool" where
  "leaf_ok lo hi es \<longleftrightarrow>
     length es \<le> MAX_FANOUT \<and> bm_inv es \<and> (\<forall>k \<in> set (map fst es). in_range lo hi k)"

primrec bt_ok :: "nat \<Rightarrow> 'k::linorder option \<Rightarrow> 'k option \<Rightarrow> ('k, 'v) node \<Rightarrow> bool" where
  "bt_ok 0 lo hi n = (case n of Leaf es \<Rightarrow> es \<noteq> [] \<and> leaf_ok lo hi es | Internal _ _ \<Rightarrow> False)"
| "bt_ok (Suc h) lo hi n = (case n of
       Leaf _ \<Rightarrow> False
     | Internal ks cs \<Rightarrow> length cs \<le> MAX_FANOUT \<and> kids (bt_ok h) lo hi ks cs)"

definition om_ok :: "('k::linorder, 'v) ord_map \<Rightarrow> bool" where
  "om_ok m \<longleftrightarrow>
     (bt_ok (om_height m) None None (om_root m) \<or> om_root m = Leaf [] \<and> om_height m = 0) \<and>
     om_len m = length (om_entries m)"

section \<open>Ranges\<close>

lemma in_range_simps [simp]:
  "in_range None None k"
  "in_range (Some l) hi k \<longleftrightarrow> l \<le> k \<and> in_range None hi k"
  "in_range None (Some u) k \<longleftrightarrow> k < u"
  by (auto simp: in_range_def)

lemma between_simps [simp]:
  "between None None k"
  "between (Some l) hi k \<longleftrightarrow> l < k \<and> between None hi k"
  "between None (Some u) k \<longleftrightarrow> k < u"
  by (auto simp: between_def)

lemma in_range_split: "in_range lo hi k \<longleftrightarrow> in_range lo None k \<and> in_range None hi k"
  by (auto simp: in_range_def)

lemma between_split: "between lo hi k \<longleftrightarrow> between lo None k \<and> between None hi k"
  by (auto simp: between_def)

text \<open>One range inside another.\<close>

definition lower :: "'k::linorder option \<Rightarrow> 'k option \<Rightarrow> bool" where
  "lower lo lo' \<longleftrightarrow> (case lo of None \<Rightarrow> True | Some l \<Rightarrow> (case lo' of None \<Rightarrow> False | Some l' \<Rightarrow> l \<le> l'))"

definition upper :: "'k::linorder option \<Rightarrow> 'k option \<Rightarrow> bool" where
  "upper hi hi' \<longleftrightarrow> (case hi of None \<Rightarrow> True | Some u \<Rightarrow> (case hi' of None \<Rightarrow> False | Some u' \<Rightarrow> u' \<le> u))"

lemma range_refl [simp]: "lower lo lo" "upper hi hi"
  by (simp_all add: lower_def upper_def split: option.split)

lemma lower_between: "between lo hi k \<Longrightarrow> lower lo (Some k)"
  by (auto simp: between_def lower_def split: option.splits)

lemma upper_between: "between lo hi k \<Longrightarrow> upper hi (Some k)"
  by (auto simp: between_def upper_def split: option.splits)

lemma in_range_mono: "in_range lo hi k \<Longrightarrow> lower lo' lo \<Longrightarrow> upper hi' hi \<Longrightarrow> in_range lo' hi' k"
  by (auto simp: in_range_def lower_def upper_def split: option.splits)

lemma between_mono: "between lo hi k \<Longrightarrow> lower lo' lo \<Longrightarrow> upper hi' hi \<Longrightarrow> between lo' hi' k"
  by (auto simp: between_def lower_def upper_def split: option.splits)

lemma between_trans: "between lo hi k \<Longrightarrow> between (Some k) hi k' \<Longrightarrow> between lo hi k'"
  by (auto simp: between_def split: option.splits)

section \<open>Children and their separators\<close>

lemma kids_length: "kids P lo hi ks cs \<Longrightarrow> length cs = Suc (length ks)"
  by (induction P lo hi ks cs rule: kids.induct) auto

lemma kids_nonempty: "kids P lo hi ks cs \<Longrightarrow> cs \<noteq> []"
  by (auto dest: kids_length)

lemma kids_mono:
  assumes "kids P lo hi ks cs" "lower lo' lo" "upper hi' hi"
    and "\<And>l u l' u' c. P l u c \<Longrightarrow> lower l' l \<Longrightarrow> upper u' u \<Longrightarrow> Q l' u' c"
  shows "kids Q lo' hi' ks cs"
  using assms
proof (induction P lo hi ks cs arbitrary: lo' rule: kids.induct)
  case (2 P lo hi k ks c cs)
  then show ?case by (auto intro: between_mono)
qed auto

lemma bt_ok_mono:
  "bt_ok h lo hi n \<Longrightarrow> lower lo' lo \<Longrightarrow> upper hi' hi \<Longrightarrow> bt_ok h lo' hi' n"
proof (induction h arbitrary: lo hi lo' hi' n)
  case 0
  then show ?case by (auto simp: leaf_ok_def intro: in_range_mono split: node.splits)
next
  case (Suc h)
  then show ?case by (auto intro: kids_mono split: node.splits)
qed

lemma kids_separators:
  "kids P lo hi ks cs \<Longrightarrow> k \<in> set ks \<Longrightarrow> between lo hi k"
  by (induction P lo hi ks cs rule: kids.induct) (auto intro: between_trans)

lemma kids_range:
  assumes "kids P lo hi ks cs" "c \<in> set cs" "k \<in> f c"
    and "\<forall>l u c k. P l u c \<longrightarrow> k \<in> f c \<longrightarrow> in_range l u k"
  shows "in_range lo hi k"
  using assms
proof (induction P lo hi ks cs rule: kids.induct)
  case (2 P lo hi s ks d cs)
  from "2.prems"(1) have s: "between lo hi s" by simp
  show ?case
  proof (cases "c = d")
    case True
    with 2 have "in_range lo (Some s) k" by auto
    then show ?thesis by (rule in_range_mono) (simp_all add: upper_between [OF s])
  next
    case False
    with 2 have "in_range (Some s) hi k" by auto
    then show ?thesis by (rule in_range_mono) (simp_all add: lower_between [OF s] del: in_range_simps)
  qed
qed auto

lemma kids_entries:
  assumes "kids P lo hi ks cs"
    and sub: "\<And>l u c. P l u c \<Longrightarrow> bm_inv (f c)"
    and range: "\<forall>l u c k. P l u c \<longrightarrow> k \<in> fst ` set (f c) \<longrightarrow> in_range l u k"
  shows "bm_inv (concat (map f cs))"
  using assms
proof (induction P lo hi ks cs rule: kids.induct)
  case (2 P lo hi k ks c cs)
  from "2.prems"(1) have c: "P lo (Some k) c" and cs: "kids P (Some k) hi ks cs" by auto
  have "bm_inv (concat (map f cs))"
    by (rule "2.IH" [OF cs _ "2.prems"(3)]) (rule "2.prems"(2))
  moreover have "x < k" if "x \<in> fst ` set (f c)" for x
    using "2.prems"(3) c that in_range_split [of lo "Some k" x] by simp
  moreover have "k \<le> y" if "d \<in> set cs" "y \<in> fst ` set (f d)" for d y
  proof -
    have "in_range (Some k) hi y"
      by (rule kids_range [where f = "\<lambda>c. fst ` set (f c)", OF cs that "2.prems"(3)])
    then show ?thesis by simp
  qed
  ultimately show ?case
    using "2.prems"(2) [OF c] by (fastforce simp: bm_inv_def sorted_wrt_append)
qed simp_all

lemma bt_entries:
  assumes "bt_ok h lo hi n"
  shows "bm_inv (node_entries n) \<and> (\<forall>k \<in> fst ` set (node_entries n). in_range lo hi k)"
  using assms
proof (induction h arbitrary: lo hi n)
  case 0
  then show ?case by (auto simp: leaf_ok_def split: node.splits)
next
  case (Suc h)
  then obtain ks cs where n: "n = Internal ks cs" and k: "kids (bt_ok h) lo hi ks cs"
    by (auto split: node.splits)
  have "bm_inv (concat (map node_entries cs))"
    by (rule kids_entries [OF k]) (use Suc.IH in blast)+
  moreover have "in_range lo hi x" if "c \<in> set cs" "x \<in> fst ` set (node_entries c)" for c x
    by (rule kids_range [where f = "\<lambda>c. fst ` set (node_entries c)", OF k that]) (use Suc.IH in blast)
  ultimately show ?case by (auto simp: n)
qed

lemmas bt_sorted = bt_entries [THEN conjunct1]

lemma bt_range: "bt_ok h lo hi n \<Longrightarrow> k \<in> fst ` set (node_entries n) \<Longrightarrow> in_range lo hi k"
  using bt_entries by blast

lemma bt_nonempty: "bt_ok h lo hi n \<Longrightarrow> node_entries n \<noteq> [] \<and> \<not> node_is_empty n"
proof (induction h arbitrary: lo hi n)
  case 0
  then show ?case by (auto simp: node_is_empty_def split: node.splits)
next
  case (Suc h)
  then obtain ks cs where n: "n = Internal ks cs" and k: "kids (bt_ok h) lo hi ks cs"
    by (auto split: node.splits)
  then obtain c ds where cs: "cs = c # ds" by (cases cs) (auto dest: kids_nonempty)
  from k cs have "\<exists>l u. bt_ok h l u c" by (cases ks; cases ds) auto
  with Suc.IH show ?case by (auto simp: n cs node_is_empty_def)
qed

text \<open>The child that \<open>child_index\<close> selects for a key in range: its own range holds the key, the
  children before it lie below the key and those after it above, and it can be replaced by one
  child, or by two children with a separator between them.\<close>

lemma child_index_simps [simp]:
  "child_index [] key = 0"
  "child_index (k # ks) key = (if k \<le> key then Suc (child_index ks key) else 0)"
  by (auto simp: child_index_def)

lemma kids_focus:
  assumes "kids P lo hi ks cs" "in_range lo hi key"
    and range: "\<forall>l u c k. P l u c \<longrightarrow> k \<in> f c \<longrightarrow> in_range l u k"
  shows "\<exists>cs1 c cs2 ks1 ks2 l u.
    cs = cs1 @ c # cs2 \<and> ks = ks1 @ ks2 \<and> length cs1 = child_index ks key \<and>
    length ks1 = child_index ks key \<and>
    P l u c \<and> in_range l u key \<and>
    (\<forall>d \<in> set cs1. \<forall>k \<in> f d. k < key) \<and> (\<forall>d \<in> set cs2. \<forall>k \<in> f d. key < k) \<and>
    (\<forall>c'. P l u c' \<longrightarrow> kids P lo hi ks (cs1 @ c' # cs2)) \<and>
    (\<forall>c1 s c2. between l u s \<longrightarrow> P l (Some s) c1 \<longrightarrow> P (Some s) u c2 \<longrightarrow>
       kids P lo hi (ks1 @ s # ks2) (cs1 @ c1 # c2 # cs2))"
  using assms
proof (induction P lo hi ks cs rule: kids.induct)
  case (1 P lo hi c)
  then show ?case
    by (intro exI [of _ "[]"] exI [of _ c] exI [of _ lo] exI [of _ hi]) auto
next
  case (2 P lo hi k ks c cs)
  note range = "2.prems"(3)
  from "2.prems"(1) have k: "between lo hi k" and c: "P lo (Some k) c"
    and cs: "kids P (Some k) hi ks cs" by auto
  show ?case
  proof (cases "k \<le> key")
    case False
    have above: "key < x" if "d \<in> set cs" "x \<in> f d" for d x
    proof -
      have "in_range (Some k) hi x" by (rule kids_range [where f = f, OF cs that range])
      with False show ?thesis by (auto simp: not_le intro: less_le_trans)
    qed
    have two: "kids P lo hi (s # k # ks) (c1 # c2 # cs)"
      if "between lo (Some k) s" "P lo (Some s) c1" "P (Some s) (Some k) c2" for s c1 c2
      using that k cs between_split [of lo "Some k" s] between_mono [OF that(1) range_refl(1) upper_between [OF k]]
        between_split [of lo hi k]
      by simp
    have "in_range lo (Some k) key"
      using "2.prems"(2) False in_range_split [of lo hi key] in_range_split [of lo "Some k" key] by simp
    with False above c k cs two show ?thesis
      by (intro exI [of _ "[]"] exI [of _ c] exI [of _ cs] exI [of _ "k # ks"] exI [of _ lo]
          exI [of _ "Some k"]) auto
  next
    case True
    then have "in_range (Some k) hi key"
      using "2.prems"(2) in_range_split [of lo hi key] by simp
    from "2.IH" [OF cs this range] obtain cs1 d cs2 ks1 ks2 l u where
      IH: "cs = cs1 @ d # cs2" "ks = ks1 @ ks2" "length cs1 = child_index ks key"
        "length ks1 = child_index ks key" "P l u d" "in_range l u key"
        "\<forall>d \<in> set cs1. \<forall>k \<in> f d. k < key" "\<forall>d \<in> set cs2. \<forall>k \<in> f d. key < k"
        "\<forall>c'. P l u c' \<longrightarrow> kids P (Some k) hi ks (cs1 @ c' # cs2)"
        "\<forall>c1 s c2. between l u s \<longrightarrow> P l (Some s) c1 \<longrightarrow> P (Some s) u c2 \<longrightarrow>
           kids P (Some k) hi (ks1 @ s # ks2) (cs1 @ c1 # c2 # cs2)"
      by auto
    have below: "x < key" if "x \<in> f c" for x
      using range c that True in_range_split [of lo "Some k" x] by (auto intro: less_le_trans)
    show ?thesis
      by (intro exI [of _ "c # cs1"] exI [of _ d] exI [of _ cs2] exI [of _ "k # ks1"] exI [of _ ks2]
          exI [of _ l] exI [of _ u]) (use IH True c k below in simp)
  qed
qed auto

text \<open>An overfull list of children is split at a separator, which moves up.\<close>

lemma kids_split_at:
  assumes "kids P lo hi ks cs" "Suc m < length cs"
  shows "between lo hi (ks ! m)" "kids P lo (Some (ks ! m)) (take m ks) (take (Suc m) cs)"
    "kids P (Some (ks ! m)) hi (drop (Suc m) ks) (drop (Suc m) cs)"
proof -
  have "between lo hi (ks ! m) \<and> kids P lo (Some (ks ! m)) (take m ks) (take (Suc m) cs) \<and>
    kids P (Some (ks ! m)) hi (drop (Suc m) ks) (drop (Suc m) cs)"
    using assms
  proof (induction P lo hi ks cs arbitrary: m rule: kids.induct)
    case (2 P lo hi k ks c cs)
    show ?case
    proof (cases m)
      case 0
      with 2 show ?thesis by simp
    next
      case (Suc m')
      with 2 have IH: "between (Some k) hi (ks ! m')"
        "kids P (Some k) (Some (ks ! m')) (take m' ks) (take (Suc m') cs)"
        "kids P (Some (ks ! m')) hi (drop (Suc m') ks) (drop (Suc m') cs)"
        by auto
      have "between lo (Some (ks ! m')) k"
        using IH(1) "2.prems"(1) between_split [of lo hi k] between_split [of lo "Some (ks ! m')" k]
        by simp
      with IH Suc 2 show ?thesis by (auto intro: between_trans)
    qed
  qed auto
  then show "between lo hi (ks ! m)" "kids P lo (Some (ks ! m)) (take m ks) (take (Suc m) cs)"
    "kids P (Some (ks ! m)) hi (drop (Suc m) ks) (drop (Suc m) cs)" by auto
qed

text \<open>A child can be dropped together with the separator before it (after it, for the first one).\<close>

lemma kids_drop_first:
  assumes "kids P lo hi (k # ks) (c # cs)"
    and "\<forall>l u l' u' c. P l u c \<longrightarrow> lower l' l \<longrightarrow> upper u' u \<longrightarrow> P l' u' c"
  shows "kids P lo hi ks cs"
proof (rule kids_mono)
  show "kids P (Some k) hi ks cs" "lower lo (Some k)"
    using assms(1) by (auto intro: lower_between)
qed (use assms(2) in auto)

lemma kids_drop:
  assumes "kids P lo hi ks cs" "ks \<noteq> []" "i < length cs"
    and "\<forall>l u l' u' c. P l u c \<longrightarrow> lower l' l \<longrightarrow> upper u' u \<longrightarrow> P l' u' c"
  shows "kids P lo hi (vec_remove (i - 1) ks) (vec_remove i cs)"
  using assms
proof (induction P lo hi ks cs arbitrary: i rule: kids.induct)
  case (2 P lo hi k ks c cs)
  note mono = "2.prems"(4)
  from "2.prems"(1) have k: "between lo hi k" and c: "P lo (Some k) c"
    and cs: "kids P (Some k) hi ks cs" by auto
  consider "i = 0" | "i = 1" | j where "i = Suc (Suc j)"
    by (metis One_nat_def nat.exhaust)
  then show ?case
  proof cases
    case 1
    with kids_drop_first [OF "2.prems"(1) mono] show ?thesis by (simp add: vec_remove_def)
  next
    case 2
    have "kids P lo hi ks (c # tl cs)"
    proof (cases ks)
      case Nil
      with cs have "tl cs = []" using kids_length [OF cs] by (cases cs) auto
      with Nil mono c range_refl(1) [of lo] upper_between [OF k] show ?thesis by simp
    next
      case (Cons k2 ks2)
      then obtain d ds where d: "cs = d # ds" using cs by (cases cs) auto
      have k2: "between (Some k) hi k2" and ds: "kids P (Some k2) hi ks2 ds"
        using cs Cons d by auto
      have "P lo (Some k2) c"
        using mono c range_refl(1) [of lo] k2 upper_between [of "Some k" "Some k2" k] by (auto simp: upper_def)
      with k2 ds Cons d k show ?thesis by (auto intro: between_trans)
    qed
    with 2 show ?thesis by (simp add: vec_remove_def drop_Suc)
  next
    case 3
    have "ks \<noteq> []" using "2.prems"(3) 3 kids_length [OF cs] by auto
    with "2.IH" [OF cs _ _ mono, of "Suc j"] "2.prems"(3) 3
    have IH: "kids P (Some k) hi (vec_remove j ks) (vec_remove (Suc j) cs)" by simp
    with k c 3 show ?thesis by (simp add: vec_remove_def)
  qed
qed auto

section \<open>Searching a leaf\<close>

abbreviation keys_below :: "'k::linorder \<Rightarrow> ('k \<times> 'v) list \<Rightarrow> bool" where
  "keys_below key es \<equiv> \<forall>k \<in> fst ` set es. k < key"

abbreviation keys_above :: "'k::linorder \<Rightarrow> ('k \<times> 'v) list \<Rightarrow> bool" where
  "keys_above key es \<equiv> \<forall>k \<in> fst ` set es. key < k"

lemma binary_search_cases:
  assumes "bm_inv es"
  obtains
    (found) A v B where "es = A @ (key, v) # B" "binary_search key es = Inr (length A)"
      "keys_below key A" "keys_above key B"
  | (absent) A B where "es = A @ B" "binary_search key es = Inl (length A)"
      "keys_below key A" "keys_above key B"
proof -
  define A where "A = takeWhile (\<lambda>(k, _). k < key) es"
  define B where "B = dropWhile (\<lambda>(k, _). k < key) es"
  have es: "es = A @ B" unfolding A_def B_def by simp
  have A: "keys_below key A" unfolding A_def by (auto dest: set_takeWhileD)
  have search: "binary_search key es =
      (if length A < length es \<and> fst (es ! length A) = key then Inr (length A) else Inl (length A))"
    unfolding binary_search_def A_def Let_def by simp
  show ?thesis
  proof (cases B)
    case Nil
    then have "binary_search key es = Inl (length A)" using es search by auto
    with es A Nil show ?thesis by (intro absent [of A B]) auto
  next
    case (Cons e B')
    obtain k v where e: "e = (k, v)" by (cases e)
    have "\<not> (\<lambda>(k, _). k < key) (hd B)" using Cons hd_dropWhile [of "\<lambda>(k, _). k < key" es] unfolding B_def by simp
    then have k: "key \<le> k" using Cons e by simp
    have B': "keys_above k B'" using assms es Cons e by (auto simp: bm_inv_def sorted_wrt_append)
    have nth: "es ! length A = (k, v)" "length A < length es" using es Cons e by auto
    show ?thesis
    proof (cases "k = key")
      case True
      then have "binary_search key es = Inr (length A)" using search nth by simp
      with True show ?thesis using es Cons e A B' by (intro found [of A v B']) auto
    next
      case False
      then have "keys_above key B" using Cons e B' k by (auto intro: le_less_trans)
      moreover have "binary_search key es = Inl (length A)" using search nth False by simp
      ultimately show ?thesis using es A by (intro absent [of A B]) auto
    qed
  qed
qed

lemma bm_insert_below: "keys_below key A \<Longrightarrow> bm_insert key v (A @ X) = A @ bm_insert key v X"
  by (induction A) auto

lemma bm_insert_above: "keys_above key B \<Longrightarrow> bm_insert key v (X @ B) = bm_insert key v X @ B"
proof (induction X)
  case Nil
  then show ?case by (cases B) auto
qed auto

lemma map_of_outside:
  assumes "keys_below key A" "keys_above key B"
  shows "map_of (A @ X @ B) key = map_of X key"
proof -
  have "map_of A key = None" "map_of B key = None"
    using assms by (auto simp: map_of_eq_None_iff)
  then show ?thesis by (auto simp: map_add_def split: option.split)
qed

lemma hm_remove_outside:
  assumes "keys_below key A" "keys_above key B"
  shows "hm_remove key (A @ X @ B) = A @ hm_remove key X @ B"
proof -
  have "hm_remove key A = A" "hm_remove key B = B"
    using assms unfolding hm_remove_def by (force intro: filter_True)+
  then show ?thesis by (simp add: hm_remove_def)
qed

lemmas outside = bm_insert_below bm_insert_above map_of_outside hm_remove_outside

lemma length_bm_insert:
  "bm_inv es \<Longrightarrow>
     length (bm_insert key v es) = (if map_of es key = None then Suc (length es) else length es)"
proof -
  assume "bm_inv es"
  then show ?thesis
  proof (cases rule: binary_search_cases [where key = key])
    case (found A w B)
    then have "map_of es key = Some w" using map_of_outside [of A key B "[(key, w)]"] by simp
    with found show ?thesis by (simp add: bm_insert_below)
  next
    case (absent A B)
    then have "map_of es key = None" using map_of_outside [of A key B "[]"] by (simp add: map_add_def)
    with absent show ?thesis
      using bm_insert_above [of B key v "[]"] by (simp add: bm_insert_below)
  qed
qed

section \<open>Lookup\<close>

lemma get_leaf:
  assumes "bm_inv es"
  shows "get_node key (Leaf es) = map_of es key"
  using assms
proof (cases rule: binary_search_cases [where key = key])
  case (found A v B)
  then show ?thesis using map_of_outside [of A key B "[(key, v)]"] by simp
next
  case (absent A B)
  then show ?thesis using map_of_outside [of A key B "[]"] by (simp add: map_add_def)
qed

text \<open>The view of an internal node that the recursion of every operation takes.\<close>

lemma internal_focus:
  assumes "kids (bt_ok h) lo hi ks cs" "in_range lo hi key"
  obtains cs1 c cs2 ks1 ks2 l u where
    "cs = cs1 @ c # cs2" "ks = ks1 @ ks2" "length cs1 = child_index ks key"
    "length ks1 = child_index ks key" "bt_ok h l u c" "in_range l u key"
    "keys_below key (concat (map node_entries cs1))" "keys_above key (concat (map node_entries cs2))"
    "\<And>c'. bt_ok h l u c' \<Longrightarrow> kids (bt_ok h) lo hi ks (cs1 @ c' # cs2)"
    "\<And>c1 s c2. between l u s \<Longrightarrow> bt_ok h l (Some s) c1 \<Longrightarrow> bt_ok h (Some s) u c2 \<Longrightarrow>
       kids (bt_ok h) lo hi (ks1 @ s # ks2) (cs1 @ c1 # c2 # cs2)"
proof -
  have r: "\<forall>l u c k. bt_ok h l u c \<longrightarrow> k \<in> fst ` set (node_entries c) \<longrightarrow> in_range l u k"
    using bt_range by blast
  show thesis
    using kids_focus [where f = "\<lambda>c. fst ` set (node_entries c)", OF assms r]
    by (elim exE conjE, intro that) (assumption | force)+
qed

lemma get_node_correct:
  "bt_ok h lo hi n \<Longrightarrow> in_range lo hi key \<Longrightarrow> get_node key n = map_of (node_entries n) key"
proof (induction h arbitrary: lo hi n)
  case 0
  then obtain es where "n = Leaf es" "bm_inv es" by (auto simp: leaf_ok_def split: node.splits)
  with get_leaf show ?case by fastforce
next
  case (Suc h)
  then obtain ks cs where n: "n = Internal ks cs" and k: "kids (bt_ok h) lo hi ks cs"
    by (auto split: node.splits)
  from k Suc.prems(2) show ?case
  proof (cases rule: internal_focus)
    case (1 cs1 c cs2 ks1 ks2 l u)
    then have "get_node key n = map_of (node_entries c) key"
      using Suc.IH [OF 1(5,6)] by (simp add: n nth_append)
    also have "\<dots> = map_of (node_entries n) key"
      using map_of_outside [OF 1(7,8), of "node_entries c"] by (simp add: n 1(1))
    finally show ?thesis .
  qed
qed

section \<open>Insertion\<close>

text \<open>A node, or two nodes with a separator between them, that hold the given entries.\<close>

definition split_ok ::
  "nat \<Rightarrow> 'k::linorder option \<Rightarrow> 'k option \<Rightarrow> ('k \<times> 'v) list \<Rightarrow> ('k, 'v) node \<Rightarrow> ('k, 'v) split
    \<Rightarrow> bool" where
  "split_ok h lo hi es n split \<longleftrightarrow> (case split of
       None \<Rightarrow> bt_ok h lo hi n \<and> node_entries n = es
     | Some (s, r) \<Rightarrow>
         between lo hi s \<and> bt_ok h lo (Some s) n \<and> bt_ok h (Some s) hi r \<and>
         node_entries n @ node_entries r = es)"

lemma split_sorted:
  assumes "bm_inv es" "\<forall>k \<in> fst ` set es. in_range lo hi k" "0 < m" "drop m es = e # R"
  shows "between lo hi (fst e)"
    "bm_inv (take m es)" "\<forall>k \<in> fst ` set (take m es). in_range lo (Some (fst e)) k"
    "bm_inv (drop m es)" "\<forall>k \<in> fst ` set (drop m es). in_range (Some (fst e)) hi k"
proof -
  have es: "es = take m es @ e # R" using assms(4) by (metis append_take_drop_id)
  have sorted: "bm_inv (take m es @ e # R)" using assms(1) es by simp
  have range: "\<forall>k \<in> fst ` set (take m es @ e # R). in_range lo hi k" using assms(2) es by simp
  show "bm_inv (take m es)" "bm_inv (drop m es)"
    using sorted assms(4) by (auto simp: bm_inv_def sorted_wrt_append)
  have below: "\<forall>k \<in> fst ` set (take m es). k < fst e"
    using sorted by (auto simp: bm_inv_def sorted_wrt_append)
  have above: "\<forall>k \<in> fst ` set R. fst e < k"
    using sorted by (auto simp: bm_inv_def sorted_wrt_append)
  show "\<forall>k \<in> fst ` set (take m es). in_range lo (Some (fst e)) k"
    using below range by (auto simp: in_range_def)
  show "\<forall>k \<in> fst ` set (drop m es). in_range (Some (fst e)) hi k"
    using above range assms(4) by (auto simp: in_range_def)
  obtain d where d: "d \<in> set (take m es)"
    using assms(3,4) by (cases es; cases m) auto
  then have "in_range lo hi (fst d)" "fst d < fst e" "in_range lo hi (fst e)"
    using range below by auto
  then show "between lo hi (fst e)" by (auto simp: in_range_def between_def split: option.splits)
qed

lemma insert_leaf_correct:
  assumes "leaf_ok lo hi es" "in_range lo hi key"
  shows "\<exists>n split. insert_leaf key v es = Inr (n, map_of es key, split) \<and>
    split_ok 0 lo hi (bm_insert key v es) n split"
proof -
  from assms(1) have es: "bm_inv es" "length es \<le> MAX_FANOUT" "\<forall>k \<in> fst ` set es. in_range lo hi k"
    by (auto simp: leaf_ok_def)
  let ?es = "bm_insert key v es"
  have ins: "bm_inv ?es" "\<forall>k \<in> fst ` set ?es. in_range lo hi k"
    using es assms(2) keys_bm_insert [of key v es] by (auto simp: bm_inv_insert)
  from es(1) show ?thesis
  proof (cases rule: binary_search_cases [where key = key])
    case (found A w B)
    have e: "?es = A @ (key, v) # B" using found by (simp add: bm_insert_below)
    have "map_of es key = Some w" using found map_of_outside [of A key B "[(key, w)]"] by simp
    moreover have "insert_leaf key v es = Inr (Leaf ?es, Some w, None)"
      unfolding insert_leaf_def found(2) e by (simp add: found(1))
    moreover have "length ?es = length es" using found e by simp
    ultimately show ?thesis using ins es(2) by (auto simp: split_ok_def leaf_ok_def e)
  next
    case (absent A B)
    have e: "?es = A @ (key, v) # B"
      using absent bm_insert_above [of B key v "[]"] by (simp add: bm_insert_below)
    have none: "map_of es key = None"
      using absent map_of_outside [of A key B "[]"] by (simp add: map_add_def)
    have vec: "vec_insert (length A) (key, v) es = ?es" using absent e by (simp add: vec_insert_def)
    have leaf: "insert_leaf key v es =
        (if length ?es > MAX_FANOUT then
           (case drop (length ?es div 2) ?es of
              [] \<Rightarrow> Inl Index_out_of_bounds
            | e # _ \<Rightarrow> Inr (Leaf (take (length ?es div 2) ?es), None,
                            Some (fst e, Leaf (drop (length ?es div 2) ?es))))
         else Inr (Leaf ?es, None, None))"
      unfolding insert_leaf_def using absent(2) vec by (simp add: Let_def)
    have len: "length ?es = Suc (length es)" using length_bm_insert [OF es(1)] none by simp
    show ?thesis
    proof (cases "length ?es > MAX_FANOUT")
      case False
      then show ?thesis using leaf ins none by (auto simp: split_ok_def leaf_ok_def e)
    next
      case True
      let ?m = "length ?es div 2"
      have m: "0 < ?m" "?m < length ?es" using True by (auto simp: MAX_FANOUT_def)
      then obtain x R where d: "drop ?m ?es = x # R" by (cases "drop ?m ?es") auto
      note s = split_sorted [OF ins m(1) d]
      have "length (take ?m ?es) \<le> MAX_FANOUT" "length (drop ?m ?es) \<le> MAX_FANOUT"
        "take ?m ?es \<noteq> []"
        using len es(2) m by (auto simp: MAX_FANOUT_def)
      moreover have "take ?m ?es @ x # R = ?es" using d by (metis append_take_drop_id)
      ultimately have "split_ok 0 lo hi ?es (Leaf (take ?m ?es)) (Some (fst x, Leaf (x # R)))"
        unfolding split_ok_def using s d by (simp add: leaf_ok_def del: take_eq_Nil)
      with leaf True d none show ?thesis by auto
    qed
  qed
qed

lemma vec_insert_append [simp]:
  "vec_insert (length xs) y (xs @ ys) = xs @ y # ys"
  "vec_insert (Suc (length xs)) y (xs @ x # ys) = xs @ x # y # ys"
  by (simp_all add: vec_insert_def)

text \<open>The children of an internal node after one of them was split.\<close>

lemma internal_split_ok:
  assumes "kids (bt_ok h) lo hi ks cs" "length cs \<le> Suc MAX_FANOUT" "\<not> length cs \<le> MAX_FANOUT"
  shows "\<exists>n p r. (let mid = length cs div 2 in
      rbind (checked_sub mid 1 ''split midpoint must be non-zero'') (\<lambda>at.
        (case drop at ks of
           [] \<Rightarrow> Inl Index_out_of_bounds
         | promoted # right_keys \<Rightarrow>
             Inr (Internal (take at ks) (take mid cs), old,
                  Some (promoted, Internal right_keys (drop mid cs)))))) =
      Inr (n, old, Some (p, r)) \<and>
    split_ok (Suc h) lo hi (concat (map node_entries cs)) n (Some (p, r))"
proof -
  have len: "length cs = 25" "length ks = 24"
    using assms kids_length [OF assms(1)] by (auto simp: MAX_FANOUT_def)
  have d: "drop 11 ks = ks ! 11 # drop 12 ks"
    using len Cons_nth_drop_Suc [of 11 ks] by simp
  have s: "between lo hi (ks ! 11)"
    "kids (bt_ok h) lo (Some (ks ! 11)) (take 11 ks) (take 12 cs)"
    "kids (bt_ok h) (Some (ks ! 11)) hi (drop 12 ks) (drop 12 cs)"
    using kids_split_at [OF assms(1), of 11] len by simp_all
  have e: "concat (map node_entries (take 12 cs)) @ concat (map node_entries (drop 12 cs)) =
      concat (map node_entries cs)"
    by (metis append_take_drop_id concat_append map_append)
  show ?thesis
    by (intro exI [of _ "Internal (take 11 ks) (take 12 cs)"] exI [of _ "ks ! 11"]
        exI [of _ "Internal (drop 12 ks) (drop 12 cs)"])
      (simp add: len d s e checked_sub_def split_ok_def MAX_FANOUT_def)
qed

lemma insert_rec_correct:
  assumes "bt_ok h lo hi n \<or> h = 0 \<and> n = Leaf []" "in_range lo hi key"
  shows "\<exists>n' split. insert_rec key v n = Inr (n', map_of (node_entries n) key, split) \<and>
    split_ok h lo hi (bm_insert key v (node_entries n)) n' split"
  using assms
proof (induction h arbitrary: lo hi n)
  case 0
  then obtain es where "n = Leaf es" "leaf_ok lo hi es"
    by (auto simp: leaf_ok_def bm_inv_def split: node.splits)
  with insert_leaf_correct 0 show ?case by fastforce
next
  case (Suc h)
  then obtain ks cs where n: "n = Internal ks cs" and len: "length cs \<le> MAX_FANOUT"
    and k: "kids (bt_ok h) lo hi ks cs"
    by (auto split: node.splits)
  from k Suc.prems(2) show ?case
  proof (cases rule: internal_focus)
    case (1 cs1 c cs2 ks1 ks2 l u)
    let ?i = "child_index ks key"
    have i: "?i < length cs" "cs ! ?i = c" "\<And>c'. cs[?i := c'] = cs1 @ c' # cs2"
      using 1(1,3) by (simp_all add: nth_append list_update_append flip: 1(3))
    obtain c' split where rec: "insert_rec key v c = Inr (c', map_of (node_entries c) key, split)"
      and ok: "split_ok h l u (bm_insert key v (node_entries c)) c' split"
      using Suc.IH [of l u c] 1(5,6) by blast
    have old: "map_of (node_entries n) key = map_of (node_entries c) key"
      using map_of_outside [OF 1(7,8), of "node_entries c"] by (simp add: n 1(1))
    have es: "bm_insert key v (node_entries n) =
        concat (map node_entries cs1) @ bm_insert key v (node_entries c) @ concat (map node_entries cs2)"
      using bm_insert_below [OF 1(7)] bm_insert_above [OF 1(8)] by (simp add: n 1(1))
    have ins: "insert_rec key v n = insert_internal ?i ks cs (c', map_of (node_entries c) key, split)"
      using i rec by (simp add: n)
    show ?thesis
    proof (cases split)
      case None
      with ok have "bt_ok h l u c'" "node_entries c' = bm_insert key v (node_entries c)"
        by (simp_all add: split_ok_def)
      with 1(9) [of c'] len have "split_ok (Suc h) lo hi (bm_insert key v (node_entries n))
          (Internal ks (cs1 @ c' # cs2)) None"
        by (simp add: split_ok_def es 1(1))
      then show ?thesis using ins old None i(3) by (auto simp: insert_internal_def)
    next
      case (Some p)
      obtain s r where p: "p = (s, r)" by (cases p)
      with ok Some have b: "between l u s" "bt_ok h l (Some s) c'" "bt_ok h (Some s) u r"
        and e: "node_entries c' @ node_entries r = bm_insert key v (node_entries c)"
        by (simp_all add: split_ok_def)
      let ?ks = "ks1 @ s # ks2" and ?cs = "cs1 @ c' # r # cs2"
      note kk = 1(10) [OF b]
      have ks: "vec_insert ?i s ks = ?ks" using 1(2,4) by (metis vec_insert_append(1))
      have cs: "vec_insert (?i + 1) r (cs[?i := c']) = ?cs"
        using i(3) 1(3) vec_insert_append(2) [of cs1 r c' cs2] by simp
      have es': "bm_insert key v (node_entries n) = concat (map node_entries ?cs)"
        using es e [symmetric] by simp
      have lcs: "length ?cs \<le> Suc MAX_FANOUT" using len 1(1) by simp
      have step: "insert_internal ?i ks cs (c', old, Some (s, r)) =
         (if length ?cs \<le> MAX_FANOUT then Inr (Internal ?ks ?cs, old, None)
          else (let mid = length ?cs div 2 in
            rbind (checked_sub mid 1 ''split midpoint must be non-zero'') (\<lambda>at.
              (case drop at ?ks of
                 [] \<Rightarrow> Inl Index_out_of_bounds
               | promoted # right_keys \<Rightarrow>
                   Inr (Internal (take at ?ks) (take mid ?cs), old,
                        Some (promoted, Internal right_keys (drop mid ?cs)))))))" for old
        unfolding insert_internal_def prod.case option.case ks cs Let_def ..
      show ?thesis
      proof (cases "length ?cs \<le> MAX_FANOUT")
        case True
        with kk have "split_ok (Suc h) lo hi (bm_insert key v (node_entries n)) (Internal ?ks ?cs) None"
          by (simp add: split_ok_def es')
        with True step ins old Some p show ?thesis by auto
      next
        case False
        from internal_split_ok [OF kk lcs False, of "map_of (node_entries c) key"] False step ins old Some p es'
        show ?thesis by (auto simp del: map_append)
      qed
    qed
  qed
qed

section \<open>Removal\<close>

text \<open>Editing an unshared path in place and copying a shared one give the same tree.\<close>

lemma remove_leaf_copied: "remove_leaf_copied key es = remove_leaf key es"
  by (simp add: remove_leaf_copied_def remove_leaf_def vec_remove_def split: sum.split)

lemma remove_rec_copied: "remove_rec unique path key n = remove_copied key n"
  by (induction unique path key n rule: remove_rec.induct) (simp_all add: remove_leaf_copied)

text \<open>What is left of a subtree after a removal: nothing, or a subtree in the same range.\<close>

definition left_ok ::
  "nat \<Rightarrow> 'k::linorder option \<Rightarrow> 'k option \<Rightarrow> ('k \<times> 'v) list \<Rightarrow> ('k, 'v) node \<Rightarrow> bool" where
  "left_ok h lo hi es n \<longleftrightarrow>
     node_entries n = es \<and> (if es = [] then node_is_empty n else bt_ok h lo hi n)"

lemma remove_leaf_correct:
  assumes "leaf_ok lo hi es" "in_range lo hi key"
  shows "case map_of es key of
      None \<Rightarrow> remove_leaf key es = None \<and> hm_remove key es = es
    | Some v \<Rightarrow> \<exists>n. remove_leaf key es = Some (n, v) \<and> left_ok 0 lo hi (hm_remove key es) n"
proof -
  from assms(1) have es: "bm_inv es" "length es \<le> MAX_FANOUT" "\<forall>k \<in> fst ` set es. in_range lo hi k"
    by (auto simp: leaf_ok_def)
  from es(1) show ?thesis
  proof (cases rule: binary_search_cases [where key = key])
    case (found A w B)
    have e: "hm_remove key es = A @ B"
      using hm_remove_outside [OF found(3,4), of "[(key, w)]"] found(1) by (simp add: hm_remove_def)
    have "map_of es key = Some w" using found map_of_outside [of A key B "[(key, w)]"] by simp
    moreover have "remove_leaf key es = Some (Leaf (A @ B), w)"
      unfolding remove_leaf_def found(2) by (simp add: found(1) vec_remove_def)
    moreover have "leaf_ok lo hi (A @ B)"
      using es found(1) by (auto simp: leaf_ok_def bm_inv_def sorted_wrt_append)
    ultimately show ?thesis
      using e by (auto simp: left_ok_def node_is_empty_def)
  next
    case (absent A B)
    have "map_of es key = None"
      using absent map_of_outside [of A key B "[]"] by (simp add: map_add_def)
    moreover have "hm_remove key es = es"
      using hm_remove_outside [OF absent(3,4), of "[]"] absent(1) by (simp add: hm_remove_def)
    ultimately show ?thesis by (simp add: remove_leaf_def absent(2))
  qed
qed

lemma vec_remove_append [simp]: "vec_remove (length xs) (xs @ y # ys) = xs @ ys"
  by (simp add: vec_remove_def)

lemma drop_if_empty_correct:
  assumes "kids (bt_ok h) lo hi ks (cs1 @ c # cs2)" "length (cs1 @ c # cs2) \<le> MAX_FANOUT"
    and "left_ok h l u es c'"
    and replace: "\<And>d. bt_ok h l u d \<Longrightarrow> kids (bt_ok h) lo hi ks (cs1 @ d # cs2)"
  shows "\<exists>ks' cs'. drop_if_empty (length cs1) ks (cs1 @ c' # cs2) = Inr (ks', cs') \<and>
    left_ok (Suc h) lo hi (concat (map node_entries cs1) @ es @ concat (map node_entries cs2))
      (Internal ks' cs')"
proof (cases "es = []")
  case False
  then have c': "bt_ok h l u c'" "node_entries c' = es" using assms(3) by (auto simp: left_ok_def)
  then have "drop_if_empty (length cs1) ks (cs1 @ c' # cs2) = Inr (ks, cs1 @ c' # cs2)"
    using bt_nonempty [OF c'(1)] by (simp add: drop_if_empty_def)
  with replace [OF c'(1)] c'(2) False assms(2) show ?thesis by (simp add: left_ok_def)
next
  case True
  then have c': "node_is_empty c'" using assms(3) by (simp add: left_ok_def)
  have len: "length cs1 + length cs2 = length ks" using kids_length [OF assms(1)] by simp
  show ?thesis
  proof (cases "ks = []")
    case ks: True
    with len have "cs1 = []" "cs2 = []" by auto
    with c' ks True show ?thesis
      by (simp add: drop_if_empty_def left_ok_def node_is_empty_def vec_remove_def)
  next
    case ks: False
    let ?ks = "vec_remove (length cs1 - 1) ks"
    have drop: "drop_if_empty (length cs1) ks (cs1 @ c' # cs2) = Inr (?ks, cs1 @ cs2)"
      using c' ks len length_greater_0_conv [of ks] by (auto simp: drop_if_empty_def simp del: length_greater_0_conv)
    have mono: "\<forall>l u l' u' c. bt_ok h l u c \<longrightarrow> lower l' l \<longrightarrow> upper u' u \<longrightarrow> bt_ok h l' u' c"
      using bt_ok_mono by blast
    have "kids (bt_ok h) lo hi ?ks (cs1 @ cs2)"
      using kids_drop [OF assms(1) ks _ mono, of "length cs1"] by simp
    then have b: "bt_ok (Suc h) lo hi (Internal ?ks (cs1 @ cs2))" using assms(2) by simp
    with bt_nonempty [OF b] drop True show ?thesis by (auto simp: left_ok_def)
  qed
qed

lemma remove_copied_correct:
  assumes "bt_ok h lo hi n \<or> h = 0 \<and> n = Leaf []" "in_range lo hi key"
  shows "case map_of (node_entries n) key of
      None \<Rightarrow> remove_copied key n = Inr None \<and> hm_remove key (node_entries n) = node_entries n
    | Some v \<Rightarrow> \<exists>n'. remove_copied key n = Inr (Some (n', v)) \<and>
        left_ok h lo hi (hm_remove key (node_entries n)) n'"
  using assms
proof (induction h arbitrary: lo hi n)
  case 0
  then obtain es where "n = Leaf es" "leaf_ok lo hi es"
    by (auto simp: leaf_ok_def bm_inv_def split: node.splits)
  with remove_leaf_correct [OF this(2) 0(2)] show ?case
    by (auto simp: remove_leaf_copied split: option.splits)
next
  case (Suc h)
  then obtain ks cs where n: "n = Internal ks cs" and len: "length cs \<le> MAX_FANOUT"
    and k: "kids (bt_ok h) lo hi ks cs"
    by (auto split: node.splits)
  from k Suc.prems(2) show ?case
  proof (cases rule: internal_focus)
    case (1 cs1 c cs2 ks1 ks2 l u)
    let ?i = "child_index ks key"
    have i: "?i < length cs" "cs ! ?i = c" "\<And>c'. cs[?i := c'] = cs1 @ c' # cs2"
      using 1(1,3) by (simp_all add: nth_append list_update_append flip: 1(3))
    have old: "map_of (node_entries n) key = map_of (node_entries c) key"
      using map_of_outside [OF 1(7,8), of "node_entries c"] by (simp add: n 1(1))
    have es: "hm_remove key (node_entries n) =
        concat (map node_entries cs1) @ hm_remove key (node_entries c) @ concat (map node_entries cs2)"
      using hm_remove_outside [OF 1(7,8)] by (simp add: n 1(1))
    have rem: "remove_copied key n = rbind (remove_copied key c) (remove_internal ?i ks cs)"
      using i by (simp add: n)
    note IH = Suc.IH [of l u c, OF disjI1 [OF 1(5)] 1(6)]
    show ?thesis
    proof (cases "map_of (node_entries c) key")
      case None
      with IH show ?thesis
        by (simp add: old rem remove_internal_def es) (simp add: n 1(1))
    next
      case (Some v)
      with IH obtain c' where c': "remove_copied key c = Inr (Some (c', v))"
        "left_ok h l u (hm_remove key (node_entries c)) c'" by auto
      from drop_if_empty_correct [OF k [unfolded 1(1)] len [unfolded 1(1)] c'(2) 1(9)]
      obtain ks' cs' where
        "drop_if_empty (length cs1) ks (cs1 @ c' # cs2) = Inr (ks', cs')"
        "left_ok (Suc h) lo hi (hm_remove key (node_entries n)) (Internal ks' cs')"
        unfolding es by blast
      then show ?thesis
        using Some c'(1) by (simp add: old rem remove_internal_def i(3) 1(3))
    qed
  qed
qed

text \<open>Collapsing the root keeps the entries and ends in a tree of the resulting height.\<close>

lemma collapse_correct:
  assumes "bt_ok h None None n"
  shows "\<exists>n' h'. collapse n h = Inr (n', h') \<and> bt_ok h' None None n' \<and>
    node_entries n' = node_entries n"
  using assms
proof (induction n h rule: collapse.induct)
  case (1 ks c h)
  then obtain h' where h: "h = Suc h'" "ks = []" "bt_ok h' None None c"
    by (cases h; cases ks) auto
  with 1(1) [of h'] show ?case by (simp add: checked_sub_def)
qed auto

section \<open>The contract of an ordered map\<close>

text \<open>
  What the state store relies on: a map stands for a sorted list of entries, and every operation is the
  operation on that list. \<open>room\<close> says that the map may still grow.
\<close>

locale sorted_map =
  fixes ents :: "'m \<Rightarrow> ('k::linorder \<times> 'v) list"
    and good :: "'m \<Rightarrow> bool"
    and room :: "'m \<Rightarrow> bool"
    and lookup :: "'k \<Rightarrow> 'm \<Rightarrow> 'v option"
    and ins :: "'k \<Rightarrow> 'v \<Rightarrow> 'm \<Rightarrow> (panic, 'm \<times> 'v option) result"
    and del :: "'k \<Rightarrow> 'm \<Rightarrow> (panic, 'm \<times> 'v option) result"
  assumes good_sorted: "good m \<Longrightarrow> bm_inv (ents m)"
    and lookup_ents: "good m \<Longrightarrow> lookup k m = map_of (ents m) k"
    and ins_ents: "good m \<Longrightarrow> room m \<Longrightarrow>
      \<exists>m'. ins k v m = Inr (m', map_of (ents m) k) \<and> good m' \<and> ents m' = bm_insert k v (ents m)"
    and del_ents: "good m \<Longrightarrow>
      \<exists>m'. del k m = Inr (m', map_of (ents m) k) \<and> good m' \<and> ents m' = hm_remove k (ents m)"
begin

lemma lookup_ins:
  assumes "good m" "room m"
  shows "\<exists>m'. ins k v m = Inr (m', lookup k m) \<and> good m' \<and>
    (\<forall>l. lookup l m' = (if l = k then Some v else lookup l m))"
proof -
  from ins_ents [OF assms] obtain m' where m': "ins k v m = Inr (m', map_of (ents m) k)" "good m'"
    "ents m' = bm_insert k v (ents m)" by blast
  moreover have "lookup l m' = (if l = k then Some v else lookup l m)" for l
    using m' assms by (simp add: lookup_ents map_of_bm_insert)
  ultimately show ?thesis using assms by (auto simp: lookup_ents)
qed

lemma lookup_del:
  assumes "good m"
  shows "\<exists>m'. del k m = Inr (m', lookup k m) \<and> good m' \<and>
    (\<forall>l. lookup l m' = (if l = k then None else lookup l m))"
proof -
  from del_ents [OF assms] obtain m' where m': "del k m = Inr (m', map_of (ents m) k)" "good m'"
    "ents m' = hm_remove k (ents m)" by blast
  moreover have "lookup l m' = (if l = k then None else lookup l m)" for l
    using m' assms by (simp add: lookup_ents map_lookups)
  ultimately show ?thesis using assms by (auto simp: lookup_ents)
qed

text \<open>Maps with the same lookups hold the same entries in the same order.\<close>

lemma lookup_determines:
  assumes "good a" "good b" "\<And>k. lookup k a = lookup k b"
  shows "ents a = ents b"
proof -
  have "map_of (ents a) = map_of (ents b)"
    using assms by (auto simp: lookup_ents fun_eq_iff)
  then show ?thesis using assms(1,2) good_sorted bm_inv_unique by blast
qed

end

section \<open>The tree meets the contract\<close>

definition om_room :: "('k, 'v) ord_map \<Rightarrow> bool" where
  "om_room m \<longleftrightarrow> om_height m < U8_MAX \<and> om_len m < USIZE_MAX"

lemma om_ok_cases:
  assumes "om_ok m"
  obtains "bt_ok (om_height m) None None (om_root m) \<or> om_height m = 0 \<and> om_root m = Leaf []"
    "om_len m = length (om_entries m)"
  using assms by (auto simp: om_ok_def)

lemma om_sorted: "om_ok m \<Longrightarrow> bm_inv (om_entries m)"
  by (erule om_ok_cases) (auto simp: om_entries_def bt_sorted bm_inv_Nil)

lemma om_get_correct: "om_ok m \<Longrightarrow> om_get key m = map_of (om_entries m) key"
  by (erule om_ok_cases)
    (auto simp: om_get_def om_entries_def get_node_correct binary_search_def simp del: get_node.simps
      simp: get_leaf bm_inv_def)

lemma om_insert_correct:
  assumes "om_ok m" "om_room m"
  shows "\<exists>m'. om_insert key v m = Inr (m', map_of (om_entries m) key) \<and> om_ok m' \<and>
    om_entries m' = bm_insert key v (om_entries m)"
proof -
  let ?old = "map_of (om_entries m) key" and ?es = "bm_insert key v (om_entries m)"
  from assms(1) have ok: "bt_ok (om_height m) None None (om_root m) \<or> om_height m = 0 \<and> om_root m = Leaf []"
    and len: "om_len m = length (om_entries m)" by (auto elim: om_ok_cases)
  obtain n sp where rec: "insert_rec key v (om_root m) = Inr (n, ?old, sp)"
    and sp: "split_ok (om_height m) None None ?es n sp"
    using insert_rec_correct [OF ok, of key v] by (auto simp: om_entries_def)
  have len': "(if ?old = None then checked_add USIZE_MAX (om_len m) 1 ''map length overflow''
      else Inr (om_len m)) = Inr (length ?es)"
    using length_bm_insert [OF om_sorted [OF assms(1)], of key v] len assms(2)
    by (auto simp: checked_add_def om_room_def)
  show ?thesis
  proof (cases sp)
    case None
    let ?m = "\<lparr> om_root = n, om_height = om_height m, om_len = length ?es \<rparr>"
    have "om_insert key v m = Inr (?m, ?old)"
      unfolding om_insert_def rec by (simp add: None len' [simplified])
    moreover have "om_ok ?m" "om_entries ?m = ?es"
      using sp None by (simp_all add: split_ok_def om_ok_def om_entries_def)
    ultimately show ?thesis by blast
  next
    case (Some p)
    obtain s r where p: "p = (s, r)" by (cases p)
    let ?m = "\<lparr> om_root = Internal [s] [n, r], om_height = om_height m + 1, om_len = length ?es \<rparr>"
    have "om_insert key v m = Inr (?m, ?old)"
      unfolding om_insert_def rec using assms(2)
      by (simp add: Some p len' [simplified] checked_add_def [of U8_MAX] om_room_def)
    moreover have "om_ok ?m" "om_entries ?m = ?es"
      using sp Some p by (simp_all add: split_ok_def om_ok_def om_entries_def MAX_FANOUT_def)
    ultimately show ?thesis by blast
  qed
qed

lemma length_hm_remove:
  assumes "distinct (map fst es)" "map_of es key = Some v"
  shows "Suc (length (hm_remove key es)) = length es"
  using assms
proof (induction es)
  case (Cons e es)
  obtain k w where e: "e = (k, w)" by (cases e)
  show ?case
  proof (cases "k = key")
    case True
    with Cons.prems e have "hm_remove key es = es"
      unfolding hm_remove_def by (force intro: filter_True)
    with True e show ?thesis by (simp add: hm_remove_def)
  next
    case False
    with Cons e show ?thesis by (simp add: hm_remove_def)
  qed
qed simp

lemma om_remove_correct:
  assumes "om_ok m"
  shows "\<exists>m'. om_remove unique key m = Inr (m', map_of (om_entries m) key) \<and> om_ok m' \<and>
    om_entries m' = hm_remove key (om_entries m)"
proof -
  from assms have ok: "bt_ok (om_height m) None None (om_root m) \<or> om_height m = 0 \<and> om_root m = Leaf []"
    and len: "om_len m = length (om_entries m)" by (auto elim: om_ok_cases)
  note rem = remove_copied_correct [OF ok in_range_simps(1), of key, folded om_entries_def]
  show ?thesis
  proof (cases "map_of (om_entries m) key")
    case None
    with rem assms show ?thesis by (simp add: om_remove_def remove_rec_copied)
  next
    case (Some v)
    with rem obtain n where n: "remove_copied key (om_root m) = Inr (Some (n, v))"
      "left_ok (om_height m) None None (hm_remove key (om_entries m)) n" by auto
    have dist: "distinct (map fst (om_entries m))"
      using om_sorted [OF assms] by (rule bm_inv_distinct)
    have l: "checked_sub (om_len m) 1 ''map length underflow'' =
        Inr (length (hm_remove key (om_entries m)))"
      using length_hm_remove [OF dist Some] len by (auto simp: checked_sub_def)
    show ?thesis
    proof (cases "hm_remove key (om_entries m) = []")
      case False
      with n(2) collapse_correct [of "om_height m" n] obtain n' h' where
        c: "collapse n (om_height m) = Inr (n', h')" "bt_ok h' None None n'"
          "node_entries n' = hm_remove key (om_entries m)"
        by (auto simp: left_ok_def)
      then show ?thesis
        using Some False n(1) l
        by (auto simp: om_remove_def remove_rec_copied om_ok_def om_entries_def)
    next
      case True
      have "\<exists>n' h'. collapse n (om_height m) = Inr (n', h')"
        using n(2) True by (cases n) (auto simp: left_ok_def node_is_empty_def)
      then show ?thesis
        using Some True n(1) l
        by (auto simp: om_remove_def remove_rec_copied om_ok_def om_entries_def om_new_def)
    qed
  qed
qed

interpretation om: sorted_map om_entries om_ok om_room om_get om_insert "om_remove unique"
  for unique :: "nat list \<Rightarrow> bool"
  by unfold_locales (rule om_sorted om_get_correct om_insert_correct om_remove_correct; assumption)+

section \<open>Properties\<close>

definition sample_tree :: "(nat, string) ord_map" where
  "sample_tree = \<lparr> om_root = Internal [3] [Leaf [(1, ''a''), (2, ''b'')], Leaf [(3, ''c'')]],
     om_height = 1, om_len = 3 \<rparr>"

definition sample_leaf :: "(nat, string) ord_map" where
  "sample_leaf = \<lparr> om_root = Leaf [(1, ''a''), (2, ''x''), (4, ''d'')], om_height = 0, om_len = 3 \<rparr>"

lemma samples_ok: "om_ok sample_tree" "om_ok sample_leaf"
  by (simp_all add: om_ok_def sample_tree_def sample_leaf_def leaf_ok_def om_entries_def bm_inv_def
      MAX_FANOUT_def)

text \<open>C19: The persistent ordered map refines a sorted association list. On every map that meets the
  invariant, \<open>get\<close> is the lookup in the list of entries; \<open>insert\<close> does not panic while the height and the
  length may still grow, returns the previous value, and its result meets the invariant and holds
  the list with the entry inserted; \<open>remove\<close> never panics, returns the removed value, and its result
  holds the list without the key, whichever nodes of the path are shared with another map.\<close>

theorem ord_map_refines_list:
  assumes "om_ok m"
  shows "om_get key m = map_of (om_entries m) key \<and>
    (om_room m \<longrightarrow> (\<exists>m'. om_insert key v m = Inr (m', map_of (om_entries m) key) \<and> om_ok m' \<and>
      om_entries m' = bm_insert key v (om_entries m))) \<and>
    (\<exists>m'. om_remove unique key m = Inr (m', map_of (om_entries m) key) \<and> om_ok m' \<and>
      om_entries m' = hm_remove key (om_entries m))"
proof (intro conjI impI)
  show "om_get key m = map_of (om_entries m) key"
    by (rule om.lookup_ents [OF assms])
  show "\<exists>m'. om_insert key v m = Inr (m', map_of (om_entries m) key) \<and> om_ok m' \<and>
      om_entries m' = bm_insert key v (om_entries m)" if "om_room m"
    by (rule om.ins_ents [OF assms that])
  show "\<exists>m'. om_remove unique key m = Inr (m', map_of (om_entries m) key) \<and> om_ok m' \<and>
      om_entries m' = hm_remove key (om_entries m)"
    by (rule om.del_ents [OF assms])
qed

theorem ord_map_refines_list_witness:
  "om_get 2 sample_tree = map_of (om_entries sample_tree) 2 \<and>
   (\<exists>m'. om_insert 2 ''y'' sample_tree = Inr (m', map_of (om_entries sample_tree) 2) \<and> om_ok m' \<and>
      om_entries m' = bm_insert 2 ''y'' (om_entries sample_tree)) \<and>
   (\<exists>m'. om_remove (\<lambda>path. path = []) 3 sample_tree = Inr (m', map_of (om_entries sample_tree) 3) \<and>
      om_ok m' \<and> om_entries m' = hm_remove 3 (om_entries sample_tree))"
proof -
  have "om_room sample_tree" by (simp add: om_room_def sample_tree_def U8_MAX_def USIZE_MAX_def)
  then show ?thesis
    using ord_map_refines_list [OF samples_ok(1), where key = 2 and v = "''y''"]
      ord_map_refines_list [OF samples_ok(1), where key = 3 and unique = "\<lambda>path. path = []"]
    by blast
qed

end
