(* ===== verification/Ord_Map_Iter.thy ===== *)
theory Ord_Map_Iter
  imports Ord_Map_Correct
begin

text \<open>
  Building a persistent ordered map from pairs, iterating over it and querying a range of keys. The
  iterators of the map are instances of the locale \<open>list_iterator\<close>: each stands for the list of the
  items it has still to yield.
\<close>

section \<open>Bulk construction\<close>

lemma even_chunks_props:
  assumes "0 < n"
  shows "sum_list (even_chunks n) = n" "\<forall>s \<in> set (even_chunks n). 0 < s \<and> s \<le> BULK_FILL"
proof -
  define g where "g = max ((n + BULK_FILL - 1) div BULK_FILL) 1"
  have B: "BULK_FILL = 18" by (simp add: BULK_FILL_def MAX_FANOUT_def)
  have g: "0 < g" "g \<le> n" "n \<le> 18 * g"
    using assms unfolding g_def B by auto
  have e: "even_chunks n = map (\<lambda>i. n div g + (if i < n mod g then 1 else 0)) [0..<g]"
    unfolding even_chunks_def g_def [symmetric] Let_def ..
  have "sum_list (map (\<lambda>i. if i < r then 1 else 0) [0..<k]) = min r k" for r k :: nat
    by (induction k) auto
  from this [of "n mod g" g] have "sum_list (even_chunks n) = n div g * g + n mod g"
    unfolding e using g(1) by (simp add: sum_list_addf sum_list_triv min_def mult.commute less_imp_le)
  then show "sum_list (even_chunks n) = n" by simp
  have "0 < n div g" using g by (simp add: div_greater_zero_iff)
  moreover have "n div g + (if i < n mod g then 1 else 0) \<le> 18" for i
  proof (cases "n mod g = 0")
    case True
    with g show ?thesis by (simp add: div_le_mono2 less_mult_imp_div_less) (metis div_le_mono nonzero_mult_div_cancel_right not_less_zero)
  next
    case False
    then have "n < 18 * g" using g(3) by (metis le_neq_implies_less mod_mult_self2_is_0)
    then have "n div g < 18" using g(1) by (simp add: less_mult_imp_div_less)
    then show ?thesis by simp
  qed
  ultimately show "\<forall>s \<in> set (even_chunks n). 0 < s \<and> s \<le> BULK_FILL" unfolding e B by auto
qed

lemma take_chunks_props:
  assumes "sum_list ns = length xs" "\<forall>n \<in> set ns. 0 < n \<and> n \<le> b"
  shows "concat (take_chunks ns xs) = xs \<and> (\<forall>c \<in> set (take_chunks ns xs). c \<noteq> [] \<and> length c \<le> b)"
  using assms
proof (induction ns arbitrary: xs)
  case (Cons n ns)
  then have "sum_list ns = length (drop n xs)" "n \<le> length xs" "0 < n" "n \<le> b" by auto
  with Cons.IH [of "drop n xs"] Cons.prems show ?case by auto
qed simp

lemma chunks_props:
  assumes "xs \<noteq> []"
  shows "concat (take_chunks (even_chunks (length xs)) xs) = xs"
    "\<forall>c \<in> set (take_chunks (even_chunks (length xs)) xs). c \<noteq> [] \<and> length c \<le> BULK_FILL"
  using take_chunks_props [of "even_chunks (length xs)" xs BULK_FILL]
    even_chunks_props [of "length xs"] assms by auto

text \<open>A level of the tree under construction: subtrees with their least keys, in key order.\<close>

definition level_ok :: "nat \<Rightarrow> 'k::linorder option \<Rightarrow> ('k, 'v) level \<Rightarrow> bool" where
  "level_ok h hi level \<longleftrightarrow> level \<noteq> [] \<and>
     kids (bt_ok h) (Some (fst (hd level))) hi (map fst (tl level)) (map snd level)"

definition level_entries :: "('k, 'v) level \<Rightarrow> ('k \<times> 'v) list" where
  "level_entries level = concat (map node_entries (map snd level))"

lemma level_entries_simps [simp]:
  "level_entries [] = []"
  "level_entries (x # level) = node_entries (snd x) @ level_entries level"
  "level_entries (xs @ ys) = level_entries xs @ level_entries ys"
  by (simp_all add: level_entries_def)

lemma level_append:
  assumes "level_ok h hi (xs @ ys)" "xs \<noteq> []" "ys \<noteq> []"
  shows "level_ok h (Some (fst (hd ys))) xs" "level_ok h hi ys"
    "between (Some (fst (hd xs))) hi (fst (hd ys))"
proof -
  obtain x xs' y ys' where xs: "xs = x # xs'" and ys: "ys = y # ys'"
    using assms(2,3) by (meson list.exhaust)
  have k: "kids (bt_ok h) (Some (fst x)) hi (map fst xs' @ fst y # map fst ys')
      (map snd (x # xs') @ map snd (y # ys'))"
    using assms(1) by (simp add: level_ok_def xs ys)
  from kids_split_at [OF k, of "length xs'"]
  show "level_ok h (Some (fst (hd ys))) xs" "level_ok h hi ys"
    "between (Some (fst (hd xs))) hi (fst (hd ys))"
    by (simp_all add: level_ok_def xs ys nth_append)
qed

lemma level_single: "level_ok h hi [(k, n)] \<longleftrightarrow> bt_ok h (Some k) hi n"
  by (simp add: level_ok_def)

lemma level_Cons:
  assumes "level \<noteq> []" "bt_ok h (Some k) (Some (fst (hd level))) n"
    "between (Some k) hi (fst (hd level))" "level_ok h hi level"
  shows "level_ok h hi ((k, n) # level)"
  using assms by (cases level) (auto simp: level_ok_def)

lemma group_node:
  assumes "level_ok h hi c" "length c \<le> BULK_FILL"
  shows "\<exists>n. internal_of_group c = Inr (fst (hd c), n) \<and> bt_ok (Suc h) (Some (fst (hd c))) hi n \<and>
    node_entries n = level_entries c"
proof -
  obtain k m rest where c: "c = (k, m) # rest"
    using assms(1) by (cases c) (auto simp: level_ok_def)
  then show ?thesis
    using assms
    by (auto simp: internal_of_group_def level_ok_def level_entries_def BULK_FILL_def MAX_FANOUT_def)
qed

lemma next_level_groups:
  assumes "level_ok h hi (concat gs)" "gs \<noteq> []" "\<forall>g \<in> set gs. g \<noteq> [] \<and> length g \<le> BULK_FILL"
  shows "\<exists>level. each_node internal_of_group gs = Inr level \<and> level_ok (Suc h) hi level \<and>
    fst (hd level) = fst (hd (concat gs)) \<and> level_entries level = level_entries (concat gs)"
  using assms
proof (induction gs)
  case (Cons g gs)
  show ?case
  proof (cases "gs = []")
    case True
    with Cons.prems group_node [of h hi g] show ?thesis by (auto simp: level_single)
  next
    case False
    then have ne: "g \<noteq> []" "concat gs \<noteq> []" using Cons.prems(3) by (cases gs; auto)+
    note split = level_append [OF Cons.prems(1) [simplified] ne]
    obtain level where level: "each_node internal_of_group gs = Inr level" "level_ok (Suc h) hi level"
      "fst (hd level) = fst (hd (concat gs))" "level_entries level = level_entries (concat gs)"
      using Cons.IH [OF split(2) False] Cons.prems(3) by auto
    obtain n where n: "internal_of_group g = Inr (fst (hd g), n)"
      "bt_ok (Suc h) (Some (fst (hd g))) (Some (fst (hd (concat gs)))) n"
      "node_entries n = level_entries g"
      using group_node [OF split(1)] Cons.prems(3) by auto
    have "level_ok (Suc h) hi ((fst (hd g), n) # level)"
      by (rule level_Cons) (use level n split(3) in \<open>auto simp: level_ok_def\<close>)
    with n level ne show ?thesis by simp
  qed
qed simp

lemma first_level_chunks:
  assumes "bm_inv (concat gs)" "\<forall>k \<in> fst ` set (concat gs). in_range None hi k" "gs \<noteq> []"
    "\<forall>g \<in> set gs. g \<noteq> [] \<and> length g \<le> BULK_FILL"
  shows "\<exists>level. each_node leaf_of_chunk gs = Inr level \<and> level_ok 0 hi level \<and>
    fst (hd level) = fst (hd (concat gs)) \<and> level_entries level = concat gs"
  using assms
proof (induction gs)
  case (Cons g gs)
  obtain k v g' where g: "g = (k, v) # g'" using Cons.prems(4) by (cases g) auto
  have len: "length g \<le> MAX_FANOUT" using Cons.prems(4) by (auto simp: BULK_FILL_def)
  have leaf: "leaf_of_chunk g = Inr (k, Leaf g)" by (simp add: leaf_of_chunk_def g)
  have least: "\<forall>x \<in> fst ` set g. k \<le> x"
    using Cons.prems(1) by (force simp: g bm_inv_def intro: less_imp_le)
  show ?case
  proof (cases "gs = []")
    case True
    have "bt_ok 0 (Some k) hi (Leaf g)"
      using Cons.prems True least len g by (auto simp: leaf_ok_def)
    with True leaf g show ?thesis by (simp add: level_single)
  next
    case False
    then obtain e R where R: "concat gs = e # R"
      using Cons.prems(4) by (cases gs; cases "hd gs") auto
    have "concat (g # gs) = g @ e # R" "0 < length g" "drop (length g) (g @ e # R) = e # R"
      using R g by simp_all
    note split = split_sorted [of "g @ e # R" None hi "length g", OF _ _ this(2,3)]
    have s: "between None hi (fst e)" "bm_inv g" "\<forall>x \<in> fst ` set g. x < fst e" "bm_inv (concat gs)"
      "\<forall>x \<in> fst ` set (concat gs). in_range None hi x"
      using split Cons.prems(1,2) R by auto
    obtain level where level: "each_node leaf_of_chunk gs = Inr level" "level_ok 0 hi level"
      "fst (hd level) = fst e" "level_entries level = concat gs"
      using Cons.IH [OF s(4,5) False] Cons.prems(4) R by auto
    have "bt_ok 0 (Some k) (Some (fst e)) (Leaf g)"
      using s(2,3) least len g by (auto simp: leaf_ok_def)
    moreover have "between (Some k) hi (fst e)" using s(1,3) g by simp
    ultimately have "level_ok 0 hi ((k, Leaf g) # level)"
      by (intro level_Cons) (use level in \<open>auto simp: level_ok_def\<close>)
    with leaf level g show ?thesis by simp
  qed
qed simp

lemma build_up_correct:
  assumes "level_ok h None level" "length level \<le> 2 ^ (U8_MAX - h)"
  shows "\<exists>k n h'. build_up level h = Inr ([(k, n)], h') \<and> bt_ok h' None None n \<and>
    node_entries n = level_entries level"
  using assms
proof (induction level h rule: build_up.induct)
  case (1 level h)
  show ?case
  proof (cases "length level > 1")
    case False
    then obtain k n where level: "level = [(k, n)]"
      using "1.prems"(1) by (cases level; cases "tl level") (auto simp: level_ok_def)
    then have "bt_ok h None None n"
      using "1.prems"(1) bt_ok_mono [of h "Some k" None n None None]
      by (simp add: level_single lower_def)
    then show ?thesis by (simp add: build_up.simps [of "[(k, n)]"] level)
  next
    case True
    then have h: "h < U8_MAX" using "1.prems"(2) by (cases "h < U8_MAX") auto
    have c: "checked_add U8_MAX h 1 ''tree height overflow'' = Inr (Suc h)"
      using h by (simp add: checked_add_def)
    note ch = chunks_props [of level]
    have "level \<noteq> []" using True by auto
    note ch = chunks_props [OF this]
    have ne: "take_chunks (even_chunks (length level)) level \<noteq> []" using ch(1) True by auto
    obtain level' where l: "next_level level = Inr level'" "level_ok (Suc h) None level'"
      "level_entries level' = level_entries level"
      using next_level_groups [of h None "take_chunks (even_chunks (length level)) level"] ch ne "1.prems"(1)
      by (auto simp: next_level_def)
    have "2 ^ (U8_MAX - h) = 2 * (2::nat) ^ (U8_MAX - Suc h)"
      using h by (metis Suc_diff_Suc power_Suc)
    then have "length level' \<le> 2 ^ (U8_MAX - Suc h)"
      using next_level_length [OF l(1)] "1.prems"(2) by auto
    with "1.IH" [OF True l(1) c] l(2,3) show ?thesis
      using True l(1) c by (simp add: build_up.simps [of level])
  qed
qed

lemma from_sorted_correct:
  assumes "bm_inv es" "length es \<le> USIZE_MAX"
  shows "\<exists>m. from_sorted es = Inr m \<and> om_ok m \<and> om_entries m = es"
proof (cases "es = []")
  case True
  then show ?thesis by (simp add: from_sorted_def om_ok_def om_new_def om_entries_def)
next
  case False
  let ?gs = "take_chunks (even_chunks (length es)) es"
  note ch = chunks_props [OF False]
  have "?gs \<noteq> []" using ch(1) False by auto
  then obtain level where l: "first_level es = Inr level" "level_ok 0 None level"
    "level_entries level = es"
    using first_level_chunks [of ?gs None] ch assms(1) by (auto simp: first_level_def)
  have "length level \<le> length es"
    using length_each_node [OF l(1) [unfolded first_level_def]] False
    by (cases es) (auto simp: length_take_chunks length_even_chunks)
  also have "\<dots> \<le> 2 ^ (U8_MAX - 0)" using assms(2) by (simp add: USIZE_MAX_def U8_MAX_def)
  finally obtain k n h where b: "build_up level 0 = Inr ([(k, n)], h)" "bt_ok h None None n"
    "node_entries n = es"
    using build_up_correct [OF l(2)] l(3) by auto
  then show ?thesis using False l(1) by (simp add: from_sorted_def om_ok_def om_entries_def)
qed

text \<open>Collecting pairs: a stable sort and keeping the last value of each key is inserting the pairs in
  order into an empty map.\<close>

lemma keep_last_insert:
  assumes "bm_inv acc" "\<forall>k \<in> fst ` set acc. k \<le> fst e"
  shows "keep_last e acc = bm_insert (fst e) (snd e) acc"
proof (cases acc rule: rev_cases)
  case Nil
  then show ?thesis by (simp add: keep_last_def)
next
  case (snoc xs x)
  have below: "keys_below (fst x) xs"
    using assms(1) snoc by (auto simp: bm_inv_def sorted_wrt_append)
  show ?thesis
  proof (cases "fst x = fst e")
    case True
    with below have "bm_insert (fst e) (snd e) (xs @ [x]) = xs @ bm_insert (fst e) (snd e) [x]"
      by (intro bm_insert_below) simp
    with True snoc show ?thesis by (cases x; cases e) (simp add: keep_last_def)
  next
    case False
    then have "keys_below (fst e) acc"
      using assms(2) snoc below by (auto intro: less_le_trans less_trans)
    then have "bm_insert (fst e) (snd e) (acc @ []) = acc @ bm_insert (fst e) (snd e) []"
      by (rule bm_insert_below)
    with False snoc show ?thesis by (simp add: keep_last_def)
  qed
qed

lemma fold_keep_last:
  assumes "sorted_wrt (\<le>) (map fst ss)" "bm_inv acc" "\<forall>e \<in> set ss. \<forall>k \<in> fst ` set acc. k \<le> fst e"
  shows "fold keep_last ss acc = bm.insert_all ss acc"
  using assms
proof (induction ss arbitrary: acc)
  case Nil
  then show ?case by (simp add: bm.insert_all_def)
next
  case (Cons e ss)
  have "keep_last e acc = bm_insert (fst e) (snd e) acc"
    using Cons.prems by (intro keep_last_insert) auto
  moreover have "fold keep_last ss (bm_insert (fst e) (snd e) acc) =
      bm.insert_all ss (bm_insert (fst e) (snd e) acc)"
    using Cons.prems keys_bm_insert [of "fst e" "snd e" acc]
    by (intro Cons.IH) (auto simp: bm_inv_insert)
  ultimately show ?case by (simp add: bm.insert_all_def case_prod_beta)
qed

abbreviation by_key :: "('k::linorder \<times> 'v) \<Rightarrow> ('k \<times> 'v) \<Rightarrow> ordering" where
  "by_key a b \<equiv> cmp (fst a) (fst b)"

lemma filter_insert_by_key:
  "filter (\<lambda>e. fst e = k) (insert_by by_key x ys) = filter (\<lambda>e. fst e = k) (x # ys)"
  by (induction ys) auto

lemma sort_by_key_stable:
  "filter (\<lambda>e. fst e = k) (sort_by by_key xs) = filter (\<lambda>e. fst e = k) xs"
  by (induction xs) (simp_all add: sort_by_def filter_insert_by_key)

lemma map_of_filter_eq: "map_of (filter (\<lambda>e. fst e = k) xs) k = map_of xs k"
  by (induction xs) auto

lemma map_of_rev_sort_by_key: "map_of (rev (sort_by by_key xs)) = map_of (rev xs)"
proof
  fix k
  have "map_of (filter (\<lambda>e. fst e = k) (rev (sort_by by_key xs))) k =
      map_of (filter (\<lambda>e. fst e = k) (rev xs)) k"
    by (simp only: rev_filter [symmetric] sort_by_key_stable)
  then show "map_of (rev (sort_by by_key xs)) k = map_of (rev xs) k"
    by (simp only: map_of_filter_eq)
qed

lemma sorted_sort_by_key: "sorted_wrt (\<le>) (map fst (sort_by by_key xs))"
proof -
  have c: "ord_contract (by_key :: 'a \<times> 'b \<Rightarrow> _)"
    by (rule ord_contract_key) (rule cmp_ord.ord_contract_axioms)
  have "sorted_wrt (ord_contract.le by_key) (sort_by by_key xs)"
    by (rule ord_contract.sorted_sort_by [OF c])
  moreover have "ord_contract.le by_key = (\<lambda>x y :: 'a \<times> 'b. fst x \<le> fst y)"
    by (simp add: fun_eq_iff ord_contract.le_def [OF c] not_less)
  ultimately show ?thesis by (simp add: sorted_wrt_map)
qed

lemma collect_entries:
  "fold keep_last (sort_by by_key items) [] = bm.insert_all items []"
proof (rule bm_inv_unique)
  have f: "fold keep_last (sort_by by_key items) [] = bm.insert_all (sort_by by_key items) []"
    by (rule fold_keep_last) (simp_all add: sorted_sort_by_key)
  show "bm_inv (fold keep_last (sort_by by_key items) [])"
    unfolding f by (rule bm.invar_insert_all) simp
  show "bm_inv (bm.insert_all items [])"
    by (rule bm.invar_insert_all) simp
  show "map_of (fold keep_last (sort_by by_key items) []) = map_of (bm.insert_all items [])"
    unfolding f by (simp add: bm.lookup_insert_all map_of_rev_sort_by_key)
qed

lemma length_insert_all: "bm_inv m \<Longrightarrow> length (bm.insert_all kvs m) \<le> length m + length kvs"
proof (induction kvs arbitrary: m)
  case Nil
  then show ?case by (simp add: bm.insert_all_def)
next
  case (Cons e kvs)
  obtain k v where e: "e = (k, v)" by (cases e)
  have "length (bm.insert_all kvs (bm_insert k v m)) \<le> length (bm_insert k v m) + length kvs"
    using Cons by (simp add: bm_inv_insert)
  also have "length (bm_insert k v m) \<le> Suc (length m)"
    using length_bm_insert [OF Cons.prems, of k v] by simp
  finally show ?case by (simp add: bm.insert_all_def e)
qed

lemma om_from_iter_correct:
  assumes "length items \<le> USIZE_MAX"
  shows "\<exists>m. om_from_iter items = Inr m \<and> om_ok m \<and> om_entries m = bm.insert_all items []"
  unfolding om_from_iter_def collect_entries
  by (rule from_sorted_correct)
    (use assms length_insert_all [of "[]" items] in \<open>simp_all add: bm.invar_insert_all\<close>)

section \<open>Iterators\<close>

text \<open>An iterator that yields the items of a list: any number of calls returns a prefix of it.\<close>

locale list_iterator =
  fixes nxt :: "'s \<Rightarrow> 'a option \<times> 's"
    and left :: "'s \<Rightarrow> 'a list"
    and good :: "'s \<Rightarrow> bool"
  assumes next_Nil: "good s \<Longrightarrow> left s = [] \<Longrightarrow> fst (nxt s) = None"
    and next_Cons: "good s \<Longrightarrow> left s = x # xs \<Longrightarrow> \<exists>s'. nxt s = (Some x, s') \<and> left s' = xs \<and> good s'"
begin

lemma pull_take: "good s \<Longrightarrow> pull nxt n s = take n (left s)"
proof (induction n arbitrary: s)
  case (Suc n)
  show ?case
  proof (cases "left s")
    case Nil
    with next_Nil [OF Suc.prems] have "fst (nxt s) = None" by simp
    with Nil show ?thesis by (cases "nxt s") simp
  next
    case (Cons x xs)
    with next_Cons [OF Suc.prems] obtain s' where "nxt s = (Some x, s')" "left s' = xs" "good s'"
      by blast
    with Suc.IH [of s'] Cons show ?thesis by simp
  qed
qed simp

end

definition stack_rest :: "(('k, 'v) node list \<times> nat) list \<Rightarrow> ('k \<times> 'v) list" where
  "stack_rest st = concat (map (\<lambda>(cs, i). concat (map node_entries (drop i cs))) st)"

definition iter_rest :: "('k, 'v) iter_state \<Rightarrow> ('k \<times> 'v) list" where
  "iter_rest it = drop (it_pos it) (it_leaf it) @ stack_rest (it_stack it)"

lemma stack_rest_simps [simp]:
  "stack_rest [] = []"
  "stack_rest ((cs, i) # st) = concat (map node_entries (drop i cs)) @ stack_rest st"
  by (simp_all add: stack_rest_def)

lemma descend_leftmost_rest: "iter_rest (descend_leftmost n st) = node_entries n @ stack_rest st"
  by (induction n st rule: descend_leftmost.induct) (simp_all add: iter_rest_def)

lemma next_child_rest:
  "case next_child st of None \<Rightarrow> stack_rest st = [] | Some it \<Rightarrow> iter_rest it = stack_rest st"
proof (induction st rule: next_child.induct)
  case (2 cs i st)
  show ?case
  proof (cases "i < length cs")
    case True
    have "drop i cs = cs ! i # drop (Suc i) cs" using True by (simp add: Cons_nth_drop_Suc)
    with True show ?thesis by (simp add: descend_leftmost_rest)
  qed (use 2 in \<open>auto split: option.splits\<close>)
qed simp

lemma iter_next_rest:
  "case iter_rest it of
     [] \<Rightarrow> fst (iter_next it) = None
   | e # es \<Rightarrow> \<exists>it'. iter_next it = (Some e, it') \<and> iter_rest it' = es"
proof (induction it rule: iter_next.induct)
  case (1 it)
  show ?case
  proof (cases "it_pos it < length (it_leaf it)")
    case True
    then have "drop (it_pos it) (it_leaf it) =
        it_leaf it ! it_pos it # drop (Suc (it_pos it)) (it_leaf it)"
      by (simp add: Cons_nth_drop_Suc)
    with True show ?thesis by (simp add: iter_next.simps [of it] iter_rest_def)
  next
    case False
    then have r: "iter_rest it = stack_rest (it_stack it)" by (simp add: iter_rest_def)
    show ?thesis
    proof (cases "next_child (it_stack it)")
      case None
      with next_child_rest [of "it_stack it"] r False show ?thesis
        by (simp add: iter_next.simps [of it])
    next
      case (Some it')
      have same: "iter_next it = iter_next it'" using False Some by (simp add: iter_next.simps [of it])
      have rest: "iter_rest it = iter_rest it'" using next_child_rest [of "it_stack it"] Some r by simp
      show ?thesis unfolding same rest by (rule 1 [OF False Some])
    qed
  qed
qed

interpretation iter: list_iterator iter_next iter_rest "\<lambda>_. True"
proof
  fix it :: "('k, 'v) iter_state" and e es
  show "iter_rest it = [] \<Longrightarrow> fst (iter_next it) = None"
    using iter_next_rest [of it] by simp
  show "iter_rest it = e # es \<Longrightarrow> \<exists>it'. iter_next it = (Some e, it') \<and> iter_rest it' = es \<and> True"
    using iter_next_rest [of it] by simp
qed

lemma om_iter_correct: "pull iter_next n (om_iter m) = take n (om_entries m)"
  by (simp add: iter.pull_take om_iter_def descend_leftmost_rest om_entries_def)

section \<open>Ranges of keys\<close>

definition after_start :: "'k::linorder bound \<Rightarrow> 'k \<Rightarrow> bool" where
  "after_start b key = (case b of
       Included s \<Rightarrow> s \<le> key
     | Excluded s \<Rightarrow> s < key
     | Unbounded \<Rightarrow> True)"

lemma drop_takeWhile_filter:
  assumes "sorted_wrt R xs" "\<And>x y. R x y \<Longrightarrow> P y \<Longrightarrow> P x"
  shows "drop (length (takeWhile P xs)) xs = filter (\<lambda>x. \<not> P x) xs"
  using assms(1)
proof (induction xs)
  case (Cons x xs)
  show ?case
  proof (cases "P x")
    case False
    then have "\<forall>y \<in> set xs. \<not> P y" using Cons.prems assms(2) by auto
    with False show ?thesis by (simp add: filter_id_conv)
  qed (use Cons in simp)
qed simp

lemma takeWhile_filter:
  assumes "sorted_wrt R xs" "\<And>x y. R x y \<Longrightarrow> P y \<Longrightarrow> P x"
  shows "takeWhile P xs = filter P xs"
  using assms(1)
proof (induction xs)
  case (Cons x xs)
  show ?case
  proof (cases "P x")
    case False
    then have "\<forall>y \<in> set xs. \<not> P y" using Cons.prems assms(2) by auto
    with False show ?thesis by (simp add: filter_empty_conv)
  qed (use Cons in simp)
qed simp

definition from_key :: "bool \<Rightarrow> 'k::linorder \<Rightarrow> ('k \<times> 'v) \<Rightarrow> bool" where
  "from_key inclusive key e \<longleftrightarrow> (if inclusive then key \<le> fst e else key < fst e)"

lemma bm_inv_wrt: "bm_inv es \<longleftrightarrow> sorted_wrt (\<lambda>a b. fst a < fst b) es"
  by (simp add: bm_inv_def sorted_wrt_map)

lemma seek_leaf:
  assumes "bm_inv es"
  shows "\<exists>it. seek_node key incl (Leaf es) st = Inr it \<and>
    iter_rest it = filter (from_key incl key) es @ stack_rest st"
proof -
  let ?P = "\<lambda>(k, _). if incl then k < key else k \<le> key"
  have "drop (length (takeWhile ?P es)) es = filter (\<lambda>e. \<not> ?P e) es"
    by (rule drop_takeWhile_filter [OF assms [unfolded bm_inv_wrt]]) (auto split: if_splits)
  also have "\<dots> = filter (from_key incl key) es"
    by (rule filter_cong) (auto simp: from_key_def)
  finally show ?thesis by (simp add: iter_rest_def)
qed

lemma seek_node_rest:
  assumes "bt_ok h lo hi n" "in_range lo hi key"
  shows "\<exists>it. seek_node key incl n st = Inr it \<and>
    iter_rest it = filter (from_key incl key) (node_entries n) @ stack_rest st"
  using assms
proof (induction h arbitrary: lo hi n st)
  case 0
  then obtain es where "n = Leaf es" "bm_inv es" by (auto simp: leaf_ok_def split: node.splits)
  with seek_leaf [of es] show ?case by simp
next
  case (Suc h)
  then obtain ks cs where n: "n = Internal ks cs" and k: "kids (bt_ok h) lo hi ks cs"
    by (auto split: node.splits)
  from k Suc.prems(2) show ?case
  proof (cases rule: internal_focus)
    case (1 cs1 c cs2 ks1 ks2 l u)
    let ?i = "child_index ks key"
    have "seek_node key incl n st = seek_node key incl c ((cs, ?i + 1) # st)"
      using 1(1,3) by (simp add: n nth_append)
    moreover have "drop (?i + 1) cs = cs2" using 1(1,3) by (simp flip: 1(3))
    moreover have "filter (from_key incl key) (concat (map node_entries cs1)) = []"
      using 1(7) by (fastforce simp: filter_empty_conv from_key_def split: if_splits)
    moreover have "filter (from_key incl key) (concat (map node_entries cs2)) =
        concat (map node_entries cs2)"
      using 1(8) by (intro filter_True) (fastforce simp: from_key_def)
    ultimately show ?thesis
      using Suc.IH [OF 1(5,6), of "(cs, ?i + 1) # st"] by (simp add: n 1(1))
  qed
qed

lemma om_range_start_rest:
  assumes "om_ok m"
  shows "\<exists>it. om_range_start start m = Inr it \<and>
    iter_rest it = filter (\<lambda>e. after_start start (fst e)) (om_entries m)"
proof -
  have seek: "\<exists>it. seek_node key incl (om_root m) [] = Inr it \<and>
      iter_rest it = filter (from_key incl key) (om_entries m)" for key incl
    using assms seek_node_rest [of "om_height m" None None "om_root m" key incl "[]"]
      seek_leaf [of "[]" key incl "[]"]
    by (auto simp: om_ok_def om_entries_def simp del: seek_node.simps)
  show ?thesis
  proof (cases start)
    case (Included key)
    then show ?thesis using seek [of key True] by (simp add: om_range_start_def after_start_def from_key_def [abs_def])
  next
    case (Excluded key)
    then show ?thesis using seek [of key False] by (simp add: om_range_start_def after_start_def from_key_def [abs_def])
  next
    case Unbounded
    then show ?thesis
      by (simp add: om_range_start_def after_start_def om_iter_def descend_leftmost_rest om_entries_def)
  qed
qed

definition range_rest :: "'k::linorder bound \<Rightarrow> ('k, 'v) iter_state \<Rightarrow> ('k \<times> 'v) list" where
  "range_rest b it = takeWhile (\<lambda>e. within_end b (fst e)) (iter_rest it)"

interpretation range_it: list_iterator "range_next b" "range_rest b" "\<lambda>_. True"
  for b :: "'k::linorder bound"
proof
  fix it :: "('k, 'v) iter_state" and e es
  show "fst (range_next b it) = None" if "range_rest b it = []"
    using that iter_next_rest [of it]
    by (cases "iter_rest it"; cases "iter_next it") (auto simp: range_next_def range_rest_def split: if_splits)
  show "\<exists>it'. range_next b it = (Some e, it') \<and> range_rest b it' = es \<and> True"
    if "range_rest b it = e # es"
    using that iter_next_rest [of it]
    by (cases "iter_rest it"; cases e) (auto simp: range_next_def range_rest_def split: if_splits)
qed

lemma within_end_below: "k \<le> l \<Longrightarrow> within_end b l \<Longrightarrow> within_end b k"
  by (auto simp: within_end_def split: bound.splits)

lemma om_range_correct:
  assumes "om_ok m"
  shows "\<exists>it. om_range_start start m = Inr it \<and>
    (\<forall>n. pull (range_next b) n it =
      take n (filter (\<lambda>e. after_start start (fst e) \<and> within_end b (fst e)) (om_entries m)))"
proof -
  obtain it where it: "om_range_start start m = Inr it"
    "iter_rest it = filter (\<lambda>e. after_start start (fst e)) (om_entries m)"
    using om_range_start_rest [OF assms] by blast
  have "sorted_wrt (\<lambda>a b. fst a < fst b) (iter_rest it)"
    using om_sorted [OF assms] it(2) by (simp add: bm_inv_wrt sorted_wrt_filter)
  then have "range_rest b it = filter (\<lambda>e. within_end b (fst e)) (iter_rest it)"
    unfolding range_rest_def
    by (rule takeWhile_filter) (auto intro: within_end_below less_imp_le)
  then have "range_rest b it =
      filter (\<lambda>e. after_start start (fst e) \<and> within_end b (fst e)) (om_entries m)"
    by (simp add: it(2) conj_commute)
  with it(1) show ?thesis by (auto simp: range_it.pull_take)
qed

section \<open>Properties\<close>

text \<open>Collecting pairs into a map succeeds, and iterating over the result yields the entries of the
  map obtained by inserting the pairs one after the other, in key order and with the last value of
  each key.\<close>

lemma from_iter_iterates:
  assumes "length items \<le> USIZE_MAX"
  shows "\<exists>m. om_from_iter items = Inr m \<and> om_ok m \<and>
    pull iter_next n (om_iter m) = take n (fold (\<lambda>(k, v). bm_insert k v) items [])"
  using om_from_iter_correct [OF assms] by (auto simp: om_iter_correct bm.insert_all_def)

lemma from_iter_iterates_witness:
  "\<exists>m. om_from_iter [(2::nat, ''b''), (1, ''a''), (2, ''x'')] = Inr m \<and> om_ok m \<and>
    pull iter_next 5 (om_iter m) = [(1, ''a''), (2, ''x'')]"
  using from_iter_iterates [of "[(2::nat, ''b''), (1, ''a''), (2, ''x'')]" 5]
  by (simp add: USIZE_MAX_def)

text \<open>A range query does not panic and yields, in key order, exactly the entries between its bounds,
  inclusive, exclusive or unbounded on either side.\<close>

lemma range_exact:
  assumes "om_ok m"
  shows "\<exists>it. om_range_start start m = Inr it \<and>
    (\<forall>n. pull (range_next end_bound) n it =
      take n (filter (\<lambda>e. after_start start (fst e) \<and> within_end end_bound (fst e)) (om_entries m)))"
  by (rule om_range_correct [OF assms])

lemma range_exact_witness:
  "\<exists>it. om_range_start (Excluded 1) sample_tree = Inr it \<and>
    pull (range_next (Included 3)) 5 it = [(2, ''b''), (3, ''c'')]"
proof -
  have "filter (\<lambda>e. after_start (Excluded 1) (fst e) \<and> within_end (Included 3) (fst e))
      (om_entries sample_tree) = [(2, ''b''), (3, ''c'')]"
    by (simp add: sample_tree_def om_entries_def after_start_def within_end_def)
  with range_exact [OF samples_ok(1), of "Excluded 1" "Included 3"] show ?thesis by fastforce
qed

end
