(* ===== verification/Ord_Map_Diff.thy ===== *)
theory Ord_Map_Diff
  imports Ord_Map_Iter
begin

text \<open>
  The difference of two persistent ordered maps. The walk over both trees is shown to yield the merge
  difference of their entries, whatever subtrees it skips because both maps share them.
\<close>

section \<open>Differences\<close>

text \<open>The reference: a merge of the two sorted lists of entries.\<close>

fun diff_ref :: "('k::linorder \<times> 'v) list \<Rightarrow> ('k \<times> 'v) list \<Rightarrow> ('k, 'v) diff_item list" where
  "diff_ref [] [] = []"
| "diff_ref ((k, v) # es) [] = Remove k v # diff_ref es []"
| "diff_ref [] ((l, w) # fs) = Add l w # diff_ref [] fs"
| "diff_ref ((k, v) # es) ((l, w) # fs) =
     (if k < l then Remove k v # diff_ref es ((l, w) # fs)
      else if l < k then Add l w # diff_ref ((k, v) # es) fs
      else (if v \<noteq> w then [Update (k, v) (l, w)] else []) @ diff_ref es fs)"

definition patch :: "('k::linorder, 'v) diff_item \<Rightarrow> ('k \<times> 'v) list \<Rightarrow> ('k \<times> 'v) list" where
  "patch d es = (case d of
       Add k v \<Rightarrow> bm_insert k v es
     | Update _ (k, v) \<Rightarrow> bm_insert k v es
     | Remove k _ \<Rightarrow> hm_remove k es)"

lemma diff_ref_same: "diff_ref (xs @ es) (xs @ fs) = diff_ref es fs"
  by (induction xs) auto

lemma diff_ref_Nil: "diff_ref es fs = [] \<longleftrightarrow> es = fs"
  by (induction es fs rule: diff_ref.induct) auto

lemma length_diff_ref: "length (diff_ref es fs) \<le> length es + length fs"
  by (induction es fs rule: diff_ref.induct) auto

lemma patch_diff_ref:
  assumes "bm_inv (acc @ es)" "bm_inv (acc @ fs)"
  shows "fold patch (diff_ref es fs) (acc @ es) = acc @ fs"
  using assms
proof (induction es fs arbitrary: acc rule: diff_ref.induct)
  case (2 k v es)
  have out: "keys_below k acc" "keys_above k es"
    using 2(2) by (auto simp: bm_inv_def sorted_wrt_append)
  have "hm_remove k (acc @ [(k, v)] @ es) = acc @ es"
    by (subst hm_remove_outside [OF out]) (simp add: hm_remove_def)
  moreover have "bm_inv (acc @ es)" using 2(2) by (auto simp: bm_inv_def sorted_wrt_append)
  ultimately show ?case using 2(1) [of acc] 2(3) by (simp add: patch_def)
next
  case (3 l w fs)
  have out: "keys_below l acc" using 3(3) by (auto simp: bm_inv_def sorted_wrt_append)
  have "bm_insert l w (acc @ []) = acc @ [(l, w)]" by (subst bm_insert_below [OF out]) simp
  moreover have "bm_inv (acc @ [(l, w)])" using 3(3) by (auto simp: bm_inv_def sorted_wrt_append)
  ultimately show ?case using 3(1) [of "acc @ [(l, w)]"] 3(3) by (simp add: patch_def)
next
  case (4 k v es l w fs)
  have k: "keys_below k acc" "keys_above k es" and l: "keys_below l acc" "keys_above l fs"
    using "4.prems" by (auto simp: bm_inv_def sorted_wrt_append)
  have tails: "bm_inv (acc @ es)" "bm_inv (acc @ fs)"
    using "4.prems" by (auto simp: bm_inv_def sorted_wrt_append)
  consider "k < l" | "l < k" | "k = l" by force
  then show ?case
  proof cases
    case 1
    have "hm_remove k (acc @ [(k, v)] @ es) = acc @ es"
      by (subst hm_remove_outside [OF k]) (simp add: hm_remove_def)
    with 1 "4.IH"(1) [OF 1 tails(1) "4.prems"(2)] show ?thesis by (simp add: patch_def)
  next
    case 2
    then have nk: "\<not> k < l" by simp
    have ins: "bm_insert l w (acc @ (k, v) # es) = acc @ (l, w) # (k, v) # es"
      using 2 by (simp add: bm_insert_below [OF l(1)])
    have "bm_inv ((acc @ [(l, w)]) @ (k, v) # es)"
      using bm_inv_insert [OF "4.prems"(1), of l w] ins by simp
    with 2 nk "4.IH"(2) [OF nk 2, of "acc @ [(l, w)]"] "4.prems"(2) ins show ?thesis
      by (simp add: patch_def)
  next
    case 3
    have ins: "bm_insert k w (acc @ (k, v) # es) = acc @ (k, w) # es"
      by (simp add: bm_insert_below [OF k(1)])
    have "bm_inv ((acc @ [(k, w)]) @ es)" using bm_inv_insert [OF "4.prems"(1), of k w] ins by simp
    with 3 "4.IH"(3) [of "acc @ [(l, w)]"] "4.prems"(2) ins show ?thesis
      by (cases "v = w") (simp_all add: patch_def)
  qed
qed simp

text \<open>What a cursor has still to yield, and the subtrees it may meet: \<open>first_key\<close> is the key of the first
  entry only when no child is empty.\<close>

fun full :: "('k, 'v) node \<Rightarrow> bool" where
  "full (Leaf es) \<longleftrightarrow> es \<noteq> []"
| "full (Internal ks cs) \<longleftrightarrow> cs \<noteq> [] \<and> (\<forall>c \<in> set cs. full c)"

definition frame_rest :: "('k, 'v) frame \<Rightarrow> ('k \<times> 'v) list" where
  "frame_rest f = (case f of
       Nodes items idx _ \<Rightarrow> concat (map node_entries (drop idx items))
     | Entries items idx \<Rightarrow> drop idx items)"

definition cursor_rest :: "('k, 'v) cursor \<Rightarrow> ('k \<times> 'v) list" where
  "cursor_rest st = concat (map frame_rest st)"

definition frame_ok :: "('k, 'v) frame \<Rightarrow> bool" where
  "frame_ok f = (case f of
       Nodes items _ _ \<Rightarrow> (\<forall>n \<in> set items. full n \<or> n = Leaf [])
     | Entries _ _ \<Rightarrow> True)"

abbreviation cursor_ok :: "('k, 'v) cursor \<Rightarrow> bool" where
  "cursor_ok st \<equiv> (\<forall>f \<in> set st. frame_ok f)"

lemma cursor_rest_simps [simp]:
  "cursor_rest [] = []"
  "cursor_rest (f # st) = frame_rest f @ cursor_rest st"
  "frame_rest (Nodes items idx h) = concat (map node_entries (drop idx items))"
  "frame_rest (Entries es idx) = drop idx es"
  "frame_ok (Nodes items idx h) \<longleftrightarrow> (\<forall>n \<in> set items. full n \<or> n = Leaf [])"
  "frame_ok (Entries es idx)"
  by (simp_all add: cursor_rest_def frame_rest_def frame_ok_def)

lemma bt_full: "bt_ok h lo hi n \<Longrightarrow> full n"
proof (induction h arbitrary: lo hi n)
  case 0
  then show ?case by (auto split: node.splits)
next
  case (Suc h)
  then obtain ks cs where n: "n = Internal ks cs" and k: "kids (bt_ok h) lo hi ks cs"
    by (auto split: node.splits)
  have "\<exists>l u. bt_ok h l u c" if "c \<in> set cs" for c
    using k that by (induction "bt_ok h :: _ \<Rightarrow> _ \<Rightarrow> ('a, 'b) node \<Rightarrow> _" lo hi ks cs rule: kids.induct) auto
  with Suc.IH have "\<forall>c \<in> set cs. full c" by blast
  with kids_nonempty [OF k] show ?case by (simp add: n)
qed

lemma first_key_full:
  "full n \<Longrightarrow> \<exists>e es. node_entries n = e # es \<and> first_key n = Some (fst e)"
proof (induction n rule: first_key.induct)
  case (1 es)
  then show ?case by (cases es) auto
next
  case (3 ks c cs)
  then obtain e es where "node_entries c = e # es" "first_key c = Some (fst e)" by auto
  then show ?case by simp
qed simp

lemma first_key_cases:
  assumes "full n \<or> n = Leaf []"
  obtains "node_entries n = []" "first_key n = None"
    | k v es where "node_entries n = (k, v) # es" "first_key n = Some k"
  using assms first_key_full [of n] by fastforce

lemma cursor_head_rest:
  assumes "cursor_head st = (h, st')" "cursor_ok st"
  shows "cursor_rest st' = cursor_rest st" "cursor_ok st'"
  using assms
proof (induction st)
  case (Cons f st)
  { case 1 with Cons show ?case
      by (cases f) (auto simp: frame_head_def vec_get_def split: if_splits) }
  { case 2 with Cons show ?case
      by (cases f) (auto simp: frame_head_def vec_get_def split: if_splits) }
qed auto

lemma cursor_at_node:
  assumes "cursor_head st = (Some (Head_Node n), st')" "cursor_ok st"
  shows "full n \<or> n = Leaf []"
    "cursor_rest st' = node_entries n @ cursor_rest (cursor_skip st')"
    "cursor_rest (cursor_expand st') = cursor_rest st'"
    "cursor_ok (cursor_skip st')" "cursor_ok (cursor_expand st')"
proof -
  note ok = cursor_head_rest(2) [OF assms]
  obtain items idx h rest where st': "st' = Nodes items idx h # rest"
    and idx: "idx < length items" and n: "items ! idx = n"
    using assms(1) by (rule cursor_head_node)
  have d: "drop idx items = n # drop (Suc idx) items" using Cons_nth_drop_Suc [OF idx] n by simp
  show f: "full n \<or> n = Leaf []" using ok idx n by (auto simp: st')
  show "cursor_rest st' = node_entries n @ cursor_rest (cursor_skip st')" by (simp add: st' d)
  show "cursor_rest (cursor_expand st') = cursor_rest st'"
    by (cases n) (simp_all add: st' d idx n vec_get_def)
  show "cursor_ok (cursor_skip st')" using ok by (simp add: st')
  show "cursor_ok (cursor_expand st')"
    using ok f by (cases n) (auto simp: st' idx n vec_get_def)
qed

lemma cursor_at_entry:
  assumes "cursor_head st = (Some (Head_Entry k v), st')" "cursor_ok st"
  shows "cursor_rest st' = (k, v) # cursor_rest (cursor_skip st')" "cursor_ok (cursor_skip st')"
proof -
  note ok = cursor_head_rest(2) [OF assms]
  obtain items idx rest where st': "st' = Entries items idx # rest"
    and idx: "idx < length items" and n: "items ! idx = (k, v)"
    using assms(1) by (rule cursor_head_entry)
  have "drop idx items = (k, v) # drop (Suc idx) items" using Cons_nth_drop_Suc [OF idx] n by simp
  then show "cursor_rest st' = (k, v) # cursor_rest (cursor_skip st')" by (simp add: st')
  show "cursor_ok (cursor_skip st')" using ok by (simp add: st')
qed

text \<open>Two pointers that are the same point to the same node.\<close>

definition ptr_sound :: "('k, 'v) ptr_eq \<Rightarrow> bool" where
  "ptr_sound same \<longleftrightarrow> (\<forall>l r ln rn. same l r ln rn \<longrightarrow> ln = rn)"

abbreviation cursor_diff ::
  "('k::linorder, 'v) cursor \<Rightarrow> ('k, 'v) cursor \<Rightarrow> ('k, 'v) diff_item list" where
  "cursor_diff l r \<equiv> diff_ref (cursor_rest l) (cursor_rest r)"

lemma diff_ref_heads:
  "k < l \<Longrightarrow> diff_ref ((k, v) # es) ((l, w) # fs) = Remove k v # diff_ref es ((l, w) # fs)"
  "l < k \<Longrightarrow> diff_ref ((k, v) # es) ((l, w) # fs) = Add l w # diff_ref ((k, v) # es) fs"
  by auto

lemma advance_nodes_rest:
  assumes l: "cursor_head l0 = (Some (Head_Node ln), l)" "cursor_ok l0"
    and r: "cursor_head r0 = (Some (Head_Node rn), r)" "cursor_ok r0"
    and same: "ptr_sound same" and adv: "advance_nodes same l r ln rn = (l', r', n)"
  shows "cursor_ok l' \<and> cursor_ok r' \<and> cursor_diff l' r' = cursor_diff l r"
proof -
  note L = cursor_at_node [OF l] and R = cursor_at_node [OF r]
  note ok = cursor_head_rest(2) [OF l] cursor_head_rest(2) [OF r]
  show ?thesis
  proof (cases "same l r ln rn")
    case True
    then have "ln = rn" using same by (auto simp: ptr_sound_def)
    with True adv L R show ?thesis by (auto simp: advance_nodes_def diff_ref_same)
  next
    case False
    from L(1) show ?thesis
    proof (cases rule: first_key_cases)
      case 1
      with False adv L R ok show ?thesis by (auto simp: advance_nodes_def)
    next
      case left: (2 lk lv les)
      from R(1) show ?thesis
      proof (cases rule: first_key_cases)
        case 1
        with False adv L R ok left show ?thesis by (auto simp: advance_nodes_def)
      next
        case right: (2 rk rv res)
        from False adv left right L(3,5) R(3,5) ok show ?thesis
          unfolding advance_nodes_def by (auto split: ordering.splits if_splits)
      qed
    qed
  qed
qed

lemma diff_body_rest:
  assumes "cursor_head l0 = (hl, l)" "cursor_head r0 = (hr, r)" "cursor_ok l0" "cursor_ok r0"
    and "\<not> (hl = None \<and> hr = None)" "ptr_sound same"
    and "diff_body same hl hr l r = (item, l', r', n)"
  shows "cursor_ok l' \<and> cursor_ok r' \<and>
    cursor_diff l r = (case item of None \<Rightarrow> [] | Some d \<Rightarrow> [d]) @ cursor_diff l' r'"
  using assms
proof (induction same hl hr l r rule: diff_body.induct)
  case (2 same k v l r)
  then show ?case using cursor_at_entry [OF 2(1,3)] cursor_head_none [OF 2(2)] by auto
next
  case (3 same k v l r)
  then show ?case using cursor_at_entry [OF 3(2,4)] cursor_head_none [OF 3(1)] by auto
next
  case (4 same ln l r)
  then show ?case using cursor_at_node [OF 4(1,3)] cursor_head_none [OF 4(2)] by auto
next
  case (5 same rn l r)
  then show ?case using cursor_at_node [OF 5(2,4)] cursor_head_none [OF 5(1)] by auto
next
  case (6 same lk lv rk rv l r)
  then show ?case
    using cursor_at_entry [OF 6(1,3)] cursor_at_entry [OF 6(2,4)]
      cursor_head_rest(2) [OF 6(1,3)] cursor_head_rest(2) [OF 6(2,4)]
    by (auto simp: diff_entries_def split: ordering.splits if_splits)
next
  case (7 same ln rn l r)
  then show ?case using advance_nodes_rest [OF 7(1,3) 7(2,4)] by auto
next
  case (8 same ln rk rv l r)
  note L = cursor_at_node [OF 8(1,3)] and R = cursor_at_entry [OF 8(2,4)]
  note ok = cursor_head_rest(2) [OF 8(1,3)] cursor_head_rest(2) [OF 8(2,4)]
  from L(1) show ?case
  proof (cases rule: first_key_cases)
    case 1
    with 8 L R ok show ?thesis by auto
  next
    case (2 k v es)
    with 8(7) L R ok show ?thesis
      by (cases "k > rk") (auto simp: diff_ref_heads(2))
  qed
next
  case (9 same lk lv rn l r)
  note R = cursor_at_node [OF 9(2,4)] and L = cursor_at_entry [OF 9(1,3)]
  note ok = cursor_head_rest(2) [OF 9(1,3)] cursor_head_rest(2) [OF 9(2,4)]
  from R(1) show ?case
  proof (cases rule: first_key_cases)
    case 1
    with 9 L R ok show ?thesis by auto
  next
    case (2 k v es)
    with 9(7) L R ok show ?thesis
      by (cases "k > lk") (auto simp: diff_ref_heads(1))
  qed
qed simp

definition walker_ok :: "('k, 'v) diff_walker \<Rightarrow> bool" where
  "walker_ok w \<longleftrightarrow> cursor_ok (dw_left w) \<and> cursor_ok (dw_right w)"

definition walker_rest :: "('k::linorder, 'v) diff_walker \<Rightarrow> ('k, 'v) diff_item list" where
  "walker_rest w = cursor_diff (dw_left w) (dw_right w)"

lemma diff_turn_rest:
  assumes "walker_ok w" "ptr_sound same"
  shows "case diff_turn same w of
      None \<Rightarrow> walker_rest w = []
    | Some (item, w') \<Rightarrow> walker_ok w' \<and>
        walker_rest w = (case item of None \<Rightarrow> [] | Some d \<Rightarrow> [d]) @ walker_rest w'"
proof -
  obtain hl l hr r where h: "cursor_head (dw_left w) = (hl, l)" "cursor_head (dw_right w) = (hr, r)"
    by fastforce
  have ok: "cursor_ok (dw_left w)" "cursor_ok (dw_right w)" using assms(1) by (auto simp: walker_ok_def)
  have rest: "walker_rest w = cursor_diff l r"
    using cursor_head_rest(1) [OF h(1) ok(1)] cursor_head_rest(1) [OF h(2) ok(2)]
    by (simp add: walker_rest_def)
  show ?thesis
  proof (cases "hl = None \<and> hr = None")
    case True
    with h have "l = []" "r = []" using cursor_head_none by auto
    with True h rest show ?thesis by (simp add: diff_turn_def)
  next
    case False
    obtain item l' r' n where b: "diff_body same hl hr l r = (item, l', r', n)"
      using prod_cases4 by blast
    from diff_body_rest [OF h ok False assms(2) b] False h b rest show ?thesis
      by (auto simp: diff_turn_def walker_ok_def walker_rest_def)
  qed
qed

lemma next_item_rest:
  assumes "walker_ok w" "ptr_sound same"
  shows "case walker_rest w of
      [] \<Rightarrow> fst (next_item same w) = None
    | d # ds \<Rightarrow> \<exists>w'. next_item same w = (Some d, w') \<and> walker_rest w' = ds \<and> walker_ok w'"
  using assms
proof (induction same w rule: next_item.induct)
  case (1 same w)
  note turn = diff_turn_rest [OF 1(2,3)]
  show ?case
  proof (cases "diff_turn same w")
    case None
    with turn show ?thesis by (simp add: next_item.simps [of same w])
  next
    case (Some p)
    obtain item w' where p: "p = (item, w')" by (cases p)
    show ?thesis
    proof (cases item)
      case None
      have ok: "walker_ok w'" and rest: "walker_rest w = walker_rest w'"
        using turn Some p None by auto
      have eq: "next_item same w = next_item same w'"
        using Some p None by (simp add: next_item.simps [of same w])
      show ?thesis unfolding eq rest using "1.IH" [OF Some p [symmetric] None ok 1(3)] .
    next
      case (Some d)
      with turn \<open>diff_turn same w = Some p\<close> p show ?thesis
        by (simp add: next_item.simps [of same w])
    qed
  qed
qed

interpretation diff_it: list_iterator "next_item same" walker_rest "\<lambda>w. walker_ok w \<and> ptr_sound same"
  for same :: "('k::linorder, 'v) ptr_eq"
proof
  fix w :: "('k, 'v) diff_walker" and d ds
  assume ok: "walker_ok w \<and> ptr_sound same"
  show "fst (next_item same w) = None" if "walker_rest w = []"
    using next_item_rest [of w same] ok that by simp
  show "\<exists>w'. next_item same w = (Some d, w') \<and> walker_rest w' = ds \<and> walker_ok w' \<and> ptr_sound same"
    if "walker_rest w = d # ds"
    using next_item_rest [of w same] ok that by simp
qed

lemma om_ok_full: "om_ok m \<Longrightarrow> full (om_root m) \<or> om_root m = Leaf []"
  by (auto simp: om_ok_def dest: bt_full)

lemma walker_new_ok:
  assumes "om_ok a" "om_ok b"
  shows "walker_ok (walker_new a b)" "walker_rest (walker_new a b) = diff_ref (om_entries a) (om_entries b)"
  using om_ok_full [OF assms(1)] om_ok_full [OF assms(2)]
  by (simp_all add: walker_ok_def walker_rest_def walker_new_def cursor_new_def om_entries_def)

lemma om_diff_correct:
  assumes "om_ok a" "om_ok b" "ptr_sound same"
  shows "pull (next_item same) n (walker_new a b) = take n (diff_ref (om_entries a) (om_entries b))"
  using diff_it.pull_take [of "walker_new a b" same n] walker_new_ok [OF assms(1,2)] assms(3) by simp

lemma om_eq_correct:
  assumes "om_ok a" "om_ok b" "ptr_sound same" "same_root \<longrightarrow> om_root a = om_root b"
  shows "om_eq same_root same a b \<longleftrightarrow> om_entries a = om_entries b"
proof -
  note w = walker_new_ok [OF assms(1,2)]
  have "fst (next_item same (walker_new a b)) = None \<longleftrightarrow> walker_rest (walker_new a b) = []"
    using next_item_rest [OF w(1) assms(3)]
    by (cases "walker_rest (walker_new a b)") auto
  moreover have "om_len a = om_len b" if "om_entries a = om_entries b"
    using assms(1,2) that by (simp add: om_ok_def)
  ultimately show ?thesis
    using assms(4) by (auto simp: om_eq_def w(2) diff_ref_Nil) (simp add: om_entries_def)
qed

section \<open>Properties\<close>

text \<open>C20: The difference of two maps does not depend on what they share: whatever subtrees the pointer
  comparison lets the walk skip, the items are those of the merge of the two sorted lists of entries,
  in that order, and applying them to the entries of the first map gives the entries of the second.\<close>

theorem diff_transforms:
  assumes "om_ok a" "om_ok b" "ptr_sound same" "om_len a + om_len b \<le> n"
  shows "pull (next_item same) n (walker_new a b) = diff_ref (om_entries a) (om_entries b) \<and>
    fold patch (pull (next_item same) n (walker_new a b)) (om_entries a) = om_entries b"
proof -
  have "length (diff_ref (om_entries a) (om_entries b)) \<le> n"
    using length_diff_ref [of "om_entries a" "om_entries b"] assms by (simp add: om_ok_def)
  then have pulled: "pull (next_item same) n (walker_new a b) = diff_ref (om_entries a) (om_entries b)"
    by (simp add: om_diff_correct [OF assms(1-3)])
  moreover have "fold patch (pull (next_item same) n (walker_new a b)) (om_entries a) = om_entries b"
    unfolding pulled
    using patch_diff_ref [of "[]" "om_entries a" "om_entries b"] om_sorted [OF assms(1)]
      om_sorted [OF assms(2)] by simp
  ultimately show ?thesis ..
qed

theorem diff_transforms_witness:
  "pull (next_item (\<lambda>_ _ ln rn. ln = rn)) 6 (walker_new sample_tree sample_leaf) =
     diff_ref (om_entries sample_tree) (om_entries sample_leaf) \<and>
   diff_ref (om_entries sample_tree) (om_entries sample_leaf) =
     [Update (2, ''b'') (2, ''x''), Remove 3 ''c'', Add 4 ''d''] \<and>
   fold patch (pull (next_item (\<lambda>_ _ ln rn. ln = rn)) 6 (walker_new sample_tree sample_leaf))
     (om_entries sample_tree) = om_entries sample_leaf"
proof -
  have p: "ptr_sound (\<lambda>_ _ ln rn. ln = rn)" by (simp add: ptr_sound_def)
  have n: "om_len sample_tree + om_len sample_leaf \<le> 6" by (simp add: sample_tree_def sample_leaf_def)
  have d: "diff_ref (om_entries sample_tree) (om_entries sample_leaf) =
      [Update (2, ''b'') (2, ''x''), Remove 3 ''c'', Add 4 ''d'']"
    by (simp add: sample_tree_def sample_leaf_def om_entries_def)
  show ?thesis using diff_transforms [OF samples_ok p n] d by blast
qed

end
