(* ===== verification/Redact_Batch.thy ===== *)
theory Redact_Batch
  imports Redaction Power_Level
begin

text \<open>
  \<open>apply_authorized_redactions\<close> and \<open>apply_authorized_redactions_with_state_at\<close> of \<open>src/src/auth/mod.rs\<close>:
  the step after state resolution in which the redaction events of a batch strip the content of their
  targets. Redactions may redact redactions, so the code orders them first (a redaction is spent before
  its own content is stripped) with a queue over the forest of dependencies. Events are positions of the
  batch; event ids are strings and print as themselves.
\<close>

section \<open>Authorization of one redaction\<close>

definition redaction_is_authorized ::
  "lean_event \<Rightarrow> lean_event \<Rightarrow> state_provider \<Rightarrow> state_res_version \<Rightarrow> string \<Rightarrow> bool" where
  "redaction_is_authorized redaction target state version room_version =
     (if ev_sender redaction = ev_sender target then True
      else if get_sender_power_level (ev_sender redaction) state version \<ge> get_redact_power_level state
      then True
      else if room_version \<in> {''1'', ''2''}
      then (case get_redacts (ev_content redaction) of
              None \<Rightarrow> False
            | Some target_id \<Rightarrow> domain_matches target_id (ev_id redaction))
      else False)"

record redaction_report =
  rr_applied :: "(string \<times> string) list"
  rr_skipped_unauthorized :: "(string \<times> string) list"
  rr_target_not_in_batch :: "(string \<times> string) list"
  rr_failed_to_apply :: "(string \<times> string) list"

definition empty_report :: redaction_report where
  "empty_report = \<lparr> rr_applied = [], rr_skipped_unauthorized = [], rr_target_not_in_batch = [],
     rr_failed_to_apply = [] \<rparr>"

section \<open>Pairing redactions with their targets\<close>

definition active_redaction :: "lean_event \<Rightarrow> bool" where
  "active_redaction e \<longleftrightarrow> ev_type e = M_ROOM_REDACTION \<and> \<not> ev_rejected e \<and> \<not> ev_soft_fail e"

definition redaction_positions :: "lean_event list \<Rightarrow> nat list" where
  "redaction_positions events = filter (\<lambda>i. active_redaction (events ! i)) [0..<length events]"

definition pos_by_id :: "lean_event list \<Rightarrow> (string \<times> nat) list" where
  "pos_by_id events = fold (\<lambda>i. bm_insert (ev_id (events ! i)) i) [0..<length events] []"

definition pair_redaction ::
  "lean_event list \<Rightarrow> (string \<times> nat) list \<Rightarrow> nat
    \<Rightarrow> (nat \<times> nat) list \<times> (nat \<times> string) list \<Rightarrow> (nat \<times> nat) list \<times> (nat \<times> string) list" where
  "pair_redaction events positions rp acc =
     (case acc of (pairs, deferred) \<Rightarrow>
        (case get_redacts (ev_content (events ! rp)) of
           None \<Rightarrow> (pairs, deferred)
         | Some target_id \<Rightarrow>
             (case map_of positions target_id of
                Some tp \<Rightarrow> if tp \<noteq> rp then (pairs @ [(rp, tp)], deferred) else (pairs, deferred)
              | None \<Rightarrow> (pairs, deferred @ [(rp, target_id)]))))"

definition pair_redactions ::
  "lean_event list \<Rightarrow> (nat \<times> nat) list \<times> (nat \<times> string) list" where
  "pair_redactions events =
     fold (pair_redaction events (pos_by_id events)) (redaction_positions events) ([], [])"

section \<open>Ordering the pairs\<close>

definition blocked_by :: "(nat \<times> nat) list \<Rightarrow> (nat \<times> nat) list" where
  "blocked_by pairs = fold (\<lambda>i. hm_insert (fst (pairs ! i)) i) [0..<length pairs] []"

definition link_pair ::
  "(nat \<times> nat) list \<Rightarrow> (nat \<times> nat) list \<Rightarrow> nat \<Rightarrow> nat list list \<times> nat list \<Rightarrow> nat list list \<times> nat list" where
  "link_pair blocked pairs i acc =
     (case acc of (children, in_degree) \<Rightarrow>
        (case map_of blocked (snd (pairs ! i)) of
           None \<Rightarrow> (children, in_degree)
         | Some parent \<Rightarrow> (children[parent := children ! parent @ [i]], in_degree[i := 1])))"

definition link_pairs :: "(nat \<times> nat) list \<Rightarrow> nat list list \<times> nat list" where
  "link_pairs pairs =
     fold (link_pair (blocked_by pairs) pairs) [0..<length pairs]
       (replicate (length pairs) [], replicate (length pairs) 0)"

definition relax_child :: "nat \<Rightarrow> nat list \<times> nat list \<Rightarrow> nat list \<times> nat list" where
  "relax_child c acc =
     (case acc of (in_degree, queue) \<Rightarrow>
        let in_degree' = in_degree[c := in_degree ! c - 1]
        in (in_degree', if in_degree' ! c = 0 then queue @ [c] else queue))"

text \<open>The queue loop. The first argument bounds the number of rounds; a loop that needs more has the
  value \<open>None\<close>.\<close>

fun order_loop ::
  "nat \<Rightarrow> nat list list \<Rightarrow> nat list \<Rightarrow> nat list \<Rightarrow> nat list \<Rightarrow> bool list
    \<Rightarrow> (nat list \<times> bool list) option" where
  "order_loop rounds children [] in_degree order emitted = Some (order, emitted)"
| "order_loop 0 children (i # queue) in_degree order emitted = None"
| "order_loop (Suc rounds) children (i # queue) in_degree order emitted =
     (case fold relax_child (children ! i) (in_degree, queue) of
        (in_degree', queue') \<Rightarrow>
          order_loop rounds children queue' in_degree' (order @ [i]) (emitted[i := True]))"

definition redaction_order :: "(nat \<times> nat) list \<Rightarrow> nat list option" where
  "redaction_order pairs =
     (case link_pairs pairs of (children, in_degree) \<Rightarrow>
        let n = length pairs in
        (case order_loop n children (filter (\<lambda>i. in_degree ! i = 0) [0..<n]) in_degree []
                (replicate n False) of
           None \<Rightarrow> None
         | Some (order, emitted) \<Rightarrow> Some (order @ filter (\<lambda>i. \<not> emitted ! i) [0..<n])))"

section \<open>Applying the redactions\<close>

definition apply_pair ::
  "(string \<Rightarrow> state_provider option) \<Rightarrow> state_res_version \<Rightarrow> string \<Rightarrow> nat \<times> nat
    \<Rightarrow> lean_event list \<times> redaction_report \<Rightarrow> lean_event list \<times> redaction_report" where
  "apply_pair state_at version room_version pair acc =
     (case (pair, acc) of ((rp, tp), (events, report)) \<Rightarrow>
        let redaction = events ! rp; target = events ! tp; entry = (ev_id redaction, ev_id target);
            authorized = (case state_at (ev_id redaction) of
                Some state \<Rightarrow> redaction_is_authorized redaction target state version room_version
              | None \<Rightarrow> False)
        in if \<not> authorized
           then (events, report\<lparr>rr_skipped_unauthorized := rr_skipped_unauthorized report @ [entry]\<rparr>)
           else (case apply_redaction target redaction room_version of
               Some event \<Rightarrow> (events[tp := event], report\<lparr>rr_applied := rr_applied report @ [entry]\<rparr>)
             | None \<Rightarrow>
                 (events, report\<lparr>rr_failed_to_apply := rr_failed_to_apply report @ [entry]\<rparr>)))"

definition defer_pair ::
  "lean_event list \<Rightarrow> nat \<times> string \<Rightarrow> redaction_report \<Rightarrow> redaction_report" where
  "defer_pair events d report =
     report\<lparr>rr_target_not_in_batch :=
       rr_target_not_in_batch report @ [(ev_id (events ! fst d), snd d)]\<rparr>"

definition apply_authorized_redactions_with_state_at ::
  "lean_event list \<Rightarrow> (string \<Rightarrow> state_provider option) \<Rightarrow> state_res_version \<Rightarrow> string
    \<Rightarrow> (lean_event list \<times> redaction_report) option" where
  "apply_authorized_redactions_with_state_at events state_at version room_version =
     (if redaction_positions events = [] then Some (events, empty_report)
      else (case pair_redactions events of (pairs, deferred) \<Rightarrow>
        (case redaction_order pairs of
           None \<Rightarrow> None
         | Some order \<Rightarrow>
             (case fold (apply_pair state_at version room_version) (map ((!) pairs) order)
                     (events, empty_report) of
                (events', report) \<Rightarrow> Some (events', fold (defer_pair events') deferred report)))))"

definition apply_authorized_redactions ::
  "lean_event list \<Rightarrow> state_provider \<Rightarrow> state_res_version \<Rightarrow> string
    \<Rightarrow> (lean_event list \<times> redaction_report) option" where
  "apply_authorized_redactions events state version room_version =
     apply_authorized_redactions_with_state_at events (\<lambda>_. Some state) version room_version"

end
