(* ===== verification/Redact_Batch_Correct.thy ===== *)
theory Redact_Batch_Correct
  imports Redact_Batch Redaction_Correct
begin

text \<open>
  Correctness of the batch redaction: the pairs of redactions and targets, the queue that orders them (a
  redaction before the redaction of it, then the ones that lead to a cycle), and the effect on the
  batch and the report.
\<close>

section \<open>Pairs\<close>

lemma pos_by_id_insert_all:
  "pos_by_id events = bm.insert_all (map (\<lambda>i. (ev_id (events ! i), i)) [0..<length events]) []"
  by (simp add: pos_by_id_def bm.insert_all_def fold_map comp_def)

lemma pos_by_id_Some:
  assumes "map_of (pos_by_id events) t = Some tp"
  shows "tp < length events" "ev_id (events ! tp) = t"
proof -
  have "map_of (rev (map (\<lambda>i. (ev_id (events ! i), i)) [0..<length events])) t = Some tp"
    using assms by (simp add: pos_by_id_insert_all bm.lookup_insert_all map_add_def split: option.splits)
  then have "(t, tp) \<in> set (map (\<lambda>i. (ev_id (events ! i), i)) [0..<length events])"
    by (metis map_of_SomeD set_rev)
  then show "tp < length events" "ev_id (events ! tp) = t" by auto
qed

lemma pos_by_id_None: "map_of (pos_by_id events) t = None \<longleftrightarrow> t \<notin> ev_id ` set events"
proof -
  have "map_of (pos_by_id events) t = None \<longleftrightarrow> t \<notin> (\<lambda>i. ev_id (events ! i)) ` {0..<length events}"
    by (auto simp: pos_by_id_insert_all bm.lookup_insert_all map_add_def map_of_eq_None_iff rev_map image_image
        split: option.splits)
  also have "(\<lambda>i. ev_id (events ! i)) ` {0..<length events} = ev_id ` set events"
    by (metis image_image list.set_map map_nth set_upt)
  finally show ?thesis .
qed

text \<open>When several events have an id, it stands for the last of them.\<close>

definition last_at :: "lean_event list \<Rightarrow> nat \<Rightarrow> bool" where
  "last_at events i \<longleftrightarrow> i < length events \<and> (\<forall>j. i < j \<longrightarrow> j < length events \<longrightarrow> ev_id (events ! j) \<noteq> ev_id (events ! i))"

lemma pos_by_id_last:
  assumes "map_of (pos_by_id events) t = Some tp"
  shows "last_at events tp"
proof -
  have "map_of (rev (map (\<lambda>i. (ev_id (events ! i), i)) [0..<n])) t = Some tp \<Longrightarrow>
      (\<forall>j. tp < j \<longrightarrow> j < n \<longrightarrow> ev_id (events ! j) \<noteq> t)" for n
    by (induction n) (auto simp: less_Suc_eq split: if_splits)
  moreover have "map_of (rev (map (\<lambda>i. (ev_id (events ! i), i)) [0..<length events])) t = Some tp"
    using assms by (simp add: pos_by_id_insert_all bm.lookup_insert_all map_add_def split: option.splits)
  ultimately show ?thesis using pos_by_id_Some [OF assms] by (auto simp: last_at_def)
qed

definition pair_of :: "lean_event list \<Rightarrow> nat \<Rightarrow> (nat \<times> nat) list" where
  "pair_of events rp = (case get_redacts (ev_content (events ! rp)) of
       None \<Rightarrow> []
     | Some t \<Rightarrow> (case map_of (pos_by_id events) t of
           Some tp \<Rightarrow> if tp \<noteq> rp then [(rp, tp)] else []
         | None \<Rightarrow> []))"

definition deferred_of :: "lean_event list \<Rightarrow> nat \<Rightarrow> (nat \<times> string) list" where
  "deferred_of events rp = (case get_redacts (ev_content (events ! rp)) of
       None \<Rightarrow> []
     | Some t \<Rightarrow> if map_of (pos_by_id events) t = None then [(rp, t)] else [])"

lemma pair_redactions_eq:
  "pair_redactions events =
     (concat (map (pair_of events) (redaction_positions events)),
      concat (map (deferred_of events) (redaction_positions events)))"
proof -
  have "fold (pair_redaction events (pos_by_id events)) xs (a, b) =
      (a @ concat (map (pair_of events) xs), b @ concat (map (deferred_of events) xs))" for xs a b
    by (induction xs arbitrary: a b)
      (auto simp: pair_redaction_def pair_of_def deferred_of_def split: option.splits)
  then show ?thesis by (simp add: pair_redactions_def)
qed

text \<open>An active redaction and the event of the batch it names.\<close>

definition redacts_at :: "lean_event list \<Rightarrow> nat \<Rightarrow> nat \<Rightarrow> bool" where
  "redacts_at events rp tp \<longleftrightarrow> rp < length events \<and> last_at events tp \<and> rp \<noteq> tp \<and>
     active_redaction (events ! rp) \<and> get_redacts (ev_content (events ! rp)) = Some (ev_id (events ! tp))"

lemma redacts_atD:
  assumes "redacts_at events rp tp"
  shows "rp < length events" "tp < length events"
    and "get_redacts (ev_content (events ! rp)) = Some (ev_id (events ! tp))"
  using assms by (simp_all add: redacts_at_def last_at_def)

lemma pairs_redact:
  assumes "pair_redactions events = (pairs, deferred)"
  shows "set pairs = {(rp, tp). redacts_at events rp tp}"
proof -
  have "(rp, tp) \<in> set pairs \<longleftrightarrow> redacts_at events rp tp" for rp tp
  proof
    assume "(rp, tp) \<in> set pairs"
    with assms show "redacts_at events rp tp"
      by (auto simp: pair_redactions_eq pair_of_def redacts_at_def redaction_positions_def pos_by_id_last pos_by_id_Some
          split: option.splits if_splits)
  next
    assume r: "redacts_at events rp tp"
    then have tp: "last_at events tp" "tp < length events" by (auto simp: redacts_at_def last_at_def)
    then obtain tq where tq: "map_of (pos_by_id events) (ev_id (events ! tp)) = Some tq"
      using pos_by_id_None [of events "ev_id (events ! tp)"] by fastforce
    then have "tq = tp"
      using pos_by_id_last [OF tq] pos_by_id_Some [OF tq] tp by (metis last_at_def linorder_neqE_nat)
    with tq r have "pair_of events rp = [(rp, tp)]" by (auto simp: pair_of_def redacts_at_def)
    moreover have "rp \<in> set (redaction_positions events)" using r by (simp add: redacts_at_def redaction_positions_def)
    ultimately show "(rp, tp) \<in> set pairs" using assms by (force simp: pair_redactions_eq)
  qed
  then show ?thesis by auto
qed

lemma distinct_concat_fst:
  assumes "distinct xs" "\<And>x. length (f x) \<le> 1" "\<And>x e. e \<in> set (f x) \<Longrightarrow> fst e = x"
  shows "distinct (map fst (concat (map f xs)))"
  using assms(1)
proof (induction xs)
  case (Cons x xs)
  have "distinct (map fst (f x))" using assms(2) [of x] by (cases "f x"; cases "tl (f x)") auto
  moreover have "fst ` set (concat (map f xs)) \<subseteq> set xs" using assms(3) by fastforce
  moreover have "fst ` set (f x) \<subseteq> {x}" using assms(3) by fastforce
  ultimately show ?case using Cons by (auto simp del: set_concat)
qed simp

lemma pairs_distinct:
  assumes "pair_redactions events = (pairs, deferred)"
  shows "distinct (map fst pairs)"
proof -
  have "distinct (redaction_positions events)" by (simp add: redaction_positions_def)
  then have "distinct (map fst (concat (map (pair_of events) (redaction_positions events))))"
    by (rule distinct_concat_fst) (auto simp: pair_of_def split: option.splits if_splits)
  with assms show ?thesis by (simp add: pair_redactions_eq)
qed

section \<open>The order of the pairs\<close>

definition parent :: "(nat \<times> nat) list \<Rightarrow> nat \<Rightarrow> nat option" where
  "parent pairs i = map_of (blocked_by pairs) (snd (pairs ! i))"

lemma blocked_by_insert_all:
  "blocked_by pairs = hm.insert_all (map (\<lambda>i. (fst (pairs ! i), i)) [0..<length pairs]) []"
  by (simp add: blocked_by_def hm.insert_all_def fold_map comp_def)

lemma parent_Some:
  assumes "distinct (map fst pairs)"
  shows "parent pairs i = Some j \<longleftrightarrow> j < length pairs \<and> fst (pairs ! j) = snd (pairs ! i)"
proof -
  let ?l = "map (\<lambda>i. (fst (pairs ! i), i)) [0..<length pairs]"
  have "map fst ?l = map fst pairs" by (rule nth_equalityI) simp_all
  then have d: "distinct (map fst (rev ?l))" using assms by (metis distinct_rev rev_map)
  have "parent pairs i = map_of (rev ?l) (snd (pairs ! i))"
    by (simp add: parent_def blocked_by_insert_all hm.lookup_insert_all)
  also have "\<dots> = Some j \<longleftrightarrow> (snd (pairs ! i), j) \<in> set (rev ?l)"
    using d by (rule map_of_eq_Some_iff)
  finally show ?thesis by (auto simp: image_iff)
qed

lemma link_pair_step:
  "link_pair (blocked_by pairs) pairs i (children, in_degree) = (case parent pairs i of
     None \<Rightarrow> (children, in_degree)
   | Some p \<Rightarrow> (children[p := children ! p @ [i]], in_degree[i := 1]))"
  by (simp add: link_pair_def parent_def)

lemma link_pairs_eq:
  assumes "distinct (map fst pairs)"
  shows "\<exists>children in_degree. link_pairs pairs = (children, in_degree) \<and>
    length children = length pairs \<and> length in_degree = length pairs \<and>
    (\<forall>j < length pairs. children ! j = filter (\<lambda>i. parent pairs i = Some j) [0..<length pairs]) \<and>
    (\<forall>i < length pairs. in_degree ! i = (if parent pairs i = None then 0 else 1))"
proof -
  let ?n = "length pairs"
  have par: "j < ?n" if "parent pairs i = Some j" for i j using that parent_Some [OF assms] by simp
  have "\<exists>children in_degree. fold (link_pair (blocked_by pairs) pairs) [0..<m]
      (replicate ?n [], replicate ?n 0) = (children, in_degree) \<and>
    length children = ?n \<and> length in_degree = ?n \<and>
    (\<forall>j < ?n. children ! j = filter (\<lambda>i. parent pairs i = Some j) [0..<m]) \<and>
    (\<forall>i < ?n. in_degree ! i = (if i < m \<and> parent pairs i \<noteq> None then 1 else 0))" if "m \<le> ?n" for m
    using that
  proof (induction m)
    case (Suc m)
    then obtain children in_degree where IH:
      "fold (link_pair (blocked_by pairs) pairs) [0..<m] (replicate ?n [], replicate ?n 0) =
         (children, in_degree)"
      "length children = ?n" "length in_degree = ?n"
      "\<forall>j < ?n. children ! j = filter (\<lambda>i. parent pairs i = Some j) [0..<m]"
      "\<forall>i < ?n. in_degree ! i = (if i < m \<and> parent pairs i \<noteq> None then 1 else 0)" by auto
    show ?case
    proof (cases "parent pairs m")
      case None
      with IH show ?thesis by (auto simp: link_pair_step less_Suc_eq)
    next
      case (Some j)
      with IH par [OF Some] Suc.prems show ?thesis
        by (auto simp: link_pair_step less_Suc_eq nth_list_update)
    qed
  qed simp
  from this [of ?n] show ?thesis by (auto simp: link_pairs_def)
qed

text \<open>A list in which every element stands after its parent.\<close>

fun parents_first :: "('a \<Rightarrow> 'a option) \<Rightarrow> 'a set \<Rightarrow> 'a list \<Rightarrow> bool" where
  "parents_first par seen [] \<longleftrightarrow> True"
| "parents_first par seen (c # cs) \<longleftrightarrow>
     (case par c of None \<Rightarrow> True | Some p \<Rightarrow> p \<in> seen) \<and> parents_first par (insert c seen) cs"

lemma parents_first_append:
  "parents_first par seen (xs @ ys) \<longleftrightarrow>
     parents_first par seen xs \<and> parents_first par (seen \<union> set xs) ys"
  by (induction xs arbitrary: seen) auto

lemma parents_first_roots:
  "\<forall>c \<in> set cs. par c = None \<or> (\<exists>p \<in> seen. par c = Some p) \<Longrightarrow> parents_first par seen cs"
proof (induction cs arbitrary: seen)
  case (Cons c cs)
  have "parents_first par (insert c seen) cs" using Cons.prems by (intro Cons.IH) auto
  with Cons.prems show ?case by auto
qed simp

lemma relax_children:
  assumes "distinct cs" "\<forall>c \<in> set cs. c < length deg \<and> deg ! c = 1"
  shows "\<exists>deg'. fold relax_child cs (deg, q) = (deg', q @ cs) \<and> length deg' = length deg \<and>
    (\<forall>x < length deg. deg' ! x = (if x \<in> set cs then 0 else deg ! x))"
  using assms
proof (induction cs arbitrary: deg q)
  case (Cons c cs)
  have "\<exists>deg'. fold relax_child cs (deg[c := 0], q @ [c]) = (deg', (q @ [c]) @ cs) \<and>
      length deg' = length (deg[c := 0]) \<and>
      (\<forall>x < length (deg[c := 0]). deg' ! x = (if x \<in> set cs then 0 else deg[c := 0] ! x))"
    using Cons.prems by (intro Cons.IH) (auto simp: nth_list_update)
  moreover have "relax_child c (deg, q) = (deg[c := 0], q @ [c])"
    using Cons.prems by (simp add: relax_child_def)
  ultimately show ?case using Cons.prems by (auto simp: nth_list_update)
qed simp

definition loop_inv ::
  "(nat \<Rightarrow> nat option) \<Rightarrow> nat \<Rightarrow> nat list \<Rightarrow> nat list \<Rightarrow> nat list \<Rightarrow> bool list \<Rightarrow> bool" where
  "loop_inv par n queue deg order emitted \<longleftrightarrow>
     length deg = n \<and> length emitted = n \<and> distinct (order @ queue) \<and> set (order @ queue) \<subseteq> {..<n} \<and>
     (\<forall>c < n. deg ! c = (case par c of None \<Rightarrow> 0 | Some p \<Rightarrow> if p \<in> set order then 0 else 1)) \<and>
     (\<forall>c < n. c \<in> set (order @ queue) \<longleftrightarrow> deg ! c = 0) \<and>
     (\<forall>c < n. emitted ! c \<longleftrightarrow> c \<in> set order) \<and>
     parents_first par {} (order @ queue)"

lemma loop_inv_step:
  assumes inv: "loop_inv par n (i # queue) deg order emitted"
    and fold: "fold relax_child (filter (\<lambda>c. par c = Some i) [0..<n]) (deg, queue) = (deg', queue')"
  shows "loop_inv par n queue' deg' (order @ [i]) (emitted[i := True])"
proof -
  let ?cs = "filter (\<lambda>c. par c = Some i) [0..<n]"
  from inv have i: "i < n" "i \<notin> set order" and len: "length deg = n" "length emitted = n"
    by (auto simp: loop_inv_def)
  have kids: "\<forall>c \<in> set ?cs. c < length deg \<and> deg ! c = 1"
    using inv i by (auto simp: loop_inv_def)
  from relax_children [OF _ kids, of queue] fold
  have q: "queue' = queue @ ?cs" and len': "length deg' = n"
    and deg': "\<forall>x < n. deg' ! x = (if x \<in> set ?cs then 0 else deg ! x)"
    using len by auto
  have fresh: "c \<notin> set (order @ i # queue)" if "c \<in> set ?cs" for c
    using inv kids that len by (auto simp: loop_inv_def)
  have cases: "deg' ! c = (case par c of None \<Rightarrow> 0 | Some p \<Rightarrow> if p \<in> set (order @ [i]) then 0 else 1)"
    if "c < n" for c
    using that deg' inv by (auto simp: loop_inv_def split: option.splits)
  have "distinct ((order @ [i]) @ queue')"
    using inv fresh by (auto simp: loop_inv_def q)
  moreover have "set ((order @ [i]) @ queue') \<subseteq> {..<n}"
    using inv by (auto simp: loop_inv_def q)
  moreover have "\<forall>c < n. c \<in> set ((order @ [i]) @ queue') \<longleftrightarrow> deg' ! c = 0"
  proof (intro allI impI)
    fix c assume "c < n"
    then have "c \<in> set (order @ i # queue) \<longleftrightarrow> deg ! c = 0" using inv by (auto simp: loop_inv_def)
    then show "c \<in> set ((order @ [i]) @ queue') \<longleftrightarrow> deg' ! c = 0"
      using deg' \<open>c < n\<close> by (auto simp: q)
  qed
  moreover have "\<forall>c < n. emitted[i := True] ! c \<longleftrightarrow> c \<in> set (order @ [i])"
    using inv len by (auto simp: loop_inv_def nth_list_update)
  moreover have "parents_first par {} ((order @ i # queue) @ ?cs)"
    using inv unfolding loop_inv_def
    by (subst parents_first_append) (auto intro!: parents_first_roots)
  ultimately show ?thesis using cases len len' by (simp add: loop_inv_def q)
qed

lemma order_loop_inv:
  assumes "loop_inv par n queue deg order emitted" "n \<le> length order + rounds"
    and "\<forall>j < n. children ! j = filter (\<lambda>c. par c = Some j) [0..<n]"
  shows "\<exists>order' emitted' deg'. order_loop rounds children queue deg order emitted = Some (order', emitted') \<and>
    loop_inv par n [] deg' order' emitted'"
  using assms
proof (induction rounds children queue deg order emitted rule: order_loop.induct)
  case (2 children i queue deg order emitted)
  then have "distinct (order @ i # queue)" "set (order @ i # queue) \<subseteq> {..<n}"
    by (auto simp: loop_inv_def)
  then have "length (order @ i # queue) \<le> n"
    by (metis card_lessThan card_mono distinct_card finite_lessThan)
  with 2 show ?case by simp
next
  case (3 rounds children i queue deg order emitted)
  have i: "i < n" using 3(2) by (auto simp: loop_inv_def)
  obtain deg' queue' where f: "fold relax_child (children ! i) (deg, queue) = (deg', queue')" by fastforce
  have "loop_inv par n queue' deg' (order @ [i]) (emitted[i := True])"
    by (rule loop_inv_step [OF 3(2)]) (use f i 3(4) in simp)
  with 3 f show ?case by simp
qed auto

lemma loop_inv_init:
  assumes "length deg = n" "\<forall>c < n. deg ! c = (if par c = None then 0 else 1)"
  shows "loop_inv par n (filter (\<lambda>i. deg ! i = 0) [0..<n]) deg [] (replicate n False)"
  using assms by (auto simp: loop_inv_def intro!: parents_first_roots split: option.splits if_splits)

text \<open>The order: a permutation of the pairs that starts with the pairs the loop emits, every one after
  its parent, and these are all the pairs when the relation of parents has no cycle.\<close>

lemma redaction_order_correct:
  assumes "distinct (map fst pairs)"
  shows "\<exists>order rest. redaction_order pairs = Some (order @ rest) \<and>
    distinct (order @ rest) \<and> set (order @ rest) = {..<length pairs} \<and>
    parents_first (parent pairs) {} order \<and>
    (\<forall>c \<in> set rest. \<exists>p \<in> set rest. parent pairs c = Some p)"
proof -
  let ?n = "length pairs"
  have par: "\<And>i j. parent pairs i = Some j \<Longrightarrow> j < ?n" using parent_Some [OF assms] by simp
  from link_pairs_eq [OF assms] obtain children deg where link: "link_pairs pairs = (children, deg)"
    and len: "length deg = ?n"
    and ch: "\<forall>j < ?n. children ! j = filter (\<lambda>i. parent pairs i = Some j) [0..<?n]"
    and deg: "\<forall>i < ?n. deg ! i = (if parent pairs i = None then 0 else 1)" by auto
  obtain order emitted deg' where
    loop: "order_loop ?n children (filter (\<lambda>i. deg ! i = 0) [0..<?n]) deg [] (replicate ?n False) =
      Some (order, emitted)"
    and inv: "loop_inv (parent pairs) ?n [] deg' order emitted"
    using order_loop_inv [OF loop_inv_init [OF len deg] _ ch, where rounds = ?n] by auto
  let ?rest = "filter (\<lambda>i. \<not> emitted ! i) [0..<?n]"
  have rest: "set ?rest = {..<?n} - set order" using inv by (auto simp: loop_inv_def)
  have "\<exists>p \<in> set ?rest. parent pairs c = Some p" if "c \<in> set ?rest" for c
  proof -
    from that rest inv have "deg' ! c \<noteq> 0" "c < ?n" by (auto simp: loop_inv_def)
    then obtain p where "parent pairs c = Some p" "p \<notin> set order"
      using inv by (auto simp: loop_inv_def split: option.splits if_splits)
    with par rest show ?thesis by auto
  qed
  moreover have "redaction_order pairs = Some (order @ ?rest)"
    using link loop by (simp add: redaction_order_def Let_def)
  moreover have "distinct (order @ ?rest)" "set (order @ ?rest) = {..<?n}"
    "parents_first (parent pairs) {} order"
    using inv rest by (auto simp: loop_inv_def)
  ultimately show ?thesis by blast
qed

section \<open>Applying the pairs\<close>

lemma redacted_idem: "json_wf (ev_content ev) \<Longrightarrow> redacted (redacted ev rv) rv = redacted ev rv"
  by (simp add: redacted_def redact_content_idem rule_ok_preserved_keys)

text \<open>The authorization of the pair in the batch as it was received.\<close>

definition authorized_at ::
  "lean_event list \<Rightarrow> (string \<Rightarrow> state_provider option) \<Rightarrow> state_res_version \<Rightarrow> string \<Rightarrow> nat \<times> nat \<Rightarrow> bool"
where
  "authorized_at events state_at version room_version p \<longleftrightarrow>
     (case state_at (ev_id (events ! fst p)) of
        None \<Rightarrow> False
      | Some state \<Rightarrow>
          redaction_is_authorized (events ! fst p) (events ! snd p) state version room_version)"

definition ids_at :: "lean_event list \<Rightarrow> nat \<times> nat \<Rightarrow> string \<times> string" where
  "ids_at events p = (ev_id (events ! fst p), ev_id (events ! snd p))"

text \<open>The batch with the events at some positions redacted.\<close>

definition redacted_on :: "string \<Rightarrow> lean_event list \<Rightarrow> nat set \<Rightarrow> lean_event list \<Rightarrow> bool" where
  "redacted_on rv events T evs \<longleftrightarrow> length evs = length events \<and>
     (\<forall>i < length events. evs ! i = (if i \<in> T then redacted (events ! i) rv else events ! i))"

lemma redacted_on_same:
  assumes "redacted_on rv events T evs" "i < length events"
  shows "ev_id (evs ! i) = ev_id (events ! i)" "ev_sender (evs ! i) = ev_sender (events ! i)"
  using assms by (auto simp: redacted_on_def)

lemma redacted_on_update:
  assumes "redacted_on rv events T evs"
  shows "redacted_on rv events (insert tp T) (evs[tp := redacted (events ! tp) rv])"
  unfolding redacted_on_def
proof (intro conjI allI impI)
  fix i assume i: "i < length events"
  show "evs[tp := redacted (events ! tp) rv] ! i = (if i \<in> insert tp T then redacted (events ! i) rv else events ! i)"
    using assms i by (cases "i = tp") (auto simp: redacted_on_def)
qed (use assms in \<open>simp add: redacted_on_def\<close>)

lemma authorized_cong:
  assumes "ev_sender r = ev_sender r'" "ev_sender t = ev_sender t'" "ev_id r = ev_id r'"
    "get_redacts (ev_content r) = get_redacts (ev_content r')"
  shows "redaction_is_authorized r t state version rv = redaction_is_authorized r' t' state version rv"
  using assms by (simp add: redaction_is_authorized_def split: option.split)

text \<open>One pair: the redaction is applied, skipped or fails. Skipping an authorized redaction, and failing, happens
  only to a redaction that has been redacted before.\<close>

lemma apply_pair_cases:
  fixes state_at :: "string \<Rightarrow> state_provider option" and version :: state_res_version and report :: redaction_report
  assumes on: "redacted_on rv events T evs" and at: "redacts_at events rp tp"
    and wf: "\<forall>e \<in> set events. json_wf (ev_content e)"
  defines "auth \<equiv> authorized_at events state_at version rv (rp, tp)"
  defines "out \<equiv> apply_pair state_at version rv (rp, tp) (evs, report)"
  shows "out = (evs[tp := redacted (events ! tp) rv], report\<lparr>rr_applied := rr_applied report @ [ids_at events (rp, tp)]\<rparr>) \<and> auth \<or>
    out = (evs, report\<lparr>rr_skipped_unauthorized := rr_skipped_unauthorized report @ [ids_at events (rp, tp)]\<rparr>) \<and>
      (\<not> auth \<or> rp \<in> T) \<or>
    out = (evs, report\<lparr>rr_failed_to_apply := rr_failed_to_apply report @ [ids_at events (rp, tp)]\<rparr>) \<and> rp \<in> T"
proof -
  note pos = redacts_atD [OF at]
  note same = redacted_on_same [OF on]
  let ?now = "case state_at (ev_id (evs ! rp)) of
      Some state \<Rightarrow> redaction_is_authorized (evs ! rp) (evs ! tp) state version rv
    | None \<Rightarrow> False"
  have entry: "(ev_id (evs ! rp), ev_id (evs ! tp)) = ids_at events (rp, tp)"
    using same [OF pos(1)] same [OF pos(2)] by (simp add: ids_at_def)
  have out: "out = (if \<not> ?now
      then (evs, report\<lparr>rr_skipped_unauthorized := rr_skipped_unauthorized report @ [ids_at events (rp, tp)]\<rparr>)
      else (case apply_redaction (evs ! tp) (evs ! rp) rv of
          Some event \<Rightarrow> (evs[tp := event], report\<lparr>rr_applied := rr_applied report @ [ids_at events (rp, tp)]\<rparr>)
        | None \<Rightarrow> (evs, report\<lparr>rr_failed_to_apply := rr_failed_to_apply report @ [ids_at events (rp, tp)]\<rparr>)))"
    unfolding out_def apply_pair_def prod.case Let_def entry ..
  have "redacted (evs ! tp) rv = redacted (events ! tp) rv"
    using on pos(2) wf by (auto simp: redacted_on_def redacted_idem)
  then have event: "apply_redaction (evs ! tp) (evs ! rp) rv =
      (if get_redacts (ev_content (evs ! rp)) = Some (ev_id (events ! tp)) then Some (redacted (events ! tp) rv) else None)"
    using same [OF pos(2)] by (simp add: apply_redaction_def)
  have auth: "?now = auth" if "get_redacts (ev_content (evs ! rp)) = Some (ev_id (events ! tp))"
    using authorized_cong [of "evs ! rp" "events ! rp" "evs ! tp" "events ! tp"] same [OF pos(1)] same [OF pos(2)] pos(3) that
    by (auto simp: auth_def authorized_at_def split: option.split)
  have "get_redacts (ev_content (evs ! rp)) = Some (ev_id (events ! tp))" if "rp \<notin> T"
    using on pos that by (simp add: redacted_on_def)
  with auth show ?thesis
    unfolding out event by (cases "get_redacts (ev_content (evs ! rp)) = Some (ev_id (events ! tp))") auto
qed

text \<open>A sequence of pairs: \<open>dp\<close> are applied, \<open>sp\<close> skipped, \<open>fp\<close> fail.\<close>

definition decided ::
  "(nat \<times> nat \<Rightarrow> bool) \<Rightarrow> nat set \<Rightarrow> (nat \<times> nat) list \<Rightarrow> (nat \<times> nat) list \<Rightarrow> (nat \<times> nat) list \<Rightarrow> (nat \<times> nat) list \<Rightarrow> bool" where
  "decided auth T ps dp sp fp \<longleftrightarrow> mset (dp @ sp @ fp) = mset ps \<and> (\<forall>p \<in> set dp. auth p) \<and>
     (\<forall>p \<in> set sp. auth p \<longrightarrow> fst p \<in> T \<union> snd ` set dp) \<and> (\<forall>p \<in> set fp. fst p \<in> T \<union> snd ` set dp) \<and>
     (\<forall>xs p ys. ps = xs @ p # ys \<longrightarrow> fst p \<notin> T \<union> snd ` set xs \<longrightarrow> (if auth p then p \<in> set dp else p \<in> set sp))"

lemma decided_early:
  assumes "\<forall>xs q ys. ps = xs @ q # ys \<longrightarrow> fst q \<notin> T' \<union> snd ` set xs \<longrightarrow> P q" "fst p \<notin> T \<Longrightarrow> P p"
    and "T' \<subseteq> insert (snd p) T"
  shows "\<forall>xs q ys. p # ps = xs @ q # ys \<longrightarrow> fst q \<notin> T \<union> snd ` set xs \<longrightarrow> P q"
proof (intro allI impI)
  fix xs q ys assume eq: "p # ps = xs @ q # ys" and new: "fst q \<notin> T \<union> snd ` set xs"
  show "P q"
  proof (cases xs)
    case Nil
    with eq new assms(2) show ?thesis by simp
  next
    case (Cons x xs')
    with eq new assms(3) have "ps = xs' @ q # ys" "fst q \<notin> T' \<union> snd ` set xs'" by auto
    with assms(1) show ?thesis by blast
  qed
qed

lemma apply_pairs_decided:
  assumes "redacted_on rv events T evs" "\<forall>(rp, tp) \<in> set ps. redacts_at events rp tp"
    and wf: "\<forall>e \<in> set events. json_wf (ev_content e)"
  shows "\<exists>dp sp fp evs'. fold (apply_pair state_at version rv) ps (evs, report) = (evs', report
       \<lparr>rr_applied := rr_applied report @ map (ids_at events) dp,
        rr_skipped_unauthorized := rr_skipped_unauthorized report @ map (ids_at events) sp,
        rr_failed_to_apply := rr_failed_to_apply report @ map (ids_at events) fp\<rparr>) \<and>
    redacted_on rv events (T \<union> snd ` set dp) evs' \<and> decided (authorized_at events state_at version rv) T ps dp sp fp"
  using assms(1,2)
proof (induction ps arbitrary: T evs report)
  case Nil
  then show ?case by (auto simp: decided_def intro!: exI [of _ "[]"])
next
  case (Cons p ps)
  let ?auth = "authorized_at events state_at version rv"
  obtain rp tp where p: "p = (rp, tp)" by (cases p)
  from Cons.prems(2) p have at: "redacts_at events rp tp" and ps: "\<forall>(rp, tp) \<in> set ps. redacts_at events rp tp" by auto
  let ?evs = "evs[tp := redacted (events ! tp) rv]" and ?out = "apply_pair state_at version rv p (evs, report)"
  consider
    "?out = (?evs, report\<lparr>rr_applied := rr_applied report @ [ids_at events p]\<rparr>)" "?auth p"
  | "?out = (evs, report\<lparr>rr_skipped_unauthorized := rr_skipped_unauthorized report @ [ids_at events p]\<rparr>)"
    "\<not> ?auth p \<or> rp \<in> T"
  | "?out = (evs, report\<lparr>rr_failed_to_apply := rr_failed_to_apply report @ [ids_at events p]\<rparr>)" "rp \<in> T"
    using apply_pair_cases [OF Cons.prems(1) at wf, of state_at version report, folded p] by blast
  then show ?case
  proof cases
    case 1
    then have step: "apply_pair state_at version rv p (evs, report) =
        (?evs, report\<lparr>rr_applied := rr_applied report @ [ids_at events p]\<rparr>)" and a: "?auth p" by simp_all
    from Cons.IH [OF redacted_on_update [OF Cons.prems(1), of tp] ps,
        of "report\<lparr>rr_applied := rr_applied report @ [ids_at events p]\<rparr>"] obtain dp sp fp evs' where
      f: "fold (apply_pair state_at version rv) ps (?evs, report\<lparr>rr_applied := rr_applied report @ [ids_at events p]\<rparr>) =
        (evs', report\<lparr>rr_applied := rr_applied report @ map (ids_at events) (p # dp),
          rr_skipped_unauthorized := rr_skipped_unauthorized report @ map (ids_at events) sp,
          rr_failed_to_apply := rr_failed_to_apply report @ map (ids_at events) fp\<rparr>)"
      "redacted_on rv events (insert tp T \<union> snd ` set dp) evs'" and d: "decided ?auth (insert tp T) ps dp sp fp" by auto
    have "\<forall>xs q ys. p # ps = xs @ q # ys \<longrightarrow> fst q \<notin> T \<union> snd ` set xs \<longrightarrow>
        (if ?auth q then q \<in> set (p # dp) else q \<in> set sp)"
      by (rule decided_early [where T' = "insert tp T"]) (use d a p in \<open>auto simp: decided_def\<close>)
    then have "decided ?auth T (p # ps) (p # dp) sp fp" using d a p unfolding decided_def by auto
    then show ?thesis using f step p by (intro exI [of _ "p # dp"] exI [of _ sp] exI [of _ fp] exI [of _ evs']) simp
  next
    case 2
    then have step: "apply_pair state_at version rv p (evs, report) =
        (evs, report\<lparr>rr_skipped_unauthorized := rr_skipped_unauthorized report @ [ids_at events p]\<rparr>)"
      and a: "\<not> ?auth p \<or> rp \<in> T" by simp_all
    from Cons.IH [OF Cons.prems(1) ps,
        of "report\<lparr>rr_skipped_unauthorized := rr_skipped_unauthorized report @ [ids_at events p]\<rparr>"] obtain dp sp fp evs' where
      f: "fold (apply_pair state_at version rv) ps
          (evs, report\<lparr>rr_skipped_unauthorized := rr_skipped_unauthorized report @ [ids_at events p]\<rparr>) =
        (evs', report\<lparr>rr_applied := rr_applied report @ map (ids_at events) dp,
          rr_skipped_unauthorized := rr_skipped_unauthorized report @ map (ids_at events) (p # sp),
          rr_failed_to_apply := rr_failed_to_apply report @ map (ids_at events) fp\<rparr>)"
      "redacted_on rv events (T \<union> snd ` set dp) evs'" and d: "decided ?auth T ps dp sp fp" by auto
    have "\<forall>xs q ys. p # ps = xs @ q # ys \<longrightarrow> fst q \<notin> T \<union> snd ` set xs \<longrightarrow>
        (if ?auth q then q \<in> set dp else q \<in> set (p # sp))"
      by (rule decided_early [where T' = T]) (use d a p in \<open>auto simp: decided_def\<close>)
    then have "decided ?auth T (p # ps) dp (p # sp) fp" using d a p unfolding decided_def by auto
    then show ?thesis using f step by (intro exI [of _ dp] exI [of _ "p # sp"] exI [of _ fp] exI [of _ evs']) simp
  next
    case 3
    then have step: "apply_pair state_at version rv p (evs, report) =
        (evs, report\<lparr>rr_failed_to_apply := rr_failed_to_apply report @ [ids_at events p]\<rparr>)" and a: "rp \<in> T" by simp_all
    from Cons.IH [OF Cons.prems(1) ps,
        of "report\<lparr>rr_failed_to_apply := rr_failed_to_apply report @ [ids_at events p]\<rparr>"] obtain dp sp fp evs' where
      f: "fold (apply_pair state_at version rv) ps
          (evs, report\<lparr>rr_failed_to_apply := rr_failed_to_apply report @ [ids_at events p]\<rparr>) =
        (evs', report\<lparr>rr_applied := rr_applied report @ map (ids_at events) dp,
          rr_skipped_unauthorized := rr_skipped_unauthorized report @ map (ids_at events) sp,
          rr_failed_to_apply := rr_failed_to_apply report @ map (ids_at events) (p # fp)\<rparr>)"
      "redacted_on rv events (T \<union> snd ` set dp) evs'" and d: "decided ?auth T ps dp sp fp" by auto
    have "\<forall>xs q ys. p # ps = xs @ q # ys \<longrightarrow> fst q \<notin> T \<union> snd ` set xs \<longrightarrow>
        (if ?auth q then q \<in> set dp else q \<in> set sp)"
      by (rule decided_early [where T' = T]) (use d a p in \<open>auto simp: decided_def\<close>)
    then have "decided ?auth T (p # ps) dp sp (p # fp)" using d a p unfolding decided_def by auto
    then show ?thesis using f step by (intro exI [of _ dp] exI [of _ sp] exI [of _ "p # fp"] exI [of _ evs']) simp
  qed
qed

lemma fold_defer_pair:
  "rr_applied (fold (defer_pair evs) ds report) = rr_applied report"
  "rr_skipped_unauthorized (fold (defer_pair evs) ds report) = rr_skipped_unauthorized report"
  "rr_failed_to_apply (fold (defer_pair evs) ds report) = rr_failed_to_apply report"
  "rr_target_not_in_batch (fold (defer_pair evs) ds report) =
     rr_target_not_in_batch report @ map (\<lambda>d. (ev_id (evs ! fst d), snd d)) ds"
  by (induction ds arbitrary: report) (simp_all add: defer_pair_def)

section \<open>The batch\<close>

lemma order_nil: "redaction_order [] = Some []"
  by (simp add: redaction_order_def link_pairs_def blocked_by_def)

lemma batch_result:
  assumes "pair_redactions events = (pairs, deferred)" "redaction_order pairs = Some order"
    "fold (apply_pair state_at version rv) (map ((!) pairs) order) (events, empty_report) = (evs, report)"
  shows "apply_authorized_redactions_with_state_at events state_at version rv =
    Some (evs, fold (defer_pair evs) deferred report)"
proof (cases "redaction_positions events = []")
  case True
  then have "pairs = []" "deferred = []" using assms(1) by (simp_all add: pair_redactions_eq)
  with assms True show ?thesis by (simp add: apply_authorized_redactions_with_state_at_def order_nil)
next
  case False
  with assms show ?thesis by (simp add: apply_authorized_redactions_with_state_at_def)
qed

lemma set_map_nth: "set order = {..<length xs} \<Longrightarrow> set (map ((!) xs) order) = set xs"
  by (simp add: lessThan_atLeast0 nth_image)

lemma redacted_on_refl: "redacted_on rv events {} events"
  by (simp add: redacted_on_def)

text \<open>A redaction leads to a cycle when the chain of redactions that starts with it runs into redactions that redact
  one another in a circle.\<close>

definition leads_to_cycle :: "lean_event list \<Rightarrow> nat \<Rightarrow> bool" where
  "leads_to_cycle events rp \<longleftrightarrow> (\<exists>x. (rp, x) \<in> {(a, b). redacts_at events a b}\<^sup>* \<and>
     (x, x) \<in> {(a, b). redacts_at events a b}\<^sup>+)"

lemma blocked_cycle:
  assumes d: "distinct (map fst pairs)" and rest: "set rest \<subseteq> {..<length pairs}"
    and par: "\<forall>c \<in> set rest. \<exists>p \<in> set rest. parent pairs c = Some p" and c: "c \<in> set rest"
  shows "\<exists>x. (fst (pairs ! c), x) \<in> (set pairs)\<^sup>* \<and> (x, x) \<in> (set pairs)\<^sup>+"
proof (rule ccontr)
  assume no: "\<nexists>x. (fst (pairs ! c), x) \<in> (set pairs)\<^sup>* \<and> (x, x) \<in> (set pairs)\<^sup>+"
  let ?from = "(set pairs)\<^sup>* `` {fst (pairs ! c)}"
  define R where "R = {(a, b) \<in> set pairs. a \<in> ?from}"
  have sub: "R \<subseteq> set pairs" by (auto simp: R_def)
  have "acyclic R"
  proof (rule acyclicI, intro allI notI)
    fix x assume x: "(x, x) \<in> R\<^sup>+"
    then have "x \<in> ?from" by (rule tranclE) (auto simp: R_def intro: rtrancl_into_rtrancl)
    with no trancl_mono [OF x sub] show False by blast
  qed
  moreover have "finite R" using sub by (rule finite_subset) simp
  ultimately have wf: "wf (inv_image (R\<inverse>) (\<lambda>i. fst (pairs ! i)))" by (simp add: finite_acyclic_wf_converse wf_inv_image)
  let ?Q = "{i \<in> set rest. fst (pairs ! i) \<in> ?from}"
  have "c \<in> ?Q" using c by simp
  with wf obtain m where m: "m \<in> ?Q" "\<And>p. (p, m) \<in> inv_image (R\<inverse>) (\<lambda>i. fst (pairs ! i)) \<Longrightarrow> p \<notin> ?Q"
    by (rule wfE_min) blast
  then obtain p where p: "p \<in> set rest" "fst (pairs ! p) = snd (pairs ! m)" using par parent_Some [OF d] by blast
  have "pairs ! m \<in> set pairs" using m(1) rest by (auto intro: nth_mem)
  then have "(fst (pairs ! m), snd (pairs ! m)) \<in> R" using m(1) unfolding R_def by (simp add: case_prod_beta)
  then have "(fst (pairs ! m), fst (pairs ! p)) \<in> R" unfolding p(2) .
  then have "(p, m) \<in> inv_image (R\<inverse>) (\<lambda>i. fst (pairs ! i))" "fst (pairs ! p) \<in> ?from"
    by (auto simp: R_def in_inv_image intro: rtrancl_into_rtrancl)
  with m(2) p(1) show False by blast
qed

lemma parents_first_intact:
  assumes d: "distinct (map fst pairs)" and pf: "parents_first (parent pairs) {} order"
    and sub: "set order \<subseteq> {..<length pairs}" and dist: "distinct order" and c: "order = xs @ c # ys"
  shows "fst (pairs ! c) \<notin> snd ` set (map ((!) pairs) xs)"
proof
  assume "fst (pairs ! c) \<in> snd ` set (map ((!) pairs) xs)"
  then obtain b where b: "b \<in> set xs" "snd (pairs ! b) = fst (pairs ! c)" by auto
  then obtain us vs where xs: "xs = us @ b # vs" by (meson split_list)
  have "parent pairs b = Some c" using parent_Some [OF d] b(2) sub c by auto
  then have "c \<in> set us" using pf unfolding c xs by (auto simp: parents_first_append)
  with dist show False unfolding c xs by auto
qed

definition absent_targets :: "lean_event list \<Rightarrow> (string \<times> string) list" where
  "absent_targets events = concat (map (\<lambda>e. case get_redacts (ev_content e) of
       None \<Rightarrow> []
     | Some t \<Rightarrow> if t \<in> set (map ev_id events) then [] else [(ev_id e, t)]) (filter active_redaction events))"

lemma deferred_absent:
  assumes "pair_redactions events = (pairs, deferred)" "redacted_on rv events T evs"
  shows "map (\<lambda>d. (ev_id (evs ! fst d), snd d)) deferred = absent_targets events"
proof -
  let ?f = "\<lambda>e. case get_redacts (ev_content e) of None \<Rightarrow> [] | Some t \<Rightarrow> if t \<in> set (map ev_id events) then [] else [(ev_id e, t)]"
  have one: "map (\<lambda>d. (ev_id (evs ! fst d), snd d)) (deferred_of events i) = ?f (events ! i)" if "i < length events" for i
    using redacted_on_same [OF assms(2) that] by (simp add: deferred_of_def pos_by_id_None split: option.split)
  have "filter active_redaction events = map ((!) events) (redaction_positions events)"
    using filter_map [of active_redaction "(!) events" "[0..<length events]"] by (simp add: redaction_positions_def map_nth comp_def)
  then have "absent_targets events = concat (map (\<lambda>i. ?f (events ! i)) (redaction_positions events))"
    by (simp add: absent_targets_def comp_def)
  also have "\<dots> = concat (map (\<lambda>i. map (\<lambda>d. (ev_id (evs ! fst d), snd d)) (deferred_of events i)) (redaction_positions events))"
    using one by (intro arg_cong [of _ _ concat] map_cong) (auto simp: redaction_positions_def)
  finally show ?thesis using assms(1) by (auto simp: pair_redactions_eq map_concat comp_def)
qed

lemma batch_decided:
  assumes wf: "\<forall>e \<in> set events. json_wf (ev_content e)"
  obtains evs report dp sp fp where
    "apply_authorized_redactions_with_state_at events state_at version rv = Some (evs, report)"
    "rr_applied report = map (ids_at events) dp" "rr_skipped_unauthorized report = map (ids_at events) sp"
    "rr_failed_to_apply report = map (ids_at events) fp" "rr_target_not_in_batch report = absent_targets events"
    "redacted_on rv events (snd ` set dp) evs"
    "distinct (dp @ sp @ fp)" "set (dp @ sp @ fp) = {(rp, tp). redacts_at events rp tp}"
    "\<forall>p \<in> set dp. authorized_at events state_at version rv p"
    "\<forall>p \<in> set sp. authorized_at events state_at version rv p \<longrightarrow> fst p \<in> snd ` set dp"
    "\<forall>p \<in> set fp. fst p \<in> snd ` set dp"
    "\<And>p. redacts_at events (fst p) (snd p) \<Longrightarrow> \<not> leads_to_cycle events (fst p) \<Longrightarrow>
      if authorized_at events state_at version rv p then p \<in> set dp else p \<in> set sp"
proof -
  obtain pairs deferred where p: "pair_redactions events = (pairs, deferred)" by fastforce
  note d = pairs_distinct [OF p] and all = pairs_redact [OF p]
  from redaction_order_correct [OF d] obtain order rest where o: "redaction_order pairs = Some (order @ rest)"
    "distinct (order @ rest)" "set (order @ rest) = {..<length pairs}" "parents_first (parent pairs) {} order"
    "\<forall>c \<in> set rest. \<exists>p \<in> set rest. parent pairs c = Some p" by blast
  let ?ps = "map ((!) pairs) (order @ rest)" and ?auth = "authorized_at events state_at version rv"
  have ps: "set ?ps = set pairs" using o(3) by (rule set_map_nth)
  have "\<forall>(rp, tp) \<in> set ?ps. redacts_at events rp tp" unfolding ps all by auto
  from apply_pairs_decided [OF redacted_on_refl this wf, where state_at = state_at and version = version and rv = rv and report = empty_report] obtain dp sp fp evs where
    f: "fold (apply_pair state_at version rv) ?ps (events, empty_report) = (evs, empty_report
       \<lparr>rr_applied := map (ids_at events) dp, rr_skipped_unauthorized := map (ids_at events) sp,
        rr_failed_to_apply := map (ids_at events) fp\<rparr>)"
    and on: "redacted_on rv events (snd ` set dp) evs" and dec: "decided ?auth {} ?ps dp sp fp"
    by (auto simp: empty_report_def)
  have perm: "mset (dp @ sp @ fp) = mset ?ps" using dec by (simp add: decided_def)
  have "inj_on ((!) pairs) (set (order @ rest))"
    unfolding o(3) using d by (intro inj_on_nth) (auto simp: distinct_map)
  then have "distinct ?ps" using o(2) by (simp only: distinct_map)
  then have dist: "distinct (dp @ sp @ fp)" using perm mset_eq_imp_distinct_iff by metis
  have set: "set (dp @ sp @ fp) = {(rp, tp). redacts_at events rp tp}" using mset_eq_setD [OF perm] ps all by metis
  have early: "if ?auth q then q \<in> set dp else q \<in> set sp"
    if "redacts_at events (fst q) (snd q)" "\<not> leads_to_cycle events (fst q)" for q
  proof -
    have "q \<in> set pairs" using that(1) all by (cases q) auto
    then obtain c where c: "c < length pairs" "pairs ! c = q" by (auto simp: in_set_conv_nth)
    have "c \<notin> set rest"
      using blocked_cycle [OF d _ o(5), of c] o(3) that(2) c(2) unfolding leads_to_cycle_def all by auto
    then obtain us vs where order: "order = us @ c # vs" using c(1) o(3) by (metis UnE lessThan_iff set_append split_list)
    have "fst q \<notin> {} \<union> snd ` set (map ((!) pairs) us)"
      using parents_first_intact [OF d o(4) _ _ order] o(2,3) c(2) by auto
    moreover have "?ps = map ((!) pairs) us @ q # map ((!) pairs) (vs @ rest)" using order c(2) by simp
    ultimately show ?thesis using dec unfolding decided_def by blast
  qed
  show thesis
    by (rule that [OF batch_result [OF p o(1) f], of dp sp fp])
      (use on dist set dec early deferred_absent [OF p on] in
        \<open>auto simp: fold_defer_pair empty_report_def decided_def simp del: set_append\<close>)
qed

section \<open>Properties\<close>

definition sample_batch :: "lean_event list" where
  "sample_batch =
     [\<lparr> ev_id = ''$m'', ev_type = ''m.room.message'', ev_state_key = None, ev_power_level = 0,
        ev_origin_server_ts = 1, ev_sender = ''@a:h'', ev_content = Object [(''body'', String ''x'')],
        ev_prev_events = [], ev_auth_events = [], ev_depth = 1, ev_rejected = False,
        ev_soft_fail = False, ev_room_id = None \<rparr>,
      \<lparr> ev_id = ''$r'', ev_type = M_ROOM_REDACTION, ev_state_key = None, ev_power_level = 0,
        ev_origin_server_ts = 2, ev_sender = ''@a:h'', ev_content = Object [(FIELD_REDACTS, String ''$m'')],
        ev_prev_events = [], ev_auth_events = [], ev_depth = 2, ev_rejected = False,
        ev_soft_fail = False, ev_room_id = None \<rparr>]"

lemma sample_batch_ok: "\<forall>e \<in> set sample_batch. json_wf (ev_content e)" "length sample_batch = 2"
  "ev_id (sample_batch ! 0) = ''$m''" "ev_id (sample_batch ! 1) = ''$r''"
  by (simp_all add: sample_batch_def bm_inv_def)

lemma sample_batch_redacts: "redacts_at sample_batch rp tp \<longleftrightarrow> rp = 1 \<and> tp = 0"
  by (auto simp: redacts_at_def last_at_def sample_batch_def active_redaction_def less_Suc_eq get_redacts_def
      get_str_def M_ROOM_REDACTION_def get_def as_str_def)

lemma sample_batch_authorized:
  "authorized_at sample_batch (\<lambda>_. Some (\<lambda>_ _. None)) V2 ''11'' (1, 0)"
  by (simp add: authorized_at_def sample_batch_def redaction_is_authorized_def)

text \<open>C29: Applying the redactions of a batch returns for every batch of events with well-formed contents, and the report
  is exact. The active redactions that name another event of the batch fall into three lists without
  repetition: applied, skipped and failed. The applied ones are authorized against the state at the
  redaction: by the sender of the target, by the redact power level, or, in room versions 1 and 2, by a
  matching domain. A skipped one is not authorized or was redacted before its turn, a failed one was redacted before
  its turn. Exactly the targets of the applied ones are redacted, every other event is unchanged. The
  redactions whose target is not in the batch are reported as such.\<close>

theorem redactions_sound:
  assumes "\<forall>e \<in> set events. json_wf (ev_content e)"
  shows "\<exists>evs report dp sp fp.
    apply_authorized_redactions_with_state_at events state_at version rv = Some (evs, report) \<and>
    rr_applied report = map (ids_at events) dp \<and> rr_skipped_unauthorized report = map (ids_at events) sp \<and>
    rr_failed_to_apply report = map (ids_at events) fp \<and> rr_target_not_in_batch report = absent_targets events \<and>
    distinct (dp @ sp @ fp) \<and> set (dp @ sp @ fp) = {(rp, tp). redacts_at events rp tp} \<and>
    (\<forall>p \<in> set dp. authorized_at events state_at version rv p) \<and>
    (\<forall>p \<in> set sp. authorized_at events state_at version rv p \<longrightarrow> fst p \<in> snd ` set dp) \<and>
    (\<forall>p \<in> set fp. fst p \<in> snd ` set dp) \<and>
    length evs = length events \<and>
    (\<forall>i < length events. evs ! i = (if i \<in> snd ` set dp then redacted (events ! i) rv else events ! i))"
  by (rule batch_decided [OF assms, of state_at version rv]) (unfold redacted_on_def, blast)

theorem redactions_sound_witness:
  "\<exists>evs report. apply_authorized_redactions_with_state_at sample_batch (\<lambda>_. Some (\<lambda>_ _. None)) V2 ''11'' =
      Some (evs, report) \<and> length evs = 2 \<and> evs ! 1 = sample_batch ! 1"
proof -
  from redactions_sound [OF sample_batch_ok(1), of "\<lambda>_. Some (\<lambda>_ _. None)" V2 "''11''"] obtain evs report dp sp fp where
    e: "apply_authorized_redactions_with_state_at sample_batch (\<lambda>_. Some (\<lambda>_ _. None)) V2 ''11'' = Some (evs, report)"
    "set (dp @ sp @ fp) = {(rp, tp). redacts_at sample_batch rp tp}" "length evs = length sample_batch"
    "\<forall>i < length sample_batch. evs ! i = (if i \<in> snd ` set dp then redacted (sample_batch ! i) ''11'' else sample_batch ! i)"
    by blast
  have "set dp \<subseteq> {(1, 0)}" using e(2) by (auto simp: sample_batch_redacts)
  then have "1 \<notin> snd ` set dp" by auto
  with e show ?thesis by (auto simp: sample_batch_ok)
qed

text \<open>C30: No redaction of a batch is lost. Every active redaction that names another event of the batch is processed,
  in a cycle of redactions or not: it is reported as applied, skipped or failed. One that does not lead to a cycle is
  decided by its authorization alone, although other redactions of the batch may redact it: it is
  applied, its target redacted, when it is authorized, and skipped otherwise. One that names an event outside the
  batch is reported for a later attempt. Ids may repeat; an id stands for its last event.\<close>

theorem redactions_applied:
  assumes "\<forall>e \<in> set events. json_wf (ev_content e)"
  shows "\<exists>evs report. apply_authorized_redactions_with_state_at events state_at version rv = Some (evs, report) \<and>
    (\<forall>rp tp. redacts_at events rp tp \<longrightarrow>
      ids_at events (rp, tp) \<in> set (rr_applied report) \<union> set (rr_skipped_unauthorized report) \<union>
        set (rr_failed_to_apply report) \<and>
      (\<not> leads_to_cycle events rp \<longrightarrow>
        (if authorized_at events state_at version rv (rp, tp)
         then evs ! tp = redacted (events ! tp) rv \<and> ids_at events (rp, tp) \<in> set (rr_applied report)
         else ids_at events (rp, tp) \<in> set (rr_skipped_unauthorized report)))) \<and>
    (\<forall>e t. e \<in> set events \<longrightarrow> active_redaction e \<longrightarrow> get_redacts (ev_content e) = Some t \<longrightarrow>
      t \<notin> ev_id ` set events \<longrightarrow> (ev_id e, t) \<in> set (rr_target_not_in_batch report))"
proof -
  let ?auth = "authorized_at events state_at version rv"
  obtain evs report dp sp fp where
    b: "apply_authorized_redactions_with_state_at events state_at version rv = Some (evs, report)"
    "rr_applied report = map (ids_at events) dp" "rr_skipped_unauthorized report = map (ids_at events) sp"
    "rr_failed_to_apply report = map (ids_at events) fp" "rr_target_not_in_batch report = absent_targets events"
    "redacted_on rv events (snd ` set dp) evs" "set (dp @ sp @ fp) = {(rp, tp). redacts_at events rp tp}"
    "\<And>p. redacts_at events (fst p) (snd p) \<Longrightarrow> \<not> leads_to_cycle events (fst p) \<Longrightarrow>
      if ?auth p then p \<in> set dp else p \<in> set sp"
    by (rule batch_decided [OF assms, of state_at version rv]) blast
  have "ids_at events (rp, tp) \<in> set (rr_applied report) \<union> set (rr_skipped_unauthorized report) \<union>
      set (rr_failed_to_apply report)" if "redacts_at events rp tp" for rp tp
  proof -
    have "(rp, tp) \<in> set dp \<union> set sp \<union> set fp" using that b(7) by auto
    then show ?thesis unfolding b(2-4) set_map by blast
  qed
  moreover have "if ?auth (rp, tp) then evs ! tp = redacted (events ! tp) rv \<and> ids_at events (rp, tp) \<in> set (rr_applied report)
      else ids_at events (rp, tp) \<in> set (rr_skipped_unauthorized report)"
    if "redacts_at events rp tp" "\<not> leads_to_cycle events rp" for rp tp
  proof (cases "?auth (rp, tp)")
    case True
    then have "(rp, tp) \<in> set dp" using b(8) [of "(rp, tp)"] that by simp
    then have "ids_at events (rp, tp) \<in> set (rr_applied report)" "tp \<in> snd ` set dp" unfolding b(2) by force+
    with True b(6) redacts_atD(2) [OF that(1)] show ?thesis by (simp add: redacted_on_def)
  next
    case False
    then have "(rp, tp) \<in> set sp" using b(8) [of "(rp, tp)"] that by simp
    with False show ?thesis unfolding b(3) by simp
  qed
  moreover have "(ev_id e, t) \<in> set (rr_target_not_in_batch report)"
    if "e \<in> set events" "active_redaction e" "get_redacts (ev_content e) = Some t" "t \<notin> ev_id ` set events" for e t
  proof -
    let ?f = "\<lambda>e. case get_redacts (ev_content e) of None \<Rightarrow> [] | Some t \<Rightarrow> if t \<in> set (map ev_id events) then [] else [(ev_id e, t)]"
    have "(ev_id e, t) \<in> set (?f e)" using that(3,4) by simp
    moreover have "?f e \<in> set (map ?f (filter active_redaction events))" using that(1,2) by (intro image_eqI [of _ _ e, THEN list.set_map [THEN equalityD2, THEN subsetD]]) simp_all
    ultimately show ?thesis unfolding b(5) absent_targets_def set_concat by blast
  qed
  ultimately show ?thesis using b(1) by blast
qed

theorem redactions_applied_witness:
  "\<exists>evs report. apply_authorized_redactions_with_state_at sample_batch (\<lambda>_. Some (\<lambda>_ _. None)) V2 ''11'' =
      Some (evs, report) \<and>
    evs ! 0 = redacted (sample_batch ! 0) ''11'' \<and> (''$r'', ''$m'') \<in> set (rr_applied report)"
proof -
  have "{(a, b). redacts_at sample_batch a b} = {(1, 0)}" by (auto simp: sample_batch_redacts)
  moreover have "acyclic {(1 :: nat, 0 :: nat)}" by (rule acyclicI_order [where f = id]) auto
  ultimately have nc: "\<not> leads_to_cycle sample_batch 1" by (auto simp: leads_to_cycle_def acyclic_def)
  have r: "redacts_at sample_batch 1 0" by (simp add: sample_batch_redacts)
  obtain evs report where e: "apply_authorized_redactions_with_state_at sample_batch (\<lambda>_. Some (\<lambda>_ _. None)) V2 ''11'' =
      Some (evs, report)"
    "evs ! 0 = redacted (sample_batch ! 0) ''11''" "ids_at sample_batch (1, 0) \<in> set (rr_applied report)"
    using redactions_applied [OF sample_batch_ok(1), of "\<lambda>_. Some (\<lambda>_ _. None)" V2 "''11''"] r nc sample_batch_authorized
    by metis
  then have "ids_at sample_batch (1, 0) = (''$r'', ''$m'')" by (simp add: ids_at_def sample_batch_ok del: One_nat_def)
  with e show ?thesis by auto
qed

end
