(* ===== verification/Lt_Lattice.thy ===== *)
theory Lt_Lattice
  imports Ord_Map "HOL-Library.Word"
begin

text \<open>
  The homomorphic state hash: \<open>src/src/incremental/lthash\<close> and its state-facing adapters in
  \<open>src/src/state/lthash.rs\<close>. An element is expanded by the BLAKE3 extendable output function to lanes of
  16 bits, and the accumulator is the lane-wise wrapping sum. BLAKE3 is third-party code: the
  parameter \<open>blake3\<close> gives its 32-byte digest and \<open>xof\<close> the byte of its output stream at a position. A
  hasher is the list of the bytes it has been updated with. The number of lanes, a constant parameter
  of the type, is an argument.
\<close>

section \<open>Bytes and lanes\<close>

type_synonym lanes = "16 word list"

type_synonym xof = "string \<Rightarrow> nat \<Rightarrow> char"

definition u16_from_le_bytes :: "char \<Rightarrow> char \<Rightarrow> 16 word" where
  "u16_from_le_bytes a b = word_of_nat (of_char a + 256 * of_char b)"

definition u16_to_le_bytes :: "16 word \<Rightarrow> string" where
  "u16_to_le_bytes w = [char_of (unat w mod 256), char_of (unat w div 256)]"

primrec le_bytes :: "nat \<Rightarrow> nat \<Rightarrow> string" where
  "le_bytes 0 k = []"
| "le_bytes (Suc n) k = char_of (k mod 256) # le_bytes n (k div 256)"

primrec le_value :: "string \<Rightarrow> nat" where
  "le_value [] = 0"
| "le_value (c # cs) = of_char c + 256 * le_value cs"

definition u32_to_le_bytes :: "32 word \<Rightarrow> string" where
  "u32_to_le_bytes w = le_bytes 4 (unat w)"

text \<open>A byte index is a character boundary of a UTF-8 string at its ends and before a byte that does not
  continue a character.\<close>

definition is_char_boundary :: "string \<Rightarrow> nat \<Rightarrow> bool" where
  "is_char_boundary s i =
     (if i = 0 \<or> i = length s then True
      else if length s < i then False
      else (let n = of_char (s ! i) :: nat in n < 128 \<or> 192 \<le> n))"

fun boundary_below :: "string \<Rightarrow> nat \<Rightarrow> nat" where
  "boundary_below s 0 = 0"
| "boundary_below s (Suc e) = (if is_char_boundary s (Suc e) then Suc e else boundary_below s e)"

definition U16_MAX :: nat where
  "U16_MAX = 65535"

definition truncate_to_u16_limit :: "string \<Rightarrow> string \<times> 16 word" where
  "truncate_to_u16_limit s =
     (if length s > U16_MAX
      then (let e = boundary_below s U16_MAX in (take e s, word_of_nat e))
      else (s, word_of_nat (length s)))"

section \<open>Expansion\<close>

text \<open>The lanes of one window: \<open>fill\<close> reads the bytes at the position of the reader.\<close>

definition unpack_window :: "(nat \<Rightarrow> char) \<Rightarrow> nat \<Rightarrow> nat \<Rightarrow> lanes" where
  "unpack_window stream pos n =
     (let scratch = map (\<lambda>i. stream (pos + i)) [0..<2 * n]
      in map (\<lambda>i. u16_from_le_bytes (scratch ! (2 * i)) (scratch ! (2 * i + 1))) [0..<n])"

function expand_windows :: "(nat \<Rightarrow> char) \<Rightarrow> nat \<Rightarrow> nat \<Rightarrow> lanes" where
  "expand_windows stream pos lanes =
     (if lanes = 0 then []
      else let n = min 128 lanes
           in unpack_window stream pos n @ expand_windows stream (pos + 2 * n) (lanes - n))"
  by pat_completeness auto
termination
  by (relation "measure (\<lambda>(_, _, lanes). lanes)") auto

declare expand_windows.simps [simp del]

definition expand_lanes :: "xof \<Rightarrow> nat \<Rightarrow> string \<Rightarrow> lanes" where
  "expand_lanes xof LANES input = expand_windows (xof input) 0 LANES"

definition entry_input :: "string \<Rightarrow> string \<Rightarrow> string \<Rightarrow> string \<Rightarrow> string" where
  "entry_input dst event_type state_key event_id =
     (case (truncate_to_u16_limit event_type, truncate_to_u16_limit state_key) of
        ((t, type_len), (k, sk_len)) \<Rightarrow>
          dst @ u16_to_le_bytes type_len @ t @ u16_to_le_bytes sk_len @ k @ event_id)"

definition seed_lattice :: "xof \<Rightarrow> nat \<Rightarrow> string \<Rightarrow> string \<Rightarrow> string \<Rightarrow> string \<Rightarrow> lanes" where
  "seed_lattice xof LANES dst event_type state_key event_id =
     expand_lanes xof LANES (entry_input dst event_type state_key event_id)"

definition seed_bytes_lattice :: "xof \<Rightarrow> nat \<Rightarrow> string \<Rightarrow> string \<Rightarrow> lanes" where
  "seed_bytes_lattice xof LANES dst bytes = expand_lanes xof LANES (dst @ bytes)"

definition field_input :: "string \<Rightarrow> string \<Rightarrow> string \<Rightarrow> string" where
  "field_input dst key val =
     (case (truncate_to_u16_limit key, truncate_to_u16_limit val) of
        ((k, key_len), (v, val_len)) \<Rightarrow>
          dst @ u16_to_le_bytes key_len @ k @ u16_to_le_bytes val_len @ v)"

definition seed_field_lattice :: "xof \<Rightarrow> nat \<Rightarrow> string \<Rightarrow> string \<Rightarrow> string \<Rightarrow> lanes" where
  "seed_field_lattice xof LANES dst key val = expand_lanes xof LANES (field_input dst key val)"

section \<open>Lane arithmetic\<close>

text \<open>Chunks of eight lanes, then the lanes that are left over.\<close>

fun chunked :: "(16 word \<Rightarrow> 16 word \<Rightarrow> 16 word) \<Rightarrow> lanes \<Rightarrow> lanes \<Rightarrow> lanes" where
  "chunked f (a0 # a1 # a2 # a3 # a4 # a5 # a6 # a7 # as) (b0 # b1 # b2 # b3 # b4 # b5 # b6 # b7 # bs) =
     f a0 b0 # f a1 b1 # f a2 b2 # f a3 b3 # f a4 b4 # f a5 b5 # f a6 b6 # f a7 b7 # chunked f as bs"
| "chunked f as bs = map2 f as bs"

definition add_lattice :: "lanes \<Rightarrow> lanes \<Rightarrow> lanes" where
  "add_lattice dst src = chunked (+) dst src"

definition sub_lattice :: "lanes \<Rightarrow> lanes \<Rightarrow> lanes" where
  "sub_lattice dst src = chunked (-) dst src"

text \<open>\<open>lattice_digest\<close> feeds the hasher in windows of 128 lanes.\<close>

function digest_input :: "lanes \<Rightarrow> string" where
  "digest_input ls =
     (if ls = [] then []
      else concat (map u16_to_le_bytes (take 128 ls)) @ digest_input (drop 128 ls))"
  by pat_completeness auto
termination
  by (relation "measure length") auto

declare digest_input.simps [simp del]

definition lattice_digest :: "(string \<Rightarrow> string) \<Rightarrow> lanes \<Rightarrow> string" where
  "lattice_digest blake3 ls = blake3 (digest_input ls)"

section \<open>The accumulator\<close>

definition lt_zero :: "nat \<Rightarrow> lanes" where
  "lt_zero LANES = replicate LANES 0"

definition LT_DST :: string where
  "LT_DST = ''msc4500:lthash16:blake3:v1''"

definition lt_seed :: "xof \<Rightarrow> nat \<Rightarrow> string \<Rightarrow> string \<Rightarrow> string \<Rightarrow> lanes" where
  "lt_seed xof LANES event_type state_key event_id =
     seed_lattice xof LANES LT_DST event_type state_key event_id"

definition accumulate :: "xof \<Rightarrow> nat \<Rightarrow> string \<Rightarrow> string \<Rightarrow> string \<Rightarrow> bool \<Rightarrow> lanes \<Rightarrow> lanes" where
  "accumulate xof LANES event_type state_key event_id add h =
     (let s = lt_seed xof LANES event_type state_key event_id
      in if add then add_lattice h s else sub_lattice h s)"

definition lt_insert :: "xof \<Rightarrow> nat \<Rightarrow> string \<Rightarrow> string \<Rightarrow> string \<Rightarrow> lanes \<Rightarrow> lanes" where
  "lt_insert xof LANES event_type state_key event_id =
     accumulate xof LANES event_type state_key event_id True"

definition lt_remove :: "xof \<Rightarrow> nat \<Rightarrow> string \<Rightarrow> string \<Rightarrow> string \<Rightarrow> lanes \<Rightarrow> lanes" where
  "lt_remove xof LANES event_type state_key event_id =
     accumulate xof LANES event_type state_key event_id False"

definition lt_replace :: "xof \<Rightarrow> nat \<Rightarrow> string \<Rightarrow> string \<Rightarrow> string \<Rightarrow> string \<Rightarrow> lanes \<Rightarrow> lanes" where
  "lt_replace xof LANES event_type state_key old_event_id new_event_id h =
     add_lattice (sub_lattice h (lt_seed xof LANES event_type state_key old_event_id))
       (lt_seed xof LANES event_type state_key new_event_id)"

text \<open>\<open>replace_checked\<close> panics (\<open>None\<close>) when the slots differ.\<close>

definition lt_replace_checked ::
  "xof \<Rightarrow> nat \<Rightarrow> string \<times> string \<times> string \<Rightarrow> string \<times> string \<times> string \<Rightarrow> lanes \<Rightarrow> lanes option" where
  "lt_replace_checked xof LANES old new h =
     (case (old, new) of ((ot, ok, oi), (nt, nk, ni)) \<Rightarrow>
        if ot = nt \<and> ok = nk
        then Some (add_lattice (sub_lattice h (lt_seed xof LANES ot ok oi)) (lt_seed xof LANES nt nk ni))
        else None)"

definition insert_batch :: "xof \<Rightarrow> nat \<Rightarrow> (string \<times> string \<times> string) list \<Rightarrow> lanes \<Rightarrow> lanes" where
  "insert_batch xof LANES items h = fold (\<lambda>(t, k, i). lt_insert xof LANES t k i) items h"

definition remove_batch :: "xof \<Rightarrow> nat \<Rightarrow> (string \<times> string \<times> string) list \<Rightarrow> lanes \<Rightarrow> lanes" where
  "remove_batch xof LANES items h = fold (\<lambda>(t, k, i). lt_remove xof LANES t k i) items h"

definition insert_batch_with_dst ::
  "xof \<Rightarrow> nat \<Rightarrow> string \<Rightarrow> (string \<times> string \<times> string) list \<Rightarrow> lanes \<Rightarrow> lanes" where
  "insert_batch_with_dst xof LANES dst items h =
     fold (\<lambda>(t, k, i) h. add_lattice h (seed_lattice xof LANES dst t k i)) items h"

definition remove_batch_with_dst ::
  "xof \<Rightarrow> nat \<Rightarrow> string \<Rightarrow> (string \<times> string \<times> string) list \<Rightarrow> lanes \<Rightarrow> lanes" where
  "remove_batch_with_dst xof LANES dst items h =
     fold (\<lambda>(t, k, i) h. sub_lattice h (seed_lattice xof LANES dst t k i)) items h"

definition insert_bytes :: "xof \<Rightarrow> nat \<Rightarrow> string \<Rightarrow> string \<Rightarrow> lanes \<Rightarrow> lanes" where
  "insert_bytes xof LANES dst bytes h = add_lattice h (seed_bytes_lattice xof LANES dst bytes)"

definition remove_bytes :: "xof \<Rightarrow> nat \<Rightarrow> string \<Rightarrow> string \<Rightarrow> lanes \<Rightarrow> lanes" where
  "remove_bytes xof LANES dst bytes h = sub_lattice h (seed_bytes_lattice xof LANES dst bytes)"

definition replace_bytes :: "xof \<Rightarrow> nat \<Rightarrow> string \<Rightarrow> string \<Rightarrow> string \<Rightarrow> lanes \<Rightarrow> lanes" where
  "replace_bytes xof LANES dst old_bytes new_bytes h =
     add_lattice (sub_lattice h (seed_bytes_lattice xof LANES dst old_bytes))
       (seed_bytes_lattice xof LANES dst new_bytes)"

definition insert_field :: "xof \<Rightarrow> nat \<Rightarrow> string \<Rightarrow> string \<Rightarrow> string \<Rightarrow> lanes \<Rightarrow> lanes" where
  "insert_field xof LANES dst key val h = add_lattice h (seed_field_lattice xof LANES dst key val)"

definition remove_field :: "xof \<Rightarrow> nat \<Rightarrow> string \<Rightarrow> string \<Rightarrow> string \<Rightarrow> lanes \<Rightarrow> lanes" where
  "remove_field xof LANES dst key val h = sub_lattice h (seed_field_lattice xof LANES dst key val)"

definition replace_field :: "xof \<Rightarrow> nat \<Rightarrow> string \<Rightarrow> string \<Rightarrow> string \<Rightarrow> string \<Rightarrow> lanes \<Rightarrow> lanes" where
  "replace_field xof LANES dst key old_val new_val h =
     add_lattice (sub_lattice h (seed_field_lattice xof LANES dst key old_val))
       (seed_field_lattice xof LANES dst key new_val)"

definition lt_to_bytes :: "lanes \<Rightarrow> string" where
  "lt_to_bytes ls = concat (map u16_to_le_bytes ls)"

fun lanes_of_bytes :: "string \<Rightarrow> lanes" where
  "lanes_of_bytes (a # b # bs) = u16_from_le_bytes a b # lanes_of_bytes bs"
| "lanes_of_bytes bs = []"

definition lt_from_bytes :: "nat \<Rightarrow> string \<Rightarrow> lanes option" where
  "lt_from_bytes LANES bytes =
     (if length bytes \<noteq> LANES * 2 then None else Some (lanes_of_bytes bytes))"

record wrong_lattice_length =
  wl_expected :: nat
  wl_found :: nat

definition lt_try_from :: "nat \<Rightarrow> string \<Rightarrow> (wrong_lattice_length, lanes) result" where
  "lt_try_from LANES bytes =
     ok_or \<lparr> wl_expected = LANES * 2, wl_found = length bytes \<rparr> (lt_from_bytes LANES bytes)"

definition lt_sum :: "nat \<Rightarrow> lanes list \<Rightarrow> lanes" where
  "lt_sum LANES items = fold (\<lambda>item acc. add_lattice acc item) items (lt_zero LANES)"

section \<open>State hashes\<close>

text \<open>The entries of a state come from its iterator, in key order.\<close>

definition hash_entries :: "xof \<Rightarrow> nat \<Rightarrow> ((string \<times> string) \<times> string) list \<Rightarrow> lanes" where
  "hash_entries xof LANES entries =
     fold (\<lambda>((t, k), i) h. add_lattice h (lt_seed xof LANES t k i)) entries (lt_zero LANES)"

definition from_state :: "xof \<Rightarrow> nat \<Rightarrow> (string \<times> string, string) ord_map \<Rightarrow> lanes" where
  "from_state xof LANES state =
     hash_entries xof LANES (pull iter_next (om_len state) (om_iter state))"

definition LT_HASH_LANES :: nat where
  "LT_HASH_LANES = 1024"

definition compute_state_hash ::
  "xof \<Rightarrow> (string \<Rightarrow> string) \<Rightarrow> (string \<times> string, string) ord_map \<Rightarrow> string" where
  "compute_state_hash xof blake3 state = lattice_digest blake3 (from_state xof LT_HASH_LANES state)"

definition OVERLAY_DST :: string where
  "OVERLAY_DST = ''msc4500:redactions:blake3:v1''"

definition overlay_insert :: "xof \<Rightarrow> string \<Rightarrow> string \<Rightarrow> string \<Rightarrow> lanes \<Rightarrow> lanes" where
  "overlay_insert xof event_type state_key event_id h =
     add_lattice h (seed_lattice xof LT_HASH_LANES OVERLAY_DST event_type state_key event_id)"

definition overlay_remove :: "xof \<Rightarrow> string \<Rightarrow> string \<Rightarrow> string \<Rightarrow> lanes \<Rightarrow> lanes" where
  "overlay_remove xof event_type state_key event_id h =
     sub_lattice h (seed_lattice xof LT_HASH_LANES OVERLAY_DST event_type state_key event_id)"

record resolution_input_record =
  ri_event_id :: string
  ri_event_type :: string
  ri_state_key :: string
  ri_auth_events :: "string list"
  ri_state_predecessors :: "string list"

definition put_str :: "string \<Rightarrow> string" where
  "put_str s = (case truncate_to_u16_limit s of (t, len) \<Rightarrow> u16_to_le_bytes len @ t)"

definition put_ids :: "string list \<Rightarrow> string" where
  "put_ids ids =
     (let ordered = sort_by cmp ids
      in u32_to_le_bytes (word_of_nat (min (length ordered) 4294967295)) @ concat (map put_str ordered))"

definition encode_record :: "resolution_input_record \<Rightarrow> string" where
  "encode_record r =
     put_str (ri_event_id r) @ put_str (ri_event_type r) @ put_str (ri_state_key r) @
     put_ids (ri_auth_events r) @ put_ids (ri_state_predecessors r)"

definition INPUTS_DST :: string where
  "INPUTS_DST = ''msc4500:resolution_inputs:blake3:v1''"

definition inputs_insert :: "xof \<Rightarrow> resolution_input_record \<Rightarrow> lanes \<Rightarrow> lanes" where
  "inputs_insert xof r h =
     add_lattice h (seed_bytes_lattice xof LT_HASH_LANES INPUTS_DST (encode_record r))"

definition inputs_remove :: "xof \<Rightarrow> resolution_input_record \<Rightarrow> lanes \<Rightarrow> lanes" where
  "inputs_remove xof r h =
     sub_lattice h (seed_bytes_lattice xof LT_HASH_LANES INPUTS_DST (encode_record r))"

text \<open>The accumulator of the fields of one event, with its tag bound at construction.\<close>

record pdu_lt_hash =
  pdu_dst :: string
  pdu_inner :: lanes

definition pdu_new :: "string \<Rightarrow> pdu_lt_hash" where
  "pdu_new dst = \<lparr> pdu_dst = dst, pdu_inner = lt_zero LT_HASH_LANES \<rparr>"

definition pdu_insert_field :: "xof \<Rightarrow> string \<Rightarrow> string \<Rightarrow> pdu_lt_hash \<Rightarrow> pdu_lt_hash" where
  "pdu_insert_field xof key val p =
     p\<lparr>pdu_inner := add_lattice (pdu_inner p) (seed_field_lattice xof LT_HASH_LANES (pdu_dst p) key val)\<rparr>"

definition pdu_remove_field :: "xof \<Rightarrow> string \<Rightarrow> string \<Rightarrow> pdu_lt_hash \<Rightarrow> pdu_lt_hash" where
  "pdu_remove_field xof key val p =
     p\<lparr>pdu_inner := sub_lattice (pdu_inner p) (seed_field_lattice xof LT_HASH_LANES (pdu_dst p) key val)\<rparr>"

definition pdu_replace_field :: "xof \<Rightarrow> string \<Rightarrow> string \<Rightarrow> string \<Rightarrow> pdu_lt_hash \<Rightarrow> pdu_lt_hash" where
  "pdu_replace_field xof key old_val new_val p =
     p\<lparr>pdu_inner := add_lattice
         (sub_lattice (pdu_inner p) (seed_field_lattice xof LT_HASH_LANES (pdu_dst p) key old_val))
         (seed_field_lattice xof LT_HASH_LANES (pdu_dst p) key new_val)\<rparr>"

definition pdu_insert_bytes :: "xof \<Rightarrow> string \<Rightarrow> pdu_lt_hash \<Rightarrow> pdu_lt_hash" where
  "pdu_insert_bytes xof bytes p =
     p\<lparr>pdu_inner := add_lattice (pdu_inner p) (seed_bytes_lattice xof LT_HASH_LANES (pdu_dst p) bytes)\<rparr>"

definition pdu_remove_bytes :: "xof \<Rightarrow> string \<Rightarrow> pdu_lt_hash \<Rightarrow> pdu_lt_hash" where
  "pdu_remove_bytes xof bytes p =
     p\<lparr>pdu_inner := sub_lattice (pdu_inner p) (seed_bytes_lattice xof LT_HASH_LANES (pdu_dst p) bytes)\<rparr>"

definition pdu_replace_bytes :: "xof \<Rightarrow> string \<Rightarrow> string \<Rightarrow> pdu_lt_hash \<Rightarrow> pdu_lt_hash" where
  "pdu_replace_bytes xof old_bytes new_bytes p =
     p\<lparr>pdu_inner := add_lattice
         (sub_lattice (pdu_inner p) (seed_bytes_lattice xof LT_HASH_LANES (pdu_dst p) old_bytes))
         (seed_bytes_lattice xof LT_HASH_LANES (pdu_dst p) new_bytes)\<rparr>"

definition pdu_is_empty :: "pdu_lt_hash \<Rightarrow> bool" where
  "pdu_is_empty p \<longleftrightarrow> pdu_inner p = lt_zero LT_HASH_LANES"

definition pdu_digest :: "(string \<Rightarrow> string) \<Rightarrow> pdu_lt_hash \<Rightarrow> string" where
  "pdu_digest blake3 p = lattice_digest blake3 (pdu_inner p)"

record state_digest =
  sd_primary :: string
  sd_overlay :: "string option"

datatype digest_agreement = PrimaryMismatch | FullySynchronized | OverlayMismatch | OverlayUnknown

definition compare_digests :: "state_digest \<Rightarrow> state_digest \<Rightarrow> digest_agreement" where
  "compare_digests a b =
     (if sd_primary a = sd_primary b
      then (case (sd_overlay a, sd_overlay b) of
              (Some l, Some r) \<Rightarrow> if l = r then FullySynchronized else OverlayMismatch
            | _ \<Rightarrow> OverlayUnknown)
      else PrimaryMismatch)"

end
