(* ===== verification/Lt_Lattice_Correct.thy ===== *)
theory Lt_Lattice_Correct
  imports Lt_Lattice Ord_Map_Iter
begin

text \<open>
  Correctness of the state hash. Lane arithmetic in chunks is lane-wise modular arithmetic, a commutative
  group, so the hash of a collection depends on its elements only; the hash maintained along with the
  updates of a state is the hash computed from the resulting state; the element encodings are
  injective; and the serialized form is read back.
\<close>

section \<open>Lane arithmetic\<close>

lemma chunked_map2: "chunked f as bs = map2 f as bs"
  by (induction f as bs rule: chunked.induct) simp_all

lemma lattice_nth [simp]:
  "length a = n \<Longrightarrow> length b = n \<Longrightarrow> i < n \<Longrightarrow> add_lattice a b ! i = a ! i + b ! i"
  "length a = n \<Longrightarrow> length b = n \<Longrightarrow> i < n \<Longrightarrow> sub_lattice a b ! i = a ! i - b ! i"
  by (simp_all add: add_lattice_def sub_lattice_def chunked_map2)

lemma lattice_length [simp]:
  "length (add_lattice a b) = min (length a) (length b)"
  "length (sub_lattice a b) = min (length a) (length b)"
  by (simp_all add: add_lattice_def sub_lattice_def chunked_map2)

lemma lattice_group:
  assumes "length a = n" "length b = n" "length c = n"
  shows "add_lattice a b = add_lattice b a"
    "add_lattice (add_lattice a b) c = add_lattice a (add_lattice b c)"
    "add_lattice (lt_zero n) a = a"
    "sub_lattice (add_lattice a b) b = a"
    "add_lattice (sub_lattice a b) b = a"
  by (rule nth_equalityI; use assms in \<open>simp add: lt_zero_def algebra_simps\<close>)+

section \<open>Expansion\<close>

text \<open>The windows are a plain reading of the output stream.\<close>

lemma expand_windows_eq:
  "expand_windows stream pos lanes =
     map (\<lambda>i. u16_from_le_bytes (stream (pos + 2 * i)) (stream (pos + 2 * i + 1))) [0..<lanes]"
proof (induction stream pos lanes rule: expand_windows.induct)
  case (1 stream pos lanes)
  show ?case
  proof (cases "lanes = 0")
    case False
    define n where "n = min 128 lanes"
    have n: "n \<le> lanes" "0 < n" using False by (auto simp: n_def)
    have w: "unpack_window stream pos n =
        map (\<lambda>i. u16_from_le_bytes (stream (pos + 2 * i)) (stream (pos + 2 * i + 1))) [0..<n]"
      unfolding unpack_window_def Let_def by (rule map_cong) auto
    have "expand_windows stream pos lanes =
        unpack_window stream pos n @ expand_windows stream (pos + 2 * n) (lanes - n)"
      using False by (simp add: expand_windows.simps [of stream pos lanes] n_def Let_def)
    also have "expand_windows stream (pos + 2 * n) (lanes - n) =
        map (\<lambda>i. u16_from_le_bytes (stream (pos + 2 * i)) (stream (pos + 2 * i + 1))) [n..<lanes]"
      using 1 [OF False n_def]
      by (intro nth_equalityI) (simp_all add: algebra_simps n)
    finally show ?thesis
      using w n upt_add_eq_append [of 0 n "lanes - n"] by (simp flip: map_append)
  qed (simp add: expand_windows.simps)
qed

lemma length_expand [simp]: "length (expand_lanes xof LANES input) = LANES"
  by (simp add: expand_lanes_def expand_windows_eq)

lemma length_seed [simp]:
  "length (lt_seed xof LANES t k i) = LANES" "length (seed_lattice xof LANES dst t k i) = LANES"
  "length (seed_field_lattice xof LANES dst key val) = LANES"
  by (simp_all add: lt_seed_def seed_lattice_def seed_field_lattice_def)

section \<open>Hashes of collections\<close>

text \<open>The sum of the seeds of a multiset of entries.\<close>

lemma nth_fold_add:
  assumes "length h = n" "\<forall>x \<in> set xs. length (f x) = n" "i < n"
  shows "fold (\<lambda>x h. add_lattice h (f x)) xs h ! i = h ! i + sum_list (map (\<lambda>x. f x ! i) xs)"
  using assms by (induction xs arbitrary: h) (simp_all add: add.assoc)

lemma length_fold_add:
  "length h = n \<Longrightarrow> \<forall>x \<in> set xs. length (f x) = n \<Longrightarrow>
     length (fold (\<lambda>x h. add_lattice h (f x)) xs h) = n"
  by (induction xs arbitrary: h) auto

abbreviation entry_seed :: "xof \<Rightarrow> nat \<Rightarrow> (string \<times> string) \<times> string \<Rightarrow> lanes" where
  "entry_seed xof LANES e \<equiv> lt_seed xof LANES (fst (fst e)) (snd (fst e)) (snd e)"

lemma hash_entries_fold:
  "hash_entries xof LANES es = fold (\<lambda>e h. add_lattice h (entry_seed xof LANES e)) es (lt_zero LANES)"
  unfolding hash_entries_def by (rule fold_cong) auto

lemma nth_hash_entries:
  "i < LANES \<Longrightarrow> hash_entries xof LANES es ! i = sum_list (map (\<lambda>e. entry_seed xof LANES e ! i) es)"
  by (simp add: hash_entries_fold nth_fold_add [where n = LANES] lt_zero_def)

lemma length_hash_entries [simp]: "length (hash_entries xof LANES es) = LANES"
  by (simp add: hash_entries_fold length_fold_add [where n = LANES] lt_zero_def)

lemma insert_batch_fold:
  "insert_batch xof LANES items h =
     fold (\<lambda>e h. add_lattice h (lt_seed xof LANES (fst e) (fst (snd e)) (snd (snd e)))) items h"
  unfolding insert_batch_def
  by (rule fold_cong) (auto simp: lt_insert_def accumulate_def)

text \<open>Removing a batch undoes inserting it, in any order of either.\<close>

lemma nth_remove_batch:
  assumes "length h = n" "i < n"
  shows "remove_batch xof n items h ! i =
    h ! i - sum_list (map (\<lambda>e. lt_seed xof n (fst e) (fst (snd e)) (snd (snd e)) ! i) items)"
  using assms unfolding remove_batch_def
  by (induction items arbitrary: h) (simp_all add: lt_remove_def accumulate_def split_beta diff_diff_eq)

lemma length_batches [simp]:
  "length h = n \<Longrightarrow> length (insert_batch xof n items h) = n"
  "length h = n \<Longrightarrow> length (remove_batch xof n items h) = n"
  unfolding insert_batch_def remove_batch_def
  by (induction items arbitrary: h)
    (simp_all add: lt_insert_def lt_remove_def accumulate_def split_beta)

lemma sum_list_mset_eq:
  "mset xs = mset ys \<Longrightarrow> sum_list (map f xs) = (sum_list (map f ys) :: 'a::comm_monoid_add)"
  by (metis mset_map sum_mset_sum_list)

lemma batches_cancel:
  assumes "length h = n" "mset items = mset items'"
  shows "remove_batch xof n items' (insert_batch xof n items h) = h"
proof (rule nth_equalityI)
  fix i assume "i < length (remove_batch xof n items' (insert_batch xof n items h))"
  with assms show "remove_batch xof n items' (insert_batch xof n items h) ! i = h ! i"
    using sum_list_mset_eq [OF assms(2)]
    by (simp add: nth_remove_batch insert_batch_fold nth_fold_add length_fold_add)
qed (simp add: assms)

text \<open>The fields of an event may be recorded in any order, and an event whose fields are all taken back is
  empty again.\<close>

lemma nth_pdu_fields:
  assumes "length (pdu_inner p) = LT_HASH_LANES" "i < LT_HASH_LANES"
  shows "pdu_inner (fold (\<lambda>(key, val). pdu_insert_field xof key val) kvs p) ! i =
      pdu_inner p ! i + sum_list (map (\<lambda>e. seed_field_lattice xof LT_HASH_LANES (pdu_dst p) (fst e) (snd e) ! i) kvs)"
    "pdu_inner (fold (\<lambda>(key, val). pdu_remove_field xof key val) kvs p) ! i =
      pdu_inner p ! i - sum_list (map (\<lambda>e. seed_field_lattice xof LT_HASH_LANES (pdu_dst p) (fst e) (snd e) ! i) kvs)"
  using assms
  by (induction kvs arbitrary: p)
    (simp_all add: split_beta pdu_insert_field_def pdu_remove_field_def add.assoc diff_diff_eq)

lemma pdu_fields_shape:
  assumes "length (pdu_inner p) = LT_HASH_LANES"
  shows "length (pdu_inner (fold (\<lambda>(key, val). pdu_insert_field xof key val) kvs p)) = LT_HASH_LANES"
    "length (pdu_inner (fold (\<lambda>(key, val). pdu_remove_field xof key val) kvs p)) = LT_HASH_LANES"
    "pdu_dst (fold (\<lambda>(key, val). pdu_insert_field xof key val) kvs p) = pdu_dst p"
  using assms
  by (induction kvs arbitrary: p) (simp_all add: split_beta pdu_insert_field_def pdu_remove_field_def)

lemma pdu_fields_cancel:
  assumes "mset kvs = mset kvs'"
  shows "pdu_is_empty (fold (\<lambda>(key, val). pdu_remove_field xof key val) kvs'
    (fold (\<lambda>(key, val). pdu_insert_field xof key val) kvs (pdu_new dst)))"
proof -
  have new: "length (pdu_inner (pdu_new dst)) = LT_HASH_LANES" by (simp add: pdu_new_def lt_zero_def)
  show ?thesis unfolding pdu_is_empty_def
  proof (rule nth_equalityI)
    fix i assume "i < length (pdu_inner (fold (\<lambda>(key, val). pdu_remove_field xof key val) kvs'
      (fold (\<lambda>(key, val). pdu_insert_field xof key val) kvs (pdu_new dst))))"
    then have i: "i < LT_HASH_LANES" by (simp add: pdu_fields_shape new)
    with sum_list_mset_eq [OF assms] show "pdu_inner (fold (\<lambda>(key, val). pdu_remove_field xof key val) kvs'
        (fold (\<lambda>(key, val). pdu_insert_field xof key val) kvs (pdu_new dst))) ! i = lt_zero LT_HASH_LANES ! i"
      by (simp add: nth_pdu_fields pdu_fields_shape new) (simp add: pdu_new_def)
  qed (simp add: pdu_fields_shape new lt_zero_def)
qed

section \<open>State hashes\<close>

lemma from_state_entries: "om_ok m \<Longrightarrow> from_state xof LANES m = hash_entries xof LANES (om_entries m)"
  by (auto simp: from_state_def om_iter_correct elim: om_ok_cases)

lemma sum_updated:
  fixes f :: "'k::linorder \<times> 'v \<Rightarrow> 'a::ab_group_add"
  assumes "bm_inv es" "old = (case map_of es k of None \<Rightarrow> 0 | Some w \<Rightarrow> f (k, w))"
  shows "sum_list (map f (bm_insert k v es)) = sum_list (map f es) - old + f (k, v)"
    "sum_list (map f (hm_remove k es)) = sum_list (map f es) - old"
proof -
  from assms(1) have "sum_list (map f (bm_insert k v es)) = sum_list (map f es) - old + f (k, v) \<and>
    sum_list (map f (hm_remove k es)) = sum_list (map f es) - old"
  proof (cases rule: binary_search_cases [where key = k])
    case (found A w B)
    have "bm_insert k v es = A @ (k, v) # B" "hm_remove k es = A @ B" "map_of es k = Some w"
      using found(1) bm_insert_below [OF found(3), of v "(k, w) # B"]
        map_of_outside [OF found(3,4), of "[(k, w)]"] hm_remove_outside [OF found(3,4), of "[(k, w)]"]
      by (simp_all add: hm_remove_def)
    then show ?thesis using found(1) assms(2) by (simp add: algebra_simps)
  next
    case (absent A B)
    have "bm_insert k v es = A @ (k, v) # B" "hm_remove k es = es" "map_of es k = None"
      unfolding absent(1) using bm_insert_below [OF absent(3), of v B] bm_insert_above [OF absent(4), of v "[]"]
        map_of_outside [OF absent(3,4), of "[]"] hm_remove_outside [OF absent(3,4), of "[]"]
      by (simp_all add: hm_remove_def)
    then show ?thesis using assms(2) unfolding absent(1) by (simp add: algebra_simps del: map_of_append)
  qed
  then show "sum_list (map f (bm_insert k v es)) = sum_list (map f es) - old + f (k, v)"
    "sum_list (map f (hm_remove k es)) = sum_list (map f es) - old" by auto
qed

lemma hash_entries_insert:
  assumes "bm_inv es"
  shows "hash_entries xof n (bm_insert (t, k) i es) =
    (case map_of es (t, k) of
       None \<Rightarrow> lt_insert xof n t k i (hash_entries xof n es)
     | Some j \<Rightarrow> lt_replace xof n t k j i (hash_entries xof n es))"
proof (rule nth_equalityI, goal_cases)
  case (2 l)
  then have l: "l < n" by simp
  note sum_updated(1) [OF assms refl, where f = "\<lambda>e. entry_seed xof n e ! l" and v = i and k = "(t, k)"]
  with l show ?case
    by (cases "map_of es (t, k)")
      (simp_all add: nth_hash_entries lt_insert_def accumulate_def lt_replace_def)
qed (simp add: lt_insert_def accumulate_def lt_replace_def split: option.split)

lemma hash_entries_remove:
  assumes "bm_inv es"
  shows "hash_entries xof n (hm_remove (t, k) es) =
    (case map_of es (t, k) of
       None \<Rightarrow> hash_entries xof n es
     | Some j \<Rightarrow> lt_remove xof n t k j (hash_entries xof n es))"
proof (rule nth_equalityI, goal_cases)
  case (2 l)
  then have l: "l < n" by simp
  note sum_updated(2) [OF assms refl, where f = "\<lambda>e. entry_seed xof n e ! l" and k = "(t, k)"]
  with l show ?case
    by (cases "map_of es (t, k)") (simp_all add: nth_hash_entries lt_remove_def accumulate_def)
qed (simp add: lt_remove_def accumulate_def split: option.split)

section \<open>Serialization\<close>

lemma char_of_nat_mod: "char_of (n mod 256 :: nat) = (char_of n :: char)"
  by (metis char_of_mod_256)

lemma u16_div: "unat (w :: 16 word) div 256 < 256"
proof -
  have "unat w < 2 ^ 16" by (rule order.strict_trans2 [OF unsigned_less]) simp
  then show ?thesis by simp
qed

lemma u16_le_roundtrip: "u16_from_le_bytes (char_of (unat w)) (char_of (unat w div 256)) = w"
proof -
  have "of_char (char_of (unat w) :: char) + 256 * of_char (char_of (unat w div 256) :: char) = unat w"
    using u16_div [of w] by simp
  then show ?thesis by (simp add: u16_from_le_bytes_def)
qed

lemma u16_to_le_roundtrip: "u16_to_le_bytes (u16_from_le_bytes a b) = [a, b]"
proof -
  have b: "of_char a < (256::nat)" "of_char b < (256::nat)"
    by simp_all
  then have "of_char a + 256 * of_char b < (65536::nat)" by linarith
  then have "unat (u16_from_le_bytes a b) = of_char a + 256 * of_char b"
    unfolding u16_from_le_bytes_def unsigned_of_nat by (simp add: take_bit_eq_mod)
  with b show ?thesis by (simp add: u16_to_le_bytes_def)
qed

lemma length_to_bytes: "length (lt_to_bytes ls) = 2 * length ls"
  by (induction ls) (simp_all add: lt_to_bytes_def u16_to_le_bytes_def)

lemma lanes_of_to_bytes: "lanes_of_bytes (lt_to_bytes ls) = ls"
  by (induction ls) (simp_all add: lt_to_bytes_def u16_to_le_bytes_def u16_le_roundtrip)

lemma lanes_of_bytes_to:
  "even (length bs) \<Longrightarrow> lt_to_bytes (lanes_of_bytes bs) = bs \<and> length (lanes_of_bytes bs) = length bs div 2"
  by (induction bs rule: lanes_of_bytes.induct) (simp_all add: lt_to_bytes_def u16_to_le_roundtrip)

lemma digest_input_eq: "digest_input ls = lt_to_bytes ls"
proof (induction ls rule: digest_input.induct)
  case (1 ls)
  have "lt_to_bytes ls = lt_to_bytes (take 128 ls) @ lt_to_bytes (drop 128 ls)"
    by (metis append_take_drop_id concat_append lt_to_bytes_def map_append)
  with 1 show ?case by (cases "ls = []") (simp_all add: digest_input.simps [of ls] lt_to_bytes_def digest_input.simps [of "[]"])
qed

section \<open>Injective encodings\<close>

lemma u16_le_inj: "u16_to_le_bytes a @ xs = u16_to_le_bytes b @ ys \<longleftrightarrow> a = b \<and> xs = ys"
proof -
  have "a = b" if "char_of (unat a) = (char_of (unat b) :: char)"
    "char_of (unat a div 256) = (char_of (unat b div 256) :: char)"
    using u16_le_roundtrip [of a] u16_le_roundtrip [of b] unfolding that by simp
  then show ?thesis unfolding u16_to_le_bytes_def char_of_nat_mod by auto
qed

lemma length_le_bytes [simp]: "length (le_bytes n k) = n"
  by (induction n arbitrary: k) simp_all

lemma le_value_bytes: "le_value (le_bytes n k) = k mod 256 ^ n"
proof (induction n arbitrary: k)
  case (Suc n)
  then show ?case using mod_mult2_eq [of k 256 "256 ^ n"] by simp
qed simp

lemma le_bytes_value: "le_bytes (length cs) (le_value cs) = cs"
  by (induction cs) simp_all

lemma le_value_less: "le_value cs < 256 ^ length cs"
proof (induction cs)
  case (Cons c cs)
  have "of_char c < (256::nat)" by simp
  then have "of_char c + 256 * le_value cs < 256 * 256 ^ length cs" using Cons by linarith
  then show ?case by simp
qed simp

lemma u32_le_inj: "u32_to_le_bytes a @ xs = u32_to_le_bytes b @ ys \<longleftrightarrow> a = b \<and> xs = ys"
proof -
  have "le_value (u32_to_le_bytes w) = unat w" for w
  proof -
    have "unat w < 2 ^ 32" by (rule order.strict_trans2 [OF unsigned_less]) simp
    then show ?thesis by (simp add: u32_to_le_bytes_def le_value_bytes)
  qed
  then have "a = b" if "u32_to_le_bytes a = u32_to_le_bytes b"
    using that by (metis word_unat_eq_iff)
  then show ?thesis by (auto simp: u32_to_le_bytes_def)
qed

lemma put_str_inj:
  assumes "length s \<le> U16_MAX" "length t \<le> U16_MAX"
  shows "put_str s @ xs = put_str t @ ys \<longleftrightarrow> s = t \<and> xs = ys"
proof -
  have "word_of_nat (length s) = (word_of_nat (length t) :: 16 word) \<longleftrightarrow> length s = length t"
    using assms by (simp add: word_of_nat_eq_iff U16_MAX_def take_bit_eq_mod)
  with assms show ?thesis by (auto simp: put_str_def truncate_to_u16_limit_def u16_le_inj)
qed

lemma put_strs_inj:
  assumes "\<forall>s \<in> set ss \<union> set ts. length s \<le> U16_MAX" "length ss = length ts"
  shows "concat (map put_str ss) @ xs = concat (map put_str ts) @ ys \<longleftrightarrow> ss = ts \<and> xs = ys"
  using assms(2,1) by (induction ss ts rule: list_induct2) (simp_all add: put_str_inj)

lemma put_ids_inj:
  assumes "\<forall>s \<in> set ss \<union> set ts. length s \<le> U16_MAX"
    "length ss \<le> 4294967295" "length ts \<le> 4294967295"
  shows "put_ids ss @ xs = put_ids ts @ ys \<longleftrightarrow> mset ss = mset ts \<and> xs = ys"
proof -
  have len: "word_of_nat (length ss) = (word_of_nat (length ts) :: 32 word) \<longleftrightarrow> length ss = length ts"
    using assms(2,3) by (simp add: word_of_nat_eq_iff take_bit_eq_mod)
  have "sort_by cmp ss = sort_by cmp ts \<longleftrightarrow> mset ss = mset ts"
    using cmp_ord.sort_by_cong [of ss ts] by (metis cmp_simps(2) mset_sort_by)
  with assms len put_strs_inj [of "sort_by cmp ss" "sort_by cmp ts"] show ?thesis
    by (auto simp: put_ids_def Let_def u32_le_inj dest: mset_eq_length)
qed

lemma entry_input_put: "entry_input dst t k i = dst @ put_str t @ put_str k @ i"
  by (simp add: entry_input_def put_str_def split: prod.split)

section \<open>Properties\<close>

text \<open>C31: The hash kept along with a state is the hash of the state. Inserting an entry in the map
  changes the hash from scratch exactly as \<open>insert\<close> does for a new key and as \<open>replace\<close> does for a key that
  was present, with the old value the map returned; removing an entry changes it as \<open>remove\<close> does.\<close>
theorem state_hash_incremental:
  assumes "om_ok m" "om_room m"
  shows "(\<exists>m' old. om_insert (t, k) i m = Inr (m', old) \<and>
      from_state xof n m' =
        (case old of
           None \<Rightarrow> lt_insert xof n t k i (from_state xof n m)
         | Some j \<Rightarrow> lt_replace xof n t k j i (from_state xof n m))) \<and>
    (\<exists>m' old. om_remove unique (t, k) m = Inr (m', old) \<and>
      from_state xof n m' =
        (case old of
           None \<Rightarrow> from_state xof n m
         | Some j \<Rightarrow> lt_remove xof n t k j (from_state xof n m)))"
proof -
  note es = om_sorted [OF assms(1)] and hash = from_state_entries [OF assms(1), of xof n]
  obtain m1 where "om_insert (t, k) i m = Inr (m1, map_of (om_entries m) (t, k))" "om_ok m1"
    "om_entries m1 = bm_insert (t, k) i (om_entries m)"
    using om_insert_correct [OF assms] by blast
  moreover obtain m2 where "om_remove unique (t, k) m = Inr (m2, map_of (om_entries m) (t, k))" "om_ok m2"
    "om_entries m2 = hm_remove (t, k) (om_entries m)"
    using om_remove_correct [OF assms(1)] by blast
  ultimately show ?thesis
    by (simp add: from_state_entries hash hash_entries_insert [OF es] hash_entries_remove [OF es]
        split: option.split)
qed

definition sample_state :: "(string \<times> string, string) ord_map" where
  "sample_state = \<lparr> om_root = Leaf [((''m.room.member'', ''@a''), ''$1''), ((''m.room.name'', []), ''$2'')],
     om_height = 0, om_len = 2 \<rparr>"

theorem state_hash_incremental_witness:
  "\<exists>m' old. om_insert (''m.room.name'', []) ''$3'' sample_state = Inr (m', old) \<and>
    from_state (\<lambda>s i. char_of i) 2 m' =
      (case old of
         None \<Rightarrow> lt_insert (\<lambda>s i. char_of i) 2 ''m.room.name'' [] ''$3'' (from_state (\<lambda>s i. char_of i) 2 sample_state)
       | Some j \<Rightarrow> lt_replace (\<lambda>s i. char_of i) 2 ''m.room.name'' [] j ''$3''
           (from_state (\<lambda>s i. char_of i) 2 sample_state))"
proof -
  have "om_ok sample_state" "om_room sample_state"
    by (simp_all add: sample_state_def om_ok_def om_room_def om_entries_def leaf_ok_def bm_inv_def
        MAX_FANOUT_def U8_MAX_def USIZE_MAX_def)
  then show ?thesis using state_hash_incremental by blast
qed

text \<open>The accumulator is a function of the collection of its elements. Batches with the same entries in
  any order give the same lanes, from any start; removing an inserted batch, in any order, restores the
  start; and the lanes stay as many as they were.\<close>
lemma lattice_collection_hash:
  assumes "length h = n" "mset items = mset items'"
  shows "insert_batch xof n items h = insert_batch xof n items' h \<and>
    remove_batch xof n items' (insert_batch xof n items h) = h \<and>
    length (insert_batch xof n items h) = n"
proof (intro conjI nth_equalityI)
  fix i assume "i < length (insert_batch xof n items h)"
  with assms show "insert_batch xof n items h ! i = insert_batch xof n items' h ! i"
    using sum_list_mset_eq [OF assms(2)] by (simp add: insert_batch_fold nth_fold_add length_fold_add)
qed (use assms batches_cancel in simp_all)

lemma lattice_collection_hash_witness:
  "insert_batch (\<lambda>s i. char_of (length s)) 3 [(''a'', ''b'', ''c''), (''d'', [], ''e'')] (lt_zero 3) =
     insert_batch (\<lambda>s i. char_of (length s)) 3 [(''d'', [], ''e''), (''a'', ''b'', ''c'')] (lt_zero 3)"
  using lattice_collection_hash
    [of "lt_zero 3" 3 "[(''a'', ''b'', ''c''), (''d'', [], ''e'')]" "[(''d'', [], ''e''), (''a'', ''b'', ''c'')]"]
  by (simp add: lt_zero_def add_mset_commute)

text \<open>C32: The bytes an element is expanded from determine the element, when its strings are within the 16-bit
  length prefix: two state entries with the same bytes are the same entry, and two resolution input
  records with the same bytes agree on event, slot, and on both lists of references up to order.\<close>
theorem element_encoding_injective:
  assumes "\<forall>s \<in> {t, k, t', k', ri_event_id r, ri_event_type r, ri_state_key r, ri_event_id r',
        ri_event_type r', ri_state_key r'} \<union> set (ri_auth_events r) \<union> set (ri_state_predecessors r) \<union>
        set (ri_auth_events r') \<union> set (ri_state_predecessors r'). length s \<le> U16_MAX"
    and "\<forall>ids \<in> {ri_auth_events r, ri_state_predecessors r, ri_auth_events r', ri_state_predecessors r'}.
      length ids \<le> 4294967295"
  shows "(entry_input dst t k i = entry_input dst t' k' i' \<longleftrightarrow> (t, k, i) = (t', k', i')) \<and>
    (encode_record r = encode_record r' \<longleftrightarrow>
      ri_event_id r = ri_event_id r' \<and> ri_event_type r = ri_event_type r' \<and>
      ri_state_key r = ri_state_key r' \<and> mset (ri_auth_events r) = mset (ri_auth_events r') \<and>
      mset (ri_state_predecessors r) = mset (ri_state_predecessors r'))"
proof -
  have "put_ids (ri_state_predecessors r) = put_ids (ri_state_predecessors r') \<longleftrightarrow>
      mset (ri_state_predecessors r) = mset (ri_state_predecessors r')"
    using put_ids_inj [of "ri_state_predecessors r" "ri_state_predecessors r'" "[]" "[]"] assms by auto
  moreover have "put_ids (ri_auth_events r) @ xs = put_ids (ri_auth_events r') @ ys \<longleftrightarrow>
      mset (ri_auth_events r) = mset (ri_auth_events r') \<and> xs = ys" for xs ys
    by (rule put_ids_inj) (use assms in auto)
  ultimately show ?thesis using assms by (simp add: entry_input_put encode_record_def put_str_inj)
qed

definition sample_input_record :: "string list \<Rightarrow> resolution_input_record" where
  "sample_input_record auth =
     \<lparr> ri_event_id = ''$1'', ri_event_type = ''m.room.name'', ri_state_key = [], ri_auth_events = auth,
       ri_state_predecessors = [''$0''] \<rparr>"

theorem element_encoding_injective_witness:
  "encode_record (sample_input_record [''$a'', ''$b'']) = encode_record (sample_input_record [''$b'', ''$a'']) \<and>
   entry_input LT_DST ''a'' ''bc'' ''d'' \<noteq> entry_input LT_DST ''ab'' ''c'' ''d''"
  using element_encoding_injective [of "''a''" "''bc''" "''ab''" "''c''" "sample_input_record [''$a'', ''$b'']"
      "sample_input_record [''$b'', ''$a'']" LT_DST "''d''" "''d''"]
  by (simp add: sample_input_record_def U16_MAX_def add_mset_commute)

text \<open>The serialized accumulator is read back: \<open>to_bytes\<close> and \<open>from_bytes\<close> are inverse to each other,
  \<open>try_from\<close> reports a wrong length with the two lengths, and the digest is that of the serialized
  lanes although it is computed in windows.\<close>
lemma lattice_bytes_roundtrip:
  "lt_from_bytes (length ls) (lt_to_bytes ls) = Some ls \<and>
   (lt_from_bytes n bs = Some ls' \<longleftrightarrow> length ls' = n \<and> lt_to_bytes ls' = bs) \<and>
   lt_try_from n bs =
     (if length bs = 2 * n then Inr (lanes_of_bytes bs)
      else Inl \<lparr> wl_expected = n * 2, wl_found = length bs \<rparr>) \<and>
   lattice_digest blake3 ls = blake3 (lt_to_bytes ls)"
  using lanes_of_bytes_to [of bs] length_to_bytes [of ls']
  by (auto simp: lt_from_bytes_def lanes_of_to_bytes length_to_bytes lt_try_from_def lattice_digest_def
      digest_input_eq mult.commute)

end
