(* ===== verification/Hamt_Codec.thy ===== *)
theory Hamt_Codec
  imports Lt_Lattice Json_Parse Event_Type
begin

text \<open>
  The dense binary format of trie nodes, \<open>src/src/hamt/codec.rs\<close>. An implementation of the trait
  \<open>HamtCodec\<close> is a record of its two functions: \<open>encode_hamt\<close>, whose \<open>None\<close> is a panic, and
  \<open>decode_hamt\<close>, from a buffer and a cursor to the value and the new cursor. A structural hash is
  the string of its 32 bytes.
\<close>

unbundle bit_operations_syntax

section \<open>Reading from a buffer\<close>

type_synonym structural_hash = string

record 'a hamt_codec =
  encode_hamt :: "'a \<Rightarrow> string option"
  decode_hamt :: "string \<Rightarrow> nat \<Rightarrow> (string, 'a \<times> nat) result"

definition HAMT_NODE_MAGIC :: string where
  "HAMT_NODE_MAGIC = ''MTHN''"

definition HAMT_WIRE_VERSION :: char where
  "HAMT_WIRE_VERSION = CHR 0x01"

definition count_ones :: "32 word \<Rightarrow> nat" where
  "count_ones w = length (filter (bit w) [0..<32])"

definition read_fixed :: "nat \<Rightarrow> string \<Rightarrow> nat \<Rightarrow> (string, string \<times> nat) result" where
  "read_fixed n input cursor =
     (let e = cursor + n
      in if e > USIZE_MAX then Inl ''HAMT codec cursor overflow''
         else if e \<le> length input then Inr (take n (drop cursor input), e)
         else Inl ''HAMT codec buffer too short'')"

definition read_len_prefixed :: "string \<Rightarrow> nat \<Rightarrow> (string, string \<times> nat) result" where
  "read_len_prefixed input cursor =
     rbind (read_fixed 4 input cursor) (\<lambda>(raw, cursor). read_fixed (le_value raw) input cursor)"

section \<open>Codecs of the leaf payloads\<close>

text \<open>The fixed-width integers, in \<open>n\<close> bytes.\<close>

definition le_codec :: "nat \<Rightarrow> 'a::len word hamt_codec" where
  "le_codec n = \<lparr>
     encode_hamt = (\<lambda>w. Some (le_bytes n (unat w))),
     decode_hamt = (\<lambda>input cursor. rbind (read_fixed n input cursor)
       (\<lambda>(raw, cursor). Inr (word_of_nat (le_value raw), cursor))) \<rparr>"

text \<open>Pointers are 64 bits wide, so the conversion from \<open>u64\<close> does not fail.\<close>

definition usize_codec :: "nat hamt_codec" where
  "usize_codec = \<lparr>
     encode_hamt = (\<lambda>n. Some (le_bytes 8 n)),
     decode_hamt = (\<lambda>input cursor. rbind (read_fixed 8 input cursor)
       (\<lambda>(raw, cursor). if le_value raw \<le> USIZE_MAX then Inr (le_value raw, cursor)
                        else Inl ''HAMT codec usize out of range'')) \<rparr>"

definition bool_codec :: "bool hamt_codec" where
  "bool_codec = \<lparr>
     encode_hamt = (\<lambda>b. Some [if b then CHR 0x01 else CHR 0x00]),
     decode_hamt = (\<lambda>input cursor.
       if cursor + 1 > USIZE_MAX then Inl ''HAMT codec cursor overflow''
       else if length input \<le> cursor then Inl ''HAMT codec buffer too short''
       else if input ! cursor = CHR 0x00 then Inr (False, cursor + 1)
       else if input ! cursor = CHR 0x01 then Inr (True, cursor + 1)
       else Inl ''HAMT codec invalid bool encoding'') \<rparr>"

definition encode_len_prefixed :: "string \<Rightarrow> string option" where
  "encode_len_prefixed s =
     (if length s < 2 ^ 32 then Some (u32_to_le_bytes (word_of_nat (length s)) @ s) else None)"

definition string_codec :: "string hamt_codec" where
  "string_codec = \<lparr>
     encode_hamt = encode_len_prefixed,
     decode_hamt = (\<lambda>input cursor. rbind (read_len_prefixed input cursor)
       (\<lambda>(s, cursor). if utf8_valid s then Inr (s, cursor) else Inl ''HAMT codec invalid UTF-8'')) \<rparr>"

definition bytes_codec :: "string hamt_codec" where
  "bytes_codec = \<lparr> encode_hamt = encode_len_prefixed, decode_hamt = read_len_prefixed \<rparr>"

definition pair_codec :: "'a hamt_codec \<Rightarrow> 'b hamt_codec \<Rightarrow> ('a \<times> 'b) hamt_codec" where
  "pair_codec ca cb = \<lparr>
     encode_hamt = (\<lambda>(a, b). case (encode_hamt ca a, encode_hamt cb b) of
       (Some x, Some y) \<Rightarrow> Some (x @ y) | _ \<Rightarrow> None),
     decode_hamt = (\<lambda>input cursor. rbind (decode_hamt ca input cursor)
       (\<lambda>(a, cursor). rbind (decode_hamt cb input cursor) (\<lambda>(b, cursor). Inr ((a, b), cursor)))) \<rparr>"

definition event_type_codec :: "event_type hamt_codec" where
  "event_type_codec = \<lparr>
     encode_hamt = (\<lambda>t. encode_len_prefixed (event_type_as_str t)),
     decode_hamt = (\<lambda>input cursor. rbind (decode_hamt string_codec input cursor)
       (\<lambda>(s, cursor). Inr (event_type_from s, cursor))) \<rparr>"

section \<open>Nodes\<close>

record ('k, 'v) persisted_internal_node =
  pn_datamap :: "32 word"
  pn_nodemap :: "32 word"
  pn_leaves :: "('k \<times> 'v) list"
  pn_child_hashes :: "structural_hash list"

text \<open>The leaves in turn; \<open>None\<close> is a panic of one of the codecs.\<close>

primrec encode_leaves :: "'k hamt_codec \<Rightarrow> 'v hamt_codec \<Rightarrow> ('k \<times> 'v) list \<Rightarrow> string option" where
  "encode_leaves ck cv [] = Some []"
| "encode_leaves ck cv (e # es) =
     (case (encode_hamt ck (fst e), encode_hamt cv (snd e), encode_leaves ck cv es) of
        (Some x, Some y, Some body) \<Rightarrow> Some (x @ y @ body)
      | _ \<Rightarrow> None)"

definition encode_v1_parts ::
  "'k hamt_codec \<Rightarrow> 'v hamt_codec \<Rightarrow> 32 word \<Rightarrow> 32 word \<Rightarrow> ('k \<times> 'v) list \<Rightarrow> structural_hash list
    \<Rightarrow> string option" where
  "encode_v1_parts ck cv datamap nodemap leaves child_hashes =
     (if length leaves = count_ones datamap \<and> length child_hashes = count_ones nodemap \<and>
         datamap AND nodemap = 0
      then map_option (\<lambda>body.
          HAMT_NODE_MAGIC @ [HAMT_WIRE_VERSION] @ u32_to_le_bytes datamap @ u32_to_le_bytes nodemap @
          u32_to_le_bytes (word_of_nat (length leaves)) @
          u32_to_le_bytes (word_of_nat (length child_hashes)) @ body @ concat child_hashes)
        (encode_leaves ck cv leaves)
      else None)"

definition encode_v1 ::
  "'k hamt_codec \<Rightarrow> 'v hamt_codec \<Rightarrow> ('k, 'v) persisted_internal_node \<Rightarrow> string option" where
  "encode_v1 ck cv n =
     encode_v1_parts ck cv (pn_datamap n) (pn_nodemap n) (pn_leaves n) (pn_child_hashes n)"

definition read_u32 :: "string \<Rightarrow> string \<Rightarrow> nat \<Rightarrow> (string, 32 word \<times> nat) result" where
  "read_u32 msg buf cursor =
     rbind (map_err (\<lambda>_. msg) (read_fixed 4 buf cursor))
       (\<lambda>(raw, cursor). Inr (word_of_nat (le_value raw), cursor))"

definition decode_node_header ::
  "string \<Rightarrow> nat \<Rightarrow> (string, 32 word \<times> 32 word \<times> nat \<times> nat) result" where
  "decode_node_header buf datamap_start =
     rbind (read_u32 ''Buffer too short for datamap'' buf datamap_start) (\<lambda>(datamap, cursor).
     rbind (read_u32 ''Buffer too short for nodemap'' buf cursor) (\<lambda>(nodemap, cursor).
     if datamap AND nodemap \<noteq> 0 then Inl ''Datamap and nodemap overlap: node is corrupt''
     else
     rbind (read_u32 ''Buffer too short for leaf count'' buf cursor) (\<lambda>(leaf_count, cursor).
     rbind (read_u32 ''Buffer too short for child count'' buf cursor) (\<lambda>(child_count, cursor).
     if unat leaf_count \<noteq> count_ones datamap then Inl ''Leaf count does not match datamap''
     else if unat child_count \<noteq> count_ones nodemap then Inl ''Child count does not match nodemap''
     else Inr (datamap, nodemap, unat leaf_count, unat child_count)))))"

primrec decode_leaves ::
  "'k hamt_codec \<Rightarrow> 'v hamt_codec \<Rightarrow> string \<Rightarrow> nat \<Rightarrow> nat \<Rightarrow> (string, ('k \<times> 'v) list \<times> nat) result" where
  "decode_leaves ck cv buf 0 cursor = Inr ([], cursor)"
| "decode_leaves ck cv buf (Suc n) cursor =
     rbind (decode_hamt ck buf cursor) (\<lambda>(key, cursor).
     rbind (decode_hamt cv buf cursor) (\<lambda>(val, cursor).
     rbind (decode_leaves ck cv buf n cursor) (\<lambda>(es, cursor). Inr ((key, val) # es, cursor))))"

definition check_child_payload :: "string \<Rightarrow> nat \<Rightarrow> nat \<Rightarrow> nat \<Rightarrow> (string, unit) result" where
  "check_child_payload buf cursor child_count width =
     (let total_len = cursor + child_count * width
      in if total_len > USIZE_MAX then Inl ''Child hash payload size overflows usize''
         else if length buf < total_len then Inl ''Buffer too short for child hashes''
         else if length buf > total_len then Inl ''Buffer contains trailing bytes''
         else Inr ())"

text \<open>After the check of the payload the slices of the child hashes are within the buffer.\<close>

definition decode_v1_unverified ::
  "'k hamt_codec \<Rightarrow> 'v hamt_codec \<Rightarrow> string \<Rightarrow> (string, ('k, 'v) persisted_internal_node) result" where
  "decode_v1_unverified ck cv buf =
     (if length buf < 4 \<or> take 4 buf \<noteq> HAMT_NODE_MAGIC then Inl ''Invalid HAMT node magic''
      else if length buf \<le> 4 \<or> buf ! 4 \<noteq> HAMT_WIRE_VERSION then Inl ''Invalid version byte''
      else if length buf < 21 then Inl ''Buffer too short for v1 header''
      else
      rbind (decode_node_header buf 5) (\<lambda>(datamap, nodemap, leaf_count, child_count).
      rbind (decode_leaves ck cv buf leaf_count 21) (\<lambda>(leaves, cursor).
      ok_then (check_child_payload buf cursor child_count 32)
        (Inr \<lparr> pn_datamap = datamap, pn_nodemap = nodemap, pn_leaves = leaves,
               pn_child_hashes = map (\<lambda>i. take 32 (drop (cursor + i * 32) buf)) [0..<child_count] \<rparr>))))"

definition LEGACY_HASH_WIDTH :: nat where
  "LEGACY_HASH_WIDTH = 16"

definition decode_v1_legacy_unverified ::
  "'k hamt_codec \<Rightarrow> 'v hamt_codec \<Rightarrow> string \<Rightarrow> (string, ('k, 'v) persisted_internal_node) result" where
  "decode_v1_legacy_unverified ck cv buf =
     (if buf = [] \<or> hd buf \<noteq> HAMT_WIRE_VERSION then Inl ''Invalid version byte''
      else if length buf < 17 then Inl ''Buffer too short for v1 header''
      else
      rbind (decode_node_header buf 1) (\<lambda>(datamap, nodemap, leaf_count, child_count).
      rbind (decode_leaves ck cv buf leaf_count 17) (\<lambda>(leaves, cursor).
      ok_then (check_child_payload buf cursor child_count LEGACY_HASH_WIDTH)
        (Inr \<lparr> pn_datamap = datamap, pn_nodemap = nodemap, pn_leaves = leaves,
               pn_child_hashes = map (\<lambda>i.
                 take LEGACY_HASH_WIDTH (drop (cursor + i * LEGACY_HASH_WIDTH) buf) @
                 replicate 16 (CHR 0x00)) [0..<child_count] \<rparr>))))"

end
