(* ===== verification/Hamt_Node.thy ===== *)
theory Hamt_Node
  imports Hamt_Codec
begin

text \<open>
  The hash array mapped trie, \<open>src/src/hamt/mod.rs\<close>: a 32-way compressed prefix trie whose nodes are
  identified by a structural hash of their contents. A child is in memory or only known by its hash, in
  which case the caller's \<open>resolver\<close> loads it. The parts that callers supply are parameters: BLAKE3 and
  the codecs of keys and values (\<open>hamt_params\<close>), the routing hash \<open>key_hash\<close> and the resolver. A panic is the
  failure \<open>Panicked\<close>; the mutations return the nodes they hand to the sink, in order.
\<close>

unbundle bit_operations_syntax

section \<open>Nodes and their hashes\<close>

record ('k, 'v) hamt_params =
  hp_blake3 :: "string \<Rightarrow> string"
  hp_key :: "'k hamt_codec"
  hp_value :: "'v hamt_codec"

datatype 'e failure = Panicked panic | Failed 'e

datatype ('k, 'v) hamt_node =
    HamtNode (hn_datamap: "32 word") (hn_nodemap: "32 word") (hn_leaves: "('k \<times> 'v) list")
      (hn_children: "('k, 'v) node_ref list") (hn_hash: structural_hash)
and ('k, 'v) node_ref = Resolved "('k, 'v) hamt_node" | Lazy structural_hash

type_synonym ('k, 'v, 'e) resolver = "structural_hash \<Rightarrow> ('e, ('k, 'v) hamt_node) result"

definition ref_hash :: "('k, 'v) node_ref \<Rightarrow> structural_hash" where
  "ref_hash r = (case r of Resolved n \<Rightarrow> hn_hash n | Lazy h \<Rightarrow> h)"

definition STRUCTURAL_HASH_DOMAIN_V1 :: string where
  "STRUCTURAL_HASH_DOMAIN_V1 = ''rezzy:hamt:structural-hash:v1'' @ [CHR 0x00]"

definition HAMT_BRANCH_BITS :: nat where
  "HAMT_BRANCH_BITS = 5"

definition HAMT_BRANCH_FACTOR :: nat where
  "HAMT_BRANCH_FACTOR = 2 ^ HAMT_BRANCH_BITS"

definition HAMT_BRANCH_MASK :: "16 word" where
  "HAMT_BRANCH_MASK = 31"

definition HAMT_MAX_DEPTH :: nat where
  "HAMT_MAX_DEPTH = (32 * 8 + (HAMT_BRANCH_BITS - 1)) div HAMT_BRANCH_BITS"

text \<open>What \<open>StructuralHashBuilder::new\<close> feeds the hasher first.\<close>

definition hash_prefix :: "string \<Rightarrow> string" where
  "hash_prefix key = le_bytes 8 (length key) @ key"

definition key_path_hash :: "(string \<Rightarrow> string) \<Rightarrow> string \<Rightarrow> string \<Rightarrow> structural_hash" where
  "key_path_hash blake3 structural_key key_bytes = blake3 (hash_prefix structural_key @ key_bytes)"

definition compute_structural_hash ::
  "('k, 'v) hamt_params \<Rightarrow> string \<Rightarrow> 32 word \<Rightarrow> 32 word \<Rightarrow> ('k \<times> 'v) list \<Rightarrow> ('k, 'v) node_ref list
    \<Rightarrow> (panic, structural_hash) result" where
  "compute_structural_hash P key datamap nodemap leaves children =
     rbind (ok_or (Expect_failed ''encode_v1_parts'')
         (encode_v1_parts (hp_key P) (hp_value P) datamap nodemap leaves (map ref_hash children)))
       (\<lambda>canonical_bytes.
         Inr (hp_blake3 P (hash_prefix key @ STRUCTURAL_HASH_DOMAIN_V1 @ canonical_bytes)))"

definition rebuild_node ::
  "('k, 'v) hamt_params \<Rightarrow> string \<Rightarrow> 32 word \<Rightarrow> 32 word \<Rightarrow> ('k \<times> 'v) list \<Rightarrow> ('k, 'v) node_ref list
    \<Rightarrow> (panic, ('k, 'v) hamt_node) result" where
  "rebuild_node P key datamap nodemap leaves children =
     rbind (compute_structural_hash P key datamap nodemap leaves children)
       (\<lambda>h. Inr (HamtNode datamap nodemap leaves children h))"

definition node_is_vacant :: "('k, 'v) hamt_node \<Rightarrow> bool" where
  "node_is_vacant n \<longleftrightarrow> hn_datamap n = 0 \<and> hn_nodemap n = 0"

section \<open>Slots\<close>

definition LOWER_SLOT_MASKS :: "32 word list" where
  "LOWER_SLOT_MASKS =
    [0x00000000, 0x00000001, 0x00000003, 0x00000007, 0x0000000f, 0x0000001f, 0x0000003f, 0x0000007f,
     0x000000ff, 0x000001ff, 0x000003ff, 0x000007ff, 0x00000fff, 0x00001fff, 0x00003fff, 0x00007fff,
     0x0000ffff, 0x0001ffff, 0x0003ffff, 0x0007ffff, 0x000fffff, 0x001fffff, 0x003fffff, 0x007fffff,
     0x00ffffff, 0x01ffffff, 0x03ffffff, 0x07ffffff, 0x0fffffff, 0x1fffffff, 0x3fffffff, 0x7fffffff]"

definition lower_slot_mask :: "nat \<Rightarrow> 32 word" where
  "lower_slot_mask slot = (case vec_get LOWER_SLOT_MASKS slot of Some m \<Rightarrow> m | None \<Rightarrow> 0xffffffff)"

definition map_index :: "32 word \<Rightarrow> nat \<Rightarrow> nat" where
  "map_index bitmap slot = count_ones (bitmap AND lower_slot_mask slot)"

definition slot_bit :: "nat \<Rightarrow> 32 word" where
  "slot_bit slot = push_bit slot 1"

text \<open>A hash has 32 bytes and a depth is below \<open>HAMT_MAX_DEPTH\<close>, so the first byte exists.\<close>

definition bucket_index :: "structural_hash \<Rightarrow> nat \<Rightarrow> nat" where
  "bucket_index hash depth =
     (let bit_offset = depth * HAMT_BRANCH_BITS;
          byte_index = bit_offset div 8;
          bit_shift = bit_offset mod 8;
          low = (of_char (hash ! byte_index) :: 16 word);
          word = (if byte_index + 1 < length hash
                  then low OR push_bit 8 (of_char (hash ! (byte_index + 1))) else low)
      in unat (drop_bit bit_shift word AND HAMT_BRANCH_MASK))"

datatype ('k, 'v) hamt_slot = SlotLeaf 'k 'v | SlotChild "('k, 'v) node_ref" | SlotEmpty

definition vec_index :: "'a list \<Rightarrow> nat \<Rightarrow> (panic, 'a) result" where
  "vec_index xs i = ok_or Index_out_of_bounds (vec_get xs i)"

definition slot_at :: "('k, 'v) hamt_node \<Rightarrow> structural_hash \<Rightarrow> nat \<Rightarrow> (panic, ('k, 'v) hamt_slot) result" where
  "slot_at n path_hash depth =
     (let slot = bucket_index path_hash depth; b = slot_bit slot
      in if hn_datamap n AND b \<noteq> 0
         then rbind (vec_index (hn_leaves n) (map_index (hn_datamap n) slot)) (\<lambda>(k, v). Inr (SlotLeaf k v))
         else if hn_nodemap n AND b \<noteq> 0
         then rbind (vec_index (hn_children n) (map_index (hn_nodemap n) slot)) (\<lambda>r. Inr (SlotChild r))
         else Inr SlotEmpty)"

section \<open>Lookup\<close>

function get_by_path_hash_inner ::
  "('k, 'v) hamt_node \<Rightarrow> 'k \<Rightarrow> structural_hash \<Rightarrow> nat \<Rightarrow> (panic, 'v option) result" where
  "get_by_path_hash_inner n key path_hash depth =
     (if depth \<ge> HAMT_MAX_DEPTH then Inr None
      else case slot_at n path_hash depth of
        Inl p \<Rightarrow> Inl p
      | Inr (SlotLeaf stored_key val) \<Rightarrow> Inr (if stored_key = key then Some val else None)
      | Inr (SlotChild (Resolved child)) \<Rightarrow> get_by_path_hash_inner child key path_hash (Suc depth)
      | Inr (SlotChild (Lazy h)) \<Rightarrow> Inr None
      | Inr SlotEmpty \<Rightarrow> Inr None)"
  by pat_completeness auto
termination
  by (relation "measure (\<lambda>(_, _, _, depth). HAMT_MAX_DEPTH - depth)") auto

declare get_by_path_hash_inner.simps [simp del]

definition get_by_path_hash ::
  "('k, 'v) hamt_node \<Rightarrow> 'k \<Rightarrow> structural_hash \<Rightarrow> (panic, 'v option) result" where
  "get_by_path_hash n key path_hash = get_by_path_hash_inner n key path_hash 0"

definition get_with_key_hash ::
  "('k, 'v) hamt_node \<Rightarrow> 'k \<Rightarrow> ('k \<Rightarrow> structural_hash) \<Rightarrow> (panic, 'v option) result" where
  "get_with_key_hash n key key_hash = get_by_path_hash n key (key_hash key)"

function search_loop ::
  "('k, 'v, 'e) resolver \<Rightarrow> 'k \<Rightarrow> structural_hash \<Rightarrow> ('k, 'v) hamt_node \<Rightarrow> nat
    \<Rightarrow> ('e failure, 'v option) result" where
  "search_loop resolver key path_hash n depth =
     (if depth \<ge> HAMT_MAX_DEPTH then Inr None
      else case slot_at n path_hash depth of
        Inl p \<Rightarrow> Inl (Panicked p)
      | Inr (SlotLeaf stored_key val) \<Rightarrow> Inr (if stored_key = key then Some val else None)
      | Inr (SlotChild (Resolved child)) \<Rightarrow> search_loop resolver key path_hash child (Suc depth)
      | Inr (SlotChild (Lazy h)) \<Rightarrow>
          (case resolver h of
             Inl e \<Rightarrow> Inl (Failed e)
           | Inr child \<Rightarrow> search_loop resolver key path_hash child (Suc depth))
      | Inr SlotEmpty \<Rightarrow> Inr None)"
  by pat_completeness auto
termination
  by (relation "measure (\<lambda>(_, _, _, _, depth). HAMT_MAX_DEPTH - depth)") auto

declare search_loop.simps [simp del]

definition search_by_path_hash ::
  "('k, 'v) hamt_node \<Rightarrow> 'k \<Rightarrow> structural_hash \<Rightarrow> ('k, 'v, 'e) resolver \<Rightarrow> ('e failure, 'v option) result" where
  "search_by_path_hash n key path_hash resolver = search_loop resolver key path_hash n 0"

definition search_with_key_hash ::
  "('k, 'v) hamt_node \<Rightarrow> 'k \<Rightarrow> ('k \<Rightarrow> structural_hash) \<Rightarrow> ('k, 'v, 'e) resolver
    \<Rightarrow> ('e failure, 'v option) result" where
  "search_with_key_hash n key key_hash resolver = search_by_path_hash n key (key_hash key) resolver"

section \<open>Building\<close>

datatype hamt_build_error = BuildHashCollision nat nat

record ('k, 'v) build_entry =
  be_key :: 'k
  be_value :: 'v
  be_path_hash :: structural_hash

definition push_bucket ::
  "nat \<Rightarrow> ('k, 'v) build_entry \<Rightarrow> ('k, 'v) build_entry list list \<Rightarrow> ('k, 'v) build_entry list list" where
  "push_bucket depth e buckets =
     (let slot = bucket_index (be_path_hash e) depth in buckets[slot := buckets ! slot @ [e]])"

definition fill_buckets ::
  "nat \<Rightarrow> ('k, 'v) build_entry list \<Rightarrow> ('k, 'v) build_entry list list" where
  "fill_buckets depth entries = fold (push_bucket depth) entries (replicate HAMT_BRANCH_FACTOR [])"

type_synonym ('k, 'v) node_parts = "32 word \<times> 32 word \<times> ('k \<times> 'v) list \<times> ('k, 'v) node_ref list"

function build_node ::
    "('k, 'v) hamt_params \<Rightarrow> string \<Rightarrow> ('k, 'v) build_entry list \<Rightarrow> nat
      \<Rightarrow> (hamt_build_error failure, ('k, 'v) hamt_node) result"
  and build_slots ::
    "('k, 'v) hamt_params \<Rightarrow> string \<Rightarrow> nat \<Rightarrow> (nat \<times> ('k, 'v) build_entry list) list \<Rightarrow> ('k, 'v) node_parts
      \<Rightarrow> (hamt_build_error failure, ('k, 'v) node_parts) result" where
  "build_node P key entries depth =
     (if depth \<ge> HAMT_MAX_DEPTH then Inl (Failed (BuildHashCollision depth (length entries)))
      else rbind (build_slots P key depth (enumerate 0 (fill_buckets depth entries)) (0, 0, [], []))
        (\<lambda>(datamap, nodemap, leaves, children).
          map_err Panicked (rebuild_node P key datamap nodemap leaves children)))"
| "build_slots P key depth [] parts = Inr parts"
| "build_slots P key depth ((slot, bucket) # rest) (datamap, nodemap, leaves, children) =
     (case bucket of
        [] \<Rightarrow> build_slots P key depth rest (datamap, nodemap, leaves, children)
      | [e] \<Rightarrow> build_slots P key depth rest
          (datamap OR slot_bit slot, nodemap, leaves @ [(be_key e, be_value e)], children)
      | _ \<Rightarrow>
          if Suc depth \<ge> HAMT_MAX_DEPTH then Inl (Failed (BuildHashCollision depth (length bucket)))
          else rbind (build_node P key bucket (Suc depth)) (\<lambda>child.
            build_slots P key depth rest
              (datamap, nodemap OR slot_bit slot, leaves, children @ [Resolved child])))"
  by pat_completeness auto
termination
  by (relation "measures [\<lambda>x. case x of Inl (_, _, _, depth) \<Rightarrow> HAMT_MAX_DEPTH - depth
                                 | Inr (_, _, depth, _, _) \<Rightarrow> HAMT_MAX_DEPTH - depth,
                          \<lambda>x. case x of Inl _ \<Rightarrow> 1 | Inr _ \<Rightarrow> 0,
                          \<lambda>x. case x of Inl _ \<Rightarrow> 0 | Inr (_, _, _, slots, _) \<Rightarrow> length slots]") auto

declare build_node.simps [simp del]

definition build_hamt_with_key_hash ::
  "('k, 'v) hamt_params \<Rightarrow> string \<Rightarrow> ('k \<times> 'v) list \<Rightarrow> ('k \<Rightarrow> structural_hash)
    \<Rightarrow> (hamt_build_error failure, ('k, 'v) hamt_node) result" where
  "build_hamt_with_key_hash P structural_key entries key_hash =
     build_node P structural_key
       (map (\<lambda>(k, v). \<lparr> be_key = k, be_value = v, be_path_hash = key_hash k \<rparr>) entries) 0"

section \<open>Insertion\<close>

datatype 'e hamt_mutate_error = HashCollision nat nat | MaxDepthExceeded nat | Resolve 'e

definition from_build_error :: "hamt_build_error failure \<Rightarrow> 'e hamt_mutate_error failure" where
  "from_build_error err = (case err of
       Panicked p \<Rightarrow> Panicked p
     | Failed (BuildHashCollision depth bucket_size) \<Rightarrow> Failed (HashCollision depth bucket_size))"

definition resolve_child_ref ::
  "('k, 'v, 'e) resolver \<Rightarrow> ('k, 'v) node_ref \<Rightarrow> ('e hamt_mutate_error failure, ('k, 'v) hamt_node) result" where
  "resolve_child_ref resolver r = (case r of
       Resolved child \<Rightarrow> Inr child
     | Lazy h \<Rightarrow> map_err (\<lambda>e. Failed (Resolve e)) (resolver h))"

text \<open>The nodes below a freshly split child, parents first.\<close>

fun split_nodes :: "('k, 'v) hamt_node \<Rightarrow> ('k, 'v) hamt_node list"
  and split_nodes_ref :: "('k, 'v) node_ref \<Rightarrow> ('k, 'v) hamt_node list" where
  "split_nodes (HamtNode dm nm lvs chs h) =
     HamtNode dm nm lvs chs h # concat (map split_nodes_ref chs)"
| "split_nodes_ref (Resolved n) = split_nodes n"
| "split_nodes_ref (Lazy h) = []"

type_synonym ('k, 'v) mutated = "('k, 'v) hamt_node \<times> 'v option \<times> ('k, 'v) hamt_node list"

definition rebuild_with_child ::
  "('k, 'v) hamt_params \<Rightarrow> string \<Rightarrow> ('k, 'v) hamt_node \<Rightarrow> nat \<Rightarrow> ('k, 'v) hamt_node
    \<Rightarrow> (panic, ('k, 'v) hamt_node) result" where
  "rebuild_with_child P key n idx new_child =
     (if idx < length (hn_children n)
      then rebuild_node P key (hn_datamap n) (hn_nodemap n) (hn_leaves n)
        ((hn_children n)[idx := Resolved new_child])
      else Inl Index_out_of_bounds)"

text \<open>The leaf arm of \<open>insert_into_occupied_slot\<close>: the leaf and the new entry move to a new child.\<close>

definition split_leaf ::
  "('k, 'v) hamt_params \<Rightarrow> string \<Rightarrow> ('k \<Rightarrow> structural_hash) \<Rightarrow> ('k, 'v) hamt_node \<Rightarrow> 'k \<Rightarrow> 'v
    \<Rightarrow> structural_hash \<Rightarrow> nat \<Rightarrow> nat \<Rightarrow> ('e hamt_mutate_error failure, ('k, 'v) mutated) result" where
  "split_leaf P skey key_hash n key val path_hash slot next_depth =
     (let idx = map_index (hn_datamap n) slot
      in rbind (map_err Panicked (vec_index (hn_leaves n) idx)) (\<lambda>(existing_key, existing_value).
         rbind (map_err from_build_error (build_node P skey
             [\<lparr> be_key = existing_key, be_value = existing_value, be_path_hash = key_hash existing_key \<rparr>,
              \<lparr> be_key = key, be_value = val, be_path_hash = path_hash \<rparr>] next_depth)) (\<lambda>child.
         let new_datamap = hn_datamap n AND NOT (slot_bit slot);
             new_nodemap = hn_nodemap n OR slot_bit slot
         in rbind (map_err Panicked (rebuild_node P skey new_datamap new_nodemap
               (vec_remove idx (hn_leaves n))
               (vec_insert (map_index new_nodemap slot) (Resolved child) (hn_children n))))
             (\<lambda>new_node. Inr (new_node, None, split_nodes child @ [new_node])))))"

function insert_node ::
  "('k, 'v) hamt_params \<Rightarrow> string \<Rightarrow> ('k \<Rightarrow> structural_hash) \<Rightarrow> ('k, 'v, 'e) resolver \<Rightarrow> 'k \<Rightarrow> 'v
    \<Rightarrow> structural_hash \<Rightarrow> ('k, 'v) hamt_node \<Rightarrow> nat
    \<Rightarrow> ('e hamt_mutate_error failure, ('k, 'v) mutated) result" where
  "insert_node P skey key_hash resolver key val path_hash n depth =
     (if depth \<ge> HAMT_MAX_DEPTH then Inl (Failed (HashCollision depth (length (hn_leaves n) + 1)))
      else let slot = bucket_index path_hash depth; b = slot_bit slot
      in if hn_datamap n AND b \<noteq> 0
         then rbind (map_err Panicked (vec_index (hn_leaves n) (map_index (hn_datamap n) slot)))
           (\<lambda>(stored_key, old_value).
             if stored_key = key
             then rbind (map_err Panicked (rebuild_node P skey (hn_datamap n) (hn_nodemap n)
                 ((hn_leaves n)[map_index (hn_datamap n) slot := (stored_key, val)]) (hn_children n)))
               (\<lambda>new_node. Inr (new_node, Some old_value, [new_node]))
             else split_leaf P skey key_hash n key val path_hash slot (Suc depth))
         else if hn_nodemap n AND b \<noteq> 0
         then rbind (map_err Panicked (vec_index (hn_children n) (map_index (hn_nodemap n) slot))) (\<lambda>r.
           rbind (resolve_child_ref resolver r) (\<lambda>child.
           rbind (insert_node P skey key_hash resolver key val path_hash child (Suc depth))
             (\<lambda>(new_child, old_value, emitted).
           rbind (map_err Panicked (rebuild_with_child P skey n (map_index (hn_nodemap n) slot) new_child))
             (\<lambda>new_node. Inr (new_node, old_value, emitted @ [new_node])))))
         else rbind (map_err Panicked (rebuild_node P skey (hn_datamap n OR b) (hn_nodemap n)
               (vec_insert (map_index (hn_datamap n) slot) (key, val) (hn_leaves n)) (hn_children n)))
             (\<lambda>new_node. Inr (new_node, None, [new_node])))"
  by pat_completeness auto
termination
  by (relation "measure (\<lambda>(_, _, _, _, _, _, _, _, depth). HAMT_MAX_DEPTH - depth)") auto

declare insert_node.simps [simp del]

definition hamt_insert ::
  "('k, 'v) hamt_params \<Rightarrow> ('k \<Rightarrow> structural_hash) \<Rightarrow> ('k, 'v, 'e) resolver \<Rightarrow> ('k, 'v) hamt_node \<Rightarrow> string
    \<Rightarrow> 'k \<Rightarrow> 'v \<Rightarrow> ('e hamt_mutate_error failure, ('k, 'v) hamt_node \<times> 'v option) result" where
  "hamt_insert P key_hash resolver n structural_key key val =
     rbind (insert_node P structural_key key_hash resolver key val (key_hash key) n 0)
       (\<lambda>(new_root, old_value, _). Inr (new_root, old_value))"

section \<open>Removal\<close>

datatype ('k, 'v) remove_outcome = OutcomeEmpty | OutcomeLeaf 'k 'v | OutcomeNode "('k, 'v) hamt_node"

definition finalize_after_removal ::
  "('k, 'v) hamt_params \<Rightarrow> string \<Rightarrow> 32 word \<Rightarrow> 32 word \<Rightarrow> ('k \<times> 'v) list \<Rightarrow> ('k, 'v) node_ref list
    \<Rightarrow> (panic, ('k, 'v) remove_outcome) result" where
  "finalize_after_removal P skey datamap nodemap leaves children =
     (if nodemap = 0 \<and> leaves = [] then Inr OutcomeEmpty
      else if nodemap = 0 \<and> length leaves = 1
      then Inr (OutcomeLeaf (fst (hd leaves)) (snd (hd leaves)))
      else rbind (rebuild_node P skey datamap nodemap leaves children) (\<lambda>n. Inr (OutcomeNode n)))"

definition emitted_outcome :: "('k, 'v) remove_outcome \<Rightarrow> ('k, 'v) hamt_node list" where
  "emitted_outcome out = (case out of OutcomeNode n \<Rightarrow> [n] | _ \<Rightarrow> [])"

type_synonym ('k, 'v) removal = "('k, 'v) remove_outcome \<times> 'v option \<times> ('k, 'v) hamt_node list"

text \<open>The last match of \<open>remove_node_with_ctx\<close>: the child at \<open>slot\<close> has lost a leaf.\<close>

definition after_child_removal ::
  "('k, 'v) hamt_params \<Rightarrow> string \<Rightarrow> ('k, 'v) hamt_node \<Rightarrow> nat \<Rightarrow> ('k, 'v) removal
    \<Rightarrow> ('e hamt_mutate_error failure, ('k, 'v) removal) result" where
  "after_child_removal P skey n slot =
     (\<lambda>(child_outcome, old_value, emitted).
       let idx = map_index (hn_nodemap n) slot; b = slot_bit slot
       in case child_outcome of
            OutcomeEmpty \<Rightarrow>
              rbind (map_err Panicked (finalize_after_removal P skey (hn_datamap n)
                  (hn_nodemap n AND NOT b) (hn_leaves n) (vec_remove idx (hn_children n))))
                (\<lambda>out. Inr (out, old_value, emitted @ emitted_outcome out))
          | OutcomeLeaf leaf_key leaf_value \<Rightarrow>
              rbind (map_err Panicked (finalize_after_removal P skey (hn_datamap n OR b)
                  (hn_nodemap n AND NOT b)
                  (vec_insert (map_index (hn_datamap n) slot) (leaf_key, leaf_value) (hn_leaves n))
                  (vec_remove idx (hn_children n))))
                (\<lambda>out. Inr (out, old_value, emitted @ emitted_outcome out))
          | OutcomeNode new_child \<Rightarrow>
              rbind (map_err Panicked (rebuild_with_child P skey n idx new_child))
                (\<lambda>new_node. Inr (OutcomeNode new_node, old_value, emitted @ [new_node])))"

function remove_node_with_ctx ::
  "('k, 'v) hamt_params \<Rightarrow> string \<Rightarrow> ('k, 'v, 'e) resolver \<Rightarrow> 'k \<Rightarrow> structural_hash \<Rightarrow> ('k, 'v) hamt_node \<Rightarrow> nat
    \<Rightarrow> ('e hamt_mutate_error failure, ('k, 'v) removal) result" where
  "remove_node_with_ctx P skey resolver key path_hash n depth =
     (if depth \<ge> HAMT_MAX_DEPTH then Inl (Failed (MaxDepthExceeded depth))
      else let slot = bucket_index path_hash depth; b = slot_bit slot
      in if hn_datamap n AND b \<noteq> 0
         then rbind (map_err Panicked (vec_index (hn_leaves n) (map_index (hn_datamap n) slot)))
           (\<lambda>(stored_key, old_value).
             if stored_key \<noteq> key then Inr (OutcomeNode n, None, [])
             else rbind (map_err Panicked (finalize_after_removal P skey (hn_datamap n AND NOT b)
                 (hn_nodemap n) (vec_remove (map_index (hn_datamap n) slot) (hn_leaves n)) (hn_children n)))
               (\<lambda>out. Inr (out, Some old_value, emitted_outcome out)))
         else if hn_nodemap n AND b = 0 then Inr (OutcomeNode n, None, [])
         else rbind (map_err Panicked (vec_index (hn_children n) (map_index (hn_nodemap n) slot))) (\<lambda>r.
           rbind (resolve_child_ref resolver r) (\<lambda>child.
           if Suc depth \<ge> HAMT_MAX_DEPTH then Inl (Failed (MaxDepthExceeded (Suc depth)))
           else rbind (remove_node_with_ctx P skey resolver key path_hash child (Suc depth))
             (\<lambda>(child_outcome, old_value, emitted).
               if old_value = None then Inr (OutcomeNode n, None, emitted)
               else after_child_removal P skey n slot (child_outcome, old_value, emitted)))))"
  by pat_completeness auto
termination
  by (relation "measure (\<lambda>(_, _, _, _, _, _, depth). HAMT_MAX_DEPTH - depth)") auto

declare remove_node_with_ctx.simps [simp del]

definition finalize_remove_root ::
  "('k, 'v) hamt_params \<Rightarrow> string \<Rightarrow> ('k, 'v) remove_outcome \<Rightarrow> ('k \<Rightarrow> nat)
    \<Rightarrow> (panic, ('k, 'v) hamt_node \<times> ('k, 'v) hamt_node list) result" where
  "finalize_remove_root P skey out root_slot_for_leaf = (case out of
       OutcomeEmpty \<Rightarrow> rbind (rebuild_node P skey 0 0 [] []) (\<lambda>root. Inr (root, [root]))
     | OutcomeLeaf leaf_key leaf_value \<Rightarrow>
         rbind (rebuild_node P skey (slot_bit (root_slot_for_leaf leaf_key)) 0 [(leaf_key, leaf_value)] [])
           (\<lambda>root. Inr (root, [root]))
     | OutcomeNode new_root \<Rightarrow> Inr (new_root, []))"

definition remove_spine ::
  "('k, 'v) hamt_params \<Rightarrow> string \<Rightarrow> ('k, 'v, 'e) resolver \<Rightarrow> 'k \<Rightarrow> structural_hash \<Rightarrow> ('k \<Rightarrow> nat)
    \<Rightarrow> ('k, 'v) hamt_node \<Rightarrow> ('e hamt_mutate_error failure, ('k, 'v) mutated) result" where
  "remove_spine P skey resolver key path_hash root_slot_for_leaf n =
     rbind (remove_node_with_ctx P skey resolver key path_hash n 0) (\<lambda>(out, old_value, emitted).
     rbind (map_err Panicked (finalize_remove_root P skey out root_slot_for_leaf)) (\<lambda>(new_root, emitted_root).
       Inr (new_root, old_value, emitted @ emitted_root)))"

definition hamt_remove ::
  "('k, 'v) hamt_params \<Rightarrow> ('k \<Rightarrow> structural_hash) \<Rightarrow> ('k, 'v, 'e) resolver \<Rightarrow> ('k, 'v) hamt_node \<Rightarrow> string
    \<Rightarrow> 'k \<Rightarrow> ('e hamt_mutate_error failure, ('k, 'v) hamt_node \<times> 'v option) result" where
  "hamt_remove P key_hash resolver n structural_key key =
     rbind (remove_spine P structural_key resolver key (key_hash key) (\<lambda>leaf_key. bucket_index (key_hash leaf_key) 0) n)
       (\<lambda>(new_root, old_value, _). Inr (new_root, old_value))"

section \<open>Persistence\<close>

definition persisted_of :: "('k, 'v) hamt_node \<Rightarrow> ('k, 'v) persisted_internal_node" where
  "persisted_of n = \<lparr> pn_datamap = hn_datamap n, pn_nodemap = hn_nodemap n, pn_leaves = hn_leaves n,
     pn_child_hashes = map ref_hash (hn_children n) \<rparr>"

definition into_hamt_node_verified ::
  "('k, 'v) hamt_params \<Rightarrow> ('k, 'v) persisted_internal_node \<Rightarrow> string \<Rightarrow> structural_hash
    \<Rightarrow> (string failure, ('k, 'v) hamt_node) result" where
  "into_hamt_node_verified P n structural_key expected_hash =
     (if pn_datamap n AND pn_nodemap n \<noteq> 0
      then Inl (Failed ''PersistedInternalNode datamap and nodemap overlap'')
      else if length (pn_leaves n) \<noteq> count_ones (pn_datamap n)
      then Inl (Failed ''PersistedInternalNode leaf count does not match datamap'')
      else if length (pn_child_hashes n) \<noteq> count_ones (pn_nodemap n)
      then Inl (Failed ''PersistedInternalNode child count does not match nodemap'')
      else rbind (map_err Panicked (compute_structural_hash P structural_key (pn_datamap n) (pn_nodemap n)
          (pn_leaves n) (map Lazy (pn_child_hashes n)))) (\<lambda>recomputed.
        if recomputed \<noteq> expected_hash
        then Inl (Failed ''persisted node contents do not match expected structural hash'')
        else Inr (HamtNode (pn_datamap n) (pn_nodemap n) (pn_leaves n) (map Lazy (pn_child_hashes n))
          expected_hash)))"

definition decode_v1_verified ::
  "('k, 'v) hamt_params \<Rightarrow> string \<Rightarrow> string \<Rightarrow> structural_hash \<Rightarrow> (string failure, ('k, 'v) hamt_node) result" where
  "decode_v1_verified P buf structural_key expected_hash =
     rbind (map_err Failed (decode_v1_unverified (hp_key P) (hp_value P) buf))
       (\<lambda>n. into_hamt_node_verified P n structural_key expected_hash)"

text \<open>What the sink of a persisted mutation collects.\<close>

primrec encode_created ::
  "('k, 'v) hamt_params \<Rightarrow> ('k, 'v) hamt_node list \<Rightarrow> (panic, (structural_hash \<times> string) list) result" where
  "encode_created P [] = Inr []"
| "encode_created P (n # ns) =
     rbind (ok_or (Expect_failed ''encode_v1_parts'') (encode_v1 (hp_key P) (hp_value P) (persisted_of n)))
       (\<lambda>bytes. rbind (encode_created P ns) (\<lambda>created. Inr ((hn_hash n, bytes) # created)))"

definition persist_mutation_with_key_hash ::
  "('k, 'v) hamt_params \<Rightarrow> ('k, 'v) hamt_node \<Rightarrow> string \<Rightarrow> 'k \<Rightarrow> 'v option \<Rightarrow> ('k \<Rightarrow> structural_hash)
    \<Rightarrow> ('k, 'v, 'e) resolver
    \<Rightarrow> ('e hamt_mutate_error failure,
        ('k, 'v) hamt_node \<times> 'v option \<times> (structural_hash \<times> string) list) result" where
  "persist_mutation_with_key_hash P prev_root structural_key key val key_hash resolver =
     rbind (case val of
         Some v \<Rightarrow> insert_node P structural_key key_hash resolver key v (key_hash key) prev_root 0
       | None \<Rightarrow> remove_spine P structural_key resolver key (key_hash key)
           (\<lambda>leaf_key. bucket_index (key_hash leaf_key) 0) prev_root)
       (\<lambda>(new_root, displaced, emitted).
         rbind (map_err Panicked (encode_created P emitted)) (\<lambda>created.
           Inr (new_root, displaced, if hn_hash new_root = hn_hash prev_root then [] else created)))"

text \<open>The loop of \<open>persist_mutations\<close>.\<close>

fun mutation_loop ::
  "('k, 'v) hamt_params \<Rightarrow> ('k \<Rightarrow> structural_hash) \<Rightarrow> ('k, 'v, 'e) resolver \<Rightarrow> string \<Rightarrow> ('k, 'v) hamt_node
    \<Rightarrow> ('k \<times> 'v option) list \<Rightarrow> ('e hamt_mutate_error failure, ('k, 'v) hamt_node \<times> 'v option list) result" where
  "mutation_loop P key_hash resolver structural_key current_root [] = Inr (current_root, [])"
| "mutation_loop P key_hash resolver structural_key current_root ((key, opt_val) # mutations) =
     rbind (case opt_val of
         Some val \<Rightarrow> hamt_insert P key_hash resolver current_root structural_key key val
       | None \<Rightarrow> hamt_remove P key_hash resolver current_root structural_key key)
       (\<lambda>(next_root, displaced).
     rbind (mutation_loop P key_hash resolver structural_key next_root mutations) (\<lambda>(root, displaced_vec).
       Inr (root, displaced # displaced_vec)))"

record ('k, 'v) hamt_chain_step =
  cs_root :: "('k, 'v) hamt_node"
  cs_root_hash :: structural_hash
  cs_displaced :: "'v option"
  cs_created :: "(structural_hash \<times> string) list"

fun persist_chain ::
  "('k, 'v) hamt_params \<Rightarrow> ('k \<Rightarrow> structural_hash) \<Rightarrow> ('k, 'v, 'e) resolver \<Rightarrow> string \<Rightarrow> ('k, 'v) hamt_node
    \<Rightarrow> ('k \<times> 'v option) list \<Rightarrow> ('e hamt_mutate_error failure, ('k, 'v) hamt_chain_step list) result" where
  "persist_chain P key_hash resolver structural_key current_root [] = Inr []"
| "persist_chain P key_hash resolver structural_key current_root ((key, opt_val) # mutations) =
     rbind (persist_mutation_with_key_hash P current_root structural_key key opt_val key_hash resolver)
       (\<lambda>(next_root, displaced, created).
     rbind (persist_chain P key_hash resolver structural_key next_root mutations) (\<lambda>steps.
       Inr (\<lparr> cs_root = next_root, cs_root_hash = hn_hash next_root, cs_displaced = displaced,
              cs_created = created \<rparr> # steps)))"

end
