(* ===== verification/Hamt_Delta.thy ===== *)
theory Hamt_Delta
  imports Hamt_Node
begin

text \<open>
  Differences of tries, \<open>src/src/hamt/delta.rs\<close>, and the end of \<open>persist_mutations\<close> that uses them. The
  closures that collect leaves or hashes along a walk are the lists of what they are called with; the
  buffers that an error leaves behind are dropped by every caller. The test whether two pointers are the
  same is subsumed by the comparison of the structural hashes that follows it.
\<close>

unbundle bit_operations_syntax

section \<open>Sets of slots\<close>

definition trailing_zeros :: "32 word \<Rightarrow> nat" where
  "trailing_zeros w = length (takeWhile (\<lambda>i. \<not> bit w i) [0..<32])"

function set_bits :: "32 word \<Rightarrow> nat list" where
  "set_bits bits =
     (if bits = 0 then []
      else trailing_zeros (bits AND - bits) # set_bits (bits AND (bits - 1)))"
  by pat_completeness auto
termination
proof (relation "measure unat")
  fix bits :: "32 word" assume "bits \<noteq> 0"
  moreover have "unat (bits AND (bits - 1)) \<le> unat (bits - 1)"
    by (simp add: unsigned_and_eq and_nat_def) (simp add: nat_le_iff AND_upper2)
  moreover from \<open>bits \<noteq> 0\<close> have "0 < unat bits" by (simp add: unat_gt_0)
  ultimately show "(bits AND (bits - 1), bits) \<in> measure unat"
    using unat_minus_one [of bits] by simp
qed simp

declare set_bits.simps [simp del]

definition union_nodemaps :: "32 word \<Rightarrow> 32 word \<Rightarrow> (nat \<times> bool \<times> bool) list" where
  "union_nodemaps n_a n_b =
     map (\<lambda>slot. (slot, n_a AND slot_bit slot \<noteq> 0, n_b AND slot_bit slot \<noteq> 0)) (set_bits (n_a OR n_b))"

section \<open>Walking a subtree\<close>

datatype 'e hamt_traversal_error = TraversalResolve 'e | TraversalMaxDepthExceeded nat

definition resolve_node_checked ::
  "('k, 'v, 'e) resolver \<Rightarrow> ('k, 'v) node_ref
    \<Rightarrow> ('e hamt_traversal_error failure, ('k, 'v) hamt_node) result" where
  "resolve_node_checked resolver r = (case r of
       Resolved n \<Rightarrow> Inr n
     | Lazy h \<Rightarrow> map_err (\<lambda>e. Failed (TraversalResolve e)) (resolver h))"

definition check_depth :: "nat \<Rightarrow> ('e hamt_traversal_error failure, unit) result" where
  "check_depth depth = require (depth < HAMT_MAX_DEPTH) (Failed (TraversalMaxDepthExceeded depth))"

text \<open>The nodes that \<open>visit\<close> is called with.\<close>

function walk_subtree ::
    "('k, 'v, 'e) resolver \<Rightarrow> nat \<Rightarrow> ('k, 'v) hamt_node
      \<Rightarrow> ('e hamt_traversal_error failure, ('k, 'v) hamt_node list) result"
  and walk_children ::
    "('k, 'v, 'e) resolver \<Rightarrow> nat \<Rightarrow> ('k, 'v) node_ref list
      \<Rightarrow> ('e hamt_traversal_error failure, ('k, 'v) hamt_node list) result" where
  "walk_subtree resolver depth n =
     (if depth \<ge> HAMT_MAX_DEPTH then Inl (Failed (TraversalMaxDepthExceeded depth))
      else rbind (walk_children resolver (Suc depth) (hn_children n)) (\<lambda>ns. Inr (n # ns)))"
| "walk_children resolver depth [] = Inr []"
| "walk_children resolver depth (r # rs) =
     rbind (resolve_node_checked resolver r) (\<lambda>child.
     rbind (walk_subtree resolver depth child) (\<lambda>ns.
     rbind (walk_children resolver depth rs) (\<lambda>ms. Inr (ns @ ms))))"
  by pat_completeness auto
termination
  by (relation "measures [\<lambda>x. case x of Inl (_, depth, _) \<Rightarrow> 2 * (HAMT_MAX_DEPTH - depth)
                                 | Inr (_, depth, _) \<Rightarrow> 2 * (HAMT_MAX_DEPTH - depth) + 1,
                          \<lambda>x. case x of Inl _ \<Rightarrow> 0 | Inr (_, _, rs) \<Rightarrow> length rs]") auto

declare walk_subtree.simps [simp del]

definition reachable_node_hashes ::
  "('k, 'v, 'e) resolver \<Rightarrow> ('k, 'v) hamt_node \<Rightarrow> ('e hamt_traversal_error failure, structural_hash list) result" where
  "reachable_node_hashes resolver root =
     rbind (walk_subtree resolver 0 root) (\<lambda>ns. Inr (map hn_hash ns))"

section \<open>Differences of entries\<close>

definition diff_short_circuit ::
  "('k, 'v) hamt_node \<Rightarrow> ('k, 'v) hamt_node \<Rightarrow> nat \<Rightarrow> ('e hamt_traversal_error failure, bool) result" where
  "diff_short_circuit a b depth =
     (if hn_hash a = hn_hash b then Inr True
      else if depth \<ge> HAMT_MAX_DEPTH then Inl (Failed (TraversalMaxDepthExceeded depth))
      else Inr False)"

type_synonym ('k, 'v) delta = "('k \<times> 'v) list \<times> ('k \<times> 'v) list"

definition delta_append :: "('k, 'v) delta \<Rightarrow> ('k, 'v) delta \<Rightarrow> ('k, 'v) delta" where
  "delta_append x y = (fst x @ fst y, snd x @ snd y)"

text \<open>One slot that holds a leaf in either node: the pair is what is added and what is removed.\<close>

definition diff_leaf_slot ::
  "('k, 'v) hamt_node \<Rightarrow> ('k, 'v) hamt_node \<Rightarrow> nat \<Rightarrow> (panic, ('k, 'v) delta) result" where
  "diff_leaf_slot a b slot =
     (let in_a = hn_datamap a AND slot_bit slot \<noteq> 0;
          in_b = hn_datamap b AND slot_bit slot \<noteq> 0;
          leaf_a = vec_index (hn_leaves a) (map_index (hn_datamap a) slot);
          leaf_b = vec_index (hn_leaves b) (map_index (hn_datamap b) slot)
      in if in_a \<and> in_b
         then rbind leaf_a (\<lambda>ea. rbind leaf_b (\<lambda>eb.
           if fst ea \<noteq> fst eb \<or> snd ea \<noteq> snd eb then Inr ([eb], [ea]) else Inr ([], [])))
         else if in_a then rbind leaf_a (\<lambda>ea. Inr ([], [ea]))
         else rbind leaf_b (\<lambda>eb. Inr ([eb], [])))"

fun diff_leaf_slots ::
  "('k, 'v) hamt_node \<Rightarrow> ('k, 'v) hamt_node \<Rightarrow> nat list \<Rightarrow> (panic, ('k, 'v) delta) result" where
  "diff_leaf_slots a b [] = Inr ([], [])"
| "diff_leaf_slots a b (slot # slots) =
     rbind (diff_leaf_slot a b slot) (\<lambda>d. rbind (diff_leaf_slots a b slots) (\<lambda>e. Inr (delta_append d e)))"

definition resolve_only_child ::
  "('k, 'v, 'e) resolver \<Rightarrow> ('k, 'v) hamt_node \<Rightarrow> 32 word \<Rightarrow> nat
    \<Rightarrow> ('e hamt_traversal_error failure, ('k, 'v) hamt_node) result" where
  "resolve_only_child resolver n nodemap slot =
     rbind (map_err Panicked (vec_index (hn_children n) (map_index nodemap slot))) (resolve_node_checked resolver)"

text \<open>\<open>None\<close> when the structural hashes of the two children are the same.\<close>

definition resolve_changed_pair ::
  "('k, 'v, 'e) resolver \<Rightarrow> ('k, 'v) hamt_node \<Rightarrow> ('k, 'v) hamt_node \<Rightarrow> nat
    \<Rightarrow> ('e hamt_traversal_error failure, (('k, 'v) hamt_node \<times> ('k, 'v) hamt_node) option) result" where
  "resolve_changed_pair resolver a b slot =
     rbind (map_err Panicked (vec_index (hn_children a) (map_index (hn_nodemap a) slot))) (\<lambda>child_a.
     rbind (map_err Panicked (vec_index (hn_children b) (map_index (hn_nodemap b) slot))) (\<lambda>child_b.
       if ref_hash child_a = ref_hash child_b then Inr None
       else rbind (resolve_node_checked resolver child_a) (\<lambda>left.
            rbind (resolve_node_checked resolver child_b) (\<lambda>right. Inr (Some (left, right))))))"

definition subtree_leaves ::
  "('k, 'v, 'e) resolver \<Rightarrow> nat \<Rightarrow> ('k, 'v) hamt_node
    \<Rightarrow> ('e hamt_traversal_error failure, ('k \<times> 'v) list) result" where
  "subtree_leaves resolver depth n =
     rbind (walk_subtree resolver depth n) (\<lambda>ns. Inr (concat (map hn_leaves ns)))"

text \<open>A leaf on one side and a subtree on the other; \<open>leaf_is_a\<close> tells the side of the leaf.\<close>

definition diff_leaf_subtree ::
  "('k, 'v, 'e) resolver \<Rightarrow> ('k, 'v) hamt_node \<Rightarrow> ('k, 'v) hamt_node \<Rightarrow> nat \<Rightarrow> bool \<Rightarrow> nat
    \<Rightarrow> ('e hamt_traversal_error failure, ('k, 'v) delta) result" where
  "diff_leaf_subtree resolver leaf_node subtree_node slot leaf_is_a depth =
     rbind (map_err Panicked (vec_index (hn_leaves leaf_node) (map_index (hn_datamap leaf_node) slot))) (\<lambda>leaf.
     rbind (resolve_only_child resolver subtree_node (hn_nodemap subtree_node) slot) (\<lambda>child.
     rbind (subtree_leaves resolver depth child) (\<lambda>entries.
       let unchanged = leaf \<in> set entries;
           subtree_delta = filter (\<lambda>e. e \<noteq> leaf) entries;
           leaf_delta = (if unchanged then [] else [leaf])
       in Inr (if leaf_is_a then (subtree_delta, leaf_delta) else (leaf_delta, subtree_delta)))))"

fun diff_cross_slots ::
  "('k, 'v, 'e) resolver \<Rightarrow> ('k, 'v) hamt_node \<Rightarrow> ('k, 'v) hamt_node \<Rightarrow> bool \<Rightarrow> nat \<Rightarrow> nat list
    \<Rightarrow> ('e hamt_traversal_error failure, ('k, 'v) delta) result" where
  "diff_cross_slots resolver leaf_node subtree_node leaf_is_a depth [] = Inr ([], [])"
| "diff_cross_slots resolver leaf_node subtree_node leaf_is_a depth (slot # slots) =
     rbind (diff_leaf_subtree resolver leaf_node subtree_node slot leaf_is_a depth) (\<lambda>d.
     rbind (diff_cross_slots resolver leaf_node subtree_node leaf_is_a depth slots) (\<lambda>e. Inr (delta_append d e)))"

function diff_nodes ::
    "('k, 'v, 'e) resolver \<Rightarrow> ('k, 'v) hamt_node \<Rightarrow> ('k, 'v) hamt_node \<Rightarrow> nat
      \<Rightarrow> ('e hamt_traversal_error failure, ('k, 'v) delta) result"
  and diff_child_slots ::
    "('k, 'v, 'e) resolver \<Rightarrow> ('k, 'v) hamt_node \<Rightarrow> ('k, 'v) hamt_node \<Rightarrow> nat \<Rightarrow> (nat \<times> bool \<times> bool) list
      \<Rightarrow> ('e hamt_traversal_error failure, ('k, 'v) delta) result" where
  "diff_nodes resolver a b depth =
     (case diff_short_circuit a b depth of
        Inl e \<Rightarrow> Inl e
      | Inr True \<Rightarrow> Inr ([], [])
      | Inr False \<Rightarrow>
          let leaf_a_sub_b = hn_datamap a AND hn_nodemap b;
              sub_a_leaf_b = hn_nodemap a AND hn_datamap b;
              cross = leaf_a_sub_b OR sub_a_leaf_b
          in rbind (map_err Panicked (diff_leaf_slots a b
                 (set_bits ((hn_datamap a OR hn_datamap b) AND NOT cross)))) (\<lambda>d1.
             rbind (diff_child_slots resolver a b (Suc depth)
                 (union_nodemaps (hn_nodemap a AND NOT cross) (hn_nodemap b AND NOT cross))) (\<lambda>d2.
             rbind (diff_cross_slots resolver a b True (Suc depth) (set_bits leaf_a_sub_b)) (\<lambda>d3.
             rbind (diff_cross_slots resolver b a False (Suc depth) (set_bits sub_a_leaf_b)) (\<lambda>d4.
               Inr (delta_append (delta_append (delta_append d1 d2) d3) d4))))))"
| "diff_child_slots resolver a b depth [] = Inr ([], [])"
| "diff_child_slots resolver a b depth ((slot, in_a, in_b) # slots) =
     rbind
       (if in_a \<and> in_b
        then rbind (resolve_changed_pair resolver a b slot) (\<lambda>pair. case pair of
            None \<Rightarrow> Inr ([], [])
          | Some (left, right) \<Rightarrow> diff_nodes resolver left right depth)
        else if in_a
        then rbind (resolve_only_child resolver a (hn_nodemap a) slot) (\<lambda>child.
             rbind (subtree_leaves resolver depth child) (\<lambda>es. Inr ([], es)))
        else rbind (resolve_only_child resolver b (hn_nodemap b) slot) (\<lambda>child.
             rbind (subtree_leaves resolver depth child) (\<lambda>es. Inr (es, []))))
       (\<lambda>d. rbind (diff_child_slots resolver a b depth slots) (\<lambda>e. Inr (delta_append d e)))"
  by pat_completeness auto
termination
  by (relation "measures [\<lambda>x. case x of Inl (_, _, _, depth) \<Rightarrow> 2 * (HAMT_MAX_DEPTH - depth)
                                 | Inr (_, _, _, depth, _) \<Rightarrow> 2 * (HAMT_MAX_DEPTH - depth) + 1,
                          \<lambda>x. case x of Inl _ \<Rightarrow> 0 | Inr (_, _, _, _, slots) \<Rightarrow> length slots]")
    (auto simp: diff_short_circuit_def split: if_splits)

declare diff_nodes.simps [simp del]

definition diff_hamt_nodes ::
  "('k, 'v, 'e) resolver \<Rightarrow> ('k, 'v) hamt_node \<Rightarrow> ('k, 'v) hamt_node
    \<Rightarrow> ('e hamt_traversal_error failure, ('k, 'v) delta) result" where
  "diff_hamt_nodes resolver a b =
     (if hn_hash a = hn_hash b then Inr ([], []) else diff_nodes resolver a b 0)"

definition isolate_delta ::
  "('k, 'v, 'e) resolver \<Rightarrow> ('k, 'v) hamt_node \<Rightarrow> lanes \<Rightarrow> ('k, 'v) hamt_node \<Rightarrow> lanes
    \<Rightarrow> ('e hamt_traversal_error failure, ('k, 'v) delta) result" where
  "isolate_delta resolver a lattice_a b lattice_b =
     (if lattice_a = lattice_b \<and> hn_hash a = hn_hash b then Inr ([], []) else diff_nodes resolver a b 0)"

section \<open>Differences of nodes\<close>

text \<open>The hashes of the nodes that are superseded and of those that are new.\<close>

record node_hash_delta =
  superseded_node_hashes :: "structural_hash list"
  new_node_hashes :: "structural_hash list"

definition node_delta_append :: "node_hash_delta \<Rightarrow> node_hash_delta \<Rightarrow> node_hash_delta" where
  "node_delta_append x y = \<lparr>
     superseded_node_hashes = superseded_node_hashes x @ superseded_node_hashes y,
     new_node_hashes = new_node_hashes x @ new_node_hashes y \<rparr>"

definition append_reachable_node_hashes ::
  "('k, 'v, 'e) resolver \<Rightarrow> nat \<Rightarrow> ('k, 'v) hamt_node
    \<Rightarrow> ('e hamt_traversal_error failure, structural_hash list) result" where
  "append_reachable_node_hashes resolver depth n =
     rbind (walk_subtree resolver depth n) (\<lambda>ns. Inr (map hn_hash ns))"

function diff_node_hashes_rec ::
    "('k, 'v, 'e) resolver \<Rightarrow> ('k, 'v) hamt_node \<Rightarrow> ('k, 'v) hamt_node \<Rightarrow> nat
      \<Rightarrow> ('e hamt_traversal_error failure, node_hash_delta) result"
  and diff_hash_slots ::
    "('k, 'v, 'e) resolver \<Rightarrow> ('k, 'v) hamt_node \<Rightarrow> ('k, 'v) hamt_node \<Rightarrow> nat \<Rightarrow> (nat \<times> bool \<times> bool) list
      \<Rightarrow> ('e hamt_traversal_error failure, node_hash_delta) result" where
  "diff_node_hashes_rec resolver a b depth =
     (case diff_short_circuit a b depth of
        Inl e \<Rightarrow> Inl e
      | Inr True \<Rightarrow> Inr \<lparr> superseded_node_hashes = [], new_node_hashes = [] \<rparr>
      | Inr False \<Rightarrow>
          rbind (diff_hash_slots resolver a b (Suc depth) (union_nodemaps (hn_nodemap a) (hn_nodemap b))) (\<lambda>d.
            Inr (node_delta_append \<lparr> superseded_node_hashes = [hn_hash a], new_node_hashes = [hn_hash b] \<rparr> d)))"
| "diff_hash_slots resolver a b depth [] = Inr \<lparr> superseded_node_hashes = [], new_node_hashes = [] \<rparr>"
| "diff_hash_slots resolver a b depth ((slot, in_a, in_b) # slots) =
     rbind
       (if in_a \<and> in_b
        then rbind (resolve_changed_pair resolver a b slot) (\<lambda>pair. case pair of
            None \<Rightarrow> Inr \<lparr> superseded_node_hashes = [], new_node_hashes = [] \<rparr>
          | Some (left, right) \<Rightarrow> diff_node_hashes_rec resolver left right depth)
        else if in_a
        then rbind (resolve_only_child resolver a (hn_nodemap a) slot) (\<lambda>child.
             rbind (append_reachable_node_hashes resolver depth child) (\<lambda>hs.
               Inr \<lparr> superseded_node_hashes = hs, new_node_hashes = [] \<rparr>))
        else rbind (resolve_only_child resolver b (hn_nodemap b) slot) (\<lambda>child.
             rbind (append_reachable_node_hashes resolver depth child) (\<lambda>hs.
               Inr \<lparr> superseded_node_hashes = [], new_node_hashes = hs \<rparr>)))
       (\<lambda>d. rbind (diff_hash_slots resolver a b depth slots) (\<lambda>e. Inr (node_delta_append d e)))"
  by pat_completeness auto
termination
  by (relation "measures [\<lambda>x. case x of Inl (_, _, _, depth) \<Rightarrow> 2 * (HAMT_MAX_DEPTH - depth)
                                 | Inr (_, _, _, depth, _) \<Rightarrow> 2 * (HAMT_MAX_DEPTH - depth) + 1,
                          \<lambda>x. case x of Inl _ \<Rightarrow> 0 | Inr (_, _, _, _, slots) \<Rightarrow> length slots]")
    (auto simp: diff_short_circuit_def split: if_splits)

declare diff_node_hashes_rec.simps [simp del]

definition diff_node_hashes ::
  "('k, 'v, 'e) resolver \<Rightarrow> ('k, 'v) hamt_node \<Rightarrow> ('k, 'v) hamt_node
    \<Rightarrow> ('e hamt_traversal_error failure, node_hash_delta) result" where
  "diff_node_hashes resolver a b = diff_node_hashes_rec resolver a b 0"

section \<open>Batches of mutations\<close>

definition new_resolved_children ::
  "structural_hash set \<Rightarrow> ('k, 'v) hamt_node \<Rightarrow> ('k, 'v) hamt_node list" where
  "new_resolved_children new_set n =
     concat (map (\<lambda>r. case r of
         Resolved c \<Rightarrow> if hn_hash c \<in> new_set then [c] else []
       | Lazy h \<Rightarrow> []) (hn_children n))"

lemma new_resolved_children_size:
  "sum_list (map (\<lambda>c. Suc (size c)) (new_resolved_children new_set n)) < Suc (size n)"
proof -
  have "sum_list (map (\<lambda>c. Suc (size c)) (concat (map (\<lambda>r. case r of
      Resolved c \<Rightarrow> if hn_hash c \<in> new_set then [c] else []
      | Lazy h \<Rightarrow> []) rs))) \<le> size_list size rs" for rs :: "('a, 'b) node_ref list"
    by (induction rs) (auto split: node_ref.split)
  then have "sum_list (map (\<lambda>c. Suc (size c)) (new_resolved_children new_set n)) \<le> size_list size (hn_children n)"
    unfolding new_resolved_children_def by blast
  also have "\<dots> < Suc (size n)" by (cases n) simp
  finally show ?thesis .
qed

text \<open>The stack of \<open>finalize_persisted_mutations\<close>, its top first.\<close>

function collect_created ::
  "('k, 'v) hamt_params \<Rightarrow> structural_hash set \<Rightarrow> ('k, 'v) hamt_node list
    \<Rightarrow> (panic, (structural_hash \<times> string) list) result" where
  "collect_created P new_set [] = Inr []"
| "collect_created P new_set (n # stack) =
     (if hn_hash n \<in> new_set
      then rbind (ok_or (Expect_failed ''encode_v1_parts'') (encode_v1 (hp_key P) (hp_value P) (persisted_of n)))
        (\<lambda>bytes. rbind (collect_created P new_set (rev (new_resolved_children new_set n) @ stack))
          (\<lambda>created. Inr ((hn_hash n, bytes) # created)))
      else collect_created P new_set stack)"
  by pat_completeness auto
termination
proof (relation "measure (\<lambda>(_, _, stack). sum_list (map (\<lambda>n. Suc (size n)) stack))", goal_cases)
  case (2 P new_set n stack bytes)
  then show ?case
    using new_resolved_children_size [of new_set n]
    by (simp only: in_measure prod.case map_append sum_list_append rev_map [symmetric] sum_list_rev list.map sum_list.Cons)
qed simp_all

definition from_traversal_error ::
  "'e hamt_traversal_error failure \<Rightarrow> 'e hamt_mutate_error failure" where
  "from_traversal_error err = (case err of
       Panicked p \<Rightarrow> Panicked p
     | Failed (TraversalResolve e) \<Rightarrow> Failed (Resolve e)
     | Failed (TraversalMaxDepthExceeded depth) \<Rightarrow> Failed (MaxDepthExceeded depth))"

definition finalize_persisted_mutations ::
  "('k, 'v) hamt_params \<Rightarrow> ('k, 'v, 'e) resolver \<Rightarrow> ('k, 'v) hamt_node \<Rightarrow> ('k, 'v) hamt_node \<Rightarrow> 'v option list
    \<Rightarrow> ('e hamt_mutate_error failure,
        ('k, 'v) hamt_node \<times> 'v option list \<times> (structural_hash \<times> string) list) result" where
  "finalize_persisted_mutations P resolver prev_root current_root displaced_vec =
     (if hn_hash current_root = hn_hash prev_root then Inr (current_root, displaced_vec, [])
      else rbind (map_err from_traversal_error (diff_node_hashes resolver prev_root current_root)) (\<lambda>delta.
           rbind (map_err Panicked (collect_created P (set (new_node_hashes delta)) [current_root])) (\<lambda>created.
             Inr (current_root, displaced_vec, created))))"

definition persist_mutations ::
  "('k, 'v) hamt_params \<Rightarrow> ('k \<Rightarrow> structural_hash) \<Rightarrow> ('k, 'v, 'e) resolver \<Rightarrow> ('k, 'v) hamt_node \<Rightarrow> string
    \<Rightarrow> ('k \<times> 'v option) list
    \<Rightarrow> ('e hamt_mutate_error failure,
        ('k, 'v) hamt_node \<times> 'v option list \<times> (structural_hash \<times> string) list) result" where
  "persist_mutations P key_hash resolver prev_root structural_key mutations =
     rbind (mutation_loop P key_hash resolver structural_key prev_root mutations)
       (\<lambda>(current_root, displaced_vec).
         finalize_persisted_mutations P resolver prev_root current_root displaced_vec)"

end
