(* ===== verification/Hamt_Gc.thy ===== *)
theory Hamt_Gc
  imports Hamt_Delta
begin

text \<open>
  Reference counts of trie nodes, \<open>src/src/hamt/gc.rs\<close>. The map of counts is a partial function; the counts
  saturate at the greatest 64-bit value as in the code. An operation that fails leaves its table as it was, so
  a failure carries no table. The assertions of \<open>LinearRootChain\<close> are panics.
\<close>

section \<open>The table of counts\<close>

record refcount_table =
  rt_counts :: "structural_hash \<rightharpoonup> nat"

datatype refcount_underflow = RefcountUnderflow structural_hash

definition rt_new :: refcount_table where
  "rt_new = \<lparr> rt_counts = Map.empty \<rparr>"

definition entry_increment :: "structural_hash \<Rightarrow> (structural_hash \<rightharpoonup> nat) \<Rightarrow> (structural_hash \<rightharpoonup> nat)" where
  "entry_increment h m = m(h \<mapsto> min (case m h of Some n \<Rightarrow> n + 1 | None \<Rightarrow> 1) (2 ^ 64 - 1))"

definition rt_bootstrap :: "structural_hash list \<Rightarrow> refcount_table \<Rightarrow> refcount_table" where
  "rt_bootstrap hashes t = t\<lparr> rt_counts := fold entry_increment hashes (rt_counts t) \<rparr>"

definition apply_new :: "structural_hash list \<Rightarrow> refcount_table \<Rightarrow> refcount_table" where
  "apply_new hashes t = t\<lparr> rt_counts := fold entry_increment hashes (rt_counts t) \<rparr>"

definition rt_count :: "refcount_table \<Rightarrow> structural_hash \<Rightarrow> nat" where
  "rt_count t h = (case rt_counts t h of Some n \<Rightarrow> n | None \<Rightarrow> 0)"

text \<open>The validation pass, in the order of the hashes, each distinct hash once.\<close>

fun validate_superseded ::
  "(structural_hash \<rightharpoonup> nat) \<Rightarrow> refcount_table \<Rightarrow> structural_hash set \<Rightarrow> structural_hash list
    \<Rightarrow> (refcount_underflow, unit) result" where
  "validate_superseded requested t validated [] = Inr ()"
| "validate_superseded requested t validated (h # hashes) =
     (if h \<in> validated then validate_superseded requested t validated hashes
      else case requested h of
        Some need \<Rightarrow>
          if rt_count t h < need then Inl (RefcountUnderflow h)
          else validate_superseded requested t (insert h validated) hashes
      | None \<Rightarrow> validate_superseded requested t (insert h validated) hashes)"

text \<open>The decrements: the new counts and the hashes that reached zero.\<close>

fun decrement_all ::
  "(structural_hash \<rightharpoonup> nat) \<Rightarrow> structural_hash list \<Rightarrow> (structural_hash \<rightharpoonup> nat) \<times> structural_hash list" where
  "decrement_all m [] = (m, [])"
| "decrement_all m (h # hashes) =
     (let remaining = (case m h of Some n \<Rightarrow> n - 1 | None \<Rightarrow> 0);
          m' = (case m h of Some n \<Rightarrow> m(h \<mapsto> n - 1) | None \<Rightarrow> m)
      in if remaining = 0
         then let (m'', zeroed) = decrement_all (m'(h := None)) hashes in (m'', h # zeroed)
         else decrement_all m' hashes)"

definition apply_superseded ::
  "structural_hash list \<Rightarrow> refcount_table
    \<Rightarrow> (refcount_underflow, refcount_table \<times> structural_hash list) result" where
  "apply_superseded hashes t =
     (let requested = fold entry_increment hashes Map.empty
      in ok_then (validate_superseded requested t {} hashes)
           (let (m, zeroed) = decrement_all (rt_counts t) hashes in Inr (t\<lparr> rt_counts := m \<rparr>, zeroed)))"

section \<open>The chain of roots\<close>

record linear_root_chain =
  lc_table :: refcount_table
  lc_current_root :: "structural_hash option"
  lc_pending_retirement :: "structural_hash list option"

definition lc_bootstrap :: "structural_hash list \<Rightarrow> structural_hash \<Rightarrow> linear_root_chain" where
  "lc_bootstrap hashes current_root = \<lparr> lc_table = rt_bootstrap hashes rt_new,
     lc_current_root = Some current_root, lc_pending_retirement = None \<rparr>"

definition transition ::
  "node_hash_delta \<Rightarrow> structural_hash \<Rightarrow> linear_root_chain \<Rightarrow> (panic, linear_root_chain) result" where
  "transition delta new_root c =
     (if lc_pending_retirement c \<noteq> None then Inl (Expect_failed ''transition called while a retirement is pending'')
      else Inr \<lparr> lc_table = apply_new (new_node_hashes delta) (lc_table c),
                 lc_current_root = Some new_root,
                 lc_pending_retirement = Some (superseded_node_hashes delta) \<rparr>)"

definition retire_previous ::
  "linear_root_chain \<Rightarrow> (refcount_underflow failure, linear_root_chain \<times> structural_hash list) result" where
  "retire_previous c = (case lc_pending_retirement c of
       None \<Rightarrow> Inl (Panicked (Expect_failed ''retire_previous called without a pending transition''))
     | Some pending \<Rightarrow>
         rbind (map_err Failed (apply_superseded pending (lc_table c))) (\<lambda>(table, zeroed).
           Inr (c\<lparr> lc_table := table, lc_pending_retirement := None \<rparr>, zeroed)))"

definition advance ::
  "node_hash_delta \<Rightarrow> structural_hash \<Rightarrow> linear_root_chain
    \<Rightarrow> (refcount_underflow failure, linear_root_chain \<times> structural_hash list) result" where
  "advance delta new_root c =
     (if lc_pending_retirement c \<noteq> None then Inl (Panicked (Expect_failed ''advance called while a retirement is pending''))
      else rbind (map_err Failed (apply_superseded (superseded_node_hashes delta) (lc_table c))) (\<lambda>(table, zeroed).
        Inr (c\<lparr> lc_table := apply_new (new_node_hashes delta) table, lc_current_root := Some new_root \<rparr>, zeroed)))"

end
