(* ===== verification/Hamt_Codec_Correct.thy ===== *)
theory Hamt_Codec_Correct
  imports Hamt_Codec Lt_Lattice_Correct
begin

text \<open>
  Correctness of the node format. The locale \<open>canonical_codec\<close> states what the format expects of a codec
  of leaf payloads: reading what was written gives the value and moves the cursor behind it, and what can
  be read is what would be written. The codecs of the crate are instances, and so is the pair of two
  instances; the node format then accepts exactly the bytes it writes.
\<close>

section \<open>The contract of a codec\<close>

locale canonical_codec =
  fixes c :: "'a hamt_codec" and valid :: "'a \<Rightarrow> bool"
  assumes enc_dec: "valid x \<Longrightarrow> encode_hamt c x = Some bs \<Longrightarrow>
      length (pre @ bs @ post) \<le> USIZE_MAX \<Longrightarrow>
      decode_hamt c (pre @ bs @ post) (length pre) = Inr (x, length pre + length bs)"
    and dec_enc: "length (pre @ rest) \<le> USIZE_MAX \<Longrightarrow>
      decode_hamt c (pre @ rest) (length pre) = Inr (x, cursor) \<Longrightarrow>
      valid x \<and> (\<exists>bs post. encode_hamt c x = Some bs \<and> rest = bs @ post \<and> cursor = length pre + length bs)"

lemma read_fixed_append:
  assumes "length (pre @ bs @ post) \<le> USIZE_MAX"
  shows "read_fixed (length bs) (pre @ bs @ post) (length pre) = Inr (bs, length pre + length bs)"
  using assms by (simp add: read_fixed_def)

lemma read_fixed_Inr:
  assumes "read_fixed n (pre @ rest) (length pre) = Inr (bs, cursor)"
  obtains post where "rest = bs @ post" "length bs = n" "cursor = length pre + n"
proof -
  from assms have n: "n \<le> length rest" and bs: "bs = take n rest" "cursor = length pre + n"
    by (auto simp: read_fixed_def Let_def split: if_splits)
  show ?thesis by (rule that [of "drop n rest"]) (use n bs in simp_all)
qed

lemma read_len_prefixed_append:
  assumes "length (pre @ bs @ post) \<le> USIZE_MAX" "encode_len_prefixed s = Some bs"
  shows "read_len_prefixed (pre @ bs @ post) (length pre) = Inr (s, length pre + length bs)"
proof -
  from assms(2) have s: "length s < 2 ^ 32" "bs = le_bytes 4 (length s) @ s"
    by (auto simp: encode_len_prefixed_def u32_to_le_bytes_def unsigned_of_nat take_bit_eq_mod split: if_splits)
  then have "le_value (le_bytes 4 (length s)) = length s" by (simp add: le_value_bytes)
  moreover have "read_fixed 4 (pre @ bs @ post) (length pre) = Inr (le_bytes 4 (length s), length pre + 4)"
    using read_fixed_append [of pre "le_bytes 4 (length s)" "s @ post"] assms(1) s by simp
  moreover have "read_fixed (length s) (pre @ bs @ post) (length pre + 4) = Inr (s, length pre + 4 + length s)"
    using read_fixed_append [of "pre @ le_bytes 4 (length s)" s post] assms(1) s by simp
  ultimately show ?thesis by (simp add: read_len_prefixed_def s)
qed

lemma read_len_prefixed_Inr:
  assumes "read_len_prefixed (pre @ rest) (length pre) = Inr (s, cursor)"
  obtains bs post where "encode_len_prefixed s = Some bs" "rest = bs @ post" "cursor = length pre + length bs"
proof -
  from assms obtain raw cursor' where 1: "read_fixed 4 (pre @ rest) (length pre) = Inr (raw, cursor')"
    and 2: "read_fixed (le_value raw) (pre @ rest) cursor' = Inr (s, cursor)"
    by (auto simp: read_len_prefixed_def)
  from 1 obtain p where p: "rest = raw @ p" "length raw = 4" "cursor' = length pre + 4"
    by (rule read_fixed_Inr)
  from 2 have "read_fixed (le_value raw) ((pre @ raw) @ p) (length (pre @ raw)) = Inr (s, cursor)"
    by (simp add: p)
  then obtain q where q: "p = s @ q" "length s = le_value raw" "cursor = length (pre @ raw) + le_value raw"
    by (rule read_fixed_Inr)
  have len: "length s < 2 ^ 32" using le_value_less [of raw] p(2) q(2) by simp
  then have "u32_to_le_bytes (word_of_nat (length s)) = raw"
    using le_bytes_value [of raw] p(2) q(2)
    by (simp add: u32_to_le_bytes_def unsigned_of_nat take_bit_eq_mod)
  with len have "encode_len_prefixed s = Some (raw @ s)" by (simp add: encode_len_prefixed_def)
  with p q show ?thesis by (intro that [of "raw @ s" q]) simp_all
qed

section \<open>The codecs of the crate\<close>

interpretation bytes: canonical_codec bytes_codec "\<lambda>_. True"
  by unfold_locales (auto simp: bytes_codec_def read_len_prefixed_append elim: read_len_prefixed_Inr)

interpretation str: canonical_codec string_codec utf8_valid
proof
  fix pre rest s cursor
  assume "decode_hamt string_codec (pre @ rest) (length pre) = Inr (s, cursor)"
  then have "utf8_valid s" "read_len_prefixed (pre @ rest) (length pre) = Inr (s, cursor)"
    by (auto simp: string_codec_def split: if_splits)
  then show "utf8_valid s \<and> (\<exists>bs post. encode_hamt string_codec s = Some bs \<and> rest = bs @ post \<and>
      cursor = length pre + length bs)"
    by (auto simp: string_codec_def elim: read_len_prefixed_Inr)
qed (simp add: string_codec_def read_len_prefixed_append)

definition valid_event_type :: "event_type \<Rightarrow> bool" where
  "valid_event_type t \<longleftrightarrow> utf8_valid (event_type_as_str t) \<and> event_type_from (event_type_as_str t) = t"

interpretation event_type: canonical_codec event_type_codec valid_event_type
proof
  fix pre bs post t
  assume "valid_event_type t" "encode_hamt event_type_codec t = Some bs" "length (pre @ bs @ post) \<le> USIZE_MAX"
  then show "decode_hamt event_type_codec (pre @ bs @ post) (length pre) = Inr (t, length pre + length bs)"
    using str.enc_dec [of "event_type_as_str t" bs pre post]
    by (auto simp: event_type_codec_def valid_event_type_def string_codec_def split: if_splits)
next
  fix pre rest t cursor
  assume 1: "length (pre @ rest) \<le> USIZE_MAX"
    and 2: "decode_hamt event_type_codec (pre @ rest) (length pre) = Inr (t, cursor)"
  from 2 obtain s where s: "t = event_type_from s"
    "decode_hamt string_codec (pre @ rest) (length pre) = Inr (s, cursor)"
    by (auto simp: event_type_codec_def)
  then show "valid_event_type t \<and> (\<exists>bs post. encode_hamt event_type_codec t = Some bs \<and> rest = bs @ post \<and>
      cursor = length pre + length bs)"
    using str.dec_enc [OF 1 s(2)]
    by (auto simp: event_type_codec_def valid_event_type_def string_codec_def)
qed

interpretation bool: canonical_codec bool_codec "\<lambda>_. True"
proof
  fix pre rest b cursor
  assume "length (pre @ rest) \<le> USIZE_MAX" "decode_hamt bool_codec (pre @ rest) (length pre) = Inr (b, cursor)"
  then show "True \<and> (\<exists>bs post. encode_hamt bool_codec b = Some bs \<and> rest = bs @ post \<and>
      cursor = length pre + length bs)"
    by (cases rest) (auto simp: bool_codec_def nth_append split: if_splits)
qed (auto simp: bool_codec_def nth_append split: if_splits)

interpretation usize: canonical_codec usize_codec "\<lambda>n. n \<le> USIZE_MAX"
proof
  fix pre bs post n
  assume n: "n \<le> USIZE_MAX" and bs: "encode_hamt usize_codec n = Some bs"
    and len: "length (pre @ bs @ post) \<le> USIZE_MAX"
  from bs have "bs = le_bytes 8 n" by (simp add: usize_codec_def)
  with n show "decode_hamt usize_codec (pre @ bs @ post) (length pre) = Inr (n, length pre + length bs)"
    using read_fixed_append [OF len] by (simp add: usize_codec_def le_value_bytes USIZE_MAX_def)
next
  fix pre rest n cursor
  assume "decode_hamt usize_codec (pre @ rest) (length pre) = Inr (n, cursor)"
  then obtain raw where raw: "read_fixed 8 (pre @ rest) (length pre) = Inr (raw, cursor)"
    "n = le_value raw" "n \<le> USIZE_MAX"
    by (auto simp: usize_codec_def split: if_splits)
  from raw(1) obtain post where "rest = raw @ post" "length raw = 8" "cursor = length pre + 8"
    by (rule read_fixed_Inr)
  then show "n \<le> USIZE_MAX \<and> (\<exists>bs post. encode_hamt usize_codec n = Some bs \<and> rest = bs @ post \<and>
      cursor = length pre + length bs)"
    using raw le_bytes_value [of raw] by (auto simp: usize_codec_def)
qed

lemma le_codec_canonical:
  assumes "LENGTH('a::len) = 8 * n"
  shows "canonical_codec (le_codec n :: 'a word hamt_codec) (\<lambda>_. True)"
proof
  have pow: "(256::nat) ^ n = 2 ^ LENGTH('a)" by (simp add: assms power_mult)
  fix pre bs post and w :: "'a word"
  {
    assume bs: "encode_hamt (le_codec n) w = Some bs" and len: "length (pre @ bs @ post) \<le> USIZE_MAX"
    from bs have "bs = le_bytes n (unat w)" by (simp add: le_codec_def)
    moreover have "unat w < 256 ^ n" unfolding pow by (rule unsigned_less)
    ultimately show "decode_hamt (le_codec n) (pre @ bs @ post) (length pre) = Inr (w, length pre + length bs)"
      using read_fixed_append [OF len] by (simp add: le_codec_def le_value_bytes)
  }
  fix rest cursor
  assume "decode_hamt (le_codec n) (pre @ rest) (length pre) = Inr (w, cursor)"
  then obtain raw where raw: "read_fixed n (pre @ rest) (length pre) = Inr (raw, cursor)"
    "w = word_of_nat (le_value raw)"
    by (auto simp: le_codec_def)
  from raw(1) obtain p where p: "rest = raw @ p" "length raw = n" "cursor = length pre + n"
    by (rule read_fixed_Inr)
  have "unat w = le_value raw"
    using le_value_less [of raw] p(2) pow by (simp add: raw(2) unsigned_of_nat take_bit_eq_mod)
  then show "True \<and> (\<exists>bs post. encode_hamt (le_codec n) w = Some bs \<and> rest = bs @ post \<and>
      cursor = length pre + length bs)"
    using p le_bytes_value [of raw] by (auto simp: le_codec_def)
qed

interpretation u64: canonical_codec "le_codec 8 :: 64 word hamt_codec" "\<lambda>_. True"
  by (rule le_codec_canonical) simp

section \<open>Nodes\<close>

lemma le_value_u32: "le_value (le_bytes 4 (unat (w :: 32 word))) = unat w"
proof -
  have "unat w < 2 ^ 32" by (rule order.strict_trans2 [OF unsigned_less]) simp
  then show ?thesis by (simp add: le_value_bytes)
qed

lemma read_u32_iff:
  assumes "length (pre @ rest) \<le> USIZE_MAX"
  shows "read_u32 msg (pre @ rest) (length pre) = Inr (w, cursor) \<longleftrightarrow>
    (\<exists>post. rest = u32_to_le_bytes w @ post) \<and> cursor = length pre + 4"
proof
  assume "read_u32 msg (pre @ rest) (length pre) = Inr (w, cursor)"
  then obtain raw where raw: "read_fixed 4 (pre @ rest) (length pre) = Inr (raw, cursor)"
    "w = word_of_nat (le_value raw)"
    by (auto simp: read_u32_def)
  from raw(1) obtain p where "rest = raw @ p" "length raw = 4" "cursor = length pre + 4"
    by (rule read_fixed_Inr)
  moreover from this have "u32_to_le_bytes w = raw"
    using le_value_less [of raw] le_bytes_value [of raw]
    by (simp add: raw(2) u32_to_le_bytes_def unsigned_of_nat take_bit_eq_mod)
  ultimately show "(\<exists>post. rest = u32_to_le_bytes w @ post) \<and> cursor = length pre + 4" by simp
next
  assume "(\<exists>post. rest = u32_to_le_bytes w @ post) \<and> cursor = length pre + 4"
  then show "read_u32 msg (pre @ rest) (length pre) = Inr (w, cursor)"
    using assms read_fixed_append [of pre "u32_to_le_bytes w"]
    by (auto simp: read_u32_def u32_to_le_bytes_def le_value_u32)
qed

lemma length_u32 [simp]: "length (u32_to_le_bytes w) = 4"
  by (simp add: u32_to_le_bytes_def)

lemma count_ones_le: "count_ones w \<le> 32"
  using length_filter_le [of "bit w" "[0..<32]"] by (simp add: count_ones_def)

lemma unat_count: "n \<le> 32 \<Longrightarrow> unat (word_of_nat n :: 32 word) = n"
  by (simp add: unsigned_of_nat take_bit_eq_mod)

lemma header_iff:
  assumes "length (pre @ rest) \<le> USIZE_MAX"
  shows "decode_node_header (pre @ rest) (length pre) = Inr (dm, nm, l, c) \<longleftrightarrow>
    (\<exists>post. rest = u32_to_le_bytes dm @ u32_to_le_bytes nm @ u32_to_le_bytes (word_of_nat l) @
       u32_to_le_bytes (word_of_nat c) @ post) \<and>
    dm AND nm = 0 \<and> l = count_ones dm \<and> c = count_ones nm"
    (is "?L \<longleftrightarrow> ?R")
proof
  assume ?L
  then obtain lw cw c1 c2 c3 c4 where
    1: "read_u32 ''Buffer too short for datamap'' (pre @ rest) (length pre) = Inr (dm, c1)" and
    2: "read_u32 ''Buffer too short for nodemap'' (pre @ rest) c1 = Inr (nm, c2)" and
    3: "read_u32 ''Buffer too short for leaf count'' (pre @ rest) c2 = Inr (lw, c3)" and
    4: "read_u32 ''Buffer too short for child count'' (pre @ rest) c3 = Inr (cw, c4)" and
    5: "dm AND nm = 0" "unat lw = count_ones dm" "unat cw = count_ones nm" "l = unat lw" "c = unat cw"
    unfolding decode_node_header_def by (fastforce split: if_splits)
  from 1 obtain r1 where r1: "rest = u32_to_le_bytes dm @ r1" "c1 = length pre + 4"
    using read_u32_iff [OF assms] by blast
  with 2 assms read_u32_iff [of "pre @ u32_to_le_bytes dm" r1]
  obtain r2 where r2: "r1 = u32_to_le_bytes nm @ r2" "c2 = length pre + 8" by auto
  with 3 r1 assms read_u32_iff [of "pre @ u32_to_le_bytes dm @ u32_to_le_bytes nm" r2]
  obtain r3 where r3: "r2 = u32_to_le_bytes lw @ r3" "c3 = length pre + 12" by auto
  with 4 r1 r2 assms read_u32_iff [of "pre @ u32_to_le_bytes dm @ u32_to_le_bytes nm @ u32_to_le_bytes lw" r3]
  obtain r4 where "r3 = u32_to_le_bytes cw @ r4" by auto
  then have "rest = u32_to_le_bytes dm @ u32_to_le_bytes nm @ u32_to_le_bytes (word_of_nat l) @
       u32_to_le_bytes (word_of_nat c) @ r4"
    unfolding r1 r2 r3 5(4,5) by simp
  then show ?R using 5(1-3) unfolding 5(4,5) by blast
next
  assume ?R
  then obtain post where rest: "rest = u32_to_le_bytes dm @ u32_to_le_bytes nm @
      u32_to_le_bytes (word_of_nat l) @ u32_to_le_bytes (word_of_nat c) @ post"
    and lc: "dm AND nm = 0" "l = count_ones dm" "c = count_ones nm" by blast
  have "read_u32 msg (pre @ rest) (length pre) = Inr (dm, length pre + 4)" for msg
    using read_u32_iff [OF assms] rest by blast
  moreover have "read_u32 msg (pre @ rest) (length pre + 4) = Inr (nm, length pre + 8)" for msg
    using read_u32_iff [of "pre @ u32_to_le_bytes dm"] rest assms by simp
  moreover have "read_u32 msg (pre @ rest) (length pre + 8) = Inr (word_of_nat l, length pre + 12)" for msg
    using read_u32_iff [of "pre @ u32_to_le_bytes dm @ u32_to_le_bytes nm"] rest assms by simp
  moreover have "read_u32 msg (pre @ rest) (length pre + 12) = Inr (word_of_nat c, length pre + 16)" for msg
    using read_u32_iff [of "pre @ u32_to_le_bytes dm @ u32_to_le_bytes nm @ u32_to_le_bytes (word_of_nat l)"]
      rest assms by simp
  ultimately show ?L
    using lc count_ones_le [of dm] count_ones_le [of nm] by (simp add: decode_node_header_def unat_count)
qed

text \<open>Cutting a string in pieces of the same width.\<close>

lemma concat_pieces:
  "length bs = n * w \<Longrightarrow> concat (map (\<lambda>i. take w (drop (i * w) bs)) [0..<n]) = bs"
proof (induction n arbitrary: bs)
  case (Suc n)
  have "concat (map (\<lambda>i. take w (drop (i * w) bs)) [0..<Suc n]) =
      take w bs @ concat (map (\<lambda>i. take w (drop (i * w) (drop w bs))) [0..<n])"
    by (simp add: upt_conv_Cons map_Suc_upt [symmetric] del: upt_Suc) (simp add: add.commute comp_def)
  also have "\<dots> = bs" using Suc.IH [of "drop w bs"] Suc.prems by simp
  finally show ?case .
qed simp

lemma pieces_concat:
  "\<forall>h \<in> set hs. length h = w \<Longrightarrow> map (\<lambda>i. take w (drop (i * w) (concat hs))) [0..<length hs] = hs"
proof (induction hs)
  case (Cons h hs)
  then show ?case
    by (simp add: upt_conv_Cons map_Suc_upt [symmetric] del: upt_Suc) (simp add: comp_def add.commute)
qed simp

lemma length_concat_pieces: "\<forall>h \<in> set hs. length h = w \<Longrightarrow> length (concat hs) = length hs * w"
  by (induction hs) auto

definition valid_node ::
  "('k \<Rightarrow> bool) \<Rightarrow> ('v \<Rightarrow> bool) \<Rightarrow> ('k, 'v) persisted_internal_node \<Rightarrow> bool" where
  "valid_node valid_key valid_value n \<longleftrightarrow>
     (\<forall>e \<in> set (pn_leaves n). valid_key (fst e) \<and> valid_value (snd e)) \<and>
     (\<forall>h \<in> set (pn_child_hashes n). length h = 32)"

locale node_codec = k: canonical_codec ck valid_key + v: canonical_codec cv valid_value
  for ck :: "'k hamt_codec" and valid_key and cv :: "'v hamt_codec" and valid_value
begin

lemma leaves_enc_dec:
  assumes "\<forall>e \<in> set es. valid_key (fst e) \<and> valid_value (snd e)" "encode_leaves ck cv es = Some body"
    "length (pre @ body @ post) \<le> USIZE_MAX"
  shows "decode_leaves ck cv (pre @ body @ post) (length es) (length pre) = Inr (es, length pre + length body)"
  using assms
proof (induction es arbitrary: pre body)
  case (Cons e es)
  then obtain x y b where enc: "encode_hamt ck (fst e) = Some x" "encode_hamt cv (snd e) = Some y"
    "encode_leaves ck cv es = Some b" and body: "body = x @ y @ b"
    by (auto split: option.splits)
  have "decode_hamt ck (pre @ body @ post) (length pre) = Inr (fst e, length pre + length x)"
    using k.enc_dec [of "fst e" x pre "y @ b @ post"] enc Cons.prems body by simp
  moreover have "decode_hamt cv (pre @ body @ post) (length pre + length x) =
      Inr (snd e, length pre + length x + length y)"
    using v.enc_dec [of "snd e" y "pre @ x" "b @ post"] enc Cons.prems body by simp
  moreover have "decode_leaves ck cv (pre @ body @ post) (length es) (length pre + length x + length y) =
      Inr (es, length pre + length body)"
    using Cons.IH [of b "pre @ x @ y"] enc Cons.prems body by (simp add: add.assoc)
  ultimately show ?case by (simp add: add.assoc)
qed simp

lemma leaves_dec_enc:
  assumes "decode_leaves ck cv (pre @ rest) n (length pre) = Inr (es, cursor)"
    "length (pre @ rest) \<le> USIZE_MAX"
  shows "length es = n \<and> (\<forall>e \<in> set es. valid_key (fst e) \<and> valid_value (snd e)) \<and>
    (\<exists>body post. encode_leaves ck cv es = Some body \<and> rest = body @ post \<and> cursor = length pre + length body)"
  using assms
proof (induction n arbitrary: pre rest es)
  case (Suc n)
  then obtain key c1 val c2 es' where
    1: "decode_hamt ck (pre @ rest) (length pre) = Inr (key, c1)" and
    2: "decode_hamt cv (pre @ rest) c1 = Inr (val, c2)" and
    3: "decode_leaves ck cv (pre @ rest) n c2 = Inr (es', cursor)" and es: "es = (key, val) # es'"
    by (fastforce split: prod.splits)
  from k.dec_enc [OF Suc.prems(2) 1] obtain x r1 where x: "valid_key key" "encode_hamt ck key = Some x"
    "rest = x @ r1" "c1 = length pre + length x" by blast
  with 2 Suc.prems(2) v.dec_enc [of "pre @ x" r1] obtain y r2 where y: "valid_value val"
    "encode_hamt cv val = Some y" "r1 = y @ r2" "c2 = length pre + length x + length y" by auto
  with 3 x Suc.prems(2) Suc.IH [of "pre @ x @ y" r2 es'] obtain b r3 where "length es' = n"
    "\<forall>e \<in> set es'. valid_key (fst e) \<and> valid_value (snd e)" "encode_leaves ck cv es' = Some b"
    "r2 = b @ r3" "cursor = length pre + length x + length y + length b" by (auto simp: add.assoc)
  with x y show ?case by (simp add: es)
qed simp

lemma decode_v1_sound:
  assumes "length buf \<le> USIZE_MAX" and dec: "decode_v1_unverified ck cv buf = Inr n"
  shows "valid_node valid_key valid_value n \<and> encode_v1 ck cv n = Some buf"
proof -
  from dec have magic: "take 4 buf = HAMT_NODE_MAGIC" "buf ! 4 = HAMT_WIRE_VERSION" "21 \<le> length buf"
    by (auto simp: decode_v1_unverified_def split: if_splits)
  from dec obtain dm nm l c es cursor where
    hd: "decode_node_header buf 5 = Inr (dm, nm, l, c)" and
    lv: "decode_leaves ck cv buf l 21 = Inr (es, cursor)" and
    pay: "check_child_payload buf cursor c 32 = Inr ()" and
    n: "n = \<lparr> pn_datamap = dm, pn_nodemap = nm, pn_leaves = es,
      pn_child_hashes = map (\<lambda>i. take 32 (drop (cursor + i * 32) buf)) [0..<c] \<rparr>"
    unfolding decode_v1_unverified_def by (fastforce split: if_splits)
  define pre where "pre = HAMT_NODE_MAGIC @ [HAMT_WIRE_VERSION]"
  have pre: "length pre = 5" "take 5 buf = pre"
    using magic take_Suc_conv_app_nth [of 4 buf] by (simp_all add: pre_def HAMT_NODE_MAGIC_def)
  then obtain rest where buf: "buf = pre @ rest" using append_take_drop_id [of 5 buf] by metis
  obtain r1 where r1: "rest = u32_to_le_bytes dm @ u32_to_le_bytes nm @ u32_to_le_bytes (word_of_nat l) @
      u32_to_le_bytes (word_of_nat c) @ r1" and lc: "dm AND nm = 0" "l = count_ones dm" "c = count_ones nm"
    using hd header_iff [of pre rest dm nm l c] assms(1) pre(1) by (auto simp: buf)
  let ?hd = "pre @ u32_to_le_bytes dm @ u32_to_le_bytes nm @ u32_to_le_bytes (word_of_nat l) @
      u32_to_le_bytes (word_of_nat c)"
  have buf': "buf = ?hd @ r1" "length ?hd = 21" using buf r1 pre(1) by simp_all
  obtain body r2 where leaves: "length es = l" "\<forall>e \<in> set es. valid_key (fst e) \<and> valid_value (snd e)"
    "encode_leaves ck cv es = Some body" "r1 = body @ r2" "cursor = 21 + length body"
    using leaves_dec_enc [of ?hd r1 l es cursor] lv assms(1) unfolding buf' by auto
  have r2: "length r2 = c * 32" "drop cursor buf = r2"
    using pay buf' leaves by (auto simp: check_child_payload_def Let_def split: if_splits)
  have hs: "map (\<lambda>i. take 32 (drop (cursor + i * 32) buf)) [0..<c] =
      map (\<lambda>i. take 32 (drop (i * 32) r2)) [0..<c]"
    unfolding r2(2) [symmetric] by (simp add: add.commute)
  have "valid_node valid_key valid_value n"
    using leaves(2) r2(1) by (auto simp: valid_node_def n hs)
  moreover have "encode_v1 ck cv n = Some buf"
    unfolding encode_v1_def n hs using leaves lc concat_pieces [OF r2(1)] buf'(1)
    by (simp add: encode_v1_parts_def pre_def)
  ultimately show "valid_node valid_key valid_value n \<and> encode_v1 ck cv n = Some buf" ..
qed

lemma decode_v1_complete:
  assumes "length buf \<le> USIZE_MAX" and enc: "valid_node valid_key valid_value n \<and> encode_v1 ck cv n = Some buf"
  shows "decode_v1_unverified ck cv buf = Inr n"
proof -
  from enc obtain body where ok: "valid_node valid_key valid_value n" "encode_leaves ck cv (pn_leaves n) = Some body"
    "length (pn_leaves n) = count_ones (pn_datamap n)" "length (pn_child_hashes n) = count_ones (pn_nodemap n)"
    "pn_datamap n AND pn_nodemap n = 0" and
    buf: "buf = HAMT_NODE_MAGIC @ [HAMT_WIRE_VERSION] @ u32_to_le_bytes (pn_datamap n) @
      u32_to_le_bytes (pn_nodemap n) @ u32_to_le_bytes (word_of_nat (length (pn_leaves n))) @
      u32_to_le_bytes (word_of_nat (length (pn_child_hashes n))) @ body @ concat (pn_child_hashes n)"
    by (auto simp: encode_v1_def encode_v1_parts_def split: if_splits)
  let ?hd = "HAMT_NODE_MAGIC @ [HAMT_WIRE_VERSION] @ u32_to_le_bytes (pn_datamap n) @
      u32_to_le_bytes (pn_nodemap n) @ u32_to_le_bytes (word_of_nat (length (pn_leaves n))) @
      u32_to_le_bytes (word_of_nat (length (pn_child_hashes n)))"
  have hd: "length ?hd = 21" "length (HAMT_NODE_MAGIC @ [HAMT_WIRE_VERSION]) = 5"
    by (simp_all add: HAMT_NODE_MAGIC_def)
  have "decode_node_header buf 5 =
      Inr (pn_datamap n, pn_nodemap n, length (pn_leaves n), length (pn_child_hashes n))"
    using header_iff [of "HAMT_NODE_MAGIC @ [HAMT_WIRE_VERSION]"] hd(2) ok assms(1) by (simp add: buf)
  moreover have "decode_leaves ck cv buf (length (pn_leaves n)) 21 = Inr (pn_leaves n, 21 + length body)"
    using leaves_enc_dec [of "pn_leaves n" body ?hd "concat (pn_child_hashes n)"] hd ok assms(1)
    by (simp add: buf valid_node_def)
  moreover have hs: "length (concat (pn_child_hashes n)) = length (pn_child_hashes n) * 32"
    using ok(1) by (intro length_concat_pieces) (simp add: valid_node_def)
  have len: "length buf = 21 + length body + length (pn_child_hashes n) * 32"
    using hd(1) hs by (simp add: buf)
  then have "check_child_payload buf (21 + length body) (length (pn_child_hashes n)) 32 = Inr ()"
    using assms(1) by (simp add: check_child_payload_def Let_def)
  moreover have "map (\<lambda>i. take 32 (drop (21 + length body + i * 32) buf)) [0..<length (pn_child_hashes n)] =
      pn_child_hashes n"
  proof -
    have "buf = (?hd @ body) @ concat (pn_child_hashes n)" "length (?hd @ body) = 21 + length body"
      using hd(1) by (simp_all add: buf)
    then have "drop (21 + length body) buf = concat (pn_child_hashes n)"
      by (metis append_eq_conv_conj)
    then have "drop (21 + length body + i * 32) buf = drop (i * 32) (concat (pn_child_hashes n))" for i
      by (metis add.commute drop_drop)
    then show ?thesis using ok(1) pieces_concat [of "pn_child_hashes n" 32] by (simp add: valid_node_def)
  qed
  moreover have "take 4 buf = HAMT_NODE_MAGIC" "buf ! 4 = HAMT_WIRE_VERSION" "21 \<le> length buf"
    using len by (simp_all add: buf HAMT_NODE_MAGIC_def)
  ultimately show "decode_v1_unverified ck cv buf = Inr n"
    by (simp add: decode_v1_unverified_def)
qed

text \<open>The decoder accepts a buffer exactly when it is the encoding of a node, and gives that node.\<close>

lemma decode_v1_iff:
  "length buf \<le> USIZE_MAX \<Longrightarrow>
    decode_v1_unverified ck cv buf = Inr n \<longleftrightarrow> valid_node valid_key valid_value n \<and> encode_v1 ck cv n = Some buf"
  using decode_v1_sound decode_v1_complete by blast

end

text \<open>A pair of canonical codecs is one.\<close>

sublocale node_codec \<subseteq> pair: canonical_codec "pair_codec ck cv" "\<lambda>e. valid_key (fst e) \<and> valid_value (snd e)"
proof
  fix pre bs post and e :: "'k \<times> 'v"
  assume val: "valid_key (fst e) \<and> valid_value (snd e)" and enc: "encode_hamt (pair_codec ck cv) e = Some bs"
    and len: "length (pre @ bs @ post) \<le> USIZE_MAX"
  from enc obtain x y where xy: "encode_hamt ck (fst e) = Some x" "encode_hamt cv (snd e) = Some y" "bs = x @ y"
    by (auto simp: pair_codec_def split: prod.splits option.splits)
  then show "decode_hamt (pair_codec ck cv) (pre @ bs @ post) (length pre) = Inr (e, length pre + length bs)"
    using k.enc_dec [of "fst e" x pre "y @ post"] v.enc_dec [of "snd e" y "pre @ x" post] val len
    by (simp add: pair_codec_def add.assoc)
next
  fix pre rest cursor and e :: "'k \<times> 'v"
  assume len: "length (pre @ rest) \<le> USIZE_MAX"
    and "decode_hamt (pair_codec ck cv) (pre @ rest) (length pre) = Inr (e, cursor)"
  then obtain a b c1 where 1: "decode_hamt ck (pre @ rest) (length pre) = Inr (a, c1)"
    and 2: "decode_hamt cv (pre @ rest) c1 = Inr (b, cursor)" and e: "e = (a, b)"
    by (fastforce simp: pair_codec_def)
  from k.dec_enc [OF len 1] obtain x r1 where x: "valid_key a" "encode_hamt ck a = Some x" "rest = x @ r1"
    "c1 = length pre + length x" by blast
  with 2 len v.dec_enc [of "pre @ x" r1] obtain y r2 where "valid_value b" "encode_hamt cv b = Some y"
    "r1 = y @ r2" "cursor = length pre + length x + length y" by auto
  with x show "(valid_key (fst e) \<and> valid_value (snd e)) \<and> (\<exists>bs post. encode_hamt (pair_codec ck cv) e = Some bs \<and>
      rest = bs @ post \<and> cursor = length pre + length bs)"
    by (simp add: e pair_codec_def)
qed

text \<open>State nodes: the key is an event type with a state key, the value an event id.\<close>

interpretation state_key: node_codec event_type_codec valid_event_type string_codec utf8_valid
  by unfold_locales

interpretation state_node: node_codec "pair_codec event_type_codec string_codec"
  "\<lambda>k. valid_event_type (fst k) \<and> utf8_valid (snd k)" string_codec utf8_valid
  by unfold_locales

section \<open>Properties\<close>

text \<open>C36: The format of state nodes is canonical: a buffer decodes to a node exactly when it is the encoding of
  that node and the node is well-formed. Encoding is read back, and no two buffers decode to the same
  node, so a storage key commits to the bytes stored under it.\<close>
theorem node_format_canonical:
  assumes "length buf \<le> USIZE_MAX"
  shows "decode_v1_unverified (pair_codec event_type_codec string_codec) string_codec buf = Inr n \<longleftrightarrow>
    valid_node (\<lambda>k. valid_event_type (fst k) \<and> utf8_valid (snd k)) utf8_valid n \<and>
    encode_v1 (pair_codec event_type_codec string_codec) string_codec n = Some buf"
  using assms by (rule state_node.decode_v1_iff)

definition sample_node :: "(event_type \<times> string, string) persisted_internal_node" where
  "sample_node = \<lparr> pn_datamap = 4, pn_nodemap = 1, pn_leaves = [((event_type_from ''m.room.name'', []), ''$1'')],
     pn_child_hashes = [replicate 32 (CHR ''h'')] \<rparr>"

theorem node_format_canonical_witness:
  "decode_v1_unverified (pair_codec event_type_codec string_codec) string_codec
    (the (encode_v1 (pair_codec event_type_codec string_codec) string_codec sample_node)) = Inr sample_node"
proof -
  have ones: "count_ones 4 = 1" "count_ones 1 = 1" by code_simp+
  have "\<exists>buf. encode_v1 (pair_codec event_type_codec string_codec) string_codec sample_node = Some buf \<and>
      length buf \<le> USIZE_MAX"
    by (simp add: encode_v1_def encode_v1_parts_def sample_node_def ones pair_codec_def event_type_codec_def
        string_codec_def encode_len_prefixed_def HAMT_NODE_MAGIC_def USIZE_MAX_def)
  moreover have "valid_node (\<lambda>k. valid_event_type (fst k) \<and> utf8_valid (snd k)) utf8_valid sample_node"
    by (simp add: valid_node_def sample_node_def valid_event_type_def)
  ultimately show ?thesis using node_format_canonical by fastforce
qed

end
