(* ===== verification/Hamt_Bits.thy ===== *)
theory Hamt_Bits
  imports Hamt_Node Hamt_Codec_Correct
begin

text \<open>
  Bitmaps and routing. An array compressed by a bitmap holds one item per set bit, in the order of the
  slots; the operations of the trie on such arrays update one slot. The bucket of a hash at a depth is
  its digit to the base 32, so the buckets of all depths determine the hash.
\<close>

section \<open>Bits of a bitmap\<close>

lemma bit_slot_bit: "s < 32 \<Longrightarrow> bit (slot_bit s) i \<longleftrightarrow> i = s"
  by (auto simp: slot_bit_def bit_exp_iff)

lemma and_slot_bit: "s < 32 \<Longrightarrow> w AND slot_bit s = 0 \<longleftrightarrow> \<not> bit w s"
proof -
  assume s: "s < 32"
  have "w AND slot_bit s = 0 \<longleftrightarrow> (\<forall>i. \<not> bit (w AND slot_bit s) i)"
    by (auto intro: bit_word_eqI)
  then show ?thesis using s by (auto simp: bit_and_iff bit_slot_bit)
qed

lemma bit_set_slot: "s < 32 \<Longrightarrow> bit (w OR slot_bit s) i \<longleftrightarrow> bit w i \<or> i = s"
  by (simp add: bit_or_iff bit_slot_bit)

lemma bit_clear_slot: "s < 32 \<Longrightarrow> i < 32 \<Longrightarrow> bit (w AND NOT (slot_bit s)) i \<longleftrightarrow> bit w i \<and> i \<noteq> s"
  by (simp add: bit_and_iff bit_not_iff bit_slot_bit)

lemma word_slots_eqI: "(\<And>s. s < 32 \<Longrightarrow> bit v s \<longleftrightarrow> bit w s) \<Longrightarrow> v = (w :: 32 word)"
  by (rule bit_word_eqI) simp

lemma LOWER_SLOT_MASKS_mask: "s < 32 \<Longrightarrow> LOWER_SLOT_MASKS ! s = mask s"
proof -
  have "\<forall>s \<in> set [0..<32]. LOWER_SLOT_MASKS ! s = mask s" by code_simp
  then show "s < 32 \<Longrightarrow> LOWER_SLOT_MASKS ! s = mask s" by simp
qed

lemma map_index_filter: "s < 32 \<Longrightarrow> map_index w s = length (filter (bit w) [0..<s])"
proof -
  assume s: "s < 32"
  then have "lower_slot_mask s = mask s"
    by (simp add: lower_slot_mask_def vec_get_def LOWER_SLOT_MASKS_mask) (simp add: LOWER_SLOT_MASKS_def)
  then have "map_index w s = length (filter (\<lambda>i. bit w i \<and> i < s) [0..<32])"
    unfolding map_index_def count_ones_def
    by (intro arg_cong [of _ _ length] filter_cong) (auto simp: bit_and_iff bit_mask_iff)
  also have "[0..<32] = [0..<s] @ [s..<32]"
    using s upt_add_eq_append [of 0 s "32 - s"] by simp
  finally have "map_index w s = length (filter (\<lambda>i. bit w i \<and> i < s) [0..<s])" by simp
  also have "filter (\<lambda>i. bit w i \<and> i < s) [0..<s] = filter (bit w) [0..<s]" by (rule filter_cong) auto
  finally show ?thesis .
qed

section \<open>Compressed arrays\<close>

definition compressed :: "(nat \<Rightarrow> 'a) \<Rightarrow> 32 word \<Rightarrow> 'a list" where
  "compressed f w = map f (filter (bit w) [0..<32])"

lemma length_compressed [simp]: "length (compressed f w) = count_ones w"
  by (simp add: compressed_def count_ones_def)

lemma set_compressed: "set (compressed f w) = f ` {s. s < 32 \<and> bit w s}"
  by (auto simp: compressed_def)

lemma compressed_cong: "(\<And>s. s < 32 \<Longrightarrow> bit w s \<Longrightarrow> f s = g s) \<Longrightarrow> compressed f w = compressed g w"
  by (auto simp: compressed_def)

lemma compressed_split:
  assumes "s < 32"
  shows "compressed f w = map f (filter (bit w) [0..<s]) @ (if bit w s then [f s] else []) @
    map f (filter (bit w) [Suc s..<32])"
proof -
  have "[0..<32] = [0..<s] @ s # [Suc s..<32]"
    using assms upt_add_eq_append [of 0 s "32 - s"] by (simp add: upt_conv_Cons)
  then show ?thesis by (simp add: compressed_def)
qed

lemma map_filter_off: "s \<notin> set ss \<Longrightarrow> map (f(s := x)) (filter P ss) = map f (filter P ss)"
  by (induction ss) auto

lemma filter_bits_off:
  assumes "\<And>i. i < 32 \<Longrightarrow> i \<noteq> s \<Longrightarrow> bit v i \<longleftrightarrow> bit w i" "s < 32"
  shows "filter (bit v) [0..<s] = filter (bit w) [0..<s]"
    "filter (bit v) [Suc s..<32] = filter (bit w) [Suc s..<32]"
  using assms by (auto intro: filter_cong)

lemma compressed_index:
  assumes "s < 32" "bit w s"
  shows "vec_index (compressed f w) (map_index w s) = Inr (f s)"
  using assms unfolding compressed_split [OF assms(1), of f w]
  by (simp add: vec_index_def vec_get_def map_index_filter nth_append)

lemma map_index_less: "s < 32 \<Longrightarrow> bit w s \<Longrightarrow> map_index w s < count_ones w"
  using compressed_split [of s id w] by (simp add: map_index_filter flip: length_compressed [of id])

lemma compressed_update:
  assumes "s < 32" "bit w s"
  shows "(compressed f w)[map_index w s := x] = compressed (f(s := x)) w"
  using assms unfolding compressed_split [OF assms(1)]
  by (simp add: map_index_filter list_update_append map_filter_off)

lemma compressed_insert:
  assumes "s < 32" "\<not> bit w s"
  shows "vec_insert (map_index w s) x (compressed f w) = compressed (f(s := x)) (w OR slot_bit s)"
  using assms filter_bits_off [of s "w OR slot_bit s" w] unfolding compressed_split [OF assms(1)]
  by (simp add: map_index_filter vec_insert_def bit_set_slot map_filter_off)

lemma compressed_remove:
  assumes "s < 32" "bit w s"
  shows "vec_remove (map_index w s) (compressed f w) = compressed f (w AND NOT (slot_bit s))"
  using assms filter_bits_off [of s "w AND NOT (slot_bit s)" w] unfolding compressed_split [OF assms(1)]
  by (simp add: map_index_filter vec_remove_def bit_clear_slot)

lemma map_index_set: "s < 32 \<Longrightarrow> map_index (w OR slot_bit s) s = map_index w s"
  using filter_bits_off [of s "w OR slot_bit s" w] by (simp add: map_index_filter bit_set_slot)

lemma compressed_zero [simp]: "compressed f 0 = []"
  by (simp add: compressed_def)

section \<open>Routing\<close>

lemma HAMT_MAX_DEPTH_eq [simp]: "HAMT_MAX_DEPTH = 52"
  by (simp add: HAMT_MAX_DEPTH_def HAMT_BRANCH_BITS_def)

lemma le_value_drop: "le_value cs div 256 ^ n = le_value (drop n cs)"
proof (induction n arbitrary: cs)
  case (Suc n)
  show ?case
  proof (cases cs)
    case (Cons c cs')
    have "of_char c < (256::nat)" by simp
    then have "(of_char c + 256 * le_value cs') div 256 = le_value cs'" by simp
    then show ?thesis using Suc [of cs'] Cons by (simp add: div_mult2_eq)
  qed simp
qed simp

text \<open>Two bytes as a word.\<close>

lemma unat_of_char: "unat (of_char c :: 16 word) = of_char c"
  by (simp add: of_char_def)

lemma word_of_bytes: "unat (of_char a OR push_bit 8 (of_char b) :: 16 word) = of_char a + 256 * of_char b"
proof -
  have "of_char b < (256::nat)" by simp
  then have "256 * of_char b < (65536::nat)" by linarith
  then have "unat (push_bit 8 (of_char b) :: 16 word) = push_bit 8 (of_char b)"
    unfolding unsigned_push_bit_eq unat_of_char by (simp add: push_bit_eq_mult take_bit_eq_mod mult.commute)
  moreover have "(of_char a :: nat) = take_bit 8 (of_char a)" by (simp add: take_bit_eq_mod)
  then have "of_char a AND push_bit 8 (of_char b :: nat) = 0"
    by (metis (no_types) bit_eqI bit_and_iff bit_push_bit_iff bit_take_bit_iff bit_0_eq bot_apply bot_bool_def not_le)
  ultimately show ?thesis
    by (simp add: unsigned_or_eq unat_of_char flip: disjunctive_add_eq_or) (simp add: push_bit_eq_mult)
qed

lemma div_mod_split:
  assumes "s < 8" shows "(x + 65536 * r) div 2 ^ s mod 32 = x div 2 ^ s mod (32 :: nat)"
proof -
  have "(65536::nat) = 2 ^ s * (32 * 2 ^ (11 - s))"
  proof -
    have "(2::nat) ^ s * (32 * 2 ^ (11 - s)) = 2 ^ (s + 5 + (11 - s))" by (simp add: power_add)
    also have "s + 5 + (11 - s) = 16" using assms by simp
    finally show ?thesis by simp
  qed
  then have "x + 65536 * r = x + 2 ^ s * (32 * (2 ^ (11 - s) * r))" by (simp only: mult.assoc)
  also have "\<dots> div 2 ^ s = x div 2 ^ s + 32 * (2 ^ (11 - s) * r)" by simp
  finally show ?thesis by simp
qed

lemma unat_branch: "unat (w AND HAMT_BRANCH_MASK) = unat w mod 32"
proof -
  have "HAMT_BRANCH_MASK = mask 5" by (simp add: mask_eq_exp_minus_1 HAMT_BRANCH_MASK_def)
  then have "unat (w AND HAMT_BRANCH_MASK) = take_bit 5 (unat w)"
    by (metis take_bit_eq_mask unsigned_take_bit_eq)
  then show ?thesis by (simp add: take_bit_eq_mod)
qed

lemma bucket_index_digit:
  assumes "length h = 32" "d < 52"
  shows "bucket_index h d = le_value h div 32 ^ d mod 32"
proof -
  define b s where "b = d * 5 div 8" and "s = d * 5 mod 8"
  have b: "b < 32" "s < 8" "d * 5 = b * 8 + s" using assms(2) by (auto simp: b_def s_def)
  have "(32::nat) ^ d = 2 ^ (d * 5)" by (simp add: power_mult mult.commute [of d])
  also have "\<dots> = 256 ^ b * 2 ^ s" by (simp add: b(3) power_add power_mult mult.commute [of b])
  finally have "le_value h div 32 ^ d = le_value (drop b h) div 2 ^ s"
    by (simp add: div_mult2_eq le_value_drop)
  moreover have d: "drop b h = h ! b # drop (Suc b) h" using b(1) assms(1) by (simp add: Cons_nth_drop_Suc)
  define w where "w = (if b + 1 < length h
    then of_char (h ! b) OR push_bit 8 (of_char (h ! (b + 1))) else (of_char (h ! b) :: 16 word))"
  have "\<exists>r. le_value (drop b h) = unat w + 65536 * r"
  proof (cases "b + 1 < 32")
    case True
    then have "drop (Suc b) h = h ! Suc b # drop (Suc (Suc b)) h" using assms(1) by (simp add: Cons_nth_drop_Suc)
    with True show ?thesis using assms(1)
      by (intro exI [of _ "le_value (drop (Suc (Suc b)) h)"]) (simp add: d w_def word_of_bytes)
  next
    case False
    then have "drop (Suc b) h = []" using assms(1) by simp
    with False show ?thesis using assms(1) word_of_bytes [of "h ! b" "CHR 0x00"]
      by (intro exI [of _ 0]) (simp add: d w_def)
  qed
  moreover have "bucket_index h d = unat (drop_bit s w AND HAMT_BRANCH_MASK)"
    unfolding bucket_index_def Let_def HAMT_BRANCH_BITS_def b_def [symmetric] s_def [symmetric] w_def ..
  moreover have "unat (drop_bit s w) = unat w div 2 ^ s"
  proof -
    have "take_bit 16 (unat w) = unat w" by (rule take_bit_nat_eq_self, rule order.strict_trans2 [OF unsigned_less]) simp
    then show ?thesis unfolding unsigned_drop_bit_eq by (simp add: drop_bit_eq_div)
  qed
  ultimately show ?thesis using div_mod_split [OF b(2)] by (auto simp: unat_branch)
qed

lemma bucket_index_less: "bucket_index h d < 32"
  by (simp add: bucket_index_def Let_def unat_branch)

lemma digits_determine:
  assumes "\<And>d. d < n \<Longrightarrow> x div b ^ d mod b = y div b ^ d mod (b :: nat)"
  shows "x mod b ^ n = y mod b ^ n"
  using assms
proof (induction n)
  case (Suc n)
  then have "x mod b ^ n = y mod b ^ n" by simp
  moreover have "x div b ^ n mod b = y div b ^ n mod b" using Suc.prems by simp
  ultimately show ?case by (simp add: mod_mult2_eq mult.commute [of b])
qed simp

text \<open>Different hashes part ways at some depth.\<close>

lemma buckets_determine:
  assumes "length h = 32" "length h' = 32" "\<And>d. d < 52 \<Longrightarrow> bucket_index h d = bucket_index h' d"
  shows "h = h'"
proof -
  have lt: "le_value g mod 32 ^ 52 = le_value g" if "length g = 32" for g
    using le_value_less [of g] that by (simp add: order.strict_trans2)
  have "le_value h mod 32 ^ 52 = le_value h' mod 32 ^ 52"
    by (rule digits_determine) (use assms in \<open>simp add: bucket_index_digit\<close>)
  then have "le_value h = le_value h'" using assms lt by simp
  then show ?thesis by (metis assms(1,2) le_bytes_value)
qed

end
