(* ===== verification/Hamt_Correct.thy ===== *)
theory Hamt_Correct
  imports Hamt_Bits
begin

text \<open>
  Correctness of the trie. The predicate \<open>trie\<close> relates a node at a depth to the finite map it stands for:
  a slot that receives no key of the map is clear, a slot that receives one key holds it as a leaf, and
  a slot that receives several holds a child that stands for that part of the map. The form is
  canonical, so the structural hash is a function of the map. Building, insertion and removal give tries of
  the expected map, whatever the children that are only loaded on demand, and lookup reads the map.
\<close>

section \<open>The map of a trie\<close>

definition slot_map :: "('k \<Rightarrow> structural_hash) \<Rightarrow> nat \<Rightarrow> ('k \<rightharpoonup> 'v) \<Rightarrow> nat \<Rightarrow> ('k \<rightharpoonup> 'v)" where
  "slot_map kh d m s = m |` {k. bucket_index (kh k) d = s}"

definition encodable :: "('k, 'v) hamt_params \<Rightarrow> 'k \<Rightarrow> 'v \<Rightarrow> bool" where
  "encodable P k v \<longleftrightarrow> encode_hamt (hp_key P) k \<noteq> None \<and> encode_hamt (hp_value P) v \<noteq> None"

inductive trie ::
  "('k, 'v) hamt_params \<Rightarrow> string \<Rightarrow> ('k \<Rightarrow> structural_hash) \<Rightarrow> ('k, 'v, 'e) resolver \<Rightarrow> nat \<Rightarrow> ('k \<rightharpoonup> 'v)
    \<Rightarrow> ('k, 'v) hamt_node \<Rightarrow> bool" for P skey kh resolver where
  trie_node: "d < 52 \<Longrightarrow> finite (dom m) \<Longrightarrow>
     (\<forall>s < 32. bit dm s \<longleftrightarrow> card (dom (slot_map kh d m s)) = 1) \<Longrightarrow>
     (\<forall>s < 32. bit nm s \<longleftrightarrow> 2 \<le> card (dom (slot_map kh d m s))) \<Longrightarrow>
     (\<forall>s < 32. bit dm s \<longrightarrow> slot_map kh d m s = [fst (lf s) \<mapsto> snd (lf s)]) \<Longrightarrow>
     (\<forall>s < 32. bit nm s \<longrightarrow> (\<exists>c. resolve_child_ref resolver (ch s) = Inr c \<and> ref_hash (ch s) = hn_hash c \<and>
        trie P skey kh resolver (Suc d) (slot_map kh d m s) c)) \<Longrightarrow>
     rebuild_node P skey dm nm (compressed lf dm) (compressed ch nm) = Inr n \<Longrightarrow>
     trie P skey kh resolver d m n"

text \<open>What the bits, the leaf and the child of one slot have to do with the part of the map routed there.\<close>

definition slot_ok ::
  "('k, 'v) hamt_params \<Rightarrow> string \<Rightarrow> ('k \<Rightarrow> structural_hash) \<Rightarrow> ('k, 'v, 'e) resolver \<Rightarrow> nat \<Rightarrow> ('k \<rightharpoonup> 'v)
    \<Rightarrow> bool \<Rightarrow> bool \<Rightarrow> 'k \<times> 'v \<Rightarrow> ('k, 'v) node_ref \<Rightarrow> bool" where
  "slot_ok P skey kh resolver d m data sub l c \<longleftrightarrow>
     (data \<longleftrightarrow> card (dom m) = 1) \<and> (sub \<longleftrightarrow> 2 \<le> card (dom m)) \<and>
     (data \<longrightarrow> m = [fst l \<mapsto> snd l]) \<and>
     (sub \<longrightarrow> (\<exists>n. resolve_child_ref resolver c = Inr n \<and> ref_hash c = hn_hash n \<and>
        trie P skey kh resolver (Suc d) m n))"

lemma trie_iff:
  "trie P skey kh resolver d m n \<longleftrightarrow> d < 52 \<and> finite (dom m) \<and>
     (\<exists>dm nm lf ch. (\<forall>s < 32. slot_ok P skey kh resolver d (slot_map kh d m s) (bit dm s) (bit nm s) (lf s) (ch s)) \<and>
       rebuild_node P skey dm nm (compressed lf dm) (compressed ch nm) = Inr n)"
  by (subst trie.simps) (simp add: slot_ok_def, blast)

lemma slot_map_apply: "slot_map kh d m s k = (if bucket_index (kh k) d = s then m k else None)"
  by (simp add: slot_map_def restrict_map_def)

lemma slot_map_bucket: "slot_map kh d m (bucket_index (kh k) d) k = m k"
  by (simp add: slot_map_apply)

lemma slot_map_upd:
  "slot_map kh d (m(k \<mapsto> v)) s =
     (if bucket_index (kh k) d = s then (slot_map kh d m s)(k \<mapsto> v) else slot_map kh d m s)"
  "slot_map kh d (m(k := None)) s =
     (if bucket_index (kh k) d = s then (slot_map kh d m s)(k := None) else slot_map kh d m s)"
  by (auto simp: slot_map_def restrict_map_def fun_eq_iff)

lemma finite_slot_map [simp]: "finite (dom m) \<Longrightarrow> finite (dom (slot_map kh d m s))"
  by (rule finite_subset [of _ "dom m"]) (auto simp: slot_map_apply split: if_splits)

lemma slot_okE:
  assumes "slot_ok P skey kh resolver d m data sub l c" "finite (dom m)"
  obtains (empty) "\<not> data" "\<not> sub" "m = Map.empty"
  | (leaf) "data" "\<not> sub" "m = [fst l \<mapsto> snd l]"
  | (child) n where "\<not> data" "sub" "2 \<le> card (dom m)" "resolve_child_ref resolver c = Inr n"
      "ref_hash c = hn_hash n" "trie P skey kh resolver (Suc d) m n"
proof -
  consider "card (dom m) = 0" | "card (dom m) = 1" | "2 \<le> card (dom m)" by linarith
  then show ?thesis
  proof cases
    case 1
    then show ?thesis using assms empty by (simp add: slot_ok_def)
  next
    case 2
    then show ?thesis using assms leaf by (simp add: slot_ok_def)
  next
    case 3
    then show ?thesis using assms child by (auto simp: slot_ok_def)
  qed
qed

lemma slot_okD:
  assumes "slot_ok P skey kh resolver d m data sub l c"
  shows "\<not> (data \<and> sub)" "data \<Longrightarrow> m = [fst l \<mapsto> snd l]"
proof -
  from assms have "data \<longleftrightarrow> card (dom m) = 1" "sub \<longleftrightarrow> 2 \<le> card (dom m)" "data \<longrightarrow> m = [fst l \<mapsto> snd l]"
    unfolding slot_ok_def by blast+
  then show "\<not> (data \<and> sub)" "data \<Longrightarrow> m = [fst l \<mapsto> snd l]" by (linarith, blast)
qed

lemma slot_ok_empty: "slot_ok P skey kh resolver d Map.empty False False l c"
  by (simp add: slot_ok_def)

lemma slot_ok_leaf: "slot_ok P skey kh resolver d [k \<mapsto> v] True False (k, v) c"
  by (simp add: slot_ok_def)

lemma slot_ok_child:
  assumes "trie P skey kh resolver (Suc d) m n" "2 \<le> card (dom m)"
  shows "slot_ok P skey kh resolver d m False True l (Resolved n)"
  using assms by (simp add: slot_ok_def resolve_child_ref_def ref_hash_def)

section \<open>Rebuilding a node\<close>

lemma encode_leaves_ok:
  "encode_leaves (hp_key P) (hp_value P) es \<noteq> None \<longleftrightarrow> (\<forall>e \<in> set es. encodable P (fst e) (snd e))"
proof (induction es)
  case (Cons e es)
  then show ?case by (cases "encode_leaves (hp_key P) (hp_value P) es") (auto simp: encodable_def split: option.split)
qed simp

lemma rebuild_node_Inr:
  "rebuild_node P skey dm nm (compressed lf dm) (compressed ch nm) = Inr n \<longleftrightarrow>
     dm AND nm = 0 \<and> (\<forall>s < 32. bit dm s \<longrightarrow> encodable P (fst (lf s)) (snd (lf s))) \<and>
     n = HamtNode dm nm (compressed lf dm) (compressed ch nm) (hp_blake3 P (hash_prefix skey @
       STRUCTURAL_HASH_DOMAIN_V1 @
       the (encode_v1_parts (hp_key P) (hp_value P) dm nm (compressed lf dm) (map ref_hash (compressed ch nm)))))"
  (is "_ \<longleftrightarrow> ?disj \<and> ?enc \<and> ?n")
proof -
  have "?enc \<longleftrightarrow> encode_leaves (hp_key P) (hp_value P) (compressed lf dm) \<noteq> None"
    unfolding encode_leaves_ok by (auto simp: set_compressed)
  then show ?thesis
    by (auto simp: rebuild_node_def compute_structural_hash_def encode_v1_parts_def)
qed

lemma slots_disjoint:
  fixes dm nm :: "32 word"
  assumes "\<forall>s < 32. slot_ok P skey kh resolver d (f s) (bit dm s) (bit nm s) (lf s) (ch s)"
  shows "dm AND nm = 0"
proof (rule word_slots_eqI)
  fix s :: nat assume "s < 32"
  with assms have "\<not> (bit dm s \<and> bit nm s)" using slot_okD(1) by blast
  then show "bit (dm AND nm) s \<longleftrightarrow> bit 0 s" by (simp add: bit_and_iff)
qed

lemma trieI:
  assumes "d < 52" "finite (dom m)"
    and slots: "\<forall>s < 32. slot_ok P skey kh resolver d (slot_map kh d m s) (bit dm s) (bit nm s) (lf s) (ch s)"
    and enc: "\<forall>k v. m k = Some v \<longrightarrow> encodable P k v"
  shows "\<exists>n. rebuild_node P skey dm nm (compressed lf dm) (compressed ch nm) = Inr n \<and>
    trie P skey kh resolver d m n"
proof -
  have "encodable P (fst (lf s)) (snd (lf s))" if s: "s < 32" "bit dm s" for s
  proof -
    have "slot_map kh d m s = [fst (lf s) \<mapsto> snd (lf s)]" using slots s slot_okD(2) by blast
    then have "slot_map kh d m s (fst (lf s)) = Some (snd (lf s))" by simp
    then have "m (fst (lf s)) = Some (snd (lf s))" by (simp add: slot_map_apply split: if_splits)
    then show ?thesis using enc by simp
  qed
  then have "\<exists>n. rebuild_node P skey dm nm (compressed lf dm) (compressed ch nm) = Inr n"
    using slots_disjoint [OF slots] by (auto simp: rebuild_node_Inr)
  then show ?thesis unfolding trie_iff using assms(1,2) slots by blast
qed

lemma trie_encodable: "trie P skey kh resolver d m n \<Longrightarrow> m k = Some v \<Longrightarrow> encodable P k v"
proof (induction d m n rule: trie.induct)
  case (trie_node d m dm nm lf ch n)
  let ?s = "bucket_index (kh k) d"
  have k: "slot_map kh d m ?s k = Some v" using trie_node.prems by (simp add: slot_map_bucket)
  have s: "?s < 32" by (rule bucket_index_less)
  from k have "dom (slot_map kh d m ?s) \<noteq> {}" by auto
  with trie_node.hyps(2) have "card (dom (slot_map kh d m ?s)) \<noteq> 0" by simp
  then have "card (dom (slot_map kh d m ?s)) = 1 \<or> 2 \<le> card (dom (slot_map kh d m ?s))" by linarith
  then consider "bit dm ?s" | "bit nm ?s" using trie_node.hyps(3,4) s by blast
  then show ?case
  proof cases
    case 1
    then have "slot_map kh d m ?s = [fst (lf ?s) \<mapsto> snd (lf ?s)]" using trie_node.hyps(5) s by blast
    with k have "(k, v) = lf ?s" by (cases "lf ?s") (auto split: if_splits)
    moreover have "encodable P (fst (lf ?s)) (snd (lf ?s))"
      using trie_node.hyps(6) 1 s unfolding rebuild_node_Inr by blast
    ultimately show ?thesis by (metis fst_conv snd_conv)
  next
    case 2
    then show ?thesis using trie_node.IH s k by blast
  qed
qed

section \<open>The hash is a function of the map\<close>

text \<open>Two tries of one map have the same structural hash, whatever the children their resolvers supply.\<close>

lemma trie_hash_unique:
  assumes "trie P skey kh r1 d m n1" "trie P skey kh r2 d m n2"
  shows "hn_hash n1 = hn_hash n2"
  using assms
proof (induction d m n1 arbitrary: n2 rule: trie.induct)
  case (trie_node d m dm nm lf ch n1)
  from trie_node.prems obtain dm' nm' lf' ch' where
    slots: "\<forall>s < 32. slot_ok P skey kh r2 d (slot_map kh d m s) (bit dm' s) (bit nm' s) (lf' s) (ch' s)" and
    n2: "rebuild_node P skey dm' nm' (compressed lf' dm') (compressed ch' nm') = Inr n2"
    unfolding trie_iff by blast
  have dm: "dm' = dm" and nm: "nm' = nm"
    by (rule word_slots_eqI, use slots trie_node.hyps(3,4) in \<open>unfold slot_ok_def, blast\<close>)+
  have "compressed lf' dm = compressed lf dm"
  proof (rule compressed_cong)
    fix s assume "s < 32" "bit dm s"
    then have "[fst (lf' s) \<mapsto> snd (lf' s)] = [fst (lf s) \<mapsto> snd (lf s)]"
      using slots slot_okD(2) trie_node.hyps(5) unfolding dm by metis
    then show "lf' s = lf s" by (metis fun_upd_same fun_upd_apply option.distinct(1) option.inject prod_eqI)
  qed
  moreover have "map ref_hash (compressed ch' nm) = map ref_hash (compressed ch nm)"
  proof -
    have "ref_hash (ch' s) = ref_hash (ch s)" if s: "s < 32" "bit nm s" for s
    proof -
      from slots s obtain c' where c': "ref_hash (ch' s) = hn_hash c'" "trie P skey kh r2 (Suc d) (slot_map kh d m s) c'"
        unfolding nm slot_ok_def by blast
      with trie_node.IH s show ?thesis by (metis c')
    qed
    then show ?thesis by (auto simp: compressed_def)
  qed
  ultimately show ?case
    using trie_node.hyps(6) n2 unfolding dm nm rebuild_node_Inr by simp
qed

section \<open>Lookup\<close>

lemma search_loop_correct:
  "trie P skey kh resolver d m n \<Longrightarrow> search_loop resolver key (kh key) n d = Inr (m key)"
proof (induction d m n rule: trie.induct)
  case (trie_node d m dm nm lf ch n)
  let ?s = "bucket_index (kh key) d"
  have s: "?s < 32" by (rule bucket_index_less)
  have slot: "slot_ok P skey kh resolver d (slot_map kh d m ?s) (bit dm ?s) (bit nm ?s) (lf ?s) (ch ?s)"
    using trie_node.hyps s trie_node.IH unfolding slot_ok_def by blast
  have n: "hn_datamap n = dm" "hn_nodemap n = nm" "hn_leaves n = compressed lf dm" "hn_children n = compressed ch nm"
    using trie_node.hyps(6) unfolding rebuild_node_Inr by simp_all
  have m: "m key = slot_map kh d m ?s key" by (simp add: slot_map_bucket)
  note step = search_loop.simps [of resolver key "kh key" n d] slot_at_def [of n "kh key" d]
  from slot finite_slot_map [OF trie_node.hyps(2)] show ?case
  proof (cases rule: slot_okE)
    case empty
    then show ?thesis using s trie_node.hyps(1) by (simp add: step n and_slot_bit m Let_def)
  next
    case leaf
    obtain k v where lf: "lf ?s = (k, v)" by (cases "lf ?s")
    have "slot_at n (kh key) d = Inr (SlotLeaf k v)"
      using leaf s by (simp add: step n and_slot_bit compressed_index lf Let_def)
    then show ?thesis using trie_node.hyps(1) leaf by (simp add: step(1) m lf)
  next
    case (child c)
    have at: "slot_at n (kh key) d = Inr (SlotChild (ch ?s))"
      using child s by (simp add: step n and_slot_bit compressed_index Let_def)
    have IH: "search_loop resolver key (kh key) c (Suc d) = Inr (m key)"
      using trie_node.IH s child m by (metis sum.inject(2))
    show ?thesis
    proof (cases "ch ?s")
      case (Resolved x)
      then show ?thesis using child at IH trie_node.hyps(1) by (simp add: step(1) resolve_child_ref_def)
    next
      case (Lazy h)
      then have "resolver h = Inr c" using child by (simp add: resolve_child_ref_def)
      then show ?thesis using at IH trie_node.hyps(1) Lazy by (simp add: step(1))
    qed
  qed
qed

section \<open>Building\<close>

abbreviation bucket_of :: "nat \<Rightarrow> ('k, 'v) build_entry list \<Rightarrow> nat \<Rightarrow> ('k, 'v) build_entry list" where
  "bucket_of d es s \<equiv> filter (\<lambda>e. bucket_index (be_path_hash e) d = s) es"

lemma fold_push_bucket:
  assumes "length bs = 32"
  shows "fold (push_bucket d) es bs = map (\<lambda>s. bs ! s @ bucket_of d es s) [0..<32]"
  using assms
proof (induction es arbitrary: bs)
  case Nil
  then show ?case by (auto intro: nth_equalityI)
next
  case (Cons e es)
  have "bucket_index (be_path_hash e) d < 32" by (rule bucket_index_less)
  with Cons show ?case by (auto simp: push_bucket_def Let_def nth_list_update)
qed

lemma fill_buckets_eq: "enumerate 0 (fill_buckets d es) = map (\<lambda>s. (s, bucket_of d es s)) [0..<32]"
proof -
  have "fill_buckets d es = map (bucket_of d es) [0..<32]"
    unfolding fill_buckets_def by (subst fold_push_bucket) (simp_all add: HAMT_BRANCH_FACTOR_def HAMT_BRANCH_BITS_def)
  then show ?thesis by (simp add: enumerate_eq_zip zip_map2 zip_same_conv_map)
qed

definition or_slots :: "(nat \<Rightarrow> bool) \<Rightarrow> nat list \<Rightarrow> 32 word \<Rightarrow> 32 word" where
  "or_slots Q ss w = fold (\<lambda>s w. if Q s then w OR slot_bit s else w) ss w"

lemma bit_or_slots:
  "\<forall>s \<in> set ss. s < 32 \<Longrightarrow> bit (or_slots Q ss w) i \<longleftrightarrow> bit w i \<or> i \<in> set ss \<and> Q i"
  by (induction ss arbitrary: w) (auto simp: or_slots_def bit_set_slot)

lemma or_slots_Cons: "or_slots Q (s # ss) w = or_slots Q ss (if Q s then w OR slot_bit s else w)"
  by (simp add: or_slots_def)

abbreviation leaf_of :: "('k, 'v) build_entry \<Rightarrow> 'k \<times> 'v" where
  "leaf_of e \<equiv> (be_key e, be_value e)"

lemma build_slots_correct:
  assumes "\<forall>s \<in> set ss. 2 \<le> length (B s) \<longrightarrow> Suc d < 52 \<and> build_node P key (B s) (Suc d) = Inr (chd s)"
  shows "build_slots P key d (map (\<lambda>s. (s, B s)) ss) (dm, nm, lvs, chs) =
    Inr (or_slots (\<lambda>s. length (B s) = 1) ss dm, or_slots (\<lambda>s. 2 \<le> length (B s)) ss nm,
      lvs @ map (\<lambda>s. leaf_of (hd (B s))) (filter (\<lambda>s. length (B s) = 1) ss),
      chs @ map (\<lambda>s. Resolved (chd s)) (filter (\<lambda>s. 2 \<le> length (B s)) ss))"
  using assms
proof (induction ss arbitrary: dm nm lvs chs)
  case (Cons s ss)
  consider "B s = []" | e where "B s = [e]" | e e' es where "B s = e # e' # es"
    by (metis neq_Nil_conv)
  moreover have IH: "build_slots P key d (map (\<lambda>s. (s, B s)) ss) (dm, nm, lvs, chs) =
    Inr (or_slots (\<lambda>s. length (B s) = 1) ss dm, or_slots (\<lambda>s. 2 \<le> length (B s)) ss nm,
      lvs @ map (\<lambda>s. leaf_of (hd (B s))) (filter (\<lambda>s. length (B s) = 1) ss),
      chs @ map (\<lambda>s. Resolved (chd s)) (filter (\<lambda>s. 2 \<le> length (B s)) ss))" for dm nm lvs chs
    using Cons.prems by (intro Cons.IH) simp
  ultimately show ?case
    by cases (use Cons.prems in \<open>simp_all add: IH [unfolded One_nat_def] or_slots_Cons\<close>)
qed (simp add: or_slots_def)

definition entry_map :: "('k, 'v) build_entry list \<Rightarrow> ('k \<rightharpoonup> 'v)" where
  "entry_map es = map_of (map leaf_of es)"

lemma entry_map_simps [simp]:
  "entry_map [] = Map.empty"
  "entry_map (e # es) = (entry_map es)(be_key e \<mapsto> be_value e)"
  by (simp_all add: entry_map_def)

lemma dom_entry_map: "dom (entry_map es) = be_key ` set es"
  by (auto simp: entry_map_def dom_map_of_conv_image_fst image_image)

lemma card_entry_map: "distinct (map be_key es) \<Longrightarrow> card (dom (entry_map es)) = length es"
  unfolding dom_entry_map by (metis distinct_card length_map set_map)

lemma entry_map_bucket:
  assumes "\<forall>e \<in> set es. be_path_hash e = kh (be_key e)"
  shows "slot_map kh d (entry_map es) s = entry_map (bucket_of d es s)"
proof
  fix x
  from assms have "(if bucket_index (kh x) d = s then entry_map es x else None) = entry_map (bucket_of d es s) x"
    by (induction es) auto
  then show "slot_map kh d (entry_map es) s x = entry_map (bucket_of d es s) x" by (simp add: slot_map_apply)
qed

text \<open>The entries of a subtree agree on the buckets above it and have different hashes.\<close>

definition routed :: "('k \<Rightarrow> structural_hash) \<Rightarrow> nat \<Rightarrow> 'k set \<Rightarrow> bool" where
  "routed kh d K \<longleftrightarrow> (\<forall>k \<in> K. length (kh k) = 32) \<and> inj_on kh K \<and>
     (\<forall>k \<in> K. \<forall>l \<in> K. \<forall>j < d. bucket_index (kh k) j = bucket_index (kh l) j)"

lemma routed_slot: "routed kh d K \<Longrightarrow> L \<subseteq> {k \<in> K. bucket_index (kh k) d = s} \<Longrightarrow> routed kh (Suc d) L"
  unfolding routed_def by (auto simp: less_Suc_eq subset_iff intro: inj_on_subset)

lemma routed_depth:
  assumes "routed kh d K" "k \<in> K" "l \<in> K" "k \<noteq> l"
  shows "d < 52"
proof (rule ccontr)
  assume d: "\<not> d < 52"
  have "bucket_index (kh k) j = bucket_index (kh l) j" if "j < 52" for j
  proof -
    have "j < d" using d that by linarith
    then show ?thesis using assms(1-3) unfolding routed_def by blast
  qed
  then have "kh k = kh l" using assms(1-3) unfolding routed_def by (intro buckets_determine) blast+
  then show False using assms unfolding routed_def by (blast dest: inj_onD)
qed

lemma build_node_correct:
  assumes "d < 52" "distinct (map be_key es)"
    "\<forall>e \<in> set es. be_path_hash e = kh (be_key e) \<and> encodable P (be_key e) (be_value e)"
    "routed kh d (be_key ` set es)"
  shows "\<exists>n. build_node P skey es d = Inr n \<and> trie P skey kh resolver d (entry_map es) n"
  using assms
proof (induction "52 - d" arbitrary: d es rule: less_induct)
  case less
  let ?B = "bucket_of d es"
  have sub: "distinct (map be_key (?B s))" "routed kh (Suc d) (be_key ` set (?B s))"
    "\<forall>e \<in> set (?B s). be_path_hash e = kh (be_key e) \<and> encodable P (be_key e) (be_value e)" for s
    using less.prems(2,3,4) by (auto simp: distinct_map inj_on_def intro!: routed_slot [of kh d _ _ s])
  have "\<exists>c. Suc d < 52 \<and> build_node P skey (?B s) (Suc d) = Inr c \<and>
      trie P skey kh resolver (Suc d) (entry_map (?B s)) c" if len: "2 \<le> length (?B s)" for s
  proof -
    obtain e e' r where "?B s = e # e' # r" using len by (cases "?B s"; cases "tl (?B s)") auto
    with sub(1) [of s] have "be_key e \<in> be_key ` set (?B s)" "be_key e' \<in> be_key ` set (?B s)" "be_key e \<noteq> be_key e'"
      by auto
    then have "Suc d < 52" using routed_depth [OF sub(2)] by blast
    then show ?thesis using less.hyps [OF _ _ sub(1,3,2)] less.prems(1) by simp
  qed
  then obtain chd where chd: "\<And>s. 2 \<le> length (?B s) \<Longrightarrow> Suc d < 52 \<and>
      build_node P skey (?B s) (Suc d) = Inr (chd s) \<and>
      trie P skey kh resolver (Suc d) (entry_map (?B s)) (chd s)"
    by metis
  define dm nm where "dm = or_slots (\<lambda>s. length (?B s) = 1) [0..<32] 0"
    and "nm = or_slots (\<lambda>s. 2 \<le> length (?B s)) [0..<32] 0"
  define lf ch where "lf = (\<lambda>s. leaf_of (hd (?B s)))" and "ch = (\<lambda>s. Resolved (chd s))"
  have bits: "bit dm s \<longleftrightarrow> length (?B s) = 1" "bit nm s \<longleftrightarrow> 2 \<le> length (?B s)" if "s < 32" for s
    using that by (simp_all add: dm_def nm_def bit_or_slots)
  have filters: "filter (\<lambda>s. length (?B s) = 1) [0..<32] = filter (bit dm) [0..<32]"
    "filter (\<lambda>s. 2 \<le> length (?B s)) [0..<32] = filter (bit nm) [0..<32]"
    by (rule filter_cong; use bits in simp)+
  have parts: "build_slots P skey d (enumerate 0 (fill_buckets d es)) (0, 0, [], []) =
      Inr (dm, nm, compressed lf dm, compressed ch nm)"
    unfolding fill_buckets_eq compressed_def lf_def ch_def dm_def nm_def
      filters [symmetric, unfolded dm_def nm_def]
    by (subst build_slots_correct [where chd = chd]) (use chd in blast, simp)
  have slots: "slot_ok P skey kh resolver d (slot_map kh d (entry_map es) s) (bit dm s) (bit nm s) (lf s) (ch s)"
    if s: "s < 32" for s
  proof -
    have m: "slot_map kh d (entry_map es) s = entry_map (?B s)"
      using less.prems(3) by (intro entry_map_bucket) auto
    consider "?B s = []" | e where "?B s = [e]" | "2 \<le> length (?B s)"
      by (cases "?B s"; cases "tl (?B s)") auto
    then show ?thesis
    proof cases
      case 1
      then show ?thesis unfolding m using bits [OF s] by (simp add: entry_map_def slot_ok_empty)
    next
      case (2 e)
      then show ?thesis unfolding m using bits [OF s] by (simp add: entry_map_def lf_def slot_ok_leaf)
    next
      case 3
      then show ?thesis unfolding m using bits [OF s] chd [OF 3] card_entry_map [OF sub(1)]
        by (simp add: ch_def slot_ok_child)
    qed
  qed
  have "\<exists>n. rebuild_node P skey dm nm (compressed lf dm) (compressed ch nm) = Inr n \<and>
      trie P skey kh resolver d (entry_map es) n"
    by (rule trieI) (use less.prems slots in \<open>auto simp: entry_map_def dom_map_of_conv_image_fst dest!: map_of_SomeD\<close>)
  then show ?case using parts less.prems(1) by (auto simp: build_node.simps)
qed

end
