(* ===== verification/Hamt_Mutate.thy ===== *)
theory Hamt_Mutate
  imports Hamt_Correct
begin

text \<open>
  Insertion and removal in the trie, and what they give together: the trie refines a finite map, and the
  structural hash of the root depends on the map only, not on the order of the mutations that led to it.
\<close>

section \<open>Changing one slot\<close>

lemma slots_set:
  assumes "\<forall>i < 32. slot_ok P skey kh resolver d (slot_map kh d m i) (bit dm i) (bit nm i) (lf i) (ch i)"
    and "\<forall>i < 32. i \<noteq> s \<longrightarrow> slot_map kh d m' i = slot_map kh d m i \<and> bit dm' i = bit dm i \<and> bit nm' i = bit nm i"
    and "slot_ok P skey kh resolver d (slot_map kh d m' s) (bit dm' s) (bit nm' s) l c"
  shows "\<forall>i < 32. slot_ok P skey kh resolver d (slot_map kh d m' i) (bit dm' i) (bit nm' i) ((lf(s := l)) i) ((ch(s := c)) i)"
  using assms by auto

lemma trie_set_slot:
  assumes "\<forall>i < 32. slot_ok P skey kh resolver d (slot_map kh d m i) (bit dm i) (bit nm i) (lf i) (ch i)"
    and "d < 52" "finite (dom m')" "\<forall>x y. m' x = Some y \<longrightarrow> encodable P x y"
    and "\<forall>i < 32. i \<noteq> s \<longrightarrow> slot_map kh d m' i = slot_map kh d m i \<and> bit dm' i = bit dm i \<and> bit nm' i = bit nm i"
    and "slot_ok P skey kh resolver d (slot_map kh d m' s) (bit dm' s) (bit nm' s) l c"
  shows "\<exists>n'. rebuild_node P skey dm' nm' (compressed (lf(s := l)) dm') (compressed (ch(s := c)) nm') = Inr n' \<and>
    trie P skey kh resolver d m' n'"
  by (rule trieI [OF assms(2,3) slots_set [OF assms(1,5,6)] assms(4)])

lemma trieE:
  assumes "trie P skey kh resolver d m n"
  obtains dm nm lf ch where "d < 52" "finite (dom m)"
    "\<forall>s < 32. slot_ok P skey kh resolver d (slot_map kh d m s) (bit dm s) (bit nm s) (lf s) (ch s)"
    "hn_datamap n = dm" "hn_nodemap n = nm" "hn_leaves n = compressed lf dm" "hn_children n = compressed ch nm"
  using assms unfolding trie_iff rebuild_node_Inr by (metis hamt_node.sel)

section \<open>Insertion\<close>

lemma card_upd_le: "finite (dom m) \<Longrightarrow> card (dom m) \<le> card (dom (m(k \<mapsto> v)))"
  by (rule card_mono) auto

lemma split_leaf_correct:
  assumes n: "hn_datamap n = dm" "hn_nodemap n = nm" "hn_leaves n = compressed lf dm" "hn_children n = compressed ch nm"
    and s: "s < 32" "bit dm s" "\<not> bit nm s" and lf: "lf s = (l, w)" and k: "k \<noteq> l"
    and r: "routed kh (Suc d) {l, k}" and enc: "encodable P l w" "encodable P k v"
    and m: "slot_map kh d m s = [l \<mapsto> w]" "s = bucket_index (kh k) d"
    and slots: "\<forall>i < 32. slot_ok P skey kh resolver d (slot_map kh d m i) (bit dm i) (bit nm i) (lf i) (ch i)"
    and fin: "d < 52" "finite (dom m)" "\<forall>x y. m x = Some y \<longrightarrow> encodable P x y"
  shows "\<exists>n' em. split_leaf P skey kh n k v (kh k) s (Suc d) = Inr (n', None, em) \<and>
    trie P skey kh resolver d (m(k \<mapsto> v)) n'"
proof -
  let ?es = "[\<lparr> be_key = l, be_value = w, be_path_hash = kh l \<rparr>, \<lparr> be_key = k, be_value = v, be_path_hash = kh k \<rparr>]"
  have "Suc d < 52" using routed_depth [OF r] k by blast
  then obtain c where c: "build_node P skey ?es (Suc d) = Inr c" "trie P skey kh resolver (Suc d) (entry_map ?es) c"
    using build_node_correct [of "Suc d" ?es kh P skey resolver] k enc r by auto
  have em: "entry_map ?es = [l \<mapsto> w](k \<mapsto> v)" using k by (simp add: fun_upd_twist)
  have "slot_map kh d (m(k \<mapsto> v)) s = [l \<mapsto> w](k \<mapsto> v)" 
    using m(1) by (simp add: slot_map_upd flip: m(2))
  moreover have "2 \<le> card (dom ([l \<mapsto> w](k \<mapsto> v)))" using k by simp
  ultimately have ok: "slot_ok P skey kh resolver d (slot_map kh d (m(k \<mapsto> v)) s) False True (lf s) (Resolved c)"
    using slot_ok_child [OF c(2)] em by metis
  let ?dm = "dm AND NOT (slot_bit s)" and ?nm = "nm OR slot_bit s"
  have "\<exists>n'. rebuild_node P skey ?dm ?nm (compressed (lf(s := lf s)) ?dm) (compressed (ch(s := Resolved c)) ?nm) = Inr n' \<and>
      trie P skey kh resolver d (m(k \<mapsto> v)) n'"
    by (rule trie_set_slot [OF slots fin(1)])
      (use fin enc ok s m(2) in \<open>auto simp: slot_map_upd bit_set_slot bit_clear_slot\<close>)
  then obtain n' where n': "rebuild_node P skey ?dm ?nm (compressed lf ?dm) (compressed (ch(s := Resolved c)) ?nm) = Inr n'"
    "trie P skey kh resolver d (m(k \<mapsto> v)) n'" by auto
  have "split_leaf P skey kh n k v (kh k) s (Suc d) = Inr (n', None, split_nodes c @ [n'])"
    using s n'(1) c(1) by (simp add: split_leaf_def n compressed_index lf compressed_remove map_index_set
        compressed_insert Let_def)
  then show ?thesis using n'(2) by blast
qed

lemma insert_node_correct:
  assumes "trie P skey kh resolver d m n" "routed kh d (insert k (dom m))" "encodable P k v"
  shows "\<exists>n' em. insert_node P skey kh resolver k v (kh k) n d = Inr (n', m k, em) \<and>
    trie P skey kh resolver d (m(k \<mapsto> v)) n'"
  using assms
proof (induction "52 - d" arbitrary: d m n rule: less_induct)
  case less
  define s where "s = bucket_index (kh k) d"
  have s: "s < 32" by (simp add: s_def bucket_index_less)
  from less.prems(1) obtain dm nm lf ch where d: "d < 52" and fin: "finite (dom m)" and
    slots: "\<forall>i < 32. slot_ok P skey kh resolver d (slot_map kh d m i) (bit dm i) (bit nm i) (lf i) (ch i)" and
    n: "hn_datamap n = dm" "hn_nodemap n = nm" "hn_leaves n = compressed lf dm" "hn_children n = compressed ch nm"
    by (rule trieE)
  have enc: "\<forall>x y. m x = Some y \<longrightarrow> encodable P x y" "\<forall>x y. (m(k \<mapsto> v)) x = Some y \<longrightarrow> encodable P x y"
    using trie_encodable [OF less.prems(1)] less.prems(3) by auto
  have others: "\<forall>i < 32. i \<noteq> s \<longrightarrow> slot_map kh d (m(k \<mapsto> v)) i = slot_map kh d m i"
    by (simp add: slot_map_upd s_def)
  have here: "slot_map kh d (m(k \<mapsto> v)) s = (slot_map kh d m s)(k \<mapsto> v)" by (simp add: slot_map_upd s_def)
  have mk: "m k = slot_map kh d m s k" by (simp add: s_def slot_map_bucket)
  note step = insert_node.simps [of P skey kh resolver k v "kh k" n d]
  note change = trie_set_slot [OF slots d, where s = s and m' = "m(k \<mapsto> v)"]
  from slots s have "slot_ok P skey kh resolver d (slot_map kh d m s) (bit dm s) (bit nm s) (lf s) (ch s)" by blast
  then show ?case using finite_slot_map [OF fin]
  proof (cases rule: slot_okE)
    case empty
    have "\<exists>n'. rebuild_node P skey (dm OR slot_bit s) nm (compressed (lf(s := (k, v))) (dm OR slot_bit s))
        (compressed (ch(s := ch s)) nm) = Inr n' \<and> trie P skey kh resolver d (m(k \<mapsto> v)) n'"
      by (rule change) (use s fin enc(2) empty others here in \<open>simp_all add: bit_set_slot slot_ok_leaf\<close>)
    then show ?thesis using d s empty
      by (auto simp: step n Let_def s_def [symmetric] and_slot_bit compressed_insert mk)
  next
    case leaf
    obtain l w where lf: "lf s = (l, w)" by (cases "lf s")
    have at: "vec_index (compressed lf dm) (map_index dm s) = Inr (l, w)"
      using compressed_index [OF s, of dm lf] leaf lf by simp
    show ?thesis
    proof (cases "l = k")
      case True
      have "\<exists>n'. rebuild_node P skey dm nm (compressed (lf(s := (k, v))) dm) (compressed (ch(s := ch s)) nm) = Inr n' \<and>
          trie P skey kh resolver d (m(k \<mapsto> v)) n'"
        by (rule change) (use fin enc(2) leaf others here lf True in \<open>simp_all add: slot_ok_leaf\<close>)
      then show ?thesis using d s leaf True lf
        by (auto simp: step n Let_def s_def [symmetric] and_slot_bit at compressed_update mk)
    next
      case False
      have l: "slot_map kh d m s l = Some w" using leaf lf by simp
      then have l: "m l = Some w" "bucket_index (kh l) d = s" by (auto simp: slot_map_apply split: if_splits)
      then have "routed kh (Suc d) {l, k}" using less.prems(2) by (intro routed_slot [of kh d _ _ s]) (auto simp: s_def)
      then show ?thesis
        using split_leaf_correct [OF n s leaf(1,2) lf _ _ _ less.prems(3) _ s_def slots d fin enc(1)]
          False enc(1) l leaf lf d s
        by (auto simp: step n Let_def s_def [symmetric] and_slot_bit at mk)
    qed
  next
    case (child c)
    have "routed kh (Suc d) (insert k (dom (slot_map kh d m s)))"
      using less.prems(2) by (intro routed_slot [of kh d _ _ s]) (auto simp: s_def slot_map_apply split: if_splits)
    then obtain c' em where c': "insert_node P skey kh resolver k v (kh k) c (Suc d) = Inr (c', m k, em)"
      "trie P skey kh resolver (Suc d) ((slot_map kh d m s)(k \<mapsto> v)) c'"
      using less.hyps [OF diff_less_mono2 [OF lessI d] child(6) _ less.prems(3)] unfolding mk by blast
    have "2 \<le> card (dom ((slot_map kh d m s)(k \<mapsto> v)))"
      using child(3) card_upd_le [OF finite_slot_map [OF fin]] order_trans by blast
    with c'(2) have ok: "slot_ok P skey kh resolver d (slot_map kh d (m(k \<mapsto> v)) s) False True (lf s) (Resolved c')"
      unfolding here by (rule slot_ok_child)
    have "\<exists>n'. rebuild_node P skey dm nm (compressed (lf(s := lf s)) dm) (compressed (ch(s := Resolved c')) nm) = Inr n' \<and>
        trie P skey kh resolver d (m(k \<mapsto> v)) n'"
      by (rule change) (use fin enc(2) child others ok in simp_all)
    then show ?thesis using d s child c'(1)
      by (auto simp: step n Let_def s_def [symmetric] and_slot_bit compressed_index compressed_update
          rebuild_with_child_def map_index_less)
  qed
qed

section \<open>Removal\<close>

definition outcome_ok ::
  "('k, 'v) hamt_params \<Rightarrow> string \<Rightarrow> ('k \<Rightarrow> structural_hash) \<Rightarrow> ('k, 'v, 'e) resolver \<Rightarrow> nat \<Rightarrow> ('k \<rightharpoonup> 'v)
    \<Rightarrow> ('k, 'v) remove_outcome \<Rightarrow> bool" where
  "outcome_ok P skey kh resolver d m out \<longleftrightarrow> (case out of
       OutcomeEmpty \<Rightarrow> m = Map.empty
     | OutcomeLeaf k v \<Rightarrow> m = [k \<mapsto> v]
     | OutcomeNode n \<Rightarrow> trie P skey kh resolver d m n \<and> 2 \<le> card (dom m))"

text \<open>Without children the map is the list of the leaves.\<close>

lemma leaves_only:
  fixes dm :: "32 word"
  assumes slots: "\<forall>s < 32. slot_ok P skey kh resolver d (slot_map kh d m s) (bit dm s) False (lf s) (ch s)"
    and fin: "finite (dom m)"
  shows "m k = Some v \<longleftrightarrow> (k, v) \<in> set (compressed lf dm)" "distinct (map fst (compressed lf dm))"
proof -
  have leaf: "bit dm s \<and> lf s = (k, v)" if "m k = Some v" "s = bucket_index (kh k) d" for k v s
  proof -
    have "s < 32" using that by (simp add: bucket_index_less)
    then have "slot_ok P skey kh resolver d (slot_map kh d m s) (bit dm s) False (lf s) (ch s)" using slots by blast
    moreover have k: "slot_map kh d m s k = Some v" using that by (simp add: slot_map_bucket)
    moreover note finite_slot_map [OF fin]
    ultimately show ?thesis
      by (elim slot_okE) (auto simp: prod_eq_iff split: if_splits)
  qed
  have stored: "bucket_index (kh (fst (lf s))) d = s \<and> m (fst (lf s)) = Some (snd (lf s))" if "s < 32" "bit dm s" for s
  proof -
    have "slot_map kh d m s (fst (lf s)) = Some (snd (lf s))"
      using slots that slot_okD(2) by (metis fun_upd_same)
    then show ?thesis by (auto simp: slot_map_apply split: if_splits)
  qed
  show "m k = Some v \<longleftrightarrow> (k, v) \<in> set (compressed lf dm)"
  proof
    assume "m k = Some v"
    then show "(k, v) \<in> set (compressed lf dm)"
      using leaf [OF _ refl, of k v] bucket_index_less [of "kh k" d] by (force simp: set_compressed)
  next
    assume "(k, v) \<in> set (compressed lf dm)"
    then obtain s where "s < 32" "bit dm s" "lf s = (k, v)" unfolding set_compressed by force
    then show "m k = Some v" using stored [of s] by simp
  qed
  have "inj_on (fst \<circ> lf) {s. s < 32 \<and> bit dm s}" using stored by (intro inj_onI) (metis (no_types, lifting) comp_apply mem_Collect_eq)
  then show "distinct (map fst (compressed lf dm))"
    by (simp add: compressed_def distinct_map)
qed

lemma card_dom_slot: "finite (dom m) \<Longrightarrow> card (dom (slot_map kh d m s)) \<le> card (dom m)"
  by (rule card_mono) (auto simp: slot_map_apply split: if_splits)

lemma finalize_correct:
  assumes slots: "\<forall>s < 32. slot_ok P skey kh resolver d (slot_map kh d m s) (bit dm s) (bit nm s) (lf s) (ch s)"
    and d: "d < 52" and fin: "finite (dom m)" and enc: "\<forall>x y. m x = Some y \<longrightarrow> encodable P x y"
  shows "\<exists>out. finalize_after_removal P skey dm nm (compressed lf dm) (compressed ch nm) = Inr out \<and>
    outcome_ok P skey kh resolver d m out"
proof -
  obtain n where n: "rebuild_node P skey dm nm (compressed lf dm) (compressed ch nm) = Inr n"
    "trie P skey kh resolver d m n" using trieI [OF d fin slots enc] by blast
  show ?thesis
  proof (cases "nm = 0")
    case True
    note leaves = leaves_only [of P skey kh resolver d m dm lf ch, OF _ fin]
    have m: "m k = Some v \<longleftrightarrow> (k, v) \<in> set (compressed lf dm)" and dist: "distinct (map fst (compressed lf dm))" for k v
      using leaves slots unfolding True by simp_all
    have dom: "dom m = fst ` set (compressed lf dm)" using m by force
    then have card: "card (dom m) = length (compressed lf dm)" using dist by (metis distinct_card length_map set_map)
    consider "compressed lf dm = []" | e where "compressed lf dm = [e]" | "2 \<le> length (compressed lf dm)"
      by (cases "compressed lf dm"; cases "tl (compressed lf dm)") auto
    then show ?thesis
    proof cases
      case 1
      then have "m = Map.empty" using dom by simp
      with 1 show ?thesis by (simp add: finalize_after_removal_def True outcome_ok_def)
    next
      case (2 e)
      then have "m = [fst e \<mapsto> snd e]"
        using m by (intro ext) (metis (no_types, lifting) fun_upd_apply list.set(1) list.set(2) not_Some_eq prod.collapse singletonD singletonI fst_conv snd_conv)
      with 2 show ?thesis by (simp add: finalize_after_removal_def True outcome_ok_def)
    next
      case 3
      then have "\<not> compressed lf dm = []" "length (compressed lf dm) \<noteq> 1" by (fastforce, linarith)
      with 3 n card show ?thesis unfolding finalize_after_removal_def outcome_ok_def by simp
    qed
  next
    case False
    then obtain s where s: "s < 32" "bit nm s" using word_slots_eqI [of nm 0] by auto
    then have "2 \<le> card (dom (slot_map kh d m s))" using slots unfolding slot_ok_def by blast
    then have "2 \<le> card (dom m)" using card_dom_slot [OF fin] order_trans by blast
    with False n show ?thesis by (simp add: finalize_after_removal_def outcome_ok_def)
  qed
qed

lemma after_child_removal_correct:
  assumes n: "hn_datamap n = dm" "hn_nodemap n = nm" "hn_leaves n = compressed lf dm" "hn_children n = compressed ch nm"
    and s: "s < 32" "\<not> bit dm s" "bit nm s"
    and slots: "\<forall>i < 32. slot_ok P skey kh resolver d (slot_map kh d m i) (bit dm i) (bit nm i) (lf i) (ch i)"
    and d: "d < 52" and fin: "finite (dom m')" and enc: "\<forall>x y. m' x = Some y \<longrightarrow> encodable P x y"
    and others: "\<forall>i < 32. i \<noteq> s \<longrightarrow> slot_map kh d m' i = slot_map kh d m i"
    and ok: "outcome_ok P skey kh resolver (Suc d) (slot_map kh d m' s) out"
  shows "\<exists>out' em'. after_child_removal P skey n s (out, old, em) = Inr (out', old, em') \<and>
    outcome_ok P skey kh resolver d m' out'"
proof -
  let ?nm = "nm AND NOT (slot_bit s)" and ?dm = "dm OR slot_bit s"
  note final = finalize_correct [OF slots_set [OF slots, where s = s and m' = m'] d fin enc]
  show ?thesis
  proof (cases out)
    case OutcomeEmpty
    have "\<exists>out'. finalize_after_removal P skey dm ?nm (compressed (lf(s := lf s)) dm) (compressed (ch(s := ch s)) ?nm) = Inr out' \<and>
        outcome_ok P skey kh resolver d m' out'"
      by (rule final) (use s others ok OutcomeEmpty in \<open>simp_all add: bit_clear_slot outcome_ok_def slot_ok_empty\<close>)
    then show ?thesis using s by (auto simp: after_child_removal_def OutcomeEmpty n compressed_remove)
  next
    case (OutcomeLeaf l w)
    have "\<exists>out'. finalize_after_removal P skey ?dm ?nm (compressed (lf(s := (l, w))) ?dm) (compressed (ch(s := ch s)) ?nm) = Inr out' \<and>
        outcome_ok P skey kh resolver d m' out'"
      by (rule final)
        (use s others ok OutcomeLeaf in \<open>simp_all add: bit_clear_slot bit_set_slot outcome_ok_def slot_ok_leaf\<close>)
    then show ?thesis using s
      by (auto simp: after_child_removal_def OutcomeLeaf n compressed_remove compressed_insert)
  next
    case (OutcomeNode c)
    then have c: "trie P skey kh resolver (Suc d) (slot_map kh d m' s) c" "2 \<le> card (dom (slot_map kh d m' s))"
      using ok by (simp_all add: outcome_ok_def)
    then have "2 \<le> card (dom m')" using card_dom_slot [OF fin] order_trans by blast
    moreover have "\<exists>n'. rebuild_node P skey dm nm (compressed (lf(s := lf s)) dm) (compressed (ch(s := Resolved c)) nm) = Inr n' \<and>
        trie P skey kh resolver d m' n'"
      by (rule trie_set_slot [OF slots d fin enc]) (use s others slot_ok_child [OF c] in simp_all)
    ultimately show ?thesis using s
      by (auto simp: after_child_removal_def OutcomeNode n rebuild_with_child_def map_index_less compressed_update
          outcome_ok_def)
  qed
qed

lemma remove_node_correct:
  assumes "trie P skey kh resolver d m n"
  shows "\<exists>out em. remove_node_with_ctx P skey resolver k (kh k) n d = Inr (out, m k, em) \<and>
    (if m k = None then out = OutcomeNode n \<and> em = []
     else outcome_ok P skey kh resolver d (m(k := None)) out)"
  using assms
proof (induction "52 - d" arbitrary: d m n rule: less_induct)
  case less
  define s where "s = bucket_index (kh k) d"
  have s: "s < 32" by (simp add: s_def bucket_index_less)
  from less.prems(1) obtain dm nm lf ch where d: "d < 52" and fin: "finite (dom m)" and
    slots: "\<forall>i < 32. slot_ok P skey kh resolver d (slot_map kh d m i) (bit dm i) (bit nm i) (lf i) (ch i)" and
    n: "hn_datamap n = dm" "hn_nodemap n = nm" "hn_leaves n = compressed lf dm" "hn_children n = compressed ch nm"
    by (rule trieE)
  let ?m = "m(k := None)"
  have fin': "finite (dom ?m)" using fin by simp
  have enc: "\<forall>x y. ?m x = Some y \<longrightarrow> encodable P x y" using trie_encodable [OF less.prems(1)] by auto
  have others: "\<forall>i < 32. i \<noteq> s \<longrightarrow> slot_map kh d ?m i = slot_map kh d m i" by (simp add: slot_map_upd s_def)
  have here: "slot_map kh d ?m s = (slot_map kh d m s)(k := None)" by (simp add: slot_map_upd s_def)
  have mk: "m k = slot_map kh d m s k" by (simp add: s_def slot_map_bucket)
  note step = remove_node_with_ctx.simps [of P skey resolver k "kh k" n d]
  note final = finalize_correct [OF slots_set [OF slots, where s = s and m' = ?m] d fin' enc]
  from slots s have "slot_ok P skey kh resolver d (slot_map kh d m s) (bit dm s) (bit nm s) (lf s) (ch s)" by blast
  then show ?case using finite_slot_map [OF fin]
  proof (cases rule: slot_okE)
    case empty
    then show ?thesis using d s by (simp add: step n Let_def s_def [symmetric] and_slot_bit mk)
  next
    case leaf
    obtain l w where lf: "lf s = (l, w)" by (cases "lf s")
    have at: "vec_index (compressed lf dm) (map_index dm s) = Inr (l, w)"
      using compressed_index [OF s, of dm lf] leaf lf by simp
    show ?thesis
    proof (cases "l = k")
      case True
      let ?dm = "dm AND NOT (slot_bit s)"
      have "\<exists>out. finalize_after_removal P skey ?dm nm (compressed (lf(s := lf s)) ?dm) (compressed (ch(s := ch s)) nm) = Inr out \<and>
          outcome_ok P skey kh resolver d ?m out"
        by (rule final) (use s leaf others here lf True in \<open>simp_all add: bit_clear_slot slot_ok_empty\<close>)
      then obtain out where "finalize_after_removal P skey ?dm nm (compressed lf ?dm) (compressed ch nm) = Inr out"
        "outcome_ok P skey kh resolver d ?m out" by auto
      then show ?thesis using d s leaf True lf
        by (auto simp: step n Let_def s_def [symmetric] and_slot_bit at compressed_remove mk)
    next
      case False
      then show ?thesis using d s leaf lf
        by (simp add: step n Let_def s_def [symmetric] and_slot_bit at mk)
    qed
  next
    case (child c)
    obtain out em where out: "remove_node_with_ctx P skey resolver k (kh k) c (Suc d) = Inr (out, m k, em)" and
      ok: "if m k = None then out = OutcomeNode c \<and> em = []
        else outcome_ok P skey kh resolver (Suc d) (slot_map kh d ?m s) out"
      using less.hyps [OF diff_less_mono2 [OF lessI d] child(6)] unfolding mk here by blast
    have "Suc d < 52" using child(6) trie_iff by blast
    then have rec: "remove_node_with_ctx P skey resolver k (kh k) n d =
        (if m k = None then Inr (OutcomeNode n, None, em) else after_child_removal P skey n s (out, m k, em))"
      using d s child out by (simp add: step n Let_def s_def [symmetric] and_slot_bit compressed_index)
    show ?thesis
    proof (cases "m k = None")
      case True
      then show ?thesis using rec ok by simp
    next
      case False
      then show ?thesis using rec ok child(1,2)
          after_child_removal_correct [OF n s _ _ slots d fin' enc others, where old = "m k" and em = em] by auto
    qed
  qed
qed

section \<open>Collisions\<close>

lemma build_slots_skip:
  "\<forall>s \<in> set ss. B s = [] \<Longrightarrow>
     build_slots P key d (map (\<lambda>s. (s, B s)) ss @ rest) parts = build_slots P key d rest parts"
  by (induction ss; cases parts) auto

lemma build_node_collision:
  assumes "be_path_hash a = be_path_hash b"
  shows "\<exists>c. build_node P skey [a, b] d = Inl (Failed (BuildHashCollision c 2))"
proof (induction "52 - d" arbitrary: d rule: less_induct)
  case less
  show ?case
  proof (cases "d < 52")
    case True
    define s where "s = bucket_index (be_path_hash a) d"
    have s: "s < 32" by (simp add: s_def bucket_index_less)
    define B where "B = (\<lambda>s. bucket_of d [a, b] s)"
    have fill: "enumerate 0 (fill_buckets d [a, b]) = map (\<lambda>s. (s, B s)) [0..<32]"
      unfolding B_def by (rule fill_buckets_eq)
    have B: "B s = [a, b]" "\<And>i. i \<noteq> s \<Longrightarrow> B i = []" using assms by (auto simp: s_def B_def)
    have "[0..<32] = [0..<s] @ s # [Suc s..<32]"
      using s upt_add_eq_append [of 0 s "32 - s"] by (simp add: upt_conv_Cons)
    then have slots: "map (\<lambda>s. (s, B s)) [0..<32] =
        map (\<lambda>s. (s, B s)) [0..<s] @ (s, [a, b]) # map (\<lambda>s. (s, B s)) [Suc s..<32]"
      by (simp only: map_append list.map B(1))
    have "build_slots P skey d (enumerate 0 (fill_buckets d [a, b])) (0, 0, [], []) =
        build_slots P skey d ((s, [a, b]) # map (\<lambda>s. (s, B s)) [Suc s..<32]) (0, 0, [], [])"
      unfolding fill slots by (rule build_slots_skip) (simp add: B(2))
    moreover have "\<exists>c. build_node P skey [a, b] (Suc d) = Inl (Failed (BuildHashCollision c 2))"
      using less.hyps [of "Suc d"] True by simp
    ultimately show ?thesis using True by (auto simp: build_node.simps [of P skey "[a, b]" d])
  qed (simp add: build_node.simps)
qed

lemma insert_node_collision:
  assumes "trie P skey kh resolver d m n" "m k = None" "m l \<noteq> None" "kh l = kh k"
  shows "\<exists>c. insert_node P skey kh resolver k v (kh k) n d = Inl (Failed (HashCollision c 2))"
  using assms
proof (induction "52 - d" arbitrary: d m n rule: less_induct)
  case less
  define s where "s = bucket_index (kh k) d"
  have s: "s < 32" by (simp add: s_def bucket_index_less)
  from less.prems(1) obtain dm nm lf ch where d: "d < 52" and fin: "finite (dom m)" and
    slots: "\<forall>i < 32. slot_ok P skey kh resolver d (slot_map kh d m i) (bit dm i) (bit nm i) (lf i) (ch i)" and
    n: "hn_datamap n = dm" "hn_nodemap n = nm" "hn_leaves n = compressed lf dm" "hn_children n = compressed ch nm"
    by (rule trieE)
  have k: "slot_map kh d m s k = None" and l: "slot_map kh d m s l \<noteq> None"
    using less.prems by (simp_all add: s_def slot_map_apply)
  note step = insert_node.simps [of P skey kh resolver k v "kh k" n d]
  from slots s have "slot_ok P skey kh resolver d (slot_map kh d m s) (bit dm s) (bit nm s) (lf s) (ch s)" by blast
  then show ?case using finite_slot_map [OF fin]
  proof (cases rule: slot_okE)
    case empty
    then show ?thesis using l by simp
  next
    case leaf
    then obtain w where lf: "lf s = (l, w)" using l by (cases "lf s") (auto split: if_splits)
    have "k \<noteq> l" using less.prems by auto
    moreover obtain c where "build_node P skey [\<lparr> be_key = l, be_value = w, be_path_hash = kh l \<rparr>,
        \<lparr> be_key = k, be_value = v, be_path_hash = kh k \<rparr>] (Suc d) = Inl (Failed (BuildHashCollision c 2))"
      using build_node_collision [of "\<lparr> be_key = l, be_value = w, be_path_hash = kh l \<rparr>"
          "\<lparr> be_key = k, be_value = v, be_path_hash = kh k \<rparr>" P skey "Suc d"] less.prems(4) by auto
    ultimately show ?thesis
      using compressed_index [OF s, of dm lf] d s leaf lf
      by (auto simp: step n Let_def s_def [symmetric] and_slot_bit split_leaf_def from_build_error_def)
  next
    case (child c)
    have "\<exists>e. insert_node P skey kh resolver k v (kh k) c (Suc d) = Inl (Failed (HashCollision e 2))"
      by (rule less.hyps [OF diff_less_mono2 [OF lessI d] child(6)]) (use k l less.prems in auto)
    then show ?thesis using d s child
      by (auto simp: step n Let_def s_def [symmetric] and_slot_bit compressed_index)
  qed
qed

section \<open>The contract of a committed map\<close>

text \<open>A structure that stands for a finite map, with a digest that is a function of the map. What a sequence
  of mutations does to it follows from what the two operations do.\<close>

primrec final_map :: "('k \<rightharpoonup> 'v) \<Rightarrow> ('k \<times> 'v option) list \<Rightarrow> ('k \<rightharpoonup> 'v)" where
  "final_map m [] = m"
| "final_map m (u # us) = final_map (m(fst u := snd u)) us"

primrec displaced_values :: "('k \<rightharpoonup> 'v) \<Rightarrow> ('k \<times> 'v option) list \<Rightarrow> 'v option list" where
  "displaced_values m [] = []"
| "displaced_values m (u # us) = m (fst u) # displaced_values (m(fst u := snd u)) us"

locale committed_map =
  fixes rep :: "'n \<Rightarrow> ('k \<rightharpoonup> 'v) \<Rightarrow> bool"
    and allowed :: "'k \<Rightarrow> 'v \<Rightarrow> bool"
    and digest :: "'n \<Rightarrow> 'h"
    and ins :: "'n \<Rightarrow> 'k \<Rightarrow> 'v \<Rightarrow> ('e, 'n \<times> 'v option) result"
    and del :: "'n \<Rightarrow> 'k \<Rightarrow> ('e, 'n \<times> 'v option) result"
  assumes ins_rep: "rep n m \<Longrightarrow> allowed k v \<Longrightarrow> \<exists>n'. ins n k v = Inr (n', m k) \<and> rep n' (m(k \<mapsto> v))"
    and del_rep: "rep n m \<Longrightarrow> \<exists>n'. del n k = Inr (n', m k) \<and> rep n' (m(k := None))"
    and digest_rep: "rep n m \<Longrightarrow> rep n' m \<Longrightarrow> digest n = digest n'"
begin

fun run :: "'n \<Rightarrow> ('k \<times> 'v option) list \<Rightarrow> ('e, 'n \<times> 'v option list) result" where
  "run n [] = Inr (n, [])"
| "run n ((k, x) # us) =
     rbind (case x of Some v \<Rightarrow> ins n k v | None \<Rightarrow> del n k) (\<lambda>(n', old).
     rbind (run n' us) (\<lambda>(r, olds). Inr (r, old # olds)))"

lemma run_rep:
  assumes "rep n m" "\<forall>u \<in> set us. \<forall>v. snd u = Some v \<longrightarrow> allowed (fst u) v"
  shows "\<exists>r. run n us = Inr (r, displaced_values m us) \<and> rep r (final_map m us)"
  using assms
proof (induction us arbitrary: n m)
  case (Cons u us)
  obtain k x where u: "u = (k, x)" by (cases u)
  have "\<exists>n'. (case x of Some v \<Rightarrow> ins n k v | None \<Rightarrow> del n k) = Inr (n', m k) \<and> rep n' (m(k := x))"
    using Cons.prems ins_rep del_rep by (cases x) (auto simp: u)
  then obtain n' where n': "(case x of Some v \<Rightarrow> ins n k v | None \<Rightarrow> del n k) = Inr (n', m k)" "rep n' (m(k := x))"
    by blast
  obtain r where "run n' us = Inr (r, displaced_values (m(k := x)) us)" "rep r (final_map (m(k := x)) us)"
    using Cons.IH [OF n'(2)] Cons.prems(2) by (meson list.set_intros(2))
  with n' show ?case by (simp add: u)
qed simp

text \<open>Histories that end in the same map end in the same digest.\<close>

lemma history_independent:
  assumes "rep n m" "\<forall>u \<in> set us. \<forall>v. snd u = Some v \<longrightarrow> allowed (fst u) v" "rep r (final_map m us)"
  shows "\<exists>n'. run n us = Inr (n', displaced_values m us) \<and> digest n' = digest r"
  using run_rep [OF assms(1,2)] digest_rep assms(3) by blast

end

section \<open>The trie meets the contract\<close>

text \<open>A root that stands for a map over a set of keys with different routing hashes.\<close>

definition hamt_rep ::
  "('k, 'v) hamt_params \<Rightarrow> string \<Rightarrow> ('k \<Rightarrow> structural_hash) \<Rightarrow> ('k, 'v, 'e) resolver \<Rightarrow> 'k set
    \<Rightarrow> ('k, 'v) hamt_node \<Rightarrow> ('k \<rightharpoonup> 'v) \<Rightarrow> bool" where
  "hamt_rep P skey kh resolver U n m \<longleftrightarrow> routed kh 0 U \<and> dom m \<subseteq> U \<and> trie P skey kh resolver 0 m n"

lemma routed_subset: "routed kh d K \<Longrightarrow> L \<subseteq> K \<Longrightarrow> routed kh d L"
  unfolding routed_def by (auto simp: subset_iff intro: inj_on_subset)

lemma hamt_insert_correct:
  assumes "hamt_rep P skey kh resolver U n m" "k \<in> U" "encodable P k v"
  shows "\<exists>n'. hamt_insert P kh resolver n skey k v = Inr (n', m k) \<and> hamt_rep P skey kh resolver U n' (m(k \<mapsto> v))"
proof -
  have "routed kh 0 (insert k (dom m))" using assms(1,2) unfolding hamt_rep_def by (blast intro: routed_subset)
  then obtain n' em where "insert_node P skey kh resolver k v (kh k) n 0 = Inr (n', m k, em)"
    "trie P skey kh resolver 0 (m(k \<mapsto> v)) n'"
    using insert_node_correct [of P skey kh resolver 0 m n k v] assms unfolding hamt_rep_def by blast
  with assms show ?thesis by (auto simp: hamt_insert_def hamt_rep_def)
qed

lemma trie_no_children:
  assumes "\<forall>s < 32. slot_ok P skey kh resolver d (slot_map kh d m s) (bit dm s) (bit (0 :: 32 word) s) (lf s) (ch s)"
    "d < 52" "finite (dom m)" "\<forall>x y. m x = Some y \<longrightarrow> encodable P x y"
  shows "\<exists>n. rebuild_node P skey dm 0 (compressed lf dm) [] = Inr n \<and> trie P skey kh resolver d m n"
  using trieI [OF assms(2,3,1,4)] by simp

lemma compressed_slot_bit: "s < 32 \<Longrightarrow> compressed f (slot_bit s) = [f s]"
  using compressed_insert [of s 0 "f s" f] by (simp add: vec_insert_def map_index_filter)

lemma finalize_remove_root_correct:
  assumes "outcome_ok P skey kh resolver 0 m out" "\<forall>x y. m x = Some y \<longrightarrow> encodable P x y"
  shows "\<exists>root em. finalize_remove_root P skey out (\<lambda>k. bucket_index (kh k) 0) = Inr (root, em) \<and>
    trie P skey kh resolver 0 m root"
proof (cases out)
  case OutcomeEmpty
  then have m: "m = Map.empty" using assms(1) by (simp add: outcome_ok_def)
  have "\<exists>n. rebuild_node P skey 0 0 (compressed (\<lambda>_. undefined) 0) [] = Inr n \<and> trie P skey kh resolver 0 m n"
    by (rule trie_no_children) (simp_all add: m slot_map_def slot_ok_empty)
  then show ?thesis by (auto simp: OutcomeEmpty finalize_remove_root_def)
next
  case (OutcomeLeaf k v)
  let ?s = "bucket_index (kh k) 0"
  have m: "m = [k \<mapsto> v]" using assms(1) by (simp add: OutcomeLeaf outcome_ok_def)
  have s: "?s < 32" by (rule bucket_index_less)
  have "slot_map kh 0 m i = (if i = ?s then [k \<mapsto> v] else Map.empty)" for i
    by (auto simp: m slot_map_def)
  then have "\<exists>n. rebuild_node P skey (slot_bit ?s) 0 (compressed (\<lambda>_. (k, v)) (slot_bit ?s)) [] = Inr n \<and>
      trie P skey kh resolver 0 m n"
    by (intro trie_no_children) (use s assms(2) m in \<open>simp_all add: bit_slot_bit slot_ok_empty slot_ok_leaf\<close>)
  then show ?thesis using s by (auto simp: OutcomeLeaf finalize_remove_root_def compressed_slot_bit)
next
  case (OutcomeNode n)
  then show ?thesis using assms(1) by (simp add: outcome_ok_def finalize_remove_root_def)
qed

lemma remove_spine_correct:
  assumes "trie P skey kh resolver 0 m n"
  shows "\<exists>root em. remove_spine P skey resolver k (kh k) (\<lambda>k. bucket_index (kh k) 0) n = Inr (root, m k, em) \<and>
    trie P skey kh resolver 0 (m(k := None)) root"
proof -
  obtain out em where out: "remove_node_with_ctx P skey resolver k (kh k) n 0 = Inr (out, m k, em)"
    "if m k = None then out = OutcomeNode n \<and> em = [] else outcome_ok P skey kh resolver 0 (m(k := None)) out"
    using remove_node_correct [OF assms] by blast
  show ?thesis
  proof (cases "m k")
    case None
    then have "m(k := None) = m" by auto
    with out None assms show ?thesis by (simp add: remove_spine_def finalize_remove_root_def)
  next
    case (Some v)
    have "\<forall>x y. (m(k := None)) x = Some y \<longrightarrow> encodable P x y" using trie_encodable [OF assms] by auto
    then obtain root em' where "finalize_remove_root P skey out (\<lambda>k. bucket_index (kh k) 0) = Inr (root, em')"
      "trie P skey kh resolver 0 (m(k := None)) root"
      using finalize_remove_root_correct [of P skey kh resolver "m(k := None)" out] out(2) Some by auto
    with out Some show ?thesis by (simp add: remove_spine_def)
  qed
qed

lemma hamt_remove_correct:
  assumes "hamt_rep P skey kh resolver U n m"
  shows "\<exists>n'. hamt_remove P kh resolver n skey k = Inr (n', m k) \<and> hamt_rep P skey kh resolver U n' (m(k := None))"
  using remove_spine_correct [of P skey kh resolver m n k] assms
  by (auto simp: hamt_remove_def hamt_rep_def)

interpretation hamt: committed_map "hamt_rep P skey kh resolver U" "\<lambda>k v. k \<in> U \<and> encodable P k v" hn_hash
  "\<lambda>n k v. hamt_insert P kh resolver n skey k v" "\<lambda>n k. hamt_remove P kh resolver n skey k"
  by unfold_locales
    (blast intro: hamt_insert_correct, rule hamt_remove_correct, assumption,
     unfold hamt_rep_def, blast intro: trie_hash_unique)

lemma mutation_loop_run:
  "mutation_loop P kh resolver skey n us = hamt.run P kh resolver skey n us"
  by (induction us arbitrary: n) (auto simp: rbind_def split: sum.split option.split)

lemma build_hamt_correct:
  assumes "distinct (map fst es)" "\<forall>e \<in> set es. encodable P (fst e) (snd e)" "routed kh 0 (fst ` set es)"
  shows "\<exists>n. build_hamt_with_key_hash P skey es kh = Inr n \<and> trie P skey kh resolver 0 (map_of es) n"
proof -
  let ?es = "map (\<lambda>(k, v). \<lparr> be_key = k, be_value = v, be_path_hash = kh k \<rparr>) es"
  have keys: "map be_key ?es = map fst es" by (induction es) auto
  then have "be_key ` set ?es = fst ` set es" by (metis list.set_map)
  moreover have "entry_map ?es = map_of es" by (induction es) auto
  moreover have "\<forall>e \<in> set ?es. be_path_hash e = kh (be_key e) \<and> encodable P (be_key e) (be_value e)"
    using assms(2) by auto
  ultimately show ?thesis
    using build_node_correct [of 0 ?es kh P skey resolver] assms(1,3)
    unfolding build_hamt_with_key_hash_def keys by simp
qed

section \<open>Properties\<close>

text \<open>C33: The trie refines a finite map. Of a root that stands for a map over keys with different routing
  hashes, loaded in part or in full, a search gives the value of the key; insertion and removal
  return the value that the key had and a root that stands for the updated map, and they neither fail nor
  panic.\<close>
theorem hamt_refines_map:
  assumes "\<forall>k \<in> U. length (kh k) = 32" "inj_on kh U" "dom m \<subseteq> U" "k \<in> U" "encodable P k v"
    "trie P skey kh resolver 0 m n"
  shows "search_with_key_hash n k kh resolver = Inr (m k) \<and>
    (\<exists>n'. hamt_insert P kh resolver n skey k v = Inr (n', m k) \<and> trie P skey kh resolver 0 (m(k \<mapsto> v)) n') \<and>
    (\<exists>n'. hamt_remove P kh resolver n skey k = Inr (n', m k) \<and> trie P skey kh resolver 0 (m(k := None)) n')"
proof -
  have rep: "hamt_rep P skey kh resolver U n m" using assms by (simp add: hamt_rep_def routed_def)
  then show ?thesis
    using hamt_insert_correct [OF rep assms(4,5)] hamt_remove_correct [OF rep, of k] search_loop_correct [OF assms(6)]
    unfolding hamt_rep_def search_with_key_hash_def search_by_path_hash_def by blast
qed

definition bool_params :: "(bool, bool) hamt_params" where
  "bool_params = \<lparr> hp_blake3 = (\<lambda>s. s), hp_key = bool_codec, hp_value = bool_codec \<rparr>"

definition bool_hash :: "bool \<Rightarrow> structural_hash" where
  "bool_hash b = replicate 32 (if b then CHR 0x01 else CHR 0x00)"

lemma bool_sample: "\<forall>k \<in> UNIV. length (bool_hash k) = 32" "inj_on bool_hash UNIV" "encodable bool_params k v"
  by (auto simp: bool_hash_def bool_params_def encodable_def bool_codec_def inj_on_def split: if_splits)

lemma bool_build:
  "distinct (map fst es) \<Longrightarrow> \<exists>n. build_hamt_with_key_hash bool_params ''r'' es bool_hash = Inr n \<and>
     trie bool_params ''r'' bool_hash resolver 0 (map_of es) n"
  by (rule build_hamt_correct) (use bool_sample in \<open>auto simp: routed_def intro: inj_on_subset\<close>)

theorem hamt_refines_map_witness:
  "\<exists>n n'. build_hamt_with_key_hash bool_params ''r'' [(True, False)] bool_hash = Inr n \<and>
    hamt_insert bool_params bool_hash (\<lambda>h. Inl ()) n ''r'' False True = Inr (n', None) \<and>
    search_with_key_hash n True bool_hash (\<lambda>h. Inl ()) = Inr (Some False)"
proof -
  obtain n where n: "build_hamt_with_key_hash bool_params ''r'' [(True, False)] bool_hash = Inr n"
    "trie bool_params ''r'' bool_hash (\<lambda>h. Inl ()) 0 [True \<mapsto> False] n"
    using bool_build [of "[(True, False)]"] by auto
  note hyp = bool_sample(1,2) subset_UNIV UNIV_I bool_sample(3) n(2)
  show ?thesis using n(1) hamt_refines_map [OF hyp, of True] hamt_refines_map [OF hyp, of False] by auto
qed

text \<open>C34: The structural hash is a commitment to the contents, not to the history. For keys whose
  32-byte routing hashes differ, entries with distinct keys and entries that the leaf codecs can encode, building a
  trie from a list of entries and mutating it succeeds, returns the displaced value of every mutation, and
  gives the same structural hash as building a trie from any list, with distinct keys, of the entries of the final map.
  Without different routing hashes the operations report a collision instead.\<close>
theorem hamt_history_independent:
  assumes "\<forall>k \<in> U. length (kh k) = 32" "inj_on kh U"
    "distinct (map fst es)" "\<forall>e \<in> set es. fst e \<in> U \<and> encodable P (fst e) (snd e)"
    "\<forall>u \<in> set us. \<forall>v. snd u = Some v \<longrightarrow> fst u \<in> U \<and> encodable P (fst u) v"
    "distinct (map fst es')" "map_of es' = final_map (map_of es) us"
  shows "\<exists>n n' r. build_hamt_with_key_hash P skey es kh = Inr n \<and>
    mutation_loop P kh resolver skey n us = Inr (n', displaced_values (map_of es) us) \<and>
    build_hamt_with_key_hash P skey es' kh = Inr r \<and> hn_hash n' = hn_hash r"
proof -
  have U: "routed kh 0 U" using assms(1,2) by (simp add: routed_def)
  have "routed kh 0 (fst ` set es)" by (rule routed_subset [OF U]) (use assms(4) in auto)
  then obtain n where n: "build_hamt_with_key_hash P skey es kh = Inr n" "trie P skey kh resolver 0 (map_of es) n"
    using build_hamt_correct [of es P kh skey resolver] assms(3,4) by blast
  have rep: "hamt_rep P skey kh resolver U n (map_of es)"
    using U n(2) assms(4) by (auto simp: hamt_rep_def dom_map_of_conv_image_fst)
  obtain n' where n': "mutation_loop P kh resolver skey n us = Inr (n', displaced_values (map_of es) us)"
    "hamt_rep P skey kh resolver U n' (map_of es')"
    using hamt.run_rep [OF rep, of us] assms(5) unfolding mutation_loop_run assms(7) by blast
  then have es': "fst ` set es' \<subseteq> U" "\<forall>e \<in> set es'. encodable P (fst e) (snd e)"
    using assms(6) trie_encodable [of P skey kh resolver 0 "map_of es'" n']
    by (auto simp: hamt_rep_def dom_map_of_conv_image_fst)
  then obtain r where "build_hamt_with_key_hash P skey es' kh = Inr r" "trie P skey kh resolver 0 (map_of es') r"
    using build_hamt_correct [of es' P kh skey resolver] assms(6) routed_subset [OF U] by blast
  with n n' show ?thesis using trie_hash_unique unfolding hamt_rep_def by blast
qed

theorem hamt_history_independent_witness:
  "\<exists>n n' r. build_hamt_with_key_hash bool_params ''r'' [(True, True)] bool_hash = Inr n \<and>
    mutation_loop bool_params bool_hash (\<lambda>h. Inl ()) ''r'' n [(False, Some True), (True, None)] =
      Inr (n', [None, Some True]) \<and>
    build_hamt_with_key_hash bool_params ''r'' [(False, True)] bool_hash = Inr r \<and> hn_hash n' = hn_hash r"
  using hamt_history_independent [OF bool_sample(1,2), of "[(True, True)]" bool_params
      "[(False, Some True), (True, None)]" "[(False, True)]" "''r''" "\<lambda>h. Inl ()"]
  by (auto simp: bool_sample fun_upd_twist)

text \<open>C35: A routing hash that is already taken is reported, never stored over. Inserting a key that is absent
  from the trie fails with a hash collision of two entries when a key of the trie has the same hash, at
  whatever depth that key is found.\<close>
theorem hamt_collision_reported:
  assumes "trie P skey kh resolver 0 m n" "m k = None" "m l \<noteq> None" "kh l = kh k"
  shows "\<exists>depth. hamt_insert P kh resolver n skey k v = Inl (Failed (HashCollision depth 2))"
  using insert_node_collision [OF assms, of v] by (auto simp: hamt_insert_def)

theorem hamt_collision_reported_witness:
  "\<exists>n depth. build_hamt_with_key_hash bool_params ''r'' [(True, False)] (\<lambda>b. bool_hash True) = Inr n \<and>
    hamt_insert bool_params (\<lambda>b. bool_hash True) (\<lambda>h. Inl ()) n ''r'' False True =
      Inl (Failed (HashCollision depth 2))"
proof -
  obtain n where n: "build_hamt_with_key_hash bool_params ''r'' [(True, False)] (\<lambda>b. bool_hash True) = Inr n"
    "trie bool_params ''r'' (\<lambda>b. bool_hash True) (\<lambda>h. Inl ()) 0 [True \<mapsto> False] n"
    using build_hamt_correct [of "[(True, False)]" bool_params "\<lambda>b. bool_hash True" "''r''" "\<lambda>h. Inl ()"] bool_sample
    by (auto simp: routed_def)
  then show ?thesis using hamt_collision_reported [OF n(2), of False True True] by auto
qed

end
