(* ===== verification/Hamt_Delta_Correct.thy ===== *)
theory Hamt_Delta_Correct
  imports Hamt_Mutate Hamt_Delta
begin

text \<open>
  Correctness of the differences of tries. Walking a trie lists the entries of its map; the difference of
  two tries lists exactly the entries on which their maps differ, provided that the structural hash tells
  the subtrees of the two tries apart. Every slot is covered by exactly one of the four loops.
\<close>

unbundle bit_operations_syntax

section \<open>Sets of slots\<close>

lemma lowest_bit:
  assumes "w \<noteq> (0 :: 32 word)"
  obtains s where "s < 32" "bit w s" "\<And>i. i < s \<Longrightarrow> \<not> bit w i"
proof -
  from assms obtain i where "bit w i" by (auto simp: bit_eq_iff)
  moreover from this have "i < 32" using bit_imp_le_length by fastforce
  ultimately show thesis
    using that [of "LEAST i. bit w i"] by (metis (no_types) LeastI_ex not_less_Least Least_le le_less_trans)
qed

lemma bit_minus_one:
  assumes "s < 32" "bit w s" "\<And>i. i < s \<Longrightarrow> \<not> bit w i"
  shows "bit (w - 1) i \<longleftrightarrow> i < s \<or> bit (w :: 32 word) i \<and> i \<noteq> s"
proof -
  define v where "v = w AND NOT (slot_bit s)"
  have v: "bit v i \<longleftrightarrow> bit w i \<and> i \<noteq> s" for i
    using assms(1) by (cases "i < 32") (auto simp: v_def bit_and_iff bit_not_iff bit_slot_bit dest: bit_imp_le_length)
  have "v AND slot_bit s = 0" "v AND mask s = 0"
    using assms by (auto intro!: bit_word_eqI simp: bit_and_iff v bit_slot_bit bit_mask_iff)
  then have "v + slot_bit s = v OR slot_bit s" "v + mask s = v OR mask s"
    by (simp_all add: disjunctive_add_eq_or)
  moreover have "w = v OR slot_bit s"
    using assms by (auto intro!: bit_word_eqI simp: bit_or_iff v bit_slot_bit)
  moreover have "slot_bit s - 1 = mask s" by (simp add: slot_bit_def mask_eq_exp_minus_1)
  ultimately have "w - 1 = v OR mask s" by (metis add_diff_eq)
  then show ?thesis using assms by (auto simp: bit_or_iff v bit_mask_iff)
qed

lemma set_bits_filter: "set_bits w = filter (bit w) [0..<32]"
proof (induction w rule: set_bits.induct)
  case (1 w)
  show ?case
  proof (cases "w = 0")
    case True
    then show ?thesis by (simp add: set_bits.simps)
  next
    case False
    obtain s where s: "s < 32" "bit w s" "\<And>i. i < s \<Longrightarrow> \<not> bit w i" using lowest_bit [OF False] by blast
    note minus = bit_minus_one [OF s]
    have split: "[0..<32] = [0..<s] @ s # [Suc s..<32]"
      using s(1) upt_add_eq_append [of 0 s "32 - s"] by (simp add: upt_conv_Cons)
    have low: "bit (w AND - w) i \<longleftrightarrow> i = s" for i
      using s by (auto simp: minus_eq_not_minus_1 bit_and_iff bit_not_iff minus dest: bit_imp_le_length)
    have "filter (bit w) [0..<s] = []" "filter (bit (w AND (w - 1))) [0..<s] = []"
      "filter (bit (w AND (w - 1))) [Suc s..<32] = filter (bit w) [Suc s..<32]"
      using s(3) by (auto simp: filter_empty_conv bit_and_iff minus intro!: filter_cong)
    moreover have "trailing_zeros (w AND - w) = s"
      unfolding trailing_zeros_def low split by (simp add: takeWhile_append)
    moreover have "\<not> bit (w AND (w - 1)) s" by (simp add: bit_and_iff minus)
    ultimately show ?thesis
      using False 1 s(2) unfolding split by (subst set_bits.simps) (simp del: upt_Suc)
  qed
qed

lemma set_set_bits: "set (set_bits w) = {s. s < 32 \<and> bit w s}" and distinct_set_bits: "distinct (set_bits w)"
  by (auto simp: set_bits_filter)

section \<open>Lists of entries\<close>

text \<open>The list holds, without repetitions, the entries of the map whose keys are routed to the given slots.\<close>

definition lists_on ::
  "('k \<Rightarrow> structural_hash) \<Rightarrow> nat \<Rightarrow> ('k \<rightharpoonup> 'v) \<Rightarrow> nat set \<Rightarrow> ('k \<times> 'v) list \<Rightarrow> bool" where
  "lists_on kh d m S es \<longleftrightarrow> distinct (map fst es) \<and>
     set es = {(k, v). m k = Some v \<and> bucket_index (kh k) d \<in> S}"

abbreviation lists :: "('k \<rightharpoonup> 'v) \<Rightarrow> ('k \<times> 'v) list \<Rightarrow> bool" where
  "lists m es \<equiv> distinct (map fst es) \<and> set es = {(k, v). m k = Some v}"

lemma lists_single: "lists [fst e \<mapsto> snd e] [e]"
  by (cases e) (auto split: if_splits)

lemma lists_on_Nil: "lists_on kh d m {} []"
  by (simp add: lists_on_def)

lemma lists_on_append:
  assumes "lists_on kh d m S xs" "lists_on kh d m T ys" "S \<inter> T = {}"
  shows "lists_on kh d m (S \<union> T) (xs @ ys)"
  using assms unfolding lists_on_def by (auto 0 3)

lemma lists_on_slot: "lists (slot_map kh d m s) es \<Longrightarrow> lists_on kh d m {s} es"
  by (auto simp: lists_on_def slot_map_apply split: if_splits)

lemma lists_on_concat:
  assumes "distinct ss" "\<And>s. s \<in> set ss \<Longrightarrow> lists (slot_map kh d m s) (f s)"
  shows "lists_on kh d m (set ss) (concat (map f ss))"
  using assms
proof (induction ss)
  case Nil
  then show ?case by (simp add: lists_on_Nil)
next
  case (Cons s ss)
  then have "lists_on kh d m {s} (f s)" "lists_on kh d m (set ss) (concat (map f ss))" "{s} \<inter> set ss = {}"
    by (auto intro!: lists_on_slot)
  then show ?case using lists_on_append by fastforce
qed

lemma lists_on_all:
  assumes "lists_on kh d m S es" "\<And>s. s < 32 \<Longrightarrow> s \<notin> S \<Longrightarrow> slot_map kh d m s = Map.empty"
  shows "lists m es"
proof -
  have "bucket_index (kh k) d \<in> S" if "m k = Some v" for k v
    using assms(2) [of "bucket_index (kh k) d"] that slot_map_bucket [of kh d m k] bucket_index_less
    by (metis option.distinct(1))
  then show ?thesis using assms(1) by (auto simp: lists_on_def)
qed

section \<open>Walking\<close>

lemma resolve_node_checked_iff: "resolve_node_checked resolver r = Inr c \<longleftrightarrow> resolve_child_ref resolver r = Inr c"
  by (auto simp: resolve_node_checked_def resolve_child_ref_def split: node_ref.split)

lemma walk_children_ok:
  assumes "\<And>s. s \<in> set ss \<Longrightarrow> \<exists>c. resolve_node_checked resolver (ch s) = Inr c \<and> walk_subtree resolver d c = Inr (W s)"
  shows "walk_children resolver d (map ch ss) = Inr (concat (map W ss))"
  using assms by (induction ss) fastforce+

lemma trie_fields:
  assumes "rebuild_node P skey dm nm (compressed lf dm) (compressed ch nm) = Inr n"
  shows "hn_datamap n = dm" "hn_nodemap n = nm" "hn_leaves n = compressed lf dm" "hn_children n = compressed ch nm"
  using assms unfolding rebuild_node_Inr by simp_all

lemma concat_map_concat: "concat (map f (concat (map g xs))) = concat (map (\<lambda>x. concat (map f (g x))) xs)"
  by (induction xs) simp_all

lemma walk_subtree_lists:
  "trie P skey kh resolver d m n \<Longrightarrow>
     \<exists>ns. walk_subtree resolver d n = Inr ns \<and> lists m (concat (map hn_leaves ns))"
proof (induction d m n rule: trie.induct)
  case (trie_node d m dm nm lf ch n)
  note n = trie_fields [OF trie_node.hyps(6)]
  have "\<exists>ns. \<forall>s. s < 32 \<and> bit nm s \<longrightarrow> (\<exists>c. resolve_node_checked resolver (ch s) = Inr c \<and>
      walk_subtree resolver (Suc d) c = Inr (ns s)) \<and> lists (slot_map kh d m s) (concat (map hn_leaves (ns s)))"
    by (rule choice) (use trie_node.IH in \<open>unfold resolve_node_checked_iff, blast\<close>)
  then obtain W where W: "\<And>s. s < 32 \<Longrightarrow> bit nm s \<Longrightarrow> (\<exists>c. resolve_node_checked resolver (ch s) = Inr c \<and>
      walk_subtree resolver (Suc d) c = Inr (W s)) \<and> lists (slot_map kh d m s) (concat (map hn_leaves (W s)))"
    by blast
  let ?D = "filter (bit dm) [0..<32]" and ?N = "filter (bit nm) [0..<32]"
  have "walk_children resolver (Suc d) (hn_children n) = Inr (concat (map W ?N))"
    unfolding n compressed_def by (rule walk_children_ok) (use W in auto)
  then have walk: "walk_subtree resolver d n = Inr (n # concat (map W ?N))"
    using trie_node.hyps(1) by (simp add: walk_subtree.simps)
  have leaf: "slot_map kh d m s = [fst (lf s) \<mapsto> snd (lf s)]" if "s < 32" "bit dm s" for s
    using trie_node.hyps(5) that by blast
  have D: "lists_on kh d m (set ?D) (concat (map (\<lambda>s. [lf s]) ?D))"
    proof (rule lists_on_concat)
    fix s assume "s \<in> set ?D"
    then have "s < 32" "bit dm s" by auto
    then have "slot_map kh d m s = [fst (lf s) \<mapsto> snd (lf s)]" by (rule leaf)
    then show "lists (slot_map kh d m s) [lf s]" using lists_single [of "lf s"] by metis
  qed simp
  have N: "lists_on kh d m (set ?N) (concat (map (\<lambda>s. concat (map hn_leaves (W s))) ?N))"
    by (rule lists_on_concat) (use W in auto)
  have "set ?D \<inter> set ?N = {}" using trie_node.hyps(3,4) by auto
  moreover have "slot_map kh d m s = Map.empty" if "s < 32" "s \<notin> set ?D \<union> set ?N" for s
  proof -
    have "\<not> bit dm s" "\<not> bit nm s" using that by auto
    then have "card (dom (slot_map kh d m s)) = 0" using trie_node.hyps(3,4) that(1)
      by (metis One_nat_def less_2_cases not_less)
    then show ?thesis using trie_node.hyps(2) by simp
  qed
  ultimately have "lists m (concat (map (\<lambda>s. [lf s]) ?D) @ concat (map (\<lambda>s. concat (map hn_leaves (W s))) ?N))"
    using lists_on_all [OF lists_on_append [OF D N]] by blast
  moreover have "concat (map hn_leaves (n # concat (map W ?N))) =
      concat (map (\<lambda>s. [lf s]) ?D) @ concat (map (\<lambda>s. concat (map hn_leaves (W s))) ?N)"
    by (simp add: n compressed_def concat_map_concat)
  ultimately have "lists m (concat (map hn_leaves (n # concat (map W ?N))))" by metis
  with walk show ?case by blast
qed


section \<open>Differences of maps\<close>

definition map_minus :: "('k \<rightharpoonup> 'v) \<Rightarrow> ('k \<rightharpoonup> 'v) \<Rightarrow> ('k \<rightharpoonup> 'v)" where
  "map_minus x y k = (if x k = y k then None else x k)"

lemma map_minus_simps [simp]:
  "map_minus x x = Map.empty" "map_minus x Map.empty = x" "map_minus Map.empty x = Map.empty"
  by (auto simp: map_minus_def fun_eq_iff)

lemma slot_map_minus: "slot_map kh d (map_minus x y) s = map_minus (slot_map kh d x s) (slot_map kh d y s)"
  by (auto simp: slot_map_apply map_minus_def fun_eq_iff)

text \<open>What is added on the way from the first map to the second, and what is removed.\<close>

abbreviation delta_of :: "('k \<rightharpoonup> 'v) \<Rightarrow> ('k \<rightharpoonup> 'v) \<Rightarrow> ('k, 'v) delta \<Rightarrow> bool" where
  "delta_of x y D \<equiv> lists (map_minus y x) (fst D) \<and> lists (map_minus x y) (snd D)"

definition delta_on ::
  "('k \<Rightarrow> structural_hash) \<Rightarrow> nat \<Rightarrow> ('k \<rightharpoonup> 'v) \<Rightarrow> ('k \<rightharpoonup> 'v) \<Rightarrow> nat set \<Rightarrow> ('k, 'v) delta \<Rightarrow> bool" where
  "delta_on kh d x y S D \<longleftrightarrow>
     lists_on kh d (map_minus y x) S (fst D) \<and> lists_on kh d (map_minus x y) S (snd D)"

abbreviation concat_deltas :: "('k, 'v) delta list \<Rightarrow> ('k, 'v) delta" where
  "concat_deltas Ds \<equiv> foldr delta_append Ds ([], [])"

lemma concat_deltas_eq: "concat_deltas Ds = (concat (map fst Ds), concat (map snd Ds))"
  by (induction Ds) (auto simp: delta_append_def)

lemma delta_on_append:
  "delta_on kh d x y S D \<Longrightarrow> delta_on kh d x y T E \<Longrightarrow> S \<inter> T = {} \<Longrightarrow> delta_on kh d x y (S \<union> T) (delta_append D E)"
  by (simp add: delta_on_def delta_append_def lists_on_append)

lemma delta_on_concat:
  assumes "distinct ss" "\<And>s. s \<in> set ss \<Longrightarrow> delta_of (slot_map kh d x s) (slot_map kh d y s) (D s)"
  shows "delta_on kh d x y (set ss) (concat_deltas (map D ss))"
  unfolding delta_on_def concat_deltas_eq fst_conv snd_conv map_map
  by (intro conjI lists_on_concat) (use assms in \<open>auto simp: slot_map_minus\<close>)

lemma delta_on_all:
  assumes "delta_on kh d x y S D"
    "\<And>s. s < 32 \<Longrightarrow> s \<notin> S \<Longrightarrow> slot_map kh d x s = Map.empty \<and> slot_map kh d y s = Map.empty"
  shows "delta_of x y D"
proof -
  have "slot_map kh d (map_minus y x) s = Map.empty" "slot_map kh d (map_minus x y) s = Map.empty"
    if "s < 32" "s \<notin> S" for s
    unfolding slot_map_minus using assms(2) [OF that] by simp_all
  then show ?thesis using assms(1) lists_on_all unfolding delta_on_def by blast
qed

lemma diff_leaf_slots_ok:
  "(\<And>s. s \<in> set ss \<Longrightarrow> diff_leaf_slot a b s = Inr (D s)) \<Longrightarrow>
     diff_leaf_slots a b ss = Inr (concat_deltas (map D ss))"
  by (induction ss) auto

lemma diff_cross_slots_ok:
  "(\<And>s. s \<in> set ss \<Longrightarrow> diff_leaf_subtree resolver a b s side d = Inr (D s)) \<Longrightarrow>
     diff_cross_slots resolver a b side d ss = Inr (concat_deltas (map D ss))"
  by (induction ss) auto

lemma delta_append_Nil [simp]: "delta_append D ([], []) = D"
  by (simp add: delta_append_def)

lemma rbind_Inr_id: "rbind x (\<lambda>d. Inr d) = x"
  by (cases x) auto

lemma diff_child_slots_ok:
  "(\<And>s. s \<in> set ss \<Longrightarrow> diff_child_slots resolver a b d [(s, ia s, ib s)] = Inr (D s)) \<Longrightarrow>
     diff_child_slots resolver a b d (map (\<lambda>s. (s, ia s, ib s)) ss) = Inr (concat_deltas (map D ss))"
proof (induction ss)
  case (Cons s ss)
  then have "diff_child_slots resolver a b d [(s, ia s, ib s)] = Inr (D s)" by simp
  moreover have "diff_child_slots resolver a b d (map (\<lambda>s. (s, ia s, ib s)) ss) = Inr (concat_deltas (map D ss))"
    using Cons by simp
  ultimately show ?case by (simp add: rbind_Inr_id)
qed simp


section \<open>One slot\<close>

text \<open>The leaves and children of a node as functions of the slot.\<close>

definition node_shape ::
  "('k, 'v) hamt_params \<Rightarrow> string \<Rightarrow> ('k \<Rightarrow> structural_hash) \<Rightarrow> ('k, 'v, 'e) resolver \<Rightarrow> nat \<Rightarrow> ('k \<rightharpoonup> 'v)
    \<Rightarrow> ('k, 'v) hamt_node \<Rightarrow> (nat \<Rightarrow> 'k \<times> 'v) \<Rightarrow> (nat \<Rightarrow> ('k, 'v) node_ref) \<Rightarrow> bool" where
  "node_shape P skey kh resolver d m n lf ch \<longleftrightarrow>
     hn_leaves n = compressed lf (hn_datamap n) \<and> hn_children n = compressed ch (hn_nodemap n) \<and> finite (dom m) \<and>
     (\<forall>s < 32. slot_ok P skey kh resolver d (slot_map kh d m s) (bit (hn_datamap n) s) (bit (hn_nodemap n) s)
        (lf s) (ch s))"

lemma trie_shape:
  assumes "trie P skey kh resolver d m n"
  obtains lf ch where "d < 52" "node_shape P skey kh resolver d m n lf ch"
  using assms trie_fields unfolding trie_iff node_shape_def by metis

lemma shape_slot:
  assumes "node_shape P skey kh resolver d m n lf ch" "s < 32"
  shows "\<not> (bit (hn_datamap n) s \<and> bit (hn_nodemap n) s)"
    "bit (hn_datamap n) s \<Longrightarrow> slot_map kh d m s = [fst (lf s) \<mapsto> snd (lf s)]"
    "\<not> bit (hn_datamap n) s \<Longrightarrow> \<not> bit (hn_nodemap n) s \<Longrightarrow> slot_map kh d m s = Map.empty"
    "bit (hn_datamap n) s \<Longrightarrow> vec_index (hn_leaves n) (map_index (hn_datamap n) s) = Inr (lf s)"
    "bit (hn_nodemap n) s \<Longrightarrow> vec_index (hn_children n) (map_index (hn_nodemap n) s) = Inr (ch s)"
proof -
  have ok: "slot_ok P skey kh resolver d (slot_map kh d m s) (bit (hn_datamap n) s) (bit (hn_nodemap n) s) (lf s) (ch s)"
    and fin: "finite (dom (slot_map kh d m s))"
    using assms unfolding node_shape_def by auto
  show "\<not> (bit (hn_datamap n) s \<and> bit (hn_nodemap n) s)"
    "bit (hn_datamap n) s \<Longrightarrow> slot_map kh d m s = [fst (lf s) \<mapsto> snd (lf s)]"
    "\<not> bit (hn_datamap n) s \<Longrightarrow> \<not> bit (hn_nodemap n) s \<Longrightarrow> slot_map kh d m s = Map.empty"
    using slot_okE [OF ok fin] by metis+
  show "bit (hn_datamap n) s \<Longrightarrow> vec_index (hn_leaves n) (map_index (hn_datamap n) s) = Inr (lf s)"
    "bit (hn_nodemap n) s \<Longrightarrow> vec_index (hn_children n) (map_index (hn_nodemap n) s) = Inr (ch s)"
    using assms compressed_index unfolding node_shape_def by metis+
qed

lemma shape_child:
  assumes "node_shape P skey kh resolver d m n lf ch" "s < 32" "bit (hn_nodemap n) s"
  obtains c where "resolve_node_checked resolver (ch s) = Inr c" "ref_hash (ch s) = hn_hash c"
    "trie P skey kh resolver (Suc d) (slot_map kh d m s) c"
  using assms unfolding node_shape_def slot_ok_def resolve_node_checked_iff by blast

lemma leaf_slot_delta:
  assumes a: "node_shape P skey kh resolver d x a la ca" and b: "node_shape P skey kh resolver d y b lb cb"
    and s: "s < 32" "bit (hn_datamap a) s \<or> bit (hn_datamap b) s"
      "\<not> (bit (hn_datamap a) s \<and> bit (hn_nodemap b) s)" "\<not> (bit (hn_nodemap a) s \<and> bit (hn_datamap b) s)"
  shows "\<exists>D. diff_leaf_slot a b s = Inr D \<and> delta_of (slot_map kh d x s) (slot_map kh d y s) D"
proof -
  obtain ka va kb vb where lf: "la s = (ka, va)" "lb s = (kb, vb)" by (cases "la s"; cases "lb s")
  note step = diff_leaf_slot_def and_slot_bit [OF s(1)] shape_slot [OF a s(1)] shape_slot [OF b s(1)] lf Let_def
  consider "bit (hn_datamap a) s" "bit (hn_datamap b) s" | "bit (hn_datamap a) s" "\<not> bit (hn_datamap b) s"
    | "\<not> bit (hn_datamap a) s" "bit (hn_datamap b) s" using s(2) by blast
  then show ?thesis
  proof cases
    case 1
    then show ?thesis by (auto simp: step map_minus_def split: if_splits)
  next
    case 2
    then show ?thesis using s(3) by (auto simp: step split: if_splits)
  next
    case 3
    then show ?thesis using s(4) by (auto simp: step split: if_splits)
  qed
qed

lemma subtree_leaves_lists:
  "trie P skey kh resolver d m n \<Longrightarrow> \<exists>es. subtree_leaves resolver d n = Inr es \<and> lists m es"
  using walk_subtree_lists by (fastforce simp: subtree_leaves_def)

lemma leaf_subtree_delta:
  assumes a: "node_shape P skey kh resolver d x a la ca" and b: "node_shape P skey kh resolver d y b lb cb"
    and s: "s < 32" "bit (hn_datamap a) s" "bit (hn_nodemap b) s"
  shows "\<exists>D. diff_leaf_subtree resolver a b s side (Suc d) = Inr D \<and>
    (if side then delta_of (slot_map kh d x s) (slot_map kh d y s) D
     else delta_of (slot_map kh d y s) (slot_map kh d x s) D)"
proof -
  obtain k v where la: "la s = (k, v)" by (cases "la s")
  obtain c where c: "resolve_node_checked resolver (cb s) = Inr c" "trie P skey kh resolver (Suc d) (slot_map kh d y s) c"
    using shape_child [OF b s(1,3)] by blast
  then obtain es where es: "subtree_leaves resolver (Suc d) c = Inr es" "lists (slot_map kh d y s) es"
    using subtree_leaves_lists by blast
  have x: "slot_map kh d x s = [k \<mapsto> v]" using shape_slot(2) [OF a s(1,2)] by (simp add: la)
  have "lists (map_minus (slot_map kh d y s) [k \<mapsto> v]) (filter (\<lambda>e. e \<noteq> (k, v)) es)"
    using es(2) by (auto simp: map_minus_def distinct_map inj_on_def split: if_splits)
  moreover have "lists (map_minus [k \<mapsto> v] (slot_map kh d y s)) (if (k, v) \<in> set es then [] else [(k, v)])"
    using es(2) by (auto simp: map_minus_def split: if_splits)
  moreover have "diff_leaf_subtree resolver a b s side (Suc d) =
      Inr (if side then (filter (\<lambda>e. e \<noteq> (k, v)) es, if (k, v) \<in> set es then [] else [(k, v)])
           else (if (k, v) \<in> set es then [] else [(k, v)], filter (\<lambda>e. e \<noteq> (k, v)) es))"
    using shape_slot(4) [OF a s(1,2)] shape_slot(5) [OF b s(1,3)] c(1) es(1)
    by (simp add: diff_leaf_subtree_def resolve_only_child_def la Let_def del: rbind_eq_Inr)
  ultimately show ?thesis unfolding x by (cases side) auto
qed

section \<open>Differences of tries\<close>

text \<open>The structural hash tells apart the subtrees of two tries that stand for different maps.\<close>

definition no_collision ::
  "('k, 'v) hamt_params \<Rightarrow> string \<Rightarrow> ('k \<Rightarrow> structural_hash) \<Rightarrow> ('k, 'v, 'e) resolver
    \<Rightarrow> ('k \<rightharpoonup> 'v) \<Rightarrow> ('k \<rightharpoonup> 'v) \<Rightarrow> bool" where
  "no_collision P skey kh resolver x y \<longleftrightarrow>
     (\<forall>d m1 m2 n1 n2. m1 \<subseteq>\<^sub>m x \<longrightarrow> m2 \<subseteq>\<^sub>m y \<longrightarrow> routed kh d (dom m1 \<union> dom m2) \<longrightarrow>
        trie P skey kh resolver d m1 n1 \<longrightarrow> trie P skey kh resolver d m2 n2 \<longrightarrow>
        hn_hash n1 = hn_hash n2 \<longrightarrow> m1 = m2)"

lemma no_collision_slot:
  assumes "no_collision P skey kh resolver x y"
  shows "no_collision P skey kh resolver (slot_map kh d x s) (slot_map kh d y s)"
proof -
  have "slot_map kh d x s \<subseteq>\<^sub>m x" "slot_map kh d y s \<subseteq>\<^sub>m y" by (auto simp: map_le_def slot_map_apply split: if_splits)
  then show ?thesis using assms map_le_trans unfolding no_collision_def by blast
qed

lemma no_collisionD:
  "no_collision P skey kh resolver x y \<Longrightarrow> routed kh d (dom x \<union> dom y) \<Longrightarrow> trie P skey kh resolver d x n1 \<Longrightarrow>
     trie P skey kh resolver d y n2 \<Longrightarrow> hn_hash n1 = hn_hash n2 \<Longrightarrow> x = y"
  unfolding no_collision_def by (metis map_le_refl)

lemma routed_slots: "routed kh d (dom x \<union> dom y) \<Longrightarrow> routed kh (Suc d) (dom (slot_map kh d x s) \<union> dom (slot_map kh d y s))"
  by (erule routed_slot [of _ _ _ _ s]) (auto simp: slot_map_apply split: if_splits)

lemma diff_nodes_split:
  assumes "d < 52" "hn_hash a \<noteq> hn_hash b"
    and "cross = (hn_datamap a AND hn_nodemap b) OR (hn_nodemap a AND hn_datamap b)"
    and "map_err Panicked (diff_leaf_slots a b (set_bits ((hn_datamap a OR hn_datamap b) AND NOT cross))) = Inr d1"
    "diff_child_slots resolver a b (Suc d)
       (union_nodemaps (hn_nodemap a AND NOT cross) (hn_nodemap b AND NOT cross)) = Inr d2"
    "diff_cross_slots resolver a b True (Suc d) (set_bits (hn_datamap a AND hn_nodemap b)) = Inr d3"
    "diff_cross_slots resolver b a False (Suc d) (set_bits (hn_nodemap a AND hn_datamap b)) = Inr d4"
  shows "diff_nodes resolver a b d = Inr (delta_append (delta_append (delta_append d1 d2) d3) d4)"
  using assms by (simp add: diff_nodes.simps diff_short_circuit_def Let_def)



lemma child_slot_delta:
  assumes a: "node_shape P skey kh resolver d x a la ca" and b: "node_shape P skey kh resolver d y b lb cb"
    and s: "s < 32" "bit (hn_nodemap a) s \<or> bit (hn_nodemap b) s"
      "\<not> (bit (hn_datamap a) s \<and> bit (hn_nodemap b) s)" "\<not> (bit (hn_nodemap a) s \<and> bit (hn_datamap b) s)"
    and sub: "no_collision P skey kh resolver (slot_map kh d x s) (slot_map kh d y s)"
      "routed kh (Suc d) (dom (slot_map kh d x s) \<union> dom (slot_map kh d y s))"
    and rec: "\<And>na nb. trie P skey kh resolver (Suc d) (slot_map kh d x s) na \<Longrightarrow>
      trie P skey kh resolver (Suc d) (slot_map kh d y s) nb \<Longrightarrow>
      \<exists>D. diff_nodes resolver na nb (Suc d) = Inr D \<and> delta_of (slot_map kh d x s) (slot_map kh d y s) D"
  shows "\<exists>D. diff_child_slots resolver a b (Suc d) [(s, bit (hn_nodemap a) s, bit (hn_nodemap b) s)] = Inr D \<and>
    delta_of (slot_map kh d x s) (slot_map kh d y s) D"
proof -
  note A = shape_slot [OF a s(1)] and B = shape_slot [OF b s(1)]
  note step = resolve_changed_pair_def resolve_only_child_def rbind_Inr_id
  consider "bit (hn_nodemap a) s" "bit (hn_nodemap b) s"
    | "bit (hn_nodemap a) s" "\<not> bit (hn_nodemap b) s" | "\<not> bit (hn_nodemap a) s" "bit (hn_nodemap b) s"
    using s(2) by blast
  then show ?thesis
  proof cases
    case 1
    obtain na where na: "resolve_node_checked resolver (ca s) = Inr na" "ref_hash (ca s) = hn_hash na"
      "trie P skey kh resolver (Suc d) (slot_map kh d x s) na" using shape_child [OF a s(1) 1(1)] by blast
    obtain nb where nb: "resolve_node_checked resolver (cb s) = Inr nb" "ref_hash (cb s) = hn_hash nb"
      "trie P skey kh resolver (Suc d) (slot_map kh d y s) nb" using shape_child [OF b s(1) 1(2)] by blast
    show ?thesis
    proof (cases "hn_hash na = hn_hash nb")
      case True
      then have "slot_map kh d x s = slot_map kh d y s" by (rule no_collisionD [OF sub na(3) nb(3)])
      with 1 True na nb show ?thesis by (simp add: step A(5) B(5))
    next
      case False
      with 1 na nb have "diff_child_slots resolver a b (Suc d) [(s, bit (hn_nodemap a) s, bit (hn_nodemap b) s)] =
          diff_nodes resolver na nb (Suc d)" by (simp add: step A(5) B(5) del: rbind_eq_Inr)
      with rec [OF na(3) nb(3)] show ?thesis by simp
    qed
  next
    case 2
    then obtain na where na: "resolve_node_checked resolver (ca s) = Inr na"
      "trie P skey kh resolver (Suc d) (slot_map kh d x s) na" using shape_child [OF a s(1)] by blast
    moreover have "slot_map kh d y s = Map.empty" using 2 B(3) s(4) by blast
    ultimately show ?thesis using 2 A(5) subtree_leaves_lists [OF na(2)] by (auto simp: step)
  next
    case 3
    then obtain nb where nb: "resolve_node_checked resolver (cb s) = Inr nb"
      "trie P skey kh resolver (Suc d) (slot_map kh d y s) nb" using shape_child [OF b s(1)] by blast
    moreover have "slot_map kh d x s = Map.empty" using 3 A(3) s(3) by blast
    ultimately show ?thesis using 3 B(5) subtree_leaves_lists [OF nb(2)] by (auto simp: step)
  qed
qed

text \<open>The four loops of \<open>diff_nodes\<close> together cover every slot once.\<close>

lemma diff_loops_delta:
  assumes a: "node_shape P skey kh resolver d x a la ca" and b: "node_shape P skey kh resolver d y b lb cb"
    and cross: "cross = (hn_datamap a AND hn_nodemap b) OR (hn_nodemap a AND hn_datamap b)"
    and L: "\<And>s. s \<in> set L \<Longrightarrow> delta_of (slot_map kh d x s) (slot_map kh d y s) (D1 s)"
      "L = set_bits ((hn_datamap a OR hn_datamap b) AND NOT cross)"
    and N: "\<And>s. s \<in> set N \<Longrightarrow> delta_of (slot_map kh d x s) (slot_map kh d y s) (D2 s)"
      "N = set_bits ((hn_nodemap a AND NOT cross) OR (hn_nodemap b AND NOT cross))"
    and C1: "\<And>s. s \<in> set C1 \<Longrightarrow> delta_of (slot_map kh d x s) (slot_map kh d y s) (D3 s)"
      "C1 = set_bits (hn_datamap a AND hn_nodemap b)"
    and C2: "\<And>s. s \<in> set C2 \<Longrightarrow> delta_of (slot_map kh d x s) (slot_map kh d y s) (D4 s)"
      "C2 = set_bits (hn_nodemap a AND hn_datamap b)"
  shows "delta_of x y (delta_append (delta_append (delta_append (concat_deltas (map D1 L)) (concat_deltas (map D2 N)))
    (concat_deltas (map D3 C1))) (concat_deltas (map D4 C2)))"
proof -
  note bits = cross set_set_bits bit_and_iff bit_or_iff bit_not_iff
  have disj: "set L \<inter> set N = {}" "(set L \<union> set N) \<inter> set C1 = {}" "(set L \<union> set N \<union> set C1) \<inter> set C2 = {}"
    using shape_slot(1) [OF a] shape_slot(1) [OF b] unfolding L(2) N(2) C1(2) C2(2) by (auto simp: bits)
  have "delta_on kh d x y (set L \<union> set N \<union> set C1 \<union> set C2)
      (delta_append (delta_append (delta_append (concat_deltas (map D1 L)) (concat_deltas (map D2 N)))
        (concat_deltas (map D3 C1))) (concat_deltas (map D4 C2)))"
    by (intro delta_on_append delta_on_concat L(1) N(1) C1(1) C2(1) disj)
      (simp_all add: L(2) N(2) C1(2) C2(2) distinct_set_bits)
  moreover have "slot_map kh d x s = Map.empty \<and> slot_map kh d y s = Map.empty"
    if "s < 32" "s \<notin> set L \<union> set N \<union> set C1 \<union> set C2" for s
    using that shape_slot(3) [OF a that(1)] shape_slot(3) [OF b that(1)] unfolding L(2) N(2) C1(2) C2(2)
    by (auto simp: bits)
  ultimately show ?thesis by (rule delta_on_all)
qed


lemma union_nodemaps_eq:
  "union_nodemaps v w = map (\<lambda>s. (s, bit v s, bit w s)) (set_bits (v OR w))"
  by (auto simp: union_nodemaps_def set_set_bits and_slot_bit)

lemma diff_nodes_delta:
  assumes "trie P skey kh resolver d x a" "trie P skey kh resolver d y b"
    "no_collision P skey kh resolver x y" "routed kh d (dom x \<union> dom y)"
  shows "\<exists>D. diff_nodes resolver a b d = Inr D \<and> delta_of x y D"
  using assms
proof (induction "52 - d" arbitrary: d x y a b rule: less_induct)
  case less
  show ?case
  proof (cases "hn_hash a = hn_hash b")
    case True
    then have "x = y" using less.prems no_collisionD by blast
    then show ?thesis using True by (simp add: diff_nodes.simps diff_short_circuit_def)
  next
    case False
    obtain la ca where d: "d < 52" and a: "node_shape P skey kh resolver d x a la ca"
      using trie_shape [OF less.prems(1)] by blast
    obtain lb cb where b: "node_shape P skey kh resolver d y b lb cb" using trie_shape [OF less.prems(2)] by blast
    let ?D = "\<lambda>s. delta_of (slot_map kh d x s) (slot_map kh d y s)"
    define cross where "cross = (hn_datamap a AND hn_nodemap b) OR (hn_nodemap a AND hn_datamap b)"
    note bits = cross_def set_set_bits bit_and_iff bit_or_iff bit_not_iff
    define L where L: "L = set_bits ((hn_datamap a OR hn_datamap b) AND NOT cross)"
    define N where N: "N = set_bits ((hn_nodemap a AND NOT cross) OR (hn_nodemap b AND NOT cross))"
    define C1 where C1: "C1 = set_bits (hn_datamap a AND hn_nodemap b)"
    define C2 where C2: "C2 = set_bits (hn_nodemap a AND hn_datamap b)"
    have "\<forall>s \<in> set L. \<exists>D. diff_leaf_slot a b s = Inr D \<and> ?D s D"
      unfolding L by (intro ballI leaf_slot_delta [OF a b]) (auto simp: bits)
    then obtain D1 where D1: "\<And>s. s \<in> set L \<Longrightarrow> diff_leaf_slot a b s = Inr (D1 s) \<and> ?D s (D1 s)" by metis
    have "\<forall>s \<in> set N. \<exists>D. diff_child_slots resolver a b (Suc d)
        [(s, bit (hn_nodemap a) s, bit (hn_nodemap b) s)] = Inr D \<and> ?D s D"
      unfolding N using d
      by (intro ballI child_slot_delta [OF a b] no_collision_slot [OF less.prems(3)] routed_slots [OF less.prems(4)]
          less.hyps) (auto simp: bits)
    then obtain D2 where D2: "\<And>s. s \<in> set N \<Longrightarrow> diff_child_slots resolver a b (Suc d)
        [(s, bit (hn_nodemap a) s, bit (hn_nodemap b) s)] = Inr (D2 s) \<and> ?D s (D2 s)" by metis
    have "\<forall>s \<in> set C1. \<exists>D. diff_leaf_subtree resolver a b s True (Suc d) = Inr D \<and> ?D s D"
      unfolding C1 using leaf_subtree_delta [OF a b, of _ True] by (auto simp: bits)
    then obtain D3 where D3: "\<And>s. s \<in> set C1 \<Longrightarrow> diff_leaf_subtree resolver a b s True (Suc d) = Inr (D3 s) \<and> ?D s (D3 s)"
      by metis
    have "\<forall>s \<in> set C2. \<exists>D. diff_leaf_subtree resolver b a s False (Suc d) = Inr D \<and> ?D s D"
      unfolding C2 using leaf_subtree_delta [OF b a, of _ False] by (auto simp: bits)
    then obtain D4 where D4: "\<And>s. s \<in> set C2 \<Longrightarrow> diff_leaf_subtree resolver b a s False (Suc d) = Inr (D4 s) \<and> ?D s (D4 s)"
      by metis
    have bitN: "bit (hn_nodemap a AND NOT cross) s = bit (hn_nodemap a) s"
      "bit (hn_nodemap b AND NOT cross) s = bit (hn_nodemap b) s" if "s \<in> set N" for s
      using that shape_slot(1) [OF a] shape_slot(1) [OF b] unfolding N by (auto simp: bits)
    have "diff_child_slots resolver a b (Suc d)
        (union_nodemaps (hn_nodemap a AND NOT cross) (hn_nodemap b AND NOT cross)) = Inr (concat_deltas (map D2 N))"
      unfolding union_nodemaps_eq N [symmetric] by (rule diff_child_slots_ok) (use D2 bitN in simp)
    then have "diff_nodes resolver a b d = Inr (delta_append (delta_append (delta_append
        (concat_deltas (map D1 L)) (concat_deltas (map D2 N))) (concat_deltas (map D3 C1))) (concat_deltas (map D4 C2)))"
      using D1 D3 D4 unfolding L C1 C2
      by (intro diff_nodes_split [OF d False cross_def]) (simp_all add: diff_leaf_slots_ok diff_cross_slots_ok)
    then show ?thesis
      using diff_loops_delta [OF a b cross_def _ L _ N _ C1 _ C2, of D1 D2 D3 D4] D1 D2 D3 D4 by blast
  qed
qed

section \<open>Properties\<close>

text \<open>C37: The difference of two tries is exact. When the structural hash tells the subtrees of the two tries
  apart, the difference succeeds, lists every entry that is only in the second map as added and every entry
  that is only in the first as removed, and lists no key twice.\<close>
theorem hamt_diff_exact:
  assumes "\<forall>k \<in> dom x \<union> dom y. length (kh k) = 32" "inj_on kh (dom x \<union> dom y)"
    "trie P skey kh resolver 0 x a" "trie P skey kh resolver 0 y b" "no_collision P skey kh resolver x y"
  shows "\<exists>added removed. diff_hamt_nodes resolver a b = Inr (added, removed) \<and>
    distinct (map fst added) \<and> set added = {(k, v). y k = Some v \<and> x k \<noteq> Some v} \<and>
    distinct (map fst removed) \<and> set removed = {(k, v). x k = Some v \<and> y k \<noteq> Some v}"
proof -
  have routed: "routed kh 0 (dom x \<union> dom y)" using assms(1,2) by (simp add: routed_def)
  have "\<exists>D. diff_hamt_nodes resolver a b = Inr D \<and> delta_of x y D"
  proof (cases "hn_hash a = hn_hash b")
    case True
    then have "x = y" by (rule no_collisionD [OF assms(5) routed assms(3,4)])
    then show ?thesis using True by (simp add: diff_hamt_nodes_def)
  next
    case False
    then show ?thesis using diff_nodes_delta [OF assms(3-5) routed] by (simp add: diff_hamt_nodes_def)
  qed
  then obtain added removed where "diff_hamt_nodes resolver a b = Inr (added, removed)" "delta_of x y (added, removed)"
    by auto
  moreover have "map_minus z w k = Some v \<longleftrightarrow> z k = Some v \<and> w k \<noteq> Some v" for z w and k :: 'a and v :: 'b
    by (auto simp: map_minus_def)
  ultimately show ?thesis by simp
qed

lemma bool_encode_leaves: "\<exists>bs. encode_leaves bool_codec bool_codec es = Some bs \<and> length bs = 2 * length es"
  by (induction es) (auto simp: bool_codec_def)

interpretation bool_node: node_codec bool_codec "\<lambda>_. True" bool_codec "\<lambda>_. True"
  by unfold_locales

lemma bool_encode_inj:
  assumes "encode_v1_parts bool_codec bool_codec d1 0 l1 [] = Some buf" "encode_v1_parts bool_codec bool_codec d2 0 l2 [] = Some buf"
  shows "d1 = d2 \<and> l1 = l2"
proof -
  define n where "n d l = \<lparr> pn_datamap = d, pn_nodemap = 0, pn_leaves = l, pn_child_hashes = [] \<rparr>" for d and l :: "(bool \<times> bool) list"
  have "length l1 = count_ones d1" using assms(1) by (simp add: encode_v1_parts_def split: if_splits)
  also have "\<dots> \<le> 32" unfolding count_ones_def by (rule order_trans [OF length_filter_le]) simp
  finally have "length buf \<le> USIZE_MAX" using assms(1) bool_encode_leaves [of l1]
    by (auto simp: encode_v1_parts_def HAMT_NODE_MAGIC_def USIZE_MAX_def split: if_splits)
  then have "decode_v1_unverified bool_codec bool_codec buf = Inr (n d1 l1)"
    "decode_v1_unverified bool_codec bool_codec buf = Inr (n d2 l2)"
    using assms by (simp_all add: bool_node.decode_v1_iff valid_node_def encode_v1_def n_def)
  then show ?thesis by (simp add: n_def)
qed

lemma bool_buckets: "bucket_index (bool_hash True) 0 \<noteq> bucket_index (bool_hash False) 0"
proof -
  have "bucket_index (bool_hash b) 0 = (if b then 1 else 0)" for b
  proof -
    have "bool_hash b = (if b then CHR 0x01 else CHR 0x00) # replicate 31 (if b then CHR 0x01 else CHR 0x00)"
      by (simp add: bool_hash_def flip: replicate_Suc)
    moreover have "(1 + 256 * r) mod 32 = (1 :: nat)" "256 * r mod 32 = (0 :: nat)" for r by presburger+
    ultimately show ?thesis by (simp add: bucket_index_digit)
  qed
  then show ?thesis by simp
qed

lemma bool_no_children:
  assumes "trie bool_params ''r'' bool_hash resolver d m n" "routed bool_hash d (dom m)"
  shows "hn_nodemap n = 0"
proof (rule word_slots_eqI)
  fix s :: nat assume s: "s < 32"
  obtain lf ch where shape: "node_shape bool_params ''r'' bool_hash resolver d m n lf ch" using trie_shape [OF assms(1)] by blast
  have "card (dom (slot_map bool_hash d m s)) \<le> 1"
  proof (rule ccontr)
    let ?K = "dom (slot_map bool_hash d m s)"
    assume card: "\<not> card ?K \<le> 1"
    have mem: "b \<in> ?K" for b
    proof (rule ccontr)
      assume "b \<notin> ?K"
      then have "?K \<subseteq> {\<not> b}" by (cases b) (simp_all, (metis (full_types) insertI1 subsetI)+)
      then have "card ?K \<le> card {\<not> b}" by (rule card_mono [rotated]) simp
      with card show False by simp
    qed
    have "b \<in> dom m \<and> bucket_index (bool_hash b) d = s" for b
      using mem [of b] by (auto simp: slot_map_apply split: if_splits)
    then have "routed bool_hash (Suc d) {True, False}" by (intro routed_slot [OF assms(2), of _ s]) blast
    then show False using bool_buckets unfolding routed_def by blast
  qed
  moreover have "slot_ok bool_params ''r'' bool_hash resolver d (slot_map bool_hash d m s) (bit (hn_datamap n) s)
      (bit (hn_nodemap n) s) (lf s) (ch s)" using shape s unfolding node_shape_def by blast
  then have "bit (hn_nodemap n) s \<longleftrightarrow> 2 \<le> card (dom (slot_map bool_hash d m s))" unfolding slot_ok_def by blast
  ultimately show "bit (hn_nodemap n) s \<longleftrightarrow> bit 0 s" by simp
qed

lemma bool_no_collision: "no_collision bool_params ''r'' bool_hash resolver x y"
  unfolding no_collision_def
proof (intro allI impI)
  fix d m1 m2 n1 n2
  assume r: "routed bool_hash d (dom m1 \<union> dom m2)" and h: "hn_hash n1 = hn_hash n2"
    and t: "trie bool_params ''r'' bool_hash resolver d m1 n1" "trie bool_params ''r'' bool_hash resolver d m2 n2"
  have zero: "hn_nodemap n1 = 0" "hn_nodemap n2 = 0"
    using bool_no_children [OF t(1) routed_subset [OF r]] bool_no_children [OF t(2) routed_subset [OF r]] by simp_all
  have shape: "\<exists>dm lv buf. n = HamtNode dm 0 lv [] (hash_prefix ''r'' @ STRUCTURAL_HASH_DOMAIN_V1 @ buf) \<and>
      encode_v1_parts bool_codec bool_codec dm 0 lv [] = Some buf"
    if tn: "trie bool_params ''r'' bool_hash resolver d m n" "hn_nodemap n = 0" for m n
  proof -
    obtain dm nm lf ch where n: "rebuild_node bool_params ''r'' dm nm (compressed lf dm) (compressed ch nm) = Inr n"
      using tn(1) unfolding trie_iff by blast
    then have "nm = 0" using trie_fields [OF n] tn(2) by simp
    with n show ?thesis
      by (auto simp: rebuild_node_def compute_structural_hash_def bool_params_def)
  qed
  have "n1 = n2" using shape [OF t(1) zero(1)] shape [OF t(2) zero(2)] h bool_encode_inj by auto
  then show "m1 = m2" using search_loop_correct [OF t(1)] search_loop_correct [OF t(2)] by (metis sum.inject(2) ext)
qed

theorem hamt_diff_exact_witness:
  "\<exists>a b. build_hamt_with_key_hash bool_params ''r'' [(True, False)] bool_hash = Inr a \<and>
    build_hamt_with_key_hash bool_params ''r'' [(True, True)] bool_hash = Inr b \<and>
    diff_hamt_nodes (\<lambda>h. Inl ()) a b = Inr ([(True, True)], [(True, False)])"
proof -
  obtain a where a: "build_hamt_with_key_hash bool_params ''r'' [(True, False)] bool_hash = Inr a"
    "trie bool_params ''r'' bool_hash (\<lambda>h. Inl ()) 0 [True \<mapsto> False] a"
    using bool_build [of "[(True, False)]"] by auto
  obtain b where b: "build_hamt_with_key_hash bool_params ''r'' [(True, True)] bool_hash = Inr b"
    "trie bool_params ''r'' bool_hash (\<lambda>h. Inl ()) 0 [True \<mapsto> True] b"
    using bool_build [of "[(True, True)]"] by auto
  have one: "{(k, v). [True \<mapsto> c] k = Some v \<and> [True \<mapsto> e] k \<noteq> Some v} = (if c = e then {} else {(True, c)})"
    for c e :: bool by (auto split: if_splits)
  have single: "xs = [z]" if "distinct (map fst xs)" "set xs = {z}" for xs :: "(bool \<times> bool) list" and z
  proof -
    have "length xs = 1" using distinct_card [OF that(1)] that(2) by simp
    then obtain y where "xs = [y]" by (cases xs) auto
    with that(2) show ?thesis by simp
  qed
  have hyp: "\<forall>k \<in> dom [True \<mapsto> False] \<union> dom [True \<mapsto> True]. length (bool_hash k) = 32"
    "inj_on bool_hash (dom [True \<mapsto> False] \<union> dom [True \<mapsto> True])"
    using bool_sample(1,2) by (blast, blast intro: inj_on_subset)
  obtain added removed where "diff_hamt_nodes (\<lambda>h. Inl ()) a b = Inr (added, removed)"
    "distinct (map fst added)" "set added = {(True, True)}" "distinct (map fst removed)" "set removed = {(True, False)}"
    using hamt_diff_exact [OF hyp a(2) b(2) bool_no_collision] unfolding one by auto
  then show ?thesis using a(1) b(1) single by metis
qed

end
