(* ===== verification/Hamt_Gc_Correct.thy ===== *)
theory Hamt_Gc_Correct
  imports Hamt_Gc Hamt_Delta_Correct "HOL-Library.Multiset"
begin

text \<open>
  Correctness of the reference counts. A table without saturation is the multiset of its references: adding
  and retiring hashes are union and difference of multisets, and retiring more than the multiset holds is
  reported. The difference of the nodes of two tries balances the multisets of reachable nodes, so a chain of
  roots always counts what is reachable from the live roots, and the hashes it releases are garbage.
\<close>

section \<open>Counts are multisets\<close>

definition counts_of :: "structural_hash multiset \<Rightarrow> (structural_hash \<rightharpoonup> nat)" where
  "counts_of M h = (if h \<in># M then Some (count M h) else None)"

lemma counts_of_empty: "counts_of {#} = Map.empty"
  by (simp add: counts_of_def fun_eq_iff)

lemma entry_increment_counts:
  "count M h < 2 ^ 64 - 1 \<Longrightarrow> entry_increment h (counts_of M) = counts_of (add_mset h M)"
  by (auto simp: entry_increment_def counts_of_def fun_eq_iff not_in_iff)

lemma fold_increment_counts:
  "size M + length hs \<le> 2 ^ 64 - 1 \<Longrightarrow> fold entry_increment hs (counts_of M) = counts_of (M + mset hs)"
proof (induction hs arbitrary: M)
  case (Cons h hs)
  have "count M h \<le> size M" by (rule count_le_size)
  then have "count M h < 2 ^ 64 - 1" using Cons.prems by simp
  then show ?case using Cons.IH [of "add_mset h M"] Cons.prems by (simp add: entry_increment_counts)
qed simp

lemma rt_count_counts: "rt_counts t = counts_of M \<Longrightarrow> rt_count t h = count M h"
  by (simp add: rt_count_def counts_of_def not_in_iff)

lemma validate_counts:
  assumes "rt_counts t = counts_of M" "set hs \<subseteq> set_mset R"
  shows "validate_superseded (counts_of R) t V hs =
    (case filter (\<lambda>h. h \<notin> V \<and> count M h < count R h) hs of [] \<Rightarrow> Inr () | h # _ \<Rightarrow> Inl (RefcountUnderflow h))"
  using assms(2)
proof (induction hs arbitrary: V)
  case (Cons h hs)
  have "filter (\<lambda>g. g \<notin> insert h V \<and> count M g < count R g) hs = filter (\<lambda>g. g \<notin> V \<and> count M g < count R g) hs"
    if "\<not> count M h < count R h" by (rule filter_cong) (use that in auto)
  then show ?case using Cons rt_count_counts [OF assms(1)] by (simp add: counts_of_def)
qed simp

lemma decrement_counts:
  assumes "mset hs \<subseteq># M"
  shows "\<exists>zs. decrement_all (counts_of M) hs = (counts_of (M - mset hs), zs) \<and> distinct zs \<and>
    set zs = {h \<in> set hs. h \<notin># M - mset hs}"
  using assms
proof (induction hs arbitrary: M)
  case (Cons h hs)
  then have h: "h \<in># M" and sub: "mset hs \<subseteq># M - {#h#}"
    by (auto simp: insert_subset_eq_iff)
  have diff: "M - {#h#} - mset hs = M - mset (h # hs)" by (simp add: diff_diff_add)
  obtain zs where zs: "decrement_all (counts_of (M - {#h#})) hs = (counts_of (M - mset (h # hs)), zs)"
    "distinct zs" "set zs = {g \<in> set hs. g \<notin># M - mset (h # hs)}"
    using Cons.IH [OF sub] unfolding diff by blast
  show ?case
  proof (cases "count M h = 1")
    case True
    then have "(counts_of M)(h \<mapsto> 0, h := None) = counts_of (M - {#h#})"
      by (auto simp: counts_of_def fun_eq_iff in_diff_count)
    moreover have "h \<notin> set hs" "h \<notin># M - mset (h # hs)"
      using True sub by (auto simp: in_diff_count dest!: mset_subset_eqD simp flip: set_mset_mset)
    ultimately show ?thesis using True h zs by (auto simp: counts_of_def [of M h])
  next
    case False
    have "0 < count M h" using h by simp
    with False have gt: "1 < count M h" by linarith
    then have "(counts_of M)(h \<mapsto> count M h - 1) = counts_of (M - {#h#})" "count M h - 1 \<noteq> 0"
      using h by (auto simp: counts_of_def fun_eq_iff in_diff_count)
    moreover have "h \<in> set hs" if "h \<notin># M - mset (h # hs)"
    proof (rule ccontr)
      assume "h \<notin> set hs"
      then show False using gt that by (simp add: in_diff_count count_mset_0_iff [symmetric] del: count_mset_0_iff)
    qed
    ultimately show ?thesis using h zs by (auto simp: counts_of_def [of M h] Let_def)
  qed
qed simp

lemma apply_superseded_counts:
  assumes "rt_counts t = counts_of M" "length hs \<le> 2 ^ 64 - 1"
  shows "if mset hs \<subseteq># M
    then \<exists>t' zs. apply_superseded hs t = Inr (t', zs) \<and> rt_counts t' = counts_of (M - mset hs) \<and> distinct zs \<and>
      set zs = {h \<in> set hs. h \<notin># M - mset hs}
    else \<exists>h \<in> set hs. apply_superseded hs t = Inl (RefcountUnderflow h) \<and> count M h < count (mset hs) h"
proof -
  let ?bad = "filter (\<lambda>h. h \<notin> {} \<and> count M h < count (mset hs) h) hs"
  have "fold entry_increment hs Map.empty = counts_of (mset hs)"
    using fold_increment_counts [of "{#}" hs] assms(2) by (simp add: counts_of_empty)
  then have step: "apply_superseded hs t = ok_then (case ?bad of [] \<Rightarrow> Inr () | h # _ \<Rightarrow> Inl (RefcountUnderflow h))
      (let (m, zeroed) = decrement_all (rt_counts t) hs in Inr (t\<lparr> rt_counts := m \<rparr>, zeroed))"
    unfolding apply_superseded_def Let_def by (simp only: validate_counts [OF assms(1)] set_mset_mset order_refl)
  have bad: "?bad = [] \<longleftrightarrow> mset hs \<subseteq># M"
    unfolding subseteq_mset_def filter_empty_conv
    by (metis (mono_tags, lifting) count_mset_0_iff empty_iff leD leI le0 mem_Collect_eq)
  show ?thesis
  proof (cases "mset hs \<subseteq># M")
    case True
    then obtain zs where "decrement_all (counts_of M) hs = (counts_of (M - mset hs), zs)" "distinct zs"
      "set zs = {h \<in> set hs. h \<notin># M - mset hs}" using decrement_counts by blast
    then show ?thesis using True step bad assms(1) by auto
  next
    case False
    then obtain h r where hr: "?bad = h # r" using bad by (cases ?bad) auto
    then have "h \<in> set ?bad" by simp
    then show ?thesis using False step hr by auto
  qed
qed

lemma apply_new_counts:
  "rt_counts t = counts_of M \<Longrightarrow> size M + length hs \<le> 2 ^ 64 - 1 \<Longrightarrow> rt_counts (apply_new hs t) = counts_of (M + mset hs)"
  by (simp add: apply_new_def fold_increment_counts)

section \<open>Reachable nodes\<close>

definition reach :: "('k, 'v, 'e) resolver \<Rightarrow> nat \<Rightarrow> ('k, 'v) hamt_node \<Rightarrow> structural_hash multiset" where
  "reach resolver d n = (case walk_subtree resolver d n of Inr ns \<Rightarrow> mset (map hn_hash ns) | Inl _ \<Rightarrow> {#})"

definition kid :: "('k, 'v, 'e) resolver \<Rightarrow> (nat \<Rightarrow> ('k, 'v) node_ref) \<Rightarrow> nat \<Rightarrow> ('k, 'v) hamt_node" where
  "kid resolver ch s = projr (resolve_node_checked resolver (ch s))"

lemma shape_kid:
  assumes "node_shape P skey kh resolver d m n lf ch" "s < 32" "bit (hn_nodemap n) s"
  shows "resolve_node_checked resolver (ch s) = Inr (kid resolver ch s)" "ref_hash (ch s) = hn_hash (kid resolver ch s)"
    "trie P skey kh resolver (Suc d) (slot_map kh d m s) (kid resolver ch s)"
  using shape_child [OF assms] by (metis kid_def sum.sel(2))+

lemma append_reachable_ok:
  "trie P skey kh resolver d m n \<Longrightarrow> \<exists>hs. append_reachable_node_hashes resolver d n = Inr hs \<and> mset hs = reach resolver d n"
  using walk_subtree_lists by (fastforce simp: append_reachable_node_hashes_def reach_def)

lemma mset_concat_sum: "distinct ss \<Longrightarrow> mset (concat (map f ss)) = (\<Sum>s \<in> set ss. mset (f s))"
  by (induction ss) simp_all

lemma reach_node:
  assumes "d < 52" "node_shape P skey kh resolver d m n lf ch"
  shows "reach resolver d n = add_mset (hn_hash n)
    (\<Sum>s \<in> {s. s < 32 \<and> bit (hn_nodemap n) s}. reach resolver (Suc d) (kid resolver ch s))"
proof -
  define W where "W s = projr (walk_subtree resolver (Suc d) (kid resolver ch s))" for s
  let ?N = "filter (bit (hn_nodemap n)) [0..<32]"
  have W: "walk_subtree resolver (Suc d) (kid resolver ch s) = Inr (W s)" if "s \<in> set ?N" for s
  proof -
    have "s < 32" "bit (hn_nodemap n) s" using that by auto
    then obtain ns where "walk_subtree resolver (Suc d) (kid resolver ch s) = Inr ns"
      using walk_subtree_lists [OF shape_kid(3) [OF assms(2)]] by blast
    then show ?thesis by (simp add: W_def)
  qed
  have "walk_children resolver (Suc d) (hn_children n) = Inr (concat (map W ?N))"
    using assms(2) W shape_kid(1) [OF assms(2)] unfolding node_shape_def compressed_def
    by (auto intro!: walk_children_ok)
  then have "walk_subtree resolver d n = Inr (n # concat (map W ?N))"
    using assms(1) by (simp add: walk_subtree.simps)
  then have "reach resolver d n = add_mset (hn_hash n) (mset (concat (map (\<lambda>s. map hn_hash (W s)) ?N)))"
    by (simp add: reach_def map_concat o_def flip: mset_map)
  also have "mset (concat (map (\<lambda>s. map hn_hash (W s)) ?N)) = (\<Sum>s \<in> set ?N. mset (map hn_hash (W s)))"
    by (rule mset_concat_sum) simp
  also have "\<dots> = (\<Sum>s \<in> set ?N. reach resolver (Suc d) (kid resolver ch s))"
    by (rule sum.cong) (simp_all add: reach_def W)
  also have "set ?N = {s. s < 32 \<and> bit (hn_nodemap n) s}" by auto
  finally show ?thesis .
qed

text \<open>The hashes of the nodes of a subtree depend only on its map.\<close>

lemma reach_unique:
  assumes "trie P skey kh resolver d m n1" "trie P skey kh resolver d m n2"
  shows "reach resolver d n1 = reach resolver d n2"
  using assms
proof (induction "52 - d" arbitrary: d m n1 n2 rule: less_induct)
  case less
  obtain l1 c1 where d: "d < 52" and 1: "node_shape P skey kh resolver d m n1 l1 c1"
    using trie_shape [OF less.prems(1)] by blast
  obtain l2 c2 where 2: "node_shape P skey kh resolver d m n2 l2 c2" using trie_shape [OF less.prems(2)] by blast
  have bits: "bit (hn_nodemap n1) s \<longleftrightarrow> bit (hn_nodemap n2) s" if "s < 32" for s
  proof -
    have "bit (hn_nodemap n1) s \<longleftrightarrow> 2 \<le> card (dom (slot_map kh d m s))"
      using 1 that unfolding node_shape_def slot_ok_def by blast
    moreover have "bit (hn_nodemap n2) s \<longleftrightarrow> 2 \<le> card (dom (slot_map kh d m s))"
      using 2 that unfolding node_shape_def slot_ok_def by blast
    ultimately show ?thesis by blast
  qed
  have "reach resolver (Suc d) (kid resolver c1 s) = reach resolver (Suc d) (kid resolver c2 s)"
    if "s < 32" "bit (hn_nodemap n1) s" for s
    using less.hyps [OF _ shape_kid(3) [OF 1 that] shape_kid(3) [OF 2 that(1)]] bits [OF that(1)] that(2) d by simp
  then show ?case
    unfolding reach_node [OF d 1] reach_node [OF d 2] trie_hash_unique [OF less.prems]
    using bits by (intro arg_cong [of _ _ "add_mset _"] sum.cong) auto
qed


section \<open>Differences of nodes\<close>

text \<open>What is reachable on the two sides, less what is superseded and what is new, is shared.\<close>

definition balanced ::
  "structural_hash multiset \<Rightarrow> structural_hash multiset \<Rightarrow> node_hash_delta \<Rightarrow> bool" where
  "balanced A B D \<longleftrightarrow>
     (\<exists>S. A = mset (superseded_node_hashes D) + S \<and> B = mset (new_node_hashes D) + S)"

lemma balanced_append:
  assumes "balanced A B D" "balanced A' B' E"
  shows "balanced (A + A') (B + B') (node_delta_append D E)"
proof -
  obtain S T where "A = mset (superseded_node_hashes D) + S" "B = mset (new_node_hashes D) + S"
    "A' = mset (superseded_node_hashes E) + T" "B' = mset (new_node_hashes E) + T"
    using assms unfolding balanced_def by blast
  then show ?thesis unfolding balanced_def by (intro exI [of _ "S + T"]) (simp add: node_delta_append_def)
qed

lemma node_delta_append_Nil:
  "node_delta_append D \<lparr> superseded_node_hashes = [], new_node_hashes = [] \<rparr> = D"
  by (simp add: node_delta_append_def)

lemma diff_hash_slots_balanced:
  assumes "\<And>s. s \<in> set ss \<Longrightarrow> \<exists>D. diff_hash_slots resolver a b d [(s, ia s, ib s)] = Inr D \<and> balanced (A s) (B s) D"
    "distinct ss"
  shows "\<exists>D. diff_hash_slots resolver a b d (map (\<lambda>s. (s, ia s, ib s)) ss) = Inr D \<and>
    balanced (\<Sum>s \<in> set ss. A s) (\<Sum>s \<in> set ss. B s) D"
  using assms
proof (induction ss)
  case Nil
  then show ?case by (simp add: balanced_def)
next
  case (Cons s ss)
  obtain D where D: "diff_hash_slots resolver a b d [(s, ia s, ib s)] = Inr D" "balanced (A s) (B s) D"
    using Cons.prems(1) [of s] by auto
  obtain E where E: "diff_hash_slots resolver a b d (map (\<lambda>s. (s, ia s, ib s)) ss) = Inr E"
    "balanced (\<Sum>s \<in> set ss. A s) (\<Sum>s \<in> set ss. B s) E" using Cons by auto
  from D(1) E(1) have "diff_hash_slots resolver a b d (map (\<lambda>s. (s, ia s, ib s)) (s # ss)) = Inr (node_delta_append D E)"
    by (simp add: node_delta_append_Nil rbind_Inr_id)
  moreover have "balanced (\<Sum>s \<in> set (s # ss). A s) (\<Sum>s \<in> set (s # ss). B s) (node_delta_append D E)"
    using balanced_append [OF D(2) E(2)] Cons.prems(2) by simp
  ultimately show ?case by blast
qed

lemma hash_slot_balanced:
  assumes a: "node_shape P skey kh resolver d x a la ca" and b: "node_shape P skey kh resolver d y b lb cb"
    and s: "s < 32" "bit (hn_nodemap a) s \<or> bit (hn_nodemap b) s"
    and sub: "no_collision P skey kh resolver (slot_map kh d x s) (slot_map kh d y s)"
      "routed kh (Suc d) (dom (slot_map kh d x s) \<union> dom (slot_map kh d y s))"
    and rec: "\<And>na nb. trie P skey kh resolver (Suc d) (slot_map kh d x s) na \<Longrightarrow>
      trie P skey kh resolver (Suc d) (slot_map kh d y s) nb \<Longrightarrow>
      \<exists>D. diff_node_hashes_rec resolver na nb (Suc d) = Inr D \<and>
        balanced (reach resolver (Suc d) na) (reach resolver (Suc d) nb) D"
  shows "\<exists>D. diff_hash_slots resolver a b (Suc d) [(s, bit (hn_nodemap a) s, bit (hn_nodemap b) s)] = Inr D \<and>
    balanced (if bit (hn_nodemap a) s then reach resolver (Suc d) (kid resolver ca s) else {#})
      (if bit (hn_nodemap b) s then reach resolver (Suc d) (kid resolver cb s) else {#}) D"
proof -
  note A = shape_slot(5) [OF a s(1)] shape_kid [OF a s(1)] and B = shape_slot(5) [OF b s(1)] shape_kid [OF b s(1)]
  note step = resolve_changed_pair_def resolve_only_child_def rbind_Inr_id node_delta_append_Nil
  consider "bit (hn_nodemap a) s" "bit (hn_nodemap b) s"
    | "bit (hn_nodemap a) s" "\<not> bit (hn_nodemap b) s" | "\<not> bit (hn_nodemap a) s" "bit (hn_nodemap b) s"
    using s(2) by blast
  then show ?thesis
  proof cases
    case 1
    note t = A(4) [OF 1(1)] B(4) [OF 1(2)]
    show ?thesis
    proof (cases "hn_hash (kid resolver ca s) = hn_hash (kid resolver cb s)")
      case True
      then have "slot_map kh d x s = slot_map kh d y s" by (rule no_collisionD [OF sub t])
      with t reach_unique have "reach resolver (Suc d) (kid resolver ca s) = reach resolver (Suc d) (kid resolver cb s)"
        by metis
      with 1 True A(1-3) B(1-3) show ?thesis by (simp add: step balanced_def)
    next
      case False
      with 1 A(1-3) B(1-3) have "diff_hash_slots resolver a b (Suc d) [(s, bit (hn_nodemap a) s, bit (hn_nodemap b) s)] =
          diff_node_hashes_rec resolver (kid resolver ca s) (kid resolver cb s) (Suc d)"
        by (simp add: step del: rbind_eq_Inr)
      with rec [OF t] 1 show ?thesis by simp
    qed
  next
    case 2
    then show ?thesis using A(1,2) append_reachable_ok [OF A(4)] by (auto simp: step balanced_def)
  next
    case 3
    then show ?thesis using B(1,2) append_reachable_ok [OF B(4)] by (auto simp: step balanced_def)
  qed
qed

lemma diff_node_hashes_balanced:
  assumes "trie P skey kh resolver d x a" "trie P skey kh resolver d y b"
    "no_collision P skey kh resolver x y" "routed kh d (dom x \<union> dom y)"
  shows "\<exists>D. diff_node_hashes_rec resolver a b d = Inr D \<and> balanced (reach resolver d a) (reach resolver d b) D"
  using assms
proof (induction "52 - d" arbitrary: d x y a b rule: less_induct)
  case less
  show ?case
  proof (cases "hn_hash a = hn_hash b")
    case True
    then have "x = y" using less.prems no_collisionD by blast
    then have "reach resolver d a = reach resolver d b" using less.prems reach_unique by blast
    then show ?thesis using True by (simp add: diff_node_hashes_rec.simps diff_short_circuit_def balanced_def)
  next
    case False
    obtain la ca where d: "d < 52" and a: "node_shape P skey kh resolver d x a la ca"
      using trie_shape [OF less.prems(1)] by blast
    obtain lb cb where b: "node_shape P skey kh resolver d y b lb cb" using trie_shape [OF less.prems(2)] by blast
    let ?A = "\<lambda>s. if bit (hn_nodemap a) s then reach resolver (Suc d) (kid resolver ca s) else {#}"
    let ?B = "\<lambda>s. if bit (hn_nodemap b) s then reach resolver (Suc d) (kid resolver cb s) else {#}"
    let ?N = "set_bits (hn_nodemap a OR hn_nodemap b)"
    have "\<exists>D. diff_hash_slots resolver a b (Suc d) (map (\<lambda>s. (s, bit (hn_nodemap a) s, bit (hn_nodemap b) s)) ?N) = Inr D \<and>
        balanced (\<Sum>s \<in> set ?N. ?A s) (\<Sum>s \<in> set ?N. ?B s) D"
      using d by (intro diff_hash_slots_balanced distinct_set_bits hash_slot_balanced [OF a b]
          no_collision_slot [OF less.prems(3)] routed_slots [OF less.prems(4)] less.hyps)
        (auto simp: set_set_bits bit_or_iff intro: no_collision_slot [OF less.prems(3)] routed_slots [OF less.prems(4)])
    then obtain D where D: "diff_hash_slots resolver a b (Suc d) (union_nodemaps (hn_nodemap a) (hn_nodemap b)) = Inr D"
      "balanced (\<Sum>s \<in> set ?N. ?A s) (\<Sum>s \<in> set ?N. ?B s) D"
      unfolding union_nodemaps_eq by blast
    have reach: "reach resolver d a = {#hn_hash a#} + (\<Sum>s \<in> set ?N. ?A s)" "reach resolver d b = {#hn_hash b#} + (\<Sum>s \<in> set ?N. ?B s)"
      unfolding reach_node [OF d a] reach_node [OF d b]
      by (auto simp: set_set_bits bit_or_iff intro!: sum.mono_neutral_cong_left split: if_splits)
    have "balanced {#hn_hash a#} {#hn_hash b#} \<lparr> superseded_node_hashes = [hn_hash a], new_node_hashes = [hn_hash b] \<rparr>"
      by (simp add: balanced_def)
    then have "balanced (reach resolver d a) (reach resolver d b)
        (node_delta_append \<lparr> superseded_node_hashes = [hn_hash a], new_node_hashes = [hn_hash b] \<rparr> D)"
      unfolding reach by (rule balanced_append [OF _ D(2)])
    then show ?thesis using D(1) False d by (simp add: diff_node_hashes_rec.simps diff_short_circuit_def)
  qed
qed


section \<open>The chain of roots\<close>

text \<open>Between transitions a chain counts the nodes that are reachable from its root.\<close>

definition chain_tracks ::
  "('k, 'v, 'e) resolver \<Rightarrow> linear_root_chain \<Rightarrow> ('k, 'v) hamt_node \<Rightarrow> bool" where
  "chain_tracks resolver c n \<longleftrightarrow> lc_current_root c = Some (hn_hash n) \<and> lc_pending_retirement c = None \<and>
     rt_counts (lc_table c) = counts_of (reach resolver 0 n)"

lemma reachable_hashes_reach:
  "trie P skey kh resolver 0 m n \<Longrightarrow> \<exists>hs. reachable_node_hashes resolver n = Inr hs \<and> mset hs = reach resolver 0 n"
  using append_reachable_ok [of P skey kh resolver 0 m n]
  by (simp add: reachable_node_hashes_def append_reachable_node_hashes_def)

lemma bootstrap_tracks:
  assumes "trie P skey kh resolver 0 m n" "reachable_node_hashes resolver n = Inr hs" "length hs \<le> 2 ^ 64 - 1"
  shows "chain_tracks resolver (lc_bootstrap hs (hn_hash n)) n"
proof -
  have "mset hs = reach resolver 0 n" using reachable_hashes_reach [OF assms(1)] assms(2) by auto
  then show ?thesis
    using fold_increment_counts [of "{#}" hs] assms(3)
    by (simp add: chain_tracks_def lc_bootstrap_def rt_bootstrap_def rt_new_def counts_of_empty)
qed

lemma retire_garbage:
  assumes "A = mset old + S" "B = mset fresh + S"
  shows "A + mset fresh - mset old = B" "mset old \<subseteq># A + mset fresh"
    "{h \<in> set old. h \<notin># B} = set_mset A - set_mset B" "set_mset (A + mset fresh) = set_mset A \<union> set_mset B"
  using assms by (auto simp: ac_simps)

text \<open>C38: Reference counting collects exactly the garbage. Assume that the structural hash tells apart the subtrees of
  two tries that stand for different maps, that the routing hashes of their keys differ, that all their nodes
  can be resolved and that together they have fewer than 2^64 nodes. Let a chain count the nodes of the trie \<open>a\<close>, and let \<open>b\<close>
  be the next root. The difference of the two succeeds; after the transition exactly the nodes of the two tries
  have a positive count; retiring the old root does not underflow, releases exactly the nodes of \<open>a\<close> that are
  not nodes of \<open>b\<close>, each once, and leaves a chain that counts the nodes of \<open>b\<close>.\<close>
theorem gc_collects_garbage:
  assumes "\<forall>k \<in> dom x \<union> dom y. length (kh k) = 32" "inj_on kh (dom x \<union> dom y)"
    "trie P skey kh resolver 0 x a" "trie P skey kh resolver 0 y b" "no_collision P skey kh resolver x y"
    "chain_tracks resolver c a" "reachable_node_hashes resolver a = Inr ha" "reachable_node_hashes resolver b = Inr hb"
    "length ha + length hb \<le> 2 ^ 64 - 1"
  shows "\<exists>delta c1 c2 zeroed. diff_node_hashes resolver a b = Inr delta \<and>
    transition delta (hn_hash b) c = Inr c1 \<and> {h. 0 < rt_count (lc_table c1) h} = set ha \<union> set hb \<and>
    retire_previous c1 = Inr (c2, zeroed) \<and> distinct zeroed \<and> set zeroed = set ha - set hb \<and>
    chain_tracks resolver c2 b"
proof -
  have A: "reach resolver 0 a = mset ha" and B: "reach resolver 0 b = mset hb"
    using reachable_hashes_reach [OF assms(3)] reachable_hashes_reach [OF assms(4)] assms(7,8) by auto
  have "routed kh 0 (dom x \<union> dom y)" using assms(1,2) by (simp add: routed_def)
  then obtain D S where D: "diff_node_hashes resolver a b = Inr D"
    and S: "mset ha = mset (superseded_node_hashes D) + S" "mset hb = mset (new_node_hashes D) + S"
    using diff_node_hashes_balanced [OF assms(3-5)] unfolding A B balanced_def diff_node_hashes_def by blast
  note garbage = retire_garbage [OF S]
  have len: "length (superseded_node_hashes D) \<le> length ha" "length (new_node_hashes D) \<le> length hb"
    using arg_cong [OF S(1), of size] arg_cong [OF S(2), of size] by simp_all
  define c1 where "c1 = \<lparr> lc_table = apply_new (new_node_hashes D) (lc_table c),
    lc_current_root = Some (hn_hash b), lc_pending_retirement = Some (superseded_node_hashes D) \<rparr>"
  have c: "rt_counts (lc_table c) = counts_of (mset ha)" "lc_pending_retirement c = None"
    using assms(6) unfolding chain_tracks_def A by simp_all
  then have c1: "rt_counts (lc_table c1) = counts_of (mset ha + mset (new_node_hashes D))"
    using assms(9) len by (simp add: c1_def apply_new_counts)
  obtain t zs where t: "apply_superseded (superseded_node_hashes D) (lc_table c1) = Inr (t, zs)"
    "rt_counts t = counts_of (mset hb)" "distinct zs" "set zs = set ha - set hb"
    using apply_superseded_counts [OF c1, of "superseded_node_hashes D"] assms(9) len garbage by auto
  have "transition D (hn_hash b) c = Inr c1" using c(2) by (simp add: transition_def c1_def)
  moreover have "{h. 0 < rt_count (lc_table c1) h} = set ha \<union> set hb"
    using garbage(4) by (auto simp: rt_count_counts [OF c1])
  moreover have "retire_previous c1 = Inr (c1\<lparr> lc_table := t, lc_pending_retirement := None \<rparr>, zs)"
    using t(1) by (simp add: retire_previous_def c1_def)
  moreover have "chain_tracks resolver (c1\<lparr> lc_table := t, lc_pending_retirement := None \<rparr>) b"
    using t(2) by (simp add: chain_tracks_def B c1_def)
  ultimately show ?thesis using D t(3,4) by blast
qed

theorem gc_collects_garbage_witness:
  "\<exists>a b ha delta c1 c2. build_hamt_with_key_hash bool_params ''r'' [(True, False)] bool_hash = Inr a \<and>
    build_hamt_with_key_hash bool_params ''r'' [(True, True)] bool_hash = Inr b \<and>
    reachable_node_hashes (\<lambda>h. Inl ()) a = Inr ha \<and> diff_node_hashes (\<lambda>h. Inl ()) a b = Inr delta \<and>
    transition delta (hn_hash b) (lc_bootstrap ha (hn_hash a)) = Inr c1 \<and> (\<exists>zeroed. retire_previous c1 = Inr (c2, zeroed)) \<and>
    chain_tracks (\<lambda>h. Inl ()) c2 b"
proof -
  obtain a where a: "build_hamt_with_key_hash bool_params ''r'' [(True, False)] bool_hash = Inr a"
    "trie bool_params ''r'' bool_hash (\<lambda>h. Inl ()) 0 [True \<mapsto> False] a"
    using bool_build [of "[(True, False)]"] by auto
  obtain b where b: "build_hamt_with_key_hash bool_params ''r'' [(True, True)] bool_hash = Inr b"
    "trie bool_params ''r'' bool_hash (\<lambda>h. Inl ()) 0 [True \<mapsto> True] b"
    using bool_build [of "[(True, True)]"] by auto
  have one: "reachable_node_hashes (\<lambda>h. Inl ()) n = Inr [hn_hash n]"
    if "trie bool_params ''r'' bool_hash (\<lambda>h. Inl ()) 0 m n" for m and n :: "(bool, bool) hamt_node"
  proof -
    have "routed bool_hash 0 (dom m)" using bool_sample(1,2) unfolding routed_def by (blast intro: inj_on_subset)
    then have "hn_nodemap n = 0" by (rule bool_no_children [OF that])
    then have "hn_children n = []" using trie_shape [OF that] unfolding node_shape_def by (metis compressed_zero)
    then show ?thesis by (simp add: reachable_node_hashes_def walk_subtree.simps)
  qed
  have hyp: "\<forall>k \<in> dom [True \<mapsto> False] \<union> dom [True \<mapsto> True]. length (bool_hash k) = 32"
    "inj_on bool_hash (dom [True \<mapsto> False] \<union> dom [True \<mapsto> True])"
    using bool_sample(1,2) by (blast, blast intro: inj_on_subset)
  have "chain_tracks (\<lambda>h. Inl ()) (lc_bootstrap [hn_hash a] (hn_hash a)) a"
    by (rule bootstrap_tracks [OF a(2) one [OF a(2)]]) simp
  from gc_collects_garbage [OF hyp a(2) b(2) bool_no_collision this one [OF a(2)] one [OF b(2)]]
  show ?thesis using a(1) b(1) one [OF a(2)] by force
qed

text \<open>The one-step variant decrements before it increments: a node that is superseded and new at once is
  released although it stays counted, while the two-step protocol keeps it.\<close>

lemma advance_releases_counted_node:
  "let c = lc_bootstrap [''h''] ''h''; delta = \<lparr> superseded_node_hashes = [''h''], new_node_hashes = [''h''] \<rparr>
   in (\<exists>c'. advance delta ''h'' c = Inr (c', [''h'']) \<and> rt_count (lc_table c') ''h'' = 1) \<and>
      (\<exists>c1 c2. transition delta ''h'' c = Inr c1 \<and> retire_previous c1 = Inr (c2, []))"
  by (simp add: lc_bootstrap_def rt_bootstrap_def rt_new_def advance_def transition_def retire_previous_def
      apply_superseded_def apply_new_def entry_increment_def rt_count_def Let_def)

end
