(* ===== verification/Reach_Index.thy ===== *)
theory Reach_Index
  imports Kahn_Sort
begin

text \<open>
  Reachability in the graph of auth events, \<open>src/src/resolve/reachability.rs\<close>, with the dense index it
  uses, \<open>src/src/dense_index.rs\<close>. Dense positions are natural numbers; the index refuses more than
  \<open>2 ^ 32\<close> nodes. A vector of flags is the list of the positions whose flag is set, and a vector that marks a
  missing entry by the greatest value has options. The positions that index a vector stem from the
  dense index of the same graph, so they are in range.
\<close>

section \<open>Dense index\<close>

record 'a dense_index =
  di_items :: "'a list"
  di_index_by_item :: "('a \<times> nat) list"

datatype index_too_large = IndexTooLarge nat

text \<open>Allocation does not fail; the error carries the number of distinct items.\<close>

fun index_items ::
  "nat \<Rightarrow> 'a dense_index \<Rightarrow> 'a list \<Rightarrow> (index_too_large, 'a dense_index) result" where
  "index_items bound d [] = Inr d"
| "index_items bound d (item # items) =
     (if map_of (di_index_by_item d) item \<noteq> None then index_items bound d items
      else if length (di_items d) \<ge> bound
      then Inl (IndexTooLarge (length (di_index_by_item d) +
        length (remdups (filter (\<lambda>i. map_of (di_index_by_item d) i = None) (item # items)))))
      else index_items bound
        \<lparr> di_items = di_items d @ [item],
          di_index_by_item = hm_insert item (length (di_items d)) (di_index_by_item d) \<rparr> items)"

definition try_build_bounded :: "'a list \<Rightarrow> nat \<Rightarrow> (index_too_large, 'a dense_index) result" where
  "try_build_bounded universe bound = index_items bound \<lparr> di_items = [], di_index_by_item = [] \<rparr> universe"

definition try_build :: "'a list \<Rightarrow> (index_too_large, 'a dense_index) result" where
  "try_build universe = try_build_bounded universe (2 ^ 32)"

definition index_of :: "'a dense_index \<Rightarrow> 'a \<Rightarrow> nat option" where
  "index_of d item = map_of (di_index_by_item d) item"

definition try_push ::
  "'a \<Rightarrow> 'a dense_index \<Rightarrow> (index_too_large, nat) result \<times> 'a dense_index" where
  "try_push item d = (case map_of (di_index_by_item d) item of
       Some idx \<Rightarrow> (Inr idx, d)
     | None \<Rightarrow>
         let distinct_count = length (di_items d)
         in if distinct_count \<ge> 2 ^ 32 then (Inl (IndexTooLarge distinct_count), d)
            else (Inr distinct_count,
              \<lparr> di_items = di_items d @ [item],
                di_index_by_item = hm_insert item distinct_count (di_index_by_item d) \<rparr>))"

section \<open>Topology\<close>

type_synonym topology = "(string \<times> nat) list \<times> (string \<times> string list) list"

definition topo_edge :: "event_map \<Rightarrow> string \<Rightarrow> string \<Rightarrow> topology \<Rightarrow> topology" where
  "topo_edge graph i auth_id s = (case s of (in_degree, children) \<Rightarrow>
     if map_of graph auth_id \<noteq> None
     then (hm_insert i (degree_of in_degree i + 1) in_degree,
           hm_insert auth_id (adjacent_of children auth_id @ [i]) children)
     else s)"

definition topo_node :: "event_map \<Rightarrow> string \<times> lean_event \<Rightarrow> topology \<Rightarrow> topology" where
  "topo_node graph e s = (case e of (i, ev) \<Rightarrow> (case s of (in_degree, children) \<Rightarrow>
     fold (topo_edge graph i) (ev_auth_events ev) (or_insert i 0 in_degree, children)))"

fun topo_relax ::
  "string list \<Rightarrow> (string \<times> nat) list \<Rightarrow> string list \<Rightarrow> (fault, (string \<times> nat) list \<times> string list) result" where
  "topo_relax [] in_degree queue = Inr (in_degree, queue)"
| "topo_relax (child # children) in_degree queue =
     (case map_of in_degree child of
        None \<Rightarrow> Inl UnwrapNone
      | Some degree \<Rightarrow>
          topo_relax children (hm_insert child (degree - 1) in_degree)
            (if degree - 1 = 0 then queue @ [child] else queue))"

text \<open>The loop over the queue takes fuel, one unit for each node that is taken from it.\<close>

fun topo_loop ::
  "(string \<times> string list) list \<Rightarrow> nat \<Rightarrow> (string \<times> nat) list \<Rightarrow> string list \<Rightarrow> string list
    \<Rightarrow> (fault, string list \<times> (string \<times> nat) list) result" where
  "topo_loop children fuel in_degree [] topo = Inr (topo, in_degree)"
| "topo_loop children 0 in_degree (i # queue) topo = Inl OutOfFuel"
| "topo_loop children (Suc fuel) in_degree (i # queue) topo =
     rbind (topo_relax (adjacent_of children i) in_degree queue) (\<lambda>(in_degree, queue).
       topo_loop children fuel in_degree queue (topo @ [i]))"

definition collect_topology ::
  "event_map \<Rightarrow> (fault, string list \<times> (string \<times> string list) list \<times> string list) result" where
  "collect_topology graph =
     (let (in_degree, children) = fold (topo_node graph) graph ([], []);
          queue = sort (map fst (filter (\<lambda>(_, degree). degree = 0) in_degree))
      in rbind (topo_loop children (length graph) in_degree queue []) (\<lambda>(topo, in_degree).
           let leftover_nodes = sort (map fst (filter (\<lambda>(_, degree). degree \<noteq> 0) in_degree))
           in Inr (topo @ leftover_nodes, children, leftover_nodes)))"

definition index_child ::
  "string dense_index \<Rightarrow> nat \<Rightarrow> string \<Rightarrow> nat list list \<times> nat list \<Rightarrow> nat list list \<times> nat list" where
  "index_child index parent_idx child_id s = (case s of (children_by_index, in_degree_by_index) \<Rightarrow>
     (case index_of index child_id of
        None \<Rightarrow> s
      | Some child_idx \<Rightarrow>
          (children_by_index[parent_idx := children_by_index ! parent_idx @ [child_idx]],
           in_degree_by_index[child_idx := in_degree_by_index ! child_idx + 1])))"

definition index_parent ::
  "string dense_index \<Rightarrow> string \<times> string list \<Rightarrow> nat list list \<times> nat list \<Rightarrow> nat list list \<times> nat list" where
  "index_parent index e s = (case index_of index (fst e) of
       None \<Rightarrow> s
     | Some parent_idx \<Rightarrow> fold (index_child index parent_idx) (snd e) s)"

definition build_indexed_children ::
  "nat \<Rightarrow> (string \<times> string list) list \<Rightarrow> string dense_index \<Rightarrow> nat list list \<times> nat list" where
  "build_indexed_children topo_len children index =
     fold (index_parent index) children (replicate topo_len [], replicate topo_len 0)"

section \<open>Descendant ranges and segments\<close>

definition descendant_range :: "(nat \<times> nat) list \<Rightarrow> nat \<Rightarrow> nat list \<Rightarrow> nat \<times> nat" where
  "descendant_range ranges idx children =
     fold (\<lambda>child_idx (min_idx, max_idx).
         (min min_idx (fst (ranges ! child_idx)), max max_idx (snd (ranges ! child_idx))))
       children (idx, idx)"

definition build_descendant_ranges :: "nat list list \<Rightarrow> (nat \<times> nat) list" where
  "build_descendant_ranges children_by_index =
     fold (\<lambda>idx ranges. ranges[idx := descendant_range ranges idx (children_by_index ! idx)])
       (rev [0..<length children_by_index]) (replicate (length children_by_index) (0, 0))"

record segment_stats =
  st_node_count :: nat
  st_segment_count :: nat
  st_singleton_segment_count :: nat
  st_long_segment_node_count :: nat
  st_max_segment_length :: nat

definition should_jump :: "segment_stats \<Rightarrow> bool" where
  "should_jump s \<longleftrightarrow> st_max_segment_length s \<ge> 4 \<and> st_long_segment_node_count s * 2 \<ge> st_node_count s"

text \<open>The segment and the offset in it of each node that has been assigned to one.\<close>

type_synonym segmentation = "(nat \<times> nat) option list"

text \<open>The inner loop, once \<open>current\<close> is assigned: the assignment, the length and the tail of the segment.\<close>

function segment_walk ::
  "nat list list \<Rightarrow> nat list \<Rightarrow> nat \<Rightarrow> segmentation \<Rightarrow> nat \<Rightarrow> nat \<Rightarrow> segmentation \<times> nat \<times> nat" where
  "segment_walk children_by_index in_degree_by_index segment_id node_segment current len =
     (if in_degree_by_index ! current \<noteq> 1 \<or> length (children_by_index ! current) \<noteq> 1
      then (node_segment, len, current)
      else let follower = children_by_index ! current ! 0
      in if \<not> follower < length node_segment \<or> in_degree_by_index ! follower \<noteq> 1 \<or> node_segment ! follower \<noteq> None
         then (node_segment, len, current)
         else segment_walk children_by_index in_degree_by_index segment_id
           (node_segment[follower := Some (segment_id, len)]) follower (len + 1))"
  by pat_completeness auto
termination
proof (relation "measure (\<lambda>(_, _, _, node_segment, _, _). length (filter (\<lambda>s. s = None) node_segment))", goal_cases)
  case (2 cs degs seg ns current len follower)
  have "length (filter (\<lambda>s. s = None) (ns[i := Some x])) < length (filter (\<lambda>s. s = None) ns)"
    if "i < length ns" "ns ! i = None" for i x
    using that
  proof (induction ns arbitrary: i)
    case (Cons n ns)
    then show ?case by (cases i) auto
  qed simp
  moreover have "follower < length ns" "ns ! follower = None" using 2 by blast+
  ultimately show ?case by simp
qed simp

declare segment_walk.simps [simp del]

record segment_build =
  sb_node_segment :: segmentation
  sb_tails :: "nat list"
  sb_singletons :: nat
  sb_long :: nat
  sb_max :: nat

definition segment_step :: "nat list list \<Rightarrow> nat list \<Rightarrow> nat \<Rightarrow> segment_build \<Rightarrow> segment_build" where
  "segment_step children_by_index in_degree_by_index idx s =
     (if sb_node_segment s ! idx \<noteq> None then s
      else let segment_id = length (sb_tails s);
               (node_segment, len, tail) = segment_walk children_by_index in_degree_by_index segment_id
                 ((sb_node_segment s)[idx := Some (segment_id, 0)]) idx 1
           in \<lparr> sb_node_segment = node_segment, sb_tails = sb_tails s @ [tail],
                sb_singletons = sb_singletons s + (if len = 1 then 1 else 0),
                sb_long = sb_long s + (if len \<ge> 4 then len else 0),
                sb_max = max (sb_max s) len \<rparr>)"

definition build_segments :: "nat list list \<Rightarrow> nat list \<Rightarrow> segmentation \<times> nat list \<times> segment_stats" where
  "build_segments children_by_index in_degree_by_index =
     (let n = length children_by_index;
          s = fold (segment_step children_by_index in_degree_by_index) [0..<n]
            \<lparr> sb_node_segment = replicate n None, sb_tails = [], sb_singletons = 0, sb_long = 0, sb_max = 0 \<rparr>
      in (sb_node_segment s, sb_tails s,
          \<lparr> st_node_count = n, st_segment_count = length (sb_tails s),
            st_singleton_segment_count = sb_singletons s, st_long_segment_node_count = sb_long s,
            st_max_segment_length = sb_max s \<rparr>))"

datatype traversal_mode = PlainIndexedBfs | RangePruned | SegmentJumps

record range_prefilter =
  rp_index :: "string dense_index"
  rp_children :: "nat list list"
  rp_ranges :: "(nat \<times> nat) list"
  rp_tails :: "nat list"
  rp_node_segment :: segmentation
  rp_stats :: segment_stats
  rp_jumps :: bool
  rp_cyclic :: "nat list"

definition reach_build :: "event_map \<Rightarrow> (fault, range_prefilter) result" where
  "reach_build graph =
     rbind (collect_topology graph) (\<lambda>(topo, children, leftover_nodes).
     rbind (map_err (\<lambda>_. Panic ''graph too large for index space'') (try_build topo)) (\<lambda>index.
       let (children_by_index, in_degree_by_index) = build_indexed_children (length topo) children index;
           (node_segment, tails, stats) = build_segments children_by_index in_degree_by_index
       in Inr \<lparr> rp_index = index, rp_children = children_by_index,
                rp_ranges = build_descendant_ranges children_by_index,
                rp_tails = tails, rp_node_segment = node_segment, rp_stats = stats,
                rp_jumps = should_jump stats,
                rp_cyclic = List.map_filter (index_of index) leftover_nodes \<rparr>))"


section \<open>Walking forward\<close>

definition listed_children :: "nat list list \<Rightarrow> nat \<Rightarrow> nat list" where
  "listed_children children_by_index parent = (if parent < length children_by_index then children_by_index ! parent else [])"

definition unreached :: "nat list list \<Rightarrow> nat list \<Rightarrow> nat" where
  "unreached children_by_index reachable = card (set (concat children_by_index) - set reachable)"

text \<open>A queue and the nodes that are marked as reachable.\<close>

type_synonym frontier = "nat list \<times> nat list"

definition seed_queue :: "range_prefilter \<Rightarrow> string list \<Rightarrow> frontier" where
  "seed_queue r seeds =
     fold (\<lambda>seed (queue, reachable). case index_of (rp_index r) seed of
         None \<Rightarrow> (queue, reachable)
       | Some idx \<Rightarrow> if idx \<in> set reachable then (queue, reachable) else (queue @ [idx], reachable @ [idx]))
       seeds ([], [])"

definition enqueue_children :: "(nat \<Rightarrow> bool) \<Rightarrow> nat list list \<Rightarrow> nat \<Rightarrow> frontier \<Rightarrow> frontier" where
  "enqueue_children wanted children_by_index parent s =
     fold (\<lambda>child (queue, reachable).
         if child \<in> set reachable then (queue, reachable)
         else if wanted child then (queue @ [child], reachable @ [child])
         else (queue, reachable))
       (listed_children children_by_index parent) s"

lemma enqueue_measure:
  assumes "enqueue_children wanted cs parent (queue, reachable) = (queue', reachable')"
  shows "(queue', reachable') = (queue, reachable) \<or> unreached cs reachable' < unreached cs reachable"
proof -
  have "(queue', reachable') = (queue, reachable) \<or> unreached cs reachable' < unreached cs reachable"
    if "set ks \<subseteq> set (concat cs)" "fold (\<lambda>child (queue, reachable).
         if child \<in> set reachable then (queue, reachable)
         else if wanted child then (queue @ [child], reachable @ [child])
         else (queue, reachable)) ks (queue, reachable) = (queue', reachable')" for ks
    using that
  proof (induction ks arbitrary: queue reachable)
    case (Cons k ks)
    show ?case
    proof (cases "k \<in> set reachable \<or> \<not> wanted k")
      case True
      with Cons show ?thesis by (auto split: if_splits)
    next
      case False
      have "set (concat cs) - set (reachable @ [k]) \<subset> set (concat cs) - set reachable" using Cons.prems(1) False by auto
      then have "unreached cs (reachable @ [k]) < unreached cs reachable"
        unfolding unreached_def by (rule psubset_card_mono [rotated]) simp
      with Cons.IH [of "queue @ [k]" "reachable @ [k]"] Cons.prems False show ?thesis by auto
    qed
  qed simp
  moreover have "set (listed_children cs parent) \<subseteq> set (concat cs)" by (auto simp: listed_children_def intro!: bexI [of _ "cs ! parent"])
  ultimately show ?thesis using assms unfolding enqueue_children_def by blast
qed

definition enqueue_unvisited_children :: "range_prefilter \<Rightarrow> nat \<Rightarrow> frontier \<Rightarrow> frontier" where
  "enqueue_unvisited_children r = enqueue_children (\<lambda>_. True) (rp_children r)"

definition overlaps_remaining :: "range_prefilter \<Rightarrow> nat set \<Rightarrow> nat \<Rightarrow> bool" where
  "overlaps_remaining r remaining_candidates child =
     (let (min_descendant, max_descendant) = rp_ranges r ! child
      in \<exists>c \<in> remaining_candidates. min_descendant \<le> c \<and> c \<le> max_descendant)"

definition enqueue_range_pruned_children ::
  "range_prefilter \<Rightarrow> nat set \<Rightarrow> nat \<Rightarrow> frontier \<Rightarrow> frontier" where
  "enqueue_range_pruned_children r remaining_candidates =
     enqueue_children (overlaps_remaining r remaining_candidates) (rp_children r)"

lemmas enqueue_defs = enqueue_unvisited_children_def enqueue_range_pruned_children_def

function visit_loop :: "range_prefilter \<Rightarrow> nat list \<Rightarrow> nat list \<Rightarrow> nat list \<Rightarrow> nat list" where
  "visit_loop r [] reachable visited = visited"
| "visit_loop r (current # queue) reachable visited =
     (let s = enqueue_unvisited_children r current (queue, reachable)
      in visit_loop r (fst s) (snd s) (visited @ [current]))"
  by pat_completeness auto
termination
proof (relation "measures [\<lambda>(r, queue, reachable, visited). unreached (rp_children r) reachable,
    \<lambda>(r, queue, reachable, visited). length queue]", goal_cases)
  case (2 r current queue reachable visited s)
  then show ?case
    using enqueue_measure [of "\<lambda>_. True" "rp_children r" current queue reachable "fst s" "snd s"]
    by (auto simp: enqueue_defs)
qed simp

definition forward_reachable_ids :: "range_prefilter \<Rightarrow> string list \<Rightarrow> string list" where
  "forward_reachable_ids r seeds =
     (let (queue, reachable) = seed_queue r seeds
      in map (\<lambda>idx. di_items (rp_index r) ! idx) (visit_loop r queue reachable []))"

section \<open>Filtering candidates\<close>

record candidate_query =
  cq_candidate_count :: nat
  cq_known_count :: nat
  cq_unique_count :: nat
  cq_positions :: "nat list list"
  cq_min :: "nat option"
  cq_max :: "nat option"

definition note_candidate ::
  "range_prefilter \<Rightarrow> nat \<times> string \<Rightarrow> candidate_query \<Rightarrow> candidate_query" where
  "note_candidate r c q = (case c of (idx, candidate) \<Rightarrow>
     let q = q\<lparr> cq_candidate_count := idx + 1 \<rparr>
     in case index_of (rp_index r) candidate of
       None \<Rightarrow> q
     | Some candidate_idx \<Rightarrow>
         let positions = cq_positions q ! candidate_idx
         in q\<lparr> cq_known_count := cq_known_count q + 1,
               cq_unique_count := cq_unique_count q + (if positions = [] then 1 else 0),
               cq_positions := (cq_positions q)[candidate_idx := positions @ [idx]],
               cq_min := Some (case cq_min q of Some m \<Rightarrow> min m candidate_idx | None \<Rightarrow> candidate_idx),
               cq_max := Some (case cq_max q of Some m \<Rightarrow> max m candidate_idx | None \<Rightarrow> candidate_idx) \<rparr>)"

definition collect_candidates :: "range_prefilter \<Rightarrow> string list \<Rightarrow> candidate_query" where
  "collect_candidates r candidates =
     fold (note_candidate r) (enumerate 0 candidates)
       \<lparr> cq_candidate_count = 0, cq_known_count = 0, cq_unique_count = 0,
         cq_positions = replicate (length (rp_children r)) [], cq_min = None, cq_max = None \<rparr>"

definition candidate_span :: "candidate_query \<Rightarrow> nat \<Rightarrow> nat" where
  "candidate_span q node_count = (case (cq_min q, cq_max q) of
       (Some lo, Some hi) \<Rightarrow> (hi - lo) + 1
     | _ \<Rightarrow> node_count)"

definition positions_at :: "candidate_query \<Rightarrow> nat \<Rightarrow> nat list" where
  "positions_at q node_idx = (if node_idx < length (cq_positions q) then cq_positions q ! node_idx else [])"

definition remaining_candidate_set :: "candidate_query \<Rightarrow> nat set" where
  "remaining_candidate_set q = set (filter (\<lambda>i. cq_positions q ! i \<noteq> []) [0..<length (cq_positions q)])"

definition select_traversal_mode :: "range_prefilter \<Rightarrow> candidate_query \<Rightarrow> traversal_mode" where
  "select_traversal_mode r q =
     (if cq_candidate_count q = 0 \<or> cq_known_count q = 0 then PlainIndexedBfs
      else if rp_cyclic r \<noteq> [] then PlainIndexedBfs
      else let node_count = max (length (rp_children r)) 1;
               span = candidate_span q node_count;
               narrow_span = (span * 4 \<le> node_count);
               broad_span = (span * 2 > node_count);
               selective = (cq_unique_count q * 50 \<le> node_count);
               jump_selective = (cq_unique_count q * 20 \<le> node_count)
           in if rp_jumps r \<and> jump_selective \<and> narrow_span then SegmentJumps
              else if selective \<and> narrow_span \<and> \<not> broad_span then RangePruned
              else PlainIndexedBfs)"

text \<open>The flags of the results and the number of known candidates that have not been found.\<close>

type_synonym hits = "bool list \<times> nat"

definition note_hit :: "nat \<Rightarrow> hits \<Rightarrow> hits" where
  "note_hit position h = (case h of (results, remaining) \<Rightarrow>
     if results ! position then h else (results[position := True], remaining - 1))"

definition collect_reachable_positions :: "bool list \<Rightarrow> nat list" where
  "collect_reachable_positions results = filter (\<lambda>idx. results ! idx) [0..<length results]"

function candidate_loop ::
  "range_prefilter \<Rightarrow> candidate_query \<Rightarrow> traversal_mode \<Rightarrow> nat list \<Rightarrow> nat list \<Rightarrow> hits \<Rightarrow> nat set \<Rightarrow> bool list" where
  "candidate_loop r q mode [] reachable h remaining_candidates = fst h"
| "candidate_loop r q mode (current # queue) reachable h remaining_candidates =
     (let h' = fold note_hit (positions_at q current) h;
          remaining_candidates' =
            (if positions_at q current \<noteq> [] then remaining_candidates - {current} else remaining_candidates)
      in if snd h' = 0 then fst h'
         else let s = (if mode = RangePruned
                then enqueue_range_pruned_children r remaining_candidates' current (queue, reachable)
                else enqueue_unvisited_children r current (queue, reachable))
              in candidate_loop r q mode (fst s) (snd s) h' remaining_candidates')"
  by pat_completeness auto
termination
proof (relation "measures [\<lambda>(r, q, mode, queue, reachable, _). unreached (rp_children r) reachable,
    \<lambda>(r, q, mode, queue, reachable, _). length queue]", goal_cases)
  case (2 r q mode current queue reachable h remaining h' remaining' s)
  then show ?case
    using enqueue_measure [of "\<lambda>_. True" "rp_children r" current queue reachable "fst s" "snd s"]
      enqueue_measure [of "overlaps_remaining r remaining'" "rp_children r" current queue reachable "fst s" "snd s"]
    by (cases "mode = RangePruned") (auto simp: enqueue_defs)
qed simp

definition filter_reachable_with_candidates ::
  "range_prefilter \<Rightarrow> string list \<Rightarrow> candidate_query \<Rightarrow> traversal_mode \<Rightarrow> nat list" where
  "filter_reachable_with_candidates r seeds q mode =
     (if cq_candidate_count q = 0 \<or> cq_known_count q = 0 then []
      else let (queue, reachable) = seed_queue r seeds
           in collect_reachable_positions (candidate_loop r q mode queue reachable
                (replicate (cq_candidate_count q) False, cq_known_count q)
                (if mode = RangePruned then remaining_candidate_set q else {})))"

text \<open>The known candidates of each segment as triples of offset, node and position, by offset.\<close>

definition segment_candidates :: "range_prefilter \<Rightarrow> candidate_query \<Rightarrow> nat \<Rightarrow> (nat \<times> nat \<times> nat) list" where
  "segment_candidates r q segment_id =
     sort_key fst (concat (map (\<lambda>candidate_idx. case rp_node_segment r ! candidate_idx of
         Some (s, offset) \<Rightarrow>
           if s = segment_id then map (\<lambda>position. (offset, candidate_idx, position)) (cq_positions q ! candidate_idx)
           else []
       | None \<Rightarrow> []) [0..<length (cq_positions q)]))"

definition note_segment_hit :: "nat \<times> nat \<times> nat \<Rightarrow> hits \<times> nat set \<Rightarrow> hits \<times> nat set" where
  "note_segment_hit c s = (case c of (_, candidate_idx, position) \<Rightarrow> (case s of ((results, remaining), candidates) \<Rightarrow>
     if results ! position then s
     else ((results[position := True], remaining - 1), candidates - {candidate_idx})))"

text \<open>\<open>covered\<close> maps a segment to the least offset that has been covered; \<open>expanded\<close> are the segments whose tail has
  been expanded.\<close>

function jump_loop ::
  "range_prefilter \<Rightarrow> candidate_query \<Rightarrow> nat list \<Rightarrow> nat list \<Rightarrow> (nat \<rightharpoonup> nat) \<Rightarrow> nat list \<Rightarrow> hits \<times> nat set
    \<Rightarrow> bool list" where
  "jump_loop r q [] reachable covered expanded s = fst (fst s)"
| "jump_loop r q (current # queue) reachable covered expanded s =
     (case rp_node_segment r ! current of
        None \<Rightarrow> fst (fst s)
      | Some (segment_id, segment_start) \<Rightarrow>
          if (case covered segment_id of Some previous_start \<Rightarrow> min previous_start segment_start \<ge> previous_start
                | None \<Rightarrow> False)
          then jump_loop r q queue reachable covered expanded s
          else let effective_start = (case covered segment_id of Some c \<Rightarrow> min c segment_start | None \<Rightarrow> segment_start);
                   s' = fold note_segment_hit
                     (dropWhile (\<lambda>(offset, _, _). offset < effective_start) (segment_candidates r q segment_id)) s
               in if snd (fst s') = 0 then fst (fst s')
                  else if segment_id \<in> set expanded
                  then jump_loop r q queue reachable (covered(segment_id \<mapsto> effective_start)) expanded s'
                  else let f = enqueue_range_pruned_children r (snd s') (rp_tails r ! segment_id) (queue, reachable)
                       in jump_loop r q (fst f) (snd f) (covered(segment_id \<mapsto> effective_start))
                            (segment_id # expanded) s')"
  by pat_completeness auto
termination
proof (relation "measures [\<lambda>(r, q, queue, reachable, _). unreached (rp_children r) reachable,
    \<lambda>(r, q, queue, reachable, _). length queue]", goal_cases)
  case (4 r q current queue reachable covered expanded s p segment_id segment_start effective_start s' f)
  then show ?case
    using enqueue_measure [of "overlaps_remaining r (snd s')" "rp_children r" "rp_tails r ! segment_id" queue reachable "fst f" "snd f"]
    by (auto simp: enqueue_defs)
qed auto

definition filter_reachable_segment_jumps :: "range_prefilter \<Rightarrow> string list \<Rightarrow> candidate_query \<Rightarrow> nat list" where
  "filter_reachable_segment_jumps r seeds q =
     (if cq_candidate_count q = 0 \<or> cq_known_count q = 0 then []
      else let (queue, reachable) = seed_queue r seeds
           in collect_reachable_positions (jump_loop r q queue reachable Map.empty []
                ((replicate (cq_candidate_count q) False, cq_known_count q), remaining_candidate_set q)))"

definition filter_reachable_with_mode ::
  "range_prefilter \<Rightarrow> string list \<Rightarrow> string list \<Rightarrow> nat list \<times> traversal_mode" where
  "filter_reachable_with_mode r seeds candidates =
     (let q = collect_candidates r candidates;
          mode = select_traversal_mode r q
      in (if mode = SegmentJumps then filter_reachable_segment_jumps r seeds q
          else filter_reachable_with_candidates r seeds q mode, mode))"

definition filter_reachable :: "range_prefilter \<Rightarrow> string list \<Rightarrow> string list \<Rightarrow> nat list" where
  "filter_reachable r seeds candidates = fst (filter_reachable_with_mode r seeds candidates)"


section \<open>Single queries\<close>

datatype reach_answer = Reach_Yes | Reach_No | Reach_Unknown

definition out_of_range :: "(nat \<times> nat) list \<Rightarrow> nat \<Rightarrow> nat \<Rightarrow> bool" where
  "out_of_range ranges from_idx to_idx =
     (let (min_descendant, max_descendant) = ranges ! from_idx
      in to_idx < min_descendant \<or> to_idx > max_descendant)"

text \<open>The loop over the children of a node; \<open>None\<close> when one of them is the target.\<close>

fun reach_children :: "range_prefilter \<Rightarrow> nat \<Rightarrow> nat list \<Rightarrow> frontier \<Rightarrow> frontier option" where
  "reach_children r to_idx [] s = Some s"
| "reach_children r to_idx (child # children) (queue, visited) =
     (if child = to_idx then None
      else if child > to_idx \<or> out_of_range (rp_ranges r) child to_idx \<or> child \<in> set visited
      then reach_children r to_idx children (queue, visited)
      else reach_children r to_idx children (queue @ [child], visited @ [child]))"

lemma reach_children_enqueue:
  "reach_children r to_idx ks s =
     (if to_idx \<in> set ks then None
      else Some (fold (\<lambda>child (queue, reachable).
         if child \<in> set reachable then (queue, reachable)
         else if child \<le> to_idx \<and> \<not> out_of_range (rp_ranges r) child to_idx
         then (queue @ [child], reachable @ [child]) else (queue, reachable)) ks s))"
  by (induction r to_idx ks s rule: reach_children.induct) auto

function reaches_loop :: "range_prefilter \<Rightarrow> nat \<Rightarrow> nat list \<Rightarrow> nat list \<Rightarrow> bool" where
  "reaches_loop r to_idx [] visited = False"
| "reaches_loop r to_idx (current # queue) visited =
     (case reach_children r to_idx (listed_children (rp_children r) current) (queue, visited) of
        None \<Rightarrow> True
      | Some s \<Rightarrow> reaches_loop r to_idx (fst s) (snd s))"
  by pat_completeness auto
termination
proof (relation "measures [\<lambda>(r, to_idx, queue, visited). unreached (rp_children r) visited,
    \<lambda>(r, to_idx, queue, visited). length queue]", goal_cases)
  case (2 r to_idx current queue visited s)
  let ?wanted = "\<lambda>child. child \<le> to_idx \<and> \<not> out_of_range (rp_ranges r) child to_idx"
  from 2 have "enqueue_children ?wanted (rp_children r) current (queue, visited) = (fst s, snd s)"
    by (simp add: reach_children_enqueue enqueue_children_def split: if_splits)
  from enqueue_measure [OF this] show ?case by (cases s) auto
qed simp

definition reaches_index :: "range_prefilter \<Rightarrow> nat \<Rightarrow> nat \<Rightarrow> bool" where
  "reaches_index r from_idx to_idx =
     (if from_idx = to_idx then True
      else if out_of_range (rp_ranges r) from_idx to_idx then False
      else reaches_loop r to_idx [from_idx] [from_idx])"

definition reach_endpoints :: "string dense_index \<Rightarrow> string \<Rightarrow> string \<Rightarrow> (nat \<times> nat) option" where
  "reach_endpoints index a b = (case index_of index a of
       None \<Rightarrow> None
     | Some from_idx \<Rightarrow> map_option (\<lambda>to_idx. (from_idx, to_idx)) (index_of index b))"

definition reach_from_index :: "nat \<Rightarrow> nat \<Rightarrow> nat list \<Rightarrow> bool \<Rightarrow> bool \<Rightarrow> reach_answer" where
  "reach_from_index from_idx to_idx cyclic_nodes self_is_reachable contains =
     (if self_is_reachable \<and> from_idx = to_idx then Reach_Yes
      else if from_idx \<in> set cyclic_nodes \<or> to_idx \<in> set cyclic_nodes then Reach_Unknown
      else if contains then Reach_Yes else Reach_No)"

definition reaches_with ::
  "string dense_index \<Rightarrow> nat list \<Rightarrow> string \<Rightarrow> string \<Rightarrow> bool \<Rightarrow> (nat \<Rightarrow> nat \<Rightarrow> bool) \<Rightarrow> reach_answer" where
  "reaches_with index cyclic_nodes a b self_is_reachable contains = (case reach_endpoints index a b of
       None \<Rightarrow> Reach_Unknown
     | Some (from_idx, to_idx) \<Rightarrow>
         reach_from_index from_idx to_idx cyclic_nodes self_is_reachable (contains from_idx to_idx))"

definition reaches :: "range_prefilter \<Rightarrow> string \<Rightarrow> string \<Rightarrow> reach_answer" where
  "reaches r a b = reaches_with (rp_index r) (rp_cyclic r) a b False (reaches_index r)"

section \<open>The index of descendant sets\<close>

record forward_index =
  fi_index :: "string dense_index"
  fi_descendants :: "nat set list"
  fi_cyclic :: "nat list"

definition descendant_bitmaps :: "nat list list \<Rightarrow> nat set list" where
  "descendant_bitmaps children_by_index =
     fold (\<lambda>idx bitmaps. bitmaps[idx := fold (\<lambda>child_idx bitmap. bitmap \<union> bitmaps ! child_idx)
         (children_by_index ! idx) {idx}])
       (rev [0..<length children_by_index]) (replicate (length children_by_index) {})"

definition forward_build :: "event_map \<Rightarrow> (fault, forward_index) result" where
  "forward_build graph =
     rbind (collect_topology graph) (\<lambda>(topo, children, leftover_nodes).
     rbind (map_err (\<lambda>_. Panic ''graph too large for bitmap index'') (try_build topo)) (\<lambda>index.
       Inr \<lparr> fi_index = index,
             fi_descendants = descendant_bitmaps (fst (build_indexed_children (length topo) children index)),
             fi_cyclic = List.map_filter (index_of index) leftover_nodes \<rparr>))"

definition forward_filter_reachable :: "forward_index \<Rightarrow> string list \<Rightarrow> string list \<Rightarrow> nat list" where
  "forward_filter_reachable f seeds candidates =
     (let reachable = fold (\<lambda>seed reachable. case index_of (fi_index f) seed of
              None \<Rightarrow> reachable
            | Some idx \<Rightarrow> insert idx reachable \<union> fi_descendants f ! idx) seeds {}
      in filter (\<lambda>idx. case index_of (fi_index f) (candidates ! idx) of
              None \<Rightarrow> False
            | Some candidate_idx \<Rightarrow> candidate_idx \<in> reachable) [0..<length candidates])"

definition forward_reaches :: "forward_index \<Rightarrow> string \<Rightarrow> string \<Rightarrow> reach_answer" where
  "forward_reaches f a b =
     reaches_with (fi_index f) (fi_cyclic f) a b True (\<lambda>from_idx to_idx. to_idx \<in> fi_descendants f ! from_idx)"

end
