(* ===== verification/Reach_Topo.thy ===== *)
theory Reach_Topo
  imports Reach_Index Kahn_Correct
begin

text \<open>
  What the construction of the reachability index produces. \<open>collect_topology_ok\<close>: the nodes of the graph,
  those that are not below a cycle first and in topological order. \<open>index_view\<close> is the index as a numbering
  of the nodes with the edges of the graph between the numbers, conservative ranges and segments that
  are chains; \<open>reach_build_ok\<close> shows that the index that is built has this view.
\<close>

section \<open>Topology\<close>

abbreviation auth_preds :: "event_map \<Rightarrow> string \<Rightarrow> string list" where
  "auth_preds graph \<equiv> preds graph V2"

lemma topo_node_kahn: "topo_node graph = kahn_node graph V2"
proof -
  have "topo_edge graph i = kahn_edge graph i" for i
    by (intro ext) (simp add: topo_edge_def kahn_edge_def split: prod.splits)
  then show ?thesis
    by (intro ext) (simp add: topo_node_def kahn_node_def dag_edges_def split: prod.splits)
qed

lemma topo_relax_ok:
  assumes "dom (map_of deg) = K" "set ns \<subseteq> K" "\<And>n. count_list ns n \<le> degree_of deg n" "hm_inv deg"
  shows "\<exists>deg' ps. topo_relax ns deg q = Inr (deg', q @ ps) \<and> hm_inv deg' \<and>
    dom (map_of deg') = dom (map_of deg) \<and>
    (\<forall>n. degree_of deg' n = degree_of deg n - count_list ns n) \<and>
    distinct ps \<and> set ps = {n \<in> set ns. degree_of deg n = count_list ns n}"
  using assms
proof (induction ns arbitrary: deg q)
  case (Cons m ns)
  define d where "d = degree_of deg m"
  have m: "map_of deg m = Some d"
    using Cons.prems(1,2) by (auto simp: d_def degree_of_def split: option.splits)
  have cd: "Suc (count_list ns m) \<le> d" using Cons.prems(3) [of m] by (simp add: d_def)
  let ?deg = "hm_insert m (d - 1) deg"
  let ?q = "if d - 1 = 0 then q @ [m] else q"
  have cnt: "count_list ns n \<le> degree_of ?deg n" for n
    using Cons.prems(3) [of n] cd by (auto split: if_splits)
  have "dom (map_of ?deg) = K" using Cons.prems(1) m by (auto simp: dom_hm_insert)
  from Cons.IH [OF this _ cnt, of ?q] Cons.prems(2,4) obtain deg' ps where
    r: "topo_relax ns ?deg ?q = Inr (deg', ?q @ ps)" and inv: "hm_inv deg'"
    and dom': "dom (map_of deg') = dom (map_of ?deg)"
    and dg: "\<forall>n. degree_of deg' n = degree_of ?deg n - count_list ns n"
    and ps: "distinct ps" "set ps = {n \<in> set ns. degree_of ?deg n = count_list ns n}"
    by (auto simp: hm_inv_insert)
  let ?ps = "if d - 1 = 0 then m # ps else ps"
  have run: "topo_relax (m # ns) deg q = Inr (deg', q @ ?ps)" using r m by auto
  have z: "count_list ns m = 0 \<longleftrightarrow> m \<notin> set ns" by (simp add: count_list_0_iff)
  have dp: "distinct ?ps" using ps cd z by auto
  have "n \<in> set ?ps \<longleftrightarrow> n \<in> set (m # ns) \<and> degree_of deg n = count_list (m # ns) n" for n
  proof (cases "n = m")
    case True
    have "m \<in> set ps \<longleftrightarrow> m \<in> set ns \<and> d - 1 = count_list ns m" unfolding ps(2) by simp
    with True cd z d_def show ?thesis by auto
  next
    case False
    then show ?thesis by (auto simp: ps(2))
  qed
  then have "set ?ps = {n \<in> set (m # ns). degree_of deg n = count_list (m # ns) n}" by blast
  moreover have "dom (map_of deg') = dom (map_of deg)" using dom' m by (auto simp: dom_hm_insert)
  moreover have "\<forall>n. degree_of deg' n = degree_of deg n - count_list (m # ns) n"
    using dg cd by (simp add: d_def)
  ultimately show ?case using run inv dp by blast
qed simp

text \<open>The invariant of the loop: the degree of a node counts the predecessors that are not yet in \<open>topo\<close>; the nodes
  without such predecessors are in \<open>topo\<close> or in the queue.\<close>

definition topo_inv ::
  "event_map \<Rightarrow> (string \<times> nat) list \<Rightarrow> string list \<Rightarrow> string list \<Rightarrow> bool" where
  "topo_inv graph deg queue topo \<longleftrightarrow> hm_inv deg \<and> dom (map_of deg) = keys_of graph \<and>
     (\<forall>n. degree_of deg n = length (filter (\<lambda>a. a \<notin> set topo) (auth_preds graph n))) \<and>
     distinct (topo @ queue) \<and>
     set (topo @ queue) = {n \<in> keys_of graph. set (auth_preds graph n) \<subseteq> set topo} \<and>
     (\<forall>i < length topo. set (auth_preds graph (topo ! i)) \<subseteq> set (take i topo))"

lemma topo_invD:
  assumes "topo_inv graph deg queue topo"
  shows "hm_inv deg" "dom (map_of deg) = keys_of graph"
    "degree_of deg n = length (filter (\<lambda>a. a \<notin> set topo) (auth_preds graph n))"
    "distinct (topo @ queue)" "set (topo @ queue) = {n \<in> keys_of graph. set (auth_preds graph n) \<subseteq> set topo}"
    "\<forall>i < length topo. set (auth_preds graph (topo ! i)) \<subseteq> set (take i topo)"
  using assms unfolding topo_inv_def by blast+

definition children_ok :: "event_map \<Rightarrow> (string \<times> string list) list \<Rightarrow> bool" where
  "children_ok graph children \<longleftrightarrow>
     (\<forall>a n. count_list (adjacent_of children a) n = count_list (auth_preds graph n) a)"

lemma children_set:
  assumes "children_ok graph children"
  shows "n \<in> set (adjacent_of children a) \<longleftrightarrow> a \<in> set (auth_preds graph n)"
  using assms unfolding children_ok_def by (metis count_list_0_iff)

lemma auth_preds_keys:
  assumes "a \<in> set (auth_preds graph n)"
  shows "a \<in> keys_of graph" "n \<in> keys_of graph"
proof -
  have "map_of graph a \<noteq> None" using assms by (auto simp: preds_def split: option.splits)
  then show "a \<in> keys_of graph" by (simp add: keys_of_def map_of_eq_None_iff)
  show "n \<in> keys_of graph" using assms preds_outside [of n graph V2] by fastforce
qed

lemma topo_step:
  assumes inv: "topo_inv graph deg (i # queue) topo" and ch: "children_ok graph children"
  shows "\<exists>deg' ps. topo_relax (adjacent_of children i) deg queue = Inr (deg', queue @ ps) \<and>
    topo_inv graph deg' (queue @ ps) (topo @ [i])"
proof -
  note I = topo_invD [OF inv]
  let ?P = "auth_preds graph" and ?A = "adjacent_of children i"
  have ca: "count_list ?A n = count_list (?P n) i" for n using ch by (simp add: children_ok_def)
  have fresh: "i \<notin> set topo" using I(4) by auto
  have "set ?A \<subseteq> keys_of graph" using auth_preds_keys by (auto simp: children_set [OF ch])
  moreover have "count_list ?A n \<le> degree_of deg n" for n
    using count_le_filter [OF fresh] by (simp add: I(3) ca)
  ultimately obtain deg' ps where run: "topo_relax ?A deg queue = Inr (deg', queue @ ps)" "hm_inv deg'"
    and dm: "dom (map_of deg') = keys_of graph"
    and dg: "\<And>n. degree_of deg' n = degree_of deg n - count_list ?A n"
    and ps: "distinct ps" "set ps = {n \<in> set ?A. degree_of deg n = count_list ?A n}"
    using topo_relax_ok [OF I(2) _ _ I(1), of ?A queue] I(2) by auto
  have deg': "degree_of deg' n = length (filter (\<lambda>a. a \<notin> set (topo @ [i])) (?P n))" for n
    using length_filter_insert [OF fresh, of "?P n"] by (simp add: dg I(3) ca)
  have zero: "degree_of deg n = 0 \<longleftrightarrow> set (?P n) \<subseteq> set topo" for n
    by (auto simp: I(3) filter_empty_conv)
  have zero': "degree_of deg' n = 0 \<longleftrightarrow> set (?P n) \<subseteq> set (topo @ [i])" for n
    by (auto simp: deg' filter_empty_conv)
  have psm: "n \<in> set ps \<longleftrightarrow> degree_of deg' n = 0 \<and> degree_of deg n \<noteq> 0" for n
  proof -
    have le: "count_list ?A n \<le> degree_of deg n" using count_le_filter [OF fresh] by (simp add: I(3) ca)
    have z: "n \<in> set ?A \<longleftrightarrow> count_list ?A n \<noteq> 0" by (simp add: count_list_0_iff)
    show ?thesis unfolding ps(2) mem_Collect_eq z dg using le by auto
  qed
  have old: "set (topo @ i # queue) = {n \<in> keys_of graph. degree_of deg n = 0}" using I(5) by (simp add: zero)
  have kp: "degree_of deg n \<noteq> 0 \<Longrightarrow> n \<in> keys_of graph" for n
    using preds_outside [of n graph V2] by (cases "n \<in> keys_of graph") (simp_all add: I(3))
  have "degree_of deg n = 0 \<Longrightarrow> degree_of deg' n = 0" for n by (simp add: dg)
  with psm kp old have "set (topo @ i # queue) \<union> set ps = {n \<in> keys_of graph. degree_of deg' n = 0}" by blast
  then have all: "set ((topo @ [i]) @ queue @ ps) = {n \<in> keys_of graph. set (?P n) \<subseteq> set (topo @ [i])}"
    by (simp add: zero' Un_ac)
  have "set (topo @ i # queue) \<inter> set ps = {}" using psm old by blast
  then have dis: "distinct ((topo @ [i]) @ queue @ ps)" using I(4) ps(1) by auto
  have "set (?P i) \<subseteq> set topo" using I(5) by auto
  then have "\<forall>j < length (topo @ [i]). set (?P ((topo @ [i]) ! j)) \<subseteq> set (take j (topo @ [i]))"
    using I(6) by (auto simp: nth_append less_Suc_eq)
  with run dm deg' dis all show ?thesis unfolding topo_inv_def by blast
qed

lemma topo_loop_ok:
  assumes "topo_inv graph deg queue topo" "children_ok graph children"
    and "card (keys_of graph) \<le> fuel + length topo"
  shows "\<exists>topo' deg'. topo_loop children fuel deg queue topo = Inr (topo', deg') \<and> topo_inv graph deg' [] topo'"
  using assms
proof (induction fuel arbitrary: deg queue topo)
  case 0
  have "set (topo @ queue) \<subseteq> keys_of graph" using topo_invD(5) [OF "0.prems"(1)] by blast
  then have "card (set (topo @ queue)) \<le> card (keys_of graph)" by (rule card_mono [rotated]) (simp add: keys_of_def)
  then have "length topo + length queue \<le> card (keys_of graph)"
    using distinct_card [OF topo_invD(4) [OF "0.prems"(1)]] by simp
  then have "length queue = 0" using "0.prems"(3) by linarith
  then have "queue = []" by simp
  with "0.prems"(1) show ?case by simp
next
  case (Suc fuel)
  show ?case
  proof (cases queue)
    case (Cons i queue')
    from topo_step [OF Suc.prems(1) [unfolded Cons] Suc.prems(2)] obtain deg' ps where
      "topo_relax (adjacent_of children i) deg queue' = Inr (deg', queue' @ ps)"
      "topo_inv graph deg' (queue' @ ps) (topo @ [i])" by blast
    with Suc.IH [OF this(2) Suc.prems(2)] Suc.prems(3) Cons show ?thesis by simp
  qed (use Suc.prems(1) in simp)
qed

lemma children_ok_graph:
  assumes "events_ok graph" "fold (topo_node graph) graph ([], []) = (deg, children)"
  shows "children_ok graph children" "hm_inv children"
proof -
  note g = kahn_graph [OF assms(1) assms(2) [unfolded topo_node_kahn]]
  show "children_ok graph children"
    unfolding children_ok_def
  proof (intro allI)
    fix a n
    show "count_list (adjacent_of children a) n = count_list (auth_preds graph n) a"
    proof (cases "n \<in> keys_of graph")
      case False
      then have "n \<notin> set (adjacent_of children a)" using g(5) [of a] by blast
      with False show ?thesis by (simp add: preds_outside count_list_0_iff)
    qed (rule g(4))
  qed
  have edges: "hm_inv (snd s) \<Longrightarrow> hm_inv (snd (fold (topo_edge graph i) as s))" for i as s
    by (induction as arbitrary: s) (auto simp: topo_edge_def hm_inv_insert split: prod.splits)
  have "hm_inv (snd s) \<Longrightarrow> hm_inv (snd (fold (topo_node graph) es s))" for es s
  proof (induction es arbitrary: s)
    case (Cons e es)
    have "hm_inv (snd (topo_node graph e s))"
      using edges [of "(or_insert (fst e) 0 (fst s), snd s)" "fst e" "ev_auth_events (snd e)"] Cons.prems
      by (simp add: topo_node_def case_prod_unfold)
    then show ?case using Cons.IH by simp
  qed simp
  from this [of "([], [])" graph] show "hm_inv children" using assms(2) by (simp add: hm_inv_def)
qed

lemma zero_degrees:
  assumes "hm_inv deg"
  shows "distinct (map fst (filter (\<lambda>(_, d). P d) deg))"
    "set (map fst (filter (\<lambda>(_, d). P d) deg)) = {n \<in> dom (map_of deg). P (degree_of deg n)}"
proof -
  have d: "distinct (map fst deg)" using assms by (simp add: hm_inv_def)
  then show "distinct (map fst (filter (\<lambda>(_, d). P d) deg))" by (induction deg) auto
  have "(n, d) \<in> set deg \<longleftrightarrow> map_of deg n = Some d" for n d using d by simp
  then show "set (map fst (filter (\<lambda>(_, d). P d) deg)) = {n \<in> dom (map_of deg). P (degree_of deg n)}"
    by (force simp: degree_of_def image_iff)
qed

lemma collect_topology_ok:
  assumes ok: "events_ok graph"
  shows "\<exists>prefix left children. collect_topology graph = Inr (prefix @ left, children, left) \<and>
    distinct (prefix @ left) \<and> set (prefix @ left) = keys_of graph \<and>
    (\<forall>i < length prefix. set (auth_preds graph (prefix ! i)) \<subseteq> set (take i prefix)) \<and>
    (\<forall>n \<in> set left. \<exists>a \<in> set left. a \<in> set (auth_preds graph n)) \<and>
    children_ok graph children \<and> hm_inv children"
proof -
  obtain deg children where g: "fold (topo_node graph) graph ([], []) = (deg, children)" by (metis surj_pair)
  note G = kahn_graph [OF ok g [unfolded topo_node_kahn]]
  note C = children_ok_graph [OF ok g]
  let ?queue = "sort (map fst (filter (\<lambda>(_, degree). degree = 0) deg))"
  have "topo_inv graph deg ?queue []"
    using zero_degrees [OF G(1), of "\<lambda>d. d = 0"] G(1-3) by (simp add: topo_inv_def)
  moreover have "card (keys_of graph) \<le> length graph"
    by (metis card_length keys_of_def length_map list.set_map)
  ultimately obtain topo deg' where run: "topo_loop children (length graph) deg ?queue [] = Inr (topo, deg')"
    and inv: "topo_inv graph deg' [] topo"
    using topo_loop_ok [OF _ C(1), of deg ?queue "[]" "length graph"] by auto
  note I = topo_invD [OF inv]
  let ?left = "sort (map fst (filter (\<lambda>(_, degree). degree \<noteq> 0) deg'))"
  have zero: "degree_of deg' n = 0 \<longleftrightarrow> set (auth_preds graph n) \<subseteq> set topo" for n
    by (auto simp: I(3) filter_empty_conv)
  have left: "distinct ?left" "set ?left = {n \<in> keys_of graph. \<not> set (auth_preds graph n) \<subseteq> set topo}"
    using zero_degrees [OF I(1), of "\<lambda>d. d \<noteq> 0"] I(2) by (auto simp: zero)
  have topo: "set topo = {n \<in> keys_of graph. set (auth_preds graph n) \<subseteq> set topo}" using I(5) by simp
  have un: "set (topo @ ?left) = keys_of graph" unfolding set_append left(2) using topo by blast
  have dis: "distinct (topo @ ?left)" unfolding distinct_append using I(4) left topo by auto
  have "\<exists>a \<in> set ?left. a \<in> set (auth_preds graph n)" if "n \<in> set ?left" for n
  proof -
    from that obtain a where a: "a \<in> set (auth_preds graph n)" "a \<notin> set topo" unfolding left(2) by blast
    then have "a \<in> set ?left" using auth_preds_keys(1) [OF a(1)] un unfolding set_append by blast
    with a(1) show ?thesis by blast
  qed
  moreover have "collect_topology graph = Inr (topo @ ?left, children, ?left)"
    by (simp add: collect_topology_def g run Let_def)
  ultimately show ?thesis using un dis I(6) C by blast
qed

section \<open>Dense index\<close>

definition dense_ok :: "'a dense_index \<Rightarrow> bool" where
  "dense_ok d \<longleftrightarrow> distinct (di_items d) \<and>
     (\<forall>x i. index_of d x = Some i \<longleftrightarrow> i < length (di_items d) \<and> di_items d ! i = x)"

lemma dense_okD:
  assumes "dense_ok d"
  shows "distinct (di_items d)" "index_of d x = Some i \<longleftrightarrow> i < length (di_items d) \<and> di_items d ! i = x"
    and "index_of d x = None \<longleftrightarrow> x \<notin> set (di_items d)"
proof -
  show "distinct (di_items d)" and i: "index_of d x = Some i \<longleftrightarrow> i < length (di_items d) \<and> di_items d ! i = x" for i
    using assms by (auto simp: dense_ok_def)
  show "index_of d x = None \<longleftrightarrow> x \<notin> set (di_items d)"
    using i by (metis in_set_conv_nth not_None_eq)
qed

lemma dense_ok_snoc:
  assumes "dense_ok d" "x \<notin> set (di_items d)"
  shows "dense_ok \<lparr> di_items = di_items d @ [x],
    di_index_by_item = hm_insert x (length (di_items d)) (di_index_by_item d) \<rparr>"
  using assms dense_okD(2) [OF assms(1)]
  by (auto simp: dense_ok_def index_of_def map_lookups nth_append less_Suc_eq in_set_conv_nth split: if_splits)

lemma index_items_ok:
  assumes "dense_ok d" "distinct (di_items d @ xs)"
  shows "(if length (di_items d @ xs) \<le> bound
      then \<exists>d'. index_items bound d xs = Inr d' \<and> dense_ok d' \<and> di_items d' = di_items d @ xs
      else \<exists>n. index_items bound d xs = Inl (IndexTooLarge n)) \<or> bound < length (di_items d)"
  using assms
proof (induction xs arbitrary: d)
  case (Cons x xs)
  have new: "map_of (di_index_by_item d) x = None"
    using dense_okD(3) [OF Cons.prems(1)] Cons.prems(2) by (simp add: index_of_def)
  show ?case
  proof (cases "length (di_items d) < bound")
    case True
    let ?d = "\<lparr> di_items = di_items d @ [x],
      di_index_by_item = hm_insert x (length (di_items d)) (di_index_by_item d) \<rparr>"
    have "dense_ok ?d" using dense_ok_snoc [OF Cons.prems(1)] Cons.prems(2) by simp
    from Cons.IH [OF this] True new Cons.prems(2) show ?thesis by (simp split: if_splits)
  qed (use new in auto)
qed auto

lemma try_build_ok:
  assumes "distinct topo"
  shows "if length topo \<le> 2 ^ 32 then \<exists>d. try_build topo = Inr d \<and> dense_ok d \<and> di_items d = topo
    else \<exists>n. try_build topo = Inl (IndexTooLarge n)"
proof -
  have "dense_ok \<lparr> di_items = [], di_index_by_item = [] \<rparr>" by (simp add: dense_ok_def index_of_def)
  from index_items_ok [OF this, of topo "2 ^ 32"] assms show ?thesis
    by (simp add: try_build_def try_build_bounded_def split: if_splits)
qed

lemma index_child_fold:
  assumes "p < length cs"
  shows "fst (fold (index_child d p) l (cs, ds)) = cs[p := cs ! p @ List.map_filter (index_of d) l]"
  using assms
proof (induction l arbitrary: cs ds)
  case (Cons x l)
  show ?case
  proof (cases "index_of d x")
    case None
    then show ?thesis using Cons by (simp add: index_child_def map_filter_simps)
  next
    case (Some c)
    then show ?thesis using Cons by (simp add: index_child_def map_filter_simps)
  qed
qed (simp add: map_filter_simps)

lemma index_parent_fold:
  assumes "dense_ok d" "distinct (map fst es)" "length cs = length (di_items d)"
  shows "length (fst (fold (index_parent d) es (cs, ds))) = length cs \<and>
    (\<forall>p < length cs. fst (fold (index_parent d) es (cs, ds)) ! p =
       cs ! p @ List.map_filter (index_of d) (adjacent_of es (di_items d ! p)))"
  using assms(2,3)
proof (induction es arbitrary: cs ds)
  case Nil
  then show ?case by (simp add: adjacent_of_def map_filter_simps)
next
  case (Cons e es)
  obtain a l where e: "e = (a, l)" by (cases e)
  have fresh: "map_of es a = None" using Cons.prems(1) e by (simp add: map_of_eq_None_iff)
  show ?case
  proof (cases "index_of d a")
    case None
    have "di_items d ! p \<noteq> a" if "p < length cs" for p
      using None dense_okD(3) [OF assms(1), of a] that Cons.prems(2) by auto
    then have "adjacent_of (e # es) (di_items d ! p) = adjacent_of es (di_items d ! p)" if "p < length cs" for p
      using that e by (simp add: adjacent_of_def)
    with Cons.IH [of cs ds] Cons.prems e None show ?thesis by (simp add: index_parent_def)
  next
    case (Some i)
    then have i: "i < length cs" "di_items d ! i = a" using dense_okD(2) [OF assms(1)] Cons.prems(2) by simp_all
    obtain ds' where step: "index_parent d e (cs, ds) = (cs[i := cs ! i @ List.map_filter (index_of d) l], ds')"
      using index_child_fold [OF i(1), of d l ds] e Some by (metis index_parent_def fst_conv snd_conv option.simps(5) prod.collapse)
    have same: "di_items d ! p = a \<longleftrightarrow> p = i" if "p < length cs" for p
      using that i dense_okD(1) [OF assms(1)] Cons.prems(2) by (auto simp: nth_eq_iff_index_eq)
    have adj: "adjacent_of (e # es) (di_items d ! p) = (if p = i then l else adjacent_of es (di_items d ! p))"
      if "p < length cs" for p using same [OF that] e by (simp add: adjacent_of_def)
    have none: "adjacent_of es a = []" using fresh by (simp add: adjacent_of_def)
    from Cons.IH [of "cs[i := cs ! i @ List.map_filter (index_of d) l]" ds'] Cons.prems
    have ih: "length (fst (fold (index_parent d) (e # es) (cs, ds))) = length cs"
      "p < length cs \<Longrightarrow> fst (fold (index_parent d) (e # es) (cs, ds)) ! p =
        cs[i := cs ! i @ List.map_filter (index_of d) l] ! p @ List.map_filter (index_of d) (adjacent_of es (di_items d ! p))"
      for p by (simp_all add: step)
    show ?thesis
    proof (intro conjI allI impI)
      fix p assume p: "p < length cs"
      show "fst (fold (index_parent d) (e # es) (cs, ds)) ! p =
          cs ! p @ List.map_filter (index_of d) (adjacent_of (e # es) (di_items d ! p))"
        using ih(2) [OF p] adj [OF p] p i none by (cases "p = i") (simp_all add: map_filter_simps)
    qed (rule ih(1))
  qed
qed

lemma build_indexed_children_ok:
  assumes "dense_ok d" "hm_inv children" "children_ok graph children" "set (di_items d) = keys_of graph"
    and "fst (build_indexed_children (length (di_items d)) children d) = cs"
  shows "length cs = length (di_items d)"
    and "p < length cs \<Longrightarrow> j \<in> set (cs ! p) \<longleftrightarrow>
      j < length cs \<and> di_items d ! p \<in> set (auth_preds graph (di_items d ! j))"
proof -
  let ?n = "length (di_items d)"
  have f: "length cs = ?n \<and> (\<forall>p < ?n. cs ! p = List.map_filter (index_of d) (adjacent_of children (di_items d ! p)))"
    using index_parent_fold [OF assms(1), of children "replicate ?n []" "replicate ?n 0"] assms(2,5)
    by (simp add: build_indexed_children_def hm_inv_def)
  then show l: "length cs = ?n" by simp
  assume p: "p < length cs"
  have "j \<in> set (cs ! p) \<longleftrightarrow> (\<exists>x \<in> set (adjacent_of children (di_items d ! p)). index_of d x = Some j)"
    using f p l by (force simp: List.map_filter_def)
  also have "\<dots> \<longleftrightarrow> j < ?n \<and> di_items d ! p \<in> set (auth_preds graph (di_items d ! j))"
    by (auto simp: dense_okD(2) [OF assms(1)] children_set [OF assms(3)])
  finally show "j \<in> set (cs ! p) \<longleftrightarrow> j < length cs \<and> di_items d ! p \<in> set (auth_preds graph (di_items d ! j))"
    using l by simp
qed

section \<open>Tables that are filled from the end\<close>

definition fill_down :: "('a list \<Rightarrow> nat \<Rightarrow> 'a) \<Rightarrow> 'a list \<Rightarrow> nat \<Rightarrow> 'a list" where
  "fill_down f t m = fold (\<lambda>i t. t[i := f t i]) (rev [m..<length t]) t"

lemma fill_down_step: "m < length t \<Longrightarrow> fill_down f t m = (fill_down f t (Suc m))[m := f (fill_down f t (Suc m)) m]"
  by (simp add: fill_down_def upt_conv_Cons)

lemma fill_down_length [simp]: "length (fill_down f t m) = length t"
proof -
  have "length (fold (\<lambda>i t. t[i := f t i]) ks t) = length t" for ks :: "nat list"
    by (induction ks arbitrary: t) simp_all
  then show ?thesis by (simp add: fill_down_def)
qed

lemma fill_down_nth:
  shows "k < m \<Longrightarrow> fill_down f t m ! k = t ! k"
    and "m \<le> k \<Longrightarrow> k < length t \<Longrightarrow> fill_down f t m ! k = f (fill_down f t (Suc k)) k"
proof (induction "length t - m" arbitrary: m)
  case 0
  { case 1 then show ?case using 0 by (simp add: fill_down_def) }
  { case 2 then show ?case using 0 by simp }
next
  case (Suc d)
  then have m: "m < length t" "d = length t - Suc m" by simp_all
  { case 1 then show ?case using Suc.hyps(1) [OF m(2)] by (simp add: fill_down_step [OF m(1)]) }
  { case 2 then show ?case using Suc.hyps(1,2) [OF m(2)] by (cases "k = m") (simp_all add: fill_down_step [OF m(1)]) }
qed

lemma fill_down_later: "k < j \<Longrightarrow> j < length t \<Longrightarrow> fill_down f t (Suc k) ! j = fill_down f t 0 ! j"
  by (simp add: fill_down_nth(2))

text \<open>Steps from a node to its children, and those that go to a greater position.\<close>

definition child_rel :: "nat list list \<Rightarrow> (nat \<times> nat) set" where
  "child_rel cs = {(i, j). i < length cs \<and> j \<in> set (cs ! i)}"

definition up_rel :: "nat list list \<Rightarrow> (nat \<times> nat) set" where
  "up_rel cs = {(i, j) \<in> child_rel cs. i < j}"

lemma up_rel_child: "up_rel cs \<subseteq> child_rel cs"
  by (auto simp: up_rel_def)

definition ranges_ok :: "nat list list \<Rightarrow> (nat \<times> nat) list \<Rightarrow> bool" where
  "ranges_ok cs ranges \<longleftrightarrow>
     (\<forall>i j. i < length cs \<longrightarrow> (i, j) \<in> (up_rel cs)\<^sup>* \<longrightarrow> fst (ranges ! i) \<le> j \<and> j \<le> snd (ranges ! i))"

lemma descendant_range_bounds:
  "fst (descendant_range t i ks) \<le> i \<and> i \<le> snd (descendant_range t i ks) \<and>
   (\<forall>k \<in> set ks. fst (descendant_range t i ks) \<le> fst (t ! k) \<and> snd (t ! k) \<le> snd (descendant_range t i ks))"
proof -
  let ?F = "\<lambda>k (lo, hi). (min lo (fst (t ! k)), max hi (snd (t ! k)))"
  have "fst (fold ?F ks (lo, hi)) \<le> lo \<and> hi \<le> snd (fold ?F ks (lo, hi)) \<and>
    (\<forall>k \<in> set ks. fst (fold ?F ks (lo, hi)) \<le> fst (t ! k) \<and> snd (t ! k) \<le> snd (fold ?F ks (lo, hi)))" for lo hi
  proof (induction ks arbitrary: lo hi)
    case (Cons k ks)
    from Cons.IH [of "min lo (fst (t ! k))" "max hi (snd (t ! k))"] show ?case by auto
  qed simp
  then show ?thesis unfolding descendant_range_def by blast
qed

lemma build_descendant_ranges_fill:
  "build_descendant_ranges cs = fill_down (\<lambda>t i. descendant_range t i (cs ! i)) (replicate (length cs) (0, 0)) 0"
  by (simp add: build_descendant_ranges_def fill_down_def)

lemma descendant_ranges_ok:
  assumes "\<forall>i < length cs. set (cs ! i) \<subseteq> {..<length cs}"
  shows "ranges_ok cs (build_descendant_ranges cs)"
  unfolding ranges_ok_def
proof (intro allI impI)
  let ?f = "\<lambda>t i. descendant_range t i (cs ! i)" and ?init = "replicate (length cs) (0::nat, 0::nat)"
  let ?t = "build_descendant_ranges cs"
  have t: "?t ! i = ?f (fill_down ?f ?init (Suc i)) i" if "i < length cs" for i
    using that by (simp add: build_descendant_ranges_fill fill_down_nth(2))
  have self: "fst (?t ! i) \<le> i \<and> i \<le> snd (?t ! i)" if "i < length cs" for i
    using descendant_range_bounds [of "fill_down ?f ?init (Suc i)" i "cs ! i"] by (simp add: t that)
  have nested: "fst (?t ! i) \<le> fst (?t ! j) \<and> snd (?t ! j) \<le> snd (?t ! i)" if "(i, j) \<in> up_rel cs" for i j
  proof -
    have ij: "i < length cs" "j \<in> set (cs ! i)" "i < j" "j < length cs"
      using that assms by (auto simp: up_rel_def child_rel_def)
    then have "fill_down ?f ?init (Suc i) ! j = ?t ! j"
      by (simp add: build_descendant_ranges_fill fill_down_later)
    moreover have "fst (?t ! i) \<le> fst (fill_down ?f ?init (Suc i) ! j) \<and> snd (fill_down ?f ?init (Suc i) ! j) \<le> snd (?t ! i)"
      unfolding t [OF ij(1)] using descendant_range_bounds ij(2) by blast
    ultimately show ?thesis by (simp only:)
  qed
  fix i j
  assume i: "i < length cs" and path: "(i, j) \<in> (up_rel cs)\<^sup>*"
  have "j < length cs" using path i assms
    by (induction rule: rtrancl_induct) (auto simp: up_rel_def child_rel_def)
  from path have "fst (?t ! i) \<le> fst (?t ! j) \<and> snd (?t ! j) \<le> snd (?t ! i)"
  proof (induction rule: converse_rtrancl_induct)
    case (step i k)
    then show ?case using nested [OF step(1)] by linarith
  qed simp
  with self [OF \<open>j < length cs\<close>] show "fst (?t ! i) \<le> j \<and> j \<le> snd (?t ! i)" by linarith
qed

section \<open>Segments\<close>

text \<open>The segments as lists of nodes: a node is at the offset of a segment that the table names, and each node
  but the last of a segment has the next one as its only child.\<close>

definition chain_table :: "segmentation \<Rightarrow> nat list list \<Rightarrow> bool" where
  "chain_table ns segs \<longleftrightarrow> (\<forall>i < length ns. \<forall>s j. ns ! i = Some (s, j) \<longleftrightarrow>
     s < length segs \<and> j < length (segs ! s) \<and> segs ! s ! j = i)"

definition linked :: "nat list list \<Rightarrow> nat list \<Rightarrow> bool" where
  "linked cs L \<longleftrightarrow> (\<forall>j. Suc j < length L \<longrightarrow> cs ! (L ! j) = [L ! Suc j])"

definition chain_ok :: "nat list list \<Rightarrow> nat \<Rightarrow> nat list \<Rightarrow> bool" where
  "chain_ok cs n L \<longleftrightarrow> L \<noteq> [] \<and> set L \<subseteq> {..<n} \<and> linked cs L"

lemma chain_table_extend:
  assumes "chain_table ns (segs @ [L])" "f < length ns" "ns ! f = None"
  shows "chain_table (ns[f := Some (length segs, length L)]) (segs @ [L @ [f]])"
  unfolding chain_table_def
proof (intro allI impI)
  fix i s j
  assume i: "i < length (ns[f := Some (length segs, length L)])"
  have old: "ns ! i = Some (s, j) \<longleftrightarrow> s < Suc (length segs) \<and> j < length ((segs @ [L]) ! s) \<and> (segs @ [L]) ! s ! j = i"
    using assms(1) i by (simp add: chain_table_def)
  have ne: "\<not> (s < Suc (length segs) \<and> j < length ((segs @ [L]) ! s) \<and> (segs @ [L]) ! s ! j = f)" for s j
    using assms(1) [unfolded chain_table_def, rule_format, OF assms(2), of s j] assms(3) by simp
  show "ns[f := Some (length segs, length L)] ! i = Some (s, j) \<longleftrightarrow>
      s < length (segs @ [L @ [f]]) \<and> j < length ((segs @ [L @ [f]]) ! s) \<and> (segs @ [L @ [f]]) ! s ! j = i"
  proof (cases "i = f")
    case True
    with ne [of s j] assms(2) show ?thesis
      by (auto simp: nth_append less_Suc_eq split: if_splits)
  next
    case False
    with old show ?thesis by (auto simp: nth_append less_Suc_eq split: if_splits)
  qed
qed

lemma chain_table_Nil: "chain_table ns segs \<longleftrightarrow> chain_table ns (segs @ [[]])"
proof -
  have "s < length (segs @ [[]]) \<and> j < length ((segs @ [[]]) ! s) \<and> (segs @ [[]]) ! s ! j = i \<longleftrightarrow>
      s < length segs \<and> j < length (segs ! s) \<and> segs ! s ! j = i" for s j i
    by (cases "s < length segs") (auto simp: nth_append less_Suc_eq)
  then show ?thesis by (simp only: chain_table_def)
qed

lemma chain_ok_snoc:
  assumes "chain_ok cs n L" "cs ! last L = [f]" "f < n"
  shows "chain_ok cs n (L @ [f])"
proof -
  have "cs ! (L ! j) = [f]" if "Suc j = length L" for j
    using that assms(1,2) by (metis chain_ok_def diff_Suc_1 last_conv_nth)
  then show ?thesis using assms by (auto simp: chain_ok_def linked_def nth_append less_Suc_eq)
qed

lemma segment_walk_ok:
  assumes "chain_table ns (segs @ [L])" "chain_ok cs (length ns) L"
  shows "\<exists>ns' L'. segment_walk cs degs (length segs) ns (last L) (length L) = (ns', length L', last L') \<and>
    chain_table ns' (segs @ [L']) \<and> chain_ok cs (length ns') L' \<and> length ns' = length ns \<and>
    (\<forall>i < length ns. ns ! i \<noteq> None \<longrightarrow> ns' ! i \<noteq> None)"
  using assms
proof (induction "length (filter (\<lambda>s. s = None) ns)" arbitrary: ns L rule: less_induct)
  case less
  let ?c = "last L" let ?f = "cs ! ?c ! 0"
  let ?stop = "degs ! ?c \<noteq> 1 \<or> length (cs ! ?c) \<noteq> 1 \<or> \<not> ?f < length ns \<or> degs ! ?f \<noteq> 1 \<or> ns ! ?f \<noteq> None"
  show ?case
  proof (cases ?stop)
    case True
    then have "segment_walk cs degs (length segs) ns ?c (length L) = (ns, length L, ?c)"
      by (subst segment_walk.simps) (auto simp: Let_def)
    with less.prems show ?thesis by blast
  next
    case False
    let ?ns = "ns[?f := Some (length segs, length L)]"
    have run: "segment_walk cs degs (length segs) ns ?c (length L) =
        segment_walk cs degs (length segs) ?ns (last (L @ [?f])) (length (L @ [?f]))"
      using False by (subst segment_walk.simps) (simp add: Let_def)
    have "cs ! ?c = [?f]" using False by (metis One_nat_def length_0_conv length_Suc_conv nth_Cons_0)
    from chain_ok_snoc [OF less.prems(2) this] False
    have ch: "chain_ok cs (length ?ns) (L @ [?f])" unfolding length_list_update by blast
    have tab: "chain_table ?ns (segs @ [L @ [?f]])"
      using chain_table_extend [OF less.prems(1)] False by blast
    have "length (filter (\<lambda>s. s = None) (ns[i := Some x])) < length (filter (\<lambda>s. s = None) ns)"
      if "i < length ns" "ns ! i = None" for i x and ns :: segmentation
      using that
    proof (induction ns arbitrary: i)
      case (Cons n ns)
      then show ?case by (cases i) auto
    qed simp
    then have "length (filter (\<lambda>s. s = None) ?ns) < length (filter (\<lambda>s. s = None) ns)" using False by blast
    from less.hyps [OF this tab ch] obtain ns' L' where
      "segment_walk cs degs (length segs) ?ns (last (L @ [?f])) (length (L @ [?f])) = (ns', length L', last L')"
      "chain_table ns' (segs @ [L'])" "chain_ok cs (length ns') L'" "length ns' = length ns"
      "\<forall>i < length ns. ?ns ! i \<noteq> None \<longrightarrow> ns' ! i \<noteq> None" by auto
    moreover have "ns ! i \<noteq> None \<Longrightarrow> ?ns ! i \<noteq> None" if "i < length ns" for i
      using that by (cases "i = ?f") auto
    ultimately show ?thesis unfolding run by blast
  qed
qed

definition segments_ok :: "nat list list \<Rightarrow> segmentation \<Rightarrow> nat list \<Rightarrow> nat list list \<Rightarrow> bool" where
  "segments_ok cs ns tails segs \<longleftrightarrow> length ns = length cs \<and> chain_table ns segs \<and>
     (\<forall>L \<in> set segs. chain_ok cs (length ns) L) \<and> tails = map last segs"

lemma segment_step_ok:
  assumes "segments_ok cs (sb_node_segment s) (sb_tails s) segs" "idx < length cs"
  shows "\<exists>segs'. segments_ok cs (sb_node_segment (segment_step cs degs idx s)) (sb_tails (segment_step cs degs idx s)) segs' \<and>
    sb_node_segment (segment_step cs degs idx s) ! idx \<noteq> None \<and>
    (\<forall>i < length cs. sb_node_segment s ! i \<noteq> None \<longrightarrow> sb_node_segment (segment_step cs degs idx s) ! i \<noteq> None)"
proof (cases "sb_node_segment s ! idx = None")
  case True
  let ?ns = "(sb_node_segment s)[idx := Some (length segs, 0)]"
  have len: "length (sb_tails s) = length segs" and l: "length (sb_node_segment s) = length cs"
    using assms(1) by (simp_all add: segments_ok_def)
  have "chain_table (sb_node_segment s) (segs @ [[]])"
    using assms(1) by (simp add: segments_ok_def flip: chain_table_Nil)
  from chain_table_extend [OF this _ True] assms(2) l
  have tab: "chain_table ?ns (segs @ [[idx]])" by simp
  have "chain_ok cs (length ?ns) [idx]" using assms(2) l by (simp add: chain_ok_def linked_def)
  from segment_walk_ok [OF tab this, of degs] obtain ns' L' where
    w: "segment_walk cs degs (length segs) ?ns idx 1 = (ns', length L', last L')"
    and r: "chain_table ns' (segs @ [L'])" "chain_ok cs (length ns') L'" "length ns' = length cs"
      "\<forall>i < length cs. ?ns ! i \<noteq> None \<longrightarrow> ns' ! i \<noteq> None" using l by auto
  have "segments_ok cs ns' (sb_tails s @ [last L']) (segs @ [L'])"
    using assms(1) r(1-3) by (auto simp: segments_ok_def)
  moreover have "?ns ! i \<noteq> None" if "i < length cs" "i = idx \<or> sb_node_segment s ! i \<noteq> None" for i
    using that l by (cases "i = idx") auto
  then have "ns' ! idx \<noteq> None" "\<forall>i < length cs. sb_node_segment s ! i \<noteq> None \<longrightarrow> ns' ! i \<noteq> None"
    using r(4) assms(2) by blast+
  moreover have "sb_node_segment (segment_step cs degs idx s) = ns'" "sb_tails (segment_step cs degs idx s) = sb_tails s @ [last L']"
    using True w by (simp_all add: segment_step_def len)
  ultimately show ?thesis by auto
qed (use assms in \<open>auto simp: segment_step_def\<close>)

lemma build_segments_ok:
  assumes "build_segments cs degs = (ns, tails, stats)"
  shows "\<exists>segs. segments_ok cs ns tails segs \<and> (\<forall>i < length cs. ns ! i \<noteq> None)"
proof -
  let ?s = "\<lambda>k. fold (segment_step cs degs) [0..<k]
    \<lparr> sb_node_segment = replicate (length cs) None, sb_tails = [], sb_singletons = 0, sb_long = 0, sb_max = 0 \<rparr>"
  have "\<exists>segs. segments_ok cs (sb_node_segment (?s k)) (sb_tails (?s k)) segs \<and>
    (\<forall>i < k. sb_node_segment (?s k) ! i \<noteq> None)" if "k \<le> length cs" for k
    using that
  proof (induction k)
    case 0
    have "segments_ok cs (replicate (length cs) None) [] []" by (simp add: segments_ok_def chain_table_def)
    then show ?case by auto
  next
    case (Suc k)
    then obtain segs where "segments_ok cs (sb_node_segment (?s k)) (sb_tails (?s k)) segs"
      and old: "\<forall>i < k. sb_node_segment (?s k) ! i \<noteq> None" by auto
    from segment_step_ok [OF this(1), of k degs] Suc.prems old show ?case
      by (fastforce simp: less_Suc_eq)
  qed
  from this [of "length cs"] assms show ?thesis by (simp add: build_segments_def Let_def)
qed

section \<open>The index as a view of the graph\<close>

definition index_view :: "event_map \<Rightarrow> range_prefilter \<Rightarrow> nat list list \<Rightarrow> bool" where
  "index_view graph r segs \<longleftrightarrow>
     dense_ok (rp_index r) \<and> set (di_items (rp_index r)) = keys_of graph \<and>
     length (di_items (rp_index r)) = length (rp_children r) \<and>
     (\<forall>i < length (rp_children r). \<forall>j. j \<in> set (rp_children r ! i) \<longleftrightarrow>
        j < length (rp_children r) \<and> di_items (rp_index r) ! i \<in> set (auth_preds graph (di_items (rp_index r) ! j))) \<and>
     ranges_ok (rp_children r) (rp_ranges r) \<and>
     segments_ok (rp_children r) (rp_node_segment r) (rp_tails r) segs \<and>
     (\<forall>i < length (rp_children r). rp_node_segment r ! i \<noteq> None) \<and>
     (\<forall>i j. (i, j) \<in> child_rel (rp_children r) \<longrightarrow> j \<notin> set (rp_cyclic r) \<longrightarrow> i < j \<and> i \<notin> set (rp_cyclic r))"

lemma index_viewD:
  assumes "index_view graph r segs"
  shows "dense_ok (rp_index r)" "set (di_items (rp_index r)) = keys_of graph"
    "length (di_items (rp_index r)) = length (rp_children r)"
    "i < length (rp_children r) \<Longrightarrow> j \<in> set (rp_children r ! i) \<longleftrightarrow>
       j < length (rp_children r) \<and> di_items (rp_index r) ! i \<in> set (auth_preds graph (di_items (rp_index r) ! j))"
    "ranges_ok (rp_children r) (rp_ranges r)"
    "segments_ok (rp_children r) (rp_node_segment r) (rp_tails r) segs"
    "i < length (rp_children r) \<Longrightarrow> rp_node_segment r ! i \<noteq> None"
    "(i, j) \<in> child_rel (rp_children r) \<Longrightarrow> j \<notin> set (rp_cyclic r) \<Longrightarrow> i < j \<and> i \<notin> set (rp_cyclic r)"
  using assms unfolding index_view_def by blast+

text \<open>An event follows the events of the graph that it cites.\<close>

definition follows :: "event_map \<Rightarrow> (string \<times> string) set" where
  "follows graph = {(a, n). a \<in> set (auth_preds graph n)}"

lemma cyclic_positions:
  assumes "dense_ok d" "di_items d = prefix @ left"
  shows "set (List.map_filter (index_of d) left) = {length prefix..<length (di_items d)}"
proof -
  have "i \<in> set (List.map_filter (index_of d) left) \<longleftrightarrow> (\<exists>x \<in> set left. index_of d x = Some i)" for i
    by (force simp: List.map_filter_def)
  also have "\<dots> i \<longleftrightarrow> i < length (di_items d) \<and> di_items d ! i \<in> set left" for i
    unfolding dense_okD(2) [OF assms(1)] by blast
  finally have "i \<in> set (List.map_filter (index_of d) left) \<longleftrightarrow>
      i < length (di_items d) \<and> di_items d ! i \<in> set left" for i .
  moreover have "di_items d ! i \<in> set left \<longleftrightarrow> length prefix \<le> i" if "i < length (di_items d)" for i
  proof (cases "i < length prefix")
    case True
    have "distinct (prefix @ left)" using dense_okD(1) [OF assms(1)] assms(2) by simp
    moreover have "prefix ! i \<in> set prefix" using True by simp
    ultimately have "prefix ! i \<notin> set left" unfolding distinct_append by blast
    with True assms(2) show ?thesis by (simp add: nth_append)
  next
    case False
    with that assms(2) show ?thesis by (simp add: nth_append)
  qed
  ultimately show ?thesis by auto
qed

lemma prefix_edges:
  assumes "distinct (prefix @ left)" "\<forall>i < length prefix. set (auth_preds graph (prefix ! i)) \<subseteq> set (take i prefix)"
    and "i < length (prefix @ left)" "j < length prefix"
    and "(prefix @ left) ! i \<in> set (auth_preds graph ((prefix @ left) ! j))"
  shows "i < j"
proof -
  have "(prefix @ left) ! i \<in> set (take j prefix)" using assms(5) subsetD [OF assms(2) [rule_format, OF assms(4)]]
    by (simp add: nth_append_left [OF assms(4)])
  then obtain k where "k < j" "k < length prefix" "prefix ! k = (prefix @ left) ! i" by (auto simp: in_set_conv_nth)
  moreover then have "(prefix @ left) ! k = (prefix @ left) ! i" by (simp add: nth_append)
  ultimately show ?thesis using assms(1,3) by (metis length_append nth_eq_iff_index_eq trans_less_add1)
qed

lemma no_leftover:
  assumes "\<forall>n \<in> set left. \<exists>a \<in> set left. a \<in> set (auth_preds graph n)" "acyclic (follows graph)"
  shows "left = []"
proof (rule ccontr)
  assume "left \<noteq> []"
  have "follows graph \<subseteq> keys_of graph \<times> keys_of graph" using auth_preds_keys by (auto simp: follows_def)
  then have "finite (follows graph)" by (rule finite_subset) (simp add: keys_of_def)
  then have "wf (follows graph)" using assms(2) by (rule finite_acyclic_wf)
  moreover obtain x where "x \<in> set left" using \<open>left \<noteq> []\<close> by (metis list.set_sel(1))
  ultimately obtain z where "z \<in> set left" "\<forall>y. (y, z) \<in> follows graph \<longrightarrow> y \<notin> set left" by (metis wfE_min)
  with assms(1) show False by (auto simp: follows_def)
qed

lemma reach_build_ok:
  assumes ok: "events_ok graph"
  shows "if length graph \<le> 2 ^ 32 then \<exists>r segs. reach_build graph = Inr r \<and> index_view graph r segs \<and>
      (acyclic (follows graph) \<longrightarrow> rp_cyclic r = [])
    else reach_build graph = Inl (Panic ''graph too large for index space'')"
proof -
  from collect_topology_ok [OF ok] obtain prefix left children where
    col: "collect_topology graph = Inr (prefix @ left, children, left)"
    and topo: "distinct (prefix @ left)" "set (prefix @ left) = keys_of graph"
      "\<forall>i < length prefix. set (auth_preds graph (prefix ! i)) \<subseteq> set (take i prefix)"
    and left: "\<forall>n \<in> set left. \<exists>a \<in> set left. a \<in> set (auth_preds graph n)"
    and ch: "children_ok graph children" "hm_inv children" by blast
  note none = no_leftover [OF left]
  have "distinct (map fst graph)" using ok by (simp add: events_ok_def hm_inv_def)
  then have len: "length (prefix @ left) = length graph"
    using distinct_card [OF topo(1)] topo(2) distinct_card [of "map fst graph"] by (simp add: keys_of_def)
  show ?thesis
  proof (cases "length graph \<le> 2 ^ 32")
    case False
    with try_build_ok [OF topo(1)] len obtain n where "try_build (prefix @ left) = Inl (IndexTooLarge n)" by auto
    with False show ?thesis by (simp add: reach_build_def col)
  next
    case True
    with try_build_ok [OF topo(1)] len obtain d where d: "try_build (prefix @ left) = Inr d" "dense_ok d"
      "di_items d = prefix @ left" by auto
    obtain cs degs where cs: "build_indexed_children (length (prefix @ left)) children d = (cs, degs)" by (metis surj_pair)
    obtain ns tails stats where sg: "build_segments cs degs = (ns, tails, stats)" by (metis prod_cases3)
    from build_segments_ok [OF sg] obtain segs where segs: "segments_ok cs ns tails segs" "\<forall>i < length cs. ns ! i \<noteq> None"
      by blast
    have keys: "set (di_items d) = keys_of graph" using d(3) topo(2) by simp
    have "fst (build_indexed_children (length (di_items d)) children d) = cs" using cs d(3) by simp
    note C = build_indexed_children_ok [OF d(2) ch(2,1) keys this]
    have "\<forall>i < length cs. set (cs ! i) \<subseteq> {..<length cs}" using C(2) by blast
    note R = descendant_ranges_ok [OF this]
    let ?r = "\<lparr> rp_index = d, rp_children = cs, rp_ranges = build_descendant_ranges cs, rp_tails = tails,
      rp_node_segment = ns, rp_stats = stats, rp_jumps = should_jump stats,
      rp_cyclic = List.map_filter (index_of d) left \<rparr>"
    have "i < j \<and> i \<notin> set (rp_cyclic ?r)" if "(i, j) \<in> child_rel cs" "j \<notin> set (rp_cyclic ?r)" for i j
    proof -
      have ij: "i < length cs" "j < length cs" "(prefix @ left) ! i \<in> set (auth_preds graph ((prefix @ left) ! j))"
        using that(1) C d(3) by (auto simp: child_rel_def)
      then have "j < length prefix" using that(2) cyclic_positions [OF d(2,3)] C(1) by auto
      moreover from this have "i < j" using prefix_edges [OF topo(1,3)] ij C(1) d(3) by simp
      ultimately show ?thesis using cyclic_positions [OF d(2,3)] by simp
    qed
    then have "index_view graph ?r segs" using d(2,3) keys C R segs by (simp add: index_view_def)
    moreover have "reach_build graph = Inr ?r" by (simp add: reach_build_def col d(1) cs [simplified] sg)
    moreover have "acyclic (follows graph) \<longrightarrow> rp_cyclic ?r = []" using none by (simp add: map_filter_simps)
    ultimately show ?thesis using True by auto
  qed
qed

text \<open>Paths between positions are paths between events.\<close>

lemma index_path:
  assumes v: "index_view graph r segs" and i: "i < length (rp_children r)"
  shows "(i, j) \<in> (child_rel (rp_children r))\<^sup>* \<longleftrightarrow>
    j < length (rp_children r) \<and> (di_items (rp_index r) ! i, di_items (rp_index r) ! j) \<in> (follows graph)\<^sup>*"
proof
  assume "(i, j) \<in> (child_rel (rp_children r))\<^sup>*"
  then show "j < length (rp_children r) \<and> (di_items (rp_index r) ! i, di_items (rp_index r) ! j) \<in> (follows graph)\<^sup>*"
  proof (induction rule: rtrancl_induct)
    case (step j k)
    then have "k < length (rp_children r)" "(di_items (rp_index r) ! j, di_items (rp_index r) ! k) \<in> follows graph"
      using index_viewD(4) [OF v] by (auto simp: child_rel_def follows_def)
    with step(3) show ?case by auto
  qed (use i in simp)
next
  have at: "\<exists>k < length (rp_children r). di_items (rp_index r) ! k = y" if "y \<in> keys_of graph" for y
    using that index_viewD(2,3) [OF v] by (metis in_set_conv_nth)
  assume "j < length (rp_children r) \<and> (di_items (rp_index r) ! i, di_items (rp_index r) ! j) \<in> (follows graph)\<^sup>*"
  then have j: "j < length (rp_children r)" and path: "(di_items (rp_index r) ! i, di_items (rp_index r) ! j) \<in> (follows graph)\<^sup>*" by auto
  from path have "\<forall>k. k < length (rp_children r) \<and> di_items (rp_index r) ! k = di_items (rp_index r) ! j \<longrightarrow> (i, k) \<in> (child_rel (rp_children r))\<^sup>*"
  proof (induction rule: rtrancl_induct)
    case base
    then show ?case using i dense_okD(1) [OF index_viewD(1) [OF v]] index_viewD(3) [OF v] by (auto simp: nth_eq_iff_index_eq)
  next
    case (step y z)
    from step(2) have yz: "y \<in> set (auth_preds graph z)" by (simp add: follows_def)
    then obtain l where l: "l < length (rp_children r)" "di_items (rp_index r) ! l = y" using at auth_preds_keys(1) by blast
    have "(l, k) \<in> child_rel (rp_children r)" if "k < length (rp_children r)" "di_items (rp_index r) ! k = z" for k
      using that l yz index_viewD(4) [OF v l(1), of k] by (simp add: child_rel_def)
    moreover have "(i, l) \<in> (child_rel (rp_children r))\<^sup>*"
      using step(3) l by blast
    ultimately show ?case by (blast intro: rtrancl_into_rtrancl)
  qed
  with j show "(i, j) \<in> (child_rel (rp_children r))\<^sup>*" by blast
qed

end
