(* ===== verification/Reach_Correct.thy ===== *)
theory Reach_Correct
  imports Reach_Topo
begin

text \<open>
  The reachability index answers exactly. \<open>walk_inv\<close> is the invariant that the three ways of walking
  the graph share: what is covered and what is queued is reachable, and a child that is neither
  has no candidate below it that is still open. \<open>walk_finish\<close> concludes that nothing is missed. Plain search,
  pruning by descendant ranges and jumps along segments are three instances, so the choice
  between them does not change an answer.
\<close>

section \<open>Walks\<close>

abbreviation reach_rel :: "nat list list \<Rightarrow> (nat \<times> nat) set" where
  "reach_rel cs \<equiv> (child_rel cs)\<^sup>*"

lemma kids_rel: "k \<in> set (listed_children cs i) \<longleftrightarrow> (i, k) \<in> child_rel cs"
  by (simp add: listed_children_def child_rel_def)

lemma enqueue_children_new:
  "\<exists>fresh. enqueue_children wanted cs p (q, R) = (q @ fresh, R @ fresh) \<and> distinct fresh \<and>
     set fresh = {k \<in> set (listed_children cs p). k \<notin> set R \<and> wanted k}"
proof -
  let ?F = "\<lambda>child (queue, reachable).
         if child \<in> set reachable then (queue, reachable)
         else if wanted child then (queue @ [child], reachable @ [child])
         else (queue, reachable)"
  have "\<exists>fresh. fold ?F ks (q, R) = (q @ fresh, R @ fresh) \<and> distinct fresh \<and>
     set fresh = {k \<in> set ks. k \<notin> set R \<and> wanted k}" for ks
  proof (induction ks arbitrary: q R)
    case (Cons k ks)
    show ?case
    proof (cases "k \<in> set R \<or> \<not> wanted k")
      case True
      then have run: "fold ?F (k # ks) (q, R) = fold ?F ks (q, R)" by auto
      have "{k' \<in> set (k # ks). k' \<notin> set R \<and> wanted k'} = {k' \<in> set ks. k' \<notin> set R \<and> wanted k'}" using True by auto
      with Cons.IH [of q R] show ?thesis unfolding run by (simp only:)
    next
      case False
      then have run: "fold ?F (k # ks) (q, R) = fold ?F ks (q @ [k], R @ [k])" by simp
      from Cons.IH [of "q @ [k]" "R @ [k]"] obtain fresh where
        "fold ?F ks (q @ [k], R @ [k]) = ((q @ [k]) @ fresh, (R @ [k]) @ fresh)" "distinct fresh"
        "set fresh = {k' \<in> set ks. k' \<notin> set (R @ [k]) \<and> wanted k'}" by blast
      with False run have "fold ?F (k # ks) (q, R) = (q @ (k # fresh), R @ (k # fresh)) \<and> distinct (k # fresh) \<and>
        set (k # fresh) = {k' \<in> set (k # ks). k' \<notin> set R \<and> wanted k'}" by auto
      then show ?thesis by blast
    qed
  qed simp
  then show ?thesis by (simp add: enqueue_children_def)
qed

definition walk_inv :: "nat list list \<Rightarrow> nat set \<Rightarrow> nat set \<Rightarrow> nat set \<Rightarrow> nat set \<Rightarrow> nat list \<Rightarrow> bool" where
  "walk_inv cs C S N Q R \<longleftrightarrow> set R \<subseteq> N \<union> Q \<and> N \<union> Q \<subseteq> reach_rel cs `` S \<and> S \<subseteq> N \<union> Q \<and>
     (\<forall>n \<in> N. \<forall>k \<in> set (listed_children cs n). k \<in> N \<union> Q \<or> (\<forall>i \<in> C - N. (k, i) \<notin> reach_rel cs))"

lemma walk_finish:
  assumes "walk_inv cs C S N {} R" "i \<in> C" "i \<in> reach_rel cs `` S"
  shows "i \<in> N"
proof (rule ccontr)
  assume i: "i \<notin> N"
  from assms(3) obtain s where s: "s \<in> S" "(s, i) \<in> reach_rel cs" by blast
  have closed: "w \<in> N" if "v \<in> N" "(v, w) \<in> child_rel cs" "(w, i) \<in> reach_rel cs" for v w
    using that(1,3) that(2) [folded kids_rel] assms(1,2) i unfolding walk_inv_def by blast
  have "s \<in> N" using s(1) assms(1) by (auto simp: walk_inv_def)
  with s(2) have "i \<in> N"
    by (induction rule: converse_rtrancl_induct) (auto intro: closed)
  with i show False ..
qed

lemma walk_sound: "walk_inv cs C S N Q R \<Longrightarrow> n \<in> N \<Longrightarrow> n \<in> reach_rel cs `` S"
  by (auto simp: walk_inv_def)

lemma walk_skip:
  assumes "c \<in> N" "walk_inv cs C S N (insert c Q) R"
  shows "walk_inv cs C S N Q R"
proof -
  have "N \<union> insert c Q = N \<union> Q" using assms(1) by blast
  with assms(2) show ?thesis unfolding walk_inv_def by metis
qed

text \<open>A step covers the nodes \<open>X\<close>, which are below the node it takes from the queue, and queues \<open>fresh\<close>.\<close>

lemma walk_step:
  assumes inv: "walk_inv cs C S N (insert c Q) R" and c: "c \<in> X" and X: "X \<subseteq> reach_rel cs `` {c}"
    and fresh: "\<And>k. k \<in> set fresh \<Longrightarrow> \<exists>n \<in> X. k \<in> set (listed_children cs n)"
    and listed_children: "\<And>n k. n \<in> X - N \<Longrightarrow> k \<in> set (listed_children cs n) \<Longrightarrow>
      k \<in> N \<union> X \<union> Q \<union> set fresh \<or> (\<forall>i \<in> C - (N \<union> X). (k, i) \<notin> reach_rel cs)"
  shows "walk_inv cs C S (N \<union> X) (Q \<union> set fresh) (R @ fresh)"
proof -
  note I = inv [unfolded walk_inv_def]
  have "c \<in> reach_rel cs `` S" using I by blast
  then have XS: "X \<subseteq> reach_rel cs `` S" using X by (blast intro: rtrancl_trans)
  have "set fresh \<subseteq> reach_rel cs `` S"
  proof
    fix k assume "k \<in> set fresh"
    then obtain n where "n \<in> X" "(n, k) \<in> child_rel cs" using fresh kids_rel by blast
    with XS show "k \<in> reach_rel cs `` S" by (blast intro: rtrancl_into_rtrancl)
  qed
  with XS I c have "set (R @ fresh) \<subseteq> N \<union> X \<union> (Q \<union> set fresh) \<and> N \<union> X \<union> (Q \<union> set fresh) \<subseteq> reach_rel cs `` S \<and>
    S \<subseteq> N \<union> X \<union> (Q \<union> set fresh)" unfolding set_append by blast
  moreover have "k \<in> N \<union> X \<union> (Q \<union> set fresh) \<or> (\<forall>i \<in> C - (N \<union> X). (k, i) \<notin> reach_rel cs)"
    if "n \<in> N \<union> X" "k \<in> set (listed_children cs n)" for n k
  proof (cases "n \<in> N")
    case True
    with I that(2) c show ?thesis by blast
  next
    case False
    with listed_children [of n k] that show ?thesis by blast
  qed
  ultimately show ?thesis unfolding walk_inv_def by blast
qed

lemma walk_start: "S = set R \<Longrightarrow> walk_inv cs C S {} S R"
  by (auto simp: walk_inv_def)

text \<open>The step of a search that takes one node at a time.\<close>

lemma walk_node:
  assumes "walk_inv cs C S N (insert c Q) R"
    and "set fresh = {k \<in> set (listed_children cs c). k \<notin> set R \<and> wanted k}"
    and "\<And>k i. \<not> wanted k \<Longrightarrow> i \<in> C - insert c N \<Longrightarrow> (c, k) \<in> child_rel cs \<Longrightarrow> (k, i) \<notin> reach_rel cs"
  shows "walk_inv cs C S (insert c N) (Q \<union> set fresh) (R @ fresh)"
proof -
  have "walk_inv cs C S (N \<union> {c}) (Q \<union> set fresh) (R @ fresh)"
  proof (rule walk_step [OF assms(1)])
    fix n k assume nk: "n \<in> {c} - N" "k \<in> set (listed_children cs n)"
    have "set R \<subseteq> N \<union> insert c Q" using assms(1) by (simp add: walk_inv_def)
    with nk assms(2) show "k \<in> N \<union> {c} \<union> Q \<union> set fresh \<or> (\<forall>i \<in> C - (N \<union> {c}). (k, i) \<notin> reach_rel cs)"
      using assms(3) [of k] by (auto simp: kids_rel)
  qed (use assms(2) in auto)
  then show ?thesis by simp
qed

section \<open>Enumeration\<close>

lemma visit_loop_ok:
  assumes "walk_inv (rp_children r) UNIV S (set visited) (set queue) reachable" "set queue \<union> set visited = set reachable"
    and "distinct (visited @ queue)"
  shows "set (visit_loop r queue reachable visited) = reach_rel (rp_children r) `` S"
    "distinct (visit_loop r queue reachable visited)"
  using assms
proof (induction r queue reachable visited rule: visit_loop.induct)
  case (1 r reachable visited)
  { case 1 then show ?case using walk_finish [of "rp_children r" UNIV S "set visited" reachable] walk_sound by auto }
  { case 2 then show ?case by simp }
next
  case (2 r current queue reachable visited)
  obtain fresh where e: "enqueue_unvisited_children r current (queue, reachable) = (queue @ fresh, reachable @ fresh)"
    and f: "distinct fresh" "set fresh = {k \<in> set (listed_children (rp_children r) current). k \<notin> set reachable \<and> True}"
    using enqueue_children_new [of "\<lambda>_. True" "rp_children r" current queue reachable]
    by (auto simp: enqueue_unvisited_children_def)
  {
    assume p: "walk_inv (rp_children r) UNIV S (set visited) (set (current # queue)) reachable"
      "set (current # queue) \<union> set visited = set reachable" "distinct (visited @ current # queue)"
    have "walk_inv (rp_children r) UNIV S (set (visited @ [current])) (set (queue @ fresh)) (reachable @ fresh)"
      using walk_node [OF p(1) [simplified] f(2)] by simp
    moreover have "set (queue @ fresh) \<union> set (visited @ [current]) = set (reachable @ fresh)" using p(2) by auto
    moreover have "distinct ((visited @ [current]) @ queue @ fresh)" using p(2,3) f by auto
    ultimately have "set (visit_loop r (current # queue) reachable visited) = reach_rel (rp_children r) `` S \<and>
      distinct (visit_loop r (current # queue) reachable visited)" using "2.IH" e by simp
  }
  note main = this
  { case 1 then show ?case using main by blast }
  { case 2 then show ?case using main by blast }
qed

definition seed_set :: "range_prefilter \<Rightarrow> string list \<Rightarrow> nat set" where
  "seed_set r seeds = {i. \<exists>s \<in> set seeds. index_of (rp_index r) s = Some i}"

lemma seed_queue_ok: "\<exists>q. seed_queue r seeds = (q, q) \<and> distinct q \<and> set q = seed_set r seeds"
proof -
  let ?F = "\<lambda>seed (queue, reachable). case index_of (rp_index r) seed of
         None \<Rightarrow> (queue, reachable)
       | Some idx \<Rightarrow> if idx \<in> set reachable then (queue, reachable) else (queue @ [idx], reachable @ [idx])"
  have "\<exists>q'. fold ?F seeds (q, q) = (q', q') \<and> distinct q' \<and>
      set q' = set q \<union> {i. \<exists>s \<in> set seeds. index_of (rp_index r) s = Some i}" if "distinct q" for q :: "nat list"
    using that
  proof (induction seeds arbitrary: q)
    case (Cons s seeds)
    show ?case
    proof (cases "index_of (rp_index r) s")
      case None
      with Cons.IH [OF Cons.prems] show ?thesis by auto
    next
      case (Some i)
      let ?q = "if i \<in> set q then q else q @ [i]"
      have d: "distinct ?q" using Cons.prems by simp
      have "fold ?F (s # seeds) (q, q) = fold ?F seeds (?q, ?q)" using Some by simp
      with Cons.IH [OF d] Some show ?thesis by auto
    qed
  qed auto
  from this [of "[]"] show ?thesis by (simp add: seed_queue_def seed_set_def)
qed

section \<open>Candidates\<close>

text \<open>The positions of the candidates that have been found, as flags and as a number of those still missing.\<close>

definition hits_at :: "nat \<Rightarrow> nat list \<Rightarrow> nat set \<Rightarrow> hits" where
  "hits_at len known H = (map (\<lambda>p. p \<in> H) [0..<len], length (filter (\<lambda>p. p \<notin> H) known))"

lemma note_hit_at:
  assumes "distinct known" "p \<in> set known" "set known \<subseteq> {..<len}"
  shows "note_hit p (hits_at len known H) = hits_at len known (insert p H)"
proof (cases "p \<in> H")
  case True
  then show ?thesis using assms by (auto simp: note_hit_def hits_at_def insert_absorb)
next
  case False
  have one: "count_list known p = 1" using assms(1,2) by (induction known) (auto simp: count_list_0_iff)
  have "(map (\<lambda>q. q \<in> H) [0..<len])[p := True] = map (\<lambda>q. q \<in> insert p H) [0..<len]"
    by (rule nth_equalityI) (use assms(2,3) in \<open>auto simp: nth_list_update split: if_splits\<close>)
  with length_filter_insert [OF False, of known] one False assms(2,3) show ?thesis
    by (auto simp: note_hit_def hits_at_def)
qed

lemma note_hits_at:
  assumes "distinct known" "set ps \<subseteq> set known" "set known \<subseteq> {..<len}"
  shows "fold note_hit ps (hits_at len known H) = hits_at len known (H \<union> set ps)"
  using assms(2)
proof (induction ps arbitrary: H)
  case (Cons p ps)
  then show ?case using note_hit_at [OF assms(1) _ assms(3), of p H] by simp
qed simp

lemma hits_left: "snd (hits_at len known H) = 0 \<longleftrightarrow> set known \<subseteq> H"
  by (auto simp: hits_at_def filter_empty_conv)

definition node_at :: "range_prefilter \<Rightarrow> string list \<Rightarrow> nat \<Rightarrow> nat option" where
  "node_at r cands p = index_of (rp_index r) (cands ! p)"

definition known_at :: "range_prefilter \<Rightarrow> string list \<Rightarrow> nat list" where
  "known_at r cands = filter (\<lambda>p. node_at r cands p \<noteq> None) [0..<length cands]"

definition positions_of :: "range_prefilter \<Rightarrow> string list \<Rightarrow> nat set \<Rightarrow> nat set" where
  "positions_of r cands N = {p. p < length cands \<and> (\<exists>i \<in> N. node_at r cands p = Some i)}"

definition query_ok :: "range_prefilter \<Rightarrow> string list \<Rightarrow> candidate_query \<Rightarrow> bool" where
  "query_ok r cands q \<longleftrightarrow> cq_candidate_count q = length cands \<and>
     cq_known_count q = length (known_at r cands) \<and>
     length (cq_positions q) = length (rp_children r) \<and>
     (\<forall>i < length (rp_children r). cq_positions q ! i = filter (\<lambda>p. node_at r cands p = Some i) [0..<length cands])"

lemma known_at: "distinct (known_at r cands)" "set (known_at r cands) \<subseteq> {..<length cands}"
  by (auto simp: known_at_def)

lemma collect_candidates_ok:
  assumes "\<And>x i. index_of (rp_index r) x = Some i \<Longrightarrow> i < length (rp_children r)"
  shows "query_ok r cands (collect_candidates r cands)"
proof (induction cands rule: rev_induct)
  case Nil
  then show ?case by (simp add: query_ok_def collect_candidates_def known_at_def)
next
  case (snoc x xs)
  have step: "collect_candidates r (xs @ [x]) = note_candidate r (length xs, x) (collect_candidates r xs)"
    by (simp add: collect_candidates_def enumerate_append_eq)
  have at: "node_at r (xs @ [x]) p = node_at r xs p" if "p < length xs" for p
    using that by (simp add: node_at_def nth_append)
  have last: "node_at r (xs @ [x]) (length xs) = index_of (rp_index r) x" by (simp add: node_at_def)
  have old: "filter (\<lambda>p. P (node_at r (xs @ [x]) p)) [0..<length xs] = filter (\<lambda>p. P (node_at r xs p)) [0..<length xs]" for P
    by (rule filter_cong) (simp_all add: at)
  have known: "known_at r (xs @ [x]) = known_at r xs @ (if index_of (rp_index r) x = None then [] else [length xs])"
    using old [of "\<lambda>v. v \<noteq> None"] by (simp add: known_at_def last)
  have pos: "filter (\<lambda>p. node_at r (xs @ [x]) p = Some i) [0..<length (xs @ [x])] =
      filter (\<lambda>p. node_at r xs p = Some i) [0..<length xs] @ (if index_of (rp_index r) x = Some i then [length xs] else [])" for i
    using old [of "\<lambda>v. v = Some i"] by (simp add: last)
  show ?case
  proof (cases "index_of (rp_index r) x")
    case None
    then show ?thesis using snoc pos
      by (simp add: step query_ok_def note_candidate_def known)
  next
    case (Some i)
    then show ?thesis using snoc assms [OF Some] unfolding query_ok_def pos
      by (auto simp: step note_candidate_def known Let_def nth_list_update)
  qed
qed

lemma positions_at_ok:
  assumes "query_ok r cands q" "\<And>x i. index_of (rp_index r) x = Some i \<Longrightarrow> i < length (rp_children r)"
  shows "set (positions_at q i) = positions_of r cands {i}" "set (positions_at q i) \<subseteq> set (known_at r cands)"
proof -
  show "set (positions_at q i) = positions_of r cands {i}"
    using assms by (auto simp: query_ok_def positions_at_def positions_of_def node_at_def)
  then show "set (positions_at q i) \<subseteq> set (known_at r cands)"
    by (auto simp: positions_of_def known_at_def)
qed

definition wanted_nodes :: "range_prefilter \<Rightarrow> string list \<Rightarrow> nat set" where
  "wanted_nodes r cands = {i. \<exists>p < length cands. node_at r cands p = Some i}"

lemma remaining_ok:
  assumes "query_ok r cands q" "\<And>x i. index_of (rp_index r) x = Some i \<Longrightarrow> i < length (rp_children r)"
  shows "remaining_candidate_set q = wanted_nodes r cands"
proof -
  have "i \<in> remaining_candidate_set q \<longleftrightarrow>
      i < length (rp_children r) \<and> (\<exists>p < length cands. node_at r cands p = Some i)" for i
  proof (cases "i < length (rp_children r)")
    case True
    then have "cq_positions q ! i = filter (\<lambda>p. node_at r cands p = Some i) [0..<length cands]"
      using assms(1) by (simp add: query_ok_def)
    then have "cq_positions q ! i \<noteq> [] \<longleftrightarrow> (\<exists>p < length cands. node_at r cands p = Some i)"
      by (auto simp: filter_empty_conv)
    then show ?thesis using True assms(1) by (simp add: remaining_candidate_set_def query_ok_def)
  qed (use assms(1) in \<open>simp add: remaining_candidate_set_def query_ok_def\<close>)
  then show ?thesis using assms(2) by (auto simp: wanted_nodes_def node_at_def)
qed

lemma positions_insert: "positions_of r cands (insert i N) = positions_of r cands N \<union> positions_of r cands {i}"
  by (auto simp: positions_of_def)

text \<open>The result of a query: the flags of the positions whose candidate is known and reachable.\<close>

definition answers :: "range_prefilter \<Rightarrow> string list \<Rightarrow> nat set \<Rightarrow> bool list" where
  "answers r cands S = map (\<lambda>p. p \<in> positions_of r cands (reach_rel (rp_children r) `` S)) [0..<length cands]"

lemma answers_hits:
  assumes "N \<subseteq> reach_rel (rp_children r) `` S"
    and "\<And>i. i \<in> wanted_nodes r cands \<Longrightarrow> i \<in> reach_rel (rp_children r) `` S \<Longrightarrow> i \<in> N"
  shows "fst (hits_at (length cands) (known_at r cands) (positions_of r cands N)) = answers r cands S"
proof -
  have "positions_of r cands N = positions_of r cands (reach_rel (rp_children r) `` S)"
    using assms unfolding positions_of_def wanted_nodes_def by blast
  then show ?thesis by (simp add: hits_at_def answers_def)
qed

lemma answers_all:
  assumes "N \<subseteq> reach_rel (rp_children r) `` S"
    and "snd (hits_at (length cands) (known_at r cands) (positions_of r cands N)) = 0"
  shows "fst (hits_at (length cands) (known_at r cands) (positions_of r cands N)) = answers r cands S"
proof (rule answers_hits [OF assms(1)])
  fix i assume "i \<in> wanted_nodes r cands"
  then obtain p where p: "p < length cands" "node_at r cands p = Some i" by (auto simp: wanted_nodes_def)
  then have "p \<in> positions_of r cands N" using assms(2) unfolding hits_left by (auto simp: known_at_def)
  with p show "i \<in> N" by (auto simp: positions_of_def)
qed

section \<open>Search with and without pruning\<close>

lemma up_path:
  assumes "index_view graph r segs" "(i, j) \<in> reach_rel (rp_children r)" "j \<notin> set (rp_cyclic r)"
  shows "(i, j) \<in> (up_rel (rp_children r))\<^sup>* \<and> i \<notin> set (rp_cyclic r)"
  using assms(2,3)
proof (induction rule: converse_rtrancl_induct)
  case (step i k)
  then have "i < k" "i \<notin> set (rp_cyclic r)" using index_viewD(8) [OF assms(1) step(1)] by blast+
  with step show ?case by (auto simp: up_rel_def intro: converse_rtrancl_into_rtrancl)
qed simp

lemma in_span:
  assumes "index_view graph r segs" "k < length (rp_children r)" "(k, i) \<in> (up_rel (rp_children r))\<^sup>*"
  shows "fst (rp_ranges r ! k) \<le> i \<and> i \<le> snd (rp_ranges r ! k)"
  using index_viewD(5) [OF assms(1)] assms(2,3) unfolding ranges_ok_def by blast

lemma overlaps_complete:
  assumes v: "index_view graph r segs" and i: "i \<in> rem" "i \<notin> set (rp_cyclic r)" "(k, i) \<in> reach_rel (rp_children r)"
    and k: "k < length (rp_children r)"
  shows "overlaps_remaining r rem k"
proof -
  have "(k, i) \<in> (up_rel (rp_children r))\<^sup>*" using up_path [OF v i(3,2)] by blast
  from in_span [OF v k this] i(1) show ?thesis by (auto simp: overlaps_remaining_def case_prod_unfold Let_def)
qed

lemma child_bounds:
  assumes "index_view graph r segs" "(i, j) \<in> child_rel (rp_children r)"
  shows "i < length (rp_children r)" "j < length (rp_children r)"
  using assms index_viewD(4) [OF assms(1)] by (auto simp: child_rel_def)

lemma index_bound:
  assumes "index_view graph r segs" "index_of (rp_index r) x = Some i"
  shows "i < length (rp_children r)"
  using assms(2) dense_okD(2) [OF index_viewD(1) [OF assms(1)]] index_viewD(3) [OF assms(1)] by simp

lemma candidate_loop_ok:
  assumes "index_view graph r segs" "query_ok r cands q" "mode = RangePruned \<Longrightarrow> rp_cyclic r = []"
    and "walk_inv (rp_children r) (wanted_nodes r cands) S N (set queue) R"
    and "h = hits_at (length cands) (known_at r cands) (positions_of r cands N)"
    and "mode = RangePruned \<Longrightarrow> rem = wanted_nodes r cands - N"
  shows "candidate_loop r q mode queue R h rem = answers r cands S"
  using assms
proof (induction r q mode queue R h rem arbitrary: N rule: candidate_loop.induct)
  case (1 r q mode R h rem)
  have "N \<subseteq> reach_rel (rp_children r) `` S" using "1.prems"(4) by (auto simp: walk_inv_def)
  from answers_hits [OF this] walk_finish [OF "1.prems"(4) [simplified]] "1.prems"(5) show ?case by simp
next
  case (2 r q mode c queue R h rem)
  let ?cs = "rp_children r" and ?C = "wanted_nodes r cands" and ?N = "insert c N"
  let ?h = "hits_at (length cands) (known_at r cands) (positions_of r cands ?N)"
  let ?rem = "if positions_at q c \<noteq> [] then rem - {c} else rem"
  note v = "2.prems"(1) and q = "2.prems"(2) and inv = "2.prems"(4)
  have P: "set (positions_at q i) = positions_of r cands {i}" "set (positions_at q i) \<subseteq> set (known_at r cands)" for i
    using positions_at_ok [OF q] index_bound [OF v] by blast+
  have hits: "fold note_hit (positions_at q c) h = ?h"
    unfolding "2.prems"(5) positions_insert [of r cands c N] P(1) [symmetric]
    by (rule note_hits_at [OF known_at(1) P(2) known_at(2)])
  have "positions_at q c = [] \<Longrightarrow> c \<notin> ?C" using P(1) [of c] by (auto simp: positions_of_def wanted_nodes_def)
  then have rem: "?rem = ?C - ?N" if "mode = RangePruned" using "2.prems"(6) [OF that] by auto
  have sound: "?N \<subseteq> reach_rel ?cs `` S" using inv by (auto simp: walk_inv_def)
  show ?case
  proof (cases "snd ?h = 0")
    case True
    then show ?thesis using answers_all [OF sound True] by (simp add: hits Let_def)
  next
    case False
    define wanted where "wanted = (if mode = RangePruned then overlaps_remaining r ?rem else (\<lambda>_. True))"
    obtain fresh where e: "enqueue_children wanted ?cs c (queue, R) = (queue @ fresh, R @ fresh)"
      and f: "set fresh = {k \<in> set (listed_children ?cs c). k \<notin> set R \<and> wanted k}"
      using enqueue_children_new by blast
    have "(k, i) \<notin> reach_rel ?cs" if w: "\<not> wanted k" and i: "i \<in> ?C - ?N" and k: "(c, k) \<in> child_rel ?cs" for k i
    proof
      assume "(k, i) \<in> reach_rel ?cs"
      moreover have m: "mode = RangePruned" using w by (simp add: wanted_def split: if_splits)
      ultimately have "overlaps_remaining r ?rem k"
        using overlaps_complete [OF v _ _ _ child_bounds(2) [OF v k], of i ?rem] i rem "2.prems"(3) by simp
      with w m show False by (simp add: wanted_def)
    qed
    from walk_node [OF inv [simplified] f this]
    have inv': "walk_inv ?cs ?C S ?N (set (queue @ fresh)) (R @ fresh)" by simp
    have s: "(if mode = RangePruned then enqueue_range_pruned_children r ?rem c (queue, R)
        else enqueue_unvisited_children r c (queue, R)) = (queue @ fresh, R @ fresh)"
      using e by (auto simp: wanted_def enqueue_defs)
    have "candidate_loop r q mode (queue @ fresh) (R @ fresh) ?h ?rem = answers r cands S"
      using "2.IH" [of ?h ?rem "(queue @ fresh, R @ fresh)" ?N] hits False s v q "2.prems"(3) inv' rem by simp
    then show ?thesis using False s by (simp add: hits Let_def)
  qed
qed

section \<open>Jumps along segments\<close>

lemma dropWhile_sorted:
  "sorted (map fst L) \<Longrightarrow> set (dropWhile (\<lambda>(offset, _, _). offset < e) L) = {t \<in> set L. e \<le> fst t}"
  by (induction L) force+

lemma chain_nth: "chain_ok cs n L \<Longrightarrow> m < length L \<Longrightarrow> L ! m < n"
  by (meson chain_ok_def lessThan_iff nth_mem subsetD)

lemma chain_path:
  assumes "chain_ok cs (length cs) L" "j \<le> j'" "j' < length L"
  shows "(L ! j, L ! j') \<in> reach_rel cs"
  using assms(2,3)
proof (induction j' rule: dec_induct)
  case (step m)
  have "L ! m \<in> set L" using step by simp
  then have "L ! m < length cs" "cs ! (L ! m) = [L ! Suc m]"
    using step.prems assms(1) unfolding chain_ok_def linked_def by blast+
  then have "(L ! m, L ! Suc m) \<in> child_rel cs" by (simp add: child_rel_def)
  with step show ?case by (auto intro: rtrancl_into_rtrancl)
qed simp

text \<open>The part of a segment from an offset on.\<close>

definition segment_from :: "nat list list \<Rightarrow> nat \<Rightarrow> nat \<Rightarrow> nat set" where
  "segment_from segs s e = {segs ! s ! j | j. e \<le> j \<and> j < length (segs ! s)}"

definition covered_nodes :: "nat list list \<Rightarrow> (nat \<rightharpoonup> nat) \<Rightarrow> nat set" where
  "covered_nodes segs covered = (\<Union>(s, e) \<in> {(s, e). covered s = Some e}. segment_from segs s e)"

lemma covered_insert:
  assumes "\<And>e'. covered s = Some e' \<Longrightarrow> e \<le> e'"
  shows "covered_nodes segs (covered(s \<mapsto> e)) = covered_nodes segs covered \<union> segment_from segs s e"
proof -
  have "segment_from segs s e' \<subseteq> segment_from segs s e" if "covered s = Some e'" for e'
    using assms [OF that] by (auto simp: segment_from_def)
  then show ?thesis by (fastforce simp: covered_nodes_def split: if_splits)
qed

lemma note_segment_hits:
  assumes "\<And>off i p. (off, i, p) \<in> set L \<Longrightarrow> p < length cands \<and> node_at r cands p = Some i"
  shows "fold note_segment_hit L (hits_at (length cands) (known_at r cands) H, rem) =
    (hits_at (length cands) (known_at r cands) (H \<union> {p. \<exists>off i. (off, i, p) \<in> set L}),
     rem - {i. \<exists>off p. (off, i, p) \<in> set L \<and> p \<notin> H})"
  using assms
proof (induction L arbitrary: H rem)
  case (Cons t L)
  obtain off i p where t: "t = (off, i, p)" by (cases t)
  have p: "p < length cands" "node_at r cands p = Some i" using Cons.prems t by auto
  then have pk: "p \<in> set (known_at r cands)" by (simp add: known_at_def)
  have flag: "fst (hits_at (length cands) (known_at r cands) H) ! p = (p \<in> H)" using p by (simp add: hits_at_def)
  have ih: "fold note_segment_hit L (hits_at (length cands) (known_at r cands) H, rem) =
    (hits_at (length cands) (known_at r cands) (H \<union> {p. \<exists>off i. (off, i, p) \<in> set L}),
     rem - {i. \<exists>off p. (off, i, p) \<in> set L \<and> p \<notin> H})" for H rem
    by (rule Cons.IH) (use Cons.prems in \<open>meson list.set_intros(2)\<close>)
  show ?case
  proof (cases "p \<in> H")
    case True
    then have "note_segment_hit t (hits_at (length cands) (known_at r cands) H, rem) =
        (hits_at (length cands) (known_at r cands) H, rem)"
      using flag by (auto simp: note_segment_hit_def t split: prod.splits)
    moreover have "H \<union> {p. \<exists>off i. (off, i, p) \<in> set (t # L)} = H \<union> {p. \<exists>off i. (off, i, p) \<in> set L}"
      "{i. \<exists>off p. (off, i, p) \<in> set (t # L) \<and> p \<notin> H} = {i. \<exists>off p. (off, i, p) \<in> set L \<and> p \<notin> H}"
      using True t by auto
    ultimately show ?thesis using ih [of H rem] by simp
  next
    case False
    have "note_hit p (hits_at (length cands) (known_at r cands) H) = hits_at (length cands) (known_at r cands) (insert p H)"
      by (rule note_hit_at [OF known_at(1) pk known_at(2)])
    then have step: "note_segment_hit t (hits_at (length cands) (known_at r cands) H, rem) =
        (hits_at (length cands) (known_at r cands) (insert p H), rem - {i})"
      using flag False by (auto simp: note_segment_hit_def note_hit_def t split: prod.splits)
    have "i' = i" if "(off', i', p) \<in> set L" for off' i' using Cons.prems [of off' i' p] that p by simp
    then have "rem - {i} - {i. \<exists>off q. (off, i, q) \<in> set L \<and> q \<notin> insert p H} =
        rem - {i. \<exists>off q. (off, i, q) \<in> set (t # L) \<and> q \<notin> H}" using False t by auto
    moreover have "insert p H \<union> {q. \<exists>off i. (off, i, q) \<in> set L} = H \<union> {q. \<exists>off i. (off, i, q) \<in> set (t # L)}"
      using t by auto
    ultimately show ?thesis using step ih [of "insert p H" "rem - {i}"] by simp
  qed
qed simp

lemma segment_candidates_ok:
  assumes "index_view graph r segs" "query_ok r cands q"
  shows "(off, i, p) \<in> set (segment_candidates r q s) \<longleftrightarrow>
    i < length (rp_children r) \<and> rp_node_segment r ! i = Some (s, off) \<and> p < length cands \<and> node_at r cands p = Some i"
  using assms(2) by (fastforce simp: segment_candidates_def query_ok_def split: option.splits if_splits)

lemma jump_hits:
  assumes v: "index_view graph r segs" and q: "query_ok r cands q" and s: "s < length segs"
  shows "fold note_segment_hit (dropWhile (\<lambda>(offset, _, _). offset < e) (segment_candidates r q s))
      (hits_at (length cands) (known_at r cands) (positions_of r cands N), wanted_nodes r cands - N) =
    (hits_at (length cands) (known_at r cands) (positions_of r cands (N \<union> segment_from segs s e)),
     wanted_nodes r cands - (N \<union> segment_from segs s e))"
proof -
  let ?L = "dropWhile (\<lambda>(offset, _, _). offset < e) (segment_candidates r q s)" and ?X = "segment_from segs s e"
  have tab: "chain_table (rp_node_segment r) segs" "length (rp_node_segment r) = length (rp_children r)"
    "\<forall>L \<in> set segs. chain_ok (rp_children r) (length (rp_node_segment r)) L"
    using index_viewD(6) [OF v] unfolding segments_ok_def by blast+
  have "sorted (map fst (segment_candidates r q s))" by (simp add: segment_candidates_def)
  then have L: "(off, i, p) \<in> set ?L \<longleftrightarrow> e \<le> off \<and> i < length (rp_children r) \<and>
      rp_node_segment r ! i = Some (s, off) \<and> p < length cands \<and> node_at r cands p = Some i" for off i p
    using segment_candidates_ok [OF v q] by (auto simp: dropWhile_sorted)
  have seg: "i \<in> ?X \<longleftrightarrow> i < length (rp_children r) \<and> (\<exists>off. e \<le> off \<and> rp_node_segment r ! i = Some (s, off))" for i
  proof -
    have "segs ! s ! j < length (rp_children r)" if "j < length (segs ! s)" for j
      using tab(2,3) s that by (metis chain_nth nth_mem)
    then show ?thesis using tab(1,2) s unfolding chain_table_def segment_from_def by auto
  qed
  have pos: "{p. \<exists>off i. (off, i, p) \<in> set ?L} = positions_of r cands ?X"
    unfolding L positions_of_def using seg by blast
  have un: "positions_of r cands N \<union> positions_of r cands ?X = positions_of r cands (N \<union> ?X)"
    by (auto simp: positions_of_def)
  have "i \<in> ?X" if "(off, i, p) \<in> set ?L" for off i p using that seg unfolding L by blast
  moreover have "\<exists>off p. (off, i, p) \<in> set ?L \<and> p \<notin> positions_of r cands N" if "i \<in> ?X" "i \<in> wanted_nodes r cands" "i \<notin> N" for i
  proof -
    from that(2) obtain p where p: "p < length cands" "node_at r cands p = Some i" by (auto simp: wanted_nodes_def)
    then have "p \<notin> positions_of r cands N" using that(3) by (auto simp: positions_of_def)
    then show ?thesis using p that(1) unfolding L seg by blast
  qed
  ultimately have rem: "wanted_nodes r cands - N - {i. \<exists>off p. (off, i, p) \<in> set ?L \<and> p \<notin> positions_of r cands N} =
      wanted_nodes r cands - (N \<union> ?X)" by blast
  have "fold note_segment_hit ?L (hits_at (length cands) (known_at r cands) (positions_of r cands N), wanted_nodes r cands - N) =
    (hits_at (length cands) (known_at r cands) (positions_of r cands N \<union> {p. \<exists>off i. (off, i, p) \<in> set ?L}),
     wanted_nodes r cands - N - {i. \<exists>off p. (off, i, p) \<in> set ?L \<and> p \<notin> positions_of r cands N})"
    by (rule note_segment_hits) (simp add: L)
  then show ?thesis unfolding pos un rem .
qed

definition jump_inv :: "nat list list \<Rightarrow> (nat \<rightharpoonup> nat) \<Rightarrow> nat list \<Rightarrow> bool" where
  "jump_inv segs covered expanded \<longleftrightarrow> set expanded = dom covered \<and>
     (\<forall>s e. covered s = Some e \<longrightarrow> s < length segs \<and> e < length (segs ! s))"

lemma jump_step:
  assumes v: "index_view graph r segs" and acyclic: "rp_cyclic r = []"
    and inv: "walk_inv (rp_children r) C S (covered_nodes segs covered) (insert c Q) R"
    and j: "jump_inv segs covered expanded" and c: "rp_node_segment r ! c = Some (s, e)" "c < length (rp_children r)"
    and low: "\<And>e'. covered s = Some e' \<Longrightarrow> e < e'"
    and fresh: "if s \<in> set expanded then fresh = []
      else set fresh = {k \<in> set (listed_children (rp_children r) (rp_tails r ! s)). k \<notin> set R \<and>
        overlaps_remaining r (C - (covered_nodes segs covered \<union> segment_from segs s e)) k}"
  shows "walk_inv (rp_children r) C S (covered_nodes segs (covered(s \<mapsto> e))) (Q \<union> set fresh) (R @ fresh)"
    "jump_inv segs (covered(s \<mapsto> e)) (if s \<in> set expanded then expanded else s # expanded)"
proof -
  let ?cs = "rp_children r" and ?N = "covered_nodes segs covered" and ?X = "segment_from segs s e" and ?L = "segs ! s"
  have tab: "chain_table (rp_node_segment r) segs" "length (rp_node_segment r) = length ?cs"
    "\<forall>L \<in> set segs. chain_ok ?cs (length (rp_node_segment r)) L" "rp_tails r = map last segs"
    using index_viewD(6) [OF v] unfolding segments_ok_def by blast+
  have sc: "s < length segs" "e < length ?L" "?L ! e = c" using tab(1,2) c unfolding chain_table_def by auto
  then have ch: "chain_ok ?cs (length ?cs) ?L" using tab(2,3) by simp
  have tl: "rp_tails r ! s = ?L ! (length ?L - 1)" using sc tab(4) ch by (simp add: last_conv_nth chain_ok_def)
  have cov: "covered_nodes segs (covered(s \<mapsto> e)) = ?N \<union> ?X" using low by (intro covered_insert) (meson less_imp_le)
  have succ: "listed_children ?cs (?L ! m) = [?L ! Suc m]" if "Suc m < length ?L" for m
    using chain_nth [OF ch, of m] that ch by (simp add: listed_children_def chain_ok_def linked_def)
  show "walk_inv ?cs C S (covered_nodes segs (covered(s \<mapsto> e))) (Q \<union> set fresh) (R @ fresh)"
    unfolding cov
  proof (rule walk_step [OF inv])
    show "c \<in> ?X" using sc by (auto simp: segment_from_def)
    show "?X \<subseteq> reach_rel ?cs `` {c}" using chain_path [OF ch] sc(3) by (auto simp: segment_from_def)
    show "\<exists>n \<in> ?X. k \<in> set (listed_children ?cs n)" if "k \<in> set fresh" for k
    proof -
      have "rp_tails r ! s \<in> ?X" unfolding tl segment_from_def using sc(2) by fastforce
      moreover have "k \<in> set (listed_children ?cs (rp_tails r ! s))" using that fresh by (auto split: if_splits)
      ultimately show ?thesis by blast
    qed
    fix n k
    assume n: "n \<in> ?X - ?N" and k: "k \<in> set (listed_children ?cs n)"
    then obtain m where m: "n = ?L ! m" "e \<le> m" "m < length ?L" by (auto simp: segment_from_def)
    show "k \<in> ?N \<union> ?X \<union> Q \<union> set fresh \<or> (\<forall>i \<in> C - (?N \<union> ?X). (k, i) \<notin> reach_rel ?cs)"
    proof (cases "Suc m < length ?L")
      case True
      then have "k \<in> ?X" using k m succ [OF True] by (auto simp: segment_from_def intro: exI [of _ "Suc m"])
      then show ?thesis by blast
    next
      case False
      then have ml: "m = length ?L - 1" using m(3) by simp
      have "covered s = None"
      proof (rule ccontr)
        assume "covered s \<noteq> None"
        then obtain e' where e': "covered s = Some e'" by blast
        then have "e' < length ?L" using j by (simp add: jump_inv_def)
        then have "e' \<le> m" using ml by linarith
        then have "n \<in> segment_from segs s e'" using m by (auto simp: segment_from_def)
        then have "n \<in> ?N" using e' by (auto simp: covered_nodes_def)
        with n show False by blast
      qed
      then have "s \<notin> set expanded" using j by (auto simp: jump_inv_def)
      then have fr: "set fresh = {k \<in> set (listed_children ?cs n). k \<notin> set R \<and> overlaps_remaining r (C - (?N \<union> ?X)) k}"
        using fresh tl m(1) ml by simp
      have kb: "k < length ?cs" using k kids_rel child_bounds(2) [OF v] by blast
      have "overlaps_remaining r (C - (?N \<union> ?X)) k" if "i \<in> C - (?N \<union> ?X)" "(k, i) \<in> reach_rel ?cs" for i
        using overlaps_complete [OF v that(1) _ that(2) kb] acyclic by simp
      moreover have "set R \<subseteq> ?N \<union> insert c Q" using inv by (simp add: walk_inv_def)
      ultimately show ?thesis using k fr \<open>c \<in> ?X\<close> by blast
    qed
  qed
  show "jump_inv segs (covered(s \<mapsto> e)) (if s \<in> set expanded then expanded else s # expanded)"
    using j sc by (auto simp: jump_inv_def)
qed

lemma jump_loop_ok:
  assumes "index_view graph r segs" "query_ok r cands q" "rp_cyclic r = []"
    and "walk_inv (rp_children r) (wanted_nodes r cands) S (covered_nodes segs covered) (set queue) R"
    and "jump_inv segs covered expanded" "set queue \<subseteq> {..<length (rp_children r)}"
    and "st = (hits_at (length cands) (known_at r cands) (positions_of r cands (covered_nodes segs covered)),
      wanted_nodes r cands - covered_nodes segs covered)"
  shows "jump_loop r q queue R covered expanded st = answers r cands S"
  using assms
proof (induction r q queue R covered expanded st rule: jump_loop.induct)
  case (1 r q R covered expanded st)
  have "covered_nodes segs covered \<subseteq> reach_rel (rp_children r) `` S" using "1.prems"(4) by (auto simp: walk_inv_def)
  from answers_hits [OF this] walk_finish [OF "1.prems"(4) [simplified]] "1.prems"(7) show ?case by simp
next
  case (2 r q c queue R covered expanded st)
  let ?cs = "rp_children r" and ?C = "wanted_nodes r cands" and ?N = "covered_nodes segs covered"
  note v = "2.prems"(1) and q = "2.prems"(2) and inv = "2.prems"(4) and j = "2.prems"(5) and st = "2.prems"(7)
  have c: "c < length ?cs" using "2.prems"(6) by simp
  obtain s e where se: "rp_node_segment r ! c = Some (s, e)" using index_viewD(7) [OF v c] by force
  have tab: "chain_table (rp_node_segment r) segs" "length (rp_node_segment r) = length ?cs"
    using index_viewD(6) [OF v] unfolding segments_ok_def by blast+
  have sc: "s < length segs" "e < length (segs ! s)" "segs ! s ! e = c"
    using tab se c unfolding chain_table_def by auto
  show ?case
  proof (cases "\<exists>e'. covered s = Some e' \<and> e' \<le> e")
    case True
    then obtain e' where e': "covered s = Some e'" "e' \<le> e" by blast
    then have "c \<in> segment_from segs s e'" using sc unfolding segment_from_def by blast
    then have "c \<in> ?N" using e'(1) by (auto simp: covered_nodes_def)
    from walk_skip [OF this inv [simplified]] have inv': "walk_inv ?cs ?C S ?N (set queue) R" .
    have "jump_loop r q queue R covered expanded st = answers r cands S"
      using "2.IH"(1) [OF se refl] e' v q "2.prems"(3,6) inv' j st by simp
    then show ?thesis using se e' by (simp add: min_def)
  next
    case False
    then have low: "e < e'" if "covered s = Some e'" for e' using that by force
    then have eff: "(case covered s of Some c \<Rightarrow> min c e | None \<Rightarrow> e) = e" by (auto split: option.splits simp: min_def)
    have skip: "\<not> (case covered s of Some b \<Rightarrow> min b e \<ge> b | None \<Rightarrow> False)" using low by (auto split: option.splits)
    let ?M = "covered_nodes segs (covered(s \<mapsto> e))"
    have cov: "?M = ?N \<union> segment_from segs s e" using low by (intro covered_insert) (meson less_imp_le)
    let ?st = "(hits_at (length cands) (known_at r cands) (positions_of r cands ?M), ?C - ?M)"
    have hits: "fold note_segment_hit (dropWhile (\<lambda>(offset, _, _). offset < e) (segment_candidates r q s)) st = ?st"
      unfolding st cov by (rule jump_hits [OF v q sc(1)])
    let ?f = "if s \<in> set expanded then (queue, R)
      else enqueue_range_pruned_children r (?C - ?M) (rp_tails r ! s) (queue, R)"
    obtain fresh where f: "?f = (queue @ fresh, R @ fresh)" "if s \<in> set expanded then fresh = []
      else set fresh = {k \<in> set (listed_children ?cs (rp_tails r ! s)). k \<notin> set R \<and> overlaps_remaining r (?C - ?M) k}"
    proof (cases "s \<in> set expanded")
      case True
      then show thesis by (intro that [of "[]"]) simp_all
    next
      case False
      from enqueue_children_new [of "overlaps_remaining r (?C - ?M)" ?cs "rp_tails r ! s" queue R] obtain fresh where
        "enqueue_children (overlaps_remaining r (?C - ?M)) ?cs (rp_tails r ! s) (queue, R) = (queue @ fresh, R @ fresh)"
        "set fresh = {k \<in> set (listed_children ?cs (rp_tails r ! s)). k \<notin> set R \<and> overlaps_remaining r (?C - ?M) k}" by blast
      with False show thesis by (intro that [of fresh]) (simp_all add: enqueue_defs)
    qed
    note step = jump_step [OF v "2.prems"(3) inv [simplified] j se c low f(2) [unfolded cov]]
    have sound: "?M \<subseteq> reach_rel ?cs `` S" using step(1) by (auto simp: walk_inv_def)
    have "set fresh \<subseteq> {..<length ?cs}" using f(2) kids_rel child_bounds(2) [OF v] by (auto split: if_splits)
    then have qb: "set (queue @ fresh) \<subseteq> {..<length ?cs}" using "2.prems"(6) by simp
    show ?thesis
    proof (cases "snd (fst ?st) = 0")
      case True
      then show ?thesis using answers_all [OF sound, of cands] se eff skip hits by (simp add: Let_def)
    next
      case nz: False
      show ?thesis
      proof (cases "s \<in> set expanded")
        case True
        with step f have w: "walk_inv ?cs ?C S ?M (set queue) R" "jump_inv segs (covered(s \<mapsto> e)) expanded" by auto
        have "jump_loop r q queue R (covered(s \<mapsto> e)) expanded ?st = answers r cands S"
          using "2.IH"(2) [OF se refl skip refl refl] True nz v q "2.prems"(3,6) w unfolding eff hits fun_upd_def by simp
        then show ?thesis using se eff skip hits nz True by (simp add: Let_def)
      next
        case ne: False
        with step f have w: "walk_inv ?cs ?C S ?M (set (queue @ fresh)) (R @ fresh)"
          "jump_inv segs (covered(s \<mapsto> e)) (s # expanded)" by auto
        have e: "enqueue_range_pruned_children r (?C - ?M) (rp_tails r ! s) (queue, R) = (queue @ fresh, R @ fresh)"
          using f(1) ne by simp
        have "jump_loop r q (queue @ fresh) (R @ fresh) (covered(s \<mapsto> e)) (s # expanded) ?st = answers r cands S"
          using "2.IH"(3) [OF se refl skip refl refl] ne nz v q "2.prems"(3) w qb e unfolding eff hits fun_upd_def by simp
        then show ?thesis using se eff skip hits nz ne e by (simp add: Let_def)
      qed
    qed
  qed
qed

section \<open>Exactness\<close>

definition reachable_from :: "event_map \<Rightarrow> string list \<Rightarrow> string \<Rightarrow> bool" where
  "reachable_from graph seeds x \<longleftrightarrow> (\<exists>s \<in> set seeds. s \<in> keys_of graph \<and> (s, x) \<in> (follows graph)\<^sup>*)"

lemma seed_bound: "index_view graph r segs \<Longrightarrow> seed_set r seeds \<subseteq> {..<length (rp_children r)}"
  using index_bound by (auto simp: seed_set_def)

lemma seed_reach:
  assumes v: "index_view graph r segs" and i: "i < length (rp_children r)"
  shows "i \<in> reach_rel (rp_children r) `` seed_set r seeds \<longleftrightarrow> reachable_from graph seeds (di_items (rp_index r) ! i)"
proof
  assume "i \<in> reach_rel (rp_children r) `` seed_set r seeds"
  then obtain s j where s: "s \<in> set seeds" "index_of (rp_index r) s = Some j" "(j, i) \<in> reach_rel (rp_children r)"
    by (auto simp: seed_set_def)
  have j: "j < length (rp_children r)" "di_items (rp_index r) ! j = s"
    using s(2) index_bound [OF v] dense_okD(2) [OF index_viewD(1) [OF v]] by auto
  then have "s \<in> keys_of graph" using index_viewD(2,3) [OF v] by (metis nth_mem)
  with s j index_path [OF v j(1)] show "reachable_from graph seeds (di_items (rp_index r) ! i)"
    by (auto simp: reachable_from_def)
next
  assume "reachable_from graph seeds (di_items (rp_index r) ! i)"
  then obtain s where s: "s \<in> set seeds" "s \<in> keys_of graph" "(s, di_items (rp_index r) ! i) \<in> (follows graph)\<^sup>*"
    by (auto simp: reachable_from_def)
  then obtain j where j: "j < length (rp_children r)" "di_items (rp_index r) ! j = s"
    using index_viewD(2,3) [OF v] by (metis in_set_conv_nth)
  have "index_of (rp_index r) s = Some j" using j dense_okD(2) [OF index_viewD(1) [OF v]] index_viewD(3) [OF v] by simp
  with s(1) have "j \<in> seed_set r seeds" by (auto simp: seed_set_def)
  moreover have "(j, i) \<in> reach_rel (rp_children r)" using index_path [OF v j(1), of i] j s(3) i by simp
  ultimately show "i \<in> reach_rel (rp_children r) `` seed_set r seeds" by blast
qed

lemma forward_reachable_exact:
  assumes v: "index_view graph r segs"
  shows "set (forward_reachable_ids r seeds) = {x. reachable_from graph seeds x}" "distinct (forward_reachable_ids r seeds)"
proof -
  let ?cs = "rp_children r" and ?items = "di_items (rp_index r)"
  obtain q where q: "seed_queue r seeds = (q, q)" "distinct q" "set q = seed_set r seeds" using seed_queue_ok by blast
  have "walk_inv ?cs UNIV (set q) (set []) (set q) q" using walk_start [of "set q" q] by simp
  from visit_loop_ok [OF this] q have V: "set (visit_loop r q q []) = reach_rel ?cs `` seed_set r seeds"
    "distinct (visit_loop r q q [])" by simp_all
  have b: "i < length ?cs" if "i \<in> reach_rel ?cs `` seed_set r seeds" for i
  proof -
    from that obtain j where "j \<in> seed_set r seeds" "(j, i) \<in> reach_rel ?cs" by blast
    then show ?thesis using seed_bound [OF v] index_path [OF v, of j i] by auto
  qed
  have keys: "x \<in> keys_of graph" if "reachable_from graph seeds x" for x
  proof -
    from that obtain s where "(s, x) \<in> (follows graph)\<^sup>*" "s \<in> keys_of graph" by (auto simp: reachable_from_def)
    then show ?thesis by (induction rule: rtrancl_induct) (auto simp: follows_def dest: auth_preds_keys)
  qed
  have run: "forward_reachable_ids r seeds = map (\<lambda>i. ?items ! i) (visit_loop r q q [])"
    by (simp add: forward_reachable_ids_def q(1))
  show "set (forward_reachable_ids r seeds) = {x. reachable_from graph seeds x}"
  proof (intro equalityI subsetI)
    fix x assume "x \<in> set (forward_reachable_ids r seeds)"
    then obtain i where "x = ?items ! i" "i \<in> reach_rel ?cs `` seed_set r seeds" using run V(1) by auto
    with b seed_reach [OF v] show "x \<in> {x. reachable_from graph seeds x}" by blast
  next
    fix x assume x: "x \<in> {x. reachable_from graph seeds x}"
    then obtain i where i: "i < length ?cs" "?items ! i = x"
      using keys index_viewD(2,3) [OF v] by (metis in_set_conv_nth mem_Collect_eq)
    then have "i \<in> set (visit_loop r q q [])" using x seed_reach [OF v i(1)] V(1) by simp
    with i(2) run show "x \<in> set (forward_reachable_ids r seeds)" by auto
  qed
  have "inj_on ((!) ?items) (set (visit_loop r q q []))"
    using b V(1) dense_okD(1) [OF index_viewD(1) [OF v]] index_viewD(3) [OF v]
    by (intro inj_on_nth) auto
  with V(2) show "distinct (forward_reachable_ids r seeds)" by (simp add: run distinct_map)
qed

text \<open>The specification of a query: the positions of the candidates that are reachable, in order.\<close>

definition reachable_positions :: "event_map \<Rightarrow> string list \<Rightarrow> string list \<Rightarrow> nat list" where
  "reachable_positions graph seeds cands =
     filter (\<lambda>p. cands ! p \<in> keys_of graph \<and> reachable_from graph seeds (cands ! p)) [0..<length cands]"

lemma answers_positions:
  assumes v: "index_view graph r segs"
  shows "collect_reachable_positions (answers r cands (seed_set r seeds)) = reachable_positions graph seeds cands"
proof -
  have "p \<in> positions_of r cands (reach_rel (rp_children r) `` seed_set r seeds) \<longleftrightarrow>
      cands ! p \<in> keys_of graph \<and> reachable_from graph seeds (cands ! p)" if "p < length cands" for p
  proof (cases "index_of (rp_index r) (cands ! p)")
    case None
    then have "cands ! p \<notin> keys_of graph"
      using dense_okD(3) [OF index_viewD(1) [OF v]] index_viewD(2) [OF v] by blast
    with None show ?thesis by (simp add: positions_of_def node_at_def)
  next
    case (Some i)
    have i: "i < length (rp_children r)" "di_items (rp_index r) ! i = cands ! p"
      using Some index_bound [OF v] dense_okD(2) [OF index_viewD(1) [OF v]] by auto
    then have "cands ! p \<in> keys_of graph" using index_viewD(2,3) [OF v] by (metis nth_mem)
    with Some that seed_reach [OF v i(1), of seeds] i(2) show ?thesis by (simp add: positions_of_def node_at_def)
  qed
  then show ?thesis
    by (auto simp: collect_reachable_positions_def answers_def reachable_positions_def intro: filter_cong)
qed

lemma known_none:
  assumes v: "index_view graph r segs" and "known_at r cands = []"
  shows "reachable_positions graph seeds cands = []"
proof -
  have "cands ! p \<notin> keys_of graph" if "p < length cands" for p
    using assms(2) that dense_okD(3) [OF index_viewD(1) [OF v]] index_viewD(2) [OF v]
    by (auto simp: known_at_def filter_empty_conv node_at_def)
  then show ?thesis by (simp add: reachable_positions_def filter_empty_conv)
qed

lemma filter_reachable_ok:
  assumes v: "index_view graph r segs"
  shows "filter_reachable r seeds cands = reachable_positions graph seeds cands"
proof -
  define q where "q = collect_candidates r cands"
  have qok: "query_ok r cands q" unfolding q_def by (rule collect_candidates_ok) (rule index_bound [OF v])
  define mode where "mode = select_traversal_mode r q"
  obtain Q where Q: "seed_queue r seeds = (Q, Q)" "set Q = seed_set r seeds" using seed_queue_ok by blast
  let ?cs = "rp_children r" and ?h = "hits_at (length cands) (known_at r cands) (positions_of r cands {})"
  have h: "?h = (replicate (length cands) False, length (known_at r cands))"
    by (simp add: hits_at_def positions_of_def map_replicate_const)
  have start: "walk_inv ?cs (wanted_nodes r cands) (seed_set r seeds) {} (set Q) Q" using walk_start Q(2) by metis
  have rem: "remaining_candidate_set q = wanted_nodes r cands" by (rule remaining_ok [OF qok]) (rule index_bound [OF v])
  have counts: "cq_candidate_count q = length cands" "cq_known_count q = length (known_at r cands)"
    using qok by (simp_all add: query_ok_def)
  show ?thesis
  proof (cases "known_at r cands = []")
    case True
    then show ?thesis using known_none [OF v True]
      by (simp add: filter_reachable_def filter_reachable_with_mode_def filter_reachable_segment_jumps_def
          filter_reachable_with_candidates_def counts Let_def flip: q_def)
  next
    case False
    then have nz: "\<not> (cq_candidate_count q = 0 \<or> cq_known_count q = 0)" by (auto simp: counts known_at_def)
    have ac: "rp_cyclic r = []" if "mode \<noteq> PlainIndexedBfs"
      using that by (auto simp: mode_def select_traversal_mode_def split: if_splits)
    show ?thesis
    proof (cases "mode = SegmentJumps")
      case True
      have "jump_loop r q Q Q Map.empty [] (?h, wanted_nodes r cands) = answers r cands (seed_set r seeds)"
        using jump_loop_ok [OF v qok, of "seed_set r seeds" Map.empty Q Q "[]"] ac True start seed_bound [OF v] Q(2)
        by (simp add: covered_nodes_def jump_inv_def)
      then have "filter_reachable_segment_jumps r seeds q = reachable_positions graph seeds cands"
        using answers_positions [OF v] nz h by (simp add: filter_reachable_segment_jumps_def Q rem counts)
      then show ?thesis using True
        by (simp add: filter_reachable_def filter_reachable_with_mode_def Let_def flip: q_def mode_def)
    next
      case nj: False
      have "candidate_loop r q mode Q Q ?h (if mode = RangePruned then wanted_nodes r cands else {}) =
          answers r cands (seed_set r seeds)"
        using candidate_loop_ok [OF v qok _ start refl, of mode] ac by simp
      then have "filter_reachable_with_candidates r seeds q mode = reachable_positions graph seeds cands"
        using answers_positions [OF v] nz h
        by (cases "mode = RangePruned") (simp_all add: filter_reachable_with_candidates_def Q rem counts)
      then show ?thesis using nj
        by (simp add: filter_reachable_def filter_reachable_with_mode_def Let_def flip: q_def mode_def)
    qed
  qed
qed

section \<open>Single queries\<close>

lemma up_le: "(i, j) \<in> (up_rel cs)\<^sup>* \<Longrightarrow> i \<le> j"
  by (induction rule: rtrancl_induct) (auto simp: up_rel_def)

lemma reaches_loop_ok:
  assumes "index_view graph r segs" "t \<notin> set (rp_cyclic r)"
    and "walk_inv (rp_children r) {t} S N (set queue) visited" "t \<notin> N \<union> set queue"
  shows "reaches_loop r t queue visited \<longleftrightarrow> t \<in> reach_rel (rp_children r) `` S"
  using assms
proof (induction r t queue visited arbitrary: N rule: reaches_loop.induct)
  case (1 r t visited)
  from walk_finish [OF "1.prems"(3) [simplified]] "1.prems"(4) show ?case by auto
next
  case (2 r t c queue visited)
  let ?cs = "rp_children r"
  let ?wanted = "\<lambda>k. k \<le> t \<and> \<not> out_of_range (rp_ranges r) k t"
  note v = "2.prems"(1) and inv = "2.prems"(3)
  have children: "reach_children r t (listed_children ?cs c) (queue, visited) =
      (if t \<in> set (listed_children ?cs c) then None else Some (enqueue_children ?wanted ?cs c (queue, visited)))"
    by (simp add: reach_children_enqueue enqueue_children_def)
  have c: "c \<in> reach_rel ?cs `` S" using inv by (auto simp: walk_inv_def)
  show ?case
  proof (cases "t \<in> set (listed_children ?cs c)")
    case True
    then have "t \<in> reach_rel ?cs `` S" using c by (auto simp: kids_rel intro: rtrancl_into_rtrancl)
    then show ?thesis using True children by simp
  next
    case False
    obtain fresh where e: "enqueue_children ?wanted ?cs c (queue, visited) = (queue @ fresh, visited @ fresh)"
      and f: "set fresh = {k \<in> set (listed_children ?cs c). k \<notin> set visited \<and> ?wanted k}" using enqueue_children_new by blast
    have "(k, i) \<notin> reach_rel ?cs" if w: "\<not> ?wanted k" and i: "i \<in> {t} - insert c N" and k: "(c, k) \<in> child_rel ?cs" for k i
    proof
      assume "(k, i) \<in> reach_rel ?cs"
      then have "(k, t) \<in> (up_rel ?cs)\<^sup>*" using up_path [OF v] i "2.prems"(2) by blast
      then have "k \<le> t" "fst (rp_ranges r ! k) \<le> t" "t \<le> snd (rp_ranges r ! k)"
        using up_le in_span [OF v child_bounds(2) [OF v k]] by blast+
      then show False using w by (simp add: out_of_range_def case_prod_unfold Let_def)
    qed
    from walk_node [OF inv [simplified] f this]
    have inv': "walk_inv ?cs {t} S (insert c N) (set (queue @ fresh)) (visited @ fresh)" by simp
    have "t \<notin> insert c N \<union> set (queue @ fresh)" using "2.prems"(4) f False by auto
    with "2.IH" [of "(queue @ fresh, visited @ fresh)" "insert c N"] children e False v "2.prems"(2) inv'
    show ?thesis by simp
  qed
qed

lemma reaches_index_ok:
  assumes v: "index_view graph r segs" and i: "i < length (rp_children r)" and t: "t \<notin> set (rp_cyclic r)"
  shows "reaches_index r i t \<longleftrightarrow> (i, t) \<in> reach_rel (rp_children r)"
proof (cases "i = t")
  case False
  have "walk_inv (rp_children r) {t} (set [i]) {} (set [i]) [i]" by (rule walk_start) simp
  from reaches_loop_ok [OF v t this] False have loop: "reaches_loop r t [i] [i] \<longleftrightarrow> (i, t) \<in> reach_rel (rp_children r)" by simp
  have "\<not> out_of_range (rp_ranges r) i t" if "(i, t) \<in> reach_rel (rp_children r)"
    using in_span [OF v i] up_path [OF v that t] by (auto simp: out_of_range_def case_prod_unfold Let_def not_less)
  with loop False show ?thesis by (auto simp: reaches_index_def)
qed (simp add: reaches_index_def)

lemma reaches_with_ok:
  assumes v: "index_view graph r segs"
    and contains: "\<And>i t. i < length (rp_children r) \<Longrightarrow> t < length (rp_children r) \<Longrightarrow> t \<notin> set (rp_cyclic r) \<Longrightarrow>
      contains i t \<longleftrightarrow> (i, t) \<in> reach_rel (rp_children r)"
    and a: "answer = reaches_with (rp_index r) (rp_cyclic r) a b self contains"
  shows "answer = Reach_Yes \<Longrightarrow> a \<in> keys_of graph \<and> (a, b) \<in> (follows graph)\<^sup>*"
    and "answer = Reach_No \<Longrightarrow> (a, b) \<notin> (follows graph)\<^sup>*"
    and "answer = Reach_Unknown \<Longrightarrow> rp_cyclic r = [] \<Longrightarrow> a \<notin> keys_of graph \<or> b \<notin> keys_of graph"
proof -
  note D = dense_okD [OF index_viewD(1) [OF v]]
  have at: "i < length (rp_children r) \<and> di_items (rp_index r) ! i = x \<and> x \<in> keys_of graph"
    if "index_of (rp_index r) x = Some i" for x i
    using that D(2) index_viewD(2,3) [OF v] by (metis nth_mem)
  have out: "index_of (rp_index r) x = None \<longleftrightarrow> x \<notin> keys_of graph" for x using D(3) index_viewD(2) [OF v] by blast
  have path: "(i, t) \<in> reach_rel (rp_children r) \<longleftrightarrow> (a, b) \<in> (follows graph)\<^sup>*"
    if "index_of (rp_index r) a = Some i" "index_of (rp_index r) b = Some t" for i t
    using that at index_path [OF v, of i t] by auto
  note defs = reaches_with_def reach_endpoints_def reach_from_index_def
  show "answer = Reach_Yes \<Longrightarrow> a \<in> keys_of graph \<and> (a, b) \<in> (follows graph)\<^sup>*"
    "answer = Reach_No \<Longrightarrow> (a, b) \<notin> (follows graph)\<^sup>*"
    using at contains path by (auto simp: a defs split: option.splits if_splits)
  show "answer = Reach_Unknown \<Longrightarrow> rp_cyclic r = [] \<Longrightarrow> a \<notin> keys_of graph \<or> b \<notin> keys_of graph"
    by (auto simp: a defs out split: option.splits if_splits)
qed

section \<open>The index of descendant sets\<close>

lemma descendant_bitmaps_fill:
  "descendant_bitmaps cs = fill_down (\<lambda>t i. {i} \<union> (\<Union>k \<in> set (cs ! i). t ! k)) (replicate (length cs) {}) 0"
proof -
  have "fold (\<lambda>k b. b \<union> t ! k) ks s = s \<union> (\<Union>k \<in> set ks. t ! k)" for ks and t :: "nat set list" and s
    by (induction ks arbitrary: s) auto
  then show ?thesis by (simp add: descendant_bitmaps_def fill_down_def)
qed

lemma descendant_bitmaps_ok:
  assumes v: "index_view graph r segs" and i: "i < length (rp_children r)" and t: "t \<notin> set (rp_cyclic r)"
  shows "t \<in> descendant_bitmaps (rp_children r) ! i \<longleftrightarrow> (i, t) \<in> reach_rel (rp_children r)"
proof -
  let ?cs = "rp_children r" and ?B = "descendant_bitmaps (rp_children r)"
  define B where "B m = fill_down (\<lambda>t i. {i} \<union> (\<Union>k \<in> set (?cs ! i). t ! k)) (replicate (length ?cs) {}) m" for m
  have B: "?B ! i = {i} \<union> (\<Union>k \<in> set (?cs ! i). B (Suc i) ! k)" if "i < length ?cs" for i
    using that by (simp add: descendant_bitmaps_fill B_def fill_down_nth(2))
  have later: "B (Suc i) ! k = ?B ! k" if "i < k" "k < length ?cs" for i k
    using that by (simp add: descendant_bitmaps_fill B_def fill_down_later)
  have earlier: "B (Suc i) ! k = {}" if "k \<le> i" "k < length ?cs" for i k
    using that by (simp add: B_def fill_down_nth(1))
  have sound: "?B ! i \<subseteq> reach_rel ?cs `` {i}" if "i < length ?cs" for i
    using that
  proof (induction "length ?cs - i" arbitrary: i rule: less_induct)
    case less
    have "B (Suc i) ! k \<subseteq> reach_rel ?cs `` {i}" if "k \<in> set (?cs ! i)" for k
    proof -
      have "(i, k) \<in> child_rel ?cs" using that less.prems by (simp add: child_rel_def)
      note k = this child_bounds(2) [OF v this]
      show ?thesis
      proof (cases "i < k")
        case True
        then have "?B ! k \<subseteq> reach_rel ?cs `` {k}" using less.hyps [of k] k(2) less.prems by simp
        with later [OF True k(2)] k(1) show ?thesis by (auto intro: converse_rtrancl_into_rtrancl)
      qed (use earlier k(2) in simp)
    qed
    then show ?case unfolding B [OF less.prems] by blast
  qed
  have "t \<in> ?B ! i" if "(i, t) \<in> reach_rel ?cs" "i < length ?cs" for i
  proof -
    have "(i, t) \<in> (up_rel ?cs)\<^sup>*" using up_path [OF v that(1) t] by blast
    then show ?thesis using that(2)
    proof (induction rule: converse_rtrancl_induct)
      case (step i k)
      from step(1) have "(i, k) \<in> child_rel ?cs" by (simp add: up_rel_def)
      from child_bounds(2) [OF v this] step(1) have k: "i < k" "k \<in> set (?cs ! i)" "k < length ?cs"
        by (simp_all add: up_rel_def child_rel_def)
      have "t \<in> B (Suc i) ! k" using step.IH [OF k(3)] later [OF k(1,3)] by simp
      with k(2) show ?case unfolding B [OF step.prems] by blast
    next
      case base
      then show ?case unfolding B [OF base] by blast
    qed
  qed
  then show ?thesis using subsetD [OF sound [OF i], of t] i by blast
qed

lemma forward_build_index:
  assumes "reach_build graph = Inr r"
  shows "forward_build graph = Inr \<lparr> fi_index = rp_index r, fi_descendants = descendant_bitmaps (rp_children r),
    fi_cyclic = rp_cyclic r \<rparr>"
proof -
  obtain topo children left where col: "collect_topology graph = Inr (topo, children, left)"
    using assms by (cases "collect_topology graph") (auto simp: reach_build_def)
  obtain d where d: "try_build topo = Inr d"
    using assms by (cases "try_build topo") (auto simp: reach_build_def col)
  obtain cs degs where cs: "build_indexed_children (length topo) children d = (cs, degs)" by (metis surj_pair)
  obtain ns tails stats where sg: "build_segments cs degs = (ns, tails, stats)" by (metis prod_cases3)
  show ?thesis using assms by (auto simp: reach_build_def forward_build_def col d cs sg)
qed

lemma forward_filter_ok:
  assumes v: "index_view graph r segs" and acyclic: "rp_cyclic r = []"
    and f: "f = \<lparr> fi_index = rp_index r, fi_descendants = descendant_bitmaps (rp_children r), fi_cyclic = rp_cyclic r \<rparr>"
  shows "forward_filter_reachable f seeds cands = reachable_positions graph seeds cands"
proof -
  let ?cs = "rp_children r"
  have "fold (\<lambda>seed reachable. case index_of (fi_index f) seed of
      None \<Rightarrow> reachable
    | Some idx \<Rightarrow> insert idx reachable \<union> fi_descendants f ! idx) seeds A = A \<union> reach_rel ?cs `` seed_set r seeds" for A
  proof (induction seeds arbitrary: A)
    case (Cons s seeds)
    show ?case
    proof (cases "index_of (rp_index r) s")
      case None
      then show ?thesis using Cons.IH [of A] f by (simp add: seed_set_def)
    next
      case (Some i)
      have "fi_descendants f ! i = reach_rel ?cs `` {i}"
        using descendant_bitmaps_ok [OF v index_bound [OF v Some]] acyclic f by auto
      then have "insert i A \<union> fi_descendants f ! i = A \<union> reach_rel ?cs `` {i}" by auto
      moreover have "seed_set r (s # seeds) = insert i (seed_set r seeds)" using Some by (auto simp: seed_set_def)
      ultimately show ?thesis using Cons.IH [of "A \<union> reach_rel ?cs `` {i}"] Some f by auto
    qed
  qed (simp add: seed_set_def)
  note folds = this [of "{}"] and idx = arg_cong [OF f, of fi_index, simplified]
  have "forward_filter_reachable f seeds cands =
      filter (\<lambda>p. case index_of (rp_index r) (cands ! p) of None \<Rightarrow> False
        | Some i \<Rightarrow> i \<in> reach_rel ?cs `` seed_set r seeds) [0..<length cands]"
    unfolding forward_filter_reachable_def Let_def folds Un_empty_left unfolding idx by (rule refl)
  also have "\<dots> = collect_reachable_positions (answers r cands (seed_set r seeds))"
    by (auto simp: collect_reachable_positions_def answers_def positions_of_def node_at_def
        intro!: filter_cong split: option.splits)
  finally show ?thesis by (simp add: answers_positions [OF v])
qed

section \<open>The index is exact\<close>

text \<open>C13: The reachability index is built for every graph that fits its positions, cyclic or not, and panics for
  larger ones. Whichever way of walking the graph a query selects, by plain search, by pruning with descendant
  ranges or by jumps along segments, it returns exactly the positions of the candidates that a seed
  reaches; the enumeration lists exactly the events a seed reaches, each once. A single query answers yes or
  no only when that is so, and leaves open only unknown or cyclic endpoints. On acyclic graphs
  the index of descendant sets gives the same answers.\<close>

theorem reach_index_exact:
  assumes ok: "events_ok graph"
  shows "if length graph \<le> 2 ^ 32 then
      \<exists>r f. reach_build graph = Inr r \<and> forward_build graph = Inr f \<and>
        (\<forall>seeds cands. filter_reachable r seeds cands = reachable_positions graph seeds cands \<and>
           set (forward_reachable_ids r seeds) = {x. reachable_from graph seeds x} \<and>
           distinct (forward_reachable_ids r seeds)) \<and>
        (\<forall>a b. (reaches r a b = Reach_Yes \<or> forward_reaches f a b = Reach_Yes \<longrightarrow> (a, b) \<in> (follows graph)\<^sup>*) \<and>
           (reaches r a b = Reach_No \<or> forward_reaches f a b = Reach_No \<longrightarrow> (a, b) \<notin> (follows graph)\<^sup>*)) \<and>
        (acyclic (follows graph) \<longrightarrow>
           (\<forall>seeds cands. forward_filter_reachable f seeds cands = filter_reachable r seeds cands) \<and>
           (\<forall>a b. a \<in> keys_of graph \<longrightarrow> b \<in> keys_of graph \<longrightarrow>
              reaches r a b \<noteq> Reach_Unknown \<and> forward_reaches f a b \<noteq> Reach_Unknown))
    else reach_build graph = Inl (Panic ''graph too large for index space'')"
proof (cases "length graph \<le> 2 ^ 32")
  case True
  with reach_build_ok [OF ok] obtain r segs where r: "reach_build graph = Inr r"
    and v: "index_view graph r segs" and ac: "acyclic (follows graph) \<longrightarrow> rp_cyclic r = []" by auto
  define f where "f = \<lparr> fi_index = rp_index r, fi_descendants = descendant_bitmaps (rp_children r), fi_cyclic = rp_cyclic r \<rparr>"
  have f: "forward_build graph = Inr f" unfolding f_def by (rule forward_build_index [OF r])
  note R = reaches_with_ok [OF v reaches_index_ok [OF v] reaches_def]
  have fr: "forward_reaches f a b = reaches_with (rp_index r) (rp_cyclic r) a b True
      (\<lambda>i t. t \<in> descendant_bitmaps (rp_children r) ! i)" for a b by (simp add: forward_reaches_def f_def)
  note F = reaches_with_ok [OF v descendant_bitmaps_ok [OF v] fr]
  have "\<forall>seeds cands. filter_reachable r seeds cands = reachable_positions graph seeds cands \<and>
      set (forward_reachable_ids r seeds) = {x. reachable_from graph seeds x} \<and> distinct (forward_reachable_ids r seeds)"
    using filter_reachable_ok [OF v] forward_reachable_exact [OF v] by blast
  moreover have "\<forall>a b. (reaches r a b = Reach_Yes \<or> forward_reaches f a b = Reach_Yes \<longrightarrow> (a, b) \<in> (follows graph)\<^sup>*) \<and>
      (reaches r a b = Reach_No \<or> forward_reaches f a b = Reach_No \<longrightarrow> (a, b) \<notin> (follows graph)\<^sup>*)"
    using R(1,2) F(1,2) by blast
  moreover have "acyclic (follows graph) \<longrightarrow>
      (\<forall>seeds cands. forward_filter_reachable f seeds cands = filter_reachable r seeds cands) \<and>
      (\<forall>a b. a \<in> keys_of graph \<longrightarrow> b \<in> keys_of graph \<longrightarrow>
         reaches r a b \<noteq> Reach_Unknown \<and> forward_reaches f a b \<noteq> Reach_Unknown)"
    using ac R(3) F(3) forward_filter_ok [OF v _ f_def] filter_reachable_ok [OF v] by auto
  ultimately show ?thesis using True r f by auto
next
  case False
  with reach_build_ok [OF ok] show ?thesis by simp
qed

lemma sample_reach: "reachable_positions sample_dag [''b'', ''z''] [''d'', ''z''] = [0]"
proof -
  have b: "''b'' \<in> keys_of sample_dag" and d: "''d'' \<in> keys_of sample_dag" and z: "''z'' \<notin> keys_of sample_dag" by code_simp+
  have "''b'' \<in> set (auth_preds sample_dag ''d'')" by code_simp
  then have "(''b'', ''d'') \<in> (follows sample_dag)\<^sup>*" by (auto simp: follows_def)
  then have "reachable_from sample_dag [''b'', ''z''] ''d''" using b by (auto simp: reachable_from_def)
  then show ?thesis using d z by (simp add: reachable_positions_def upt_rec)
qed

theorem reach_index_exact_witness:
  "\<exists>r. reach_build sample_dag = Inr r \<and> filter_reachable r [''b'', ''z''] [''d'', ''z''] = [0]"
proof -
  have ok: "events_ok sample_dag" by code_simp
  have len: "length sample_dag \<le> 2 ^ 32" by (simp add: sample_dag_def)
  from reach_index_exact [OF ok] len obtain r where "reach_build sample_dag = Inr r"
    "filter_reachable r [''b'', ''z''] [''d'', ''z''] = reachable_positions sample_dag [''b'', ''z''] [''d'', ''z'']" by auto
  then show ?thesis by (auto simp: sample_reach)
qed

end
