(* ===== verification/Subgraph.thy ===== *)
theory Subgraph
  imports Reach_Correct
begin

text \<open>
  The conflicted subgraph of state resolution from room version 12 on, \<open>src/src/resolve/subgraph.rs\<close>: the events
  that are both ancestors and descendants of conflicted events in the graph of auth events. A
  \<open>BTreeSet\<close> is a set, iterated in the order of its elements. \<open>subgraph_exact\<close> shows that the result is this intersection,
  with a bound on the depth of the ancestors when there is one, and that the variant over an index of a larger graph
  gives the same ids on event contexts that are closed under auth events.
\<close>

section \<open>Model\<close>

record subgraph_result =
  sg_subgraph :: event_map
  sg_missing_auth_events :: "string list"

record backwards_walk =
  bw_backwards :: "string set"
  bw_missing :: "string set"
  bw_visited_depth :: "(string \<times> nat) list"

definition cited_ids :: "event_map \<Rightarrow> string set" where
  "cited_ids events = (\<Union>(_, ev) \<in> set events. set (ev_auth_events ev))"

definition open_ids :: "event_map \<Rightarrow> (string \<times> nat) list \<Rightarrow> (string \<times> nat) list \<Rightarrow> string set" where
  "open_ids events queue visited = fst ` set queue \<union> cited_ids events - fst ` set visited"

lemma sum_update_less:
  "map_of m n = Some old \<Longrightarrow> d < old \<Longrightarrow> sum_list (map snd (hm_insert n d m)) < sum_list (map snd m)" for d :: nat
  by (induction n d m rule: hm_insert.induct) auto

lemma finite_open: "finite (open_ids events queue visited)"
proof -
  have "finite (cited_ids events)" by (auto simp: cited_ids_def)
  then show ?thesis by (simp add: open_ids_def)
qed

lemma keys_hm_insert: "fst ` set (hm_insert k v m) = insert k (fst ` set m)"
  by (induction k v m rule: hm_insert.induct) auto

text \<open>Visiting a node leaves fewer open ids, or lowers its depth.\<close>

lemma visit_measure:
  assumes "case map_of visited node of None \<Rightarrow> True | Some old \<Rightarrow> depth < old"
    and "fst ` set queue' \<subseteq> fst ` set queue \<union> cited_ids events"
  shows "card (open_ids events queue' (hm_insert node depth visited)) < card (open_ids events ((node, depth) # queue) visited) \<or>
    card (open_ids events queue' (hm_insert node depth visited)) \<le> card (open_ids events ((node, depth) # queue) visited) \<and>
    sum_list (map snd (hm_insert node depth visited)) < sum_list (map snd visited)"
proof (cases "map_of visited node")
  case None
  then have "node \<in> open_ids events ((node, depth) # queue) visited"
    by (simp add: open_ids_def map_of_eq_None_iff)
  moreover have "open_ids events queue' (hm_insert node depth visited) \<subseteq> open_ids events ((node, depth) # queue) visited - {node}"
    using assms(2) by (auto simp: open_ids_def keys_hm_insert)
  ultimately have "open_ids events queue' (hm_insert node depth visited) \<subset> open_ids events ((node, depth) # queue) visited" by blast
  then show ?thesis using psubset_card_mono [OF finite_open] by blast
next
  case (Some old)
  have "open_ids events queue' (hm_insert node depth visited) \<subseteq> open_ids events ((node, depth) # queue) visited"
    using assms(2) by (auto simp: open_ids_def keys_hm_insert)
  from card_mono [OF finite_open this] sum_update_less [OF Some] assms(1) Some show ?thesis by simp
qed

lemma skip_measure: "card (open_ids events queue visited) \<le> card (open_ids events (e # queue) visited)"
  by (rule card_mono [OF finite_open]) (auto simp: open_ids_def)

function backwards_loop ::
  "event_map \<Rightarrow> nat option \<Rightarrow> (string \<times> nat) list \<Rightarrow> backwards_walk \<Rightarrow> backwards_walk" where
  "backwards_loop events max_auth_depth [] w = w"
| "backwards_loop events max_auth_depth ((node, depth) # queue) w =
     (if (case map_of (bw_visited_depth w) node of None \<Rightarrow> True | Some old \<Rightarrow> depth < old)
      then let w = w\<lparr> bw_visited_depth := hm_insert node depth (bw_visited_depth w),
                      bw_backwards := insert node (bw_backwards w) \<rparr>
           in if (case max_auth_depth of Some max_depth \<Rightarrow> depth \<ge> max_depth | None \<Rightarrow> False)
              then backwards_loop events max_auth_depth queue w
              else (case map_of events node of
                  Some event \<Rightarrow>
                    backwards_loop events max_auth_depth
                      (queue @ map (\<lambda>auth_id. (auth_id, depth + 1)) (ev_auth_events event))
                      (w\<lparr> bw_missing := bw_missing w \<union>
                            {auth_id \<in> set (ev_auth_events event). map_of events auth_id = None} \<rparr>)
                | None \<Rightarrow> backwards_loop events max_auth_depth queue w)
      else backwards_loop events max_auth_depth queue w)"
  by pat_completeness auto
termination
proof (relation "measures [\<lambda>(events, _, queue, w). card (open_ids events queue (bw_visited_depth w)),
    \<lambda>(events, _, queue, w). sum_list (map snd (bw_visited_depth w)), \<lambda>(events, _, queue, w). length queue]", goal_cases)
  case (2 events max_auth_depth node depth queue w w')
  then show ?case using visit_measure [OF 2(1), of queue queue events] by auto
next
  case (3 events max_auth_depth node depth queue w w')
  then show ?case using visit_measure [OF 3(1), of queue queue events] by auto
next
  case (4 events max_auth_depth node depth queue w w' event)
  have "fst ` set (queue @ map (\<lambda>a. (a, depth + 1)) (ev_auth_events event)) \<subseteq> fst ` set queue \<union> cited_ids events"
    using map_of_SomeD [OF 4(4)] by (force simp: cited_ids_def)
  from visit_measure [OF 4(1) this] 4(2) show ?case by auto
next
  case (5 events max_auth_depth node depth queue w)
  then show ?case using skip_measure [of events queue "bw_visited_depth w" "(node, depth)"] by auto
qed simp

definition collect_backwards_reachable ::
  "event_map \<Rightarrow> string list \<Rightarrow> nat option \<Rightarrow> string set \<times> string set" where
  "collect_backwards_reachable events conflicted_set max_auth_depth =
     (let w = backwards_loop events max_auth_depth (map (\<lambda>s. (s, 0)) conflicted_set)
        \<lparr> bw_backwards = {}, bw_missing = {}, bw_visited_depth = [] \<rparr>
      in (bw_backwards w, bw_missing w))"

definition collect_forwards_reachable :: "event_map \<Rightarrow> range_prefilter \<Rightarrow> string list \<Rightarrow> string set" where
  "collect_forwards_reachable events reachability conflicted_set =
     set (filter (\<lambda>i. map_of events i \<noteq> None) (forward_reachable_ids reachability conflicted_set))"

definition intersect_sets :: "string set \<Rightarrow> string set \<Rightarrow> string list" where
  "intersect_sets a b =
     (let (smaller, larger) = (if card a \<le> card b then (a, b) else (b, a))
      in filter (\<lambda>i. i \<in> larger) (sorted_list_of_set smaller))"

definition subgraph_insert :: "event_map \<Rightarrow> string \<Rightarrow> event_map \<Rightarrow> event_map" where
  "subgraph_insert auth_graph i subgraph = (case map_of auth_graph i of
       Some event \<Rightarrow> hm_insert i event subgraph
     | None \<Rightarrow> subgraph)"

definition compute_v2_1_conflicted_subgraph_bounded ::
  "event_map \<Rightarrow> string list \<Rightarrow> nat option \<Rightarrow> (fault, subgraph_result) result" where
  "compute_v2_1_conflicted_subgraph_bounded auth_graph conflicted_set max_auth_depth =
     (if conflicted_set = [] then Inr \<lparr> sg_subgraph = [], sg_missing_auth_events = [] \<rparr>
      else let (backwards_reachable, missing_auth_events) =
                 collect_backwards_reachable auth_graph conflicted_set max_auth_depth
           in rbind (reach_build auth_graph) (\<lambda>reachability.
                let forwards_reachable = collect_forwards_reachable auth_graph reachability conflicted_set
                in Inr \<lparr> sg_subgraph = fold (subgraph_insert auth_graph)
                           (intersect_sets backwards_reachable forwards_reachable) [],
                         sg_missing_auth_events = sorted_list_of_set missing_auth_events \<rparr>))"

definition compute_v2_1_conflicted_subgraph :: "event_map \<Rightarrow> string list \<Rightarrow> (fault, event_map) result" where
  "compute_v2_1_conflicted_subgraph auth_graph conflicted_set =
     rbind (compute_v2_1_conflicted_subgraph_bounded auth_graph conflicted_set None) (\<lambda>s. Inr (sg_subgraph s))"

definition conflicted_subgraph_ids_with_index ::
  "event_map \<Rightarrow> range_prefilter \<Rightarrow> string list \<Rightarrow> nat option \<Rightarrow> string list" where
  "conflicted_subgraph_ids_with_index event_context reachability conflicted_set max_auth_depth =
     (if conflicted_set = [] then []
      else let (backwards_reachable, _) =
                 collect_backwards_reachable event_context conflicted_set max_auth_depth;
               candidates = sorted_list_of_set backwards_reachable
           in map (\<lambda>position. candidates ! position)
                (filter_reachable reachability conflicted_set candidates))"

section \<open>Ancestors\<close>

definition auth_step :: "event_map \<Rightarrow> (string \<times> string) set" where
  "auth_step events = {(n, a). \<exists>ev. map_of events n = Some ev \<and> a \<in> set (ev_auth_events ev)}"

text \<open>The ids that can be reached from the start ids in some number of steps.\<close>

definition ancestors_at :: "event_map \<Rightarrow> string set \<Rightarrow> nat \<Rightarrow> string set" where
  "ancestors_at events start k = (auth_step events ^^ k) `` start"

definition ancestors :: "event_map \<Rightarrow> nat option \<Rightarrow> string set \<Rightarrow> string set" where
  "ancestors events bound start =
     (\<Union>k \<in> {k. case bound of None \<Rightarrow> True | Some d \<Rightarrow> k \<le> d}. ancestors_at events start k)"

definition expands :: "nat option \<Rightarrow> nat \<Rightarrow> bool" where
  "expands bound k \<longleftrightarrow> (case bound of None \<Rightarrow> True | Some d \<Rightarrow> k < d)"

definition walk_ok :: "event_map \<Rightarrow> nat option \<Rightarrow> string set \<Rightarrow> (string \<times> nat) list \<Rightarrow> backwards_walk \<Rightarrow> bool" where
  "walk_ok events bound start queue w \<longleftrightarrow>
     bw_backwards w = dom (map_of (bw_visited_depth w)) \<and>
     bw_missing w = {a. map_of events a = None \<and> (\<exists>n k. map_of (bw_visited_depth w) n = Some k \<and>
        expands bound k \<and> (n, a) \<in> auth_step events)} \<and>
     (\<forall>(n, k) \<in> set queue. n \<in> ancestors_at events start k \<and> (\<forall>d. bound = Some d \<longrightarrow> k \<le> d)) \<and>
     (\<forall>n k. map_of (bw_visited_depth w) n = Some k \<longrightarrow>
        n \<in> ancestors_at events start k \<and> (\<forall>d. bound = Some d \<longrightarrow> k \<le> d)) \<and>
     (\<forall>n \<in> start. map_of (bw_visited_depth w) n = Some 0 \<or> (n, 0) \<in> set queue) \<and>
     (\<forall>n k a. map_of (bw_visited_depth w) n = Some k \<longrightarrow> expands bound k \<longrightarrow> (n, a) \<in> auth_step events \<longrightarrow>
        (\<exists>j. map_of (bw_visited_depth w) a = Some j \<and> j \<le> Suc k) \<or> (\<exists>j. (a, j) \<in> set queue \<and> j \<le> Suc k))"

lemma walk_okD:
  assumes "walk_ok events bound start queue w"
  shows "bw_backwards w = dom (map_of (bw_visited_depth w))"
    "bw_missing w = {a. map_of events a = None \<and> (\<exists>n k. map_of (bw_visited_depth w) n = Some k \<and>
        expands bound k \<and> (n, a) \<in> auth_step events)}"
    "(n, k) \<in> set queue \<Longrightarrow> n \<in> ancestors_at events start k \<and> (\<forall>d. bound = Some d \<longrightarrow> k \<le> d)"
    "map_of (bw_visited_depth w) n = Some k \<Longrightarrow> n \<in> ancestors_at events start k \<and> (\<forall>d. bound = Some d \<longrightarrow> k \<le> d)"
    "n \<in> start \<Longrightarrow> map_of (bw_visited_depth w) n = Some 0 \<or> (n, 0) \<in> set queue"
    "map_of (bw_visited_depth w) n = Some k \<Longrightarrow> expands bound k \<Longrightarrow> (n, a) \<in> auth_step events \<Longrightarrow>
        (\<exists>j. map_of (bw_visited_depth w) a = Some j \<and> j \<le> Suc k) \<or> (\<exists>j. (a, j) \<in> set queue \<and> j \<le> Suc k)"
  using assms unfolding walk_ok_def by blast+

lemma ancestors_step: "n \<in> ancestors_at events start k \<Longrightarrow> (n, a) \<in> auth_step events \<Longrightarrow> a \<in> ancestors_at events start (Suc k)"
  by (auto simp: ancestors_at_def)

lemma expands_mono: "expands bound k \<Longrightarrow> j \<le> k \<Longrightarrow> expands bound j"
  by (auto simp: expands_def split: option.splits)

lemma walk_visit:
  assumes ok: "walk_ok events bound start ((n, k) # queue) w"
    and better: "case map_of (bw_visited_depth w) n of None \<Rightarrow> True | Some old \<Rightarrow> k < old"
    and cited: "set cited = {(a, Suc k) | a. expands bound k \<and> (n, a) \<in> auth_step events}"
    and w': "bw_visited_depth w' = hm_insert n k (bw_visited_depth w)" "bw_backwards w' = insert n (bw_backwards w)"
      "bw_missing w' = bw_missing w \<union> {a. expands bound k \<and> (n, a) \<in> auth_step events \<and> map_of events a = None}"
  shows "walk_ok events bound start (queue @ cited) w'"
proof -
  let ?D = "map_of (bw_visited_depth w)" and ?D' = "map_of (bw_visited_depth w')"
  note W = walk_okD [OF ok]
  have D': "?D' m = (if m = n then Some k else ?D m)" for m by (simp add: w'(1) map_lookups)
  have less: "\<exists>j'. ?D' m = Some j' \<and> j' \<le> j" if "?D m = Some j" for m j
    using that better by (auto simp: D' split: option.splits)
  have nk: "n \<in> ancestors_at events start k" "\<And>d. bound = Some d \<Longrightarrow> k \<le> d" using W(3) [of n k] by simp_all
  have "bw_backwards w' = dom ?D'" using W(1) by (auto simp: w'(1,2) map_lookups)
  moreover have "bw_missing w' = {a. map_of events a = None \<and> (\<exists>m j. ?D' m = Some j \<and> expands bound j \<and> (m, a) \<in> auth_step events)}"
  proof -
    have "(\<exists>m j. ?D' m = Some j \<and> expands bound j \<and> (m, a) \<in> auth_step events) \<longleftrightarrow>
        (\<exists>m j. ?D m = Some j \<and> expands bound j \<and> (m, a) \<in> auth_step events) \<or> expands bound k \<and> (n, a) \<in> auth_step events" for a
      using less by (auto simp: D' split: if_splits) (metis expands_mono option.inject)+
    then show ?thesis unfolding w'(3) W(2) by blast
  qed
  moreover have "\<forall>(m, j) \<in> set (queue @ cited). m \<in> ancestors_at events start j \<and> (\<forall>d. bound = Some d \<longrightarrow> j \<le> d)"
    using W(3) ancestors_step [OF nk(1)] by (auto simp: cited expands_def)
  moreover have "\<forall>m j. ?D' m = Some j \<longrightarrow> m \<in> ancestors_at events start j \<and> (\<forall>d. bound = Some d \<longrightarrow> j \<le> d)"
    using W(4) nk by (auto simp: D')
  moreover have "\<forall>m \<in> start. ?D' m = Some 0 \<or> (m, 0) \<in> set (queue @ cited)"
  proof
    fix m assume "m \<in> start"
    from W(5) [OF this] less [of m 0] show "?D' m = Some 0 \<or> (m, 0) \<in> set (queue @ cited)" by (auto simp: D')
  qed
  moreover have "(\<exists>j. ?D' a = Some j \<and> j \<le> Suc i) \<or> (\<exists>j. (a, j) \<in> set (queue @ cited) \<and> j \<le> Suc i)"
    if "?D' m = Some i" "expands bound i" "(m, a) \<in> auth_step events" for m i a
  proof (cases "m = n")
    case True
    with that show ?thesis by (auto simp: D' cited)
  next
    case False
    with that have "?D m = Some i" by (simp add: D')
    from W(6) [OF this that(2,3)] show ?thesis
    proof
      assume "\<exists>j. ?D a = Some j \<and> j \<le> Suc i"
      then show ?thesis using less by (meson order_trans)
    next
      assume "\<exists>j. (a, j) \<in> set ((n, k) # queue) \<and> j \<le> Suc i"
      then show ?thesis by (auto simp: D')
    qed
  qed
  ultimately show ?thesis unfolding walk_ok_def by blast
qed

lemma walk_leave:
  assumes ok: "walk_ok events bound start ((n, k) # queue) w" and "map_of (bw_visited_depth w) n = Some old" "old \<le> k"
  shows "walk_ok events bound start queue w"
proof -
  note W = walk_okD [OF ok]
  have "\<forall>m \<in> start. map_of (bw_visited_depth w) m = Some 0 \<or> (m, 0) \<in> set queue" using W(5) assms(2,3) by fastforce
  moreover have "(\<exists>j. map_of (bw_visited_depth w) a = Some j \<and> j \<le> Suc i) \<or> (\<exists>j. (a, j) \<in> set queue \<and> j \<le> Suc i)"
    if "map_of (bw_visited_depth w) m = Some i" "expands bound i" "(m, a) \<in> auth_step events" for m i a
    using W(6) [OF that] assms(2,3) by (auto intro: order_trans)
  moreover have "m \<in> ancestors_at events start j \<and> (\<forall>d. bound = Some d \<longrightarrow> j \<le> d)" if "(m, j) \<in> set queue" for m j
    using W(3) [of m j] that by simp
  ultimately show ?thesis using W(1,2,4) unfolding walk_ok_def by blast
qed

lemma backwards_loop_ok:
  "walk_ok events bound start queue w \<Longrightarrow> walk_ok events bound start [] (backwards_loop events bound queue w)"
proof (induction events bound queue w rule: backwards_loop.induct)
  case (2 events bound n k queue w)
  let ?w = "w\<lparr> bw_visited_depth := hm_insert n k (bw_visited_depth w), bw_backwards := insert n (bw_backwards w) \<rparr>"
  show ?case
  proof (cases "case map_of (bw_visited_depth w) n of None \<Rightarrow> True | Some old \<Rightarrow> k < old")
    case False
    then obtain old where "map_of (bw_visited_depth w) n = Some old" "old \<le> k" by (auto split: option.splits)
    from "2.IH"(4) [OF False walk_leave [OF "2.prems" this]] False show ?thesis by simp
  next
    case better: True
    show ?thesis
    proof (cases "expands bound k")
      case False
      then have stop: "case bound of Some max_depth \<Rightarrow> k \<ge> max_depth | None \<Rightarrow> False" by (auto simp: expands_def split: option.splits)
      have "walk_ok events bound start (queue @ []) ?w"
        by (rule walk_visit [OF "2.prems" better]) (use False in simp_all)
      from "2.IH"(1) [OF better refl stop] this show ?thesis using better stop by simp
    next
      case ex: True
      then have go: "\<not> (case bound of Some max_depth \<Rightarrow> k \<ge> max_depth | None \<Rightarrow> False)" by (auto simp: expands_def split: option.splits)
      show ?thesis
      proof (cases "map_of events n")
        case None
        then have "\<not> (n, a) \<in> auth_step events" for a by (simp add: auth_step_def)
        then have "walk_ok events bound start (queue @ []) ?w"
          by (intro walk_visit [OF "2.prems" better]) simp_all
        from "2.IH"(2) [OF better refl go None] this show ?thesis using better go None by simp
      next
        case (Some ev)
        let ?w2 = "?w\<lparr> bw_missing := bw_missing ?w \<union> {a \<in> set (ev_auth_events ev). map_of events a = None} \<rparr>"
        let ?q = "queue @ map (\<lambda>a. (a, k + 1)) (ev_auth_events ev)"
        have st: "(n, a) \<in> auth_step events \<longleftrightarrow> a \<in> set (ev_auth_events ev)" for a by (simp add: auth_step_def Some)
        have "walk_ok events bound start ?q ?w2"
          by (rule walk_visit [OF "2.prems" better]) (use ex st in auto)
        from "2.IH"(3) [OF better refl go Some this] show ?thesis using better go Some by simp
      qed
    qed
  qed
qed simp

lemma walk_finished:
  assumes ok: "walk_ok events bound start [] w"
  shows "bw_backwards w = ancestors events bound start"
    "bw_missing w = {a. map_of events a = None \<and> (\<exists>k. expands bound k \<and> a \<in> ancestors_at events start (Suc k))}"
proof -
  note W = walk_okD [OF ok]
  let ?D = "map_of (bw_visited_depth w)"
  have complete: "\<exists>j \<le> k. ?D x = Some j" if "x \<in> ancestors_at events start k" "\<And>d. bound = Some d \<Longrightarrow> k \<le> d" for x k
    using that
  proof (induction k arbitrary: x)
    case 0
    then show ?case using W(5) by (auto simp: ancestors_at_def)
  next
    case (Suc k)
    from Suc.prems(1) obtain y where y: "y \<in> ancestors_at events start k" "(y, x) \<in> auth_step events"
      by (auto simp: ancestors_at_def)
    have "k \<le> d" if "bound = Some d" for d using Suc.prems(2) [OF that] by simp
    from Suc.IH [OF y(1) this] obtain j where j: "j \<le> k" "?D y = Some j" by blast
    have "expands bound j" using j(1) Suc.prems(2) by (force simp: expands_def split: option.splits)
    from W(6) [OF j(2) this y(2)] j(1) show ?case by (auto intro: order_trans)
  qed
  show "bw_backwards w = ancestors events bound start"
  proof (intro equalityI subsetI)
    fix x assume "x \<in> bw_backwards w"
    then obtain k where "?D x = Some k" unfolding W(1) by blast
    from W(4) [OF this] show "x \<in> ancestors events bound start" by (auto simp: ancestors_def split: option.splits)
  next
    fix x assume "x \<in> ancestors events bound start"
    then obtain k where "x \<in> ancestors_at events start k" "\<And>d. bound = Some d \<Longrightarrow> k \<le> d"
      by (auto simp: ancestors_def split: option.splits)
    from complete [OF this] show "x \<in> bw_backwards w" unfolding W(1) by blast
  qed
  have "(\<exists>n k. ?D n = Some k \<and> expands bound k \<and> (n, a) \<in> auth_step events) \<longleftrightarrow>
      (\<exists>k. expands bound k \<and> a \<in> ancestors_at events start (Suc k))" for a
  proof
    assume "\<exists>n k. ?D n = Some k \<and> expands bound k \<and> (n, a) \<in> auth_step events"
    then show "\<exists>k. expands bound k \<and> a \<in> ancestors_at events start (Suc k)" using W(4) ancestors_step by blast
  next
    assume "\<exists>k. expands bound k \<and> a \<in> ancestors_at events start (Suc k)"
    then obtain k y where k: "expands bound k" "y \<in> ancestors_at events start k" "(y, a) \<in> auth_step events"
      by (auto simp: ancestors_at_def)
    have "k \<le> d" if "bound = Some d" for d using k(1) that by (simp add: expands_def)
    from complete [OF k(2) this] obtain j where j: "j \<le> k" "?D y = Some j" by blast
    have "expands bound j" using expands_mono [OF k(1) j(1)] .
    with j(2) k(3) show "\<exists>n k. ?D n = Some k \<and> expands bound k \<and> (n, a) \<in> auth_step events" by blast
  qed
  then show "bw_missing w = {a. map_of events a = None \<and> (\<exists>k. expands bound k \<and> a \<in> ancestors_at events start (Suc k))}"
    unfolding W(2) by simp
qed

lemma collect_backwards_exact:
  "collect_backwards_reachable events conflicted bound =
    (ancestors events bound (set conflicted),
     {a. map_of events a = None \<and> (\<exists>k. expands bound k \<and> a \<in> ancestors_at events (set conflicted) (Suc k))})"
proof -
  have "walk_ok events bound (set conflicted) (map (\<lambda>s. (s, 0)) conflicted)
      \<lparr> bw_backwards = {}, bw_missing = {}, bw_visited_depth = [] \<rparr>"
    by (auto simp: walk_ok_def ancestors_at_def)
  from walk_finished [OF backwards_loop_ok [OF this]] show ?thesis
    by (simp add: collect_backwards_reachable_def Let_def)
qed

section \<open>The subgraph\<close>

lemma follows_auth_step: "(a, n) \<in> follows graph \<longleftrightarrow> a \<in> keys_of graph \<and> (n, a) \<in> auth_step graph"
proof -
  have "a \<in> keys_of graph \<longleftrightarrow> map_of graph a \<noteq> None" by (simp add: keys_of_def map_of_eq_None_iff)
  then show ?thesis by (cases "map_of graph n") (auto simp: follows_def auth_step_def preds_def dag_edges_def)
qed

lemma ancestors_finite: "finite (ancestors events bound (set conflicted))"
proof -
  have "ancestors_at events (set conflicted) k \<subseteq> set conflicted \<union> cited_ids events" for k
  proof (cases k)
    case (Suc j)
    then show ?thesis by (force simp: ancestors_at_def auth_step_def cited_ids_def dest: map_of_SomeD)
  qed (simp add: ancestors_at_def)
  then have "ancestors events bound (set conflicted) \<subseteq> set conflicted \<union> cited_ids events" by (auto simp: ancestors_def)
  moreover have "finite (set conflicted \<union> cited_ids events)" by (auto simp: cited_ids_def)
  ultimately show ?thesis by (rule finite_subset)
qed

lemma reachable_keys: "reachable_from graph seeds x \<Longrightarrow> x \<in> keys_of graph"
proof -
  assume "reachable_from graph seeds x"
  then obtain s where "(s, x) \<in> (follows graph)\<^sup>*" "s \<in> keys_of graph" by (auto simp: reachable_from_def)
  then show ?thesis by (induction rule: rtrancl_induct) (auto simp: follows_def dest: auth_preds_keys)
qed

lemma intersect_sets_set: "finite a \<Longrightarrow> finite b \<Longrightarrow> set (intersect_sets a b) = a \<inter> b"
  by (auto simp: intersect_sets_def)

lemma subgraph_insert_fold:
  "map_of (fold (subgraph_insert graph) ids m) x =
     (if x \<in> set ids \<and> map_of graph x \<noteq> None then map_of graph x else map_of m x)"
proof (induction ids arbitrary: m)
  case (Cons i ids)
  then show ?case by (auto simp: subgraph_insert_def map_lookups split: option.splits)
qed simp

text \<open>The specification: the events of the graph that are ancestors of a conflicted event, within the bound,
  and descendants of one.\<close>

definition conflicted_subgraph :: "event_map \<Rightarrow> string list \<Rightarrow> nat option \<Rightarrow> string set" where
  "conflicted_subgraph graph conflicted bound =
     {x. x \<in> ancestors graph bound (set conflicted) \<and> reachable_from graph conflicted x}"

definition auth_closed_in :: "event_map \<Rightarrow> event_map \<Rightarrow> bool" where
  "auth_closed_in ctx graph \<longleftrightarrow> (\<forall>n ev. map_of ctx n = Some ev \<longrightarrow> map_of graph n = Some ev \<and>
     (\<forall>a \<in> set (ev_auth_events ev). a \<in> keys_of graph \<longrightarrow> a \<in> keys_of ctx))"

lemma key_lookup: "x \<in> keys_of graph \<longleftrightarrow> map_of graph x \<noteq> None"
  by (simp add: keys_of_def map_of_eq_None_iff)

lemma closed_follows:
  assumes "auth_closed_in ctx graph" "n \<in> keys_of ctx"
  shows "(a, n) \<in> follows graph \<longleftrightarrow> (a, n) \<in> follows ctx"
proof -
  obtain ev where ev: "map_of ctx n = Some ev" using assms(2) by (auto simp: key_lookup)
  then have g: "map_of graph n = Some ev" "\<forall>a \<in> set (ev_auth_events ev). a \<in> keys_of graph \<longrightarrow> a \<in> keys_of ctx"
    using assms(1) by (auto simp: auth_closed_in_def)
  have "a \<in> keys_of ctx \<Longrightarrow> a \<in> keys_of graph" using assms(1) by (auto simp: auth_closed_in_def key_lookup)
  then show ?thesis using g(2) by (auto simp: follows_auth_step auth_step_def ev g(1))
qed

lemma closed_reachable:
  assumes c: "auth_closed_in ctx graph" and x: "x \<in> keys_of ctx"
  shows "reachable_from graph seeds x \<longleftrightarrow> reachable_from ctx seeds x"
proof -
  have down: "(s, x) \<in> (follows ctx)\<^sup>* \<and> s \<in> keys_of ctx" if "(s, x) \<in> (follows graph)\<^sup>*" for s
    using that
  proof (induction rule: converse_rtrancl_induct)
    case (step s y)
    then have sy: "(s, y) \<in> follows ctx" using closed_follows [OF c, of y s] by blast
    then have "s \<in> keys_of ctx" by (simp add: follows_auth_step)
    with sy step.IH show ?case by (blast intro: converse_rtrancl_into_rtrancl)
  qed (simp add: x)
  have up: "(s, x) \<in> (follows graph)\<^sup>*" if "(s, x) \<in> (follows ctx)\<^sup>*" for s
  proof -
    have "follows ctx \<subseteq> follows graph"
    proof (rule subrelI)
      fix a n assume an: "(a, n) \<in> follows ctx"
      then have "n \<in> keys_of ctx" by (auto simp: follows_def dest: auth_preds_keys)
      with closed_follows [OF c] an show "(a, n) \<in> follows graph" by blast
    qed
    with that show ?thesis using rtrancl_mono by blast
  qed
  have "s \<in> keys_of ctx \<Longrightarrow> s \<in> keys_of graph" for s using c by (auto simp: auth_closed_in_def key_lookup)
  then show ?thesis using down up unfolding reachable_from_def by blast
qed

lemma filter_sorted_set:
  assumes "finite A"
  shows "filter P (sorted_list_of_set A) = sorted_list_of_set {x. x \<in> A \<and> P x}"
proof -
  have "sorted_list_of_set (set (filter P (sorted_list_of_set A))) = filter P (sorted_list_of_set A)"
    by (intro sorted_list_of_set.idem_if_sorted_distinct sorted_wrt_filter) simp_all
  moreover have "set (filter P (sorted_list_of_set A)) = {x. x \<in> A \<and> P x}" using assms by auto
  ultimately show ?thesis by simp
qed

lemma index_ids:
  assumes "\<And>seeds cands. filter_reachable r seeds cands = reachable_positions graph seeds cands"
    and c: "auth_closed_in ctx graph" and "set conflicted \<subseteq> keys_of ctx"
  shows "conflicted_subgraph_ids_with_index ctx r conflicted bound =
    sorted_list_of_set (conflicted_subgraph ctx conflicted bound)"
proof -
  let ?A = "ancestors ctx bound (set conflicted)"
  let ?P = "\<lambda>x. x \<in> keys_of graph \<and> reachable_from graph conflicted x"
  have known: "?P x \<longleftrightarrow> reachable_from ctx conflicted x" if "x \<in> ?A" for x
  proof (cases "x \<in> keys_of ctx")
    case True
    then have "x \<in> keys_of graph" using c by (auto simp: auth_closed_in_def key_lookup)
    with closed_reachable [OF c True] show ?thesis by blast
  next
    case False
    from \<open>x \<in> ?A\<close> obtain k where k: "x \<in> ancestors_at ctx (set conflicted) k" by (auto simp: ancestors_def)
    have "x \<notin> set conflicted" using False assms(3) by blast
    with k obtain y where "(y, x) \<in> auth_step ctx" by (cases k) (auto simp: ancestors_at_def)
    then have "x \<notin> keys_of graph" using False c by (auto simp: auth_step_def auth_closed_in_def)
    moreover have "\<not> reachable_from ctx conflicted x" using False reachable_keys by blast
    ultimately show ?thesis by blast
  qed
  have pick: "map (\<lambda>p. xs ! p) (filter (\<lambda>p. P (xs ! p)) [0..<length xs]) = filter P xs" for P and xs :: "string list"
    by (subst (3) map_nth [symmetric]) (simp add: filter_map comp_def)
  have "filter ?P (sorted_list_of_set ?A) = filter (reachable_from ctx conflicted) (sorted_list_of_set ?A)"
    by (intro filter_cong refl) (simp add: known ancestors_finite)
  also have "\<dots> = sorted_list_of_set (conflicted_subgraph ctx conflicted bound)"
    unfolding conflicted_subgraph_def by (rule filter_sorted_set [OF ancestors_finite])
  finally show ?thesis
  proof (cases "conflicted = []")
    case True
    then show ?thesis by (simp add: conflicted_subgraph_ids_with_index_def conflicted_subgraph_def reachable_from_def)
  next
    case False
    assume "filter ?P (sorted_list_of_set ?A) = sorted_list_of_set (conflicted_subgraph ctx conflicted bound)"
    with pick [where P = ?P and xs = "sorted_list_of_set ?A"] False show ?thesis
      by (simp add: conflicted_subgraph_ids_with_index_def collect_backwards_exact assms(1) reachable_positions_def)
  qed
qed

text \<open>C14: The conflicted subgraph is computed for every graph the index can hold: it maps exactly the events that are
  ancestors of a conflicted event, within the bound on the depth when there is one, and descendants of
  a conflicted event, and reports the cited ids that the walk met and the graph lacks. Over an index of a
  larger graph, on an event context that holds the conflicted events and all they cite, the variant
  with the index gives the same ids in order.\<close>

theorem subgraph_exact:
  assumes ok: "events_ok graph" and len: "length graph \<le> 2 ^ 32"
  shows "(\<forall>conflicted bound. \<exists>r. compute_v2_1_conflicted_subgraph_bounded graph conflicted bound = Inr r \<and>
      map_of (sg_subgraph r) = map_of graph |` conflicted_subgraph graph conflicted bound \<and>
      sg_missing_auth_events r = sorted_list_of_set {a. a \<notin> keys_of graph \<and>
        (\<exists>k. expands bound k \<and> a \<in> ancestors_at graph (set conflicted) (Suc k))}) \<and>
    (\<exists>index. reach_build graph = Inr index \<and>
      (\<forall>ctx conflicted bound. auth_closed_in ctx graph \<longrightarrow> set conflicted \<subseteq> keys_of ctx \<longrightarrow>
        conflicted_subgraph_ids_with_index ctx index conflicted bound =
          sorted_list_of_set (conflicted_subgraph ctx conflicted bound)))"
proof -
  from reach_build_ok [OF ok] len obtain index segs where index: "reach_build graph = Inr index"
    and v: "index_view graph index segs" by auto
  have "\<exists>r. compute_v2_1_conflicted_subgraph_bounded graph conflicted bound = Inr r \<and>
      map_of (sg_subgraph r) = map_of graph |` conflicted_subgraph graph conflicted bound \<and>
      sg_missing_auth_events r = sorted_list_of_set {a. a \<notin> keys_of graph \<and>
        (\<exists>k. expands bound k \<and> a \<in> ancestors_at graph (set conflicted) (Suc k))}" for conflicted bound
  proof (cases "conflicted = []")
    case True
    then show ?thesis
      by (auto simp: compute_v2_1_conflicted_subgraph_bounded_def conflicted_subgraph_def reachable_from_def
          ancestors_at_def restrict_map_def)
  next
    case False
    let ?A = "ancestors graph bound (set conflicted)" and ?F = "collect_forwards_reachable graph index conflicted"
    have F: "?F = {x. reachable_from graph conflicted x}"
      using forward_reachable_exact(1) [OF v, of conflicted] reachable_keys
      by (auto simp: collect_forwards_reachable_def key_lookup)
    have "finite ?F" by (simp add: collect_forwards_reachable_def)
    from intersect_sets_set [OF ancestors_finite this]
    have "set (intersect_sets ?A ?F) = conflicted_subgraph graph conflicted bound"
      by (auto simp: F conflicted_subgraph_def)
    then have "map_of (fold (subgraph_insert graph) (intersect_sets ?A ?F) []) = map_of graph |` conflicted_subgraph graph conflicted bound"
      by (intro ext) (auto simp: subgraph_insert_fold restrict_map_def)
    with False show ?thesis
      by (simp add: compute_v2_1_conflicted_subgraph_bounded_def collect_backwards_exact index key_lookup)
  qed
  moreover have "auth_closed_in ctx graph \<longrightarrow> set conflicted \<subseteq> keys_of ctx \<longrightarrow>
      conflicted_subgraph_ids_with_index ctx index conflicted bound =
        sorted_list_of_set (conflicted_subgraph ctx conflicted bound)" for ctx conflicted bound
    using index_ids [OF filter_reachable_ok [OF v]] by blast
  ultimately show ?thesis using index by blast
qed

lemma sample_subgraph: "conflicted_subgraph sample_dag [''b''] (Some 0) = {''b''}"
proof -
  have "''b'' \<in> keys_of sample_dag" by code_simp
  then show ?thesis by (auto simp: conflicted_subgraph_def ancestors_def ancestors_at_def reachable_from_def)
qed

theorem subgraph_exact_witness:
  "\<exists>r ev. compute_v2_1_conflicted_subgraph_bounded sample_dag [''b''] (Some 0) = Inr r \<and>
     map_of sample_dag ''b'' = Some ev \<and> map_of (sg_subgraph r) = [''b'' \<mapsto> ev]"
proof -
  have ok: "events_ok sample_dag" by code_simp
  have len: "length sample_dag \<le> 2 ^ 32" by (simp add: sample_dag_def)
  have "''b'' \<in> keys_of sample_dag" by code_simp
  then obtain ev where ev: "map_of sample_dag ''b'' = Some ev" by (auto simp: key_lookup)
  from conjunct1 [OF subgraph_exact [OF ok len], rule_format, of "[''b'']" "Some 0"] obtain r where
    "compute_v2_1_conflicted_subgraph_bounded sample_dag [''b''] (Some 0) = Inr r"
    "map_of (sg_subgraph r) = map_of sample_dag |` {''b''}" unfolding sample_subgraph by blast
  moreover have "map_of sample_dag |` {''b''} = [''b'' \<mapsto> ev]" using ev by (auto simp: restrict_map_def fun_eq_iff)
  ultimately show ?thesis using ev by auto
qed

end
