(* ===== verification/Redacted_State.thy ===== *)
theory Redacted_State
  imports Redaction_Correct Auth_Correct
begin

text \<open>
  What redacting the events of a room state does to authorization: the keys that the rules of \<open>auth\<close> read
  against the keys that the rules of \<open>rezzy_types\<close> preserve, version by version.
\<close>

section \<open>States with redacted events\<close>

text \<open>Some events of the state, any of them, have been replaced by their redactions.\<close>

definition redacts_state :: "string \<Rightarrow> state_provider \<Rightarrow> state_provider \<Rightarrow> bool" where
  "redacts_state rv s s' \<longleftrightarrow>
     (\<forall>t k. s' t k = s t k \<or> s' t k = map_option (\<lambda>e. redacted e rv) (s t k))"

text \<open>A room state files every event under its own type, with a content that the parser can give.\<close>

definition typed_state :: "state_provider \<Rightarrow> bool" where
  "typed_state s \<longleftrightarrow> (\<forall>t k e. s t k = Some e \<longrightarrow> ev_type e = t \<and> json_wf (ev_content e))"

text \<open>The events whose rules read the \<open>invite\<close> level, which redaction removes before room version 11.\<close>

definition reads_invite :: "lean_event \<Rightarrow> bool" where
  "reads_invite event \<longleftrightarrow> ev_type event = M_ROOM_THIRD_PARTY_INVITE \<or>
     ev_type event = M_ROOM_MEMBER \<and> get_membership (ev_content event) \<in> {Some MEM_INVITE, Some MEM_JOIN}"

lemma v11_rule:
  assumes "room_version_is_v11_or_later rv"
  obtains n where "n \<ge> 11" "\<And>t. redaction_preserved_keys t rv = numeric_redaction_rule t n"
proof -
  from assms obtain f where f: "parse_format rv = Some f" "uses_v11_redaction_rules f"
    by (auto simp: room_version_is_v11_or_later_def split: option.splits)
  show thesis
    by (rule that [of "case f of Numeric n \<Rightarrow> n | _ \<Rightarrow> 11"])
      (use f in \<open>cases f; simp add: redaction_preserved_keys_def\<close>)+
qed

lemma redacted_create_v11:
  assumes "room_version_is_v11_or_later rv" "ev_type e = M_ROOM_CREATE"
  shows "redacted e rv = e"
proof -
  obtain n where "n \<ge> 11" "redaction_preserved_keys (ev_type e) rv = numeric_redaction_rule (ev_type e) n"
    by (rule v11_rule [OF assms(1)]) blast
  then show ?thesis using assms(2) by (simp add: redacted_def numeric_redaction_rule_def redact_content_def)
qed

lemma redacted_invite_v11:
  assumes "room_version_is_v11_or_later rv" "ev_type e = M_ROOM_POWER_LEVELS" "json_wf (ev_content e)"
  shows "get_invite (ev_content (redacted e rv)) = get_invite (ev_content e)"
proof -
  obtain n where "n \<ge> 11" "redaction_preserved_keys (ev_type e) rv = numeric_redaction_rule (ev_type e) n"
    by (rule v11_rule [OF assms(1)]) blast
  moreover from this have "paths_ok [''ban'', ''events'', ''events_default'', ''invite'', ''kick'', ''redact'',
      ''state_default'', ''users'', ''users_default'']"
    using rule_ok_preserved_keys [of "ev_type e" rv] assms(2)
    by (simp add: rule_ok_def numeric_redaction_rule_def)
  ultimately show ?thesis
    using assms(2,3) by (simp add: redacted_def numeric_redaction_rule_def get_invite_def get_pl_def get_redact_plain)
qed

section \<open>What the rules read of a state\<close>

lemma redacts_state_slot:
  assumes "redacts_state rv s s'" "typed_state s"
  obtains (none) "s t k = None" "s' t k = None"
  | (same) e where "s t k = Some e" "s' t k = Some e" "ev_type e = t" "json_wf (ev_content e)"
  | (red) e where "s t k = Some e" "s' t k = Some (redacted e rv)" "ev_type e = t" "json_wf (ev_content e)"
proof (cases "s t k")
  case None
  have "s' t k = s t k \<or> s' t k = map_option (\<lambda>e. redacted e rv) (s t k)"
    using assms(1) unfolding redacts_state_def by blast
  with None show thesis by (intro none) simp_all
next
  case (Some e)
  have "ev_type e = t" "json_wf (ev_content e)"
    using assms(2) Some unfolding typed_state_def by blast+
  moreover have "s' t k = s t k \<or> s' t k = map_option (\<lambda>e. redacted e rv) (s t k)"
    using assms(1) unfolding redacts_state_def by blast
  ultimately show thesis using Some by (elim disjE) (simp_all add: same red)
qed

lemma redacted_protected:
  assumes "json_wf (ev_content e)" "is_supported_room_version rv" "ev_type e = t" "k \<in> set (protected_keys t)"
  shows "get k (ev_content (redacted e rv)) = get k (ev_content e)"
  using redacted_keeps_protected [OF assms(1,2)] assms(3,4) by simp

lemma redacted_levels:
  assumes "json_wf (ev_content e)" "is_supported_room_version rv" "ev_type e = M_ROOM_POWER_LEVELS"
  shows "get_user_power_level (ev_content (redacted e rv)) = get_user_power_level (ev_content e)"
    and "get_event_power_level (ev_content (redacted e rv)) = get_event_power_level (ev_content e)"
    and "get_users_default (ev_content (redacted e rv)) = get_users_default (ev_content e)"
    and "get_events_default (ev_content (redacted e rv)) = get_events_default (ev_content e)"
    and "get_state_default (ev_content (redacted e rv)) = get_state_default (ev_content e)"
    and "get_ban (ev_content (redacted e rv)) = get_ban (ev_content e)"
    and "get_kick (ev_content (redacted e rv)) = get_kick (ev_content e)"
    and "get_redact (ev_content (redacted e rv)) = get_redact (ev_content e)"
  using redacted_protected [OF assms]
  by (simp_all add: fun_eq_iff protected_keys_def get_user_power_level_def get_event_power_level_def
      get_users_default_def get_events_default_def get_state_default_def get_ban_def get_kick_def
      get_redact_def get_object_def get_pl_def)

lemma redacted_names:
  assumes "json_wf (ev_content e)" "is_supported_room_version rv"
  shows "ev_type e = M_ROOM_MEMBER \<Longrightarrow> get_membership (ev_content (redacted e rv)) = get_membership (ev_content e)"
    and "ev_type e = M_ROOM_JOIN_RULES \<Longrightarrow> get_join_rule (ev_content (redacted e rv)) = get_join_rule (ev_content e)"
  using redacted_protected [OF assms refl]
  by (simp_all add: protected_keys_def get_membership_def get_join_rule_def get_str_def)

lemma redacts_state_create:
  assumes "redacts_state rv s s'" "typed_state s" "room_version_is_v11_or_later rv"
  shows "s' M_ROOM_CREATE [] = s M_ROOM_CREATE []"
  using redacted_create_v11 [OF assms(3)]
  by (cases rule: redacts_state_slot [OF assms(1,2), where t = M_ROOM_CREATE and k = "[]"]) auto

lemma redacts_state_flags:
  assumes "redacts_state rv s s'" "typed_state s"
  shows "map_option ev_id (s' t k) = map_option ev_id (s t k)"
    and "map_option ev_sender (s' t k) = map_option ev_sender (s t k)"
    and "reject_if_flagged_auth_state s' t k = reject_if_flagged_auth_state s t k"
  by (cases rule: redacts_state_slot [OF assms, where t = t and k = k];
      simp add: reject_if_flagged_auth_state_def)+

lemma redacts_state_members:
  assumes "redacts_state rv s s'" "typed_state s" "is_supported_room_version rv"
  shows "member_of s' = member_of s" and "room_join_rule s' = room_join_rule s"
proof -
  show "member_of s' = member_of s"
  proof
    fix u show "member_of s' u = member_of s u"
      by (cases rule: redacts_state_slot [OF assms(1,2), where t = M_ROOM_MEMBER and k = u])
        (simp_all add: member_of_def redacted_names(1) [OF _ assms(3)])
  qed
  show "room_join_rule s' = room_join_rule s"
    by (cases rule: redacts_state_slot [OF assms(1,2), where t = M_ROOM_JOIN_RULES and k = "[]"])
      (simp_all add: room_join_rule_def redacted_names(2) [OF _ assms(3)])
qed

text \<open>The levels: with the same creation event, users keep their levels and the room its thresholds; the invite
  level is kept from room version 11 on.\<close>

lemma redacts_state_levels:
  assumes "redacts_state rv s s'" "typed_state s" "is_supported_room_version rv"
    and create: "s' M_ROOM_CREATE [] = s M_ROOM_CREATE []"
  shows "get_sender_power_level u s' version = get_sender_power_level u s version"
    and "get_ban_power_level s' = get_ban_power_level s"
    and "get_kick_power_level s' = get_kick_power_level s"
    and "get_redact_power_level s' = get_redact_power_level s"
    and "t \<noteq> M_ROOM_THIRD_PARTY_INVITE \<Longrightarrow> get_required_power_level t k s' = get_required_power_level t k s"
    and "s' M_ROOM_POWER_LEVELS [] = None \<longleftrightarrow> s M_ROOM_POWER_LEVELS [] = None"
proof -
  note defs = get_sender_power_level_def get_ban_power_level_def get_kick_power_level_def
    get_redact_power_level_def pl_field_or_default_def get_required_power_level_def pl_threshold_for_event_def
  consider "s' M_ROOM_POWER_LEVELS [] = s M_ROOM_POWER_LEVELS []"
    | e where "s M_ROOM_POWER_LEVELS [] = Some e" "s' M_ROOM_POWER_LEVELS [] = Some (redacted e rv)"
      "ev_type e = M_ROOM_POWER_LEVELS" "json_wf (ev_content e)"
    by (cases rule: redacts_state_slot [OF assms(1,2), where t = M_ROOM_POWER_LEVELS and k = "[]"]) auto
  then have "get_sender_power_level u s' version = get_sender_power_level u s version \<and>
    get_ban_power_level s' = get_ban_power_level s \<and> get_kick_power_level s' = get_kick_power_level s \<and>
    get_redact_power_level s' = get_redact_power_level s \<and>
    (t \<noteq> M_ROOM_THIRD_PARTY_INVITE \<longrightarrow> get_required_power_level t k s' = get_required_power_level t k s) \<and>
    (s' M_ROOM_POWER_LEVELS [] = None \<longleftrightarrow> s M_ROOM_POWER_LEVELS [] = None)"
  proof cases
    case 1
    show ?thesis unfolding defs 1 create by (intro conjI impI refl)
  next
    case (2 e)
    show ?thesis
      unfolding defs 2(1,2) create option.case Option.bind.simps redacted_levels [OF 2(4) assms(3) 2(3)]
      by (simp only: if_False simp_thms option.distinct cong: imp_cong)
  qed
  then show "get_sender_power_level u s' version = get_sender_power_level u s version"
    "get_ban_power_level s' = get_ban_power_level s" "get_kick_power_level s' = get_kick_power_level s"
    "get_redact_power_level s' = get_redact_power_level s"
    "t \<noteq> M_ROOM_THIRD_PARTY_INVITE \<Longrightarrow> get_required_power_level t k s' = get_required_power_level t k s"
    "s' M_ROOM_POWER_LEVELS [] = None \<longleftrightarrow> s M_ROOM_POWER_LEVELS [] = None"
    by iprover+
qed

lemma redacts_state_invite:
  assumes "redacts_state rv s s'" "typed_state s" "room_version_is_v11_or_later rv"
  shows "get_invite_power_level s' = get_invite_power_level s"
    and "get_required_power_level M_ROOM_THIRD_PARTY_INVITE k s'
      = get_required_power_level M_ROOM_THIRD_PARTY_INVITE k s"
  by (cases rule: redacts_state_slot [OF assms(1,2), where t = M_ROOM_POWER_LEVELS and k = "[]"];
      simp add: get_invite_power_level_def pl_field_or_default_def get_required_power_level_def
        pl_threshold_for_event_def redacted_invite_v11 [OF assms(3)])+

section \<open>The rules on a state with redacted events\<close>

text \<open>The situations in which redaction keeps everything the rules of an event read.\<close>

definition redaction_safe :: "string \<Rightarrow> lean_event \<Rightarrow> state_provider \<Rightarrow> state_provider \<Rightarrow> bool" where
  "redaction_safe rv event s s' \<longleftrightarrow>
     is_supported_room_version rv \<and> typed_state s \<and> redacts_state rv s s' \<and>
     ev_type event \<noteq> M_ROOM_POWER_LEVELS \<and>
     (room_version_is_v11_or_later rv \<or> \<not> reads_invite event \<and> s' M_ROOM_CREATE [] = s M_ROOM_CREATE [])"

lemma redaction_safe_reads:
  assumes "redaction_safe rv event s s'"
  shows "s' M_ROOM_CREATE [] = s M_ROOM_CREATE []"
    and "member_of s' = member_of s" "room_join_rule s' = room_join_rule s"
    and "get_sender_power_level u s' version = get_sender_power_level u s version"
    and "get_ban_power_level s' = get_ban_power_level s" "get_kick_power_level s' = get_kick_power_level s"
    and "get_redact_power_level s' = get_redact_power_level s"
    and "get_required_power_level (ev_type event) k s' = get_required_power_level (ev_type event) k s"
    and "reads_invite event \<Longrightarrow> get_invite_power_level s' = get_invite_power_level s"
    and "map_option ev_id (s' t k') = map_option ev_id (s t k')"
    and "map_option ev_sender (s' t k') = map_option ev_sender (s t k')"
    and "reject_if_flagged_auth_state s' t k' = reject_if_flagged_auth_state s t k'"
proof -
  have sup: "is_supported_room_version rv" and ty: "typed_state s" and red: "redacts_state rv s s'"
    and v: "room_version_is_v11_or_later rv \<or> \<not> reads_invite event \<and> s' M_ROOM_CREATE [] = s M_ROOM_CREATE []"
    using assms unfolding redaction_safe_def by blast+
  show create: "s' M_ROOM_CREATE [] = s M_ROOM_CREATE []" using v redacts_state_create [OF red ty] by blast
  note levels = redacts_state_levels [OF red ty sup create]
  show "member_of s' = member_of s" "room_join_rule s' = room_join_rule s"
    using redacts_state_members [OF red ty sup] by blast+
  show "get_sender_power_level u s' version = get_sender_power_level u s version"
    "get_ban_power_level s' = get_ban_power_level s" "get_kick_power_level s' = get_kick_power_level s"
    "get_redact_power_level s' = get_redact_power_level s" by (rule levels)+
  show "get_required_power_level (ev_type event) k s' = get_required_power_level (ev_type event) k s"
    using levels(5) redacts_state_invite(2) [OF red ty] v unfolding reads_invite_def by metis
  show "reads_invite event \<Longrightarrow> get_invite_power_level s' = get_invite_power_level s"
    using redacts_state_invite(1) [OF red ty] v by blast
  show "map_option ev_id (s' t k') = map_option ev_id (s t k')"
    "map_option ev_sender (s' t k') = map_option ev_sender (s t k')"
    "reject_if_flagged_auth_state s' t k' = reject_if_flagged_auth_state s t k'"
    by (rule redacts_state_flags [OF red ty])+
qed

lemma redaction_safe_version:
  assumes "redaction_safe rv event s s'"
  shows "validated_room_version_or_v1 s' = validated_room_version_or_v1 s"
    and "room_version_str_or_v1 s' = room_version_str_or_v1 s"
    and "room_version_at_least s' n = room_version_at_least s n"
    and "check_federate event s' = check_federate event s"
  unfolding validated_room_version_or_v1_def room_version_str_or_v1_def room_version_at_least_def
    get_room_version_num_def check_federate_def redaction_safe_reads(1) [OF assms]
  by (rule refl)+

lemma redaction_safe_selection:
  assumes "redaction_safe rv event s s'"
  shows "check_auth_selection event s' version ctx = check_auth_selection event s version ctx"
proof -
  have "check_citation s' seen = check_citation s seen" for seen
  proof
    fix r :: "string \<times> string"
    obtain t k where r: "r = (t, k)" by (rule prod.exhaust)
    show "check_citation s' seen r = check_citation s seen r"
      using redaction_safe_reads(10) [OF assms, of t k] unfolding check_citation_def r
      by (cases "s t k"; cases "s' t k") simp_all
  qed
  then show ?thesis
    unfolding check_auth_selection_def check_create_cited_def redaction_safe_reads(1) [OF assms]
      redaction_safe_version [OF assms] by presburger
qed

lemma redaction_safe_rules:
  assumes "redaction_safe rv event s s'"
  shows "check_aliases event s' = check_aliases event s"
    and "check_redaction_event event s' version = check_redaction_event event s version"
    and "check_sender_membership event s' = check_sender_membership event s"
    and "check_required_power event s' version = check_required_power event s version"
    and "check_power_levels_event event s' version = check_power_levels_event event s version"
proof -
  have ty: "ev_type event \<noteq> M_ROOM_POWER_LEVELS" using assms unfolding redaction_safe_def by blast
  show "check_aliases event s' = check_aliases event s"
    "check_redaction_event event s' version = check_redaction_event event s version"
    "check_sender_membership event s' = check_sender_membership event s"
    unfolding check_aliases_def check_redaction_event_def check_sender_membership_def
      redaction_safe_version [OF assms] redaction_safe_reads(2-7) [OF assms] by (rule refl)+
  show "check_required_power event s' version = check_required_power event s version"
    unfolding check_required_power_def redaction_safe_reads(4,8) [OF assms] using ty by (simp only: simp_thms)
  show "check_power_levels_event event s' version = check_power_levels_event event s version"
    unfolding check_power_levels_event_def using ty by (simp only: simp_thms if_True)
qed

lemma redaction_safe_invite:
  assumes safe: "redaction_safe rv event s s'" and reads: "reads_invite event"
  shows "check_authorising_user event s' u version verifier = check_authorising_user event s u version verifier"
    and "check_invite_rules event s' u c version verifier = check_invite_rules event s u c version verifier"
proof -
  note same = redaction_safe_reads(2-7) [OF safe] redaction_safe_reads(9) [OF safe reads]
  show "check_authorising_user event s' u version verifier = check_authorising_user event s u version verifier"
    unfolding check_authorising_user_def current_membership_def same by (rule refl)
  have issuer: "rbind (ok_or e (s' t k)) (\<lambda>x. f (ev_sender x)) = rbind (ok_or e (s t k)) (\<lambda>x. f (ev_sender x))"
    for e :: auth_error and t k and f :: "string \<Rightarrow> auth_result"
    using redaction_safe_reads(11) [OF safe, of t k] by (cases "s t k"; cases "s' t k") simp_all
  have "check_third_party_invite event s' u c version verifier
      = check_third_party_invite event s u c version verifier"
    unfolding check_third_party_invite_def same issuer
      [where f = "\<lambda>x. ok_then (require (x = ev_sender event) (InvalidStateKey (''sender == '' @ x) (ev_sender event)))
       (let issuer_pl = get_sender_power_level x s version;
            invite_pl = get_invite_power_level s
        in require (\<not> issuer_pl < invite_pl)
             (InsufficientPowerLevel invite_pl issuer_pl ''invite''))"] by (rule refl)
  then show "check_invite_rules event s' u c version verifier = check_invite_rules event s u c version verifier"
    unfolding check_invite_rules_def same by presburger
qed

lemma redaction_safe_transition:
  assumes safe: "redaction_safe rv event s s'" and ty: "ev_type event = M_ROOM_MEMBER"
    and m: "get_membership (ev_content event) = Some m"
  shows "check_transition event s' k m version verifier = check_transition event s k m version verifier"
proof -
  note same = redaction_safe_reads(1-6) [OF safe] redaction_safe_version [OF safe]
  have reads: "reads_invite event" if "m = MEM_JOIN \<or> m = MEM_INVITE"
    using that ty m unfolding reads_invite_def by blast
  have join: "check_join_rules event s' k version verifier = check_join_rules event s k version verifier"
    if "m = MEM_JOIN"
    unfolding check_join_rules_def current_membership_def same
      redaction_safe_invite(1) [OF safe reads [OF disjI1 [OF that]]] by (rule refl)
  have invite: "check_invite_rules event s' k c version verifier = check_invite_rules event s k c version verifier"
    if "m = MEM_INVITE" for c
    by (rule redaction_safe_invite(2) [OF safe reads [OF disjI2 [OF that]]])
  have rest: "current_membership s' = current_membership s"
    "check_leave_rules event s' k c version = check_leave_rules event s k c version"
    "check_ban_rules event s' version = check_ban_rules event s version"
    "check_knock_rules event s' k = check_knock_rules event s k" for c
    unfolding check_leave_rules_def check_ban_rules_def check_knock_rules_def current_membership_def same
    by (rule refl)+
  show ?thesis
    using join invite unfolding check_transition_def rest by (simp only: Let_def cong: if_cong)
qed

lemma redaction_safe_member_event:
  assumes "redaction_safe rv event s s'"
  shows "check_member_event event s' version verifier = check_member_event event s version verifier"
  using redaction_safe_transition [OF assms]
  by (auto simp: check_member_event_def check_membership_pl_hierarchies_def
      redaction_safe_reads(4) [OF assms] split: option.split)

text \<open>C39: redacting events of a room state does not change what the state authorizes. Let any events of a state,
  filed under their types with well-formed contents, be replaced by their redactions under a supported
  room version. From room version 11 on, every event but a power levels event gets the
  same verdict from the redacted state, with the same error, whatever verifier and auth events it is
  checked with. Before room version 11, and under MSC3389, the same holds as long as the creation event is not redacted,
  for all events but power levels events and those whose rules read the invite level, which redaction removes
  there: invites, joins and third party invites. Power levels events are left out because
  redaction removes the notification levels that they are compared with.\<close>

theorem redaction_keeps_verdicts:
  assumes "is_supported_room_version rv" "typed_state s" "redacts_state rv s s'"
    and "ev_type event \<noteq> M_ROOM_POWER_LEVELS"
    and "room_version_is_v11_or_later rv \<or>
      \<not> reads_invite event \<and> s' M_ROOM_CREATE [] = s M_ROOM_CREATE []"
  shows "check_auth_with_context event s' version verifier ctx
    = check_auth_with_context event s version verifier ctx"
proof -
  have safe: "redaction_safe rv event s s'" unfolding redaction_safe_def using assms by blast
  have flagged: "reject_if_flagged_auth_state s' = reject_if_flagged_auth_state s"
    by (intro ext redaction_safe_reads(12) [OF safe])
  show ?thesis
    unfolding check_auth_with_context_def reject_flagged_auth_state_def flagged
      redaction_safe_version [OF safe] redaction_safe_selection [OF safe] redaction_safe_rules [OF safe]
      redaction_safe_member_event [OF safe]
    by (rule refl)
qed

lemma typed_state_provider_of:
  assumes "list_all (\<lambda>e. json_wf (ev_content e)) evs"
  shows "typed_state (provider_of evs)"
  using assms unfolding typed_state_def provider_of_def list_all_iff by (auto dest!: map_of_SomeD)

definition sample_room_v11 :: "lean_event list" where
  "sample_room_v11 =
     [sample_event ''$create'' M_ROOM_CREATE (Some []) user_a (Object [(''room_version'', String ''11'')]),
      sample_event ''$pl'' M_ROOM_POWER_LEVELS (Some []) user_a
        (Object [(''invite'', Number ''50''), (''notifications'', Object [(''room'', Number ''20'')]),
                 (''users'', Object [(user_a, Number ''100''), (user_b, Number ''50'')])]),
      sample_member user_a user_a MEM_JOIN, sample_member user_b user_b MEM_JOIN]"

theorem redaction_keeps_verdicts_witness:
  "check_auth_with_context (sample_member user_b user_c MEM_INVITE)
     (\<lambda>t k. map_option (\<lambda>e. redacted e ''11'') (provider_of sample_room_v11 t k)) V2 None None = Inr ()"
proof -
  let ?s = "provider_of sample_room_v11" and ?event = "sample_member user_b user_c MEM_INVITE"
  have "is_supported_room_version ''11''" "room_version_is_v11_or_later ''11''" by code_simp+
  moreover have "typed_state ?s"
    by (rule typed_state_provider_of)
      (simp add: sample_room_v11_def sample_member_def sample_event_def bm_inv_def user_a_def user_b_def)
  moreover have "redacts_state ''11'' ?s (\<lambda>t k. map_option (\<lambda>e. redacted e ''11'') (?s t k))"
    by (simp add: redacts_state_def)
  moreover have "ev_type ?event \<noteq> M_ROOM_POWER_LEVELS" by (simp add: sample_member_def sample_event_def)
  ultimately have "check_auth_with_context ?event (\<lambda>t k. map_option (\<lambda>e. redacted e ''11'') (?s t k)) V2 None None
      = check_auth_with_context ?event ?s V2 None None"
    by (intro redaction_keeps_verdicts disjI1)
  also have "\<dots> = Inr ()" by code_simp
  finally show ?thesis .
qed

end
