(* ===== verification/Spec2Isabelle.thy ===== *)
theory Spec2Isabelle
  imports Event_Pdu Auth_Chain Resolve_Deltas Json_Parse_Correct Ord_Map_Diff Redact_Batch_Correct Lt_Lattice_Correct Hamt_Gc_Correct
    Subgraph Redacted_State
begin

text \<open>
  Verification of \<open>rezzy\<close>, a Rust library for the rooms of the Matrix protocol. A room is a graph of signed
  events. The library parses and hashes events, decides which of them are authorized, and resolves the
  state of a room when branches of the graph disagree. Rooms are replicated between mutually distrusting
  servers, so two things matter above all: no event may act beyond its sender's authority, and every server
  must compute the same result from the same events, whatever the iteration order of its hash maps.

  \<^bold>\<open>Layers.\<close> Every theory opens with a description of what it holds; the definitions keep the names of the
  code and follow its order.

  \<^item> \<open>Rezzy_Prelude\<close>: results with errors as values, strings, decimal numbers and 64-bit ranges, and the two
    standard maps (\<open>BTreeMap\<close>, \<open>HashMap\<close>) as association lists behind the locale \<open>finite_map\<close>.
  \<^item> \<open>Json_Value\<close>, \<open>Canonical_Json\<close>, \<open>Json_Parse\<close>, \<open>Json_Parse_Correct\<close> (rezzy-json/src/lib.rs and the writer
    of basespec/rezzy_types.rs): values with the rounding of floats, the two canonical writers, the recursive
    descent parser. The writers agree byte for byte; the parser terminates, returns well-formed values and
    inverts the writer.
  \<^item> \<open>Event_Type\<close>, \<open>Room_Version\<close>, \<open>Lean_Event\<close>, \<open>Event_Pdu\<close> (basespec/event_types.rs, rezzy_types.rs,
    warnings.rs): event types, room versions, events with their content accessors, syntactic validation and
    the ingestion of PDUs.
  \<^item> \<open>Redaction\<close>, \<open>Redaction_Correct\<close> (rezzy_types.rs): redaction, the streaming writer of redacted events,
    content and reference hashes over an abstract SHA-256. Redaction does not change the id of an
    event. \<open>Redacted_State\<close> compares the keys redaction preserves with the keys the authorization rules read.
  \<^item> \<open>Power_Level\<close>, \<open>Auth_Rules\<close>, \<open>Check_Auth\<close>, \<open>Auth_Correct\<close>, \<open>Auth_Chain\<close> (auth/mod.rs, auth/user.rs): the
    authorization rules. \<open>check_auth_with_context\<close> is one definition per rule, composed in the order of the
    code; the properties say what an accepted event cannot do. \<open>Auth_Chain\<close> checks a sorted sequence.
  \<^item> \<open>Ord_Sort\<close>, \<open>Kahn_Sort\<close>, \<open>Kahn_Correct\<close>, \<open>Mainline\<close>, \<open>Mainline_Correct\<close> (resolve/sorting.rs): the two event
    orders of state resolution. The locale \<open>ord_contract\<close> is the contract of the comparison functions; it is
    interpreted for each of them. The power order is a topological order chosen greedily by priority, the
    mainline order sorts by the nearest mainline event; both are total and independent of iteration order.
  \<^item> \<open>Local_Auth\<close> (state/at.rs), \<open>Resolve_Iterative\<close>, \<open>Resolve_Correct\<close>, \<open>Resolve_Sound\<close>, \<open>Resolve_Deltas\<close>
    (resolve/iterative.rs): the resolver. It composes the two orders with the authorization check: power
    events first, then the rest along the mainline. The properties are totality; that the result is the agreed
    state with the last accepted event of each other slot, where every step of the run is checked against the
    events accepted before it; and independence of the iteration order of the maps. The delta-reporting variant
    is compared with the plain one, events without a state key included.
  \<^item> \<open>Reach_Index\<close>, \<open>Reach_Topo\<close>, \<open>Reach_Correct\<close> (resolve/reachability.rs, dense_index.rs) and \<open>Subgraph\<close>
    (resolve/subgraph.rs): the reachability indexes over auth events and the conflicted subgraph of room
    version 12. Every traversal gives exactly the reachable candidates; the subgraph is the set of events
    between conflicted events.
  \<^item> \<open>Redact_Batch\<close>, \<open>Redact_Batch_Correct\<close> (auth/mod.rs): the application of a batch of redactions. The
    report is exactly what happened to the events, and every redaction of the batch is processed, those on a
    cycle of redactions included.
  \<^item> \<open>Ord_Map\<close>, \<open>Ord_Map_Iter\<close>, \<open>Ord_Map_Correct\<close>, \<open>Ord_Map_Diff\<close> (state/persistent_ord_map.rs): the path-copying B+tree that
    holds state maps. It refines a sorted association list, and its difference is the difference of the entries.
  \<^item> \<open>Lt_Lattice\<close>, \<open>Lt_Lattice_Correct\<close> (incremental/lthash, state/lthash.rs): the homomorphic hash of a state. The
    incrementally maintained hash is the hash of the resulting state.
  \<^item> \<open>Hamt_Codec\<close>, \<open>Hamt_Codec_Correct\<close>, \<open>Hamt_Node\<close>, \<open>Hamt_Bits\<close>, \<open>Hamt_Correct\<close>, \<open>Hamt_Mutate\<close>, \<open>Hamt_Delta\<close>,
    \<open>Hamt_Delta_Correct\<close>, \<open>Hamt_Gc\<close>, \<open>Hamt_Gc_Correct\<close> (hamt/codec.rs, mod.rs, delta.rs, gc.rs): the persisted hash
    array mapped trie with its node format, mutations, differences and reference counts. Tries refine maps, are
    independent of their history, and retiring a root releases exactly the nodes nothing else needs.

  \<^bold>\<open>Modelling.\<close> Structures are records, enums are datatypes, fallible functions return \<open>Inl\<close> of an error or
  \<open>Inr\<close>. Strings are lists of bytes. A \<open>HashMap\<close> is a list of entries with distinct keys in some order: what
  is proved for every list holds for every iteration order. State maps are partial functions from slots (type
  and state key) to event ids. Machine integers are integers with their range written out where the code
  saturates, wraps or parses. The Rust types are generic in the id, content and key types; they are modelled
  at \<open>String\<close>, \<open>Value\<close> and \<open>String\<close>. SHA-256, BLAKE3, base64, signature verification and float formatting (\<open>ryu\<close>) are
  parameters, as are the leaf codecs, the routing hash and the node resolver of the trie. Pointer equality of
  shared nodes is an argument too, of which only soundness is used. A vector of flags that marks visited
  nodes is the list of the marked nodes.

  \<^bold>\<open>Fuel.\<close> The Kahn loop runs with one round per event of the input and the JSON parser with two calls per
  byte; \<open>kahn_total\<close> and \<open>parse_returns\<close> show that this is always enough. All other loops are functions with
  a termination proof: breadth first searches by the number of ids not yet seen, the auth chain expansion by
  the number of events not yet promoted; the topological passes of \<open>collect_topology\<close> and of the redaction
  batch have one unit of fuel per node and are shown to finish; the recursions over a trie are bounded by its
  depth of 52 levels, as in the code. \<open>PENDING\<close> bounds the length of the mainline that the position search
  can handle: event sets of about \<open>2^64\<close> events are excluded by a hypothesis.

  \<^bold>\<open>Not modelled.\<close> The JSON tokenizer and masked parser; the state-at-event pipeline and graph queries of
  state/at.rs; resolution from several state maps (resolve/multi.rs) and the exploratory resolvers
  (semilattice.rs, cdo.rs, v3.rs); Merkle hashes; the audits of the trie; set reconciliation. Signing, the command
  line, FFI and logging are input and output around the library and third-party cryptography.

  \<^bold>\<open>Findings.\<close> \<open>Resolve_Deltas.screening_differs\<close> shows that the delta-reporting resolver can accept an event of
  a banned user that the plain resolver drops; \<open>Resolve_Sound.memo_table_changes_local_auth\<close> that the local
  auth context depends on what is memoized; \<open>Canonical_Json.validate_canonical_integer\<close> that very large
  integers pass the strict canonical check; \<open>Hamt_Gc_Correct.advance_releases_counted_node\<close> that advancing a chain of
  roots in one step can report a node as released that is still counted; \<open>Json_Parse_Correct.form_feed_accepted\<close> that
  the parser takes a form feed for white space. The reachability indexes are documented to panic on cycles;
  \<open>Reach_Correct.reach_index_exact\<close> shows that they are built.
\<close>

end
